(* ===== verification/Prelude.thy ===== *)
theory Prelude
  imports Main "HOL-Library.Sublist"
begin

text \<open>
  The shared vocabulary of the development: Python exceptions as values, the result type
  that every fallible operation of the model returns, its sequencing operator, the
  monadic map over a list, and the generic lemmas the component theories use.

  A Python expression that may raise is a value of \<open>'a res\<close>: \<open>Inl e\<close> is the raised
  exception, \<open>Inr x\<close> the value. Messages are not modelled, only the exception class and,
  where two raises of one class have to be told apart, a short tag.
\<close>

subsection \<open>Exceptions and results\<close>

datatype py_exc =
    KeyError
  | IndexError
  | ValueError string
  | TypeError string
  | AssertionError
  | OverflowError
  | NotImplementedError
  | JaxprTypeError string
  | TypePromotionError
  | InconclusiveDimensionOperation
  | UnexpectedDimVar
  | ZeroDivisionError
  | StopIteration
  | RecursionError
  | KeyReuseError
  | FileNotFoundError
  | AttributeError
  | InexactQuotient \<comment> \<open>not an exception of the source: a float quotient outside the range in which it is exact\<close>
  | PrimError string \<comment> \<open>an exception raised by the implementation of a primitive\<close>

type_synonym 'a res = "py_exc + 'a"

named_theorems res_simps \<open>equations that run a result-valued program\<close>

definition rbind :: "'a res \<Rightarrow> ('a \<Rightarrow> 'b res) \<Rightarrow> 'b res" where
  "rbind m f = (case m of Inl e \<Rightarrow> Inl e | Inr x \<Rightarrow> f x)"

lemma rbind_Inl [simp]: "rbind (Inl e) f = Inl e"
  by (simp add: rbind_def)

lemma rbind_Inr [simp]: "rbind (Inr x) f = f x"
  by (simp add: rbind_def)

lemma rbind_eq_Inr [res_simps]: "rbind m f = Inr y \<longleftrightarrow> (\<exists>x. m = Inr x \<and> f x = Inr y)"
  by (cases m) simp_all

lemma rbind_eq_Inl [res_simps]:
  "rbind m f = Inl e \<longleftrightarrow> m = Inl e \<or> (\<exists>x. m = Inr x \<and> f x = Inl e)"
  by (cases m) simp_all

lemma rbind_Inr_right [simp]: "rbind m Inr = m"
  by (cases m) simp_all

lemma rbind_assoc: "rbind (rbind m f) g = rbind m (\<lambda>x. rbind (f x) g)"
  by (cases m) simp_all

lemma rbind_pair: "rbind m (\<lambda>(a, b). f a b) = Inr y \<longleftrightarrow> (\<exists>a b. m = Inr (a, b) \<and> f a b = Inr y)"
  by (auto simp: res_simps)

lemma rbind_triple:
  "rbind m (\<lambda>((a, b), c). f a b c) = Inr y \<longleftrightarrow> (\<exists>a b c. m = Inr ((a, b), c) \<and> f a b c = Inr y)"
  by (auto simp: res_simps)

lemma rbind_cong [fundef_cong]:
  "m = m' \<Longrightarrow> (\<And>x. m' = Inr x \<Longrightarrow> f x = g x) \<Longrightarrow> rbind m f = rbind m' g"
  by (cases m') simp_all

lemma rbind_split:
  "P (rbind m f) \<longleftrightarrow> (\<forall>e. m = Inl e \<longrightarrow> P (Inl e)) \<and> (\<forall>x. m = Inr x \<longrightarrow> P (f x))"
  by (cases m) simp_all

text \<open>\<open>assert c\<close>: the Python statement, as a result.\<close>

definition rassert :: "bool \<Rightarrow> unit res" where
  "rassert c = (if c then Inr () else Inl AssertionError)"

lemma rassert_simps [simp]:
  "rassert True = Inr ()" "rassert False = Inl AssertionError"
  by (simp_all add: rassert_def)

lemma rassert_eq_Inr [res_simps]: "rassert c = Inr u \<longleftrightarrow> c"
  by (simp add: rassert_def)

subsection \<open>Mapping and folding in the result type\<close>

fun rmap :: "('a \<Rightarrow> 'b res) \<Rightarrow> 'a list \<Rightarrow> 'b list res" where
  "rmap f [] = Inr []"
| "rmap f (x # xs) = rbind (f x) (\<lambda>y. rbind (rmap f xs) (\<lambda>ys. Inr (y # ys)))"

lemma rmap_cong [fundef_cong]:
  "xs = ys \<Longrightarrow> (\<And>x. x \<in> set ys \<Longrightarrow> f x = g x) \<Longrightarrow> rmap f xs = rmap g ys"
  by (induction ys arbitrary: xs) (auto split: sum.splits)

lemma rmap_length: "rmap f xs = Inr ys \<Longrightarrow> length ys = length xs"
  by (induction xs arbitrary: ys) (auto simp: res_simps)

lemma rmap_Inr_iff:
  "rmap f xs = Inr ys \<longleftrightarrow> length ys = length xs \<and> (\<forall>i < length xs. f (xs ! i) = Inr (ys ! i))"
proof (induction xs arbitrary: ys)
  case Nil
  then show ?case by auto
next
  case (Cons x xs)
  show ?case
  proof (cases ys)
    case Nil
    then show ?thesis by (auto simp: res_simps)
  next
    case (Cons y ys')
    have "rmap f (x # xs) = Inr (y # ys') \<longleftrightarrow> f x = Inr y \<and> rmap f xs = Inr ys'"
      by (auto simp: res_simps)
    with Cons.IH [of ys'] Cons show ?thesis
      by (auto simp: less_Suc_eq_0_disj)
  qed
qed

lemma rmap_total: "(\<And>x. x \<in> set xs \<Longrightarrow> f x = Inr (g x)) \<Longrightarrow> rmap f xs = Inr (map g xs)"
  by (induction xs) simp_all

lemma rmap_Inr_comp [simp]: "rmap (\<lambda>x. Inr (g x)) xs = Inr (map g xs)"
  by (simp add: rmap_total)

lemma rmap_append:
  "rmap f (xs @ ys) = rbind (rmap f xs) (\<lambda>us. rbind (rmap f ys) (\<lambda>vs. Inr (us @ vs)))"
  by (induction xs) (auto simp: rbind_assoc split: rbind_split)

lemma rmap_set: "rmap f xs = Inr ys \<Longrightarrow> x \<in> set xs \<Longrightarrow> \<exists>y \<in> set ys. f x = Inr y"
  by (induction xs arbitrary: ys) (auto simp: res_simps)

text \<open>A loop that threads an accumulator through the elements and may raise.\<close>

fun rfold :: "('a \<Rightarrow> 's \<Rightarrow> 's res) \<Rightarrow> 'a list \<Rightarrow> 's \<Rightarrow> 's res" where
  "rfold f [] s = Inr s"
| "rfold f (x # xs) s = rbind (f x s) (rfold f xs)"

lemma rfold_cong [fundef_cong]:
  "xs = ys \<Longrightarrow> s = t \<Longrightarrow> (\<And>x s. x \<in> set ys \<Longrightarrow> f x s = g x s) \<Longrightarrow> rfold f xs s = rfold g ys t"
proof (induction ys arbitrary: xs s t)
  case Nil
  then show ?case by simp
next
  case (Cons y ys)
  then have "rfold f ys = rfold g ys" by (intro ext) simp
  with Cons.prems show ?case by simp
qed

lemma rfold_append: "rfold f (xs @ ys) s = rbind (rfold f xs s) (rfold f ys)"
proof (induction xs arbitrary: s)
  case Nil
  then show ?case by simp
next
  case (Cons x xs)
  then have "rfold f (xs @ ys) = (\<lambda>s. rbind (rfold f xs s) (rfold f ys))" by (intro ext)
  then show ?case by (simp add: rbind_assoc)
qed

lemma rfold_invariant:
  assumes "rfold f xs s = Inr t" and "P s"
    and "\<And>x s s'. x \<in> set xs \<Longrightarrow> P s \<Longrightarrow> f x s = Inr s' \<Longrightarrow> P s'"
  shows "P t"
  using assms by (induction xs arbitrary: s) (auto simp: res_simps)

lemma rfold_total:
  "(\<And>x s. x \<in> set xs \<Longrightarrow> f x s = Inr (g x s)) \<Longrightarrow> rfold f xs s = Inr (fold g xs s)"
  by (induction xs arbitrary: s) simp_all

subsection \<open>Python sequences\<close>

text \<open>
  \<open>seq_get xs i\<close> is \<open>xs[i]\<close> for a non-negative index, \<open>py_get\<close> the general indexing with
  negative indices counted from the end.
\<close>

definition seq_get :: "'a list \<Rightarrow> nat \<Rightarrow> 'a res" where
  "seq_get xs i = (if i < length xs then Inr (xs ! i) else Inl IndexError)"

definition py_get :: "'a list \<Rightarrow> int \<Rightarrow> 'a res" where
  "py_get seq k =
     (if k < - int (length seq) \<or> int (length seq) \<le> k then Inl IndexError
      else if k < 0 then Inr (seq ! nat (int (length seq) + k))
      else Inr (seq ! nat k))"

lemma seq_get_eq_Inr [res_simps]: "seq_get xs i = Inr x \<longleftrightarrow> i < length xs \<and> x = xs ! i"
  by (auto simp: seq_get_def)

lemma py_get_nat: "py_get xs (int i) = seq_get xs i"
  by (simp add: py_get_def seq_get_def)

text \<open>The slices \<open>xs[:n]\<close> and \<open>xs[n:]\<close>, with Python's reading of negative bounds.\<close>

definition py_bound :: "'a list \<Rightarrow> int \<Rightarrow> nat" where
  "py_bound xs n = (if n < 0 then nat (int (length xs) + n) else nat n)"

definition slice_to :: "'a list \<Rightarrow> int \<Rightarrow> 'a list" where
  "slice_to xs n = take (py_bound xs n) xs"

definition slice_from :: "'a list \<Rightarrow> int \<Rightarrow> 'a list" where
  "slice_from xs n = drop (py_bound xs n) xs"

lemma slice_to_nat [simp]: "slice_to xs (int n) = take n xs"
  by (simp add: slice_to_def py_bound_def)

lemma slice_from_nat [simp]: "slice_from xs (int n) = drop n xs"
  by (simp add: slice_from_def py_bound_def)

lemma slice_to_from [simp]: "slice_to xs n @ slice_from xs n = xs"
  by (simp add: slice_to_def slice_from_def)

subsection \<open>Lists selected by a mask\<close>

text \<open>\<open>[x for x, b in zip(xs, bs) if b]\<close>\<close>

fun keep :: "bool list \<Rightarrow> 'a list \<Rightarrow> 'a list" where
  "keep (b # bs) (x # xs) = (if b then x # keep bs xs else keep bs xs)"
| "keep _ _ = []"

lemma keep_Nil [simp]: "keep bs [] = []" "keep [] xs = []"
  by (cases bs; simp) (cases xs; simp)

lemma keep_map: "keep bs (map f xs) = map f (keep bs xs)"
  by (induction bs xs rule: keep.induct) auto

lemma keep_zip_filter: "keep bs xs = map snd (filter fst (zip bs xs))"
  by (induction bs xs rule: keep.induct) auto

lemma set_keep: "length bs = length xs \<Longrightarrow>
    set (keep bs xs) = {xs ! i | i. i < length xs \<and> bs ! i}"
  by (force simp: keep_zip_filter set_zip)

lemma set_keep_subset: "set (keep bs xs) \<subseteq> set xs"
  by (induction bs xs rule: keep.induct) auto

lemma length_keep: "length bs = length xs \<Longrightarrow> length (keep bs xs) = count_list bs True"
  by (induction bs xs rule: keep.induct) auto

lemma keep_replicate_True: "keep (replicate (length xs) True) xs = xs"
  by (induction xs) auto

lemma keep_pred: "keep (map P xs) xs = filter P xs"
  by (induction xs) auto

lemma keep_append:
  "length as = length xs \<Longrightarrow> keep (as @ bs) (xs @ ys) = keep as xs @ keep bs ys"
  by (induction as xs rule: list_induct2) auto

lemma list_all2_keep:
  "list_all2 P xs ys \<Longrightarrow> list_all2 P (keep bs xs) (keep bs ys)"
proof (induction bs xs arbitrary: ys rule: keep.induct)
  case (1 b bs x xs)
  then show ?case by (cases ys) auto
qed simp_all

subsection \<open>Dictionaries that keep their order\<close>

text \<open>\<open>dict_set d k v\<close> is \<^verbatim>\<open>dict(d, k=v)\<close> on the items of \<open>d\<close>: a present key keeps its place.\<close>

fun dict_set :: "('k \<times> 'v) list \<Rightarrow> 'k \<Rightarrow> 'v \<Rightarrow> ('k \<times> 'v) list" where
  "dict_set [] k v = [(k, v)]"
| "dict_set ((k', v') # d) k v = (if k' = k then (k, v) # d else (k', v') # dict_set d k v)"

lemma map_of_dict_set [simp]: "map_of (dict_set d k v) = (map_of d)(k \<mapsto> v)"
  by (induction d k v rule: dict_set.induct) (auto simp: fun_eq_iff)

lemma keys_dict_set: "set (map fst (dict_set cs t c)) = insert t (set (map fst cs))"
  by (induction cs t c rule: dict_set.induct) auto

end
