(* ===== verification/PyUtil.thy ===== *)
theory PyUtil
  imports Prelude "HOL-Library.Product_Lexorder"
begin

text \<open>
  The list helpers of \<^verbatim>\<open>jax/_src/util.py\<close> that the program transformations are written
  with: lockstep maps, masks (\<^verbatim>\<open>partition_list\<close>, \<^verbatim>\<open>merge_lists\<close>), splitting and
  substitution, axis arithmetic, tuples with one entry changed, and \<^verbatim>\<open>OrderedSet\<close>.
  The lemmas are the round trips and bounds their callers rely on.
\<close>

subsection \<open>Lockstep iteration\<close>

text \<open>
  \<open>safe_map f xs ys\<close> and \<open>foreach f xs ys\<close> walk two sequences together and raise where
  one ends before the other. \<open>foreach\<close> is called for its effect: its state is explicit.
\<close>

fun safe_map2 :: "('a \<Rightarrow> 'b \<Rightarrow> 'c res) \<Rightarrow> 'a list \<Rightarrow> 'b list \<Rightarrow> 'c list res" where
  "safe_map2 f [] [] = Inr []"
| "safe_map2 f (x # xs) (y # ys) =
     rbind (f x y) (\<lambda>z. rbind (safe_map2 f xs ys) (\<lambda>zs. Inr (z # zs)))"
| "safe_map2 f _ _ = Inl (ValueError ''safe_map'')"

fun foreach2 :: "('a \<Rightarrow> 'b \<Rightarrow> 's \<Rightarrow> 's res) \<Rightarrow> 'a list \<Rightarrow> 'b list \<Rightarrow> 's \<Rightarrow> 's res" where
  "foreach2 f [] [] s = Inr s"
| "foreach2 f (x # xs) (y # ys) s = rbind (f x y s) (foreach2 f xs ys)"
| "foreach2 f _ _ s = Inl (ValueError ''foreach'')"

definition safe_zip :: "'a list \<Rightarrow> 'b list \<Rightarrow> ('a \<times> 'b) list res" where
  "safe_zip xs ys = (if length xs = length ys then Inr (zip xs ys) else Inl (ValueError ''safe_zip''))"

definition unzip2 :: "('a \<times> 'b) list \<Rightarrow> 'a list \<times> 'b list" where
  "unzip2 xys = (map fst xys, map snd xys)"

definition unzip3 :: "('a \<times> 'b \<times> 'c) list \<Rightarrow> 'a list \<times> 'b list \<times> 'c list" where
  "unzip3 xyzs = (map fst xyzs, map (fst \<circ> snd) xyzs, map (snd \<circ> snd) xyzs)"

lemma foreach2_Nil_fun [simp]: "foreach2 f [] [] = Inr"
  by (rule ext) simp

lemma foreach2_length: "foreach2 f xs ys s = Inr t \<Longrightarrow> length xs = length ys"
  by (induction f xs ys s rule: foreach2.induct) (auto simp: res_simps)

lemma foreach2_total:
  "length xs = length ys \<Longrightarrow> (\<And>x y s. f x y s = Inr (g x y s)) \<Longrightarrow>
   foreach2 f xs ys s = Inr (fold (\<lambda>(x, y). g x y) (zip xs ys) s)"
  by (induction xs ys arbitrary: s rule: list_induct2) simp_all

lemma safe_map2_length:
  "safe_map2 f xs ys = Inr zs \<Longrightarrow> length xs = length ys \<and> length zs = length xs"
  by (induction f xs ys arbitrary: zs rule: safe_map2.induct) (auto simp: res_simps)

lemma safe_map2_pure:
  "length xs = length ys \<Longrightarrow>
   safe_map2 (\<lambda>x y. Inr (f x y)) xs ys = Inr (map (\<lambda>(x, y). f x y) (zip xs ys))"
  by (induction xs ys rule: list_induct2) simp_all

lemma unzip2_zip: "length xs = length ys \<Longrightarrow> unzip2 (zip xs ys) = (xs, ys)"
  by (simp add: unzip2_def)

text \<open>\<^verbatim>\<open>bool | Sequence[bool]\<close>, and its reading as one flag per variable.\<close>

datatype flags = FlagAll bool | FlagSeq "bool list"

fun flag_list :: "flags \<Rightarrow> nat \<Rightarrow> bool list" where
  "flag_list (FlagAll b) n = replicate n b"
| "flag_list (FlagSeq bs) n = bs"

subsection \<open>Substituting, splitting and partitioning\<close>

definition subvals :: "'a list \<Rightarrow> (nat \<times> 'a) list \<Rightarrow> 'a list res" where
  "subvals lst replace =
     rfold (\<lambda>(i, v) l. if i < length l then Inr (l[i := v]) else Inl IndexError) replace lst"

fun split_list_loop :: "'a list \<Rightarrow> int list \<Rightarrow> 'a list list" where
  "split_list_loop args [] = [args]"
| "split_list_loop args (n # ns) = slice_to args n # split_list_loop (slice_from args n) ns"

definition split_list :: "'a list \<Rightarrow> int list \<Rightarrow> 'a list list" where
  "split_list args ns = split_list_loop args ns"

fun split_list_checked_loop :: "'a list \<Rightarrow> int list \<Rightarrow> 'a list list" where
  "split_list_checked_loop args [] = []"
| "split_list_checked_loop args (n # ns) =
     slice_to args n # split_list_checked_loop (slice_from args n) ns"

definition split_list_checked :: "'a list \<Rightarrow> int list \<Rightarrow> 'a list list res" where
  "split_list_checked args ns =
     (if sum_list ns = int (length args) \<and> (\<forall>n \<in> set ns. 0 \<le> n)
      then Inr (split_list_checked_loop args ns) else Inl AssertionError)"

fun partition_loop :: "bool list \<Rightarrow> 'a list \<Rightarrow> 'a list \<times> 'a list" where
  "partition_loop (b # bs) (x # xs) =
     (let (l0, l1) = partition_loop bs xs in if b then (l0, x # l1) else (x # l0, l1))"
| "partition_loop _ _ = ([], [])"

definition partition_list :: "bool list \<Rightarrow> 'a list \<Rightarrow> ('a list \<times> 'a list) res" where
  "partition_list bs l =
     (if length bs = length l then Inr (partition_loop bs l) else Inl AssertionError)"

fun merge_loop :: "bool list \<Rightarrow> 'a list \<Rightarrow> 'a list \<Rightarrow> ('a list \<times> 'a list \<times> 'a list) res" where
  "merge_loop [] l0 l1 = Inr ([], l0, l1)"
| "merge_loop (True # bs) l0 l1 =
     (case l1 of [] \<Rightarrow> Inl StopIteration
      | x # l1' \<Rightarrow> rbind (merge_loop bs l0 l1') (\<lambda>(out, r). Inr (x # out, r)))"
| "merge_loop (False # bs) l0 l1 =
     (case l0 of [] \<Rightarrow> Inl StopIteration
      | x # l0' \<Rightarrow> rbind (merge_loop bs l0' l1) (\<lambda>(out, r). Inr (x # out, r)))"

definition merge_lists :: "bool list \<Rightarrow> 'a list \<Rightarrow> 'a list \<Rightarrow> 'a list res" where
  "merge_lists bs l0 l1 =
     (if count_list bs True = length l1 \<and> length bs - count_list bs True = length l0
      then rbind (merge_loop bs l0 l1)
             (\<lambda>(out, r0, r1). if r0 = [] \<and> r1 = [] then Inr out else Inl AssertionError)
      else Inl AssertionError)"

fun subs_loop :: "('s \<Rightarrow> 'a option res) \<Rightarrow> 's list \<Rightarrow> 'a list \<Rightarrow> ('a list \<times> 'a list) res" where
  "subs_loop pick [] base = Inr ([], base)"
| "subs_loop pick (i # subs) base =
     rbind (pick i) (\<lambda>r. case r of
       Some x \<Rightarrow> rbind (subs_loop pick subs base) (\<lambda>(out, b). Inr (x # out, b))
     | None \<Rightarrow> (case base of [] \<Rightarrow> Inl StopIteration
                | x # base' \<Rightarrow> rbind (subs_loop pick subs base') (\<lambda>(out, b). Inr (x # out, b))))"

definition pick_src :: "'a list \<Rightarrow> int option \<Rightarrow> 'a option res" where
  "pick_src src i = (case i of None \<Rightarrow> Inr None | Some j \<Rightarrow> rbind (py_get src j) (\<lambda>x. Inr (Some x)))"

definition subs_list :: "int option list \<Rightarrow> 'a list \<Rightarrow> 'a list \<Rightarrow> 'a list res" where
  "subs_list subs src base =
     rbind (subs_loop (pick_src src) subs base)
       (\<lambda>(out, rest). if rest = [] then Inr out else Inl AssertionError)"

definition subs_list2 ::
  "int option list \<Rightarrow> int option list \<Rightarrow> 'a list \<Rightarrow> 'a list \<Rightarrow> 'a list \<Rightarrow> 'a list res" where
  "subs_list2 subs1 subs2 src1 src2 base =
     (if length subs1 = length subs2
      then rbind (subs_loop (\<lambda>(f1, f2). if f1 \<noteq> None then pick_src src1 f1 else pick_src src2 f2)
                   (zip subs1 subs2) base)
             (\<lambda>(out, rest). if rest = [] then Inr out else Inl AssertionError)
      else Inl AssertionError)"

fun unflatten_loop :: "'a list \<Rightarrow> int list \<Rightarrow> ('a list list \<times> 'a list) res" where
  "unflatten_loop xs [] = Inr ([], xs)"
| "unflatten_loop xs (n # ns) =
     (if nat n \<le> length xs
      then rbind (unflatten_loop (drop (nat n) xs) ns) (\<lambda>(out, r). Inr (take (nat n) xs # out, r))
      else Inl StopIteration)"

definition unflatten :: "'a list \<Rightarrow> int list \<Rightarrow> 'a list list res" where
  "unflatten xs ns =
     rbind (unflatten_loop xs ns) (\<lambda>(out, r). if r = [] then Inr out else Inl AssertionError)"

text \<open>Splitting loses nothing; a checked split yields pieces of the requested sizes.\<close>

lemma concat_split_list: "concat (split_list args ns) = args"
proof -
  have "concat (split_list_loop args ns) = args"
    by (induction args ns rule: split_list_loop.induct) simp_all
  then show ?thesis by (simp add: split_list_def)
qed

lemma length_split_list: "length (split_list args ns) = Suc (length ns)"
proof -
  have "length (split_list_loop args ns) = Suc (length ns)"
    by (induction args ns rule: split_list_loop.induct) simp_all
  then show ?thesis by (simp add: split_list_def)
qed

lemma split_list_one: "0 \<le> n \<Longrightarrow> split_list args [n] = [take (nat n) args, drop (nat n) args]"
  by (simp add: split_list_def slice_to_def slice_from_def py_bound_def)

lemma sum_list_nonneg_int: "\<forall>n \<in> set ns. 0 \<le> (n::int) \<Longrightarrow> 0 \<le> sum_list ns"
  by (induction ns) auto

lemma split_list_checked_loop_sizes:
  "sum_list ns = int (length args) \<Longrightarrow> \<forall>n \<in> set ns. 0 \<le> n \<Longrightarrow>
   concat (split_list_checked_loop args ns) = args \<and>
   map (int \<circ> length) (split_list_checked_loop args ns) = ns"
proof (induction args ns rule: split_list_checked_loop.induct)
  case (1 args)
  then show ?case by simp
next
  case (2 args n ns)
  have n: "0 \<le> n" "n \<le> int (length args)"
    using "2.prems" sum_list_nonneg_int [of ns] by auto
  then have "sum_list ns = int (length (slice_from args n))"
    using "2.prems" by (simp add: slice_from_def py_bound_def)
  moreover have "length (slice_to args n) = nat n"
    using n by (simp add: slice_to_def py_bound_def)
  ultimately show ?case using "2.IH" "2.prems" n by simp
qed

text \<open>Partitioning by a mask and merging back are inverse to each other.\<close>

lemma partition_loop_keep: "length bs = length xs \<Longrightarrow>
    partition_loop bs xs = (keep (map Not bs) xs, keep bs xs)"
  by (induction bs xs rule: list_induct2) (auto split: prod.splits)

lemma merge_loop_partition:
  "length bs = length xs \<Longrightarrow> partition_loop bs xs = (l0, l1) \<Longrightarrow>
   merge_loop bs (l0 @ r0) (l1 @ r1) = Inr (xs, r0, r1)"
proof (induction bs xs arbitrary: l0 l1 rule: list_induct2)
  case Nil
  then show ?case by simp
next
  case (Cons b bs x xs)
  obtain m0 m1 where m: "partition_loop bs xs = (m0, m1)" by (cases "partition_loop bs xs")
  with Cons show ?case by (cases b) auto
qed

lemma count_list_Not: "count_list (map Not bs) True = length bs - count_list bs True"
proof -
  have "count_list (map Not bs) True + count_list bs True = length bs" by (induction bs) auto
  then show ?thesis by simp
qed

lemma count_list_le_length: "count_list bs x \<le> length bs"
  by (induction bs) auto

lemma partition_loop_lengths:
  "length bs = length xs \<Longrightarrow> partition_loop bs xs = (l0, l1) \<Longrightarrow>
   length l1 = count_list bs True \<and> length l0 = length bs - count_list bs True"
  by (auto simp: partition_loop_keep length_keep count_list_Not)

lemma merge_partition_list:
  "partition_list bs xs = Inr (l0, l1) \<Longrightarrow> merge_lists bs l0 l1 = Inr xs"
  using merge_loop_partition [of bs xs l0 l1 "[]" "[]"] partition_loop_lengths [of bs xs l0 l1]
  by (auto simp: partition_list_def merge_lists_def split: if_splits)

lemma merge_loop_total:
  "count_list bs True = length l1 \<Longrightarrow> length bs - count_list bs True = length l0 \<Longrightarrow>
   \<exists>xs. merge_loop bs l0 l1 = Inr (xs, [], []) \<and> partition_loop bs xs = (l0, l1) \<and>
        length xs = length bs"
proof (induction bs arbitrary: l0 l1)
  case Nil
  then show ?case by simp
next
  case (Cons b bs)
  show ?case
  proof (cases b)
    case True
    with Cons.prems obtain x l1' where "l1 = x # l1'" by (cases l1) auto
    with Cons.IH [of l1' l0] Cons.prems True show ?thesis by auto
  next
    case False
    with Cons.prems count_list_le_length [of bs True] obtain x l0' where "l0 = x # l0'"
      by (cases l0) auto
    have "length bs - length l1 = length l0'"
      using Cons.prems False \<open>l0 = x # l0'\<close> count_list_le_length [of bs True] by auto
    with Cons.IH [of l1 l0'] Cons.prems False \<open>l0 = x # l0'\<close> show ?thesis by auto
  qed
qed

lemma partition_merge_lists:
  "merge_lists bs l0 l1 = Inr xs \<Longrightarrow> partition_list bs xs = Inr (l0, l1)"
  using merge_loop_total [of bs l1 l0]
  by (auto simp: merge_lists_def partition_list_def res_simps split: if_splits)

lemma merge_lists_total:
  "count_list bs True = length l1 \<Longrightarrow> length bs - count_list bs True = length l0 \<Longrightarrow>
   \<exists>xs. merge_lists bs l0 l1 = Inr xs"
  using merge_loop_total [of bs l1 l0] by (auto simp: merge_lists_def)

lemma unflatten_loop_concat:
  "unflatten_loop xs ns = Inr (out, r) \<Longrightarrow>
   concat out @ r = xs \<and> map length out = map nat ns"
  by (induction xs ns arbitrary: out r rule: unflatten_loop.induct)
     (auto simp: res_simps split: if_splits)

lemma unflatten_loop_total:
  "sum_list (map nat ns) \<le> length xs \<Longrightarrow> \<exists>out r. unflatten_loop xs ns = Inr (out, r)"
proof (induction xs ns rule: unflatten_loop.induct)
  case (1 xs)
  then show ?case by simp
next
  case (2 xs n ns)
  then have n: "nat n \<le> length xs" and "sum_list (map nat ns) \<le> length (drop (nat n) xs)" by auto
  with "2.IH" obtain out r where "unflatten_loop (drop (nat n) xs) ns = Inr (out, r)" by blast
  with n show ?case by simp
qed

subsection \<open>Axes\<close>

definition canonicalize_axis :: "int \<Rightarrow> int \<Rightarrow> int res" where
  "canonicalize_axis axis num_dims =
     (if \<not> (- num_dims \<le> axis \<and> axis < num_dims) then Inl (ValueError ''axis out of bounds'')
      else if axis < 0 then Inr (axis + num_dims) else Inr axis)"

datatype axes = AxisNone | AxisInt int | AxisSeq "int list"

definition canonicalize_axis_tuple :: "axes \<Rightarrow> int \<Rightarrow> bool \<Rightarrow> int list res" where
  "canonicalize_axis_tuple axis ndim allow_duplicate =
     (case axis of
        AxisNone \<Rightarrow> Inr [0..ndim - 1]
      | AxisSeq xs \<Rightarrow> rbind (rmap (\<lambda>i. canonicalize_axis i ndim) xs)
          (\<lambda>ys. if \<not> allow_duplicate \<and> \<not> distinct ys then Inl (ValueError ''repeated axis'') else Inr ys)
      | AxisInt i \<Rightarrow> rbind (canonicalize_axis i ndim) (\<lambda>y. Inr [y]))"

text \<open>
  \<open>moveaxis\<close> returns the permutation handed to \<^verbatim>\<open>x.transpose\<close>, or \<open>None\<close> where the array is
  returned as it is. \<open>list_insert d s\<close> is \<^verbatim>\<open>perm.insert(d, s)\<close>; \<^verbatim>\<open>sorted\<close> orders the pairs
  lexicographically.
\<close>

definition list_insert :: "int \<Rightarrow> 'a \<Rightarrow> 'a list \<Rightarrow> 'a list" where
  "list_insert d s xs = take (nat d) xs @ s # drop (nat d) xs"

fun axis_list :: "axes \<Rightarrow> int list" where
  "axis_list AxisNone = []"
| "axis_list (AxisInt i) = [i]"
| "axis_list (AxisSeq xs) = xs"

definition insert_axes :: "(int \<times> int) list \<Rightarrow> int list \<Rightarrow> int list" where
  "insert_axes ps perm = fold (\<lambda>(d, s) p. list_insert d s p) ps perm"

definition moveaxis :: "nat \<Rightarrow> axes \<Rightarrow> axes \<Rightarrow> int list option res" where
  "moveaxis ndim src dst =
     (if src = dst then Inr None
      else rbind (rmap (\<lambda>a. canonicalize_axis a (int ndim)) (axis_list src)) (\<lambda>ss.
           rbind (rmap (\<lambda>a. canonicalize_axis a (int ndim)) (axis_list dst)) (\<lambda>ds.
           Inr (Some (insert_axes (sort (zip ds ss))
                 (filter (\<lambda>i. i \<notin> set ss) [0..int ndim - 1]))))))"

definition ceil_of_ratio :: "int \<Rightarrow> int \<Rightarrow> int res" where
  "ceil_of_ratio x y = (if y = 0 then Inl ZeroDivisionError else Inr (- ((- x) div y)))"

lemma canonicalize_axis_range:
  "canonicalize_axis axis n = Inr a \<Longrightarrow> 0 \<le> a \<and> a < n \<and> a mod n = axis mod n"
proof -
  assume "canonicalize_axis axis n = Inr a"
  then have a: "0 \<le> a" "a < n" "a = axis \<or> a = axis + n"
    by (auto simp: canonicalize_axis_def split: if_splits)
  from a(3) have "a mod n = axis mod n" by (metis mod_add_self2)
  with a show ?thesis by simp
qed

lemma ceil_of_ratio_bounds:
  "0 < y \<Longrightarrow> ceil_of_ratio x y = Inr q \<Longrightarrow> x \<le> q * y \<and> (q - 1) * y < x"
proof -
  assume y: "0 < y" and q: "ceil_of_ratio x y = Inr q"
  define k r where "k = (- x) div y" and "r = (- x) mod y"
  have "- x = k * y + r" "0 \<le> r" "r < y" and "q = - k"
    using y q by (simp_all add: k_def r_def ceil_of_ratio_def)
  then show ?thesis by (simp add: algebra_simps)
qed

lemma insert_axes_snoc: "insert_axes (ps @ [(d, s)]) perm = list_insert d s (insert_axes ps perm)"
  by (simp add: insert_axes_def)

lemma length_insert_axes: "length (insert_axes ps perm) = length perm + length ps"
proof (induction ps rule: rev_induct)
  case Nil
  then show ?case by (simp add: insert_axes_def)
next
  case (snoc p ps)
  then show ?case by (cases p) (simp add: insert_axes_snoc list_insert_def)
qed

lemma set_insert_axes: "set (insert_axes ps perm) = set (map snd ps) \<union> set perm"
proof (induction ps rule: rev_induct)
  case Nil
  then show ?case by (simp add: insert_axes_def)
next
  case (snoc p ps)
  obtain d s where p: "p = (d, s)" by (cases p)
  have "set (list_insert d s xs) = insert s (set xs)" for xs
    by (metis append_take_drop_id list_insert_def list.set(2) set_append Un_insert_right)
  with snoc p show ?case by (auto simp: insert_axes_snoc)
qed

lemma list_insert_nth:
  "nat d \<le> length xs \<Longrightarrow> list_insert d s xs ! i =
     (if i < nat d then xs ! i else if i = nat d then s else xs ! (i - 1))"
  by (auto simp: list_insert_def nth_append min_def nth_Cons' not_less)

lemma insert_axes_nth:
  assumes "sorted_wrt (\<lambda>p q. fst p < fst q) ps"
    and "\<forall>i < length ps. 0 \<le> fst (ps ! i) \<and> fst (ps ! i) \<le> int (length perm + i)"
  shows "\<forall>(d, s) \<in> set ps. insert_axes ps perm ! nat d = s"
  using assms
proof (induction ps rule: rev_induct)
  case Nil
  then show ?case by simp
next
  case (snoc p ps)
  obtain d s where p: "p = (d, s)" by (cases p)
  let ?q = "insert_axes ps perm"
  have d: "0 \<le> d" "nat d \<le> length ?q"
    using snoc.prems(2) p by (auto simp: length_insert_axes dest: spec [of _ "length ps"])
  have "\<forall>(d', s') \<in> set ps. ?q ! nat d' = s'"
    using snoc.IH snoc.prems by (auto simp: sorted_wrt_append nth_append split: if_splits)
  moreover have "0 \<le> d' \<and> d' < d" if "(d', s') \<in> set ps" for d' s'
  proof -
    from that obtain i where "i < length ps" "ps ! i = (d', s')" by (auto simp: in_set_conv_nth)
    then have "0 \<le> d'" using snoc.prems(2) by (auto simp: nth_append dest!: spec [of _ i])
    with that snoc.prems(1) p show ?thesis by (auto simp: sorted_wrt_append)
  qed
  ultimately show ?case
    using d p by (fastforce simp: insert_axes_snoc list_insert_nth)
qed

subsection \<open>Tuples with one entry changed\<close>

definition tuple_insert :: "'a list \<Rightarrow> int \<Rightarrow> 'a \<Rightarrow> 'a list res" where
  "tuple_insert t idx v =
     (if 0 \<le> idx \<and> idx \<le> int (length t)
      then Inr (slice_to t idx @ [v] @ slice_from t idx) else Inl AssertionError)"

definition tuple_delete :: "'a list \<Rightarrow> int \<Rightarrow> 'a list res" where
  "tuple_delete t idx =
     (if 0 \<le> idx \<and> idx < int (length t)
      then Inr (slice_to t idx @ slice_from t (idx + 1)) else Inl AssertionError)"

definition tuple_update :: "'a list \<Rightarrow> int \<Rightarrow> 'a \<Rightarrow> 'a list res" where
  "tuple_update t idx v =
     (if 0 \<le> idx \<and> idx < int (length t)
      then Inr (slice_to t idx @ [v] @ slice_from t (idx + 1)) else Inl AssertionError)"

lemma tuple_insert_delete: "tuple_insert t i v = Inr t' \<Longrightarrow> tuple_delete t' i = Inr t"
  by (auto simp: tuple_insert_def tuple_delete_def slice_to_def slice_from_def py_bound_def
      nat_add_distrib split: if_splits)

lemma tuple_update_nth:
  "tuple_update t i v = Inr t' \<Longrightarrow> t' = t[nat i := v]"
  by (auto simp: tuple_update_def slice_to_def slice_from_def py_bound_def nat_add_distrib
      upd_conv_take_nth_drop split: if_splits)

subsection \<open>Sets that keep insertion order\<close>

text \<open>
  \<open>stable_unique\<close> is \<^verbatim>\<open>dict.fromkeys(it).keys()\<close>: first occurrences, in order.
  An \<open>OrderedSet\<close> keeps a hash set beside a list; its invariant is that the list is
  distinct and enumerates the set.
\<close>

fun stable_unique_acc :: "'a list \<Rightarrow> 'a list \<Rightarrow> 'a list" where
  "stable_unique_acc ks [] = ks"
| "stable_unique_acc ks (x # xs) = stable_unique_acc (if x \<in> set ks then ks else ks @ [x]) xs"

definition stable_unique :: "'a list \<Rightarrow> 'a list" where
  "stable_unique xs = stable_unique_acc [] xs"

record 'a OrderedSet =
  elts_set :: "'a set"
  elts_list :: "'a list"

definition os_init :: "'a OrderedSet" where
  "os_init = \<lparr>elts_set = {}, elts_list = []\<rparr>"

definition os_add :: "'a \<Rightarrow> 'a OrderedSet \<Rightarrow> 'a OrderedSet" where
  "os_add elt s =
     (if elt \<notin> elts_set s
      then s\<lparr>elts_set := insert elt (elts_set s), elts_list := elts_list s @ [elt]\<rparr> else s)"

definition os_update :: "'a list \<Rightarrow> 'a OrderedSet \<Rightarrow> 'a OrderedSet" where
  "os_update elts s = fold os_add elts s"

definition os_contains :: "'a OrderedSet \<Rightarrow> 'a \<Rightarrow> bool" where
  "os_contains s elt \<longleftrightarrow> elt \<in> elts_set s"

definition os_len :: "'a OrderedSet \<Rightarrow> nat" where
  "os_len s = length (elts_list s)"

definition os_inv :: "'a OrderedSet \<Rightarrow> bool" where
  "os_inv s \<longleftrightarrow> distinct (elts_list s) \<and> set (elts_list s) = elts_set s"

lemma os_init_inv [simp]: "os_inv os_init"
  by (simp add: os_inv_def os_init_def)

lemma os_add_inv [simp]: "os_inv s \<Longrightarrow> os_inv (os_add x s)"
  by (auto simp: os_inv_def os_add_def)

lemma os_update_inv [simp]: "os_inv s \<Longrightarrow> os_inv (os_update xs s)"
  unfolding os_update_def by (induction xs arbitrary: s) auto

lemma os_add_set [simp]: "elts_set (os_add x s) = insert x (elts_set s)"
  by (auto simp: os_add_def)

lemma os_update_set [simp]: "elts_set (os_update xs s) = elts_set s \<union> set xs"
  unfolding os_update_def by (induction xs arbitrary: s) auto

lemma os_add_prefix: "prefix (elts_list s) (elts_list (os_add x s))"
  by (simp add: os_add_def)

lemma stable_unique_acc_props:
  "distinct ks \<Longrightarrow> distinct (stable_unique_acc ks xs) \<and>
     set (stable_unique_acc ks xs) = set ks \<union> set xs \<and> prefix ks (stable_unique_acc ks xs)"
proof (induction ks xs rule: stable_unique_acc.induct)
  case (1 ks)
  then show ?case by simp
next
  case (2 ks x xs)
  then show ?case by (auto intro: append_prefixD)
qed

lemma stable_unique_distinct: "distinct (stable_unique xs)"
  and stable_unique_set: "set (stable_unique xs) = set xs"
  using stable_unique_acc_props [of "[]" xs] by (simp_all add: stable_unique_def)

lemma stable_unique_os: "stable_unique xs = elts_list (os_update xs os_init)"
proof -
  have "os_inv s \<Longrightarrow> stable_unique_acc (elts_list s) xs = elts_list (os_update xs s)" for s :: "'a OrderedSet"
    unfolding os_update_def
  proof (induction xs arbitrary: s)
    case Nil
    then show ?case by simp
  next
    case (Cons x xs)
    have "elts_list (os_add x s) = (if x \<in> set (elts_list s) then elts_list s else elts_list s @ [x])"
      using Cons.prems by (auto simp: os_inv_def os_add_def)
    then have "stable_unique_acc (elts_list s) (x # xs) =
               stable_unique_acc (elts_list (os_add x s)) xs" by simp
    with Cons.IH [of "os_add x s"] Cons.prems show ?case by simp
  qed
  from this [OF os_init_inv] show ?thesis by (simp add: stable_unique_def os_init_def)
qed

end
