(* ===== verification/Effects.thy ===== *)
theory Effects
  imports Prelude
begin

text \<open>
  \<^verbatim>\<open>jax/_src/effects.py\<close>: the side effects a primitive application or a jaxpr may have, the
  class hierarchy they are tested against, and \<^verbatim>\<open>EffectTypeSet\<close>, the registry of effect
  classes that says which effects a transformation may ignore. The \<^verbatim>\<open>JaxprInputEffect\<close>
  subclasses (\<^verbatim>\<open>state/types.py\<close>) refer to an input by its position.
\<close>

datatype effect =
    ReadEffect (input_index: int)
  | WriteEffect (input_index: int)
  | AccumEffect (input_index: int)
  | NamedAxisEffect string
  | InternalMutableArrayEffect
  | GenericEffect string
  | OtherEffect string \<comment> \<open>an effect class of another module, by name\<close>

datatype effect_type =
    Effect_ty | JaxprInputEffect_ty | RefEffect_ty | ReadEffect_ty | WriteEffect_ty | AccumEffect_ty
  | NamedAxisEffect_ty | InternalMutableArrayEffect_ty | GenericEffect_ty | OtherEffect_ty string

text \<open>\<open>isinstance_effect eff t\<close> is \<^verbatim>\<open>isinstance(eff, t)\<close>.\<close>

fun effect_supertypes :: "effect \<Rightarrow> effect_type set" where
  "effect_supertypes (ReadEffect _) = {ReadEffect_ty, RefEffect_ty, JaxprInputEffect_ty, Effect_ty}"
| "effect_supertypes (WriteEffect _) = {WriteEffect_ty, RefEffect_ty, JaxprInputEffect_ty, Effect_ty}"
| "effect_supertypes (AccumEffect _) = {AccumEffect_ty, RefEffect_ty, JaxprInputEffect_ty, Effect_ty}"
| "effect_supertypes (NamedAxisEffect _) = {NamedAxisEffect_ty, Effect_ty}"
| "effect_supertypes InternalMutableArrayEffect = {InternalMutableArrayEffect_ty, Effect_ty}"
| "effect_supertypes (GenericEffect _) = {GenericEffect_ty, Effect_ty}"
| "effect_supertypes (OtherEffect n) = {OtherEffect_ty n, Effect_ty}"

definition isinstance_effect :: "effect \<Rightarrow> effect_type \<Rightarrow> bool" where
  "isinstance_effect eff t \<longleftrightarrow> t \<in> effect_supertypes eff"

definition is_input_effect :: "effect \<Rightarrow> bool" where
  "is_input_effect eff \<longleftrightarrow> isinstance_effect eff JaxprInputEffect_ty"

text \<open>\<^verbatim>\<open>eff.replace(input_index=i)\<close>, for an input effect.\<close>

fun replace_index :: "effect \<Rightarrow> int \<Rightarrow> effect" where
  "replace_index (ReadEffect _) i = ReadEffect i"
| "replace_index (WriteEffect _) i = WriteEffect i"
| "replace_index (AccumEffect _) i = AccumEffect i"
| "replace_index e _ = e"

text \<open>The registry: a set of effect classes.\<close>

type_synonym EffectTypeSet = "effect_type set"

definition add_type :: "EffectTypeSet \<Rightarrow> effect_type \<Rightarrow> EffectTypeSet" where
  "add_type s t = insert t s"

definition eff_contains :: "EffectTypeSet \<Rightarrow> effect \<Rightarrow> bool" where
  "eff_contains s eff \<longleftrightarrow> (\<exists>t \<in> s. isinstance_effect eff t)"

definition filter_in :: "EffectTypeSet \<Rightarrow> effect list \<Rightarrow> effect list" where
  "filter_in s effs = filter (eff_contains s) effs"

definition filter_not_in :: "EffectTypeSet \<Rightarrow> effect list \<Rightarrow> effect list" where
  "filter_not_in s effs = filter (\<lambda>e. \<not> eff_contains s e) effs"

lemma is_input_effect_simps [simp]:
  "is_input_effect (ReadEffect i)" "is_input_effect (WriteEffect i)" "is_input_effect (AccumEffect i)"
  "\<not> is_input_effect (NamedAxisEffect n)" "\<not> is_input_effect InternalMutableArrayEffect"
  "\<not> is_input_effect (GenericEffect n)" "\<not> is_input_effect (OtherEffect n)"
  by (simp_all add: is_input_effect_def isinstance_effect_def)

lemma replace_index_not_input: "\<not> is_input_effect e \<Longrightarrow> replace_index e i = e"
  by (cases e) simp_all

lemma replace_index_input [simp]: "is_input_effect (replace_index e i) = is_input_effect e"
  by (cases e) simp_all

lemma replace_index_index: "is_input_effect e \<Longrightarrow> input_index (replace_index e i) = i"
  by (cases e) simp_all

lemma replace_index_id: "is_input_effect e \<Longrightarrow> replace_index e (input_index e) = e"
  by (cases e) simp_all

lemma supertypes_replace_index [simp]: "effect_supertypes (replace_index e i) = effect_supertypes e"
  by (cases e) simp_all

lemma eff_contains_replace_index [simp]: "eff_contains s (replace_index e i) = eff_contains s e"
  by (simp add: eff_contains_def isinstance_effect_def)

lemma eff_contains_add_type:
  "eff_contains (add_type s t) e \<longleftrightarrow> isinstance_effect e t \<or> eff_contains s e"
  by (auto simp: eff_contains_def add_type_def)

lemma filter_in_not_in: "set (filter_in s effs) \<union> set (filter_not_in s effs) = set effs"
  by (auto simp: filter_in_def filter_not_in_def)

end
