(* ===== verification/Jaxpr.thy ===== *)
theory Jaxpr
  imports PyUtil Effects
begin

text \<open>
  \<^verbatim>\<open>jax/_src/core.py\<close>: the jaxpr language (variables, literals, equations, jaxprs) and its
  interpreter \<^verbatim>\<open>eval_jaxpr\<close>, with the liveness table \<^verbatim>\<open>last_used\<close> that lets it free a
  variable after its last use. The type variables are the runtime values \<open>'v\<close> (any Python
  object) and the abstract values \<open>'t\<close>; \<open>'s\<close> is the state effectful primitives act on.

  The model drops the fields that no operation here reads: debug information, source
  locations, evaluation contexts and the \<^verbatim>\<open>is_high\<close> flag. Python compares variables by
  identity; here they are equal when their counter and annotations are.
\<close>

subsection \<open>Syntax\<close>

datatype ('v, 't) var =
    Var (vcount: nat) (vaval: 't) (initial_qdd: "'v option")
  | DropVar (vcount: nat) (vaval: 't)

datatype ('v, 't) atom = AVar "('v, 't) var" | ALit (lit_val: 'v) (lit_aval: 't)

record prim =
  pname :: string
  multiple_results :: bool
  call_primitive :: bool
  ref_primitive :: bool
  ref_allocating :: bool

datatype ('v, 't) jaxpr =
    Jaxpr (constvars: "('v, 't) var list") (invars: "('v, 't) var list")
          (outvars: "('v, 't) atom list") (eqns: "('v, 't) eqn list") (jaxpr_effects: "effect set")
and ('v, 't) eqn =
    JaxprEqn (eqn_invars: "('v, 't) atom list") (eqn_outvars: "('v, 't) var list")
             (primitive: prim) (params: "(string \<times> ('v, 't) param) list")
             (eqn_effects: "effect set")
and ('v, 't) param =
    PVal 'v | PJaxpr "('v, 't) jaxpr" | PClosed "('v, 't) jaxpr" "'v list"
  | PTuple "('v, 't) param list"

type_synonym ('v, 't) params = "(string \<times> ('v, 't) param) list"

text \<open>\<^verbatim>\<open>ClosedJaxpr\<close>: a jaxpr with values for its constant variables.\<close>

datatype ('v, 't) closed_jaxpr = ClosedJaxpr (cjaxpr: "('v, 't) jaxpr") (jconsts: "'v list")

definition mk_closed_jaxpr :: "('v, 't) jaxpr \<Rightarrow> 'v list \<Rightarrow> ('v, 't) closed_jaxpr res" where
  "mk_closed_jaxpr jaxpr cs =
     (if length cs = length (constvars jaxpr) then Inr (ClosedJaxpr jaxpr cs) else Inl AssertionError)"

fun is_dropvar :: "('v, 't) var \<Rightarrow> bool" where
  "is_dropvar (DropVar _ _) = True"
| "is_dropvar (Var _ _ _) = False"

fun var_qdd :: "('v, 't) var \<Rightarrow> 'v option" where
  "var_qdd (Var _ _ q) = q"
| "var_qdd (DropVar _ _) = None"

fun atom_aval :: "('v, 't) atom \<Rightarrow> 't" where
  "atom_aval (AVar v) = vaval v"
| "atom_aval (ALit _ t) = t"

definition in_avals :: "('v, 't) jaxpr \<Rightarrow> 't list" where
  "in_avals jaxpr = map vaval (invars jaxpr)"

definition out_avals :: "('v, 't) jaxpr \<Rightarrow> 't list" where
  "out_avals jaxpr = map atom_aval (outvars jaxpr)"

text \<open>The variables among some atoms: \<^verbatim>\<open>[v for v in atoms if not isinstance(v, Literal)]\<close>.\<close>

fun atom_vars :: "('v, 't) atom list \<Rightarrow> ('v, 't) var list" where
  "atom_vars [] = []"
| "atom_vars (AVar v # xs) = v # atom_vars xs"
| "atom_vars (ALit _ _ # xs) = atom_vars xs"

lemma set_atom_vars: "set (atom_vars xs) = {v. AVar v \<in> set xs}"
  by (induction xs rule: atom_vars.induct) auto

lemma atom_vars_append [simp]: "atom_vars (xs @ ys) = atom_vars xs @ atom_vars ys"
  by (induction xs rule: atom_vars.induct) auto

text \<open>The jaxprs found in the parameters of an equation, one level deep.\<close>

fun param_vals :: "('v, 't) param \<Rightarrow> ('v, 't) param list" where
  "param_vals (PTuple ps) = ps"
| "param_vals p = [p]"

fun param_jaxpr :: "('v, 't) param \<Rightarrow> ('v, 't) jaxpr list" where
  "param_jaxpr (PJaxpr j) = [j]"
| "param_jaxpr (PClosed j _) = [j]"
| "param_jaxpr _ = []"

definition jaxprs_in_params :: "('v, 't) params \<Rightarrow> ('v, 't) jaxpr list" where
  "jaxprs_in_params ps = concat (map (\<lambda>(_, val). concat (map param_jaxpr (param_vals val))) ps)"

definition subjaxprs :: "('v, 't) jaxpr \<Rightarrow> ('v, 't) jaxpr list" where
  "subjaxprs jaxpr = concat (map (\<lambda>eqn. jaxprs_in_params (params eqn)) (eqns jaxpr))"

definition join_effects :: "effect set list \<Rightarrow> effect set" where
  "join_effects es = \<Union> (set es)"

lemma param_jaxpr_size: "j \<in> set (param_jaxpr p) \<Longrightarrow> size j < size p"
  by (cases p) auto

lemma jaxprs_in_params_size:
  assumes "j \<in> set (jaxprs_in_params ps)"
  shows "size j < size_list (size_prod (\<lambda>_. 0) size) ps"
proof -
  from assms obtain n val p where v: "(n, val) \<in> set ps" "p \<in> set (param_vals val)"
      "j \<in> set (param_jaxpr p)"
    by (auto simp: jaxprs_in_params_def)
  have "size p \<le> size val"
    using v(2) by (cases val) (auto dest: size_list_estimation' [OF _ order_refl, where f = size])
  with param_jaxpr_size [OF v(3)] have "size j < size val" by simp
  also have "size val < size_prod (\<lambda>_. 0) size (n, val)" by simp
  also have "\<dots> \<le> size_list (size_prod (\<lambda>_. 0) size) ps"
    using size_list_estimation' [OF v(1) order_refl] .
  finally show ?thesis .
qed

text \<open>The jaxpr a call primitive carries, \<^verbatim>\<open>params["call_jaxpr"]\<close>, closed or not.\<close>

fun param_call_jaxpr :: "('v, 't) param \<Rightarrow> ('v, 't) jaxpr option" where
  "param_call_jaxpr (PJaxpr j) = Some j"
| "param_call_jaxpr (PClosed j _) = Some j"
| "param_call_jaxpr _ = None"

lemma map_of_call_jaxpr:
  assumes "map_of ps k = Some p" and "param_call_jaxpr p = Some j"
  shows "j \<in> set (jaxprs_in_params ps)"
proof -
  from assms(1) have p: "(k, p) \<in> set ps" by (rule map_of_SomeD)
  from assms(2) have "j \<in> set (concat (map param_jaxpr (param_vals p)))" by (cases p) auto
  with p show ?thesis unfolding jaxprs_in_params_def by force
qed

lemma subjaxprs_size:
  assumes "j \<in> set (subjaxprs jaxpr)" shows "size j < size jaxpr"
proof -
  from assms obtain eqn where e: "eqn \<in> set (eqns jaxpr)" "j \<in> set (jaxprs_in_params (params eqn))"
    by (auto simp: subjaxprs_def)
  from jaxprs_in_params_size [OF e(2)] have "size j < size eqn" by (cases eqn) simp
  also have "size eqn \<le> size_list size (eqns jaxpr)"
    using size_list_estimation' [OF e(1) order_refl] .
  also have "\<dots> < size jaxpr" by (cases jaxpr) simp
  finally show ?thesis .
qed

lemma params_size:
  assumes "eqn \<in> set (eqns jaxpr)"
  shows "size_list (size_prod (\<lambda>_. 0) size) (params eqn) < size jaxpr"
proof -
  have "size_list (size_prod (\<lambda>_. 0) size) (params eqn) < size eqn" by (cases eqn) simp
  also have "size eqn \<le> size_list size (eqns jaxpr)"
    using size_list_estimation' [OF assms order_refl] .
  also have "\<dots> < size jaxpr" by (cases jaxpr) simp
  finally show ?thesis .
qed

lemma subjaxprsI:
  "eqn \<in> set (eqns jaxpr) \<Longrightarrow> j \<in> set (jaxprs_in_params (params eqn)) \<Longrightarrow> j \<in> set (subjaxprs jaxpr)"
  by (auto simp: subjaxprs_def)

text \<open>
  \<open>deep_eqn jaxpr eqn\<close>: the equation occurs in the jaxpr or, at any depth, in a jaxpr found
  in the parameters of one of its equations.
\<close>

inductive deep_eqn :: "('v, 't) jaxpr \<Rightarrow> ('v, 't) eqn \<Rightarrow> bool" where
  here: "eqn \<in> set (eqns jaxpr) \<Longrightarrow> deep_eqn jaxpr eqn"
| nested: "j \<in> set (subjaxprs jaxpr) \<Longrightarrow> deep_eqn j eqn \<Longrightarrow> deep_eqn jaxpr eqn"

text \<open>\<open>shift_input_effects n\<close>: input effects re-indexed without the first \<open>n\<close> inputs.\<close>

definition shift_input_effects :: "int \<Rightarrow> effect set \<Rightarrow> effect set" where
  "shift_input_effects n effs =
     (\<lambda>e. if is_input_effect e then replace_index e (input_index e - n) else e) ` effs"

definition jaxpr_eqn_effects :: "('v, 't) jaxpr \<Rightarrow> effect set" where
  "jaxpr_eqn_effects jaxpr =
     shift_input_effects (int (length (constvars jaxpr))) (jaxpr_effects jaxpr)"

subsection \<open>Liveness: the equation that uses a variable last\<close>

text \<open>
  \<open>last_used\<close> maps a variable to \<open>None\<close> when it is an output and to the (position of the)
  equation that reads it last otherwise. Equations are compared by identity in Python;
  here by their position.
\<close>

fun lu_atoms :: "nat \<Rightarrow> ('v, 't) atom list \<Rightarrow> (('v, 't) var \<rightharpoonup> nat option) \<Rightarrow> (('v, 't) var \<rightharpoonup> nat option)" where
  "lu_atoms i [] lu = lu"
| "lu_atoms i (AVar v # xs) lu = lu_atoms i xs (if lu v = None then lu(v \<mapsto> Some i) else lu)"
| "lu_atoms i (ALit _ _ # xs) lu = lu_atoms i xs lu"

fun lu_eqns :: "nat \<Rightarrow> ('v, 't) eqn list \<Rightarrow> (('v, 't) var \<rightharpoonup> nat option) \<Rightarrow> (('v, 't) var \<rightharpoonup> nat option)" where
  "lu_eqns i [] lu = lu"
| "lu_eqns i (eqn # es) lu = lu_atoms i (eqn_invars eqn) (lu_eqns (Suc i) es lu)"

definition last_used :: "('v, 't) jaxpr \<Rightarrow> (('v, 't) var \<rightharpoonup> nat option)" where
  "last_used jaxpr =
     lu_eqns 0 (eqns jaxpr) (map_of (map (\<lambda>v. (v, None)) (atom_vars (outvars jaxpr))))"

text \<open>\<open>clean_up_dead_vars\<close>: the environment without the variables this equation used last.\<close>

definition clean_up_dead_vars ::
  "nat \<Rightarrow> ('v, 't) eqn \<Rightarrow> (('v, 't) var \<rightharpoonup> nat option) \<Rightarrow> (('v, 't) var \<rightharpoonup> 'v) \<Rightarrow> (('v, 't) var \<rightharpoonup> 'v) res" where
  "clean_up_dead_vars i eqn lu env =
     rfold (\<lambda>v env. case lu v of
              None \<Rightarrow> Inl KeyError
            | Some l \<Rightarrow>
                if l = Some i
                then (if env v = None then Inl KeyError else Inr (env(v := None)))
                else Inr env)
       (remdups (atom_vars (eqn_invars eqn))) env"

subsection \<open>The interpreter\<close>

text \<open>
  \<open>bind p ps args st\<close> stands for \<^verbatim>\<open>p.bind(*args, **p.get_bind_params(ps))\<close> under the current
  trace: it may raise, and it may change the state. A primitive answers with one value or,
  where \<^verbatim>\<open>multiple_results\<close> is set, with a list. \<open>chk t x\<close> is the assertion of \<^verbatim>\<open>write\<close>:
  true when \<^verbatim>\<open>enable_checks\<close> is off, \<^verbatim>\<open>typecheck(t, x)\<close> when it is on.
\<close>

datatype 'v ans = Single 'v | Multiple "'v list"

type_synonym ('v, 't, 's) bindfun =
  "prim \<Rightarrow> ('v, 't) params \<Rightarrow> 'v list \<Rightarrow> 's \<Rightarrow> ('v ans \<times> 's) res"

type_synonym ('v, 't) env = "('v, 't) var \<rightharpoonup> 'v"

fun read_atom :: "('v, 't) env \<Rightarrow> ('v, 't) atom \<Rightarrow> 'v res" where
  "read_atom env (ALit val _) = Inr val"
| "read_atom env (AVar v) = (case env v of None \<Rightarrow> Inl KeyError | Some x \<Rightarrow> Inr x)"

definition write_var :: "('t \<Rightarrow> 'v \<Rightarrow> bool) \<Rightarrow> ('v, 't) var \<Rightarrow> 'v \<Rightarrow> ('v, 't) env \<Rightarrow> ('v, 't) env res" where
  "write_var chk v val env = (if chk (vaval v) val then Inr (env(v \<mapsto> val)) else Inl AssertionError)"

definition write_ans ::
  "('t \<Rightarrow> 'v \<Rightarrow> bool) \<Rightarrow> ('v, 't) eqn \<Rightarrow> 'v ans \<Rightarrow> ('v, 't) env \<Rightarrow> ('v, 't) env res" where
  "write_ans chk eqn ans env =
     (if multiple_results (primitive eqn)
      then (case ans of
              Multiple vals \<Rightarrow> foreach2 (write_var chk) (eqn_outvars eqn) vals env
            | Single _ \<Rightarrow> Inl (TypeError ''not iterable''))
      else (case ans of
              Single val \<Rightarrow> rbind (seq_get (eqn_outvars eqn) 0) (\<lambda>v. write_var chk v val env)
            | Multiple _ \<Rightarrow> Inl (TypeError ''not a value'')))"

definition eval_eqn ::
  "('v, 't, 's) bindfun \<Rightarrow> ('t \<Rightarrow> 'v \<Rightarrow> bool) \<Rightarrow> ('v, 't) eqn \<Rightarrow> ('v, 't) env \<Rightarrow> 's \<Rightarrow>
   (('v, 't) env \<times> 's) res" where
  "eval_eqn bind chk eqn env st =
     rbind (rmap (read_atom env) (eqn_invars eqn)) (\<lambda>args.
     rbind (bind (primitive eqn) (params eqn) args st) (\<lambda>(ans, st').
     rbind (write_ans chk eqn ans env) (\<lambda>env'. Inr (env', st'))))"

fun eval_eqns ::
  "('v, 't, 's) bindfun \<Rightarrow> ('t \<Rightarrow> 'v \<Rightarrow> bool) \<Rightarrow> (('v, 't) var \<rightharpoonup> nat option) \<Rightarrow> nat \<Rightarrow>
   ('v, 't) eqn list \<Rightarrow> ('v, 't) env \<Rightarrow> 's \<Rightarrow> (('v, 't) env \<times> 's) res" where
  "eval_eqns bind chk lu i [] env st = Inr (env, st)"
| "eval_eqns bind chk lu i (eqn # es) env st =
     rbind (eval_eqn bind chk eqn env st) (\<lambda>(env', st').
     rbind (clean_up_dead_vars i eqn lu env') (\<lambda>env''.
     eval_eqns bind chk lu (Suc i) es env'' st'))"

definition bind_inputs ::
  "('t \<Rightarrow> 'v \<Rightarrow> bool) \<Rightarrow> ('v, 't) jaxpr \<Rightarrow> 'v list \<Rightarrow> 'v list \<Rightarrow> ('v, 't) env res" where
  "bind_inputs chk jaxpr cs args =
     rbind (foreach2 (write_var chk) (constvars jaxpr) cs Map.empty)
       (foreach2 (write_var chk) (invars jaxpr) args)"

definition eval_jaxpr ::
  "('v, 't, 's) bindfun \<Rightarrow> ('t \<Rightarrow> 'v \<Rightarrow> bool) \<Rightarrow> ('v, 't) jaxpr \<Rightarrow> 'v list \<Rightarrow> 'v list \<Rightarrow> 's \<Rightarrow>
   ('v list \<times> 's) res" where
  "eval_jaxpr bind chk jaxpr cs args st =
     rbind (bind_inputs chk jaxpr cs args) (\<lambda>env.
     rbind (eval_eqns bind chk (last_used jaxpr) 0 (eqns jaxpr) env st) (\<lambda>(env', st').
     rbind (rmap (read_atom env') (outvars jaxpr)) (\<lambda>outs. Inr (outs, st'))))"

definition jaxpr_as_fun ::
  "('v, 't, 's) bindfun \<Rightarrow> ('t \<Rightarrow> 'v \<Rightarrow> bool) \<Rightarrow> ('v, 't) closed_jaxpr \<Rightarrow> 'v list \<Rightarrow> 's \<Rightarrow>
   ('v list \<times> 's) res" where
  "jaxpr_as_fun bind chk c args st = eval_jaxpr bind chk (cjaxpr c) (jconsts c) args st"

subsection \<open>Call primitives\<close>

text \<open>
  \<^verbatim>\<open>CallPrimitive\<close> and \<^verbatim>\<open>ClosedCallPrimitive\<close> replace their jaxpr by a function that runs
  \<^verbatim>\<open>eval_jaxpr\<close> on it (\<^verbatim>\<open>get_bind_params\<close>), which \<^verbatim>\<open>call_impl\<close> calls. \<open>call_bind base\<close> is the
  evaluation trace with these two rules built in; \<open>base\<close> implements the other primitives.
  The recursion ends because a jaxpr is larger than the parameters of its equations.
\<close>

lemma eval_eqns_cong:
  assumes "\<And>eqn args st. eqn \<in> set es \<Longrightarrow>
     bind (primitive eqn) (params eqn) args st = bind' (primitive eqn) (params eqn) args st"
  shows "eval_eqns bind chk lu i es env st = eval_eqns bind' chk lu i es env st"
  using assms
proof (induction es arbitrary: i env st)
  case Nil
  then show ?case by simp
next
  case (Cons eqn es)
  from Cons.prems have "eval_eqn bind chk eqn env st = eval_eqn bind' chk eqn env st"
    by (simp add: eval_eqn_def)
  with Cons show ?case by simp
qed

lemma eval_jaxpr_cong [fundef_cong]:
  assumes "chk = chk'" "jaxpr = jaxpr'" "cs = cs'" "args = args'" "st = st'"
    and "\<And>eqn args st. eqn \<in> set (eqns jaxpr') \<Longrightarrow>
     bind (primitive eqn) (params eqn) args st = bind' (primitive eqn) (params eqn) args st"
  shows "eval_jaxpr bind chk jaxpr cs args st = eval_jaxpr bind' chk' jaxpr' cs' args' st'"
  using eval_eqns_cong [of "eqns jaxpr'" bind bind'] assms by (simp add: eval_jaxpr_def)

function call_bind ::
  "('v, 't, 's) bindfun \<Rightarrow> ('t \<Rightarrow> 'v \<Rightarrow> bool) \<Rightarrow> ('v, 't, 's) bindfun" where
  "call_bind base chk p ps args st =
     (if \<not> call_primitive p then base p ps args st
      else case map_of ps ''call_jaxpr'' of
        None \<Rightarrow> Inl KeyError
      | Some (PJaxpr j) \<Rightarrow>
          rbind (eval_jaxpr (call_bind base chk) chk j [] args st) (\<lambda>(outs, st'). Inr (Multiple outs, st'))
      | Some (PClosed j cs) \<Rightarrow>
          rbind (eval_jaxpr (call_bind base chk) chk j cs args st) (\<lambda>(outs, st'). Inr (Multiple outs, st'))
      | Some _ \<Rightarrow> Inl (TypeError ''call_jaxpr''))"
  by pat_completeness auto
termination
proof (relation "measure (\<lambda>(base, chk, p, ps, args, st). size_list (size_prod (\<lambda>_. 0) size) ps)")
qed (auto dest: map_of_call_jaxpr [OF _ param_call_jaxpr.simps(1)]
       map_of_call_jaxpr [OF _ param_call_jaxpr.simps(2)]
       dest!: jaxprs_in_params_size params_size)

declare call_bind.simps [simp del]

lemma call_bind_base: "\<not> call_primitive p \<Longrightarrow> call_bind base chk p ps args st = base p ps args st"
  by (subst call_bind.simps) simp

end
