(* ===== verification/JaxprEval.thy ===== *)
theory JaxprEval
  imports Jaxpr
begin

text \<open>
  What \<^verbatim>\<open>eval_jaxpr\<close> promises: the specification \<open>eval_spec\<close> runs the equations in order
  over an environment that only grows. The interpreter frees variables as it goes; the
  theory shows that this is unobservable (same results, same exceptions, same state), and
  collects the frame lemmas the transformations of jaxprs are proved with.
\<close>

subsection \<open>The specification: no variable is ever freed\<close>

fun run_eqns ::
  "('v, 't, 's) bindfun \<Rightarrow> ('t \<Rightarrow> 'v \<Rightarrow> bool) \<Rightarrow> ('v, 't) eqn list \<Rightarrow> ('v, 't) env \<Rightarrow> 's \<Rightarrow>
   (('v, 't) env \<times> 's) res" where
  "run_eqns bind chk [] env st = Inr (env, st)"
| "run_eqns bind chk (eqn # es) env st =
     rbind (eval_eqn bind chk eqn env st) (\<lambda>(env', st'). run_eqns bind chk es env' st')"

definition eval_spec ::
  "('v, 't, 's) bindfun \<Rightarrow> ('t \<Rightarrow> 'v \<Rightarrow> bool) \<Rightarrow> ('v, 't) jaxpr \<Rightarrow> 'v list \<Rightarrow> 'v list \<Rightarrow> 's \<Rightarrow>
   ('v list \<times> 's) res" where
  "eval_spec bind chk jaxpr cs args st =
     rbind (bind_inputs chk jaxpr cs args) (\<lambda>env.
     rbind (run_eqns bind chk (eqns jaxpr) env st) (\<lambda>(env', st').
     rbind (rmap (read_atom env') (outvars jaxpr)) (\<lambda>outs. Inr (outs, st'))))"

definition eqns_vars :: "('v, 't) eqn list \<Rightarrow> ('v, 't) var set" where
  "eqns_vars es = (\<Union>e \<in> set es. set (atom_vars (eqn_invars e)))"

lemma eqns_vars_simps [simp]:
  "eqns_vars [] = {}" "eqns_vars (e # es) = set (atom_vars (eqn_invars e)) \<union> eqns_vars es"
  by (auto simp: eqns_vars_def)

subsection \<open>Agreement of environments\<close>

definition agree :: "('v, 't) var set \<Rightarrow> ('v, 't) env \<Rightarrow> ('v, 't) env \<Rightarrow> bool" where
  "agree X e f \<longleftrightarrow> (\<forall>v \<in> X. e v = f v)"

lemma agree_mono: "agree X e f \<Longrightarrow> Y \<subseteq> X \<Longrightarrow> agree Y e f"
  by (auto simp: agree_def)

lemma agree_refl [simp]: "agree X e e"
  by (simp add: agree_def)

lemma agree_upd: "agree X e f \<Longrightarrow> agree (insert v X) (e(v \<mapsto> x)) (f(v \<mapsto> x))"
  by (simp add: agree_def)

lemma agree_drop: "agree X e f \<Longrightarrow> v \<notin> Y \<Longrightarrow> Y \<subseteq> X \<Longrightarrow> agree Y e (f(v := None))"
  by (auto simp: agree_def)

lemma read_atoms_agree:
  "agree (set (atom_vars xs)) e f \<Longrightarrow> rmap (read_atom e) xs = rmap (read_atom f) xs"
proof (induction xs)
  case Nil
  then show ?case by simp
next
  case (Cons x xs)
  then have "rmap (read_atom e) xs = rmap (read_atom f) xs"
    by (cases x) (auto simp: agree_def)
  moreover have "read_atom e x = read_atom f x"
    using Cons.prems by (cases x) (auto simp: agree_def)
  ultimately show ?case by simp
qed

text \<open>Two results with equal exceptions, or equal states and agreeing environments.\<close>

fun sim_res :: "('v, 't) var set \<Rightarrow> ('v, 't) env res \<Rightarrow> ('v, 't) env res \<Rightarrow> bool" where
  "sim_res X (Inl a) (Inl b) = (a = b)"
| "sim_res X (Inr e) (Inr f) = agree X e f"
| "sim_res X _ _ = False"

lemma write_var_ok: "chk (vaval v) x \<Longrightarrow> write_var chk v x e = Inr (e(v \<mapsto> x))"
  by (simp add: write_var_def)

lemma write_var_bad: "\<not> chk (vaval v) x \<Longrightarrow> write_var chk v x e = Inl AssertionError"
  by (simp add: write_var_def)

lemma write_var_Inr [res_simps]:
  "write_var chk v x e = Inr e' \<longleftrightarrow> chk (vaval v) x \<and> e' = e(v \<mapsto> x)"
  by (auto simp: write_var_def)

lemma write_var_sim:
  "agree X e f \<Longrightarrow> sim_res (insert v X) (write_var chk v x e) (write_var chk v x f)"
  by (simp add: write_var_def agree_upd)

lemma sim_res_mono: "sim_res X a b \<Longrightarrow> Y \<subseteq> X \<Longrightarrow> sim_res Y a b"
  by (cases a; cases b) (auto intro: agree_mono)

lemma foreach_write_sim:
  "agree X e f \<Longrightarrow>
   sim_res (set vs \<union> X) (foreach2 (write_var chk) vs xs e) (foreach2 (write_var chk) vs xs f)"
proof (induction vs xs arbitrary: X e f rule: list_induct2')
  case (4 v vs x xs)
  show ?case
  proof (cases "chk (vaval v) x")
    case True
    have "sim_res (set vs \<union> insert v X) (foreach2 (write_var chk) vs xs (e(v \<mapsto> x)))
            (foreach2 (write_var chk) vs xs (f(v \<mapsto> x)))"
      by (rule "4.IH") (rule agree_upd, rule "4.prems")
    with True show ?thesis by (simp add: write_var_ok)
  next
    case False
    then show ?thesis by (simp add: write_var_bad)
  qed
qed simp_all

lemma write_ans_sim:
  assumes "agree X e f" shows "sim_res X (write_ans chk eqn ans e) (write_ans chk eqn ans f)"
proof (cases ans)
  case (Single x)
  show ?thesis
  proof (cases "multiple_results (primitive eqn) \<or> eqn_outvars eqn = []")
    case True
    with Single show ?thesis by (auto simp: write_ans_def seq_get_def)
  next
    case False
    with Single show ?thesis
      using sim_res_mono [OF write_var_sim [OF assms], of X]
      by (auto simp: write_ans_def seq_get_def)
  qed
next
  case (Multiple xs)
  then show ?thesis
    using sim_res_mono [OF foreach_write_sim [OF assms], of X] by (auto simp: write_ans_def)
qed

text \<open>One equation run in two environments that agree on what it reads and on \<open>X\<close>.\<close>

lemma eval_eqn_sim:
  assumes "agree (set (atom_vars (eqn_invars eqn)) \<union> X) e f"
  shows "(\<exists>er. eval_eqn bind chk eqn e st = Inl er \<and> eval_eqn bind chk eqn f st = Inl er) \<or>
         (\<exists>e' f' st'. eval_eqn bind chk eqn e st = Inr (e', st') \<and>
            eval_eqn bind chk eqn f st = Inr (f', st') \<and>
            agree (set (atom_vars (eqn_invars eqn)) \<union> X) e' f')"
proof -
  let ?Y = "set (atom_vars (eqn_invars eqn)) \<union> X"
  have r: "rmap (read_atom e) (eqn_invars eqn) = rmap (read_atom f) (eqn_invars eqn)"
    by (rule read_atoms_agree) (rule agree_mono [OF assms], simp)
  show ?thesis
  proof (cases "rmap (read_atom f) (eqn_invars eqn)")
    case (Inl a)
    with r show ?thesis by (simp add: eval_eqn_def)
  next
    case (Inr args)
    show ?thesis
    proof (cases "bind (primitive eqn) (params eqn) args st")
      case (Inl a)
      with r Inr show ?thesis by (simp add: eval_eqn_def)
    next
      case (Inr p)
      obtain ans st' where p: "p = (ans, st')" by (cases p)
      have "sim_res ?Y (write_ans chk eqn ans e) (write_ans chk eqn ans f)"
        by (rule write_ans_sim [OF assms])
      with r Inr p \<open>rmap (read_atom f) (eqn_invars eqn) = Inr args\<close> show ?thesis
        by (cases "write_ans chk eqn ans e"; cases "write_ans chk eqn ans f")
           (simp_all add: eval_eqn_def)
    qed
  qed
qed

lemma eval_eqn_cases:
  assumes "agree (set (atom_vars (eqn_invars eqn)) \<union> X) e f"
  obtains (err) er where "eval_eqn bind chk eqn e st = Inl er" "eval_eqn bind chk eqn f st = Inl er"
  | (ok) e' f' st' where "eval_eqn bind chk eqn e st = Inr (e', st')"
      "eval_eqn bind chk eqn f st = Inr (f', st')" "agree (set (atom_vars (eqn_invars eqn)) \<union> X) e' f'"
  using eval_eqn_sim [OF assms, of bind chk st] by (elim disjE exE conjE) simp_all

subsection \<open>The liveness table\<close>

lemma lu_atoms_dom: "dom (lu_atoms i xs lu) = dom lu \<union> set (atom_vars xs)"
  by (induction i xs lu rule: lu_atoms.induct) auto

lemma lu_atoms_old: "lu v = Some l \<Longrightarrow> lu_atoms i xs lu v = Some l"
proof (induction i xs lu rule: lu_atoms.induct)
  case (2 i w xs lu)
  then show ?case by (cases "v = w") auto
qed simp_all

lemma lu_atoms_new: "lu v = None \<Longrightarrow> v \<in> set (atom_vars xs) \<Longrightarrow> lu_atoms i xs lu v = Some (Some i)"
proof (induction i xs lu rule: lu_atoms.induct)
  case (2 i w xs lu)
  then show ?case by (cases "w = v") (auto simp: lu_atoms_old)
qed simp_all

lemma lu_eqns_dom: "dom (lu_eqns i es lu) = dom lu \<union> eqns_vars es"
  by (induction i es lu rule: lu_eqns.induct) (auto simp: lu_atoms_dom)

lemma lu_eqns_old: "lu v = Some l \<Longrightarrow> lu_eqns i es lu v = Some l"
  by (induction i es lu rule: lu_eqns.induct) (auto simp: lu_atoms_old)

lemma lu_eqns_index:
  "lu_eqns i es lu v = Some l \<Longrightarrow> lu v = Some l \<or> (\<exists>j \<ge> i. l = Some j)"
proof (induction i es lu rule: lu_eqns.induct)
  case (1 i lu)
  then show ?case by simp
next
  case (2 i eqn es lu)
  show ?case
  proof (cases "lu_eqns (Suc i) es lu v")
    case None
    with "2.prems" have "v \<in> set (atom_vars (eqn_invars eqn))"
      using lu_atoms_dom [of i "eqn_invars eqn" "lu_eqns (Suc i) es lu"] by (auto simp: domIff)
    with None "2.prems" show ?thesis by (auto simp: lu_atoms_new)
  next
    case (Some k)
    with "2.prems" have "l = k" by (simp add: lu_atoms_old)
    with Some "2.IH" show ?thesis by (auto intro: Suc_leD)
  qed
qed

subsection \<open>Freeing variables is unobservable\<close>

text \<open>
  \<open>clean_up_dead_vars\<close> never raises after an equation has read its inputs, and removes
  exactly the variables whose table entry is this equation.
\<close>

lemma clean_up_fold:
  assumes "distinct vs" and "\<forall>v \<in> set vs. lu v \<noteq> None \<and> env v \<noteq> None"
  shows "rfold (\<lambda>v env. case lu v of None \<Rightarrow> Inl KeyError
            | Some l \<Rightarrow> if l = Some i then (if env v = None then Inl KeyError else Inr (env(v := None)))
                        else Inr env) vs env
         = Inr (\<lambda>v. if v \<in> set vs \<and> lu v = Some (Some i) then None else env v)"
  using assms
proof (induction vs arbitrary: env)
  case Nil
  then show ?case by simp
next
  case (Cons v vs)
  from Cons.prems obtain l where l: "lu v = Some l" by auto
  let ?env = "if l = Some i then env(v := None) else env"
  have "\<forall>w \<in> set vs. lu w \<noteq> None \<and> ?env w \<noteq> None" using Cons.prems by auto
  with Cons.IH [of ?env] Cons.prems l show ?case by (auto simp: fun_eq_iff)
qed

lemma clean_up_dead_vars_eq:
  assumes "\<forall>v \<in> set (atom_vars (eqn_invars eqn)). lu v \<noteq> None \<and> env v \<noteq> None"
  shows "clean_up_dead_vars i eqn lu env =
     Inr (\<lambda>v. if v \<in> set (atom_vars (eqn_invars eqn)) \<and> lu v = Some (Some i) then None else env v)"
  unfolding clean_up_dead_vars_def
  by (subst clean_up_fold) (use assms in auto)

lemma eval_eqn_reads:
  assumes "eval_eqn bind chk eqn env st = Inr (env', st')"
    and "v \<in> set (atom_vars (eqn_invars eqn))"
  shows "env v \<noteq> None"
proof -
  from assms(1) obtain args where "rmap (read_atom env) (eqn_invars eqn) = Inr args"
    by (auto simp: eval_eqn_def res_simps)
  with assms(2) show ?thesis by (auto simp: set_atom_vars dest: rmap_set split: option.splits)
qed

lemma foreach_write_frame:
  "foreach2 (write_var chk) vs xs env = Inr env' \<Longrightarrow> v \<notin> set vs \<Longrightarrow> env' v = env v"
  by (induction vs xs arbitrary: env rule: list_induct2')
     (auto simp: res_simps write_var_def split: if_splits)

lemma foreach_write_grows:
  "foreach2 (write_var chk) vs xs env = Inr env' \<Longrightarrow> dom env' = dom env \<union> set vs"
  by (induction vs xs arbitrary: env rule: list_induct2')
     (auto simp: res_simps write_var_def split: if_splits)

lemma write_ans_dom: "write_ans chk eqn ans env = Inr env' \<Longrightarrow> dom env \<subseteq> dom env'"
  by (auto simp: write_ans_def res_simps write_var_def foreach_write_grows split: if_splits ans.splits)

lemma eval_eqn_dom: "eval_eqn bind chk eqn env st = Inr (env', st') \<Longrightarrow> dom env \<subseteq> dom env'"
  by (auto simp: eval_eqn_def res_simps split: prod.splits dest: write_ans_dom)

lemma eval_eqns_run_eqns:
  assumes "agree (outs \<union> eqns_vars es) e f"
    and "\<forall>v. lu0 v \<noteq> None \<longleftrightarrow> v \<in> outs" and "\<forall>v l. lu0 v = Some l \<longrightarrow> l = None"
    and "\<forall>v \<in> outs \<union> eqns_vars es. lu v = lu_eqns i es lu0 v"
  shows "case run_eqns bind chk es e st of
           Inl er \<Rightarrow> eval_eqns bind chk lu i es f st = Inl er
         | Inr (e', st') \<Rightarrow> \<exists>f'. eval_eqns bind chk lu i es f st = Inr (f', st') \<and> agree outs e' f'"
  using assms
proof (induction es arbitrary: i e f st)
  case Nil
  then show ?case by simp
next
  case (Cons eqn es)
  let ?V = "set (atom_vars (eqn_invars eqn))"
  let ?X = "outs \<union> eqns_vars es"
  have agr: "agree (?V \<union> ?X) e f" using Cons.prems(1) by (rule agree_mono) auto
  show ?case
  proof (rule eval_eqn_cases [OF agr, of bind chk st])
    fix er assume err: "eval_eqn bind chk eqn e st = Inl er" "eval_eqn bind chk eqn f st = Inl er"
    then show ?thesis by simp
  next
    fix e' f' st'
    assume ok: "eval_eqn bind chk eqn e st = Inr (e', st')"
      "eval_eqn bind chk eqn f st = Inr (f', st')" "agree (?V \<union> ?X) e' f'"
    have lu_dom: "\<forall>v \<in> ?X. lu_eqns (Suc i) es lu0 v \<noteq> None"
      using Cons.prems(2) lu_eqns_dom [of "Suc i" es lu0] by (auto simp: domIff set_eq_iff)
    have lu_tail: "\<forall>v \<in> ?X. lu v = lu_eqns (Suc i) es lu0 v"
    proof
      fix v assume v: "v \<in> ?X"
      with lu_dom obtain l where l: "lu_eqns (Suc i) es lu0 v = Some l" by blast
      then have "lu_eqns i (eqn # es) lu0 v = Some l" by (simp add: lu_atoms_old)
      moreover from v have "v \<in> outs \<union> eqns_vars (eqn # es)" by auto
      then have "lu v = lu_eqns i (eqn # es) lu0 v" by (rule Cons.prems(4) [rule_format])
      ultimately show "lu v = lu_eqns (Suc i) es lu0 v" using l by (simp only:)
    qed
    have not_i: "lu v \<noteq> Some (Some i)" if "v \<in> ?X" for v
      using that lu_tail Cons.prems(3) lu_eqns_index [of "Suc i" es lu0 v "Some i"] by auto
    have "lu v \<noteq> None" if "v \<in> ?V" for v
    proof -
      from that have "lu v = lu_eqns i (eqn # es) lu0 v" using Cons.prems(4) by auto
      moreover from that have "v \<in> dom (lu_eqns i (eqn # es) lu0)"
        unfolding lu_eqns_dom by simp
      ultimately show ?thesis by (auto simp: domIff)
    qed
    moreover have "f' v \<noteq> None" if "v \<in> ?V" for v
      using eval_eqn_reads [OF ok(2) that] eval_eqn_dom [OF ok(2)] by (auto simp: domIff subset_iff)
    ultimately have cl: "clean_up_dead_vars i eqn lu f' =
        Inr (\<lambda>v. if v \<in> ?V \<and> lu v = Some (Some i) then None else f' v)" (is "_ = Inr ?g")
      by (intro clean_up_dead_vars_eq) auto
    have "agree ?X e' ?g" using ok(3) not_i by (auto simp: agree_def)
    from Cons.IH [OF this Cons.prems(2,3) lu_tail, of st'] ok(1,2) cl show ?thesis
      by (cases "run_eqns bind chk es e' st'") auto
  qed
qed

lemma eval_jaxpr_spec:
  "eval_jaxpr bind chk jaxpr cs args st = eval_spec bind chk jaxpr cs args st"
proof -
  let ?outs = "set (atom_vars (outvars jaxpr))"
  let ?lu0 = "map_of (map (\<lambda>v. (v, None)) (atom_vars (outvars jaxpr)))"
  have lu0: "\<forall>v. ?lu0 v \<noteq> None \<longleftrightarrow> v \<in> ?outs"
    by (simp add: map_of_eq_None_iff image_image del: not_None_eq)
  have lu0': "\<forall>v l. ?lu0 v = Some l \<longrightarrow> l = None"
  proof (intro allI impI)
    fix v l
    assume "?lu0 v = Some l"
    from map_of_SomeD [OF this] show "l = None" by (simp add: image_iff)
  qed
  have main: "case run_eqns bind chk (eqns jaxpr) env st of
           Inl er \<Rightarrow> eval_eqns bind chk (last_used jaxpr) 0 (eqns jaxpr) env st = Inl er
         | Inr (e', st') \<Rightarrow> \<exists>f'. eval_eqns bind chk (last_used jaxpr) 0 (eqns jaxpr) env st
               = Inr (f', st') \<and> agree ?outs e' f'" for env
    by (rule eval_eqns_run_eqns [OF agree_refl lu0 lu0']) (simp only: last_used_def, blast)
  show ?thesis
  proof (cases "bind_inputs chk jaxpr cs args")
    case (Inl a)
    then show ?thesis by (simp add: eval_jaxpr_def eval_spec_def)
  next
    case (Inr env)
    show ?thesis
    proof (cases "run_eqns bind chk (eqns jaxpr) env st")
      case (Inl er)
      with main [of env] \<open>bind_inputs chk jaxpr cs args = Inr env\<close> show ?thesis
        by (simp add: eval_jaxpr_def eval_spec_def)
    next
      case (Inr p)
      obtain e' st' where "p = (e', st')" by (cases p)
      with main [of env] Inr obtain f' where
        "eval_eqns bind chk (last_used jaxpr) 0 (eqns jaxpr) env st = Inr (f', st')"
        "agree ?outs e' f'" by auto
      with Inr \<open>p = (e', st')\<close> \<open>bind_inputs chk jaxpr cs args = Inr env\<close> show ?thesis
        by (simp add: eval_jaxpr_def eval_spec_def read_atoms_agree)
    qed
  qed
qed

text \<open>An equation changes its binders and nothing else.\<close>

lemma write_ans_frame:
  "write_ans chk eqn ans env = Inr env' \<Longrightarrow> v \<notin> set (eqn_outvars eqn) \<Longrightarrow> env' v = env v"
  by (auto simp: write_ans_def res_simps write_var_def foreach_write_frame split: if_splits ans.splits)

lemma eval_eqn_frame:
  "eval_eqn bind chk eqn env st = Inr (env', st') \<Longrightarrow> v \<notin> set (eqn_outvars eqn) \<Longrightarrow> env' v = env v"
  by (auto simp: eval_eqn_def res_simps split: prod.splits dest: write_ans_frame)

lemma write_ans_grows:
  "write_ans chk eqn ans env = Inr env' \<Longrightarrow> dom env' \<subseteq> dom env \<union> set (eqn_outvars eqn)"
  by (auto simp: write_ans_def res_simps write_var_def foreach_write_grows split: if_splits ans.splits)

lemma eval_eqn_grows:
  "eval_eqn bind chk eqn env st = Inr (env', st') \<Longrightarrow> dom env' \<subseteq> dom env \<union> set (eqn_outvars eqn)"
  by (auto simp: eval_eqn_def res_simps split: prod.splits dest!: write_ans_grows)

text \<open>A success of the specification, and the pieces it consists of.\<close>

lemma eval_spec_Inr:
  "eval_spec bind chk jaxpr cs args st = Inr (outs, st') \<longleftrightarrow>
   (\<exists>env env'. bind_inputs chk jaxpr cs args = Inr env \<and>
      run_eqns bind chk (eqns jaxpr) env st = Inr (env', st') \<and>
      rmap (read_atom env') (outvars jaxpr) = Inr outs)"
  by (auto simp: eval_spec_def res_simps)

lemma run_eqns_append:
  "run_eqns bind chk (es @ fs) env st =
     rbind (run_eqns bind chk es env st) (\<lambda>(env', st'). run_eqns bind chk fs env' st')"
  by (induction es arbitrary: env st) (auto split: rbind_split simp: rbind_assoc split_beta)

lemma run_eqns_quiet:
  assumes "run_eqns bind chk es env st = Inr (env', st')"
    and "\<forall>eqn \<in> set es. \<forall>args st ans st'. bind (primitive eqn) (params eqn) args st = Inr (ans, st') \<longrightarrow> st' = st"
  shows "st' = st"
  using assms
proof (induction es arbitrary: env st)
  case Nil
  then show ?case by simp
next
  case (Cons eqn es)
  then obtain e1 s1 where e: "eval_eqn bind chk eqn env st = Inr (e1, s1)"
      "run_eqns bind chk es e1 s1 = Inr (env', st')"
    by (auto simp: res_simps)
  then have "s1 = st" using Cons.prems(2) by (auto simp: eval_eqn_def res_simps)
  with Cons.IH [OF e(2)] Cons.prems(2) show ?case by simp
qed

end
