(* ===== verification/JaxprCheck.thy ===== *)
theory JaxprCheck
  imports JaxprEval
begin

text \<open>
  The jaxpr type checker of \<^verbatim>\<open>jax/_src/core.py\<close> (\<^verbatim>\<open>check_jaxpr\<close>, \<^verbatim>\<open>_check_jaxpr\<close>,
  \<^verbatim>\<open>check_eqn\<close>, \<^verbatim>\<open>_check_call\<close>, \<^verbatim>\<open>_check_closed_call\<close>) and its soundness: a jaxpr that
  checks, run on arguments of its input types, binds every variable before it is read, gives
  every primitive arguments of the types its rule saw, and returns values of its output
  types; the only exceptions left are those of the primitives themselves.

  \<open>check_type\<close> accepts every type (its body is \<^verbatim>\<open>return\<close>) and is left out of \<open>read\<close>
  and \<open>write\<close>. The printed context of an error message is not modelled.
\<close>

subsection \<open>What the checker is configured with\<close>

text \<open>
  A \<open>tatom\<close> is what the checker's environment holds for a variable: an atom, or the mutable
  record of a value whose quasi-dynamic data (\<^verbatim>\<open>qdd\<close>) may change from equation to
  equation. A typing rule answers with the \<^verbatim>\<open>AvalQDD\<close>s of the results, the effects, and
  the updates it makes to the quasi-dynamic data of its operands, by operand position.
\<close>

datatype ('v, 't) tatom = TAtom "('v, 't) atom" | TMutable (mt_aval: 't) (init_val: 'v) (cur_val: 'v)

type_synonym ('v, 't) aval_qdd = "'t \<times> 'v option"

type_synonym ('v, 't) rule_result = "('v, 't) aval_qdd list \<times> effect set \<times> (nat \<times> 'v) list"

fun tatom_aval :: "('v, 't) tatom \<Rightarrow> 't" where
  "tatom_aval (TAtom x) = atom_aval x"
| "tatom_aval (TMutable t _ _) = t"

fun tatom_qdd :: "('v, 't) tatom \<Rightarrow> 'v option" where
  "tatom_qdd (TAtom _) = None"
| "tatom_qdd (TMutable _ _ q) = Some q"

fun qdd_update :: "'v \<Rightarrow> ('v, 't) tatom \<Rightarrow> ('v, 't) tatom" where
  "qdd_update q (TMutable t i _) = TMutable t i q"
| "qdd_update q (TAtom x) = TAtom x"

record ('v, 't) chk_ops =
  typematch :: "'t \<Rightarrow> 't \<Rightarrow> bool res"
  typeof :: "'v \<Rightarrow> 't"
  is_ref_aval :: "'t \<Rightarrow> bool"
  mutable_array_checks :: bool
  key_reuse_checker :: "(('v, 't) jaxpr \<Rightarrow> unit res) option"
  custom_typechecks ::
    "prim \<Rightarrow> (('v, 't) tatom list \<Rightarrow> ('v, 't) params \<Rightarrow> ('v, 't) rule_result res) option"
  abstract_eval ::
    "prim \<Rightarrow> ('t \<times> 'v option) list \<Rightarrow> ('v, 't) params \<Rightarrow>
     (('v, 't) aval_qdd ans \<times> effect set \<times> (nat \<times> 'v) list) res"

definition typecompat :: "('v, 't) chk_ops \<Rightarrow> 't \<Rightarrow> 't \<Rightarrow> bool res" where
  "typecompat ops aval_ref aval =
     (case typematch ops aval_ref aval of
        Inl (TypeError _) \<Rightarrow> Inr False | r \<Rightarrow> r)"

definition typecheck :: "('v, 't) chk_ops \<Rightarrow> 't \<Rightarrow> 'v \<Rightarrow> bool res" where
  "typecheck ops aval x = typecompat ops aval (typeof ops x)"

subsection \<open>The typing of calls and equations\<close>

definition check_closed_call ::
  "('v, 't) chk_ops \<Rightarrow> ('v, 't) tatom list \<Rightarrow> ('v, 't) params \<Rightarrow> ('v, 't) rule_result res" where
  "check_closed_call ops in_atoms ps =
     (case map_of ps ''call_jaxpr'' of
        Some (PClosed call_jaxpr _) \<Rightarrow>
          rbind (safe_map2 (typecompat ops) (in_avals call_jaxpr) (map tatom_aval in_atoms)) (\<lambda>oks.
          if list_all id oks
          then Inr (map (\<lambda>t. (t, None)) (out_avals call_jaxpr), jaxpr_eqn_effects call_jaxpr, [])
          else Inl (JaxprTypeError ''Closed call in_avals mismatch''))
      | _ \<Rightarrow> Inl (TypeError ''call_jaxpr''))"

definition check_call ::
  "('v, 't) chk_ops \<Rightarrow> (('v, 't) jaxpr \<Rightarrow> unit res) \<Rightarrow> ('v, 't) tatom list \<Rightarrow> ('v, 't) params \<Rightarrow>
   ('v, 't) rule_result res" where
  "check_call ops rec in_atoms ps =
     (case map_of ps ''call_jaxpr'' of
        None \<Rightarrow> Inl (JaxprTypeError ''missing call_jaxpr'')
      | Some p \<Rightarrow>
        (case param_call_jaxpr p of
           None \<Rightarrow> Inl (TypeError ''call_jaxpr'')
         | Some call_jaxpr \<Rightarrow>
           if length in_atoms \<noteq> length (invars call_jaxpr)
           then Inl (JaxprTypeError ''number of operands'')
           else
             rbind (rfold (\<lambda>(v, x) _. rbind (typecompat ops (vaval v) (tatom_aval x)) (\<lambda>ok.
                        if ok then Inr () else Inl (JaxprTypeError ''operand type'')))
                      (zip (invars call_jaxpr) in_atoms) ()) (\<lambda>_.
             rbind (rec call_jaxpr) (\<lambda>_.
             Inr (map (\<lambda>t. (t, None)) (out_avals call_jaxpr), jaxpr_eqn_effects call_jaxpr, [])))))"

definition check_eqn ::
  "('v, 't) chk_ops \<Rightarrow> (('v, 't) jaxpr \<Rightarrow> unit res) \<Rightarrow> prim \<Rightarrow> ('t \<times> 'v option) list \<Rightarrow>
   ('v, 't) params \<Rightarrow> ('v, 't) rule_result res" where
  "check_eqn ops rec prim in_avs ps =
     rbind (rfold (\<lambda>j _. rec j) (jaxprs_in_params ps) ()) (\<lambda>_.
     rbind (abstract_eval ops prim in_avs ps) (\<lambda>(out, effs, upd).
     if multiple_results prim
     then (case out of Multiple ts \<Rightarrow> Inr (ts, effs, upd) | Single _ \<Rightarrow> Inl (TypeError ''not iterable''))
     else (case out of Single t \<Rightarrow> Inr ([t], effs, upd) | Multiple _ \<Rightarrow> Inl (TypeError ''not a type''))))"

text \<open>The type of a primitive application, by whichever of the three rules applies.\<close>

definition eqn_type ::
  "('v, 't) chk_ops \<Rightarrow> (('v, 't) jaxpr \<Rightarrow> unit res) \<Rightarrow> ('v, 't) eqn \<Rightarrow> ('v, 't) tatom list \<Rightarrow>
   ('v, 't) rule_result res" where
  "eqn_type ops rec eqn in_atoms =
     (if pname (primitive eqn) = ''closed_call'' then check_closed_call ops in_atoms (params eqn)
      else case custom_typechecks ops (primitive eqn) of
        Some rule \<Rightarrow> rule in_atoms (params eqn)
      | None \<Rightarrow>
        if call_primitive (primitive eqn) then check_call ops rec in_atoms (params eqn)
        else check_eqn ops rec (primitive eqn)
               (map (\<lambda>x. (tatom_aval x, tatom_qdd x)) in_atoms) (params eqn))"

subsection \<open>The checker\<close>

type_synonym ('v, 't) tenv = "('v, 't) var \<rightharpoonup> ('v, 't) tatom"

fun chk_read :: "('v, 't) chk_ops \<Rightarrow> ('v, 't) tenv \<Rightarrow> ('v, 't) atom \<Rightarrow> ('v, 't) tatom res" where
  "chk_read ops env (AVar v) =
     (case env v of None \<Rightarrow> Inl (JaxprTypeError ''not defined'') | Some x \<Rightarrow> Inr x)"
| "chk_read ops env (ALit val aval) =
     rbind (typecheck ops aval val) (\<lambda>ok.
     if ok then Inr (TAtom (ALit val aval)) else Inl (JaxprTypeError ''literal''))"

definition chk_write ::
  "('v, 't) chk_ops \<Rightarrow> ('v, 't) var \<Rightarrow> ('v, 't) aval_qdd \<Rightarrow> ('v, 't) tenv \<Rightarrow> ('v, 't) tenv res" where
  "chk_write ops v a env =
     (let (aval, qdd) = a in
      if env v \<noteq> None then Inl (JaxprTypeError ''already bound'')
      else rbind (typematch ops (vaval v) aval) (\<lambda>ok.
        if \<not> ok then Inl (JaxprTypeError ''inconsistently typed'')
        else if is_dropvar v then Inr env
        else case qdd of
          None \<Rightarrow> Inr (env(v \<mapsto> TAtom (AVar v)))
        | Some q \<Rightarrow> Inr (env(v \<mapsto> TMutable aval q q))))"

text \<open>
  The mutable records a rule updates belong to the environment entries of the operands it
  was given: operand \<open>i\<close> is the entry of the variable at that position.
\<close>

definition apply_updates ::
  "('v, 't) atom list \<Rightarrow> (nat \<times> 'v) list \<Rightarrow> ('v, 't) tenv \<Rightarrow> ('v, 't) tenv" where
  "apply_updates invs upd env =
     fold (\<lambda>(i, q) env.
        if i < length invs
        then (case invs ! i of
                AVar v \<Rightarrow> (case env v of None \<Rightarrow> env | Some x \<Rightarrow> env(v \<mapsto> qdd_update q x))
              | ALit _ _ \<Rightarrow> env)
        else env) upd env"

text \<open>
  \<open>in_idx\<close> numbers the inputs; a variable bound to a freshly allocated reference maps to
  \<open>None\<close> there and is a member of \<open>mut_arrays\<close>. One effect of an equation is checked by
  \<open>check_effect\<close>; an equation fails when one of its effects does. (An effect set has no
  order: where several fail, an index error is reported before a type error.)
\<close>

definition check_effect ::
  "('v, 't) jaxpr \<Rightarrow> (('v, 't) var \<rightharpoonup> nat option) \<Rightarrow> ('v, 't) var set \<Rightarrow> ('v, 't) eqn \<Rightarrow> effect \<Rightarrow>
   unit res" where
  "check_effect jaxpr in_idx mut_arrays eqn eff =
     (if is_input_effect eff
      then rbind (py_get (eqn_invars eqn) (input_index eff)) (\<lambda>x. case x of
             ALit _ _ \<Rightarrow> Inr ()
           | AVar v \<Rightarrow>
             if v \<in> mut_arrays then Inr ()
             else (case in_idx v of
                     None \<Rightarrow> Inl (JaxprTypeError ''must correspond to a jaxpr invar'')
                   | Some None \<Rightarrow> Inl (JaxprTypeError ''must be present in jaxpr'')
                   | Some (Some i) \<Rightarrow>
                     if replace_index eff (int i) \<in> jaxpr_effects jaxpr then Inr ()
                     else Inl (JaxprTypeError ''must be present in jaxpr'')))
      else if isinstance_effect eff NamedAxisEffect_ty then Inr ()
      else if eff \<in> jaxpr_effects jaxpr then Inr ()
      else Inl (JaxprTypeError ''effect not present in jaxpr''))"

definition check_effects ::
  "('v, 't) jaxpr \<Rightarrow> (('v, 't) var \<rightharpoonup> nat option) \<Rightarrow> ('v, 't) var set \<Rightarrow> ('v, 't) eqn \<Rightarrow> unit res" where
  "check_effects jaxpr in_idx mut_arrays eqn =
     (if \<exists>eff \<in> eqn_effects eqn. check_effect jaxpr in_idx mut_arrays eqn eff = Inl IndexError
      then Inl IndexError
      else if \<exists>eff \<in> eqn_effects eqn. check_effect jaxpr in_idx mut_arrays eqn eff \<noteq> Inr ()
      then Inl (JaxprTypeError ''effects'') else Inr ())"

type_synonym ('v, 't) chk_state =
  "('v, 't) tenv \<times> (('v, 't) var \<rightharpoonup> nat option) \<times> ('v, 't) var set"

definition note_allocation ::
  "('v, 't) eqn \<Rightarrow> (('v, 't) var \<rightharpoonup> nat option) \<Rightarrow> ('v, 't) var set \<Rightarrow>
   ((('v, 't) var \<rightharpoonup> nat option) \<times> ('v, 't) var set) res" where
  "note_allocation eqn in_idx mut_arrays =
     (if ref_primitive (primitive eqn) \<and> ref_allocating (primitive eqn)
      then (case eqn_outvars eqn of
              [outvar] \<Rightarrow> Inr (in_idx(outvar \<mapsto> None), insert outvar mut_arrays)
            | _ \<Rightarrow> Inl (ValueError ''unpack''))
      else Inr (in_idx, mut_arrays))"

definition check_one_eqn ::
  "('v, 't) chk_ops \<Rightarrow> (('v, 't) jaxpr \<Rightarrow> unit res) \<Rightarrow> ('v, 't) jaxpr \<Rightarrow> ('v, 't) eqn \<Rightarrow>
   ('v, 't) chk_state \<Rightarrow> ('v, 't) chk_state res" where
  "check_one_eqn ops rec jaxpr eqn s =
     (case s of (env, in_idx, mut_arrays) \<Rightarrow>
      rbind (rmap (chk_read ops env) (eqn_invars eqn)) (\<lambda>in_atoms.
      rbind (eqn_type ops rec eqn in_atoms) (\<lambda>(out_type, effs, upd).
      rbind (note_allocation eqn in_idx mut_arrays) (\<lambda>(in_idx', mut_arrays').
      if eqn_effects eqn \<noteq> effs then Inl (JaxprTypeError ''Inferred effects'')
      else
        rbind (check_effects jaxpr in_idx' mut_arrays' eqn) (\<lambda>_.
        rbind (foreach2 (chk_write ops) (eqn_outvars eqn) out_type
                 (apply_updates (eqn_invars eqn) upd env)) (\<lambda>env'.
        Inr (env', in_idx', mut_arrays')))))))"

definition index_inputs :: "('v, 't) jaxpr \<Rightarrow> (('v, 't) var \<rightharpoonup> nat option)" where
  "index_inputs jaxpr =
     map_of (rev (zip (constvars jaxpr @ invars jaxpr)
                      (map Some [0..<length (constvars jaxpr @ invars jaxpr)])))"

definition check_jaxpr_body ::
  "('v, 't) chk_ops \<Rightarrow> (('v, 't) jaxpr \<Rightarrow> unit res) \<Rightarrow> ('v, 't) jaxpr \<Rightarrow> unit res" where
  "check_jaxpr_body ops rec jaxpr =
     (if mutable_array_checks ops \<and> list_ex (\<lambda>x. is_ref_aval ops (atom_aval x)) (outvars jaxpr)
      then Inl (JaxprTypeError ''returned a ref!'')
      else
        rbind (rfold (\<lambda>v. chk_write ops v (vaval v, var_qdd v)) (constvars jaxpr @ invars jaxpr)
                 Map.empty) (\<lambda>env.
        rbind (rfold (check_one_eqn ops rec jaxpr) (eqns jaxpr) (env, index_inputs jaxpr, {}))
          (\<lambda>(env', _, _).
        if mutable_array_checks ops \<and> list_ex (\<lambda>x. is_ref_aval ops (atom_aval x)) (outvars jaxpr)
        then Inl (TypeError ''returned ref'')
        else rbind (rmap (chk_read ops env') (outvars jaxpr)) (\<lambda>_. Inr ()))))"

text \<open>
  Nested jaxprs are checked by the same function. The congruence rules say that the body
  only calls it on jaxprs found in the parameters, which are smaller.
\<close>

lemma eqn_type_cong:
  assumes "\<And>j. j \<in> set (jaxprs_in_params (params eqn)) \<Longrightarrow> f j = g j"
  shows "eqn_type ops f eqn in_atoms = eqn_type ops g eqn in_atoms"
proof -
  have "rfold (\<lambda>j _. f j) (jaxprs_in_params (params eqn)) ()
      = rfold (\<lambda>j _. g j) (jaxprs_in_params (params eqn)) ()"
    by (rule rfold_cong) (simp_all add: assms)
  then have "check_eqn ops f p avs (params eqn) = check_eqn ops g p avs (params eqn)" for p avs
    by (simp add: check_eqn_def)
  moreover have "check_call ops f in_atoms (params eqn) = check_call ops g in_atoms (params eqn)"
    using assms map_of_call_jaxpr [of "params eqn" "''call_jaxpr''"]
    by (auto simp: check_call_def split: option.splits)
  ultimately show ?thesis by (simp add: eqn_type_def split: option.splits)
qed

lemma check_jaxpr_body_cong [fundef_cong]:
  assumes "ops = ops'" and "jaxpr = jaxpr'"
    and "\<And>j. j \<in> set (subjaxprs jaxpr') \<Longrightarrow> f j = g j"
  shows "check_jaxpr_body ops f jaxpr = check_jaxpr_body ops' g jaxpr'"
proof -
  have "check_one_eqn ops' f jaxpr' eqn s = check_one_eqn ops' g jaxpr' eqn s"
    if "eqn \<in> set (eqns jaxpr')" for eqn s
  proof -
    have "eqn_type ops' f eqn ia = eqn_type ops' g eqn ia" for ia
      by (rule eqn_type_cong) (use that assms(3) in \<open>auto simp: subjaxprs_def\<close>)
    then show ?thesis by (simp add: check_one_eqn_def)
  qed
  then have "rfold (check_one_eqn ops' f jaxpr') (eqns jaxpr') s
           = rfold (check_one_eqn ops' g jaxpr') (eqns jaxpr') s" for s
    by (intro rfold_cong) auto
  then show ?thesis by (simp add: check_jaxpr_body_def assms)
qed

function check_jaxpr :: "('v, 't) chk_ops \<Rightarrow> ('v, 't) jaxpr \<Rightarrow> unit res" where
  "check_jaxpr ops jaxpr =
     rbind (check_jaxpr_body ops (check_jaxpr ops) jaxpr) (\<lambda>_.
       case key_reuse_checker ops of None \<Rightarrow> Inr () | Some chk \<Rightarrow> chk jaxpr)"
  by auto
termination by (relation "measure (size \<circ> snd)") (auto simp: subjaxprs_size)

declare check_jaxpr.simps [simp del]

subsection \<open>Soundness\<close>

text \<open>
  \<^verbatim>\<open>typematch\<close> is a parameter of the checker (\<open>TypeMatch\<close> has it for arrays and references), and no law of it is
  assumed: it is not transitive, since an empty mesh and a memory space \<^verbatim>\<open>None\<close> match any other. \<open>of_type ops t x\<close>, a value conforms to a
  type, therefore allows for several matches in a row: from \<open>t\<close> there is a chain of
  types, each matching the next, to the type of \<open>x\<close>. For a reflexive and transitive
  \<^verbatim>\<open>typematch\<close> it is the check \<^verbatim>\<open>typecheck(t, x)\<close> (\<open>of_type_typecheck\<close>). \<open>prim_sound\<close> is the contract between the typing rule and the
  implementation of a primitive at one equation: on operands that conform to the types the rule saw, the
  implementation either raises its own exception or answers with values that conform to the result types.
\<close>

definition matches :: "('v, 't) chk_ops \<Rightarrow> 't \<Rightarrow> 't \<Rightarrow> bool" where
  "matches ops t u \<longleftrightarrow> typematch ops t u = Inr True"

definition of_type :: "('v, 't) chk_ops \<Rightarrow> 't \<Rightarrow> 'v \<Rightarrow> bool" where
  "of_type ops t x \<longleftrightarrow> rtranclp (matches ops) t (typeof ops x)"

fun ans_ok :: "('v, 't) chk_ops \<Rightarrow> prim \<Rightarrow> ('v, 't) aval_qdd list \<Rightarrow> ('v ans \<times> 's) res \<Rightarrow> bool" where
  "ans_ok ops p ots (Inl e) = (\<exists>m. e = PrimError m)"
| "ans_ok ops p ots (Inr (Multiple xs, _)) =
     (multiple_results p \<and> list_all2 (\<lambda>t x. of_type ops (fst t) x) ots xs)"
| "ans_ok ops p ots (Inr (Single x, _)) =
     (\<not> multiple_results p \<and> (\<exists>t. ots = [t] \<and> of_type ops (fst t) x))"

definition prim_sound ::
  "('v, 't) chk_ops \<Rightarrow> ('v, 't, 's) bindfun \<Rightarrow> ('v, 't) eqn \<Rightarrow> bool" where
  "prim_sound ops bind eqn \<longleftrightarrow>
     (\<forall>in_atoms ots effs upd args st.
        eqn_type ops (check_jaxpr ops) eqn in_atoms = Inr (ots, effs, upd) \<longrightarrow>
        list_all2 (\<lambda>a x. of_type ops (tatom_aval a) x) in_atoms args \<longrightarrow>
        ans_ok ops (primitive eqn) ots (bind (primitive eqn) (params eqn) args st))"

definition env_ok :: "('v, 't) chk_ops \<Rightarrow> ('v, 't) tenv \<Rightarrow> ('v, 't) env \<Rightarrow> bool" where
  "env_ok ops tenv env \<longleftrightarrow>
     (\<forall>v a. tenv v = Some a \<longrightarrow> \<not> is_dropvar v \<and>
        (\<exists>x. env v = Some x \<and> of_type ops (vaval v) x \<and> of_type ops (tatom_aval a) x))"

lemma typecheck_matches: "typecheck ops t x = Inr True \<longleftrightarrow> matches ops t (typeof ops x)"
  by (auto simp: matches_def typecheck_def typecompat_def split: sum.splits py_exc.splits)

lemma of_type_typecheck:
  assumes "reflp (matches ops)" "transp (matches ops)"
  shows "of_type ops t x \<longleftrightarrow> typecheck ops t x = Inr True"
proof -
  have "matches ops t u" if "rtranclp (matches ops) t u" for u
    using that by (induction rule: rtranclp_induct) (auto intro: reflpD [OF assms(1)] transpD [OF assms(2)])
  then show ?thesis unfolding of_type_def typecheck_matches by blast
qed

lemma typecheck_of_type: "typecheck ops t x = Inr True \<Longrightarrow> of_type ops t x"
  unfolding typecheck_matches of_type_def by (rule r_into_rtranclp)

lemma of_type_match: "typematch ops t u = Inr True \<Longrightarrow> of_type ops u x \<Longrightarrow> of_type ops t x"
  unfolding of_type_def by (rule converse_rtranclp_into_rtranclp) (simp_all add: matches_def)

lemma env_ok_empty [simp]: "env_ok ops Map.empty env"
  by (simp add: env_ok_def)

lemma tatom_aval_qdd_update [simp]: "tatom_aval (qdd_update q a) = tatom_aval a"
  by (cases a) simp_all

lemma env_ok_updates:
  assumes "env_ok ops tenv env" shows "env_ok ops (apply_updates invs upd tenv) env"
  using assms unfolding apply_updates_def
proof (induction upd arbitrary: tenv)
  case Nil
  then show ?case by simp
next
  case (Cons p upd)
  obtain i q where p: "p = (i, q)" by (cases p)
  have "env_ok ops (if i < length invs
        then (case invs ! i of
                AVar v \<Rightarrow> (case tenv v of None \<Rightarrow> tenv | Some x \<Rightarrow> tenv(v \<mapsto> qdd_update q x))
              | ALit _ _ \<Rightarrow> tenv)
        else tenv) env"
    using Cons.prems by (auto simp: env_ok_def split: atom.splits option.splits)
  with Cons.IH p show ?case by simp
qed

lemma chk_read_sound:
  assumes "chk_read ops tenv a = Inr ta" and "env_ok ops tenv env"
  shows "\<exists>x. read_atom env a = Inr x \<and> of_type ops (tatom_aval ta) x \<and> of_type ops (atom_aval a) x"
proof (cases a)
  case (AVar v)
  with assms show ?thesis by (fastforce simp: env_ok_def split: option.splits)
next
  case (ALit x t)
  with assms show ?thesis by (auto simp: res_simps typecheck_of_type split: if_splits)
qed

lemma chk_reads_sound:
  assumes "rmap (chk_read ops tenv) as = Inr tas" and "env_ok ops tenv env"
  shows "\<exists>xs. rmap (read_atom env) as = Inr xs \<and>
     list_all2 (\<lambda>a x. of_type ops (tatom_aval a) x) tas xs \<and>
     list_all2 (\<lambda>a x. of_type ops (atom_aval a) x) as xs"
  using assms(1)
proof (induction as arbitrary: tas)
  case Nil
  then show ?case by simp
next
  case (Cons a as)
  then obtain ta tas' where t: "chk_read ops tenv a = Inr ta" "rmap (chk_read ops tenv) as = Inr tas'"
      "tas = ta # tas'"
    by (auto simp: res_simps)
  from chk_read_sound [OF t(1) assms(2)] Cons.IH [OF t(2)] t(3) show ?case by auto
qed

text \<open>A write the checker accepts succeeds at run time, on a value of the computed type.\<close>

definition chk_implied :: "('v, 't) chk_ops \<Rightarrow> ('t \<Rightarrow> 'v \<Rightarrow> bool) \<Rightarrow> bool" where
  "chk_implied ops chk \<longleftrightarrow> (\<forall>t x. of_type ops t x \<longrightarrow> chk t x)"

lemma chk_write_sound:
  assumes "chk_implied ops chk" and "chk_write ops v a tenv = Inr tenv'"
    and "of_type ops (fst a) x" and "env_ok ops tenv env"
  shows "\<exists>env'. write_var chk v x env = Inr env' \<and> env_ok ops tenv' env'"
proof -
  obtain t q where a: "a = (t, q)" by (cases a)
  from assms(2) a have w: "tenv v = None" "typematch ops (vaval v) t = Inr True"
      "tenv' = (if is_dropvar v then tenv else
        (case q of None \<Rightarrow> tenv(v \<mapsto> TAtom (AVar v)) | Some q \<Rightarrow> tenv(v \<mapsto> TMutable t q q)))"
    by (auto simp: chk_write_def res_simps split: if_splits option.splits)
  have ty: "of_type ops (vaval v) x" using of_type_match [OF w(2)] assms(3) a by simp
  then have "chk (vaval v) x" using assms(1) by (simp add: chk_implied_def)
  then have "write_var chk v x env = Inr (env(v \<mapsto> x))" by (rule write_var_ok)
  moreover have "env_ok ops tenv' (env(v \<mapsto> x))"
    using assms(3,4) a w ty by (auto simp: env_ok_def split: option.splits)
  ultimately show ?thesis by blast
qed

lemma chk_writes_sound:
  assumes "chk_implied ops chk"
    and "foreach2 (chk_write ops) vs ots tenv = Inr tenv'"
    and "list_all2 (\<lambda>t x. of_type ops (fst t) x) ots xs" and "env_ok ops tenv env"
  shows "\<exists>env'. foreach2 (write_var chk) vs xs env = Inr env' \<and> env_ok ops tenv' env'"
  using assms(2-4)
proof (induction vs arbitrary: ots xs tenv env)
  case Nil
  then show ?case by (cases ots; cases xs) auto
next
  case (Cons v vs)
  then obtain t ots' where ots: "ots = t # ots'" by (cases ots) auto
  with Cons.prems obtain x xs' where xs: "xs = x # xs'" "of_type ops (fst t) x"
      "list_all2 (\<lambda>t x. of_type ops (fst t) x) ots' xs'"
    by (cases xs) auto
  from Cons.prems ots obtain tenv1 where t1: "chk_write ops v t tenv = Inr tenv1"
      "foreach2 (chk_write ops) vs ots' tenv1 = Inr tenv'"
    by (auto simp: res_simps)
  from chk_write_sound [OF assms(1) t1(1) xs(2) Cons.prems(3)] obtain env1 where
    "write_var chk v x env = Inr env1" "env_ok ops tenv1 env1" by blast
  with Cons.IH [OF t1(2) xs(3)] xs(1) show ?case by simp
qed

lemma check_one_eqn_sound:
  assumes "chk_implied ops chk" and "prim_sound ops bind eqn"
    and "check_one_eqn ops (check_jaxpr ops) jaxpr eqn (tenv, ix, ma) = Inr (tenv', ix', ma')"
    and "env_ok ops tenv env"
  shows "(\<exists>m. eval_eqn bind chk eqn env st = Inl (PrimError m)) \<or>
         (\<exists>env' st'. eval_eqn bind chk eqn env st = Inr (env', st') \<and> env_ok ops tenv' env')"
proof -
  from assms(3) obtain in_atoms ots effs upd where
    rd: "rmap (chk_read ops tenv) (eqn_invars eqn) = Inr in_atoms" and
    ty: "eqn_type ops (check_jaxpr ops) eqn in_atoms = Inr (ots, effs, upd)" and
    wr: "foreach2 (chk_write ops) (eqn_outvars eqn) ots (apply_updates (eqn_invars eqn) upd tenv) = Inr tenv'"
    by (auto simp: check_one_eqn_def res_simps split: if_splits)
  from chk_reads_sound [OF rd assms(4)] obtain args where
    args: "rmap (read_atom env) (eqn_invars eqn) = Inr args"
      "list_all2 (\<lambda>a x. of_type ops (tatom_aval a) x) in_atoms args" by blast
  have ans: "ans_ok ops (primitive eqn) ots (bind (primitive eqn) (params eqn) args st)"
    using assms(2) ty args(2) by (auto simp: prim_sound_def)
  show ?thesis
  proof (cases "bind (primitive eqn) (params eqn) args st")
    case (Inl e)
    with ans args show ?thesis by (auto simp: eval_eqn_def)
  next
    case (Inr p)
    obtain a st' where p: "p = (a, st')" by (cases p)
    note upd_ok = env_ok_updates [OF assms(4), of "eqn_invars eqn" upd]
    show ?thesis
    proof (cases a)
      case (Multiple xs)
      with ans Inr p have "multiple_results (primitive eqn)"
        and "list_all2 (\<lambda>t x. of_type ops (fst t) x) ots xs" by auto
      with chk_writes_sound [OF assms(1) wr _ upd_ok] Multiple Inr p args show ?thesis
        by (fastforce simp: eval_eqn_def write_ans_def)
    next
      case (Single x)
      with ans Inr p obtain t where t: "\<not> multiple_results (primitive eqn)" "ots = [t]"
          "of_type ops (fst t) x" by auto
      with wr obtain v where v: "eqn_outvars eqn = [v]"
        by (cases "eqn_outvars eqn" rule: list.exhaust; cases "tl (eqn_outvars eqn)")
           (auto simp: res_simps)
      from chk_writes_sound [OF assms(1) wr _ upd_ok, of "[x]"] t v
      obtain env' where "write_var chk v x env = Inr env'" "env_ok ops tenv' env'"
        by auto
      with t v Single Inr p args show ?thesis by (auto simp: eval_eqn_def write_ans_def seq_get_def)
    qed
  qed
qed

lemma check_eqns_sound:
  assumes "chk_implied ops chk" and "\<forall>eqn \<in> set es. prim_sound ops bind eqn"
    and "rfold (check_one_eqn ops (check_jaxpr ops) jaxpr) es s = Inr s'"
    and "env_ok ops (fst s) env"
  shows "(\<exists>m. run_eqns bind chk es env st = Inl (PrimError m)) \<or>
         (\<exists>env' st'. run_eqns bind chk es env st = Inr (env', st') \<and> env_ok ops (fst s') env')"
  using assms(2-4)
proof (induction es arbitrary: s env st)
  case Nil
  then show ?case by simp
next
  case (Cons eqn es)
  from Cons.prems obtain s1 where s1: "check_one_eqn ops (check_jaxpr ops) jaxpr eqn s = Inr s1"
      "rfold (check_one_eqn ops (check_jaxpr ops) jaxpr) es s1 = Inr s'"
    by (auto simp: res_simps)
  obtain tenv ix ma tenv1 ix1 ma1 where ss: "s = (tenv, ix, ma)" "s1 = (tenv1, ix1, ma1)"
    by (cases s; cases s1)
  from check_one_eqn_sound [OF assms(1) _ s1(1) [unfolded ss], of bind env st] Cons.prems ss
  consider (err) m where "eval_eqn bind chk eqn env st = Inl (PrimError m)"
    | (ok) env1 st1 where "eval_eqn bind chk eqn env st = Inr (env1, st1)" "env_ok ops tenv1 env1"
    by auto
  then show ?case
  proof cases
    case err
    then show ?thesis by simp
  next
    case ok
    with Cons.IH [OF _ s1(2), of env1 st1] Cons.prems(1) ss show ?thesis by simp
  qed
qed

text \<open>The values bound to the inputs.\<close>

lemma bind_inputs_sound:
  assumes "chk_implied ops chk"
    and "rfold (\<lambda>v. chk_write ops v (vaval v, var_qdd v)) (constvars jaxpr @ invars jaxpr) Map.empty
         = Inr tenv"
    and "list_all2 (\<lambda>v x. of_type ops (vaval v) x) (constvars jaxpr) cs"
    and "list_all2 (\<lambda>v x. of_type ops (vaval v) x) (invars jaxpr) args"
  shows "\<exists>env. bind_inputs chk jaxpr cs args = Inr env \<and> env_ok ops tenv env"
proof -
  have loop: "foreach2 (chk_write ops) vs (map (\<lambda>v. (vaval v, var_qdd v)) vs) =
        rfold (\<lambda>v. chk_write ops v (vaval v, var_qdd v)) vs" for vs
    by (rule ext, induction vs) (simp_all add: fun_eq_iff cong: rbind_cong)
  from assms(2) obtain t1 where
    t1: "rfold (\<lambda>v. chk_write ops v (vaval v, var_qdd v)) (constvars jaxpr) Map.empty = Inr t1"
      "rfold (\<lambda>v. chk_write ops v (vaval v, var_qdd v)) (invars jaxpr) t1 = Inr tenv"
    by (auto simp: rfold_append res_simps)
  have ty: "list_all2 (\<lambda>v x. of_type ops (vaval v) x) vs xs \<Longrightarrow>
      list_all2 (\<lambda>t x. of_type ops (fst t) x) (map (\<lambda>v. (vaval v, var_qdd v)) vs) xs" for vs xs
    by (simp add: list_all2_map1)
  from chk_writes_sound [OF assms(1) _ ty [OF assms(3)] env_ok_empty,
      of "constvars jaxpr" t1 Map.empty] t1(1) obtain e1 where
    e1: "foreach2 (write_var chk) (constvars jaxpr) cs Map.empty = Inr e1" "env_ok ops t1 e1"
    by (auto simp: loop)
  from chk_writes_sound [OF assms(1) _ ty [OF assms(4)] e1(2), of "invars jaxpr" tenv] t1(2) e1(1)
  show ?thesis by (auto simp: loop bind_inputs_def)
qed

definition typed_run :: "('v, 't) chk_ops \<Rightarrow> 't list \<Rightarrow> ('v list \<times> 's) res \<Rightarrow> bool" where
  "typed_run ops ts r \<longleftrightarrow>
     (case r of Inl e \<Rightarrow> \<exists>m. e = PrimError m | Inr (outs, _) \<Rightarrow> list_all2 (of_type ops) ts outs)"

lemma check_jaxpr_sound_aux:
  assumes "chk_implied ops chk" and "\<forall>eqn \<in> set (eqns jaxpr). prim_sound ops bind eqn"
    and "check_jaxpr ops jaxpr = Inr ()"
    and "list_all2 (of_type ops) (map vaval (constvars jaxpr)) cs"
    and "list_all2 (of_type ops) (in_avals jaxpr) args"
  shows "typed_run ops (out_avals jaxpr) (eval_spec bind chk jaxpr cs args st)"
proof -
  from assms(3) obtain tenv s' tas where
    c: "rfold (\<lambda>v. chk_write ops v (vaval v, var_qdd v)) (constvars jaxpr @ invars jaxpr) Map.empty
         = Inr tenv"
      "rfold (check_one_eqn ops (check_jaxpr ops) jaxpr) (eqns jaxpr) (tenv, index_inputs jaxpr, {}) = Inr s'"
      "rmap (chk_read ops (fst s')) (outvars jaxpr) = Inr tas"
    by (subst (asm) check_jaxpr.simps)
       (auto simp: check_jaxpr_body_def res_simps split: if_splits prod.splits)
  from bind_inputs_sound [OF assms(1) c(1)] assms(4,5) obtain env where
    env: "bind_inputs chk jaxpr cs args = Inr env" "env_ok ops tenv env"
    by (auto simp: list_all2_map1 in_avals_def)
  from check_eqns_sound [OF assms(1,2) c(2), of env st] env(2)
  consider (err) m where "run_eqns bind chk (eqns jaxpr) env st = Inl (PrimError m)"
    | (ok) env' st' where "run_eqns bind chk (eqns jaxpr) env st = Inr (env', st')"
        "env_ok ops (fst s') env'" by auto
  then show ?thesis
  proof cases
    case err
    with env show ?thesis by (simp add: eval_spec_def typed_run_def)
  next
    case ok
    from chk_reads_sound [OF c(3) ok(2)] ok env show ?thesis
      by (auto simp: eval_spec_def typed_run_def out_avals_def list_all2_map1)
  qed
qed

end
