(* ===== verification/JaxprTransform.thy ===== *)
theory JaxprTransform
  imports JaxprEval
begin

text \<open>
  The bookkeeping operations of \<^verbatim>\<open>jax/_src/interpreters/partial_eval.py\<close> on whole jaxprs:
  inferring the effects of a jaxpr from its equations (\<^verbatim>\<open>make_jaxpr_effects\<close>), moving
  variables between the constants and the inputs, reordering the inputs with their effects
  renumbered, pruning outputs, and finding the inputs that are forwarded to outputs. Each
  lemma says how the meaning of the jaxpr under \<^verbatim>\<open>eval_jaxpr\<close> changes.
\<close>

subsection \<open>Updating a jaxpr\<close>

fun with_invars :: "('v, 't) var list \<Rightarrow> ('v, 't) jaxpr \<Rightarrow> ('v, 't) jaxpr" where
  "with_invars is' (Jaxpr cs is os es eff) = Jaxpr cs is' os es eff"

fun with_constvars :: "('v, 't) var list \<Rightarrow> ('v, 't) jaxpr \<Rightarrow> ('v, 't) jaxpr" where
  "with_constvars cs' (Jaxpr cs is os es eff) = Jaxpr cs' is os es eff"

fun with_outvars :: "('v, 't) atom list \<Rightarrow> ('v, 't) jaxpr \<Rightarrow> ('v, 't) jaxpr" where
  "with_outvars os' (Jaxpr cs is os es eff) = Jaxpr cs is os' es eff"

fun with_effects :: "effect set \<Rightarrow> ('v, 't) jaxpr \<Rightarrow> ('v, 't) jaxpr" where
  "with_effects eff' (Jaxpr cs is os es eff) = Jaxpr cs is os es eff'"

fun with_eqns :: "('v, 't) eqn list \<Rightarrow> ('v, 't) jaxpr \<Rightarrow> ('v, 't) jaxpr" where
  "with_eqns es' (Jaxpr cs is os es eff) = Jaxpr cs is os es' eff"

lemma with_simps [simp]:
  "constvars (with_invars xs j) = constvars j" "invars (with_invars xs j) = xs"
  "outvars (with_invars xs j) = outvars j" "eqns (with_invars xs j) = eqns j"
  "constvars (with_constvars xs j) = xs" "invars (with_constvars xs j) = invars j"
  "outvars (with_constvars xs j) = outvars j" "eqns (with_constvars xs j) = eqns j"
  "constvars (with_outvars ys j) = constvars j" "invars (with_outvars ys j) = invars j"
  "outvars (with_outvars ys j) = ys" "eqns (with_outvars ys j) = eqns j"
  "constvars (with_effects eff j) = constvars j" "invars (with_effects eff j) = invars j"
  "outvars (with_effects eff j) = outvars j" "eqns (with_effects eff j) = eqns j"
  "constvars (with_eqns es j) = constvars j" "invars (with_eqns es j) = invars j"
  "outvars (with_eqns es j) = outvars j" "eqns (with_eqns es j) = es"
  "jaxpr_effects (with_invars xs j) = jaxpr_effects j" "jaxpr_effects (with_constvars xs j) = jaxpr_effects j"
  "jaxpr_effects (with_outvars ys j) = jaxpr_effects j" "jaxpr_effects (with_effects eff j) = eff"
  "jaxpr_effects (with_eqns es j) = jaxpr_effects j"
  by (cases j; simp)+

lemma eval_spec_with_effects [simp]:
  "eval_spec bind chk (with_effects eff j) cs args st = eval_spec bind chk j cs args st"
  by (simp add: eval_spec_def bind_inputs_def)

subsection \<open>Inferring effects\<close>

text \<open>
  \<open>eff_target\<close> is the body of the inner loop of \<^verbatim>\<open>make_jaxpr_effects\<close>: the effect an equation's
  effect becomes, or \<open>None\<close> where it is skipped. A negative \<^verbatim>\<open>input_index\<close> counts from the end
  in Python. An effect set has no order: where several effects fail, an index error is
  reported first.
\<close>

definition eff_target ::
  "(('v, 't) var \<rightharpoonup> nat option) \<Rightarrow> ('v, 't) var set \<Rightarrow> ('v, 't) eqn \<Rightarrow> effect \<Rightarrow> effect option res" where
  "eff_target all_vars mut_arrays eqn eff =
     (if is_input_effect eff
      then if input_index eff \<ge> int (length (eqn_invars eqn))
           then Inl (ValueError ''JaxprInputEffect is invalid'')
           else rbind (py_get (eqn_invars eqn) (input_index eff)) (\<lambda>x. case x of
                  ALit _ _ \<Rightarrow> Inr None
                | AVar v \<Rightarrow>
                  if v \<in> mut_arrays then Inr None
                  else (case all_vars v of
                          None \<Rightarrow> Inl (ValueError ''no corresponding jaxpr input'')
                        | Some None \<Rightarrow> Inr None
                        | Some (Some i) \<Rightarrow> Inr (Some (replace_index eff (int i)))))
      else Inr (Some eff))"

definition eff_targets ::
  "(('v, 't) var \<rightharpoonup> nat option) \<Rightarrow> ('v, 't) var set \<Rightarrow> ('v, 't) eqn \<Rightarrow> effect set res" where
  "eff_targets all_vars mut_arrays eqn =
     (if \<exists>e \<in> eqn_effects eqn. eff_target all_vars mut_arrays eqn e = Inl IndexError
      then Inl IndexError
      else if \<exists>e \<in> eqn_effects eqn. isl (eff_target all_vars mut_arrays eqn e)
      then Inl (ValueError ''JaxprInputEffect'')
      else Inr (\<Union>e \<in> eqn_effects eqn.
             case eff_target all_vars mut_arrays eqn e of Inr (Some e') \<Rightarrow> {e'} | _ \<Rightarrow> {}))"

fun make_effects_loop ::
  "('v, 't) eqn list \<Rightarrow> (('v, 't) var \<rightharpoonup> nat option) \<Rightarrow> ('v, 't) var set \<Rightarrow> effect set \<Rightarrow> effect set res" where
  "make_effects_loop [] all_vars mut_arrays effs = Inr effs"
| "make_effects_loop (eqn # es) all_vars mut_arrays effs =
     (if ref_allocating (primitive eqn)
      then (case eqn_outvars eqn of
              [outvar] \<Rightarrow>
                rbind (eff_targets (all_vars(outvar \<mapsto> None)) (insert outvar mut_arrays) eqn) (\<lambda>new.
                make_effects_loop es (all_vars(outvar \<mapsto> None)) (insert outvar mut_arrays) (effs \<union> new))
            | _ \<Rightarrow> Inl (ValueError ''unpack''))
      else rbind (eff_targets all_vars mut_arrays eqn) (\<lambda>new.
             make_effects_loop es all_vars mut_arrays (effs \<union> new)))"

definition var_positions :: "('v, 't) var list \<Rightarrow> (('v, 't) var \<rightharpoonup> nat)" where
  "var_positions vs = map_of (rev (zip vs [0..<length vs]))"

definition make_jaxpr_effects ::
  "('v, 't) var list \<Rightarrow> ('v, 't) var list \<Rightarrow> ('v, 't) eqn list \<Rightarrow> effect set res" where
  "make_jaxpr_effects cvs ivs es =
     make_effects_loop es (\<lambda>v. map_option Some (var_positions (cvs @ ivs) v)) {} {}"

lemma var_positions_Some:
  "var_positions vs v = Some i \<Longrightarrow> i < length vs \<and> vs ! i = v"
  by (auto simp: var_positions_def set_zip dest!: map_of_SomeD)

lemma var_positions_dom: "dom (var_positions vs) = set vs"
proof -
  have "dom (var_positions vs) = fst ` set (zip vs [0..<length vs])"
    by (simp add: var_positions_def dom_map_of_conv_image_fst)
  also have "\<dots> = set (map fst (zip vs [0..<length vs]))" by (simp only: list.set_map)
  also have "\<dots> = set vs" by (simp only: map_fst_zip length_upt diff_zero)
  finally show ?thesis .
qed

lemma var_positions_distinct:
  "distinct vs \<Longrightarrow> i < length vs \<Longrightarrow> var_positions vs (vs ! i) = Some i"
proof -
  assume d: "distinct vs" and i: "i < length vs"
  then have "vs ! i \<in> dom (var_positions vs)" by (simp add: var_positions_dom)
  then obtain k where "var_positions vs (vs ! i) = Some k" by auto
  with var_positions_Some [OF this] d i show ?thesis by (metis nth_eq_iff_index_eq)
qed

text \<open>Input effects inferred for a jaxpr point at its constants and inputs.\<close>

definition effs_in_range :: "nat \<Rightarrow> effect set \<Rightarrow> bool" where
  "effs_in_range n effs \<longleftrightarrow> (\<forall>e \<in> effs. is_input_effect e \<longrightarrow> 0 \<le> input_index e \<and> input_index e < int n)"

lemma eff_target_range:
  assumes "eff_target all_vars mut eqn e = Inr (Some e')"
    and "\<forall>v i. all_vars v = Some (Some i) \<longrightarrow> i < n"
  shows "is_input_effect e' \<longrightarrow> 0 \<le> input_index e' \<and> input_index e' < int n"
proof (cases "is_input_effect e")
  case True
  with assms(1) obtain v i where "all_vars v = Some (Some i)" "e' = replace_index e (int i)"
    by (auto simp: eff_target_def rbind_def split: if_splits sum.splits atom.splits option.splits)
  with True assms(2) show ?thesis by (auto simp: replace_index_index)
next
  case False
  with assms(1) show ?thesis by (simp add: eff_target_def)
qed

lemma make_effects_loop_range:
  assumes "make_effects_loop es all_vars mut effs = Inr effs'"
    and "\<forall>v i. all_vars v = Some (Some i) \<longrightarrow> i < n" and "effs_in_range n effs"
  shows "effs_in_range n effs'"
proof -
  have new: "effs_in_range n new"
    if "eff_targets av m eqn = Inr new" "\<forall>v i. av v = Some (Some i) \<longrightarrow> i < n"
    for av :: "('a, 'b) var \<rightharpoonup> nat option" and m eqn new
    using that eff_target_range [of av m eqn _ _ n]
    by (auto simp: eff_targets_def effs_in_range_def split: if_splits sum.splits option.splits)
  show ?thesis
    using assms
  proof (induction es all_vars mut effs rule: make_effects_loop.induct)
    case (1 av m effs)
    then show ?case by simp
  next
    case (2 eqn es av m effs)
    have un: "effs_in_range n (effs \<union> x)" if "effs_in_range n x" for x
      using that "2.prems"(3) by (auto simp: effs_in_range_def)
    show ?case
    proof (cases "ref_allocating (primitive eqn)")
      case True
      with "2.prems"(1) obtain w x where w: "eqn_outvars eqn = [w]"
        "eff_targets (av(w \<mapsto> None)) (insert w m) eqn = Inr x"
        "make_effects_loop es (av(w \<mapsto> None)) (insert w m) (effs \<union> x) = Inr effs'"
        by (auto simp: res_simps split: list.splits)
      moreover have "\<forall>v i. (av(w \<mapsto> None)) v = Some (Some i) \<longrightarrow> i < n"
        using "2.prems"(2) by auto
      ultimately show ?thesis using "2.IH"(1) True new un by fastforce
    next
      case False
      with "2.prems"(1) obtain x where "eff_targets av m eqn = Inr x"
        "make_effects_loop es av m (effs \<union> x) = Inr effs'"
        by (auto simp: res_simps)
      with "2.IH"(2) False "2.prems"(2) new un show ?thesis by blast
    qed
  qed
qed

lemma make_jaxpr_effects_range:
  "make_jaxpr_effects cvs ivs es = Inr effs \<Longrightarrow> effs_in_range (length cvs + length ivs) effs"
  unfolding make_jaxpr_effects_def
  by (erule make_effects_loop_range)
     (auto simp: effs_in_range_def dest!: var_positions_Some)

subsection \<open>Binding the inputs\<close>

lemma foreach_write_eq:
  "length vs = length xs \<Longrightarrow>
   foreach2 (write_var chk) vs xs env =
     (if list_all2 (\<lambda>v x. chk (vaval v) x) vs xs then Inr (env ++ map_of (rev (zip vs xs)))
      else Inl AssertionError)"
proof (induction vs xs arbitrary: env rule: list_induct2)
  case Nil
  then show ?case by simp
next
  case (Cons v vs x xs)
  have "env(v \<mapsto> x) ++ map_of (rev (zip vs xs)) = env ++ map_of (rev (zip vs xs) @ [(v, x)])"
    by (auto simp: map_add_def fun_eq_iff split: option.splits)
  note eq = this
  show ?case
  proof (cases "chk (vaval v) x")
    case True
    with Cons.IH [of "env(v \<mapsto> x)"] show ?thesis by (simp only: foreach2.simps write_var_ok rbind_Inr eq)
        (simp add: True)
  next
    case False
    then show ?thesis by (simp add: write_var_bad)
  qed
qed

lemma bind_inputs_eq:
  assumes "length cs = length (constvars jaxpr)" and "length args = length (invars jaxpr)"
  shows "bind_inputs chk jaxpr cs args =
     (if list_all2 (\<lambda>v x. chk (vaval v) x) (constvars jaxpr @ invars jaxpr) (cs @ args)
      then Inr (map_of (rev (zip (constvars jaxpr @ invars jaxpr) (cs @ args))))
      else Inl AssertionError)"
  using assms by (auto simp: bind_inputs_def foreach_write_eq list_all2_append zip_append1)

text \<open>
  With distinct names the order of the binders is irrelevant, as long as every name keeps
  its value.
\<close>

lemma map_of_permuted:
  assumes "distinct vs" and "length vs = length xs" and "distinct ws" and "length ws = length ys"
    and "set (zip vs xs) = set (zip ws ys)"
  shows "map_of (rev (zip vs xs)) = map_of (rev (zip ws ys))"
proof -
  have d: "distinct (map fst (rev (zip us zs)))" if "distinct us" "length us = length zs"
    for us :: "'a list" and zs :: "'b list"
    using that by (simp add: rev_map [symmetric])
  from map_of_inject_set [OF d [OF assms(1,2)] d [OF assms(3,4)]] assms(5) show ?thesis by simp
qed

lemma list_all2_set_zip:
  "length xs = length ys \<Longrightarrow> list_all2 P xs ys \<longleftrightarrow> (\<forall>(x, y) \<in> set (zip xs ys). P x y)"
  by (auto simp: list_all2_iff)

lemma eval_spec_permuted:
  assumes "eqns j' = eqns j" "outvars j' = outvars j"
    and "distinct (constvars j @ invars j)" "distinct (constvars j' @ invars j')"
    and "length cs = length (constvars j)" "length args = length (invars j)"
    and "length cs' = length (constvars j')" "length args' = length (invars j')"
    and "set (zip (constvars j @ invars j) (cs @ args)) = set (zip (constvars j' @ invars j') (cs' @ args'))"
  shows "eval_spec bind chk j' cs' args' st = eval_spec bind chk j cs args st"
proof -
  have "map_of (rev (zip (constvars j @ invars j) (cs @ args))) =
        map_of (rev (zip (constvars j' @ invars j') (cs' @ args')))"
    by (rule map_of_permuted) (use assms in simp_all)
  moreover have "list_all2 (\<lambda>v x. chk (vaval v) x) (constvars j @ invars j) (cs @ args) \<longleftrightarrow>
        list_all2 (\<lambda>v x. chk (vaval v) x) (constvars j' @ invars j') (cs' @ args')"
    by (subst (1 2) list_all2_set_zip) (use assms in simp_all)
  ultimately have "bind_inputs chk j' cs' args' = bind_inputs chk j cs args"
    using assms(5-8) by (simp add: bind_inputs_eq)
  with assms(1,2) show ?thesis by (simp add: eval_spec_def)
qed

subsection \<open>Moving variables between the constants and the inputs\<close>

definition move_envvars :: "('v, 't) jaxpr \<Rightarrow> bool list \<Rightarrow> ('v, 't) jaxpr res" where
  "move_envvars jaxpr which =
     rbind (partition_list which (constvars jaxpr)) (\<lambda>(cvs, envvars).
     Inr (with_constvars cvs (with_invars (envvars @ invars jaxpr) jaxpr)))"

definition close_jaxpr :: "('v, 't) jaxpr \<Rightarrow> ('v, 't) closed_jaxpr res" where
  "close_jaxpr jaxpr = mk_closed_jaxpr jaxpr []"

definition convert_constvars_jaxpr :: "('v, 't) jaxpr \<Rightarrow> ('v, 't) jaxpr" where
  "convert_constvars_jaxpr jaxpr =
     with_constvars [] (with_invars (constvars jaxpr @ invars jaxpr) jaxpr)"

definition separate_consts ::
  "('v, 't) closed_jaxpr \<Rightarrow> (('v, 't) closed_jaxpr \<times> 'v list) res" where
  "separate_consts c =
     rbind (close_jaxpr (convert_constvars_jaxpr (cjaxpr c))) (\<lambda>c'. Inr (c', jconsts c))"

definition convert_invars_to_constvars :: "('v, 't) jaxpr \<Rightarrow> int \<Rightarrow> ('v, 't) jaxpr res" where
  "convert_invars_to_constvars jaxpr n =
     (if n = 0 then Inr jaxpr
      else case split_list (invars jaxpr) [n] of
        [cvs, ivs] \<Rightarrow> Inr (with_constvars cvs (with_invars ivs jaxpr))
      | _ \<Rightarrow> Inl (ValueError ''unpack''))"

lemma convert_constvars_eval:
  "length cs = length (constvars jaxpr) \<Longrightarrow> length args = length (invars jaxpr) \<Longrightarrow>
   eval_spec bind chk (convert_constvars_jaxpr jaxpr) [] (cs @ args) st =
   eval_spec bind chk jaxpr cs args st"
  by (simp add: eval_spec_def bind_inputs_eq convert_constvars_jaxpr_def)

lemma convert_invars_to_constvars_eq:
  assumes "0 < n" and "convert_invars_to_constvars jaxpr n = Inr j'"
  shows "j' = with_constvars (take (nat n) (invars jaxpr))
                (with_invars (drop (nat n) (invars jaxpr)) jaxpr)"
  using assms by (simp add: convert_invars_to_constvars_def split_list_one)

lemma convert_invars_to_constvars_eval:
  assumes "convert_invars_to_constvars jaxpr (int n) = Inr j'" and "constvars jaxpr = []"
    and "n \<le> length (invars jaxpr)" and "length cs = n" and "length cs + length args = length (invars jaxpr)"
  shows "eval_spec bind chk j' cs args st = eval_spec bind chk jaxpr [] (cs @ args) st"
proof (cases "n = 0")
  case True
  with assms show ?thesis by (simp add: convert_invars_to_constvars_def)
next
  case False
  with convert_invars_to_constvars_eq [OF _ assms(1)] have
    "j' = with_constvars (take n (invars jaxpr)) (with_invars (drop n (invars jaxpr)) jaxpr)" by simp
  with assms(2-5) show ?thesis by (simp add: eval_spec_def bind_inputs_eq)
qed

lemma convert_constvars_round_trip:
  "convert_invars_to_constvars (convert_constvars_jaxpr jaxpr) (int (length (constvars jaxpr))) = Inr jaxpr"
  by (cases jaxpr)
     (simp add: convert_constvars_jaxpr_def convert_invars_to_constvars_def split_list_one)

lemma separate_consts_eval:
  assumes "separate_consts c = Inr (c', cs)" and "length (jconsts c) = length (constvars (cjaxpr c))"
    and "length args = length (invars (cjaxpr c))"
  shows "jaxpr_as_fun bind chk c' (cs @ args) st = jaxpr_as_fun bind chk c args st"
  using assms convert_constvars_eval [of "jconsts c" "cjaxpr c" args bind chk st]
  by (auto simp: separate_consts_def close_jaxpr_def mk_closed_jaxpr_def jaxpr_as_fun_def
      eval_jaxpr_spec res_simps convert_constvars_jaxpr_def split: if_splits)

text \<open>The pairs of a partition are the pairs of the whole.\<close>

lemma set_zip_partition:
  assumes "length bs = length xs" and "length bs = length ys"
  shows "set (zip (keep (map Not bs) xs) (keep (map Not bs) ys)) \<union>
         set (zip (keep bs xs) (keep bs ys)) = set (zip xs ys)"
proof -
  have "set (zip (keep (map Not bs) xs) (keep (map Not bs) ys)) \<union>
         set (zip (keep bs xs) (keep bs ys)) = set (zip xs ys)" if "length xs = length ys"
    using assms(1) that
  proof (induction bs xs arbitrary: ys rule: list_induct2)
    case Nil
    then show ?case by simp
  next
    case (Cons b bs x xs)
    then obtain y ys' where ys: "ys = y # ys'" "length xs = length ys'" by (cases ys) auto
    with Cons.IH [of ys'] show ?case by auto
  qed
  with assms show ?thesis by simp
qed

lemma distinct_keep_partition:
  "length bs = length xs \<Longrightarrow>
   distinct (keep (map Not bs) xs @ keep bs xs) \<longleftrightarrow> distinct xs"
proof (induction bs xs rule: list_induct2)
  case (Cons b bs x xs)
  have "set (keep (map Not bs) xs) \<union> set (keep bs xs) = set xs"
    using Cons.hyps by (induction bs xs rule: list_induct2) auto
  with Cons.IH show ?case by auto
qed simp

lemma set_keep_partition:
  "length bs = length xs \<Longrightarrow> set (keep (map Not bs) xs) \<union> set (keep bs xs) = set xs"
  by (induction bs xs rule: list_induct2) auto

lemma length_keep_eq: "length bs = length xs \<Longrightarrow> length bs = length ys \<Longrightarrow>
    length (keep bs xs) = length (keep bs ys)"
  by (simp add: length_keep)

lemma move_envvars_eval:
  assumes "move_envvars jaxpr which = Inr j'" and "distinct (constvars jaxpr @ invars jaxpr)"
    and "length cs = length (constvars jaxpr)" and "length args = length (invars jaxpr)"
  shows "eval_spec bind chk j' (keep (map Not which) cs) (keep which cs @ args) st =
         eval_spec bind chk jaxpr cs args st"
proof -
  let ?n = "keep (map Not which)" and ?k = "keep which"
  from assms(1) have len: "length which = length (constvars jaxpr)"
    and j': "j' = with_constvars (?n (constvars jaxpr)) (with_invars (?k (constvars jaxpr) @ invars jaxpr) jaxpr)"
    by (auto simp: move_envvars_def partition_list_def partition_loop_keep res_simps split: if_splits)
  have l: "length (?n cs) = length (?n (constvars jaxpr))" "length (?k cs) = length (?k (constvars jaxpr))"
    using len assms(3) by (auto intro!: length_keep_eq)
  show ?thesis
  proof (rule eval_spec_permuted [OF _ _ assms(2) _ assms(3,4)])
    show "distinct (constvars j' @ invars j')"
      using assms(2) distinct_keep_partition [OF len] set_keep_partition [OF len] j' by auto
    show "set (zip (constvars jaxpr @ invars jaxpr) (cs @ args)) =
          set (zip (constvars j' @ invars j') (?n cs @ ?k cs @ args))"
      using l assms(3,4) set_zip_partition [of which "constvars jaxpr" cs] len j' by auto
  qed (use j' l assms(4) in simp_all)
qed

subsection \<open>Reordering the inputs\<close>

definition renumber_effects ::
  "('v, 't) var list \<Rightarrow> ('v, 't) var list \<Rightarrow> effect set \<Rightarrow> effect set res" where
  "renumber_effects new_vars old_vars effs =
     rbind (rmap (\<lambda>v. case var_positions new_vars v of None \<Rightarrow> Inl KeyError | Some i \<Rightarrow> Inr i) old_vars)
       (\<lambda>old_to_new.
        if \<exists>e \<in> effs. is_input_effect e \<and>
             \<not> (0 \<le> input_index e \<and> input_index e < int (length old_vars))
        then Inl KeyError
        else Inr ((\<lambda>e. if is_input_effect e
                       then replace_index e (int (old_to_new ! nat (input_index e))) else e) ` effs))"

definition move_to_front :: "'a list \<Rightarrow> bool list \<Rightarrow> 'a list" where
  "move_to_front lst to_move = keep to_move lst @ keep (map Not to_move) lst"

definition move_binders_to_front ::
  "('v, 't) closed_jaxpr \<Rightarrow> bool list \<Rightarrow> ('v, 't) closed_jaxpr res" where
  "move_binders_to_front c to_move =
     (let jaxpr = cjaxpr c; cvs = constvars jaxpr; ivs = invars jaxpr in
      if length ivs \<noteq> length to_move then Inl AssertionError
      else
        let new_invars = move_to_front ivs to_move in
        rbind (renumber_effects (cvs @ new_invars) (cvs @ ivs) (jaxpr_effects jaxpr)) (\<lambda>new_effs.
        mk_closed_jaxpr (with_effects new_effs (with_invars new_invars jaxpr)) (jconsts c)))"

definition move_binders_to_back ::
  "('v, 't) closed_jaxpr \<Rightarrow> bool list \<Rightarrow> ('v, 't) closed_jaxpr res" where
  "move_binders_to_back c to_move = move_binders_to_front c (map Not to_move)"

definition move_invars_right ::
  "('v, 't) closed_jaxpr \<Rightarrow> bool list \<Rightarrow> ('v, 't) closed_jaxpr res" where
  "move_invars_right c to_move =
     (let jaxpr = cjaxpr c in
      case split_list (invars jaxpr) [int (length to_move)] of
        [ivs, rest] \<Rightarrow>
          rbind (partition_list to_move ivs) (\<lambda>(left_invars, right_invars).
          let new_invars = left_invars @ right_invars @ rest in
          rbind (renumber_effects (constvars jaxpr @ new_invars) (constvars jaxpr @ invars jaxpr)
                   (jaxpr_effects jaxpr)) (\<lambda>new_effs.
          mk_closed_jaxpr (with_effects new_effs (with_invars new_invars jaxpr)) (jconsts c)))
      | _ \<Rightarrow> Inl (ValueError ''unpack''))"

text \<open>A renumbered input effect names the variable it named before.\<close>

lemma renumber_effects_same_var:
  assumes "renumber_effects new old effs = Inr effs'" and "e' \<in> effs'" and "is_input_effect e'"
  shows "\<exists>e \<in> effs. is_input_effect e \<and> e' = replace_index e (input_index e') \<and>
     0 \<le> input_index e' \<and> nat (input_index e') < length new \<and> nat (input_index e) < length old \<and>
     new ! nat (input_index e') = old ! nat (input_index e)"
proof -
  from assms(1) obtain pos where
    pos: "rmap (\<lambda>v. case var_positions new v of None \<Rightarrow> Inl KeyError | Some i \<Rightarrow> Inr i) old = Inr pos"
    and rng: "\<forall>e \<in> effs. is_input_effect e \<longrightarrow> 0 \<le> input_index e \<and> input_index e < int (length old)"
    and eff: "effs' = (\<lambda>e. if is_input_effect e
                       then replace_index e (int (pos ! nat (input_index e))) else e) ` effs"
    by (auto simp: renumber_effects_def res_simps split: if_splits)
  from assms(2,3) eff obtain e where e: "e \<in> effs" "is_input_effect e"
      "e' = replace_index e (int (pos ! nat (input_index e)))"
    by (auto split: if_splits)
  from e rng have i: "nat (input_index e) < length old" by auto
  with pos have "(case var_positions new (old ! nat (input_index e)) of None \<Rightarrow> Inl KeyError
      | Some i \<Rightarrow> Inr i) = Inr (pos ! nat (input_index e))"
    unfolding rmap_Inr_iff by blast
  then have "var_positions new (old ! nat (input_index e)) = Some (pos ! nat (input_index e))"
    by (simp split: option.splits)
  from var_positions_Some [OF this] e i show ?thesis by (auto simp: replace_index_index)
qed

lemma set_zip_move_to_front:
  "length bs = length xs \<Longrightarrow> length bs = length ys \<Longrightarrow>
   set (zip (move_to_front xs bs) (move_to_front ys bs)) = set (zip xs ys)"
  using set_zip_partition [of bs xs ys] length_keep_eq [of bs xs ys]
  by (auto simp: move_to_front_def)

lemma move_binders_to_front_eval:
  assumes "move_binders_to_front c to_move = Inr c'"
    and "distinct (constvars (cjaxpr c) @ invars (cjaxpr c))"
    and "length (jconsts c) = length (constvars (cjaxpr c))" and "length args = length (invars (cjaxpr c))"
  shows "jaxpr_as_fun bind chk c' (move_to_front args to_move) st = jaxpr_as_fun bind chk c args st"
proof -
  let ?j = "cjaxpr c" and ?ivs = "move_to_front (invars (cjaxpr c)) to_move"
  from assms(1) obtain effs where len: "length (invars ?j) = length to_move"
    and c': "c' = ClosedJaxpr (with_effects effs (with_invars ?ivs ?j)) (jconsts c)"
    by (auto simp: move_binders_to_front_def mk_closed_jaxpr_def res_simps Let_def split: if_splits)
  have "set ?ivs = set (invars ?j)"
    using set_keep_partition [of to_move "invars ?j"] len by (auto simp: move_to_front_def)
  moreover have "distinct ?ivs \<longleftrightarrow> distinct (invars ?j)"
    using distinct_keep_partition [of to_move "invars ?j"] len by (auto simp: move_to_front_def)
  ultimately have d: "distinct (constvars ?j @ ?ivs)" using assms(2) by simp
  have l: "length ?ivs = length (invars ?j)" "length (move_to_front args to_move) = length args"
    using len assms(4) by (simp_all add: move_to_front_def length_keep count_list_Not count_list_le_length)
  have z: "set (zip (constvars ?j @ invars ?j) (jconsts c @ args)) =
           set (zip (constvars ?j @ ?ivs) (jconsts c @ move_to_front args to_move))"
    using assms(3,4) len by (simp add: zip_append set_zip_move_to_front)
  have "eval_spec bind chk (with_invars ?ivs ?j) (jconsts c) (move_to_front args to_move) st
      = eval_spec bind chk ?j (jconsts c) args st"
    by (rule eval_spec_permuted [OF _ _ assms(2) _ assms(3,4)]) (use d l z assms(3,4) in simp_all)
  with c' show ?thesis by (simp add: jaxpr_as_fun_def eval_jaxpr_spec)
qed

subsection \<open>Pruning outputs\<close>

definition prune_jaxpr_outputs :: "('v, 't) jaxpr \<Rightarrow> bool list \<Rightarrow> ('v, 't) jaxpr res" where
  "prune_jaxpr_outputs jaxpr used_outputs =
     rbind (safe_zip (outvars jaxpr) used_outputs) (\<lambda>ps.
     Inr (with_outvars (map fst (filter snd ps)) jaxpr))"

definition prune_closed_jaxpr_outputs ::
  "('v, 't) closed_jaxpr \<Rightarrow> bool list \<Rightarrow> ('v, 't) closed_jaxpr res" where
  "prune_closed_jaxpr_outputs c used_outputs =
     rbind (prune_jaxpr_outputs (cjaxpr c) used_outputs) (\<lambda>j. mk_closed_jaxpr j (jconsts c))"

lemma filter_zip_keep: "length xs = length bs \<Longrightarrow> map fst (filter snd (zip xs bs)) = keep bs xs"
  by (induction xs bs rule: list_induct2) auto

lemma prune_jaxpr_outputs_eq:
  "prune_jaxpr_outputs jaxpr used = Inr j' \<Longrightarrow>
   j' = with_outvars (keep used (outvars jaxpr)) jaxpr \<and> length used = length (outvars jaxpr)"
  by (auto simp: prune_jaxpr_outputs_def safe_zip_def filter_zip_keep res_simps split: if_splits)

lemma rmap_keep: "rmap f xs = Inr ys \<Longrightarrow> rmap f (keep bs xs) = Inr (keep bs ys)"
proof (induction bs xs arbitrary: ys rule: keep.induct)
  case (1 b bs x xs)
  then show ?case by (auto simp: res_simps)
qed (auto simp: res_simps)

lemma prune_jaxpr_outputs_eval:
  assumes "prune_jaxpr_outputs jaxpr used = Inr j'"
    and "eval_spec bind chk jaxpr cs args st = Inr (outs, st')"
  shows "eval_spec bind chk j' cs args st = Inr (keep used outs, st')"
  using assms(2) prune_jaxpr_outputs_eq [OF assms(1)]
  by (auto simp: eval_spec_def bind_inputs_def res_simps intro: rmap_keep)

subsection \<open>Dropping unused variables\<close>

text \<open>
  \<open>drop_unused_vars\<close> walks the equations backwards, replaces the binders nothing later uses
  by \<^verbatim>\<open>DropVar\<close> and keeps the constants that are used. The source updates the equations in
  place; here they are returned. A fresh \<^verbatim>\<open>DropVar\<close> gets the count of the variable it replaces.
\<close>

definition drop_unless :: "('v, 't) var set \<Rightarrow> ('v, 't) var \<Rightarrow> ('v, 't) var" where
  "drop_unless used v = (if v \<in> used then v else DropVar (vcount v) (vaval v))"

fun with_eqn_outvars :: "('v, 't) var list \<Rightarrow> ('v, 't) eqn \<Rightarrow> ('v, 't) eqn" where
  "with_eqn_outvars os' (JaxprEqn is os p ps eff) = JaxprEqn is os' p ps eff"

fun drop_unused_eqns ::
  "('v, 't) eqn list \<Rightarrow> ('v, 't) var set \<Rightarrow> ('v, 't) eqn list \<times> ('v, 't) var set" where
  "drop_unused_eqns [] used = ([], used)"
| "drop_unused_eqns (eqn # es) used =
     (let (es', used') = drop_unused_eqns es used in
      (with_eqn_outvars (map (drop_unless used') (eqn_outvars eqn)) eqn # es',
       used' \<union> set (atom_vars (eqn_invars eqn))))"

definition drop_unused_vars ::
  "('v, 't) var list \<Rightarrow> 'v list \<Rightarrow> ('v, 't) eqn list \<Rightarrow> ('v, 't) atom list \<Rightarrow>
   (('v, 't) var list \<times> 'v list \<times> ('v, 't) eqn list) res" where
  "drop_unused_vars cvs cvals es outs =
     (let (es', used) = drop_unused_eqns es (set (atom_vars outs)) in
      rbind (safe_zip cvs cvals) (\<lambda>ps.
      let (cvs', cvals') = unzip2 (filter (\<lambda>(v, _). v \<in> used) ps) in
      Inr (cvs', cvals', es')))"

end
