(* ===== verification/JaxprForward.thy ===== *)
theory JaxprForward
  imports JaxprTransform
begin

text \<open>
  Two analyses of \<^verbatim>\<open>partial_eval.py\<close> that look through a jaxpr without changing what it
  computes: \<^verbatim>\<open>_jaxpr_forwarding\<close>, which finds the outputs that are inputs handed through by
  forwarding primitives, and \<^verbatim>\<open>_drop_unused_vars\<close>, whose result computes the same outputs.
\<close>

subsection \<open>Single assignment\<close>

definition binders :: "('v, 't) jaxpr \<Rightarrow> ('v, 't) var list" where
  "binders jaxpr = constvars jaxpr @ invars jaxpr @ concat (map eqn_outvars (eqns jaxpr))"

definition single_assignment :: "('v, 't) jaxpr \<Rightarrow> bool" where
  "single_assignment jaxpr \<longleftrightarrow> distinct (binders jaxpr)"

text \<open>The values an equation answered with, as a list.\<close>

fun ans_values :: "'v ans \<Rightarrow> 'v list" where
  "ans_values (Single x) = [x]"
| "ans_values (Multiple xs) = xs"

lemma foreach_write_nth:
  "foreach2 (write_var chk) vs xs env = Inr env' \<Longrightarrow> distinct vs \<Longrightarrow> i < length vs \<Longrightarrow>
   env' (vs ! i) = Some (xs ! i)"
proof (induction vs xs arbitrary: env i rule: list_induct2')
  case (4 v vs x xs)
  from "4.prems"(1) have w: "foreach2 (write_var chk) vs xs (env(v \<mapsto> x)) = Inr env'"
    by (auto simp: res_simps)
  show ?case
  proof (cases i)
    case 0
    with foreach_write_frame [OF w, of v] "4.prems"(2) show ?thesis by simp
  next
    case (Suc k)
    with "4.IH" [OF w, of k] "4.prems" show ?thesis by simp
  qed
qed simp_all

lemma write_ans_nth:
  assumes "write_ans chk eqn ans env = Inr env'" and "distinct (eqn_outvars eqn)"
    and "i < length (eqn_outvars eqn)" and "i < length (ans_values ans)"
  shows "env' (eqn_outvars eqn ! i) = Some (ans_values ans ! i)"
  using assms
  by (auto simp: write_ans_def res_simps write_var_def foreach_write_nth split: if_splits ans.splits)

subsection \<open>Forwarding\<close>

type_synonym ('v, 't) fwd_rule = "('v, 't) eqn \<Rightarrow> int option list res"

fun with_eqn_invars :: "('v, 't) atom list \<Rightarrow> ('v, 't) eqn \<Rightarrow> ('v, 't) eqn" where
  "with_eqn_invars is' (JaxprEqn is os p ps eff) = JaxprEqn is' os p ps eff"

fun subst_atom :: "(('v, 't) var \<rightharpoonup> ('v, 't) atom) \<Rightarrow> ('v, 't) atom \<Rightarrow> ('v, 't) atom" where
  "subst_atom fwds (ALit x t) = ALit x t"
| "subst_atom fwds (AVar v) = (case fwds v of None \<Rightarrow> AVar v | Some a \<Rightarrow> a)"

definition note_forward ::
  "('v, 't) atom list \<Rightarrow> (('v, 't) var \<times> int option) \<Rightarrow> (('v, 't) var \<rightharpoonup> ('v, 't) atom) \<Rightarrow>
   (('v, 't) var \<rightharpoonup> ('v, 't) atom) res" where
  "note_forward invs p fwds =
     (case p of (v, idx) \<Rightarrow>
      (case idx of None \<Rightarrow> Inr fwds | Some i \<Rightarrow> rbind (py_get invs i) (\<lambda>a. Inr (fwds(v \<mapsto> a)))))"

fun forward_eqns ::
  "(prim \<Rightarrow> ('v, 't) fwd_rule option) \<Rightarrow> ('v, 't) eqn list \<Rightarrow> (('v, 't) var \<rightharpoonup> ('v, 't) atom) \<Rightarrow>
   (('v, 't) var \<rightharpoonup> ('v, 't) atom) res" where
  "forward_eqns rules [] fwds = Inr fwds"
| "forward_eqns rules (eqn # es) fwds =
     (case rules (primitive eqn) of
        None \<Rightarrow> forward_eqns rules es fwds
      | Some rule \<Rightarrow>
          let invs = map (subst_atom fwds) (eqn_invars eqn) in
          rbind (rule (with_eqn_invars invs eqn)) (\<lambda>fwd_idx.
          rbind (safe_zip (eqn_outvars eqn) fwd_idx) (\<lambda>ps.
          rbind (rfold (note_forward invs) ps fwds) (forward_eqns rules es))))"

text \<open>
  The last line looks the forwarded atom up in a dictionary keyed by variables. A \<^verbatim>\<open>Literal\<close>
  is not hashable, so an output that is forwarded from a literal raises.
\<close>

definition forwarded_index ::
  "('v, 't) jaxpr \<Rightarrow> (('v, 't) var \<rightharpoonup> ('v, 't) atom) \<Rightarrow> ('v, 't) atom \<Rightarrow> nat option res" where
  "forwarded_index jaxpr fwds a =
     (case a of
        ALit _ _ \<Rightarrow> Inr None
      | AVar v \<Rightarrow>
        (case fwds v of
           None \<Rightarrow> Inr None
         | Some (AVar u) \<Rightarrow> Inr (var_positions (invars jaxpr) u)
         | Some (ALit _ _) \<Rightarrow> Inl (TypeError ''unhashable type: Literal'')))"

definition jaxpr_forwarding ::
  "(prim \<Rightarrow> ('v, 't) fwd_rule option) \<Rightarrow> ('v, 't) jaxpr \<Rightarrow> nat option list res" where
  "jaxpr_forwarding rules jaxpr =
     rbind (forward_eqns rules (eqns jaxpr) (map_of (rev (map (\<lambda>v. (v, AVar v)) (invars jaxpr)))))
       (\<lambda>fwds. rmap (forwarded_index jaxpr fwds) (outvars jaxpr))"

text \<open>The contract of a forwarding rule: a forwarded result is the operand it names.\<close>

definition fwd_rule_sound ::
  "('v, 't, 's) bindfun \<Rightarrow> ('v, 't) fwd_rule \<Rightarrow> bool" where
  "fwd_rule_sound bind rule \<longleftrightarrow>
     (\<forall>eqn idxs args st ans st'. rule eqn = Inr idxs \<longrightarrow> length args = length (eqn_invars eqn) \<longrightarrow>
        bind (primitive eqn) (params eqn) args st = Inr (ans, st') \<longrightarrow>
        (\<forall>i k. i < length idxs \<longrightarrow> idxs ! i = Some k \<longrightarrow>
           i < length (ans_values ans) \<and> py_get args k = Inr (ans_values ans ! i)))"

text \<open>The invariant: a forwarded variable and the atom recorded for it have one value.\<close>

definition fwds_ok :: "('v, 't) env \<Rightarrow> (('v, 't) var \<rightharpoonup> ('v, 't) atom) \<Rightarrow> bool" where
  "fwds_ok env fwds \<longleftrightarrow> (\<forall>v a. fwds v = Some a \<longrightarrow> (\<exists>x. env v = Some x \<and> read_atom env a = Inr x))"

lemma read_subst_atom: "fwds_ok env fwds \<Longrightarrow> read_atom env a = Inr x \<Longrightarrow>
    read_atom env (subst_atom fwds a) = Inr x"
proof (cases a)
  case (AVar v)
  assume "fwds_ok env fwds" and "read_atom env a = Inr x"
  with AVar show ?thesis by (fastforce simp: fwds_ok_def split: option.splits)
qed simp

lemma read_atom_grows:
  "read_atom env a = Inr x \<Longrightarrow> (\<And>v. v \<in> dom env \<Longrightarrow> env' v = env v) \<Longrightarrow> read_atom env' a = Inr x"
  by (cases a) (auto simp: dom_def split: option.splits)

lemma fwds_ok_grows:
  assumes "fwds_ok env fwds" and "\<And>v. v \<in> dom env \<Longrightarrow> env' v = env v"
  shows "fwds_ok env' fwds"
  unfolding fwds_ok_def
proof (intro allI impI)
  fix v a
  assume "fwds v = Some a"
  with assms(1) obtain x where x: "env v = Some x" "read_atom env a = Inr x"
    by (auto simp: fwds_ok_def)
  with assms(2) [of v] read_atom_grows [OF x(2), of env'] assms(2)
  show "\<exists>x. env' v = Some x \<and> read_atom env' a = Inr x" by (auto simp: dom_def)
qed

lemma note_forwards_ok:
  assumes "rfold (note_forward invs) ps fwds = Inr fwds'" and "fwds_ok env fwds"
    and "\<And>v k a. (v, Some k) \<in> set ps \<Longrightarrow> py_get invs k = Inr a \<Longrightarrow>
           \<exists>x. env v = Some x \<and> read_atom env a = Inr x"
  shows "fwds_ok env fwds'"
  using assms
proof (induction ps arbitrary: fwds)
  case Nil
  then show ?case by simp
next
  case (Cons p ps)
  obtain v idx where p: "p = (v, idx)" by (cases p)
  from Cons.prems(1) p obtain f1 where f1: "note_forward invs (v, idx) fwds = Inr f1"
    "rfold (note_forward invs) ps f1 = Inr fwds'" by (auto simp: res_simps)
  have "fwds_ok env f1"
  proof (cases idx)
    case None
    with f1(1) Cons.prems(2) show ?thesis by (simp add: note_forward_def)
  next
    case (Some k)
    with f1(1) obtain a where a: "py_get invs k = Inr a" "f1 = fwds(v \<mapsto> a)"
      by (auto simp: note_forward_def res_simps)
    from Cons.prems(3) [of v k a] p Some a(1) obtain x where "env v = Some x" "read_atom env a = Inr x"
      by auto
    with Cons.prems(2) a(2) show ?thesis by (auto simp: fwds_ok_def)
  qed
  with Cons.IH [OF f1(2)] Cons.prems(3) show ?case by auto
qed

lemma py_get_map: "py_get (map f xs) k = rbind (py_get xs k) (\<lambda>x. Inr (f x))"
  by (simp add: py_get_def Let_def)

lemma py_get_list_all2:
  assumes "py_get xs k = Inr x" and "rmap f xs = Inr ys" shows "\<exists>y. py_get ys k = Inr y \<and> f x = Inr y"
  using assms by (auto simp: py_get_def Let_def rmap_Inr_iff split: if_splits)

lemma forward_eqns_ok:
  assumes "forward_eqns rules es fwds = Inr fwds'" and "fwds_ok env fwds"
    and "run_eqns bind chk es env st = Inr (env', st')"
    and "\<forall>p rule. rules p = Some rule \<longrightarrow> fwd_rule_sound bind rule"
    and "distinct (concat (map eqn_outvars es))" and "dom env \<inter> set (concat (map eqn_outvars es)) = {}"
  shows "fwds_ok env' fwds' \<and> (\<forall>v \<in> dom env. env' v = env v)"
  using assms
proof (induction es arbitrary: fwds env st)
  case Nil
  then show ?case by simp
next
  case (Cons eqn es)
  from Cons.prems(3) obtain e1 s1 where
    e1: "eval_eqn bind chk eqn env st = Inr (e1, s1)" "run_eqns bind chk es e1 s1 = Inr (env', st')"
    by (auto simp: res_simps)
  have same: "e1 v = env v" if "v \<in> dom env" for v
    using eval_eqn_frame [OF e1(1), of v] Cons.prems(6) that by auto
  have ok1: "fwds_ok e1 fwds" using fwds_ok_grows [OF Cons.prems(2)] same by blast
  have dom1: "dom e1 \<inter> set (concat (map eqn_outvars es)) = {}"
  proof -
    have "dom e1 \<subseteq> dom env \<union> set (eqn_outvars eqn)" using eval_eqn_grows [OF e1(1)] .
    moreover have "set (eqn_outvars eqn) \<inter> set (concat (map eqn_outvars es)) = {}"
      "dom env \<inter> set (concat (map eqn_outvars es)) = {}"
      using Cons.prems(5,6) by auto
    ultimately show ?thesis by blast
  qed
  have keep: "v \<in> dom e1" if "v \<in> dom env" for v using same [OF that] that by (auto simp: dom_def)
  have IH: "fwds_ok env' fwds' \<and> (\<forall>v \<in> dom e1. env' v = e1 v)"
    if "forward_eqns rules es f1 = Inr fwds'" "fwds_ok e1 f1" for f1
    using Cons.IH [OF that e1(2) Cons.prems(4)] Cons.prems(5) dom1 by simp
  show ?case
  proof (cases "rules (primitive eqn)")
    case None
    with Cons.prems(1) IH [OF _ ok1] same keep show ?thesis by auto
  next
    case (Some rule)
    let ?invs = "map (subst_atom fwds) (eqn_invars eqn)"
    from Cons.prems(1) Some obtain idxs f1 where
      r: "rule (with_eqn_invars ?invs eqn) = Inr idxs" "length (eqn_outvars eqn) = length idxs"
        "rfold (note_forward ?invs) (zip (eqn_outvars eqn) idxs) fwds = Inr f1"
        "forward_eqns rules es f1 = Inr fwds'"
      by (auto simp: res_simps Let_def safe_zip_def split: if_splits)
    from e1(1) obtain args ans where
      a: "rmap (read_atom env) (eqn_invars eqn) = Inr args"
        "bind (primitive eqn) (params eqn) args st = Inr (ans, s1)" "write_ans chk eqn ans env = Inr e1"
      by (auto simp: eval_eqn_def res_simps)
    have prm: "primitive (with_eqn_invars ?invs eqn) = primitive eqn"
      "params (with_eqn_invars ?invs eqn) = params eqn"
      "length (eqn_invars (with_eqn_invars ?invs eqn)) = length args"
      using rmap_length [OF a(1)] by (cases eqn; simp)+
    have "fwds_ok e1 f1"
    proof (rule note_forwards_ok [OF r(3) ok1])
      fix v k b
      assume "(v, Some k) \<in> set (zip (eqn_outvars eqn) idxs)" and b: "py_get ?invs k = Inr b"
      then obtain i where i: "i < length idxs" "idxs ! i = Some k" "v = eqn_outvars eqn ! i"
        using r(2) by (auto simp: set_zip)
      from Cons.prems(4) Some have "fwd_rule_sound bind rule" by blast
      with r(1) prm a(2) i have fw: "i < length (ans_values ans)" "py_get args k = Inr (ans_values ans ! i)"
        unfolding fwd_rule_sound_def by metis+
      have "e1 v = Some (ans_values ans ! i)"
        using write_ans_nth [OF a(3)] Cons.prems(5) i r(2) fw(1) by simp
      moreover from b obtain c where c: "py_get (eqn_invars eqn) k = Inr c" "b = subst_atom fwds c"
        by (auto simp: py_get_map res_simps)
      from py_get_list_all2 [OF c(1) a(1)] fw(2) have "read_atom env c = Inr (ans_values ans ! i)" by auto
      from read_atom_grows [OF read_subst_atom [OF Cons.prems(2) this] same] c(2)
      have "read_atom e1 b = Inr (ans_values ans ! i)" by simp
      ultimately show "\<exists>x. e1 v = Some x \<and> read_atom e1 b = Inr x" by blast
    qed
    from IH [OF r(4) this] same keep show ?thesis by auto
  qed
qed

lemma jaxpr_forwarding_sound_aux:
  assumes "jaxpr_forwarding rules jaxpr = Inr idxs" and "single_assignment jaxpr"
    and "\<forall>p rule. rules p = Some rule \<longrightarrow> fwd_rule_sound bind rule"
    and "eval_spec bind chk jaxpr cs args st = Inr (outs, st')"
    and "length cs = length (constvars jaxpr)" and "length args = length (invars jaxpr)"
    and "i < length idxs" and "idxs ! i = Some k"
  shows "k < length args \<and> outs ! i = args ! k"
proof -
  let ?f0 = "map_of (rev (map (\<lambda>v. (v, AVar v)) (invars jaxpr)))"
  from assms(1) obtain fwds where fw: "forward_eqns rules (eqns jaxpr) ?f0 = Inr fwds" and
    idxs: "rmap (forwarded_index jaxpr fwds) (outvars jaxpr) = Inr idxs"
    by (auto simp: jaxpr_forwarding_def res_simps)
  from assms(4) obtain env env' where
    env: "bind_inputs chk jaxpr cs args = Inr env" "run_eqns bind chk (eqns jaxpr) env st = Inr (env', st')"
      "rmap (read_atom env') (outvars jaxpr) = Inr outs"
    by (auto simp: eval_spec_def res_simps)
  let ?vs = "constvars jaxpr @ invars jaxpr"
  have e: "env = map_of (rev (zip ?vs (cs @ args)))"
    using env(1) assms(5,6) by (auto simp: bind_inputs_eq split: if_splits)
  have lv: "length ?vs = length (cs @ args)" using assms(5,6) by simp
  have d: "distinct (map fst (rev (zip ?vs (cs @ args))))"
  proof -
    have "distinct ?vs" using assms(2) by (auto simp: single_assignment_def binders_def)
    moreover have "map fst (zip ?vs (cs @ args)) = ?vs" using lv by (rule map_fst_zip)
    ultimately show ?thesis by (simp only: rev_map [symmetric] distinct_rev)
  qed
  have val: "env (invars jaxpr ! n) = Some (args ! n)" if "n < length args" for n
  proof -
    have "(invars jaxpr ! n, args ! n) \<in> set (zip ?vs (cs @ args))"
      using that assms(5,6) by (auto simp: set_zip zip_append intro!: exI [of _ n])
    with e d show ?thesis by simp
  qed
  have "dom env = fst ` set (zip ?vs (cs @ args))"
    unfolding e by (simp add: dom_map_of_conv_image_fst del: zip_append)
  also have "\<dots> = set (map fst (zip ?vs (cs @ args)))" by (simp only: list.set_map)
  also have "\<dots> = set ?vs" using lv by (simp only: map_fst_zip)
  finally have dm: "dom env = set ?vs" .
  have f0: "fwds_ok env ?f0"
    unfolding fwds_ok_def
  proof (intro allI impI)
    fix v a
    assume "?f0 v = Some a"
    then have "v \<in> set (invars jaxpr)" "a = AVar v" by (auto dest!: map_of_SomeD)
    moreover from this dm have "v \<in> dom env" by auto
    ultimately show "\<exists>x. env v = Some x \<and> read_atom env a = Inr x" by auto
  qed
  have "distinct (concat (map eqn_outvars (eqns jaxpr)))"
    and "dom env \<inter> set (concat (map eqn_outvars (eqns jaxpr))) = {}"
    using assms(2) unfolding dm single_assignment_def binders_def distinct_append by auto
  from forward_eqns_ok [OF fw f0 env(2) assms(3) this]
  have ok: "fwds_ok env' fwds" "\<forall>v \<in> set ?vs. env' v = env v" by (auto simp only: dm)
  from idxs assms(7) have i: "i < length (outvars jaxpr)"
    "forwarded_index jaxpr fwds (outvars jaxpr ! i) = Inr (idxs ! i)"
    by (auto simp: rmap_Inr_iff)
  with assms(8) obtain v u where v: "outvars jaxpr ! i = AVar v" "fwds v = Some (AVar u)"
      "var_positions (invars jaxpr) u = Some k" "i < length (outvars jaxpr)"
    by (auto simp: forwarded_index_def split: atom.splits option.splits)
  from var_positions_Some [OF v(3)] have k: "k < length (invars jaxpr)" "invars jaxpr ! k = u" by auto
  from ok(1) v(2) obtain x where x0: "env' v = Some x" "read_atom env' (AVar u) = Inr x"
    unfolding fwds_ok_def by blast
  from x0(2) have "env' u = Some x" by (simp split: option.splits)
  with x0(1) have x: "env' v = Some x" "env' u = Some x" by simp_all
  have "outs ! i = x" using env(3) v(1,4) x(1) by (auto simp: rmap_Inr_iff)
  moreover have "x = args ! k" using x(2) ok(2) val [of k] k assms(6) by auto
  ultimately show ?thesis using k assms(6) by simp
qed

end
