(* ===== verification/JaxprDceCorrect.thy ===== *)
theory JaxprDceCorrect
  imports JaxprDce
begin

text \<open>
  Dead code elimination preserves what a jaxpr computes. \<open>rule_ok\<close> states what the pass
  relies on at one equation; the locale \<open>dce_contract\<close> assumes it of a rule and proves the
  backward pass correct; every rule of the source is shown to meet it. The nested case
  (call primitives, whose jaxprs are themselves eliminated) is by induction on the size.
\<close>

subsection \<open>The contract of a rule\<close>

definition rule_ok ::
  "('v, 't, 's) bindfun \<Rightarrow> ('t \<Rightarrow> 'v \<Rightarrow> bool) \<Rightarrow> ('v, 't) eqn \<Rightarrow> ('v, 't) var set \<Rightarrow> bool list \<Rightarrow>
   ('v, 't) eqn option \<Rightarrow> bool" where
  "rule_ok bind chk eqn L ins new \<longleftrightarrow>
     (\<forall>e f st e1 st1.
        agree (L \<union> set (atom_vars (keep ins (eqn_invars eqn)))) e f \<longrightarrow>
        eval_eqn bind chk eqn e st = Inr (e1, st1) \<longrightarrow>
        (case new of
           None \<Rightarrow> st1 = st \<and> agree L e1 f
         | Some eqn' \<Rightarrow> \<exists>f1. eval_eqn bind chk eqn' f st = Inr (f1, st1) \<and> agree L e1 f1))"

definition reads_ok :: "('v, 't) atom list \<Rightarrow> bool" where
  "reads_ok xs \<longleftrightarrow> (\<forall>v \<in> set (atom_vars xs). \<not> is_dropvar v)"

lemma reads_ok_simps [simp]:
  "reads_ok []" "reads_ok (AVar v # xs) \<longleftrightarrow> \<not> is_dropvar v \<and> reads_ok xs"
  "reads_ok (ALit y t # xs) \<longleftrightarrow> reads_ok xs"
  by (auto simp: reads_ok_def)

text \<open>Marking atoms live adds the variables among the marked ones.\<close>

lemma dce_write_live:
  "foreach2 dce_write xs bs live = Inr live' \<Longrightarrow> reads_ok xs \<Longrightarrow>
   {v. live' v} = {v. live v} \<union> set (atom_vars (keep bs xs)) \<and> length xs = length bs"
proof (induction xs bs arbitrary: live rule: list_induct2')
  case (4 x xs b bs)
  show ?case
  proof (cases x)
    case (AVar v)
    with "4.prems" have "\<not> is_dropvar v"
      and "foreach2 dce_write xs bs (live(v := live v \<or> b)) = Inr live'" by auto
    from "4.IH" [OF this(2)] "4.prems"(2) AVar show ?thesis by auto
  next
    case (ALit y t)
    with "4.prems" have "foreach2 dce_write xs bs live = Inr live'" by simp
    from "4.IH" [OF this] "4.prems"(2) ALit show ?thesis by auto
  qed
qed simp_all

locale dce_contract =
  fixes bind :: "('v, 't, 's) bindfun"
    and chk :: "'t \<Rightarrow> 'v \<Rightarrow> bool"
    and rule :: "('v, 't) dce_rule"
    and wf :: "('v, 't) eqn \<Rightarrow> bool"
  assumes rule_ok: "wf eqn \<Longrightarrow> rule (map live (eqn_outvars eqn)) eqn = Inr (ins, new) \<Longrightarrow>
      rule_ok bind chk eqn {v. live v} ins new"
begin

lemma eqns_sound:
  assumes "\<forall>eqn \<in> set es. wf eqn \<and> reads_ok (eqn_invars eqn)"
    and "dce_eqns rule es live = Inr (es', live')"
    and "agree {v. live' v} e f" and "run_eqns bind chk es e st = Inr (e1, st1)"
  shows "\<exists>f1. run_eqns bind chk es' f st = Inr (f1, st1) \<and> agree {v. live v} e1 f1"
  using assms
proof (induction es arbitrary: es' live' e f st)
  case Nil
  then show ?case by auto
next
  case (Cons eqn es)
  from Cons.prems(2) obtain new l1 ins ne where
    r: "dce_eqns rule es live = Inr (new, l1)"
      "rule (map l1 (eqn_outvars eqn)) eqn = Inr (ins, ne)"
      "foreach2 dce_write (eqn_invars eqn) ins l1 = Inr live'"
      "es' = (case ne of None \<Rightarrow> new | Some e \<Rightarrow> e # new)"
    by (auto simp: res_simps)
  from Cons.prems(4) obtain e0 st0 where
    e0: "eval_eqn bind chk eqn e st = Inr (e0, st0)" "run_eqns bind chk es e0 st0 = Inr (e1, st1)"
    by (auto simp: res_simps)
  have live': "{v. live' v} = {v. l1 v} \<union> set (atom_vars (keep ins (eqn_invars eqn)))"
    using dce_write_live [OF r(3)] Cons.prems(1) by simp
  have ok: "rule_ok bind chk eqn {v. l1 v} ins ne"
    by (rule rule_ok) (use Cons.prems(1) r(2) in simp_all)
  note step = ok [unfolded rule_ok_def, rule_format, OF Cons.prems(3) [unfolded live'] e0(1)]
  show ?case
  proof (cases ne)
    case None
    with step have "st0 = st" "agree {v. l1 v} e0 f" by simp_all
    with Cons.IH [OF _ r(1) _ e0(2)] Cons.prems(1) r(4) None show ?thesis by simp
  next
    case (Some eqn')
    with step obtain f0 where "eval_eqn bind chk eqn' f st = Inr (f0, st0)" "agree {v. l1 v} e0 f0"
      by auto
    with Cons.IH [OF _ r(1) _ e0(2)] Cons.prems(1) r(4) Some show ?thesis by simp
  qed
qed

end

subsection \<open>The rules of the source meet it\<close>

text \<open>
  \<open>quiet bind eqn\<close>: an equation whose effects may all be eliminated leaves the state as it
  is. It is the promise behind registering an effect class in \<^verbatim>\<open>dceable_effects\<close>.
\<close>

definition quiet :: "('v, 't, 's) bindfun \<Rightarrow> ('v, 't) eqn \<Rightarrow> bool" where
  "quiet bind eqn \<longleftrightarrow>
     (\<not> has_effects eqn \<longrightarrow>
        (\<forall>args st ans st'. bind (primitive eqn) (params eqn) args st = Inr (ans, st') \<longrightarrow> st' = st))"

lemma quiet_eval:
  "quiet bind eqn \<Longrightarrow> \<not> has_effects eqn \<Longrightarrow> eval_eqn bind chk eqn e st = Inr (e1, st1) \<Longrightarrow> st1 = st"
  by (auto simp: quiet_def eval_eqn_def res_simps)

lemma rule_ok_drop:
  assumes "quiet bind eqn" and "\<not> has_effects eqn" and "\<not> list_ex id (map live (eqn_outvars eqn))"
  shows "rule_ok bind chk eqn {v. live v} ins None"
proof -
  have L: "v \<notin> set (eqn_outvars eqn)" if "live v" for v
    using assms(3) that by (auto simp: list_ex_iff)
  show ?thesis
    unfolding rule_ok_def
  proof (intro allI impI)
    fix e f st e1 st1
    assume ag: "agree ({v. live v} \<union> set (atom_vars (keep ins (eqn_invars eqn)))) e f"
      and ev: "eval_eqn bind chk eqn e st = Inr (e1, st1)"
    from ev L have "\<forall>v. live v \<longrightarrow> e1 v = e v" by (blast intro: eval_eqn_frame)
    with ag quiet_eval [OF assms(1,2) ev]
    show "case None of None \<Rightarrow> st1 = st \<and> agree {v. live v} e1 f
      | Some eqn' \<Rightarrow> \<exists>f1. eval_eqn bind chk eqn' f st = Inr (f1, st1) \<and> agree {v. live v} e1 f1"
      by (simp add: agree_def)
  qed
qed

lemma rule_ok_keep:
  "rule_ok bind chk eqn {v. live v} (replicate (length (eqn_invars eqn)) True) (Some eqn)"
  unfolding rule_ok_def
proof (intro allI impI)
  fix e f st e1 st1
  assume "agree ({v. live v} \<union>
      set (atom_vars (keep (replicate (length (eqn_invars eqn)) True) (eqn_invars eqn)))) e f"
    and ev: "eval_eqn bind chk eqn e st = Inr (e1, st1)"
  then have "agree (set (atom_vars (eqn_invars eqn)) \<union> {v. live v}) e f"
    by (simp add: keep_replicate_True Un_commute)
  from eval_eqn_sim [OF this, of bind chk st] ev
  show "case Some eqn of None \<Rightarrow> st1 = st \<and> agree {v. live v} e1 f
      | Some eqn' \<Rightarrow> \<exists>f1. eval_eqn bind chk eqn' f st = Inr (f1, st1) \<and> agree {v. live v} e1 f1"
    by (auto intro: agree_mono)
qed

interpretation default_dce: dce_contract bind chk default_dce_rule "quiet bind"
  for bind :: "('v, 't, 's) bindfun" and chk
  by unfold_locales
     (auto simp: default_dce_rule_def rule_ok_keep rule_ok_drop split: if_splits)

interpretation free_ref_dce: dce_contract bind chk free_ref_dce_rule "\<lambda>_. True"
  for bind :: "('v, 't, 's) bindfun" and chk
  by unfold_locales (auto simp: free_ref_dce_rule_def rule_ok_keep)

text \<open>
  A call primitive: the equation runs its jaxpr on the arguments; the new equation runs the
  eliminated jaxpr on the arguments that are used and binds the results that are used.
\<close>

lemma keep_writes:
  assumes "foreach2 (write_var chk) vs xs e = Inr e1" and "agree {v. live v} e f"
  shows "\<exists>f1. foreach2 (write_var chk) (keep (map live vs) vs) (keep (map live vs) xs) f = Inr f1 \<and>
     agree {v. live v} e1 f1"
  using assms
proof (induction vs xs arbitrary: e f rule: list_induct2')
  case (4 v vs x xs)
  from "4.prems"(1) have c: "chk (vaval v) x" "foreach2 (write_var chk) vs xs (e(v \<mapsto> x)) = Inr e1"
    by (auto simp: res_simps)
  show ?case
  proof (cases "live v")
    case True
    have "agree {v. live v} (e(v \<mapsto> x)) (f(v \<mapsto> x))" using "4.prems"(2) by (simp add: agree_def)
    with c(2) have "\<exists>f1. foreach2 (write_var chk) (keep (map live vs) vs) (keep (map live vs) xs) (f(v \<mapsto> x))
        = Inr f1 \<and> agree {v. live v} e1 f1" by (rule "4.IH")
    with True c(1) show ?thesis by (simp add: write_var_ok)
  next
    case False
    have "agree {v. live v} (e(v \<mapsto> x)) f" using "4.prems"(2) False by (auto simp: agree_def)
    with c(2) have "\<exists>f1. foreach2 (write_var chk) (keep (map live vs) vs) (keep (map live vs) xs) f
        = Inr f1 \<and> agree {v. live v} e1 f1" by (rule "4.IH")
    with False c(1) show ?thesis by simp
  qed
qed simp_all

lemma keep_reads:
  assumes "rmap (read_atom e) xs = Inr args" and "agree (set (atom_vars (keep ins xs))) e f"
  shows "rmap (read_atom f) (keep ins xs) = Inr (keep ins args)"
  using rmap_keep [OF assms(1)] read_atoms_agree [OF assms(2)] by simp

definition preserves ::
  "('v, 't, 's) bindfun \<Rightarrow> ('t \<Rightarrow> 'v \<Rightarrow> bool) \<Rightarrow> ('v, 't) dce_rec \<Rightarrow> ('v, 't) jaxpr \<Rightarrow> bool" where
  "preserves bind chk rec j \<longleftrightarrow>
     (\<forall>used inst new ins cs args st outs st'.
        rec j used inst = Inr (new, ins) \<longrightarrow> eval_jaxpr bind chk j cs args st = Inr (outs, st') \<longrightarrow>
        eval_jaxpr bind chk new cs (keep ins args) st =
          Inr (keep (flag_list used (length (outvars j))) outs, st'))"

text \<open>An empty effect annotation is truthful: running the jaxpr leaves the state as it is.\<close>

definition quiet_jaxpr :: "('v, 't, 's) bindfun \<Rightarrow> ('t \<Rightarrow> 'v \<Rightarrow> bool) \<Rightarrow> ('v, 't) jaxpr \<Rightarrow> bool" where
  "quiet_jaxpr bind chk j \<longleftrightarrow>
     (jaxpr_effects j = {} \<longrightarrow>
       (\<forall>cs args st outs st'. eval_jaxpr bind chk j cs args st = Inr (outs, st') \<longrightarrow> st' = st))"

lemma call_eqn_new:
  assumes "multiple_results (primitive eqn)" and "length ins = length (eqn_invars eqn)"
    and "\<And>args st outs st1. bind (primitive eqn) (params eqn) args st = Inr (outs, st1) \<Longrightarrow>
       \<exists>xs. outs = Multiple xs \<and>
        bind (primitive eqn) ps' (keep ins args) st = Inr (Multiple (keep (map live (eqn_outvars eqn)) xs), st1)"
  shows "rule_ok bind chk eqn {v. live v} ins
     (Some (JaxprEqn (keep ins (eqn_invars eqn)) (keep (map live (eqn_outvars eqn)) (eqn_outvars eqn))
              (primitive eqn) ps' effs))"
  unfolding rule_ok_def option.case
proof (intro allI impI)
  fix e f st e1 st1
  assume ag: "agree ({v. live v} \<union> set (atom_vars (keep ins (eqn_invars eqn)))) e f"
    and ev: "eval_eqn bind chk eqn e st = Inr (e1, st1)"
  from ev obtain args ans where a: "rmap (read_atom e) (eqn_invars eqn) = Inr args"
    "bind (primitive eqn) (params eqn) args st = Inr (ans, st1)" "write_ans chk eqn ans e = Inr e1"
    by (auto simp: eval_eqn_def res_simps)
  from assms(3) [OF a(2)] obtain xs where xs: "ans = Multiple xs"
    "bind (primitive eqn) ps' (keep ins args) st = Inr (Multiple (keep (map live (eqn_outvars eqn)) xs), st1)"
    by blast
  have rd: "rmap (read_atom f) (keep ins (eqn_invars eqn)) = Inr (keep ins args)"
    by (rule keep_reads [OF a(1)]) (rule agree_mono [OF ag], simp)
  have "foreach2 (write_var chk) (eqn_outvars eqn) xs e = Inr e1"
    using a(3) xs(1) assms(1) by (simp add: write_ans_def)
  from keep_writes [OF this agree_mono [OF ag, of "{v. live v}"]] obtain f1 where
    "foreach2 (write_var chk) (keep (map live (eqn_outvars eqn)) (eqn_outvars eqn))
       (keep (map live (eqn_outvars eqn)) xs) f = Inr f1" "agree {v. live v} e1 f1"
    by auto
  with rd xs(2) assms(1) show
    "\<exists>f1. eval_eqn bind chk (JaxprEqn (keep ins (eqn_invars eqn))
         (keep (map live (eqn_outvars eqn)) (eqn_outvars eqn)) (primitive eqn) ps' effs) f st
         = Inr (f1, st1) \<and> agree {v. live v} e1 f1"
    by (auto simp: eval_eqn_def write_ans_def)
qed

lemma call_bind_open:
  assumes "call_primitive p" and "map_of ps ''call_jaxpr'' = Some (PJaxpr j)"
  shows "call_bind base chk p ps args st =
     rbind (eval_jaxpr (call_bind base chk) chk j [] args st) (\<lambda>(outs, st'). Inr (Multiple outs, st'))"
  using assms by (subst call_bind.simps) simp

lemma call_bind_closed:
  assumes "call_primitive p" and "map_of ps ''call_jaxpr'' = Some (PClosed j cs)"
  shows "call_bind base chk p ps args st =
     rbind (eval_jaxpr (call_bind base chk) chk j cs args st) (\<lambda>(outs, st'). Inr (Multiple outs, st'))"
  using assms by (subst call_bind.simps) simp

lemma call_rule_ok:
  fixes base :: "('v, 't, 's) bindfun" and chk :: "'t \<Rightarrow> 'v \<Rightarrow> bool"
  defines "bind \<equiv> call_bind base chk"
  assumes "dce_jaxpr_call_rule rec (map live (eqn_outvars eqn)) eqn = Inr (ins, new)"
    and "call_primitive (primitive eqn)" "multiple_results (primitive eqn)" and "quiet bind eqn"
    and "\<And>j. map_of (params eqn) ''call_jaxpr'' = Some (PJaxpr j) \<Longrightarrow> preserves bind chk rec j"
    and "\<And>j used new ins. map_of (params eqn) ''call_jaxpr'' = Some (PJaxpr j) \<Longrightarrow>
       rec j (FlagSeq used) (FlagAll False) = Inr (new, ins) \<Longrightarrow> quiet_jaxpr bind chk new"
  shows "rule_ok bind chk eqn {v. live v} ins new"
proof (cases "\<not> list_ex id (map live (eqn_outvars eqn)) \<and> \<not> has_effects eqn")
  case True
  with assms(2,5) show ?thesis by (auto simp: dce_jaxpr_call_rule_def rule_ok_drop)
next
  case False
  let ?used = "map live (eqn_outvars eqn)"
  from False assms(2) obtain j nj where
    j: "map_of (params eqn) ''call_jaxpr'' = Some (PJaxpr j)"
    and nj: "rec j (FlagSeq ?used) (FlagAll False) = Inr (nj, ins)"
    by (auto simp: dce_jaxpr_call_rule_def res_simps split: if_splits option.splits param.splits prod.splits)
  have old: "bind (primitive eqn) (params eqn) args st =
      rbind (eval_jaxpr bind chk j [] args st) (\<lambda>(outs, st'). Inr (Multiple outs, st'))" for args st
    unfolding bind_def by (rule call_bind_open [OF assms(3) j])
  have pres: "eval_jaxpr bind chk nj cs (keep ins args) st = Inr (keep ?used outs, st')"
    if "eval_jaxpr bind chk j cs args st = Inr (outs, st')" for cs args st outs st'
    using assms(6) [OF j] nj that unfolding preserves_def by (metis flag_list.simps(2))
  show ?thesis
  proof (cases "\<not> list_ex id ins \<and> \<not> list_ex id ?used \<and> jaxpr_effects nj = {}")
    case True
    with False j nj assms(2) have "new = None" by (simp add: dce_jaxpr_call_rule_def)
    moreover have "st1 = st \<and> agree {v. live v} e1 f"
      if "agree ({v. live v} \<union> set (atom_vars (keep ins (eqn_invars eqn)))) e f"
        "eval_eqn bind chk eqn e st = Inr (e1, st1)" for e f st e1 st1
    proof
      from that(2) obtain args outs where "eval_jaxpr bind chk j [] args st = Inr (outs, st1)"
        by (auto simp: eval_eqn_def old res_simps)
      from pres [OF this] True assms(7) [OF j nj] show "st1 = st"
        unfolding quiet_jaxpr_def by blast
      have "v \<notin> set (eqn_outvars eqn)" if "live v" for v
        using True that by (auto simp: list_ex_iff)
      with that show "agree {v. live v} e1 f" by (auto simp: agree_def eval_eqn_frame)
    qed
    ultimately show ?thesis unfolding rule_ok_def by simp
  next
    case keep: False
    from keep False j nj assms(2) have ne: "length ins = length (eqn_invars eqn)"
      "new = Some (JaxprEqn (keep ins (eqn_invars eqn)) (keep ?used (eqn_outvars eqn)) (primitive eqn)
         (dict_set (params eqn) ''call_jaxpr'' (PJaxpr nj)) (jaxpr_effects nj))"
      by (auto simp: dce_jaxpr_call_rule_def res_simps safe_zip_def filter_zip_keep split: if_splits)
    have new_bind: "bind (primitive eqn) (dict_set (params eqn) ''call_jaxpr'' (PJaxpr nj)) args st =
      rbind (eval_jaxpr bind chk nj [] args st) (\<lambda>(outs, st'). Inr (Multiple outs, st'))" for args st
      unfolding bind_def by (rule call_bind_open [OF assms(3)]) simp
    show ?thesis
      unfolding ne(2)
      by (rule call_eqn_new [OF assms(4) ne(1)]) (auto simp: old new_bind res_simps pres)
  qed
qed

lemma closed_call_rule_ok:
  fixes base :: "('v, 't, 's) bindfun" and chk :: "'t \<Rightarrow> 'v \<Rightarrow> bool"
  defines "bind \<equiv> call_bind base chk"
  assumes "dce_jaxpr_closed_call_rule rec (map live (eqn_outvars eqn)) eqn = Inr (ins, new)"
    and "call_primitive (primitive eqn)" "multiple_results (primitive eqn)" and "quiet bind eqn"
    and "\<And>j cs. map_of (params eqn) ''call_jaxpr'' = Some (PClosed j cs) \<Longrightarrow> preserves bind chk rec j"
  shows "rule_ok bind chk eqn {v. live v} ins new"
proof (cases "\<not> list_ex id (map live (eqn_outvars eqn)) \<and> \<not> has_effects eqn")
  case True
  with assms(2,5) show ?thesis by (auto simp: dce_jaxpr_closed_call_rule_def rule_ok_drop)
next
  case False
  let ?used = "map live (eqn_outvars eqn)"
  from False assms(2) obtain j cs nj where
    j: "map_of (params eqn) ''call_jaxpr'' = Some (PClosed j cs)"
    and nj: "rec j (FlagSeq ?used) (FlagAll False) = Inr (nj, ins)"
    and ne: "length ins = length (eqn_invars eqn)"
      "new = Some (JaxprEqn (keep ins (eqn_invars eqn)) (keep ?used (eqn_outvars eqn)) (primitive eqn)
         (dict_set (params eqn) ''call_jaxpr'' (PClosed nj cs)) (jaxpr_eqn_effects nj))"
    by (auto simp: dce_jaxpr_closed_call_rule_def closed_call_dce_def mk_closed_jaxpr_def res_simps
        safe_zip_def filter_zip_keep split: if_splits option.splits param.splits prod.splits)
  have old: "bind (primitive eqn) (params eqn) args st =
      rbind (eval_jaxpr bind chk j cs args st) (\<lambda>(outs, st'). Inr (Multiple outs, st'))" for args st
    unfolding bind_def by (rule call_bind_closed [OF assms(3) j])
  have pres: "eval_jaxpr bind chk nj cs (keep ins args) st = Inr (keep ?used outs, st')"
    if "eval_jaxpr bind chk j cs args st = Inr (outs, st')" for cs args st outs st'
    using assms(6) [OF j] nj that unfolding preserves_def by (metis flag_list.simps(2))
  have new_bind: "bind (primitive eqn) (dict_set (params eqn) ''call_jaxpr'' (PClosed nj cs)) args st =
      rbind (eval_jaxpr bind chk nj cs args st) (\<lambda>(outs, st'). Inr (Multiple outs, st'))" for args st
    unfolding bind_def by (rule call_bind_closed [OF assms(3)]) simp
  show ?thesis
    unfolding ne(2)
    by (rule call_eqn_new [OF assms(4) ne(1)]) (auto simp: old new_bind res_simps pres)
qed

subsection \<open>The pass\<close>

text \<open>What elimination needs of an equation, of the jaxprs in its parameters and of the rule
  another module registered for its primitive.\<close>

definition dce_wf ::
  "('v, 't, 's) bindfun \<Rightarrow> ('t \<Rightarrow> 'v \<Rightarrow> bool) \<Rightarrow> (prim \<Rightarrow> ('v, 't) dce_rule option) \<Rightarrow> ('v, 't) eqn \<Rightarrow> bool" where
  "dce_wf base chk extra eqn \<longleftrightarrow>
     reads_ok (eqn_invars eqn) \<and> quiet (call_bind base chk) eqn \<and>
     (\<forall>j \<in> set (jaxprs_in_params (params eqn)). reads_ok (outvars j)) \<and>
     (pname (primitive eqn) \<in> {''call'', ''closed_call''} \<longrightarrow>
        call_primitive (primitive eqn) \<and> multiple_results (primitive eqn)) \<and>
     (pname (primitive eqn) = ''call'' \<longrightarrow>
        (\<forall>j used new ins. map_of (params eqn) ''call_jaxpr'' = Some (PJaxpr j) \<longrightarrow>
           dce_jaxpr extra j (FlagSeq used) (FlagAll False) = Inr (new, ins) \<longrightarrow>
           quiet_jaxpr (call_bind base chk) chk new)) \<and>
     (\<forall>rule live ins new. extra (primitive eqn) = Some rule \<longrightarrow>
        rule (map live (eqn_outvars eqn)) eqn = Inr (ins, new) \<longrightarrow>
        rule_ok (call_bind base chk) chk eqn {v. live v} ins new)"

lemma dce_rule_of_ok:
  assumes "dce_wf base chk extra eqn"
    and "\<forall>j \<in> set (jaxprs_in_params (params eqn)). preserves (call_bind base chk) chk (dce_jaxpr extra) j"
    and "dce_rule_of extra (dce_jaxpr extra) (map live (eqn_outvars eqn)) eqn = Inr (ins, new)"
  shows "rule_ok (call_bind base chk) chk eqn {v. live v} ins new"
proof -
  have pr: "preserves (call_bind base chk) chk (dce_jaxpr extra) j"
    if "map_of (params eqn) ''call_jaxpr'' = Some p" "param_call_jaxpr p = Some j" for p j
    using assms(2) map_of_call_jaxpr [OF that] by blast
  consider "pname (primitive eqn) = ''free_ref''" | "pname (primitive eqn) = ''call''"
    | "pname (primitive eqn) = ''closed_call''"
    | "pname (primitive eqn) \<notin> {''free_ref'', ''call'', ''closed_call''}" by blast
  then show ?thesis
  proof cases
    case 1
    with assms(3) show ?thesis
      by (intro free_ref_dce.rule_ok [OF TrueI]) (simp add: dce_rule_of_def)
  next
    case 2
    with assms(3) have r: "dce_jaxpr_call_rule (dce_jaxpr extra) (map live (eqn_outvars eqn)) eqn = Inr (ins, new)"
      by (simp add: dce_rule_of_def)
    have q: "quiet_jaxpr (call_bind base chk) chk new"
      if "map_of (params eqn) ''call_jaxpr'' = Some (PJaxpr j)"
        "dce_jaxpr extra j (FlagSeq used) (FlagAll False) = Inr (new, ins)" for j used new ins
      using assms(1) 2 that unfolding dce_wf_def by blast
    have w: "call_primitive (primitive eqn)" "multiple_results (primitive eqn)"
      "quiet (call_bind base chk) eqn" using assms(1) 2 by (simp_all add: dce_wf_def)
    show ?thesis
      by (rule call_rule_ok [OF r w]) (use pr q in auto)
  next
    case 3
    with assms(3) have r: "dce_jaxpr_closed_call_rule (dce_jaxpr extra) (map live (eqn_outvars eqn)) eqn = Inr (ins, new)"
      by (simp add: dce_rule_of_def)
    have w: "call_primitive (primitive eqn)" "multiple_results (primitive eqn)"
      "quiet (call_bind base chk) eqn" using assms(1) 3 by (simp_all add: dce_wf_def)
    show ?thesis
      by (rule closed_call_rule_ok [OF r w]) (use pr in auto)
  next
    case 4
    show ?thesis
    proof (cases "extra (primitive eqn)")
      case None
      with 4 assms(3) have "default_dce_rule (map live (eqn_outvars eqn)) eqn = Inr (ins, new)"
        by (simp add: dce_rule_of_def)
      moreover have "quiet (call_bind base chk) eqn" using assms(1) by (simp add: dce_wf_def)
      ultimately show ?thesis by (rule default_dce.rule_ok [rotated])
    next
      case (Some rule)
      with 4 assms(3) have "rule (map live (eqn_outvars eqn)) eqn = Inr (ins, new)"
        by (simp add: dce_rule_of_def)
      with Some assms(1) show ?thesis unfolding dce_wf_def by blast
    qed
  qed
qed

interpretation dce_pass: dce_contract "call_bind base chk" chk "dce_rule_of extra (dce_jaxpr extra)"
    "\<lambda>eqn. dce_wf base chk extra eqn \<and>
       (\<forall>j \<in> set (jaxprs_in_params (params eqn)). preserves (call_bind base chk) chk (dce_jaxpr extra) j)"
  for base :: "('v, 't, 's) bindfun" and chk extra
  by unfold_locales (auto intro: dce_rule_of_ok)

text \<open>The inputs that are kept, bound to their values, agree with all of them on the live variables.\<close>

lemma bind_kept_inputs:
  assumes "foreach2 (write_var chk) vs xs e = Inr e1" and "agree L e f"
    and "length bs = length vs" and "\<forall>i < length vs. vs ! i \<in> L \<longrightarrow> bs ! i"
  shows "\<exists>f1. foreach2 (write_var chk) (keep bs vs) (keep bs xs) f = Inr f1 \<and> agree L e1 f1"
  using assms
proof (induction vs xs arbitrary: e f bs rule: list_induct2')
  case (4 v vs x xs)
  from "4.prems"(1) have c: "chk (vaval v) x" "foreach2 (write_var chk) vs xs (e(v \<mapsto> x)) = Inr e1"
    by (auto simp: res_simps)
  from "4.prems"(3) obtain b bs' where bs: "bs = b # bs'" "length bs' = length vs" by (cases bs) auto
  have "\<forall>i < length vs. vs ! i \<in> L \<longrightarrow> bs' ! i" using "4.prems"(4) bs by (auto dest: spec [of _ "Suc _"])
  note IH = "4.IH" [OF c(2) _ bs(2) this]
  show ?case
  proof (cases b)
    case True
    have "agree L (e(v \<mapsto> x)) (f(v \<mapsto> x))" using "4.prems"(2) by (simp add: agree_def)
    then have "\<exists>f1. foreach2 (write_var chk) (keep bs' vs) (keep bs' xs) (f(v \<mapsto> x)) = Inr f1 \<and> agree L e1 f1"
      by (rule IH)
    with True bs c(1) show ?thesis by (simp add: write_var_ok)
  next
    case False
    then have "v \<notin> L" using "4.prems"(4) bs by (auto dest: spec [of _ 0])
    with "4.prems"(2) have "agree L (e(v \<mapsto> x)) f" by (auto simp: agree_def)
    then have "\<exists>f1. foreach2 (write_var chk) (keep bs' vs) (keep bs' xs) f = Inr f1 \<and> agree L e1 f1"
      by (rule IH)
    with False bs show ?thesis by simp
  qed
qed simp_all

lemma dce_body_preserves:
  assumes "dce_jaxpr_body extra (dce_jaxpr extra) jaxpr used inst = Inr (new, ins)"
    and "\<forall>eqn \<in> set (eqns jaxpr). dce_wf base chk extra eqn"
    and "\<forall>j \<in> set (subjaxprs jaxpr). preserves (call_bind base chk) chk (dce_jaxpr extra) j"
    and "reads_ok (outvars jaxpr)"
    and "eval_spec (call_bind base chk) chk jaxpr cs args st = Inr (outs, st')"
  shows "eval_spec (call_bind base chk) chk new cs (keep ins args) st = Inr (keep used outs, st')"
proof -
  let ?bind = "call_bind base chk"
  from assms(1) obtain live0 es' live effs where
    d: "foreach2 dce_write (outvars jaxpr) used (\<lambda>_. False) = Inr live0"
      "dce_eqns (dce_rule_of extra (dce_jaxpr extra)) (eqns jaxpr) live0 = Inr (es', live)"
      "safe_map2 (\<lambda>a b. Inr (a \<or> b)) inst (map live (invars jaxpr)) = Inr ins"
      "new = Jaxpr (constvars jaxpr) (keep ins (invars jaxpr)) (keep used (outvars jaxpr)) es' effs"
    by (auto simp: dce_jaxpr_body_def res_simps Let_def)
  from d(3) have ins: "length ins = length (invars jaxpr)" "\<forall>i < length (invars jaxpr). live (invars jaxpr ! i) \<longrightarrow> ins ! i"
    using safe_map2_pure [of inst "map live (invars jaxpr)" "(\<or>)"] safe_map2_length [OF d(3)] by auto
  from assms(5) obtain env env1 where r:
    "bind_inputs chk jaxpr cs args = Inr env" "run_eqns ?bind chk (eqns jaxpr) env st = Inr (env1, st')"
    "rmap (read_atom env1) (outvars jaxpr) = Inr outs"
    by (auto simp: eval_spec_Inr)
  from r(1) obtain e0 where e0: "foreach2 (write_var chk) (constvars jaxpr) cs Map.empty = Inr e0"
      "foreach2 (write_var chk) (invars jaxpr) args e0 = Inr env"
    by (auto simp: bind_inputs_def res_simps)
  obtain f where f: "foreach2 (write_var chk) (keep ins (invars jaxpr)) (keep ins args) e0 = Inr f"
      "agree {v. live v} env f"
    using bind_kept_inputs [OF e0(2) agree_refl ins(1), of "{v. live v}"] ins(2) by auto
  have "\<forall>eqn \<in> set (eqns jaxpr). (dce_wf base chk extra eqn \<and>
       (\<forall>j \<in> set (jaxprs_in_params (params eqn)). preserves ?bind chk (dce_jaxpr extra) j)) \<and> reads_ok (eqn_invars eqn)"
    using assms(2,3) subjaxprsI by (fastforce simp: dce_wf_def)
  from dce_pass.eqns_sound [OF this d(2) f(2) r(2)] obtain f1 where
    f1: "run_eqns ?bind chk es' f st = Inr (f1, st')" "agree {v. live0 v} env1 f1" by blast
  have "{v. live0 v} = set (atom_vars (keep used (outvars jaxpr)))"
    using dce_write_live [OF d(1) assms(4)] by simp
  with f1(2) have "rmap (read_atom f1) (keep used (outvars jaxpr)) = Inr (keep used outs)"
    by (intro keep_reads [OF r(3)]) simp
  with e0(1) f(1) f1(1) d(4) show ?thesis by (simp add: eval_spec_Inr bind_inputs_def)
qed

lemma dce_jaxpr_preserves:
  assumes "\<And>eqn. deep_eqn jaxpr eqn \<Longrightarrow> dce_wf base chk extra eqn" and "reads_ok (outvars jaxpr)"
  shows "preserves (call_bind base chk) chk (dce_jaxpr extra) jaxpr"
  using assms
proof (induction jaxpr rule: measure_induct_rule [of size])
  case (less jaxpr)
  have sub: "preserves (call_bind base chk) chk (dce_jaxpr extra) j" if j: "j \<in> set (subjaxprs jaxpr)" for j
  proof (rule less.IH [OF subjaxprs_size [OF j]])
    show "dce_wf base chk extra eqn" if "deep_eqn j eqn" for eqn
      by (rule less.prems(1)) (rule deep_eqn.nested [OF j that])
    from j obtain eqn where "eqn \<in> set (eqns jaxpr)" "j \<in> set (jaxprs_in_params (params eqn))"
      by (auto simp: subjaxprs_def)
    with less.prems(1) [OF deep_eqn.here [OF this(1)]] show "reads_ok (outvars j)"
      by (auto simp: dce_wf_def)
  qed
  have wf: "\<forall>eqn \<in> set (eqns jaxpr). dce_wf base chk extra eqn"
    using less.prems(1) by (blast intro: deep_eqn.here)
  show ?case
    unfolding preserves_def eval_jaxpr_spec
  proof (intro allI impI)
    fix used inst new ins cs args st outs st'
    assume d: "dce_jaxpr extra jaxpr used inst = Inr (new, ins)"
      and ev: "eval_spec (call_bind base chk) chk jaxpr cs args st = Inr (outs, st')"
    from d show "eval_spec (call_bind base chk) chk new cs (keep ins args) st =
        Inr (keep (flag_list used (length (outvars jaxpr))) outs, st')"
      by (subst (asm) dce_jaxpr.simps) (rule dce_body_preserves [OF _ wf _ less.prems(2) ev], assumption, use sub in blast)
  qed
qed

subsection \<open>Elimination with constants\<close>

lemma eval_spec_lengths:
  "eval_spec bind chk jaxpr cs args st = Inr (outs, st') \<Longrightarrow>
   length cs = length (constvars jaxpr) \<and> length args = length (invars jaxpr) \<and>
   length outs = length (outvars jaxpr)"
  by (auto simp: eval_spec_Inr bind_inputs_def res_simps dest: foreach2_length rmap_length)

lemma dce_jaxpr_shape:
  assumes "dce_jaxpr extra jaxpr used inst = Inr (new, ins)"
  shows "constvars new = constvars jaxpr" and "length ins = length (invars jaxpr)"
    and "invars new = keep ins (invars jaxpr)"
    and "outvars new = keep (flag_list used (length (outvars jaxpr))) (outvars jaxpr)"
  using assms
  by (subst (asm) dce_jaxpr.simps; auto simp: dce_jaxpr_body_def res_simps Let_def dest!: safe_map2_length)+

lemma deep_eqn_eqns: "deep_eqn j eqn \<Longrightarrow> eqns j' = eqns j \<Longrightarrow> deep_eqn j' eqn"
proof (induction rule: deep_eqn.induct)
  case (here eqn jaxpr)
  then show ?case by (intro deep_eqn.here) simp
next
  case (nested j jaxpr eqn)
  then have "j \<in> set (subjaxprs j')" by (simp add: subjaxprs_def)
  then show ?case using nested.hyps(2) by (rule deep_eqn.nested)
qed

lemma dce_jaxpr_consts_preserves:
  assumes "dce_jaxpr_consts extra jaxpr used inst = Inr (new, used_consts, used_inputs)"
    and "\<And>eqn. deep_eqn jaxpr eqn \<Longrightarrow> dce_wf base chk extra eqn" and "reads_ok (outvars jaxpr)"
    and "eval_jaxpr (call_bind base chk) chk jaxpr cs args st = Inr (outs, st')"
  shows "eval_jaxpr (call_bind base chk) chk new (keep used_consts cs) (keep used_inputs args) st =
     Inr (keep used outs, st')"
proof -
  let ?bind = "call_bind base chk" and ?j = "convert_constvars_jaxpr jaxpr" and ?n = "length (constvars jaxpr)"
  from assms(1) obtain nj ins where nj: "dce_jaxpr extra ?j (FlagSeq used) inst = Inr (nj, ins)"
    and uc: "used_consts = take ?n ins" and ui: "used_inputs = drop ?n ins"
    and new: "(if 0 < count_list used_consts True
               then convert_invars_to_constvars nj (int (count_list used_consts True)) else Inr nj) = Inr new"
    by (auto simp: dce_jaxpr_consts_def split_list_one res_simps split: if_splits)
  note ev = assms(4) [unfolded eval_jaxpr_spec]
  have ln: "length cs = ?n" "length args = length (invars jaxpr)" using eval_spec_lengths [OF ev] by simp_all
  have cj: "eqns ?j = eqns jaxpr" "outvars ?j = outvars jaxpr" "constvars ?j = []"
    "invars ?j = constvars jaxpr @ invars jaxpr"
    by (simp_all add: convert_constvars_jaxpr_def)
  have "preserves ?bind chk (dce_jaxpr extra) ?j"
  proof (rule dce_jaxpr_preserves)
    show "dce_wf base chk extra eqn" if "deep_eqn ?j eqn" for eqn
      by (rule assms(2)) (rule deep_eqn_eqns [OF that], simp add: cj(1))
  qed (use assms(3) cj in simp)
  moreover have "eval_spec ?bind chk ?j [] (cs @ args) st = Inr (outs, st')"
    using ev ln by (simp add: convert_constvars_eval)
  ultimately have e: "eval_spec ?bind chk nj [] (keep ins (cs @ args)) st = Inr (keep used outs, st')"
    using nj unfolding preserves_def eval_jaxpr_spec by fastforce
  note shape = dce_jaxpr_shape [OF nj]
  have ins: "ins = used_consts @ used_inputs" "length used_consts = length cs"
    using uc ui shape(2) cj(4) ln by simp_all
  have k: "keep ins (cs @ args) = keep used_consts cs @ keep used_inputs args"
    using ins by (simp add: keep_append)
  have inv: "invars nj = keep used_consts (constvars jaxpr) @ keep used_inputs (invars jaxpr)"
    using shape(3) ins ln cj(4) by (simp add: keep_append)
  have lk: "length (keep used_consts (constvars jaxpr)) = count_list used_consts True"
    "length (keep used_consts cs) = count_list used_consts True"
    using ins ln by (simp_all add: length_keep)
  have la: "length (keep used_inputs args) = length (keep used_inputs (invars jaxpr))"
    using ins shape(2) cj(4) ln by (intro length_keep_eq [symmetric]) auto
  show ?thesis
  proof (cases "0 < count_list used_consts True")
    case True
    with new have "convert_invars_to_constvars nj (int (count_list used_consts True)) = Inr new" by simp
    from convert_invars_to_constvars_eval [OF this, of "keep used_consts cs" "keep used_inputs args" ?bind chk st]
      shape(1) cj(3) inv lk la e k
    show ?thesis by (simp add: eval_jaxpr_spec)
  next
    case False
    with lk have "keep used_consts cs = []" by simp
    with e k new False show ?thesis by (simp add: eval_jaxpr_spec)
  qed
qed

end
