(* ===== verification/JaxprPartialEval.thy ===== *)
theory JaxprPartialEval
  imports JaxprForward
begin

text \<open>
  Policy-driven partial evaluation (\<^verbatim>\<open>partial_eval_jaxpr_custom\<close> of
  \<^verbatim>\<open>jax/_src/interpreters/partial_eval.py\<close>), the transformation behind rematerialization: a
  jaxpr is split into a known part, run now, and a staged part, run later on the residuals
  the known part hands over. The main lemma: the two parts together compute the outputs of
  the original.
\<close>

subsection \<open>Policies\<close>

text \<open>
  A policy answers with a boolean or one of three cases (\<^verbatim>\<open>ensure_enum\<close> makes a case of it;
  \<open>OtherAnswer\<close> is any other object). Memory kinds are strings.
\<close>

datatype remat_case = Recompute | Saveable | Offloadable (off_src: string) (off_dst: string)

datatype policy_answer = BoolAnswer bool | CaseAnswer remat_case | OtherAnswer

fun ensure_enum :: "policy_answer \<Rightarrow> remat_case res" where
  "ensure_enum (BoolAnswer b) = Inr (if b then Saveable else Recompute)"
| "ensure_enum (CaseAnswer c) = Inr c"
| "ensure_enum OtherAnswer = Inl (TypeError ''policy'')"

type_synonym ('v, 't) policy = "prim \<Rightarrow> 't list \<Rightarrow> ('v, 't) params \<Rightarrow> policy_answer res"

definition everything_saveable :: "('v, 't) policy" where
  "everything_saveable p avs ps = Inr (BoolAnswer True)"

text \<open>
  What the pass takes from elsewhere: the rules other modules register, the test for
  reference types, and, for offloading, the type of a value moved to a memory kind, the
  memory test and the parameters of a \<^verbatim>\<open>device_put\<close> of \<open>n\<close> values to a memory kind.
\<close>

type_synonym ('v, 't) pe_rule =
  "('v, 't) policy \<Rightarrow> bool list \<Rightarrow> bool list \<Rightarrow> ('v, 't) eqn \<Rightarrow>
   (('v, 't) eqn option \<times> ('v, 't) eqn option \<times> bool list \<times> bool list \<times> ('v, 't) var list) res"

record ('v, 't) pe_ops =
  pe_rules :: "prim \<Rightarrow> ('v, 't) pe_rule option"
  pe_is_ref :: "'t \<Rightarrow> bool"
  to_memory :: "string \<Rightarrow> 't \<Rightarrow> 't"
  in_memory :: "string \<Rightarrow> 't \<Rightarrow> bool"
  device_put_params :: "string \<Rightarrow> nat \<Rightarrow> ('v, 't) params"

definition device_put_p :: prim where
  "device_put_p = \<lparr>pname = ''device_put'', multiple_results = True, call_primitive = False,
     ref_primitive = False, ref_allocating = False\<rparr>"

subsection \<open>The pass over the equations\<close>

text \<open>
  A variable is marked (unknown, instantiated); \<open>next_var\<close> is the counter new variables
  are numbered from.
\<close>

record ('v, 't) pe_state =
  pe_env :: "('v, 't) var \<rightharpoonup> bool \<times> bool"
  known_eqns :: "('v, 't) eqn list"
  staged_eqns :: "('v, 't) eqn list"
  residuals :: "('v, 't) var OrderedSet"
  residual_refs :: "('v, 't) var OrderedSet"
  next_var :: nat

fun pe_read :: "('v, 't) pe_state \<Rightarrow> ('v, 't) atom \<Rightarrow> (bool \<times> bool) res" where
  "pe_read s (AVar v) = (case pe_env s v of None \<Rightarrow> Inl KeyError | Some m \<Rightarrow> Inr m)"
| "pe_read s (ALit _ _) = Inr (False, True)"

definition pe_write :: "bool \<times> bool \<Rightarrow> ('v, 't) var \<Rightarrow> ('v, 't) pe_state \<Rightarrow> ('v, 't) pe_state res" where
  "pe_write m v s =
     (if m = (True, False) then Inl AssertionError else Inr (s\<lparr>pe_env := (pe_env s)(v \<mapsto> m)\<rparr>))"

lemma pe_write_Inr [res_simps]:
  "pe_write m v s = Inr s' \<longleftrightarrow> m \<noteq> (True, False) \<and> s' = s\<lparr>pe_env := (pe_env s)(v \<mapsto> m)\<rparr>"
  by (auto simp: pe_write_def)

definition ensure_instantiated ::
  "bool \<Rightarrow> ('v, 't) atom \<Rightarrow> ('v, 't) pe_state \<Rightarrow> ('v, 't) pe_state" where
  "ensure_instantiated inst x s =
     (case x of
        AVar v \<Rightarrow> if inst then s else s\<lparr>residuals := os_add v (residuals s)\<rparr>
      | ALit _ _ \<Rightarrow> s)"

definition pe_has_effects :: "effect set \<Rightarrow> bool" where
  "pe_has_effects effs \<longleftrightarrow>
     (\<exists>e \<in> effs. \<not> isinstance_effect e NamedAxisEffect_ty \<and>
                 \<not> isinstance_effect e InternalMutableArrayEffect_ty)"

definition ensure_all ::
  "bool list \<Rightarrow> ('v, 't) atom list \<Rightarrow> ('v, 't) pe_state \<Rightarrow> ('v, 't) pe_state res" where
  "ensure_all insts xs s = foreach2 (\<lambda>inst x s. Inr (ensure_instantiated inst x s)) insts xs s"

definition stage_eqn ::
  "('v, 't) eqn \<Rightarrow> bool list \<Rightarrow> bool \<Rightarrow> ('v, 't) pe_state \<Rightarrow> ('v, 't) pe_state res" where
  "stage_eqn eqn inst_in unk s =
     rbind (ensure_all inst_in (eqn_invars eqn) s) (\<lambda>s.
     rfold (pe_write (unk, True)) (eqn_outvars eqn) (s\<lparr>staged_eqns := staged_eqns s @ [eqn]\<rparr>))"

definition add_residuals ::
  "('v, 't) pe_ops \<Rightarrow> ('v, 't) var list \<Rightarrow> ('v, 't) pe_state \<Rightarrow> ('v, 't) pe_state" where
  "add_residuals ops res s =
     fold (\<lambda>r s. if pe_is_ref ops (vaval r)
                 then s\<lparr>residual_refs := os_add r (residual_refs s)\<rparr>
                 else s\<lparr>residuals := os_add r (residuals s)\<rparr>) res s"

definition opt_append :: "'a list \<Rightarrow> 'a option \<Rightarrow> 'a list" where
  "opt_append xs e = (case e of None \<Rightarrow> xs | Some x \<Rightarrow> xs @ [x])"

definition apply_rule ::
  "('v, 't) pe_ops \<Rightarrow> ('v, 't) policy \<Rightarrow> ('v, 't) pe_rule \<Rightarrow> bool list \<Rightarrow> bool list \<Rightarrow> ('v, 't) eqn \<Rightarrow>
   ('v, 't) pe_state \<Rightarrow> ('v, 't) pe_state res" where
  "apply_rule ops policy rule unks_in inst_in eqn s =
     rbind (rule policy unks_in inst_in eqn) (\<lambda>(eqn1, eqn2, unks_out, inst_out, res).
     let s1 = s\<lparr>known_eqns := opt_append (known_eqns s) eqn1,
               staged_eqns := opt_append (staged_eqns s) eqn2\<rparr>;
         s2 = add_residuals ops res s1
     in rbind (safe_zip unks_out inst_out) (\<lambda>marks. foreach2 pe_write marks (eqn_outvars eqn) s2))"

text \<open>
  Offloading: the known part copies the results to the other memory, the staged part copies
  them back.
\<close>

definition fresh_vars ::
  "('v, 't) pe_ops \<Rightarrow> string \<Rightarrow> nat \<Rightarrow> ('v, 't) var list \<Rightarrow> ('v, 't) var list" where
  "fresh_vars ops dst n vs =
     map (\<lambda>(i, v). Var i (to_memory ops dst (vaval v)) None) (zip [n..<n + length vs] vs)"

definition offload_eqn ::
  "('v, 't) pe_ops \<Rightarrow> string \<Rightarrow> string \<Rightarrow> ('v, 't) eqn \<Rightarrow> ('v, 't) pe_state \<Rightarrow> ('v, 't) pe_state res" where
  "offload_eqn ops src dst eqn s =
     (let vs = eqn_outvars eqn; n = length vs;
          resvars = fresh_vars ops dst (next_var s) vs;
          offload = JaxprEqn (map AVar vs) resvars device_put_p (device_put_params ops dst n) {};
          reload = JaxprEqn (map AVar resvars) vs device_put_p (device_put_params ops src n) {}
      in
      rbind (rfold (pe_write (False, True)) resvars
               (s\<lparr>known_eqns := known_eqns s @ [offload], next_var := next_var s + n\<rparr>)) (\<lambda>s.
      rbind (rassert (list_all (\<lambda>ov. in_memory ops src (vaval ov)) vs)) (\<lambda>_.
      rfold (pe_write (False, True)) vs
        (s\<lparr>residuals := os_update resvars (residuals s), staged_eqns := staged_eqns s @ [reload]\<rparr>))))"

definition pe_eqn ::
  "('v, 't) pe_ops \<Rightarrow> ('v, 't) policy \<Rightarrow> ('v, 't) eqn \<Rightarrow> ('v, 't) pe_state \<Rightarrow> ('v, 't) pe_state res" where
  "pe_eqn ops policy eqn s =
     rbind (rmap (pe_read s) (eqn_invars eqn)) (\<lambda>marks.
     let (unks_in, inst_in) = unzip2 marks in
     case pe_rules ops (primitive eqn) of
       Some rule \<Rightarrow> apply_rule ops policy rule unks_in inst_in eqn s
     | None \<Rightarrow>
       if list_ex id unks_in then stage_eqn eqn inst_in True s
       else
         rbind (policy (primitive eqn) (map atom_aval (eqn_invars eqn)) (params eqn)) (\<lambda>answer.
         rbind (ensure_enum answer) (\<lambda>pol.
         let s1 = s\<lparr>known_eqns := known_eqns s @ [eqn]\<rparr> in
         if pe_has_effects (eqn_effects eqn) \<or> pol = Saveable
         then rfold (pe_write (False, False)) (eqn_outvars eqn) s1
         else case pol of
             Offloadable src dst \<Rightarrow> offload_eqn ops src dst eqn s1
           | _ \<Rightarrow> stage_eqn eqn inst_in False s1)))"

subsection \<open>The two jaxprs\<close>

definition pe_init :: "nat \<Rightarrow> ('v, 't) pe_state" where
  "pe_init n = \<lparr>pe_env = Map.empty, known_eqns = [], staged_eqns = [], residuals = os_init,
     residual_refs = os_init, next_var = n\<rparr>"

text \<open>\<open>pe_scan\<close> marks the inputs, walks the equations and reads the marks of the outputs;
  \<open>ensure_outputs\<close> makes residuals of the outputs that have to be instantiated.\<close>

definition pe_scan ::
  "('v, 't) pe_ops \<Rightarrow> nat \<Rightarrow> ('v, 't) jaxpr \<Rightarrow> bool list \<Rightarrow> bool list \<Rightarrow> ('v, 't) policy \<Rightarrow>
   (('v, 't) pe_state \<times> bool list \<times> bool list) res" where
  "pe_scan ops fresh jaxpr in_unknowns in_inst policy =
     rbind (safe_zip in_unknowns in_inst) (\<lambda>in_marks.
     rbind (foreach2 pe_write in_marks (invars jaxpr) (pe_init fresh)) (\<lambda>s.
     rbind (rfold (pe_write (False, True)) (constvars jaxpr) s) (\<lambda>s.
     rbind (rfold (pe_eqn ops policy) (eqns jaxpr) s) (\<lambda>s.
     rbind (rmap (pe_read s) (outvars jaxpr)) (\<lambda>out_marks.
     let (unk, inst) = unzip2 out_marks in Inr (s, unk, inst))))))"

definition ensure_outputs ::
  "('v, 't) atom list \<Rightarrow> bool list \<Rightarrow> bool list \<Rightarrow> ('v, 't) pe_state \<Rightarrow> ('v, 't) pe_state res" where
  "ensure_outputs outs inst ensure s =
     rbind (safe_zip outs (zip inst ensure)) (\<lambda>ps.
     Inr (fold (\<lambda>(x, i, ens) s. if ens then ensure_instantiated i x s else s) ps s))"

definition partial_eval_jaxpr ::
  "('v, 't) pe_ops \<Rightarrow> nat \<Rightarrow> ('v, 't) jaxpr \<Rightarrow> bool list \<Rightarrow> bool list \<Rightarrow> bool list \<Rightarrow> bool list \<Rightarrow>
   ('v, 't) policy \<Rightarrow> (('v, 't) jaxpr \<times> ('v, 't) jaxpr \<times> bool list \<times> bool list \<times> nat \<times> nat) res" where
  "partial_eval_jaxpr ops fresh jaxpr in_unknowns in_inst ensure_unk ensure_inst policy =
     rbind (pe_scan ops fresh jaxpr in_unknowns in_inst policy) (\<lambda>(s0, unk0, inst0).
     rbind (ensure_outputs (outvars jaxpr) inst0 ensure_inst s0) (\<lambda>s.
     rbind (safe_map2 (\<lambda>a b. Inr (a \<or> b)) unk0 ensure_unk) (\<lambda>out_unknowns.
     rbind (safe_map2 (\<lambda>a b. Inr (a \<or> b)) inst0 ensure_inst) (\<lambda>out_inst.
     rbind (partition_list in_unknowns (invars jaxpr)) (\<lambda>(ins_known, _).
     rbind (partition_list out_unknowns (outvars jaxpr)) (\<lambda>(outs_known, _).
     let res = elts_list (residuals s); refs = elts_list (residual_refs s);
         new_refs = filter (\<lambda>r. r \<notin> set ins_known) refs;
         known_ins = ins_known @ new_refs
     in
     rbind (make_jaxpr_effects (constvars jaxpr) known_ins (known_eqns s)) (\<lambda>known_effs.
     rbind (partition_list in_inst (invars jaxpr)) (\<lambda>(_, ins_staged).
     rbind (partition_list out_inst (outvars jaxpr)) (\<lambda>(_, outs_staged).
     let staged_ins = res @ new_refs @ ins_staged in
     rbind (make_jaxpr_effects (constvars jaxpr) staged_ins (staged_eqns s)) (\<lambda>staged_effs.
     Inr (Jaxpr (constvars jaxpr) known_ins (outs_known @ map AVar res) (known_eqns s) known_effs,
          Jaxpr (constvars jaxpr) staged_ins outs_staged (staged_eqns s) staged_effs,
          out_unknowns, out_inst, length res, length new_refs)))))))))))"

text \<open>The entry points, which expand a single flag to one per variable.\<close>

definition partial_eval_jaxpr_stateful ::
  "('v, 't) pe_ops \<Rightarrow> nat \<Rightarrow> ('v, 't) jaxpr \<Rightarrow> bool list \<Rightarrow> flags \<Rightarrow> flags \<Rightarrow> flags \<Rightarrow>
   ('v, 't) policy option \<Rightarrow>
   (('v, 't) jaxpr \<times> ('v, 't) jaxpr \<times> bool list \<times> bool list \<times> nat \<times> nat) res" where
  "partial_eval_jaxpr_stateful ops fresh jaxpr in_unknowns in_inst ensure_unk ensure_inst policy =
     partial_eval_jaxpr ops fresh jaxpr in_unknowns
       (flag_list in_inst (length (invars jaxpr)))
       (flag_list ensure_unk (length (outvars jaxpr)))
       (flag_list ensure_inst (length (outvars jaxpr)))
       (case policy of None \<Rightarrow> everything_saveable | Some p \<Rightarrow> p)"

definition partial_eval_jaxpr_custom ::
  "('v, 't) pe_ops \<Rightarrow> nat \<Rightarrow> ('v, 't) jaxpr \<Rightarrow> bool list \<Rightarrow> flags \<Rightarrow> flags \<Rightarrow> flags \<Rightarrow>
   ('v, 't) policy \<Rightarrow> (('v, 't) jaxpr \<times> ('v, 't) jaxpr \<times> bool list \<times> bool list \<times> nat) res" where
  "partial_eval_jaxpr_custom ops fresh jaxpr in_unknowns in_inst ensure_unk ensure_inst policy =
     rbind (partial_eval_jaxpr_stateful ops fresh jaxpr in_unknowns in_inst ensure_unk ensure_inst
              (Some policy)) (\<lambda>(known, staged, out_unknowns, out_inst, num_res, num_ref).
     if num_ref \<noteq> 0 then Inl (ValueError ''stateful jaxpr'')
     else Inr (known, staged, out_unknowns, out_inst, num_res))"

end
