(* ===== verification/JaxprPartialEvalCorrect.thy ===== *)
theory JaxprPartialEvalCorrect
  imports JaxprPartialEval
begin

text \<open>
  The split made by \<open>partial_eval_jaxpr\<close> is correct: running the known part and then the
  staged part on its residuals gives the outputs of the original. The proof reads a run of
  a single-assignment jaxpr as one final environment that every equation agrees with
  (\<open>holds\<close>); a list of such equations whose reads are available (\<open>avail\<close>) can be run from
  any part of that environment. What remains is an invariant of the marks.
\<close>

subsection \<open>Equations that agree with a final environment\<close>

definition pure_eqn :: "('v, 't, 's) bindfun \<Rightarrow> ('v, 't) eqn \<Rightarrow> bool" where
  "pure_eqn bind eqn \<longleftrightarrow>
     (\<forall>args st st0 ans st'. bind (primitive eqn) (params eqn) args st = Inr (ans, st') \<longrightarrow>
        st' = st \<and> bind (primitive eqn) (params eqn) args st0 = Inr (ans, st0))"

definition holds ::
  "('v, 't, 's) bindfun \<Rightarrow> ('t \<Rightarrow> 'v \<Rightarrow> bool) \<Rightarrow> ('v, 't) env \<Rightarrow> ('v, 't) eqn \<Rightarrow> bool" where
  "holds bind chk E eqn \<longleftrightarrow>
     (\<exists>args ans m. rmap (read_atom E) (eqn_invars eqn) = Inr args \<and>
        (\<forall>st. bind (primitive eqn) (params eqn) args st = Inr (ans, st)) \<and>
        (\<forall>env. write_ans chk eqn ans env = Inr (env ++ m)) \<and> m \<subseteq>\<^sub>m E \<and> dom m = set (eqn_outvars eqn))"

definition one_result :: "('v, 't) eqn \<Rightarrow> bool" where
  "one_result eqn \<longleftrightarrow> multiple_results (primitive eqn) \<or> length (eqn_outvars eqn) = 1"

lemma read_le:
  "env \<subseteq>\<^sub>m E \<Longrightarrow> set (atom_vars xs) \<subseteq> dom env \<Longrightarrow> rmap (read_atom env) xs = rmap (read_atom E) xs"
  by (intro read_atoms_agree) (auto simp: agree_def map_le_def)

lemma map_add_le: "env \<subseteq>\<^sub>m E \<Longrightarrow> m \<subseteq>\<^sub>m E \<Longrightarrow> env ++ m \<subseteq>\<^sub>m E"
  by (auto simp: map_le_def map_add_def dom_def split: option.splits)

lemma write_ans_map:
  assumes "write_ans chk eqn ans env = Inr e1" and "one_result eqn"
  shows "\<exists>m. e1 = env ++ m \<and> (\<forall>env. write_ans chk eqn ans env = Inr (env ++ m)) \<and>
     dom m = set (eqn_outvars eqn) \<and> (\<forall>v x. m v = Some x \<longrightarrow> chk (vaval v) x)"
proof (cases "multiple_results (primitive eqn)")
  case True
  with assms(1) obtain xs where xs: "ans = Multiple xs"
    "foreach2 (write_var chk) (eqn_outvars eqn) xs env = Inr e1"
    by (auto simp: write_ans_def split: ans.splits)
  let ?m = "map_of (rev (zip (eqn_outvars eqn) xs))"
  have len: "length (eqn_outvars eqn) = length xs" using foreach2_length [OF xs(2)] .
  have w: "foreach2 (write_var chk) (eqn_outvars eqn) xs env' = Inr (env' ++ ?m)" for env'
    using xs(2) foreach_write_eq [OF len, of chk] by (auto split: if_splits)
  have al: "list_all2 (\<lambda>v x. chk (vaval v) x) (eqn_outvars eqn) xs"
    using xs(2) foreach_write_eq [OF len, of chk env] by (auto split: if_splits)
  have "dom ?m = set (map fst (zip (eqn_outvars eqn) xs))"
    by (simp only: dom_map_of_conv_image_fst set_rev list.set_map)
  also have "\<dots> = set (eqn_outvars eqn)" using len by (simp only: map_fst_zip)
  finally have "dom ?m = set (eqn_outvars eqn)" .
  moreover have "chk (vaval v) x" if "?m v = Some x" for v x
    using map_of_SomeD [OF that] al by (auto simp: list_all2_iff)
  ultimately show ?thesis
    using w w [of env] xs True by (intro exI [of _ ?m]) (auto simp: write_ans_def)
next
  case False
  with assms obtain x v where x: "ans = Single x" "eqn_outvars eqn = [v]" "chk (vaval v) x"
      "e1 = env(v \<mapsto> x)"
    by (auto simp: write_ans_def one_result_def res_simps length_Suc_conv split: ans.splits)
  with False show ?thesis
    by (intro exI [of _ "[v \<mapsto> x]"]) (auto simp: write_ans_def seq_get_def write_var_ok)
qed

lemma holds_eval:
  assumes "holds bind chk E eqn" and "env \<subseteq>\<^sub>m E" and "set (atom_vars (eqn_invars eqn)) \<subseteq> dom env"
  shows "\<exists>env'. eval_eqn bind chk eqn env st = Inr (env', st) \<and> env' \<subseteq>\<^sub>m E \<and>
     dom env' = dom env \<union> set (eqn_outvars eqn)"
proof -
  from assms(1) obtain args ans m where h: "rmap (read_atom E) (eqn_invars eqn) = Inr args"
    "\<forall>st. bind (primitive eqn) (params eqn) args st = Inr (ans, st)"
    "\<forall>env. write_ans chk eqn ans env = Inr (env ++ m)" "m \<subseteq>\<^sub>m E" "dom m = set (eqn_outvars eqn)"
    unfolding holds_def by blast
  with read_le [OF assms(2,3)] have "eval_eqn bind chk eqn env st = Inr (env ++ m, st)"
    by (simp add: eval_eqn_def)
  moreover have "env ++ m \<subseteq>\<^sub>m E" by (rule map_add_le [OF assms(2) h(4)])
  ultimately show ?thesis using h(5) by auto
qed

fun avail :: "('v, 't) var set \<Rightarrow> ('v, 't) eqn list \<Rightarrow> bool" where
  "avail D [] = True"
| "avail D (eqn # es) =
     (set (atom_vars (eqn_invars eqn)) \<subseteq> D \<and> avail (D \<union> set (eqn_outvars eqn)) es)"

definition outs_of :: "('v, 't) eqn list \<Rightarrow> ('v, 't) var set" where
  "outs_of es = set (concat (map eqn_outvars es))"

lemma outs_of_simps [simp]:
  "outs_of [] = {}" "outs_of (eqn # es) = set (eqn_outvars eqn) \<union> outs_of es"
  "outs_of (es @ fs) = outs_of es \<union> outs_of fs"
  by (simp_all add: outs_of_def)

lemma avail_mono: "avail D es \<Longrightarrow> D \<subseteq> D' \<Longrightarrow> avail D' es"
proof (induction es arbitrary: D D')
  case Nil
  then show ?case by simp
next
  case (Cons eqn es)
  have "avail (D' \<union> set (eqn_outvars eqn)) es"
    by (rule Cons.IH [of "D \<union> set (eqn_outvars eqn)"]) (use Cons.prems in auto)
  with Cons.prems show ?case by auto
qed

lemma avail_snoc: "avail D (es @ [eqn]) \<longleftrightarrow> avail D es \<and> set (atom_vars (eqn_invars eqn)) \<subseteq> D \<union> outs_of es"
  by (induction es arbitrary: D) (auto simp: Un_assoc)

lemma holds_run:
  assumes "\<forall>eqn \<in> set es. holds bind chk E eqn" and "env \<subseteq>\<^sub>m E" and "avail (dom env) es"
  shows "\<exists>env'. run_eqns bind chk es env st = Inr (env', st) \<and> env' \<subseteq>\<^sub>m E \<and>
     dom env' = dom env \<union> outs_of es"
  using assms
proof (induction es arbitrary: env)
  case Nil
  then show ?case by simp
next
  case (Cons eqn es)
  then obtain e1 where "eval_eqn bind chk eqn env st = Inr (e1, st)" "e1 \<subseteq>\<^sub>m E"
      "dom e1 = dom env \<union> set (eqn_outvars eqn)"
    using holds_eval [of bind chk E eqn env st] by auto
  with Cons.IH [of e1] Cons.prems show ?case by (auto simp: Un_assoc)
qed

text \<open>A successful run of pure single-assignment equations makes all of them hold at its end.\<close>

definition env_typed :: "('t \<Rightarrow> 'v \<Rightarrow> bool) \<Rightarrow> ('v, 't) env \<Rightarrow> bool" where
  "env_typed chk env \<longleftrightarrow> (\<forall>v x. env v = Some x \<longrightarrow> chk (vaval v) x)"

lemma run_holds:
  assumes "run_eqns bind chk es env st = Inr (E, st')"
    and "\<forall>eqn \<in> set es. pure_eqn bind eqn \<and> one_result eqn"
    and "distinct (concat (map eqn_outvars es))" and "dom env \<inter> outs_of es = {}" and "env_typed chk env"
  shows "(\<forall>eqn \<in> set es. holds bind chk E eqn) \<and> env \<subseteq>\<^sub>m E \<and> st' = st \<and> env_typed chk E"
  using assms
proof (induction es arbitrary: env st)
  case Nil
  then show ?case by simp
next
  case (Cons eqn es)
  from Cons.prems(1) obtain e1 s1 where e1: "eval_eqn bind chk eqn env st = Inr (e1, s1)"
      "run_eqns bind chk es e1 s1 = Inr (E, st')"
    by (auto simp: res_simps)
  from e1(1) obtain args ans where a: "rmap (read_atom env) (eqn_invars eqn) = Inr args"
    "bind (primitive eqn) (params eqn) args st = Inr (ans, s1)" "write_ans chk eqn ans env = Inr e1"
    by (auto simp: eval_eqn_def res_simps)
  from write_ans_map [OF a(3)] Cons.prems(2) obtain m where
    m: "e1 = env ++ m" "\<forall>env. write_ans chk eqn ans env = Inr (env ++ m)"
      "dom m = set (eqn_outvars eqn)" "\<forall>v x. m v = Some x \<longrightarrow> chk (vaval v) x"
    by auto
  have "pure_eqn bind eqn" using Cons.prems(2) by simp
  with a(2) have pu: "s1 = st" "\<forall>st. bind (primitive eqn) (params eqn) args st = Inr (ans, st)"
    unfolding pure_eqn_def by blast+
  have out: "set (eqn_outvars eqn) \<inter> outs_of es = {}" using Cons.prems(3) by (auto simp: outs_of_def)
  have ty1: "env_typed chk e1"
    using Cons.prems(5) m(1,4) by (auto simp: env_typed_def map_add_def split: option.splits)
  have d1: "dom e1 \<inter> outs_of es = {}" using out Cons.prems(4) m(1,3) by auto
  have IH: "(\<forall>eqn \<in> set es. holds bind chk E eqn) \<and> e1 \<subseteq>\<^sub>m E \<and> st' = s1 \<and> env_typed chk E"
    using Cons.IH [OF e1(2) _ _ d1 ty1] Cons.prems(2,3) by simp
  have "env \<subseteq>\<^sub>m e1"
  proof -
    have "v \<notin> dom m" if "v \<in> dom env" for v using that Cons.prems(4) m(3) by auto
    then show ?thesis by (auto simp: map_le_def m(1) map_add_def domIff split: option.splits)
  qed
  with IH have le: "env \<subseteq>\<^sub>m E" by (blast intro: map_le_trans)
  have reads: "set (atom_vars (eqn_invars eqn)) \<subseteq> dom env"
    using eval_eqn_reads [OF e1(1)] by auto
  have "m \<subseteq>\<^sub>m e1" by (simp add: m(1))
  with IH have "m \<subseteq>\<^sub>m E" by (blast intro: map_le_trans)
  with a(1) read_le [OF le reads] pu(2) m(2,3) have "holds bind chk E eqn"
    unfolding holds_def by (intro exI [of _ args] exI [of _ ans] exI [of _ m]) simp
  with IH le pu(1) show ?case by simp
qed

lemma foreach_write_le:
  assumes "length vs = length xs" and "\<forall>(v, x) \<in> set (zip vs xs). chk (vaval v) x \<and> E v = Some x"
    and "env \<subseteq>\<^sub>m E"
  shows "\<exists>env'. foreach2 (write_var chk) vs xs env = Inr env' \<and> env' \<subseteq>\<^sub>m E \<and> dom env' = dom env \<union> set vs"
  using assms
proof (induction vs xs arbitrary: env rule: list_induct2)
  case Nil
  then show ?case by simp
next
  case (Cons v vs x xs)
  have le: "env(v \<mapsto> x) \<subseteq>\<^sub>m E" using Cons.prems by (auto simp: map_le_def)
  have "\<exists>env'. foreach2 (write_var chk) vs xs (env(v \<mapsto> x)) = Inr env' \<and> env' \<subseteq>\<^sub>m E \<and>
      dom env' = dom (env(v \<mapsto> x)) \<union> set vs"
    by (rule Cons.IH [OF _ le]) (use Cons.prems in auto)
  then show ?case using Cons.prems(1) by (auto simp: write_var_ok)
qed

subsection \<open>The invariant of the pass\<close>

text \<open>
  \<open>K0\<close> are the variables bound in the known part before its equations run, \<open>S0\<close> those of
  the staged part apart from the residuals. A variable not marked unknown can be read in
  the known part, one marked instantiated in the staged part, and every residual is known.
\<close>

definition pe_inv ::
  "('v, 't) eqn set \<Rightarrow> ('v, 't) var set \<Rightarrow> ('v, 't) var set \<Rightarrow> ('v, 't) pe_state \<Rightarrow> bool" where
  "pe_inv Es K0 S0 s \<longleftrightarrow>
     set (known_eqns s) \<subseteq> Es \<and> set (staged_eqns s) \<subseteq> Es \<and>
     avail K0 (known_eqns s) \<and> avail (elts_set (residuals s) \<union> S0) (staged_eqns s) \<and>
     os_inv (residuals s) \<and> residual_refs s = os_init \<and>
     elts_set (residuals s) \<subseteq> K0 \<union> outs_of (known_eqns s) \<and>
     (\<forall>v unk inst. pe_env s v = Some (unk, inst) \<longrightarrow>
        (unk, inst) \<noteq> (True, False) \<and>
        (\<not> unk \<longrightarrow> v \<in> K0 \<union> outs_of (known_eqns s)) \<and> (inst \<longrightarrow> v \<in> S0 \<union> outs_of (staged_eqns s)))"

lemma pe_writes:
  "rfold (pe_write m) vs s = Inr s' \<Longrightarrow>
   s' = s\<lparr>pe_env := (\<lambda>v. if v \<in> set vs then Some m else pe_env s v)\<rparr> \<and> (vs \<noteq> [] \<longrightarrow> m \<noteq> (True, False))"
proof (induction vs arbitrary: s)
  case Nil
  then show ?case by simp
next
  case (Cons v vs)
  then have "m \<noteq> (True, False)" "rfold (pe_write m) vs (s\<lparr>pe_env := (pe_env s)(v \<mapsto> m)\<rparr>) = Inr s'"
    by (auto simp: res_simps)
  with Cons.IH [OF this(2)] show ?case by (auto simp: fun_eq_iff)
qed

lemma ensure_instantiated_simps [simp]:
  "ensure_instantiated inst (ALit x t) s = s" "ensure_instantiated True (AVar v) s = s"
  "ensure_instantiated False (AVar v) s = s\<lparr>residuals := os_add v (residuals s)\<rparr>"
  by (simp_all add: ensure_instantiated_def)

lemma ensure_all_props:
  "ensure_all insts xs s = Inr s' \<Longrightarrow> os_inv (residuals s) \<Longrightarrow>
   pe_env s' = pe_env s \<and> known_eqns s' = known_eqns s \<and> staged_eqns s' = staged_eqns s \<and>
   residual_refs s' = residual_refs s \<and> os_inv (residuals s') \<and> length insts = length xs \<and>
   elts_set (residuals s') = elts_set (residuals s) \<union> set (atom_vars (keep (map Not insts) xs))"
  unfolding ensure_all_def
proof (induction insts xs arbitrary: s rule: list_induct2')
  case (4 b bs x xs)
  from "4.prems"(1) have st: "foreach2 (\<lambda>inst x s. Inr (ensure_instantiated inst x s)) bs xs
      (ensure_instantiated b x s) = Inr s'" by simp
  have "os_inv (residuals (ensure_instantiated b x s))"
    using "4.prems"(2) by (cases x; cases b) simp_all
  from "4.IH" [OF st this] show ?case by (cases x; cases b) auto
qed simp_all

text \<open>Marks of the operands of an equation.\<close>

lemma pe_reads:
  assumes "rmap (pe_read s) xs = Inr marks"
  shows "\<forall>v \<in> set (atom_vars xs). \<exists>m \<in> set marks. pe_env s v = Some m"
    and "\<forall>v \<in> set (atom_vars (keep (map (Not \<circ> snd) marks) xs)). \<exists>unk. pe_env s v = Some (unk, False)"
    and "\<forall>v \<in> set (atom_vars xs). v \<notin> set (atom_vars (keep (map (Not \<circ> snd) marks) xs)) \<longrightarrow>
           (\<exists>unk. pe_env s v = Some (unk, True))"
  using assms
proof (induction xs arbitrary: marks)
  case Nil
  {
    case 1
    then show ?case by simp
  next
    case 2
    then show ?case by simp
  next
    case 3
    then show ?case by simp
  }
next
  case (Cons x xs)
  have split: "\<exists>m ms. pe_read s x = Inr m \<and> rmap (pe_read s) xs = Inr ms \<and> marks = m # ms"
    if "rmap (pe_read s) (x # xs) = Inr marks" for marks
    using that by (auto simp: res_simps)
  {
    case 1
    from split [OF 1] Cons.IH(1) show ?case by (cases x) (fastforce split: option.splits)+
  next
    case 2
    from split [OF 2] obtain m ms where m: "pe_read s x = Inr m" "rmap (pe_read s) xs = Inr ms"
      "marks = m # ms" by blast
    from Cons.IH(2) [OF m(2)] m(1,3) show ?case
      by (cases x; cases m) (auto split: option.splits if_splits)
  next
    case 3
    from split [OF 3] obtain m ms where m: "pe_read s x = Inr m" "rmap (pe_read s) xs = Inr ms"
      "marks = m # ms" by blast
    from Cons.IH(3) [OF m(2)] m(1,3) show ?case
      by (cases x; cases m) (auto split: option.splits if_splits)
  }
qed

lemma pe_inv_known:
  assumes "pe_inv Es K0 S0 s" and "eqn \<in> Es" and "set (atom_vars (eqn_invars eqn)) \<subseteq> K0 \<union> outs_of (known_eqns s)"
  shows "pe_inv Es K0 S0 (s\<lparr>known_eqns := known_eqns s @ [eqn]\<rparr>)"
proof -
  let ?s = "s\<lparr>known_eqns := known_eqns s @ [eqn]\<rparr>"
  have eqs: "known_eqns ?s = known_eqns s @ [eqn]" "staged_eqns ?s = staged_eqns s"
    "residuals ?s = residuals s" "residual_refs ?s = residual_refs s" "pe_env ?s = pe_env s" by simp_all
  have outs: "outs_of (known_eqns s @ [eqn]) = outs_of (known_eqns s) \<union> set (eqn_outvars eqn)"
    and st: "set (known_eqns s @ [eqn]) = insert eqn (set (known_eqns s))" by auto
  from assms show ?thesis unfolding pe_inv_def eqs avail_snoc outs st by blast
qed

lemma pe_inv_mark:
  assumes "pe_inv Es K0 S0 s" and "rfold (pe_write (unk, inst)) vs s = Inr s'"
    and "\<not> unk \<Longrightarrow> set vs \<subseteq> K0 \<union> outs_of (known_eqns s)" and "inst \<Longrightarrow> set vs \<subseteq> S0 \<union> outs_of (staged_eqns s)"
  shows "pe_inv Es K0 S0 s'"
proof -
  from pe_writes [OF assms(2)] have s': "s' = s\<lparr>pe_env := (\<lambda>v. if v \<in> set vs then Some (unk, inst) else pe_env s v)\<rparr>"
    and ne: "vs \<noteq> [] \<longrightarrow> (unk, inst) \<noteq> (True, False)" by auto
  have eqs: "known_eqns s' = known_eqns s" "staged_eqns s' = staged_eqns s"
    "residuals s' = residuals s" "residual_refs s' = residual_refs s" by (simp_all add: s')
  have "\<forall>v u i. pe_env s' v = Some (u, i) \<longrightarrow> (u, i) \<noteq> (True, False) \<and>
      (\<not> u \<longrightarrow> v \<in> K0 \<union> outs_of (known_eqns s)) \<and> (i \<longrightarrow> v \<in> S0 \<union> outs_of (staged_eqns s))"
  proof (intro allI impI)
    fix v u i assume m: "pe_env s' v = Some (u, i)"
    show "(u, i) \<noteq> (True, False) \<and>
      (\<not> u \<longrightarrow> v \<in> K0 \<union> outs_of (known_eqns s)) \<and> (i \<longrightarrow> v \<in> S0 \<union> outs_of (staged_eqns s))"
    proof (cases "v \<in> set vs")
      case True
      with m s' have "u = unk" "i = inst" by simp_all
      with True ne assms(3,4) show ?thesis by auto
    next
      case False
      with m s' have "pe_env s v = Some (u, i)" by simp
      with assms(1) show ?thesis unfolding pe_inv_def by blast
    qed
  qed
  with assms(1) show ?thesis unfolding pe_inv_def eqs by blast
qed

lemma pe_inv_stage:
  assumes "pe_inv Es K0 S0 s" and "stage_eqn eqn (map snd marks) unk s = Inr s'" and "eqn \<in> Es"
    and "rmap (pe_read s0) (eqn_invars eqn) = Inr marks" and "pe_env s0 = pe_env s"
    and "\<not> unk \<Longrightarrow> set (eqn_outvars eqn) \<subseteq> K0 \<union> outs_of (known_eqns s)"
  shows "pe_inv Es K0 S0 s'"
proof -
  from assms(2) obtain s1 where s1: "ensure_all (map snd marks) (eqn_invars eqn) s = Inr s1"
    "rfold (pe_write (unk, True)) (eqn_outvars eqn) (s1\<lparr>staged_eqns := staged_eqns s1 @ [eqn]\<rparr>) = Inr s'"
    by (auto simp: stage_eqn_def res_simps)
  let ?new = "set (atom_vars (keep (map (Not \<circ> snd) marks) (eqn_invars eqn)))"
  have "os_inv (residuals s)" using assms(1) by (simp add: pe_inv_def)
  from ensure_all_props [OF s1(1) this] have e:
    "pe_env s1 = pe_env s" "known_eqns s1 = known_eqns s" "staged_eqns s1 = staged_eqns s"
    "residual_refs s1 = residual_refs s" "os_inv (residuals s1)"
    "elts_set (residuals s1) = elts_set (residuals s) \<union> ?new"
    by (simp_all add: comp_def)
  have marks: "(u, i) \<noteq> (True, False)" "\<not> u \<Longrightarrow> v \<in> K0 \<union> outs_of (known_eqns s)"
    "i \<Longrightarrow> v \<in> S0 \<union> outs_of (staged_eqns s)" if "pe_env s v = Some (u, i)" for v u i
    using assms(1) that unfolding pe_inv_def by blast+
  have known: "?new \<subseteq> K0 \<union> outs_of (known_eqns s)"
  proof
    fix v assume "v \<in> ?new"
    with pe_reads(2) [OF assms(4)] assms(5) obtain u where u: "pe_env s v = Some (u, False)" by auto
    from marks(1) [OF u] have "\<not> u" by simp
    with marks(2) [OF u] show "v \<in> K0 \<union> outs_of (known_eqns s)" by blast
  qed
  have reads: "set (atom_vars (eqn_invars eqn)) \<subseteq> elts_set (residuals s1) \<union> S0 \<union> outs_of (staged_eqns s)"
  proof
    fix v assume v: "v \<in> set (atom_vars (eqn_invars eqn))"
    show "v \<in> elts_set (residuals s1) \<union> S0 \<union> outs_of (staged_eqns s)"
    proof (cases "v \<in> ?new")
      case False
      with pe_reads(3) [OF assms(4)] v assms(5) obtain u where "pe_env s v = Some (u, True)" by auto
      from marks(3) [OF this] show ?thesis by blast
    qed (use e(6) in blast)
  qed
  have "avail (elts_set (residuals s) \<union> S0) (staged_eqns s)" using assms(1) by (simp add: pe_inv_def)
  then have "avail (elts_set (residuals s1) \<union> S0) (staged_eqns s)"
    by (rule avail_mono) (use e(6) in blast)
  with reads known assms(1,3) e have "pe_inv Es K0 S0 (s1\<lparr>staged_eqns := staged_eqns s1 @ [eqn]\<rparr>)"
    unfolding pe_inv_def by (simp add: avail_snoc Un_assoc) blast
  from pe_inv_mark [OF this s1(2)] assms(6) e show ?thesis by auto
qed

text \<open>The policies covered here do not offload, and no other rule applies.\<close>

definition no_offload :: "('v, 't) policy \<Rightarrow> bool" where
  "no_offload policy \<longleftrightarrow> (\<forall>p avs ps s d. policy p avs ps \<noteq> Inr (CaseAnswer (Offloadable s d)))"

lemma pe_eqn_inv:
  assumes "pe_inv Es K0 S0 s" and "pe_eqn ops policy eqn s = Inr s'" and "eqn \<in> Es"
    and "pe_rules ops (primitive eqn) = None" and "no_offload policy"
  shows "pe_inv Es K0 S0 s'"
proof -
  from assms(2) obtain marks where mk: "rmap (pe_read s) (eqn_invars eqn) = Inr marks"
    by (auto simp: pe_eqn_def res_simps)
  show ?thesis
  proof (cases "list_ex id (map fst marks)")
    case True
    with assms(2,4) mk have "stage_eqn eqn (map snd marks) True s = Inr s'"
      by (simp add: pe_eqn_def unzip2_def)
    from pe_inv_stage [OF assms(1) this assms(3) mk refl] show ?thesis by simp
  next
    case False
    let ?s1 = "s\<lparr>known_eqns := known_eqns s @ [eqn]\<rparr>"
    have "set (atom_vars (eqn_invars eqn)) \<subseteq> K0 \<union> outs_of (known_eqns s)"
    proof
      fix v assume "v \<in> set (atom_vars (eqn_invars eqn))"
      with pe_reads(1) [OF mk] obtain u i where "(u, i) \<in> set marks" "pe_env s v = Some (u, i)" by force
      moreover from this(1) False have "\<not> u" by (auto simp: list_ex_iff)
      ultimately show "v \<in> K0 \<union> outs_of (known_eqns s)" using assms(1) unfolding pe_inv_def by blast
    qed
    from pe_inv_known [OF assms(1,3) this] have inv1: "pe_inv Es K0 S0 ?s1" .
    from assms(2,4) mk False obtain answer pol where
      pol: "policy (primitive eqn) (map atom_aval (eqn_invars eqn)) (params eqn) = Inr answer"
        "ensure_enum answer = Inr pol"
      and s': "(if pe_has_effects (eqn_effects eqn) \<or> pol = Saveable
         then rfold (pe_write (False, False)) (eqn_outvars eqn) ?s1
         else case pol of Offloadable src dst \<Rightarrow> offload_eqn ops src dst eqn ?s1
           | _ \<Rightarrow> stage_eqn eqn (map snd marks) False ?s1) = Inr s'"
      by (auto simp: pe_eqn_def unzip2_def Let_def res_simps)
    have "\<not> (\<exists>a b. pol = Offloadable a b)"
      using pol assms(5) unfolding no_offload_def by (cases answer) (auto split: if_splits)
    then consider "rfold (pe_write (False, False)) (eqn_outvars eqn) ?s1 = Inr s'"
      | "stage_eqn eqn (map snd marks) False ?s1 = Inr s'"
      using s' by (cases pol) (auto split: if_splits)
    then show ?thesis
    proof cases
      case 1
      show ?thesis by (rule pe_inv_mark [OF inv1 1]) auto
    next
      case 2
      show ?thesis by (rule pe_inv_stage [OF inv1 2 assms(3) mk]) auto
    qed
  qed
qed

subsection \<open>The scan and the outputs\<close>

lemma pe_scan_inv:
  assumes "pe_scan ops fresh jaxpr in_unk in_inst policy = Inr (s, unk, inst)"
    and "\<forall>eqn \<in> set (eqns jaxpr). pe_rules ops (primitive eqn) = None" and "no_offload policy"
  shows "pe_inv (set (eqns jaxpr)) (set (constvars jaxpr) \<union> set (keep (map Not in_unk) (invars jaxpr)))
           (set (constvars jaxpr) \<union> set (keep in_inst (invars jaxpr))) s" (is "pe_inv ?Es ?K0 ?S0 s")
    and "\<exists>marks. rmap (pe_read s) (outvars jaxpr) = Inr marks \<and> unk = map fst marks \<and> inst = map snd marks"
proof -
  from assms(1) obtain s1 s2 marks where
    len: "length in_unk = length in_inst" and
    s1: "foreach2 pe_write (zip in_unk in_inst) (invars jaxpr) (pe_init fresh) = Inr s1" and
    s2: "rfold (pe_write (False, True)) (constvars jaxpr) s1 = Inr s2" and
    s: "rfold (pe_eqn ops policy) (eqns jaxpr) s2 = Inr s" and
    mk: "rmap (pe_read s) (outvars jaxpr) = Inr marks" "unk = map fst marks" "inst = map snd marks"
    by (auto simp: pe_scan_def unzip2_def safe_zip_def Let_def res_simps split: if_splits)
  have ins: "pe_inv ?Es ?K0 ?S0 t"
    if "foreach2 pe_write (zip us js) vs s0 = Inr t" "length us = length js" "pe_inv ?Es ?K0 ?S0 s0"
      "set (keep (map Not us) vs) \<subseteq> ?K0" "set (keep js vs) \<subseteq> ?S0" for us js vs s0 t
    using that
  proof (induction us js arbitrary: vs s0 rule: list_induct2')
    case (4 u us i js)
    from "4.prems"(1) obtain v vs' where vs: "vs = v # vs'" by (cases vs) auto
    with "4.prems"(1) have w: "(u, i) \<noteq> (True, False)"
      "foreach2 pe_write (zip us js) vs' (s0\<lparr>pe_env := (pe_env s0)(v \<mapsto> (u, i))\<rparr>) = Inr t"
      by (auto simp: res_simps)
    from w(1) have r: "rfold (pe_write (u, i)) [v] s0 = Inr (s0\<lparr>pe_env := (pe_env s0)(v \<mapsto> (u, i))\<rparr>)"
      by (simp add: res_simps)
    have "pe_inv ?Es ?K0 ?S0 (s0\<lparr>pe_env := (pe_env s0)(v \<mapsto> (u, i))\<rparr>)"
    proof (rule pe_inv_mark [OF "4.prems"(3) r])
      show "set [v] \<subseteq> ?K0 \<union> outs_of (known_eqns s0)" if "\<not> u"
        using "4.prems"(4) vs that by auto
      show "set [v] \<subseteq> ?S0 \<union> outs_of (staged_eqns s0)" if i
        using "4.prems"(5) vs that by auto
    qed
    from "4.IH" [OF w(2) _ this] "4.prems"(2,4,5) vs show ?case by (auto split: if_splits)
  next
    case 1
    then show ?case by (cases vs) simp_all
  qed simp_all
  have i0: "pe_inv ?Es ?K0 ?S0 (pe_init fresh)"
    by (simp add: pe_inv_def pe_init_def os_init_def) (simp add: os_inv_def)
  have i1: "pe_inv ?Es ?K0 ?S0 s1" by (rule ins [OF s1 len i0]) auto
  have i2: "pe_inv ?Es ?K0 ?S0 s2" by (rule pe_inv_mark [OF i1 s2]) auto
  show "pe_inv ?Es ?K0 ?S0 s"
    by (rule rfold_invariant [OF s, of "pe_inv ?Es ?K0 ?S0", OF i2])
       (use pe_eqn_inv assms(2,3) in blast)
  from mk show "\<exists>marks. rmap (pe_read s) (outvars jaxpr) = Inr marks \<and> unk = map fst marks \<and> inst = map snd marks"
    by blast
qed

lemma ensure_outputs_props:
  assumes "ensure_outputs xs inst ens s = Inr s'" and "os_inv (residuals s)"
  shows "pe_env s' = pe_env s" "known_eqns s' = known_eqns s" "staged_eqns s' = staged_eqns s"
    "residual_refs s' = residual_refs s" "os_inv (residuals s')"
    "elts_set (residuals s') =
       elts_set (residuals s) \<union> set (atom_vars (keep (map (\<lambda>(i, e). e \<and> \<not> i) (zip inst ens)) xs))"
    and "length xs = length (zip inst ens)"
proof -
  let ?step = "\<lambda>(x, i, ens) s. if ens then ensure_instantiated i x s else s"
  have loop: "pe_env t = pe_env s \<and> known_eqns t = known_eqns s \<and> staged_eqns t = staged_eqns s \<and>
      residual_refs t = residual_refs s \<and> os_inv (residuals t) \<and>
      elts_set (residuals t) = elts_set (residuals s) \<union> set (atom_vars (keep (map (\<lambda>(i, e). e \<and> \<not> i) ps) xs))"
    if "t = fold ?step (zip xs ps) s" "length xs = length ps" "os_inv (residuals s)" for ps xs t and s :: "('a, 'b) pe_state"
    using that(2,1,3)
  proof (induction xs ps arbitrary: s rule: list_induct2)
    case Nil
    then show ?case by simp
  next
    case (Cons x xs p ps)
    obtain i e where p: "p = (i, e)" by (cases p)
    let ?s = "if e then ensure_instantiated i x s else s"
    have t: "t = fold ?step (zip xs ps) ?s" using Cons.prems(1) p by simp
    have inv: "os_inv (residuals ?s)" using Cons.prems(2) by (cases x; cases i) auto
    from Cons.IH [OF t inv] p show ?case by (cases x; cases i; cases e) auto
  qed
  from assms(1) have len: "length xs = length (zip inst ens)" and s': "s' = fold ?step (zip xs (zip inst ens)) s"
    by (auto simp: ensure_outputs_def safe_zip_def split: if_splits)
  from loop [OF s' len assms(2)] len
  show "pe_env s' = pe_env s" "known_eqns s' = known_eqns s" "staged_eqns s' = staged_eqns s"
    "residual_refs s' = residual_refs s" "os_inv (residuals s')"
    "elts_set (residuals s') =
       elts_set (residuals s) \<union> set (atom_vars (keep (map (\<lambda>(i, e). e \<and> \<not> i) (zip inst ens)) xs))"
    "length xs = length (zip inst ens)"
    by blast+
qed

subsection \<open>Correctness\<close>

lemma keep_nth_avail:
  "length bs = length xs \<Longrightarrow> (\<And>i v. i < length xs \<Longrightarrow> bs ! i \<Longrightarrow> xs ! i = AVar v \<Longrightarrow> v \<in> D) \<Longrightarrow>
   set (atom_vars (keep bs xs)) \<subseteq> D"
  by (auto simp: set_atom_vars set_keep)

lemma zip_keep_subset: "length bs = length xs \<Longrightarrow> length xs = length ys \<Longrightarrow>
    set (zip (keep bs xs) (keep bs ys)) \<subseteq> set (zip xs ys)"
  using set_zip_partition [of bs xs ys] by auto

lemma zip_split: "length as = length bs \<Longrightarrow>
    set (zip (as @ xs) (bs @ ys)) = set (zip as bs) \<union> set (zip xs ys)"
  by simp

lemma partial_eval_correct_aux:
  assumes "partial_eval_jaxpr ops fresh jaxpr in_unk in_inst ens_unk ens_inst policy =
             Inr (known, staged, out_unk, out_inst, num_res, num_refs)"
    and "single_assignment jaxpr"
    and "\<forall>eqn \<in> set (eqns jaxpr). pure_eqn bind eqn \<and> one_result eqn \<and> pe_rules ops (primitive eqn) = None"
    and "no_offload policy"
    and "eval_spec bind chk jaxpr cs args st = Inr (outs, st')"
  shows "\<exists>res. length res = num_res \<and> num_refs = 0 \<and>
     eval_spec bind chk known cs (keep (map Not in_unk) args) st =
       Inr (keep (map Not out_unk) outs @ res, st) \<and>
     eval_spec bind chk staged cs (res @ keep in_inst args) st = Inr (keep out_inst outs, st)"
proof -
  from assms(1) obtain s0 unk0 inst0 s ke se where
    scan: "pe_scan ops fresh jaxpr in_unk in_inst policy = Inr (s0, unk0, inst0)" and
    ens: "ensure_outputs (outvars jaxpr) inst0 ens_inst s0 = Inr s" and
    ou: "safe_map2 (\<lambda>a b. Inr (a \<or> b)) unk0 ens_unk = Inr out_unk" and
    oi: "safe_map2 (\<lambda>a b. Inr (a \<or> b)) inst0 ens_inst = Inr out_inst" and
    lens: "length in_unk = length (invars jaxpr)" "length out_unk = length (outvars jaxpr)"
      "length in_inst = length (invars jaxpr)" "length out_inst = length (outvars jaxpr)" and
    num: "num_res = length (elts_list (residuals s))"
      "num_refs = length (filter (\<lambda>r. r \<notin> set (keep (map Not in_unk) (invars jaxpr))) (elts_list (residual_refs s)))" and
    known: "known = Jaxpr (constvars jaxpr)
        (keep (map Not in_unk) (invars jaxpr) @
         filter (\<lambda>r. r \<notin> set (keep (map Not in_unk) (invars jaxpr))) (elts_list (residual_refs s)))
        (keep (map Not out_unk) (outvars jaxpr) @ map AVar (elts_list (residuals s))) (known_eqns s) ke" and
    staged: "staged = Jaxpr (constvars jaxpr)
        (elts_list (residuals s) @
         filter (\<lambda>r. r \<notin> set (keep (map Not in_unk) (invars jaxpr))) (elts_list (residual_refs s)) @
         keep in_inst (invars jaxpr)) (keep out_inst (outvars jaxpr)) (staged_eqns s) se"
    by (auto simp: partial_eval_jaxpr_def partition_list_def partition_loop_keep Let_def res_simps
        split: if_splits)
  let ?K0 = "set (constvars jaxpr) \<union> set (keep (map Not in_unk) (invars jaxpr))"
  let ?S0 = "set (constvars jaxpr) \<union> set (keep in_inst (invars jaxpr))"
  have norules: "\<forall>eqn \<in> set (eqns jaxpr). pe_rules ops (primitive eqn) = None" using assms(3) by blast
  have inv: "pe_inv (set (eqns jaxpr)) ?K0 ?S0 s0" by (rule pe_scan_inv(1) [OF scan norules assms(4)])
  from pe_scan_inv(2) [OF scan norules assms(4)] obtain marks where
    mk: "rmap (pe_read s0) (outvars jaxpr) = Inr marks" "unk0 = map fst marks" "inst0 = map snd marks" by blast
  have lm: "length inst0 = length (outvars jaxpr)" "length unk0 = length (outvars jaxpr)"
    using rmap_length [OF mk(1)] mk(2,3) by simp_all
  have "os_inv (residuals s0)" using inv by (simp add: pe_inv_def)
  note ep = ensure_outputs_props [OF ens this]
  have ens_at: "(map (\<lambda>(i, e). e \<and> \<not> i) (zip inst0 ens_inst)) ! i = (ens_inst ! i \<and> \<not> inst0 ! i)"
    if "i < length (outvars jaxpr)" for i
    using that ep(7) by simp
  have marks: "\<not> u \<Longrightarrow> v \<in> ?K0 \<union> outs_of (known_eqns s)" "i \<Longrightarrow> v \<in> ?S0 \<union> outs_of (staged_eqns s)"
    "(u, i) \<noteq> (True, False)" if "pe_env s0 v = Some (u, i)" for v u i
    using inv ep that unfolding pe_inv_def by simp_all blast+
  have out_mark: "pe_env s0 v = Some (unk0 ! i, inst0 ! i)"
    if "i < length (outvars jaxpr)" "outvars jaxpr ! i = AVar v" for i v
    using mk that lm by (auto simp: rmap_Inr_iff split: option.splits dest!: spec [of _ i])
  have unk_or: "out_unk ! i = (unk0 ! i \<or> ens_unk ! i)" "out_inst ! i = (inst0 ! i \<or> ens_inst ! i)"
    if "i < length (outvars jaxpr)" for i
    using that lm ou oi safe_map2_length [OF ou] safe_map2_length [OF oi]
      safe_map2_pure [of unk0 ens_unk "(\<or>)"] safe_map2_pure [of inst0 ens_inst "(\<or>)"] by auto
  let ?R = "elts_list (residuals s)"
  have norefs: "filter (\<lambda>r. r \<notin> set (keep (map Not in_unk) (invars jaxpr))) (elts_list (residual_refs s)) = []"
    using inv ep by (simp add: pe_inv_def os_init_def)
  have setR: "set ?R = elts_set (residuals s)" using ep by (simp add: os_inv_def)
  have Rsub: "set ?R \<subseteq> ?K0 \<union> outs_of (known_eqns s)"
  proof
    fix v assume "v \<in> set ?R"
    with setR ep consider "v \<in> elts_set (residuals s0)"
      | "v \<in> set (atom_vars (keep (map (\<lambda>(i, e). e \<and> \<not> i) (zip inst0 ens_inst)) (outvars jaxpr)))" by blast
    then show "v \<in> ?K0 \<union> outs_of (known_eqns s)"
    proof cases
      case 1
      moreover have "elts_set (residuals s0) \<subseteq> ?K0 \<union> outs_of (known_eqns s)"
        using inv ep by (simp add: pe_inv_def)
      ultimately show ?thesis by blast
    next
      case 2
      then obtain i where i: "i < length (outvars jaxpr)" "\<not> inst0 ! i" "outvars jaxpr ! i = AVar v"
        using ep(7) ens_at by (auto simp: set_atom_vars set_keep)
      from marks(1,3) [OF out_mark [OF i(1,3)]] i(2) show ?thesis by auto
    qed
  qed
  from assms(5) obtain env E where r:
    "bind_inputs chk jaxpr cs args = Inr env" "run_eqns bind chk (eqns jaxpr) env st = Inr (E, st')"
    "rmap (read_atom E) (outvars jaxpr) = Inr outs"
    by (auto simp: eval_spec_Inr)
  from r(1) have ln: "length cs = length (constvars jaxpr)" "length args = length (invars jaxpr)"
    by (auto simp: bind_inputs_def res_simps dest!: foreach2_length)
  let ?vs = "constvars jaxpr @ invars jaxpr"
  have lv: "length ?vs = length (cs @ args)" using ln by simp
  have env: "env = map_of (rev (zip ?vs (cs @ args)))"
    and al: "list_all2 (\<lambda>v x. chk (vaval v) x) ?vs (cs @ args)"
    using r(1) ln by (auto simp only: bind_inputs_eq split: if_splits)
  have d: "distinct (map fst (rev (zip ?vs (cs @ args))))"
  proof -
    have "distinct ?vs" using assms(2) by (auto simp: single_assignment_def binders_def)
    moreover have "map fst (zip ?vs (cs @ args)) = ?vs" using lv by (rule map_fst_zip)
    ultimately show ?thesis by (simp only: rev_map [symmetric] distinct_rev)
  qed
  have envv: "env v = Some x \<and> chk (vaval v) x" if "(v, x) \<in> set (zip ?vs (cs @ args))" for v x
    using that d al unfolding env by (auto simp: list_all2_iff simp del: zip_append intro: map_of_is_SomeI)
  have domenv: "dom env \<subseteq> set ?vs"
    unfolding env by (auto dest!: map_of_SomeD set_zip_leftD simp del: zip_append)
  have disj: "set ?vs \<inter> outs_of (eqns jaxpr) = {}" "distinct (concat (map eqn_outvars (eqns jaxpr)))"
    using assms(2) unfolding single_assignment_def binders_def outs_of_def distinct_append by auto
  have ty: "env_typed chk env"
    unfolding env_typed_def env using al
    by (auto dest!: map_of_SomeD simp: list_all2_iff simp del: zip_append)
  have "\<forall>eqn \<in> set (eqns jaxpr). pure_eqn bind eqn \<and> one_result eqn" using assms(3) by blast
  moreover have "dom env \<inter> outs_of (eqns jaxpr) = {}" using domenv disj(1) by blast
  ultimately have h: "\<forall>eqn \<in> set (eqns jaxpr). holds bind chk E eqn" "env \<subseteq>\<^sub>m E" "st' = st" "env_typed chk E"
    using run_holds [OF r(2) _ disj(2) _ ty] by auto
  have EV: "chk (vaval v) x \<and> E v = Some x" if "(v, x) \<in> set (zip (constvars jaxpr) cs) \<union> set (zip (invars jaxpr) args)" for v x
  proof -
    from that have "(v, x) \<in> set (zip ?vs (cs @ args))" using ln by auto
    from envv [OF this] h(2) show ?thesis by (force simp: map_le_def)
  qed
  obtain e1 where e1: "foreach2 (write_var chk) (constvars jaxpr) cs Map.empty = Inr e1" "e1 \<subseteq>\<^sub>m E"
      "dom e1 = set (constvars jaxpr)"
    using foreach_write_le [of "constvars jaxpr" cs chk E Map.empty] ln EV by auto
  have kept: "\<exists>e'. foreach2 (write_var chk) (keep bs (invars jaxpr)) (keep bs args) e = Inr e' \<and> e' \<subseteq>\<^sub>m E \<and>
      dom e' = dom e \<union> set (keep bs (invars jaxpr))"
    if "length bs = length (invars jaxpr)" "e \<subseteq>\<^sub>m E" for bs e
  proof (rule foreach_write_le [OF _ _ that(2)])
    show "length (keep bs (invars jaxpr)) = length (keep bs args)"
      using that(1) ln by (intro length_keep_eq) simp_all
    have "set (zip (keep bs (invars jaxpr)) (keep bs args)) \<subseteq> set (zip (invars jaxpr) args)"
      using that(1) ln by (intro zip_keep_subset) simp_all
    with EV show "\<forall>(v, x) \<in> set (zip (keep bs (invars jaxpr)) (keep bs args)). chk (vaval v) x \<and> E v = Some x"
      by blast
  qed
  \<comment> \<open>the known part\<close>
  obtain e2 where e2: "foreach2 (write_var chk) (keep (map Not in_unk) (invars jaxpr)) (keep (map Not in_unk) args) e1 = Inr e2"
      "e2 \<subseteq>\<^sub>m E" "dom e2 = ?K0"
    using kept [of "map Not in_unk" e1] lens e1 by auto
  have sub: "set (known_eqns s) \<subseteq> set (eqns jaxpr)" "set (staged_eqns s) \<subseteq> set (eqns jaxpr)"
    "avail ?K0 (known_eqns s)" "avail (elts_set (residuals s0) \<union> ?S0) (staged_eqns s)"
    using inv ep unfolding pe_inv_def by simp_all
  obtain e3 where e3: "run_eqns bind chk (known_eqns s) e2 st = Inr (e3, st)" "e3 \<subseteq>\<^sub>m E"
      "dom e3 = ?K0 \<union> outs_of (known_eqns s)"
    using holds_run [of "known_eqns s" bind chk E e2 st] sub(1,3) h(1) e2(2,3) by auto
  have "set (atom_vars (keep (map Not out_unk) (outvars jaxpr))) \<subseteq> dom e3"
  proof (rule keep_nth_avail)
    fix i v assume "i < length (outvars jaxpr)" "map Not out_unk ! i" "outvars jaxpr ! i = AVar v"
    with marks(1) [OF out_mark] unk_or(1) lens e3(3) show "v \<in> dom e3" by auto
  qed (use lens in simp)
  then have out1: "rmap (read_atom e3) (keep (map Not out_unk) (outvars jaxpr)) = Inr (keep (map Not out_unk) outs)"
    using read_le [OF e3(2)] rmap_keep [OF r(3)] by simp
  let ?res = "map (\<lambda>v. the (E v)) ?R"
  have RE: "E v = Some (the (E v)) \<and> e3 v = E v" if "v \<in> set ?R" for v
  proof -
    from that Rsub e3(3) have "v \<in> dom e3" by blast
    with e3(2) show ?thesis by (force simp: map_le_def)
  qed
  have out2: "rmap (read_atom e3) (map AVar ?R) = Inr ?res"
  proof -
    have "rmap (read_atom e3) (map AVar vs) = Inr (map (\<lambda>v. the (E v)) vs)" if "set vs \<subseteq> set ?R" for vs
      using that
    proof (induction vs)
      case (Cons v vs)
      from Cons.prems RE [of v] have "read_atom e3 (AVar v) = Inr (the (E v))" by (auto split: option.splits)
      with Cons show ?case by simp
    qed simp
    then show ?thesis by blast
  qed
  have K: "eval_spec bind chk known cs (keep (map Not in_unk) args) st = Inr (keep (map Not out_unk) outs @ ?res, st)"
    using e1(1) e2(1) e3(1) out1 out2 norefs unfolding known
    by (simp add: eval_spec_def bind_inputs_def rmap_append)
  \<comment> \<open>the staged part\<close>
  obtain f1 where f1: "foreach2 (write_var chk) ?R ?res e1 = Inr f1" "f1 \<subseteq>\<^sub>m E" "dom f1 = set (constvars jaxpr) \<union> set ?R"
  proof -
    have "\<forall>(v, x) \<in> set (zip ?R ?res). chk (vaval v) x \<and> E v = Some x"
      using RE h(4) by (fastforce simp: set_zip env_typed_def)
    from foreach_write_le [OF _ this e1(2)] e1(3) that show thesis by auto
  qed
  obtain f2 where f2: "foreach2 (write_var chk) (keep in_inst (invars jaxpr)) (keep in_inst args) f1 = Inr f2"
      "f2 \<subseteq>\<^sub>m E" "dom f2 = elts_set (residuals s) \<union> ?S0"
    using kept [of in_inst f1] lens f1 setR by (auto simp: ac_simps)
  have wr: "foreach2 (write_var chk) (?R @ keep in_inst (invars jaxpr)) (?res @ keep in_inst args) e1 = Inr f2"
  proof -
    have app: "foreach2 g (as @ bs) (xs @ ys) z = rbind (foreach2 g as xs z) (foreach2 g bs ys)"
      if "length as = length xs" for g :: "'a1 \<Rightarrow> 'b1 \<Rightarrow> 'c1 \<Rightarrow> 'c1 res" and as bs xs ys z
      using that by (induction as xs arbitrary: z rule: list_induct2) (auto split: rbind_split)
    show ?thesis using f1(1) f2(1) by (simp add: app)
  qed
  have "avail (elts_set (residuals s) \<union> ?S0) (staged_eqns s)"
    by (rule avail_mono [OF sub(4)]) (use ep in blast)
  then obtain f3 where f3: "run_eqns bind chk (staged_eqns s) f2 st = Inr (f3, st)" "f3 \<subseteq>\<^sub>m E"
      "dom f3 = elts_set (residuals s) \<union> ?S0 \<union> outs_of (staged_eqns s)"
    using holds_run [of "staged_eqns s" bind chk E f2 st] sub(2) h(1) f2(2,3) by auto
  have "set (atom_vars (keep out_inst (outvars jaxpr))) \<subseteq> dom f3"
  proof (rule keep_nth_avail)
    fix i v assume i: "i < length (outvars jaxpr)" "out_inst ! i" "outvars jaxpr ! i = AVar v"
    have "v \<in> elts_set (residuals s)" if "\<not> inst0 ! i"
    proof -
      from that i unk_or(2) have "ens_inst ! i" by blast
      with that i ens_at ep(7) show ?thesis
        unfolding ep(6) by (auto simp: set_atom_vars set_keep intro!: exI [of _ i])
    qed
    then consider "inst0 ! i" | "v \<in> elts_set (residuals s)" by blast
    then show "v \<in> dom f3"
      using marks(2) [OF out_mark [OF i(1,3)]] f3(3) by cases auto
  qed (use lens in simp)
  then have "rmap (read_atom f3) (keep out_inst (outvars jaxpr)) = Inr (keep out_inst outs)"
    using read_le [OF f3(2)] rmap_keep [OF r(3)] by simp
  then have "eval_spec bind chk staged cs (?res @ keep in_inst args) st = Inr (keep out_inst outs, st)"
    using e1(1) wr f3(1) norefs unfolding staged by (simp add: eval_spec_def bind_inputs_def)
  with K num norefs show ?thesis by (intro exI [of _ ?res]) simp
qed

end
