(* ===== verification/JaxprExamples.thy ===== *)
theory JaxprExamples
  imports JaxprCheck JaxprDceCorrect JaxprPartialEvalCorrect
begin

text \<open>
  A small concrete instance of the jaxpr model, on which the properties are witnessed:
  integers as values, one type, an \<^verbatim>\<open>add\<close> primitive and an effectful \<^verbatim>\<open>tick\<close> that counts in
  the state; a program with a dead equation, one with a call, and one that forwards.
\<close>

definition add_p :: prim where
  "add_p = \<lparr>pname = ''add'', multiple_results = False, call_primitive = False,
     ref_primitive = False, ref_allocating = False\<rparr>"

definition tick_p :: prim where
  "tick_p = \<lparr>pname = ''tick'', multiple_results = False, call_primitive = False,
     ref_primitive = False, ref_allocating = False\<rparr>"

definition copy_p :: prim where
  "copy_p = \<lparr>pname = ''copy'', multiple_results = False, call_primitive = False,
     ref_primitive = False, ref_allocating = False\<rparr>"

definition ccall_p :: prim where
  "ccall_p = \<lparr>pname = ''closed_call'', multiple_results = True, call_primitive = True,
     ref_primitive = False, ref_allocating = False\<rparr>"

definition demo_base :: "(int, nat, int) bindfun" where
  "demo_base p ps args st =
     (if pname p = ''add''
      then (case args of [a, b] \<Rightarrow> Inr (Single (a + b), st) | _ \<Rightarrow> Inl (PrimError ''add''))
      else if pname p = ''copy''
      then (case args of [a] \<Rightarrow> Inr (Single a, st) | _ \<Rightarrow> Inl (PrimError ''copy''))
      else if pname p = ''tick''
      then (case args of [a] \<Rightarrow> Inr (Single (a + st), st + 1) | _ \<Rightarrow> Inl (PrimError ''tick''))
      else Inl (PrimError ''unknown''))"

definition demo_abstract ::
  "prim \<Rightarrow> (nat \<times> int option) list \<Rightarrow> (int, nat) params \<Rightarrow>
   ((int, nat) aval_qdd ans \<times> effect set \<times> (nat \<times> int) list) res" where
  "demo_abstract p avs ps =
     Inr (Single (0, None), (if pname p = ''tick'' then {GenericEffect ''io''} else {}), [])"

definition demo_ops :: "(int, nat) chk_ops" where
  "demo_ops = \<lparr>typematch = \<lambda>a b. Inr (a = b), typeof = \<lambda>_. 0, is_ref_aval = \<lambda>_. False,
     mutable_array_checks = True, key_reuse_checker = None, custom_typechecks = \<lambda>_. None,
     abstract_eval = demo_abstract\<rparr>"

abbreviation nv :: "nat \<Rightarrow> (int, nat) var" where
  "nv i \<equiv> Var i 0 None"

text \<open>\<open>{ lambda ; a b. let c = add a b; d = add c c; e = add a a in (d,) }\<close>: \<open>e\<close> is dead.\<close>

definition demo_jaxpr :: "(int, nat) jaxpr" where
  "demo_jaxpr = Jaxpr [] [nv 0, nv 1] [AVar (nv 3)]
     [JaxprEqn [AVar (nv 0), AVar (nv 1)] [nv 2] add_p [] {},
      JaxprEqn [AVar (nv 2), AVar (nv 2)] [nv 3] add_p [] {},
      JaxprEqn [AVar (nv 0), AVar (nv 0)] [nv 4] add_p [] {}] {}"

text \<open>A call of that jaxpr on \<open>a\<close> and \<open>b\<close>, of whose two results only the first is used.\<close>

definition demo_inner :: "(int, nat) jaxpr" where
  "demo_inner = Jaxpr [] [nv 0, nv 1] [AVar (nv 2), AVar (nv 3)]
     [JaxprEqn [AVar (nv 0), AVar (nv 0)] [nv 2] add_p [] {},
      JaxprEqn [AVar (nv 1), AVar (nv 1)] [nv 3] add_p [] {}] {}"

definition demo_call :: "(int, nat) jaxpr" where
  "demo_call = Jaxpr [] [nv 0, nv 1] [AVar (nv 12)]
     [JaxprEqn [AVar (nv 0), AVar (nv 1)] [nv 12, nv 13] ccall_p
        [(''call_jaxpr'', PClosed demo_inner [])] {}] {}"

text \<open>Two constants, the second of which the first output needs.\<close>

definition demo_consts :: "(int, nat) jaxpr" where
  "demo_consts = Jaxpr [nv 5, nv 6] [nv 0] [AVar (nv 2), AVar (nv 3)]
     [JaxprEqn [AVar (nv 6), AVar (nv 0)] [nv 2] add_p [] {},
      JaxprEqn [AVar (nv 5), AVar (nv 6)] [nv 3] add_p [] {}] {}"

text \<open>\<open>a\<close> is handed through two copies.\<close>

definition demo_fwd :: "(int, nat) jaxpr" where
  "demo_fwd = Jaxpr [] [nv 0, nv 1] [AVar (nv 3), AVar (nv 4)]
     [JaxprEqn [AVar (nv 1)] [nv 2] copy_p [] {},
      JaxprEqn [AVar (nv 2)] [nv 3] copy_p [] {},
      JaxprEqn [AVar (nv 0), AVar (nv 1)] [nv 4] add_p [] {}] {}"

definition copy_fwd :: "prim \<Rightarrow> (int, nat) fwd_rule option" where
  "copy_fwd p = (if pname p = ''copy'' then Some (\<lambda>eqn. Inr [if pname (primitive eqn) = ''copy'' then Some 0 else None]) else None)"

definition demo_pe :: "(int, nat) pe_ops" where
  "demo_pe = \<lparr>pe_rules = \<lambda>_. None, pe_is_ref = \<lambda>_. False, to_memory = \<lambda>_ t. t,
     in_memory = \<lambda>_ _. True, device_put_params = \<lambda>_ _. []\<rparr>"

definition recompute_all :: "(int, nat) policy" where
  "recompute_all p avs ps = Inr (BoolAnswer False)"

abbreviation no_checks :: "nat \<Rightarrow> int \<Rightarrow> bool" where
  "no_checks t x \<equiv> True"

lemmas demo_defs = demo_jaxpr_def demo_inner_def demo_call_def demo_fwd_def add_p_def copy_p_def
  tick_p_def ccall_p_def demo_base_def

lemma demo_base_no_call: "call_bind demo_base chk add_p ps args st = demo_base add_p ps args st"
  by (simp add: call_bind_base add_p_def)

lemma subjaxprs_demo [simp]: "subjaxprs demo_jaxpr = []" "subjaxprs demo_inner = []"
  by (simp_all add: subjaxprs_def demo_defs jaxprs_in_params_def)

lemma quiet_add: "primitive eqn = add_p \<Longrightarrow> quiet (call_bind demo_base chk) eqn"
  by (auto simp: quiet_def demo_base_no_call) (auto simp: demo_base_def add_p_def split: list.splits)

end
