(* ===== verification/JaxprProps.thy ===== *)
theory JaxprProps
  imports JaxprExamples
begin

text \<open>
  The properties of the jaxpr components, each with a witness on the programs of
  \<open>JaxprExamples\<close>: the interpreter, the type checker, dead code elimination, partial
  evaluation, and the transformations of whole jaxprs.
\<close>

subsection \<open>Facts about the example programs\<close>

lemma deep_demo_jaxpr: "deep_eqn demo_jaxpr eqn \<Longrightarrow> eqn \<in> set (eqns demo_jaxpr)"
  by (erule deep_eqn.cases) simp_all

lemma deep_demo_inner: "deep_eqn demo_inner eqn \<Longrightarrow> eqn \<in> set (eqns demo_inner)"
  by (erule deep_eqn.cases) simp_all

lemma sub_demo_call: "subjaxprs demo_call = [demo_inner]"
  by (simp add: subjaxprs_def demo_call_def jaxprs_in_params_def)

lemma deep_demo_call:
  "deep_eqn demo_call eqn \<Longrightarrow> eqn \<in> set (eqns demo_call) \<or> eqn \<in> set (eqns demo_inner)"
  by (erule deep_eqn.cases) (auto simp: sub_demo_call deep_demo_inner)

lemma add_state: "demo_base add_p ps args st = Inr (ans, st') \<Longrightarrow> st' = st"
  by (auto simp: demo_base_def add_p_def split: list.splits)

lemma demo_inner_quiet:
  "eval_jaxpr (call_bind demo_base no_checks) no_checks demo_inner cs args st = Inr (outs, st') \<Longrightarrow> st' = st"
proof -
  assume "eval_jaxpr (call_bind demo_base no_checks) no_checks demo_inner cs args st = Inr (outs, st')"
  then obtain env env' where "run_eqns (call_bind demo_base no_checks) no_checks (eqns demo_inner) env st = Inr (env', st')"
    unfolding eval_jaxpr_spec eval_spec_Inr by blast
  then show "st' = st"
    by (rule run_eqns_quiet) (auto simp: demo_inner_def demo_base_no_call dest: add_state)
qed

lemma dce_wf_add:
  "primitive eqn = add_p \<Longrightarrow> reads_ok (eqn_invars eqn) \<Longrightarrow> params eqn = [] \<Longrightarrow>
   dce_wf demo_base no_checks (\<lambda>_. None) eqn"
  by (simp add: dce_wf_def quiet_add jaxprs_in_params_def) (simp add: add_p_def)

lemma dce_wf_demo_call: "deep_eqn demo_call eqn \<Longrightarrow> dce_wf demo_base no_checks (\<lambda>_. None) eqn"
proof (drule deep_demo_call, elim disjE)
  assume "eqn \<in> set (eqns demo_inner)"
  then show ?thesis by (intro dce_wf_add) (auto simp: demo_inner_def)
next
  assume "eqn \<in> set (eqns demo_call)"
  then have eqn: "eqn = JaxprEqn [AVar (nv 0), AVar (nv 1)] [nv 12, nv 13] ccall_p
        [(''call_jaxpr'', PClosed demo_inner [])] {}" by (simp add: demo_call_def)
  have "call_bind demo_base no_checks ccall_p [(''call_jaxpr'', PClosed demo_inner [])] args st =
      rbind (eval_jaxpr (call_bind demo_base no_checks) no_checks demo_inner [] args st)
        (\<lambda>(outs, st'). Inr (Multiple outs, st'))" for args st
    by (rule call_bind_closed) (simp_all add: ccall_p_def)
  then have "quiet (call_bind demo_base no_checks) eqn"
    by (auto simp: quiet_def eqn res_simps dest: demo_inner_quiet)
  then show ?thesis
    by (simp add: dce_wf_def eqn jaxprs_in_params_def) (simp add: ccall_p_def demo_inner_def)
qed

lemma demo_add_sound:
  assumes "eqn \<in> set (eqns demo_jaxpr)" shows "prim_sound demo_ops demo_base eqn"
proof -
  from assms have eqn: "primitive eqn = add_p" "params eqn = []" "length (eqn_invars eqn) = 2"
    by (auto simp: demo_jaxpr_def)
  have "ots = [(0, None)]"
    if "eqn_type demo_ops (check_jaxpr demo_ops) eqn ia = Inr (ots, effs, upd)" for ia ots effs upd
    using that eqn
    by (auto simp: eqn_type_def check_eqn_def jaxprs_in_params_def demo_ops_def demo_abstract_def add_p_def)
  then show ?thesis
    by (fastforce simp: prim_sound_def eqn demo_base_def add_p_def of_type_def typecheck_def typecompat_def
        demo_ops_def split: list.splits)
qed

subsection \<open>The interpreter\<close>

text \<open>
  C4: \<open>eval_jaxpr\<close> frees every variable after the last equation that reads it. This is
  unobservable: results, state and exceptions are those of the interpreter that keeps every
  variable, for every program, well formed or not.
\<close>

theorem eval_jaxpr_eq_spec:
  "eval_jaxpr bind chk jaxpr cs args st = eval_spec bind chk jaxpr cs args st"
  by (rule eval_jaxpr_spec)

subsection \<open>Dead code elimination\<close>

text \<open>
  C1: elimination preserves meaning. Where the original run succeeds, the eliminated jaxpr,
  run on the inputs reported as used, returns exactly the outputs asked for and leaves the
  same state, through every level of nested calls. What is needed of the primitives is that
  an equation whose effects may be eliminated leaves the state unchanged.
\<close>

theorem dce_jaxpr_correct:
  assumes "dce_jaxpr extra jaxpr used inst = Inr (new, ins)"
    and "\<forall>eqn. deep_eqn jaxpr eqn \<longrightarrow> dce_wf base chk extra eqn" and "reads_ok (outvars jaxpr)"
    and "eval_jaxpr (call_bind base chk) chk jaxpr cs args st = Inr (outs, st')"
  shows "eval_jaxpr (call_bind base chk) chk new cs (keep ins args) st =
     Inr (keep (flag_list used (length (outvars jaxpr))) outs, st')"
  using dce_jaxpr_preserves [of jaxpr base chk extra] assms unfolding preserves_def by blast

theorem dce_jaxpr_correct_witness:
  "\<exists>new. dce_jaxpr (\<lambda>_. None) demo_call (FlagAll True) (FlagAll False) = Inr (new, [True, False]) \<and>
     length (eqns new) = 1 \<and>
     eval_jaxpr (call_bind demo_base no_checks) no_checks new [] [3] 7 = Inr ([6], 7)"
proof -
  obtain new where d: "dce_jaxpr (\<lambda>_. None) demo_call (FlagAll True) (FlagAll False) = Inr (new, [True, False])"
    and n: "length (eqns new) = 1"
  proof -
    have "(case dce_jaxpr (\<lambda>_. None) demo_call (FlagAll True) (FlagAll False) of
        Inr (new, ins) \<Rightarrow> ins = [True, False] \<and> length (eqns new) = 1 | _ \<Rightarrow> False)"
      by code_simp
    with that show thesis by (auto split: sum.splits)
  qed
  have e: "eval_jaxpr (call_bind demo_base no_checks) no_checks demo_call [] [3, 4] 7 = Inr ([6], 7)"
    by code_simp
  have r: "reads_ok (outvars demo_call)" by (simp add: demo_call_def)
  have w: "\<forall>eqn. deep_eqn demo_call eqn \<longrightarrow> dce_wf demo_base no_checks (\<lambda>_. None) eqn"
    using dce_wf_demo_call by blast
  from dce_jaxpr_correct [OF d w r e] d n show ?thesis by (simp add: demo_call_def)
qed

text \<open>
  Elimination that may also drop constants (\<^verbatim>\<open>dce_jaxpr_consts\<close>) preserves meaning: the
  new jaxpr run on the constants and inputs reported as used gives the outputs asked for.
\<close>

theorem dce_jaxpr_consts_correct:
  assumes "dce_jaxpr_consts extra jaxpr used inst = Inr (new, used_consts, used_inputs)"
    and "\<forall>eqn. deep_eqn jaxpr eqn \<longrightarrow> dce_wf base chk extra eqn" and "reads_ok (outvars jaxpr)"
    and "eval_jaxpr (call_bind base chk) chk jaxpr cs args st = Inr (outs, st')"
  shows "eval_jaxpr (call_bind base chk) chk new (keep used_consts cs) (keep used_inputs args) st =
     Inr (keep used outs, st')"
  by (rule dce_jaxpr_consts_preserves [OF assms(1) _ assms(3,4)]) (use assms(2) in blast)

theorem dce_jaxpr_consts_correct_witness:
  "\<exists>new. dce_jaxpr_consts (\<lambda>_. None) demo_consts [True, False] (FlagAll False)
       = Inr (new, [False, True], [True]) \<and>
     eval_jaxpr (call_bind demo_base no_checks) no_checks new [20] [3] 7 = Inr ([23], 7)"
proof -
  obtain new where d: "dce_jaxpr_consts (\<lambda>_. None) demo_consts [True, False] (FlagAll False)
      = Inr (new, [False, True], [True])"
  proof -
    have "(case dce_jaxpr_consts (\<lambda>_. None) demo_consts [True, False] (FlagAll False) of
        Inr (new, uc, ui) \<Rightarrow> uc = [False, True] \<and> ui = [True] | _ \<Rightarrow> False)"
      by code_simp
    with that show thesis by (auto split: sum.splits)
  qed
  have e: "eval_jaxpr (call_bind demo_base no_checks) no_checks demo_consts [10, 20] [3] 7 = Inr ([23, 30], 7)"
    by code_simp
  have r: "reads_ok (outvars demo_consts)" by (simp add: demo_consts_def)
  have w: "\<forall>eqn. deep_eqn demo_consts eqn \<longrightarrow> dce_wf demo_base no_checks (\<lambda>_. None) eqn"
  proof (intro allI impI)
    fix eqn assume "deep_eqn demo_consts eqn"
    moreover have "subjaxprs demo_consts = []" by (simp add: subjaxprs_def demo_consts_def jaxprs_in_params_def)
    ultimately have "eqn \<in> set (eqns demo_consts)" by (auto elim: deep_eqn.cases)
    then show "dce_wf demo_base no_checks (\<lambda>_. None) eqn"
      by (intro dce_wf_add) (auto simp: demo_consts_def)
  qed
  from dce_jaxpr_consts_correct [OF d w r e] d show ?thesis by simp
qed

subsection \<open>Partial evaluation\<close>

text \<open>
  C2: the split made by \<^verbatim>\<open>partial_eval_jaxpr_custom\<close> is correct, for single-assignment programs
  of pure primitives without rules of their own and a policy that saves or recomputes: the
  known part, run on the known inputs, returns the known outputs and the residuals; the
  staged part, run on the residuals and the instantiated inputs, returns the instantiated
  outputs of the original program.
\<close>

theorem partial_eval_jaxpr_custom_correct:
  assumes "partial_eval_jaxpr_custom ops fresh jaxpr in_unk in_inst ens_unk ens_inst policy =
             Inr (known, staged, out_unk, out_inst, num_res)"
    and "single_assignment jaxpr" and "no_offload policy"
    and "\<forall>eqn \<in> set (eqns jaxpr). pure_eqn bind eqn \<and> one_result eqn \<and> pe_rules ops (primitive eqn) = None"
    and "eval_jaxpr bind chk jaxpr cs args st = Inr (outs, st')"
  shows "\<exists>res. length res = num_res \<and>
     eval_jaxpr bind chk known cs (keep (map Not in_unk) args) st =
       Inr (keep (map Not out_unk) outs @ res, st) \<and>
     eval_jaxpr bind chk staged cs (res @ keep (flag_list in_inst (length (invars jaxpr))) args) st =
       Inr (keep out_inst outs, st)"
proof -
  from assms(1) obtain num_ref where
    "partial_eval_jaxpr ops fresh jaxpr in_unk (flag_list in_inst (length (invars jaxpr)))
       (flag_list ens_unk (length (outvars jaxpr))) (flag_list ens_inst (length (outvars jaxpr))) policy =
       Inr (known, staged, out_unk, out_inst, num_res, num_ref)"
    by (auto simp: partial_eval_jaxpr_custom_def partial_eval_jaxpr_stateful_def res_simps split: if_splits)
  from partial_eval_correct_aux [OF this assms(2,4,3)] assms(5) show ?thesis
    unfolding eval_jaxpr_spec by blast
qed

theorem partial_eval_jaxpr_custom_correct_witness:
  "\<exists>known staged res. partial_eval_jaxpr_custom demo_pe 100 demo_jaxpr [False, True] (FlagSeq [False, True])
        (FlagAll False) (FlagAll True) recompute_all = Inr (known, staged, [True], [True], 1) \<and>
     length (eqns known) = 1 \<and> length (eqns staged) = 3 \<and> length res = 1 \<and>
     eval_jaxpr demo_base no_checks known [] [3] 0 = Inr (res, 0) \<and>
     eval_jaxpr demo_base no_checks staged [] (res @ [4]) 0 = Inr ([14], 0)"
proof -
  obtain known staged where d: "partial_eval_jaxpr_custom demo_pe 100 demo_jaxpr [False, True] (FlagSeq [False, True])
        (FlagAll False) (FlagAll True) recompute_all = Inr (known, staged, [True], [True], 1)"
    and n: "length (eqns known) = 1" "length (eqns staged) = 3"
  proof -
    have "(case partial_eval_jaxpr_custom demo_pe 100 demo_jaxpr [False, True] (FlagSeq [False, True])
        (FlagAll False) (FlagAll True) recompute_all of
        Inr (k, s, ou, oi, r) \<Rightarrow> ou = [True] \<and> oi = [True] \<and> r = 1 \<and> length (eqns k) = 1 \<and> length (eqns s) = 3
      | _ \<Rightarrow> False)" by code_simp
    with that show thesis by (auto split: sum.splits)
  qed
  have e: "eval_jaxpr demo_base no_checks demo_jaxpr [] [3, 4] 0 = Inr ([14], 0)" by code_simp
  have ssa: "single_assignment demo_jaxpr" by (simp add: single_assignment_def binders_def demo_jaxpr_def)
  have no: "no_offload recompute_all" by (simp add: no_offload_def recompute_all_def)
  have pu: "\<forall>eqn \<in> set (eqns demo_jaxpr). pure_eqn demo_base eqn \<and> one_result eqn \<and>
      pe_rules demo_pe (primitive eqn) = None"
    by (auto simp: demo_jaxpr_def pure_eqn_def one_result_def demo_pe_def)
       (auto simp: demo_base_def add_p_def split: list.splits)
  from partial_eval_jaxpr_custom_correct [OF d ssa no pu e] d n show ?thesis
    by (auto simp: demo_jaxpr_def)
qed

subsection \<open>The type checker\<close>

text \<open>
  C3: soundness of \<^verbatim>\<open>check_jaxpr\<close>. A jaxpr that checks, run on values that conform to its input types with
  primitives that respect their typing rules, either stops with an exception of a primitive
  or returns values that conform to its output types: no variable is read before it is bound, no
  operand list has the wrong length, no write fails its type check. Nothing is assumed of \<^verbatim>\<open>typematch\<close>:
  a value conforms to a type when a chain of matching types leads to its own. The optional checks of values
  while evaluating (\<open>chk\<close>, off by default) must accept values that conform.
\<close>

theorem check_jaxpr_sound:
  assumes "check_jaxpr ops jaxpr = Inr ()" and "chk_implied ops chk"
    and "\<forall>eqn \<in> set (eqns jaxpr). prim_sound ops bind eqn"
    and "list_all2 (of_type ops) (map vaval (constvars jaxpr)) cs"
    and "list_all2 (of_type ops) (in_avals jaxpr) args"
  shows "case eval_jaxpr bind chk jaxpr cs args st of
           Inl e \<Rightarrow> \<exists>m. e = PrimError m
         | Inr (outs, _) \<Rightarrow> list_all2 (of_type ops) (out_avals jaxpr) outs"
  using check_jaxpr_sound_aux [OF assms(2,3,1,4,5)] unfolding typed_run_def eval_jaxpr_spec .

theorem check_jaxpr_sound_witness:
  "check_jaxpr demo_ops demo_jaxpr = Inr () \<and>
   (case eval_jaxpr demo_base no_checks demo_jaxpr [] [3, 4] 0 of
      Inl e \<Rightarrow> \<exists>m. e = PrimError m
    | Inr (outs, _) \<Rightarrow> list_all2 (of_type demo_ops) (out_avals demo_jaxpr) outs)"
proof -
  have c: "check_jaxpr demo_ops demo_jaxpr = Inr ()" by code_simp
  have i: "chk_implied demo_ops no_checks" by (simp add: chk_implied_def)
  have p: "\<forall>eqn \<in> set (eqns demo_jaxpr). prim_sound demo_ops demo_base eqn"
    using demo_add_sound by blast
  have t: "of_type demo_ops 0 x" for x
    by (intro typecheck_of_type) (simp add: typecheck_def typecompat_def demo_ops_def)
  have a: "list_all2 (of_type demo_ops) (map vaval (constvars demo_jaxpr)) []"
    "list_all2 (of_type demo_ops) (in_avals demo_jaxpr) [3, 4]"
    by (simp_all add: demo_jaxpr_def in_avals_def t)
  from check_jaxpr_sound [OF c i p a, of 0] c show ?thesis by blast
qed

subsection \<open>Transformations of whole jaxprs\<close>

text \<open>
  C5: what \<^verbatim>\<open>_jaxpr_forwarding\<close> reports is true: an output it maps to input \<open>k\<close> has the value of
  argument \<open>k\<close> in every successful run, for single-assignment programs and forwarding rules
  that only forward results equal to the operand they name.
\<close>

theorem jaxpr_forwarding_correct:
  assumes "jaxpr_forwarding rules jaxpr = Inr idxs" and "single_assignment jaxpr"
    and "\<forall>p rule. rules p = Some rule \<longrightarrow> fwd_rule_sound bind rule"
    and "eval_jaxpr bind chk jaxpr cs args st = Inr (outs, st')"
    and "i < length idxs" and "idxs ! i = Some k"
  shows "k < length args \<and> outs ! i = args ! k"
proof -
  from assms(4) have "eval_spec bind chk jaxpr cs args st = Inr (outs, st')" by (simp add: eval_jaxpr_spec)
  from jaxpr_forwarding_sound_aux [OF assms(1-3) this _ _ assms(5,6)] eval_spec_lengths [OF this]
  show ?thesis by simp
qed

theorem jaxpr_forwarding_correct_witness:
  "jaxpr_forwarding copy_fwd demo_fwd = Inr [Some 1, None] \<and>
   eval_jaxpr demo_base no_checks demo_fwd [] [3, 4] 0 = Inr ([4, 7], 0) \<and> [4, 7] ! 0 = ([3, 4] :: int list) ! 1"
proof -
  have f: "jaxpr_forwarding copy_fwd demo_fwd = Inr [Some 1, None]" by code_simp
  have s: "single_assignment demo_fwd" by (simp add: single_assignment_def binders_def demo_fwd_def)
  have r: "\<forall>p rule. copy_fwd p = Some rule \<longrightarrow> fwd_rule_sound demo_base rule"
    by (auto simp: copy_fwd_def fwd_rule_sound_def demo_base_def py_get_def less_Suc_eq
        split: if_splits list.splits)
  have e: "eval_jaxpr demo_base no_checks demo_fwd [] [3, 4] 0 = Inr ([4, 7], 0)" by code_simp
  from jaxpr_forwarding_correct [OF f s r e, of 0 1] f e show ?thesis by simp
qed

text \<open>
  An output forwarded from a literal is not reported as such but raises: the dictionary
  of input positions is asked for a \<^verbatim>\<open>Literal\<close>, which is not hashable.
\<close>

theorem jaxpr_forwarding_of_literal_raises:
  "jaxpr_forwarding copy_fwd
     (Jaxpr [] [nv 0] [AVar (nv 1)] [JaxprEqn [ALit 5 0] [nv 1] copy_p [] {}] {}) =
   Inl (TypeError ''unhashable type: Literal'')"
  by code_simp

text \<open>
  Reordering the inputs (\<^verbatim>\<open>move_binders_to_front\<close>) is a renaming of positions: the new
  jaxpr on the reordered arguments is the old one on the original arguments.
\<close>

theorem move_binders_to_front_correct:
  assumes "move_binders_to_front c to_move = Inr c'"
    and "single_assignment (cjaxpr c)"
    and "length (jconsts c) = length (constvars (cjaxpr c))" and "length args = length (invars (cjaxpr c))"
  shows "jaxpr_as_fun bind chk c' (move_to_front args to_move) st = jaxpr_as_fun bind chk c args st"
  by (rule move_binders_to_front_eval [OF assms(1) _ assms(3,4)])
     (use assms(2) in \<open>auto simp: single_assignment_def binders_def\<close>)

theorem move_binders_to_front_correct_witness:
  "\<exists>c'. move_binders_to_front (ClosedJaxpr demo_fwd []) [False, True] = Inr c' \<and>
     jaxpr_as_fun demo_base no_checks c' [4, 3] 0 = Inr ([4, 7], 0)"
proof -
  have "isl (move_binders_to_front (ClosedJaxpr demo_fwd []) [False, True]) = False" by code_simp
  then obtain c' where c': "move_binders_to_front (ClosedJaxpr demo_fwd []) [False, True] = Inr c'"
    by (cases "move_binders_to_front (ClosedJaxpr demo_fwd []) [False, True]") auto
  have s: "single_assignment (cjaxpr (ClosedJaxpr demo_fwd ([] :: int list)))"
    by (simp add: single_assignment_def binders_def demo_fwd_def)
  have l: "length (jconsts (ClosedJaxpr demo_fwd [])) = length (constvars (cjaxpr (ClosedJaxpr demo_fwd ([] :: int list))))"
    "length [3, 4 :: int] = length (invars (cjaxpr (ClosedJaxpr demo_fwd ([] :: int list))))"
    by (simp_all add: demo_fwd_def)
  have e: "jaxpr_as_fun demo_base no_checks (ClosedJaxpr demo_fwd []) [3, 4] 0 = Inr ([4, 7], 0)" by code_simp
  from move_binders_to_front_correct [OF c' s l, of demo_base no_checks 0] e c' show ?thesis
    by (simp add: move_to_front_def)
qed

text \<open>
  The renumbering that goes with a reordering is right: an input effect of the new jaxpr
  names the variable the corresponding effect of the old jaxpr named.
\<close>

theorem renumber_effects_names_same_variable:
  assumes "renumber_effects new old effs = Inr effs'" and "e' \<in> effs'" and "is_input_effect e'"
  shows "\<exists>e \<in> effs. is_input_effect e \<and> e' = replace_index e (input_index e') \<and>
     nat (input_index e') < length new \<and> new ! nat (input_index e') = old ! nat (input_index e)"
  using renumber_effects_same_var [OF assms] by blast

theorem renumber_effects_names_same_variable_witness:
  "renumber_effects [nv 1, nv 0] [nv 0, nv 1] {ReadEffect 1} = Inr {ReadEffect 0} \<and>
   (\<exists>e \<in> {ReadEffect 1}. is_input_effect e \<and> ReadEffect 0 = replace_index e (input_index (ReadEffect 0)) \<and>
      nat (input_index (ReadEffect 0)) < length [nv 1, nv 0] \<and>
      [nv 1, nv 0] ! nat (input_index (ReadEffect 0)) = [nv 0, nv 1] ! nat (input_index e))"
proof -
  have r: "renumber_effects [nv 1, nv 0] [nv 0, nv 1] {ReadEffect 1} = Inr {ReadEffect 0}"
    by (simp add: renumber_effects_def var_positions_def)
  from renumber_effects_names_same_variable [OF this, of "ReadEffect 0"] r show ?thesis by simp
qed

text \<open>
  \<^verbatim>\<open>separate_consts\<close> hands the constants over as leading arguments: the result, applied to
  them, computes what the closed jaxpr computed.
\<close>

theorem separate_consts_correct:
  assumes "separate_consts c = Inr (c', cs)" and "length (jconsts c) = length (constvars (cjaxpr c))"
    and "length args = length (invars (cjaxpr c))"
  shows "jaxpr_as_fun bind chk c' (cs @ args) st = jaxpr_as_fun bind chk c args st"
  by (rule separate_consts_eval [OF assms])

theorem separate_consts_correct_witness:
  "\<exists>c'. separate_consts (ClosedJaxpr demo_consts [10, 20]) = Inr (c', [10, 20]) \<and>
     jaxpr_as_fun demo_base no_checks c' ([10, 20] @ [3]) 0 = Inr ([23, 30], 0)"
proof -
  obtain c' where c': "separate_consts (ClosedJaxpr demo_consts [10, 20]) = Inr (c', [10, 20])"
    by (auto simp: separate_consts_def close_jaxpr_def mk_closed_jaxpr_def convert_constvars_jaxpr_def)
  have l: "length (jconsts (ClosedJaxpr demo_consts [10, 20])) = length (constvars (cjaxpr (ClosedJaxpr demo_consts [10, 20 :: int])))"
    "length [3 :: int] = length (invars (cjaxpr (ClosedJaxpr demo_consts [10, 20 :: int])))"
    by (simp_all add: demo_consts_def)
  have e: "jaxpr_as_fun demo_base no_checks (ClosedJaxpr demo_consts [10, 20]) [3] 0 = Inr ([23, 30], 0)"
    by code_simp
  from separate_consts_correct [OF c' l, of demo_base no_checks 0] e c' show ?thesis by simp
qed

text \<open>
  The input effects inferred for a jaxpr by \<^verbatim>\<open>make_jaxpr_effects\<close> point at one of its
  constants or inputs, never beyond them and never before the first.
\<close>

theorem make_jaxpr_effects_in_range:
  assumes "make_jaxpr_effects cvs ivs es = Inr effs" and "eff \<in> effs" and "is_input_effect eff"
  shows "0 \<le> input_index eff \<and> input_index eff < int (length cvs + length ivs)"
  using make_jaxpr_effects_range [OF assms(1)] assms(2,3) by (auto simp: effs_in_range_def)

theorem make_jaxpr_effects_in_range_witness:
  "make_jaxpr_effects [nv 5] [nv 0, nv 1] [JaxprEqn [AVar (nv 0), AVar (nv 1)] [nv 2] add_p [] {WriteEffect 1}]
     = Inr {WriteEffect 2} \<and> 0 \<le> input_index (WriteEffect 2) \<and>
   input_index (WriteEffect 2) < int (length [nv 5] + length [nv 0, nv 1])"
proof -
  have "make_jaxpr_effects [nv 5] [nv 0, nv 1] [JaxprEqn [AVar (nv 0), AVar (nv 1)] [nv 2] add_p [] {WriteEffect 1}]
     = Inr {WriteEffect 2}"
    by (simp add: make_jaxpr_effects_def eff_targets_def eff_target_def var_positions_def add_p_def py_get_def)
  from make_jaxpr_effects_in_range [OF this, of "WriteEffect 2"] this show ?thesis by simp
qed

end
