(* ===== verification/Comparator.thy ===== *)
theory Comparator
  imports Prelude
begin

text \<open>
  The comparison functions of \<^verbatim>\<open>jax/_src/export/shape_poly.py\<close> and the merge of sorted lists
  of pairs built on them. A comparison returns -1, 0 or 1; the locale \<open>comparator_on\<close>
  states what makes one a linear order on a set, and the merge
  \<^verbatim>\<open>_DimExpr._linear_combination_sorted_pairs\<close> is proved correct once for every such
  comparison: the source uses it on the factors of a term and on the terms of an expression.
\<close>

subsection \<open>Comparing values and sequences\<close>

definition cmp_comparable :: "'a::linorder \<Rightarrow> 'a \<Rightarrow> int" where
  "cmp_comparable i1 i2 = (if i1 < i2 then -1 else if i1 > i2 then 1 else 0)"

fun cmp_sequence :: "('a \<Rightarrow> 'a \<Rightarrow> int) \<Rightarrow> 'a list \<Rightarrow> 'a list \<Rightarrow> int" where
  "cmp_sequence elem_cmp [] [] = 0"
| "cmp_sequence elem_cmp [] (y # ys) = -1"
| "cmp_sequence elem_cmp (x # xs) [] = 1"
| "cmp_sequence elem_cmp (x # xs) (y # ys) =
     (let c = elem_cmp x y in if c \<noteq> 0 then c else cmp_sequence elem_cmp xs ys)"

lemma cmp_sequence_cong [fundef_cong]:
  "xs = xs' \<Longrightarrow> ys = ys' \<Longrightarrow> (\<And>x y. x \<in> set xs' \<Longrightarrow> y \<in> set ys' \<Longrightarrow> f x y = g x y) \<Longrightarrow>
     cmp_sequence f xs ys = cmp_sequence g xs' ys'"
  by (induction f xs ys arbitrary: xs' ys' rule: cmp_sequence.induct) (auto simp: Let_def)

lemma cmp_sequence_induct [case_names 1 2 3 4]:
  assumes "P [] []" "\<And>y ys. P [] (y # ys)" "\<And>x xs. P (x # xs) []"
    "\<And>x xs y ys. P xs ys \<Longrightarrow> P (x # xs) (y # ys)"
  shows "P xs ys"
proof (induction xs arbitrary: ys)
  case Nil
  then show ?case using assms(1,2) by (cases ys) auto
next
  case (Cons x xs)
  then show ?case using assms(3,4) by (cases ys) auto
qed

text \<open>The source compares pairs by their first component and then by the number in the second.\<close>

definition cmp_pair :: "('a \<Rightarrow> 'a \<Rightarrow> int) \<Rightarrow> 'a \<times> int \<Rightarrow> 'a \<times> int \<Rightarrow> int" where
  "cmp_pair c p q = (if c (fst p) (fst q) \<noteq> 0 then c (fst p) (fst q) else cmp_comparable (snd p) (snd q))"

text \<open>A comparison by a key, such as the size, that falls back on another one.\<close>

definition cmp_by :: "('a \<Rightarrow> 'k::linorder) \<Rightarrow> ('a \<Rightarrow> 'a \<Rightarrow> int) \<Rightarrow> 'a \<Rightarrow> 'a \<Rightarrow> int" where
  "cmp_by k c x y = (if cmp_comparable (k x) (k y) \<noteq> 0 then cmp_comparable (k x) (k y) else c x y)"

lemma cmp_comparable_simps [simp]:
  "cmp_comparable x x = 0"
  "cmp_comparable x y = 0 \<longleftrightarrow> x = y"
  "cmp_comparable x y < 0 \<longleftrightarrow> x < y"
  "0 < cmp_comparable x y \<longleftrightarrow> y < x"
  by (auto simp: cmp_comparable_def)

lemma cmp_by_less: "cmp_by k c x y < 0 \<longleftrightarrow> k x < k y \<or> k x = k y \<and> c x y < 0"
  by (auto simp: cmp_by_def)

lemma cmp_comparable_sym: "cmp_comparable y x = - cmp_comparable x y"
  by (auto simp: cmp_comparable_def)

subsection \<open>Comparisons that are linear orders\<close>

locale comparator_on =
  fixes A :: "'a set" and cmp :: "'a \<Rightarrow> 'a \<Rightarrow> int"
  assumes cmp_sym: "x \<in> A \<Longrightarrow> y \<in> A \<Longrightarrow> cmp y x = - cmp x y"
    and cmp_eq: "x \<in> A \<Longrightarrow> y \<in> A \<Longrightarrow> cmp x y = 0 \<longleftrightarrow> x = y"
    and cmp_trans: "x \<in> A \<Longrightarrow> y \<in> A \<Longrightarrow> z \<in> A \<Longrightarrow> cmp x y < 0 \<Longrightarrow> cmp y z < 0 \<Longrightarrow> cmp x z < 0"
begin

lemma cmp_refl: "x \<in> A \<Longrightarrow> cmp x x = 0"
  by (simp add: cmp_eq)

lemma cmp_le_trans:
  assumes "x \<in> A" "y \<in> A" "z \<in> A" "cmp x y \<le> 0" "cmp y z \<le> 0"
  shows "cmp x z \<le> 0"
proof -
  have "cmp x y < 0 \<or> x = y" "cmp y z < 0 \<or> y = z"
    using assms cmp_eq [of x y] cmp_eq [of y z] by force+
  then show ?thesis using cmp_trans [of x y z] assms by auto
qed

lemma sequence_sym:
  "set xs \<subseteq> A \<Longrightarrow> set ys \<subseteq> A \<Longrightarrow> cmp_sequence cmp ys xs = - cmp_sequence cmp xs ys"
proof (induction xs ys rule: cmp_sequence_induct)
  case (4 x xs y ys)
  then have "cmp y x = - cmp x y" by (intro cmp_sym) auto
  with 4 show ?case by (simp add: Let_def)
qed simp_all

lemma sequence_eq:
  "set xs \<subseteq> A \<Longrightarrow> set ys \<subseteq> A \<Longrightarrow> cmp_sequence cmp xs ys = 0 \<longleftrightarrow> xs = ys"
proof (induction xs ys rule: cmp_sequence_induct)
  case (4 x xs y ys)
  then have "cmp x y = 0 \<longleftrightarrow> x = y" by (intro cmp_eq) auto
  with 4 show ?case by (simp add: Let_def)
qed simp_all

lemma comparator_sequence: "comparator_on {xs. set xs \<subseteq> A} (cmp_sequence cmp)"
proof
  fix xs ys assume "xs \<in> {xs. set xs \<subseteq> A}" "ys \<in> {xs. set xs \<subseteq> A}"
  then have s: "set xs \<subseteq> A" "set ys \<subseteq> A" by simp_all
  show "cmp_sequence cmp ys xs = - cmp_sequence cmp xs ys" using s by (rule sequence_sym)
  show "(cmp_sequence cmp xs ys = 0) = (xs = ys)" using s by (rule sequence_eq)
next
  have "set xs \<subseteq> A \<Longrightarrow> set ys \<subseteq> A \<Longrightarrow> set zs \<subseteq> A \<Longrightarrow>
      cmp_sequence cmp xs ys < 0 \<Longrightarrow> cmp_sequence cmp ys zs < 0 \<Longrightarrow> cmp_sequence cmp xs zs < 0" for xs ys zs
  proof (induction xs arbitrary: ys zs)
    case Nil
    then show ?case by (cases ys; cases zs) auto
  next
    case (Cons x xs)
    from Cons.prems(4) obtain y ys' where ys: "ys = y # ys'" by (cases ys) auto
    from Cons.prems(5) ys obtain z zs' where zs: "zs = z # zs'" by (cases zs) auto
    have A: "x \<in> A" "y \<in> A" "z \<in> A" "set xs \<subseteq> A" "set ys' \<subseteq> A" "set zs' \<subseteq> A"
      using Cons.prems(1-3) ys zs by auto
    note eqs = cmp_eq [OF A(1,2)] cmp_eq [OF A(2,3)] cmp_eq [OF A(1,3)]
    have "cmp x y < 0 \<or> x = y \<and> cmp_sequence cmp xs ys' < 0"
      using Cons.prems(4) ys eqs by (auto simp: Let_def split: if_splits)
    moreover have "cmp y z < 0 \<or> y = z \<and> cmp_sequence cmp ys' zs' < 0"
      using Cons.prems(5) ys zs eqs by (auto simp: Let_def split: if_splits)
    ultimately show ?case
      using Cons.IH [OF A(4-6)] cmp_trans [OF A(1-3)] zs eqs by (auto simp: Let_def)
  qed
  then show "xs \<in> {xs. set xs \<subseteq> A} \<Longrightarrow> ys \<in> {xs. set xs \<subseteq> A} \<Longrightarrow> zs \<in> {xs. set xs \<subseteq> A} \<Longrightarrow>
      cmp_sequence cmp xs ys < 0 \<Longrightarrow> cmp_sequence cmp ys zs < 0 \<Longrightarrow> cmp_sequence cmp xs zs < 0" for xs ys zs
    by blast
qed

lemma comparator_pair: "comparator_on (A \<times> UNIV) (cmp_pair cmp)"
proof
  fix p q r :: "'a \<times> int"
  assume A: "p \<in> A \<times> UNIV" "q \<in> A \<times> UNIV"
  then have P: "fst p \<in> A" "fst q \<in> A" by auto
  note eqs = cmp_sym [OF P] cmp_eq [OF P] cmp_comparable_sym [of "snd q" "snd p"]
  show "cmp_pair cmp q p = - cmp_pair cmp p q"
    unfolding cmp_pair_def using eqs by simp
  show "cmp_pair cmp p q = 0 \<longleftrightarrow> p = q"
    unfolding cmp_pair_def prod_eq_iff using eqs by simp
  assume "r \<in> A \<times> UNIV" and l: "cmp_pair cmp p q < 0" "cmp_pair cmp q r < 0"
  then have R: "fst r \<in> A" by auto
  have "cmp (fst p) (fst q) < 0 \<or> fst p = fst q \<and> snd p < snd q"
    "cmp (fst q) (fst r) < 0 \<or> fst q = fst r \<and> snd q < snd r"
    using l eqs cmp_eq [OF P(2) R] unfolding cmp_pair_def by (simp_all split: if_splits)
  then show "cmp_pair cmp p r < 0"
    using cmp_trans [OF P R] cmp_eq [OF P(1) R] unfolding cmp_pair_def by auto
qed

lemma comparator_by: "comparator_on A (cmp_by k cmp)"
proof
  fix x y z assume A: "x \<in> A" "y \<in> A"
  note eqs = cmp_sym [OF A] cmp_eq [OF A] cmp_comparable_sym [of "k y" "k x"]
  show "cmp_by k cmp y x = - cmp_by k cmp x y"
    unfolding cmp_by_def using eqs by simp
  show "cmp_by k cmp x y = 0 \<longleftrightarrow> x = y"
    unfolding cmp_by_def using eqs by auto
  assume "z \<in> A" and l: "cmp_by k cmp x y < 0" "cmp_by k cmp y z < 0"
  have "k x < k y \<or> k x = k y \<and> cmp x y < 0" "k y < k z \<or> k y = k z \<and> cmp y z < 0"
    using l unfolding cmp_by_def by (simp_all split: if_splits)
  moreover have "cmp x z < 0" if "cmp x y < 0" "cmp y z < 0"
    using cmp_trans [OF A \<open>z \<in> A\<close> that] .
  ultimately have "k x < k z \<or> k x = k z \<and> cmp x z < 0" using less_trans [of "k x" "k y" "k z"] by (elim disjE conjE) simp_all
  then show "cmp_by k cmp x z < 0" unfolding cmp_by_def by auto
qed

end

lemma comparator_on_subset: "comparator_on A cmp \<Longrightarrow> B \<subseteq> A \<Longrightarrow> comparator_on B cmp"
proof (rule comparator_on.intro)
  assume c: "comparator_on A cmp" and "B \<subseteq> A"
  then have A: "x \<in> B \<Longrightarrow> x \<in> A" for x by auto
  show "x \<in> B \<Longrightarrow> y \<in> B \<Longrightarrow> cmp y x = - cmp x y" for x y
    by (rule comparator_on.cmp_sym [OF c A A])
  show "x \<in> B \<Longrightarrow> y \<in> B \<Longrightarrow> cmp x y = 0 \<longleftrightarrow> x = y" for x y
    by (rule comparator_on.cmp_eq [OF c A A])
  show "x \<in> B \<Longrightarrow> y \<in> B \<Longrightarrow> z \<in> B \<Longrightarrow> cmp x y < 0 \<Longrightarrow> cmp y z < 0 \<Longrightarrow> cmp x z < 0" for x y z
    by (rule comparator_on.cmp_trans [OF c A A A])
qed

subsection \<open>Merging sorted lists of pairs\<close>

text \<open>
  \<^verbatim>\<open>_linear_combination_sorted_pairs\<close>; the model takes the rests \<open>pairs1[i1:]\<close> and
  \<open>pairs2[i2:]\<close> in place of the indices.
\<close>

fun linear_combination_sorted_pairs ::
  "('a \<Rightarrow> 'a \<Rightarrow> int) \<Rightarrow> ('a \<times> int) list \<Rightarrow> int \<Rightarrow> ('a \<times> int) list \<Rightarrow> int \<Rightarrow> ('a \<times> int) list" where
  "linear_combination_sorted_pairs cmp ((m1, c1) # ps1) f1 ((m2, c2) # ps2) f2 =
     (let c = cmp m1 m2 in
      if c < 0 then (m2, c2 * f2) # linear_combination_sorted_pairs cmp ((m1, c1) # ps1) f1 ps2 f2
      else if c > 0 then (m1, c1 * f1) # linear_combination_sorted_pairs cmp ps1 f1 ((m2, c2) # ps2) f2
      else if c1 * f1 + c2 * f2 = 0 then linear_combination_sorted_pairs cmp ps1 f1 ps2 f2
      else (m1, c1 * f1 + c2 * f2) # linear_combination_sorted_pairs cmp ps1 f1 ps2 f2)"
| "linear_combination_sorted_pairs cmp [] f1 ps2 f2 =
     map (\<lambda>(m, c). (m, c * f2)) (filter (\<lambda>(m, c). c \<noteq> 0) ps2)"
| "linear_combination_sorted_pairs cmp ps1 f1 [] f2 =
     map (\<lambda>(m, c). (m, c * f1)) (filter (\<lambda>(m, c). c \<noteq> 0) ps1)"

lemma linear_combination_step:
  "cmp m1 m2 < 0 \<Longrightarrow> linear_combination_sorted_pairs cmp ((m1, c1) # ps1) f1 ((m2, c2) # ps2) f2
     = (m2, c2 * f2) # linear_combination_sorted_pairs cmp ((m1, c1) # ps1) f1 ps2 f2"
  "cmp m1 m2 > 0 \<Longrightarrow> linear_combination_sorted_pairs cmp ((m1, c1) # ps1) f1 ((m2, c2) # ps2) f2
     = (m1, c1 * f1) # linear_combination_sorted_pairs cmp ps1 f1 ((m2, c2) # ps2) f2"
  "cmp m1 m2 = 0 \<Longrightarrow> c1 * f1 + c2 * f2 = 0 \<Longrightarrow>
     linear_combination_sorted_pairs cmp ((m1, c1) # ps1) f1 ((m2, c2) # ps2) f2
     = linear_combination_sorted_pairs cmp ps1 f1 ps2 f2"
  "cmp m1 m2 = 0 \<Longrightarrow> c1 * f1 + c2 * f2 \<noteq> 0 \<Longrightarrow>
     linear_combination_sorted_pairs cmp ((m1, c1) # ps1) f1 ((m2, c2) # ps2) f2
     = (m1, c1 * f1 + c2 * f2) # linear_combination_sorted_pairs cmp ps1 f1 ps2 f2"
  by simp_all

text \<open>\<open>coeff ps m\<close>: the coefficient of \<open>m\<close>, the sum of the numbers paired with it.\<close>

definition coeff :: "('a \<times> int) list \<Rightarrow> 'a \<Rightarrow> int" where
  "coeff ps m = sum_list (map (\<lambda>(m', c). if m' = m then c else 0) ps)"

definition strictly_descending :: "('a \<Rightarrow> 'a \<Rightarrow> int) \<Rightarrow> ('a \<times> int) list \<Rightarrow> bool" where
  "strictly_descending cmp ps = sorted_wrt (\<lambda>p q. cmp (fst p) (fst q) > 0) ps"

lemma coeff_simps [simp]:
  "coeff [] m = 0" "coeff ((m', c) # ps) m = (if m' = m then c else 0) + coeff ps m"
  by (simp_all add: coeff_def)

lemma coeff_scaled: "coeff (map (\<lambda>(m, c). (m, c * k)) (filter (\<lambda>(m, c). c \<noteq> 0) ps)) m = coeff ps m * k"
  by (induction ps) (auto simp: algebra_simps)

lemma coeff_absent: "m \<notin> fst ` set ps \<Longrightarrow> coeff ps m = 0"
  by (induction ps) auto

lemma linear_combination_keysD:
  "(m, c) \<in> set (linear_combination_sorted_pairs cmp ps1 f1 ps2 f2) \<Longrightarrow>
     (\<exists>c'. (m, c') \<in> set ps1) \<or> (\<exists>c'. (m, c') \<in> set ps2)"
proof (induction cmp ps1 f1 ps2 f2 rule: linear_combination_sorted_pairs.induct)
  case (1 cmp m1 c1 ps1 f1 m2 c2 ps2 f2)
  from 1(5) consider "m = m1" | "m = m2"
    | "cmp m1 m2 < 0" "(m, c) \<in> set (linear_combination_sorted_pairs cmp ((m1, c1) # ps1) f1 ps2 f2)"
    | "\<not> cmp m1 m2 < 0" "cmp m1 m2 > 0"
      "(m, c) \<in> set (linear_combination_sorted_pairs cmp ps1 f1 ((m2, c2) # ps2) f2)"
    | "\<not> cmp m1 m2 < 0" "\<not> cmp m1 m2 > 0" "(m, c) \<in> set (linear_combination_sorted_pairs cmp ps1 f1 ps2 f2)"
    by (simp add: Let_def split: if_splits) blast+
  then show ?case
  proof cases
    case 1 then show ?thesis by auto
  next
    case 2 then show ?thesis by auto
  next
    case 3 then show ?thesis using 1(1) [OF refl 3] by auto
  next
    case 4 then show ?thesis using 1(2) [OF refl 4] by auto
  next
    case 5
    then show ?thesis using 1(3) [OF refl 5(1,2)] 1(4) [OF refl 5(1,2)] 5(3) by auto
  qed
qed (auto split: if_splits)

lemma linear_combination_keys:
  "fst ` set (linear_combination_sorted_pairs cmp ps1 f1 ps2 f2) \<subseteq> fst ` set ps1 \<union> fst ` set ps2"
proof
  fix m assume "m \<in> fst ` set (linear_combination_sorted_pairs cmp ps1 f1 ps2 f2)"
  then obtain c where "(m, c) \<in> set (linear_combination_sorted_pairs cmp ps1 f1 ps2 f2)" by auto
  from linear_combination_keysD [OF this] show "m \<in> fst ` set ps1 \<union> fst ` set ps2" by force
qed

context comparator_on
begin

lemma linear_combination_coeff:
  assumes "fst ` set ps1 \<subseteq> A" "fst ` set ps2 \<subseteq> A"
  shows "coeff (linear_combination_sorted_pairs cmp ps1 f1 ps2 f2) m = coeff ps1 m * f1 + coeff ps2 m * f2"
proof -
  have "c = cmp \<Longrightarrow> coeff (linear_combination_sorted_pairs c ps1 f1 ps2 f2) m = coeff ps1 m * f1 + coeff ps2 m * f2"
    for c
    using assms
  proof (induction c ps1 f1 ps2 f2 rule: linear_combination_sorted_pairs.induct)
    case (1 c m1 c1 ps1 f1 m2 c2 ps2 f2)
    then have "cmp m1 m2 = 0 \<longleftrightarrow> m1 = m2" by (intro cmp_eq) auto
    then consider "cmp m1 m2 < 0" "m1 \<noteq> m2" | "cmp m1 m2 > 0" "m1 \<noteq> m2" | "cmp m1 m2 = 0" "m1 = m2" by linarith
    then show ?case
    proof cases
      case 3
      show ?thesis
      proof (cases "c1 * f1 + c2 * f2 = 0")
        case True
        with 3 1(3) [OF refl] 1(5-7) have "coeff (linear_combination_sorted_pairs c ps1 f1 ps2 f2) m
          = coeff ps1 m * f1 + coeff ps2 m * f2" by simp
        with True 3 1(5) show ?thesis by (simp add: algebra_simps)
      next
        case False
        with 3 1(4) [OF refl] 1(5-7) have "coeff (linear_combination_sorted_pairs c ps1 f1 ps2 f2) m
          = coeff ps1 m * f1 + coeff ps2 m * f2" by simp
        with False 3 1(5) show ?thesis by (simp add: algebra_simps)
      qed
    qed (use 1 in \<open>simp_all add: Let_def algebra_simps\<close>)
  qed (simp_all only: linear_combination_sorted_pairs.simps coeff_scaled, simp_all)
  then show ?thesis by simp
qed

lemma linear_combination_nonzero:
  assumes "f1 \<noteq> 0 \<or> ps1 = []" "f2 \<noteq> 0 \<or> ps2 = []" "\<forall>(m, c) \<in> set ps1. c \<noteq> 0" "\<forall>(m, c) \<in> set ps2. c \<noteq> 0"
  shows "\<forall>(m, c) \<in> set (linear_combination_sorted_pairs cmp ps1 f1 ps2 f2). c \<noteq> 0"
  using assms
proof (induction cmp ps1 f1 ps2 f2 rule: linear_combination_sorted_pairs.induct)
  case (1 cmp m1 c1 ps1 f1 m2 c2 ps2 f2)
  then have nz: "f1 \<noteq> 0" "f2 \<noteq> 0" "c1 \<noteq> 0" "c2 \<noteq> 0" by auto
  consider "cmp m1 m2 < 0" | "\<not> cmp m1 m2 < 0" "cmp m1 m2 > 0" | "\<not> cmp m1 m2 < 0" "\<not> cmp m1 m2 > 0"
    by blast
  then show ?case
  proof cases
    case 3
    have z: "\<forall>(m, c) \<in> set ps1. c \<noteq> 0" "\<forall>(m, c) \<in> set ps2. c \<noteq> 0"
      using "1.prems"(3,4) by simp_all
    have "\<forall>(m, c) \<in> set (linear_combination_sorted_pairs cmp ps1 f1 ps2 f2). c \<noteq> 0"
      by (cases "c1 * f1 + c2 * f2 = 0")
         (rule "1.IH"(3) [OF refl 3 _ disjI1 [OF nz(1)] disjI1 [OF nz(2)] z]
           "1.IH"(4) [OF refl 3 _ disjI1 [OF nz(1)] disjI1 [OF nz(2)] z], assumption)+
    with 3 show ?thesis by (simp add: Let_def)
  next
    case 1
    have "\<forall>(m, c) \<in> set (linear_combination_sorted_pairs cmp ((m1, c1) # ps1) f1 ps2 f2). c \<noteq> 0"
      using "1.IH"(1) [OF refl 1] nz "1.prems"(3,4) by simp
    with 1 nz show ?thesis by (simp add: Let_def)
  next
    case 2
    have "\<forall>(m, c) \<in> set (linear_combination_sorted_pairs cmp ps1 f1 ((m2, c2) # ps2) f2). c \<noteq> 0"
      using "1.IH"(2) [OF refl 2] nz "1.prems"(3,4) by simp
    with 2 nz show ?thesis by (simp add: Let_def)
  qed
next
  case (2 cmp f1 ps2 f2)
  then show ?case by (cases "ps2 = []") auto
next
  case (3 cmp p ps1 f1 f2)
  then have "f1 \<noteq> 0" by simp
  then show ?case
    unfolding linear_combination_sorted_pairs.simps set_map set_filter ball_simps by auto
qed

lemma linear_combination_descending:
  assumes "fst ` set ps1 \<subseteq> A" "fst ` set ps2 \<subseteq> A"
    and "strictly_descending cmp ps1" "strictly_descending cmp ps2"
  shows "strictly_descending cmp (linear_combination_sorted_pairs cmp ps1 f1 ps2 f2)"
proof -
  have "c = cmp \<Longrightarrow> strictly_descending cmp (linear_combination_sorted_pairs c ps1 f1 ps2 f2)" for c
    using assms
  proof (induction c ps1 f1 ps2 f2 rule: linear_combination_sorted_pairs.induct)
    case (1 c m1 c1 ps1 f1 m2 c2 ps2 f2)
    have A: "m1 \<in> A" "m2 \<in> A" "fst ` set ps1 \<subseteq> A" "fst ` set ps2 \<subseteq> A" using 1 by auto
    have d: "\<And>x d. (x, d) \<in> set ps1 \<Longrightarrow> cmp m1 x > 0" "\<And>x d. (x, d) \<in> set ps2 \<Longrightarrow> cmp m2 x > 0"
      "strictly_descending cmp ps1" "strictly_descending cmp ps2"
      using 1(8,9) by (auto simp: strictly_descending_def)
    have up: "cmp u w > 0" if "cmp u v > 0" "cmp v w > 0" "u \<in> A" "v \<in> A" "w \<in> A" for u v w
      using that cmp_trans [of w v u] cmp_sym [of u v] cmp_sym [of v w] cmp_sym [of u w] by simp
    have m: "cmp m1 m2 = 0 \<longleftrightarrow> m1 = m2" "cmp m2 m1 = - cmp m1 m2"
      using cmp_eq [OF A(1,2)] cmp_sym [OF A(1,2)] by simp_all
    have mem1: "x \<in> A" if "(x, d) \<in> set ps1" for x d using that A(3) by force
    have mem2: "x \<in> A" if "(x, d) \<in> set ps2" for x d using that A(4) by force
    let ?r = "linear_combination_sorted_pairs cmp"
    consider "cmp m1 m2 < 0" "m1 \<noteq> m2" | "cmp m1 m2 > 0" "m1 \<noteq> m2" | "cmp m1 m2 = 0" "m1 = m2"
      using m(1) by linarith
    then show ?case
    proof cases
      case 1
      have "strictly_descending cmp (?r ((m1, c1) # ps1) f1 ps2 f2)"
        using "1.IH"(1) [OF refl] 1 "1.prems" by (simp add: strictly_descending_def)
      moreover have "cmp m2 x > 0" if "(x, e) \<in> set (?r ((m1, c1) # ps1) f1 ps2 f2)" for x e
        using linear_combination_keysD [OF that] 1 m(2) d up [of m2 m1] A mem1 by auto
      ultimately show ?thesis using 1 "1.prems"(1) by (auto simp: Let_def strictly_descending_def)
    next
      case 2
      have "strictly_descending cmp (?r ps1 f1 ((m2, c2) # ps2) f2)"
        using "1.IH"(2) [OF refl] 2 "1.prems" by (simp add: strictly_descending_def)
      moreover have "cmp m1 x > 0" if "(x, e) \<in> set (?r ps1 f1 ((m2, c2) # ps2) f2)" for x e
        using linear_combination_keysD [OF that] 2 d up [of m1 m2] A mem2 by auto
      ultimately show ?thesis using 2 "1.prems"(1) by (auto simp: Let_def strictly_descending_def)
    next
      case 3
      have "strictly_descending cmp (?r ps1 f1 ps2 f2)"
        using "1.IH"(3,4) [OF refl] 3 "1.prems" d(3,4) A
        by (cases "c1 * f1 + c2 * f2 = 0") simp_all
      moreover have "cmp m1 x > 0" if "(x, e) \<in> set (?r ps1 f1 ps2 f2)" for x e
        using linear_combination_keysD [OF that] 3 d by auto
      ultimately show ?thesis using 3 "1.prems"(1) by (auto simp: Let_def strictly_descending_def)
    qed
  qed (auto simp: strictly_descending_def sorted_wrt_map split_def sorted_wrt_filter)
  then show ?thesis by simp
qed

text \<open>A strictly descending list is determined by its coefficients.\<close>

lemma descending_head:
  assumes "strictly_descending cmp ((m, c) # ps)" "fst ` set ((m, c) # ps) \<subseteq> A"
  shows "coeff ps m = 0" "strictly_descending cmp ps" "coeff ((m, c) # ps) x \<noteq> 0 \<Longrightarrow> cmp m x \<ge> 0"
proof -
  have d: "\<forall>q \<in> set ps. cmp m (fst q) > 0" using assms(1) by (auto simp: strictly_descending_def)
  have "cmp m m = 0" using assms(2) by (auto intro: cmp_refl)
  then have "m \<notin> fst ` set ps" using d by force
  then show "coeff ps m = 0" by (rule coeff_absent)
  show "strictly_descending cmp ps" using assms(1) by (simp add: strictly_descending_def)
  assume "coeff ((m, c) # ps) x \<noteq> 0"
  then have "x = m \<or> x \<in> fst ` set ps" using coeff_absent [of x ps] by (auto split: if_splits)
  then show "cmp m x \<ge> 0" using d \<open>cmp m m = 0\<close> by force
qed

lemma descending_unique:
  assumes "strictly_descending cmp ps" "strictly_descending cmp qs"
    and "fst ` set ps \<subseteq> A" "fst ` set qs \<subseteq> A"
    and "\<forall>p \<in> set ps. snd p \<noteq> 0" "\<forall>p \<in> set qs. snd p \<noteq> 0"
    and "\<And>m. coeff ps m = coeff qs m"
  shows "ps = qs"
  using assms
proof (induction ps arbitrary: qs)
  case Nil
  show ?case
  proof (cases qs)
    case (Cons q qs')
    then have "coeff qs (fst q) = snd q"
      using Nil descending_head(1) [of "fst q" "snd q" qs'] by (cases q) simp
    with Nil Cons show ?thesis by simp
  qed simp
next
  case (Cons p ps)
  obtain m c where p: "p = (m, c)" by (cases p)
  note hp = descending_head [of m c ps, OF Cons.prems(1,3) [unfolded p]]
  have cp: "coeff (p # ps) m = c" "c \<noteq> 0" using hp(1) p Cons.prems(5) by simp_all
  then have "qs \<noteq> []" using Cons.prems(7) [of m] by auto
  then obtain m' c' qs' where qs: "qs = (m', c') # qs'" by (cases qs) auto
  note hq = descending_head [of m' c' qs', OF Cons.prems(2,4) [unfolded qs]]
  have cq: "coeff qs m' = c'" "c' \<noteq> 0" using hq(1) qs Cons.prems(6) by simp_all
  have A: "m \<in> A" "m' \<in> A" using Cons.prems(3,4) p qs by auto
  have "cmp m' m \<ge> 0" using hq(3) [of m] cp Cons.prems(7) [of m] qs by simp
  moreover have "cmp m m' \<ge> 0" using hp(3) [of m'] cq Cons.prems(7) [of m'] p by simp
  ultimately have "m = m'" using cmp_sym [OF A] cmp_eq [OF A] by simp
  moreover have "c = c'" using cp(1) cq(1) Cons.prems(7) [of m] \<open>m = m'\<close> by simp
  moreover have "ps = qs'"
  proof (rule Cons.IH)
    show "coeff ps x = coeff qs' x" for x
      using Cons.prems(7) [of x] p qs \<open>m = m'\<close> \<open>c = c'\<close> by simp
  qed (use hp(2) hq(2) Cons.prems p qs in auto)
  ultimately show ?case using p qs by simp
qed

end

end
