(* ===== verification/DimExpr.thy ===== *)
theory DimExpr
  imports Comparator "HOL-Library.List_Lexorder" "HOL-Library.Char_ord"
begin

text \<open>
  Symbolic dimension expressions, \<^verbatim>\<open>_DimFactor\<close>, \<^verbatim>\<open>_DimTerm\<close> and \<^verbatim>\<open>_DimExpr\<close> of
  \<^verbatim>\<open>jax/_src/export/shape_poly.py\<close>: their representation as sorted sums of sorted products,
  the syntactic order, normalization under the equality constraints of a scope, arithmetic,
  division with remainder and evaluation. All expressions are of one \<^verbatim>\<open>SymbolicScope\<close>, so
  \<^verbatim>\<open>_check_same_scope\<close> does not raise; sizes and hashes that the source caches are recomputed.
\<close>

subsection \<open>Factors, terms and expressions\<close>

datatype dim_op = OpFLOORDIV | OpMOD | OpMAX | OpMIN

fun op_name :: "dim_op \<Rightarrow> string" where
  "op_name OpFLOORDIV = ''floordiv''"
| "op_name OpMOD = ''mod''"
| "op_name OpMAX = ''max''"
| "op_name OpMIN = ''min''"

text \<open>
  A factor is a variable or an operation on expressions; a term is the sequence of its
  factors with their exponents, an expression the sequence of its terms with their
  coefficients, the largest first.
\<close>

datatype dim_factor = Var string | Oper dim_op "((dim_factor \<times> int) list \<times> int) list list"

type_synonym dim_term = "(dim_factor \<times> int) list"
type_synonym dim_expr = "(dim_term \<times> int) list"

text \<open>\<^verbatim>\<open>DimSize\<close>: a Python integer or a symbolic expression.\<close>

datatype dim_size = Const int | Sym dim_expr

text \<open>\<^verbatim>\<open>SymbolicScope._normalization_rules\<close>: \<open>t * k\<close> may be replaced by the expression of \<open>t\<close>.\<close>

type_synonym norm_rules = "(dim_term \<times> dim_expr \<times> int) list"

abbreviation (input) term_one :: dim_term where "term_one \<equiv> []"

subsection \<open>Sizes and the syntactic order\<close>

lemma size_factor_in_term: "(f, n) \<in> set t \<Longrightarrow> size f < size_list (size_prod size (\<lambda>_. 0)) t"
  by (induction t) auto

lemma size_term_in_expr:
  "(t, c) \<in> set e \<Longrightarrow>
     size_list (size_prod size (\<lambda>_. 0)) t
       < size_list (size_prod (size_list (size_prod size (\<lambda>_. 0))) (\<lambda>_. 0)) e"
  by (induction e) auto

lemma size_operand [termination_simp]:
  assumes "e \<in> set es" "(t, c) \<in> set e" "(f, n) \<in> set t"
  shows "size f < Suc (size_list (size_list (size_prod (size_list (size_prod size (\<lambda>_. 0))) (\<lambda>_. 0))) es)"
proof -
  have "size_list (size_prod (size_list (size_prod size (\<lambda>_. 0))) (\<lambda>_. 0)) e
      \<le> size_list (size_list (size_prod (size_list (size_prod size (\<lambda>_. 0))) (\<lambda>_. 0))) es"
    using assms(1) by (induction es) auto
  then show ?thesis
    using size_factor_in_term [OF assms(3)] size_term_in_expr [OF assms(2)] by linarith
qed

lemma cmp_pair_cong [fundef_cong]:
  "p = p' \<Longrightarrow> q = q' \<Longrightarrow> c (fst p') (fst q') = c' (fst p') (fst q') \<Longrightarrow> cmp_pair c p q = cmp_pair c' p' q'"
  by (simp add: cmp_pair_def)

lemma cmp_by_cong [fundef_cong]:
  "k = k' \<Longrightarrow> x = x' \<Longrightarrow> y = y' \<Longrightarrow> c x' y' = c' x' y' \<Longrightarrow> cmp_by k c x y = cmp_by k' c' x' y'"
  by (simp add: cmp_by_def)

fun factor_size :: "dim_factor \<Rightarrow> int" where
  "factor_size (Var v) = 1"
| "factor_size (Oper oper es) =
     1 + sum_list (map (\<lambda>e. sum_list (map (\<lambda>(t, c). 1 + \<bar>c\<bar> *
           sum_list (map (\<lambda>(f, n). 1 + n * factor_size f) t)) e)) es)"

definition term_size :: "dim_term \<Rightarrow> int" where
  "term_size t = sum_list (map (\<lambda>(f, n). 1 + n * factor_size f) t)"

definition expr_size :: "dim_expr \<Rightarrow> int" where
  "expr_size e = sum_list (map (\<lambda>(t, c). 1 + \<bar>c\<bar> * term_size t) e)"

text \<open>
  \<^verbatim>\<open>_DimFactor._syntactic_cmp\<close>. Two factors of one size are both variables or both
  operations (an operation has operands, so its size is at least two); the last two
  equations only make the function total.
\<close>

fun factor_cmp :: "dim_factor \<Rightarrow> dim_factor \<Rightarrow> int" where
  "factor_cmp (Var v) (Var w) = cmp_comparable v w"
| "factor_cmp (Oper o1 es1) (Oper o2 es2) =
     (if cmp_comparable (factor_size (Oper o1 es1)) (factor_size (Oper o2 es2)) \<noteq> 0
      then cmp_comparable (factor_size (Oper o1 es1)) (factor_size (Oper o2 es2))
      else if cmp_comparable (op_name o1) (op_name o2) \<noteq> 0 then cmp_comparable (op_name o1) (op_name o2)
      else cmp_sequence (\<lambda>e1 e2. cmp_by expr_size (\<lambda>e1 e2. cmp_sequence (\<lambda>p q. cmp_pair (\<lambda>t u.
             cmp_by term_size (\<lambda>t u. cmp_sequence (\<lambda>p q. cmp_pair (\<lambda>f g. factor_cmp f g) p q) t u) t u)
               p q) e1 e2) e1 e2) es1 es2)"
| "factor_cmp (Var v) (Oper o2 es2) =
     (if cmp_comparable 1 (factor_size (Oper o2 es2)) \<noteq> 0
      then cmp_comparable 1 (factor_size (Oper o2 es2)) else -1)"
| "factor_cmp (Oper o1 es1) (Var w) =
     (if cmp_comparable (factor_size (Oper o1 es1)) 1 \<noteq> 0
      then cmp_comparable (factor_size (Oper o1 es1)) 1 else 1)"

definition term_cmp :: "dim_term \<Rightarrow> dim_term \<Rightarrow> int" where
  "term_cmp t u = cmp_by term_size (cmp_sequence (cmp_pair factor_cmp)) t u"

definition expr_cmp :: "dim_expr \<Rightarrow> dim_expr \<Rightarrow> int" where
  "expr_cmp e1 e2 = cmp_by expr_size (cmp_sequence (cmp_pair term_cmp)) e1 e2"

lemma factor_cmp_Oper:
  "factor_cmp (Oper o1 es1) (Oper o2 es2) =
     cmp_by factor_size (\<lambda>_ _. cmp_by op_name (\<lambda>_ _. cmp_sequence expr_cmp es1 es2) o1 o2)
       (Oper o1 es1) (Oper o2 es2)"
  unfolding factor_cmp.simps cmp_by_def [of factor_size] cmp_by_def [of op_name] expr_cmp_def term_cmp_def ..

lemma op_name_inj: "op_name a = op_name b \<longleftrightarrow> a = b"
  by (cases a; cases b) simp_all

lemma comparator_comparable: "comparator_on A (\<lambda>x y. cmp_comparable (k x) (k y))"
  if "inj_on k A" for k :: "'a \<Rightarrow> 'k::linorder"
proof
  fix x y assume A: "x \<in> A" "y \<in> A"
  show "cmp_comparable (k y) (k x) = - cmp_comparable (k x) (k y)" by (rule cmp_comparable_sym)
  show "cmp_comparable (k x) (k y) = 0 \<longleftrightarrow> x = y" using inj_onD [OF that _ A] by auto
qed auto

text \<open>The elements of \<open>lists\<close> of pairs over \<open>A\<close>, as the order of terms and expressions needs them.\<close>

definition seqs :: "'a set \<Rightarrow> ('a \<times> int) list set" where
  "seqs A = {xs. set xs \<subseteq> A \<times> UNIV}"

lemma comparator_term: "comparator_on A factor_cmp \<Longrightarrow> comparator_on (seqs A) term_cmp"
  unfolding term_cmp_def seqs_def
  by (intro comparator_on.comparator_by comparator_on.comparator_sequence comparator_on.comparator_pair)

lemma comparator_expr: "comparator_on A term_cmp \<Longrightarrow> comparator_on (seqs A) expr_cmp"
  unfolding expr_cmp_def seqs_def
  by (intro comparator_on.comparator_by comparator_on.comparator_sequence comparator_on.comparator_pair)

lemma operands_small:
  "size (Oper oper es) \<le> n \<Longrightarrow> set es \<subseteq> seqs (seqs {f. size f < n})"
  using size_operand unfolding seqs_def by fastforce

lemma factor_cmp_less:
  "factor_cmp x y < 0 \<longleftrightarrow> factor_size x < factor_size y \<or> factor_size x = factor_size y \<and>
     (case (x, y) of
        (Var v, Var w) \<Rightarrow> v < w
      | (Var v, Oper _ _) \<Rightarrow> True
      | (Oper _ _, Var w) \<Rightarrow> False
      | (Oper o1 es1, Oper o2 es2) \<Rightarrow> op_name o1 < op_name o2 \<or> o1 = o2 \<and> cmp_sequence expr_cmp es1 es2 < 0)"
proof (cases x; cases y)
  fix o1 es1 o2 es2 assume xy: "x = Oper o1 es1" "y = Oper o2 es2"
  show ?thesis unfolding xy factor_cmp_Oper cmp_by_less op_name_inj by simp
qed (simp_all, (auto simp: cmp_comparable_def)?)

lemma comparator_factor_upto: "comparator_on {f. size f < n} factor_cmp"
proof (induction n)
  case 0
  show ?case by unfold_locales auto
next
  case (Suc n)
  let ?S = "{f :: dim_factor. size f < Suc n}" and ?E = "seqs (seqs {f :: dim_factor. size f < n})"
  have seq: "comparator_on {es. set es \<subseteq> ?E} (cmp_sequence expr_cmp)"
    by (intro comparator_on.comparator_sequence comparator_expr comparator_term Suc.IH)
  have small: "set es \<subseteq> ?E" if "Oper oper es \<in> ?S" for oper es
    using that by (intro operands_small [of oper]) simp
  show ?case
  proof
    fix f g assume A: "f \<in> ?S" "g \<in> ?S"
    show "factor_cmp g f = - factor_cmp f g"
    proof (cases f; cases g)
      fix o1 es1 o2 es2 assume fg: "f = Oper o1 es1" "g = Oper o2 es2"
      with A small have "set es1 \<subseteq> ?E" "set es2 \<subseteq> ?E" by blast+
      then have "cmp_sequence expr_cmp es2 es1 = - cmp_sequence expr_cmp es1 es2"
        by (intro comparator_on.cmp_sym [OF seq]) simp_all
      then show ?thesis
        unfolding fg factor_cmp_Oper cmp_by_def cmp_comparable_sym [of "op_name o2"]
          cmp_comparable_sym [of "factor_size (Oper o2 es2)"] by simp
    qed (simp_all add: cmp_comparable_def less_not_sym)
    show "factor_cmp f g = 0 \<longleftrightarrow> f = g"
    proof (cases f; cases g)
      fix o1 es1 o2 es2 assume fg: "f = Oper o1 es1" "g = Oper o2 es2"
      with A small have "set es1 \<subseteq> ?E" "set es2 \<subseteq> ?E" by blast+
      then have "cmp_sequence expr_cmp es1 es2 = 0 \<longleftrightarrow> es1 = es2"
        by (intro comparator_on.cmp_eq [OF seq]) simp_all
      then show ?thesis
        unfolding fg factor_cmp_Oper cmp_by_def using op_name_inj [of o1 o2] by auto
    qed (auto simp: cmp_comparable_def)
  next
    fix f g h assume A: "f \<in> ?S" "g \<in> ?S" "h \<in> ?S" and l: "factor_cmp f g < 0" "factor_cmp g h < 0"
    note less = factor_cmp_less
    have seq_trans: "cmp_sequence expr_cmp a b < 0 \<Longrightarrow> cmp_sequence expr_cmp b c < 0 \<Longrightarrow>
        cmp_sequence expr_cmp a c < 0" if "set a \<subseteq> ?E" "set b \<subseteq> ?E" "set c \<subseteq> ?E" for a b c
      using that comparator_on.cmp_trans [OF seq, of a b c] by simp
    show "factor_cmp f h < 0"
    proof (cases "factor_size f = factor_size g \<and> factor_size g = factor_size h")
      case False
      with l show ?thesis unfolding less by linarith
    next
      case True
      then have eq: "factor_size f = factor_size g" "factor_size g = factor_size h" by auto
      show ?thesis
      proof (cases f; cases g; cases h)
        fix o1 es1 o2 es2 o3 es3
        assume fgh: "f = Oper o1 es1" "g = Oper o2 es2" "h = Oper o3 es3"
        with A small have E: "set es1 \<subseteq> ?E" "set es2 \<subseteq> ?E" "set es3 \<subseteq> ?E" by blast+
        have "op_name o1 < op_name o2 \<or> o1 = o2 \<and> cmp_sequence expr_cmp es1 es2 < 0"
          "op_name o2 < op_name o3 \<or> o2 = o3 \<and> cmp_sequence expr_cmp es2 es3 < 0"
          using l eq unfolding less by (simp_all add: fgh del: factor_size.simps)
        then have "op_name o1 < op_name o3 \<or> o1 = o3 \<and> cmp_sequence expr_cmp es1 es3 < 0"
          using seq_trans [OF E] less_trans [of "op_name o1" "op_name o2" "op_name o3"] by blast
        then show ?thesis unfolding less using eq fgh by simp
      qed (use l eq in \<open>simp_all add: less, (blast intro: less_trans)?\<close>)
    qed
  qed
qed

theorem comparator_factor: "comparator_on A factor_cmp"
proof
  fix x y z :: dim_factor
  let ?n = "Suc (max (size x) (max (size y) (size z)))"
  note c = comparator_factor_upto [of ?n]
  show "factor_cmp y x = - factor_cmp x y" by (rule comparator_on.cmp_sym [OF c]) auto
  show "factor_cmp x y = 0 \<longleftrightarrow> x = y" by (rule comparator_on.cmp_eq [OF c]) auto
  show "factor_cmp x y < 0 \<Longrightarrow> factor_cmp y z < 0 \<Longrightarrow> factor_cmp x z < 0"
    by (rule comparator_on.cmp_trans [OF c, of x y z]) auto
qed

interpretation factor_order: comparator_on UNIV factor_cmp
  by (rule comparator_factor)

interpretation term_order: comparator_on UNIV term_cmp
  using comparator_term [OF comparator_factor, of UNIV] by (simp add: seqs_def)

interpretation expr_order: comparator_on UNIV expr_cmp
  using comparator_expr [of UNIV] term_order.comparator_on_axioms by (simp add: seqs_def)

text \<open>The comparison operators of \<^verbatim>\<open>_DimFactor\<close>.\<close>

definition factor_le :: "dim_factor \<Rightarrow> dim_factor \<Rightarrow> bool" where
  "factor_le f g \<longleftrightarrow> factor_cmp f g \<le> 0"

definition factor_lt :: "dim_factor \<Rightarrow> dim_factor \<Rightarrow> bool" where
  "factor_lt f g \<longleftrightarrow> factor_cmp f g < 0"

instantiation dim_factor :: linorder
begin

definition less_eq_dim_factor :: "dim_factor \<Rightarrow> dim_factor \<Rightarrow> bool" where
  "f \<le> g \<longleftrightarrow> factor_le f g"

definition less_dim_factor :: "dim_factor \<Rightarrow> dim_factor \<Rightarrow> bool" where
  "f < g \<longleftrightarrow> factor_lt f g"

instance
proof
  fix f g h :: dim_factor
  have s: "factor_cmp g f = - factor_cmp f g" "factor_cmp f g = 0 \<longleftrightarrow> f = g"
    by (rule factor_order.cmp_sym factor_order.cmp_eq; simp)+
  show "f < g \<longleftrightarrow> f \<le> g \<and> \<not> g \<le> f" "f \<le> g \<or> g \<le> f" "f \<le> g \<Longrightarrow> g \<le> f \<Longrightarrow> f = g"
    unfolding less_eq_dim_factor_def less_dim_factor_def factor_le_def factor_lt_def using s by auto
  show "f \<le> f" unfolding less_eq_dim_factor_def factor_le_def by (simp add: factor_order.cmp_refl)
  show "f \<le> g \<Longrightarrow> g \<le> h \<Longrightarrow> f \<le> h"
    unfolding less_eq_dim_factor_def factor_le_def by (rule factor_order.cmp_le_trans) simp_all
qed

end

end
