(* ===== verification/DimOps.thy ===== *)
theory DimOps
  imports DimExpr
begin

text \<open>
  The operations of \<^verbatim>\<open>_DimTerm\<close> and \<^verbatim>\<open>_DimExpr\<close> (\<^verbatim>\<open>jax/_src/export/shape_poly.py\<close>): products and
  quotients of terms, normalization, \<^verbatim>\<open>+\<close>, \<^verbatim>\<open>-\<close>, \<^verbatim>\<open>*\<close>, \<^verbatim>\<open>**\<close>, division with remainder and
  evaluation. The loop of \<^verbatim>\<open>_divmod\<close> may run forever, so it takes fuel and
  returns \<open>None\<close> when the fuel runs out.
\<close>

subsection \<open>Terms\<close>

definition term_mul :: "dim_term \<Rightarrow> dim_term \<Rightarrow> dim_term" where
  "term_mul t u = linear_combination_sorted_pairs factor_cmp t 1 u 1"

definition term_divide :: "dim_term \<Rightarrow> dim_term \<Rightarrow> dim_term res" where
  "term_divide t d =
     (let new_factors = linear_combination_sorted_pairs factor_cmp t 1 d (-1) in
      if \<exists>p \<in> set new_factors. snd p \<le> 0 then Inl InconclusiveDimensionOperation
      else Inr new_factors)"

text \<open>The empty term is not unpacked: \<^verbatim>\<open>(f, f_exp), = ()\<close> raises.\<close>

definition term_to_factor :: "dim_term \<Rightarrow> dim_factor option res" where
  "term_to_factor t =
     (case t of
        [] \<Rightarrow> Inl (ValueError ''unpack'')
      | [(f, n)] \<Rightarrow> Inr (if n \<noteq> 1 then None else Some f)
      | _ \<Rightarrow> Inr None)"

fun factor_to_var :: "dim_factor \<Rightarrow> string option" where
  "factor_to_var (Var v) = Some v"
| "factor_to_var (Oper _ _) = None"

definition term_to_var :: "dim_term \<Rightarrow> string option res" where
  "term_to_var t = rbind (term_to_factor t) (\<lambda>a. Inr (Option.bind a factor_to_var))"

subsection \<open>Expressions\<close>

text \<open>\<^verbatim>\<open>_DimExpr.__init__\<close>: no terms stand for zero.\<close>

definition mk_expr :: "(dim_term \<times> int) list \<Rightarrow> dim_expr" where
  "mk_expr ts = (if ts = [] then [(term_one, 0)] else ts)"

text \<open>\<^verbatim>\<open>_ensure_poly\<close>\<close>

fun ensure_poly :: "dim_size \<Rightarrow> dim_expr" where
  "ensure_poly (Sym e) = e"
| "ensure_poly (Const k) = mk_expr [(term_one, k)]"

fun insert_term :: "dim_term \<times> int \<Rightarrow> (dim_term \<times> int) list \<Rightarrow> (dim_term \<times> int) list" where
  "insert_term p [] = [p]"
| "insert_term p (q # qs) = (if term_cmp (fst p) (fst q) > 0 then p # q # qs else q # insert_term p qs)"

text \<open>\<^verbatim>\<open>sorted(..., reverse=True)\<close> of the items of a dictionary: the keys are distinct.\<close>

definition coeff_to_sorted_terms :: "(dim_term \<times> int) list \<Rightarrow> (dim_term \<times> int) list" where
  "coeff_to_sorted_terms coeffs = foldr insert_term (filter (\<lambda>p. snd p \<noteq> 0) coeffs) []"

definition add_coeff :: "(dim_term \<times> int) list \<Rightarrow> dim_term \<Rightarrow> int \<Rightarrow> (dim_term \<times> int) list" where
  "add_coeff coeffs t c =
     (if c = 0 then coeffs
      else dict_set coeffs t ((case map_of coeffs t of None \<Rightarrow> 0 | Some c' \<Rightarrow> c') + c))"

definition dict_of :: "('k \<times> 'v) list \<Rightarrow> ('k \<times> 'v) list" where
  "dict_of ps = fold (\<lambda>(k, v) d. dict_set d k v) ps []"

subsection \<open>Normalization\<close>

definition py_mod :: "int \<Rightarrow> int \<Rightarrow> int res" where
  "py_mod a b = (if b = 0 then Inl ZeroDivisionError else Inr (a mod b))"

text \<open>The factors of the product \<open>t\<close> are looked up one by one.\<close>

fun normalize_factors :: "norm_rules \<Rightarrow> dim_term \<Rightarrow> int \<Rightarrow> dim_term \<Rightarrow> (dim_term \<times> int) list res" where
  "normalize_factors rules t t_k [] = Inr []"
| "normalize_factors rules t t_k ((f, n) # fs) =
     (case map_of rules [(f, n)] of
        None \<Rightarrow> normalize_factors rules t t_k fs
      | Some (f_after, f_k) \<Rightarrow>
          rbind (py_mod t_k f_k) (\<lambda>r.
            if r \<noteq> 0 then normalize_factors rules t t_k fs
            else rbind (term_divide t [(f, n)]) (\<lambda>t_without_f.
              Inr ((t, - t_k) # map (\<lambda>(t2, c2). (term_mul t2 t_without_f, c2 * (t_k div f_k))) f_after))))"

definition normalize_term :: "norm_rules \<Rightarrow> dim_term \<Rightarrow> int \<Rightarrow> (dim_term \<times> int) list res" where
  "normalize_term rules t t_k =
     (if rules = [] then Inr []
      else
        let by_factors = (if length t \<le> 1 then Inr [] else normalize_factors rules t t_k t) in
        (case map_of rules t of
           None \<Rightarrow> by_factors
         | Some (after, k) \<Rightarrow>
             rbind (py_mod t_k k) (\<lambda>r.
               if r \<noteq> 0 then by_factors
               else Inr ((t, - t_k) # map (\<lambda>(t2, c2). (t2, c2 * (t_k div k))) after))))"

text \<open>The loop of \<^verbatim>\<open>_normalize_sorted_terms\<close>: the first term with updates is rewritten.\<close>

fun normalize_first :: "norm_rules \<Rightarrow> (dim_term \<times> int) list \<Rightarrow> (dim_term \<times> int) list \<Rightarrow> (dim_term \<times> int) list res" where
  "normalize_first rules ts [] = Inr ts"
| "normalize_first rules ts ((t, k) # rest) =
     rbind (rassert (k \<noteq> 0)) (\<lambda>_.
     rbind (normalize_term rules t k) (\<lambda>updates.
     if updates = [] then normalize_first rules ts rest
     else Inr (coeff_to_sorted_terms (fold (\<lambda>(t1, k1) cs. add_coeff cs t1 k1) updates (dict_of ts)))))"

fun to_dim_size :: "(dim_term \<times> int) list \<Rightarrow> dim_size" where
  "to_dim_size [] = Const 0"
| "to_dim_size ((t, k) # ts) = (if t = term_one then Const k else Sym ((t, k) # ts))"

definition normalize_sorted_terms :: "norm_rules \<Rightarrow> (dim_term \<times> int) list \<Rightarrow> dim_size res" where
  "normalize_sorted_terms rules terms =
     rbind (normalize_first rules terms terms) (\<lambda>ts. Inr (to_dim_size ts))"

definition from_term :: "norm_rules \<Rightarrow> dim_term \<Rightarrow> int \<Rightarrow> dim_size res" where
  "from_term rules t t_k = normalize_sorted_terms rules [(t, t_k)]"

definition from_var :: "norm_rules \<Rightarrow> string \<Rightarrow> dim_size res" where
  "from_var rules v = normalize_sorted_terms rules [([(Var v, 1)], 1)]"

definition from_operation :: "norm_rules \<Rightarrow> dim_op \<Rightarrow> dim_size list \<Rightarrow> dim_size res" where
  "from_operation rules oper operands = from_term rules [(Oper oper (map ensure_poly operands), 1)] 1"

subsection \<open>Views of an expression\<close>

fun to_constant :: "dim_size \<Rightarrow> int option" where
  "to_constant (Const k) = Some k"
| "to_constant (Sym ((t, k) # ts)) = (if t = term_one then Some k else None)"
| "to_constant (Sym []) = None"

definition expr_to_term :: "dim_expr \<Rightarrow> dim_term option" where
  "expr_to_term e = (case e of [(t, k)] \<Rightarrow> if k = 1 then Some t else None | _ \<Rightarrow> None)"

definition expr_to_var :: "dim_expr \<Rightarrow> string option res" where
  "expr_to_var e = (case expr_to_term e of None \<Rightarrow> Inr None | Some t \<Rightarrow> term_to_var t)"

fun single_term_loop :: "dim_expr \<Rightarrow> int \<Rightarrow> (dim_term \<times> int) option \<Rightarrow> (int \<times> (dim_term \<times> int) option) option" where
  "single_term_loop [] n1 found = Some (n1, found)"
| "single_term_loop ((t, t_k) # e) n1 found =
     (if t = term_one then single_term_loop e t_k found
      else if found = None then single_term_loop e n1 (Some (t, t_k))
      else None)"

definition to_single_term :: "dim_expr \<Rightarrow> (int \<times> int \<times> dim_term) option res" where
  "to_single_term e =
     (case single_term_loop e 0 None of
        None \<Rightarrow> Inr None
      | Some (n1, None) \<Rightarrow> Inl AssertionError
      | Some (n1, Some (t, n2)) \<Rightarrow> Inr (Some (n1, n2, t)))"

fun factor_vars :: "dim_factor \<Rightarrow> string set" where
  "factor_vars (Var v) = {v}"
| "factor_vars (Oper oper es) = (\<Union>e \<in> set es. \<Union>p \<in> set e. \<Union>q \<in> set (fst p). factor_vars (fst q))"

definition term_vars :: "dim_term \<Rightarrow> string set" where
  "term_vars t = (\<Union>q \<in> set t. factor_vars (fst q))"

definition expr_vars :: "dim_expr \<Rightarrow> string set" where
  "expr_vars e = (\<Union>p \<in> set e. term_vars (fst p))"

subsection \<open>Arithmetic\<close>

definition linear_combination :: "norm_rules \<Rightarrow> dim_size \<Rightarrow> int \<Rightarrow> dim_size \<Rightarrow> int \<Rightarrow> dim_size res" where
  "linear_combination rules e1 k1 e2 k2 =
     (case (e1, e2) of
        (Const a, Const b) \<Rightarrow> Inr (Const (a * k1 + b * k2))
      | _ \<Rightarrow>
          let e1_terms = (case e1 of Sym e \<Rightarrow> e | Const a \<Rightarrow> [(term_one, a)]);
              e2_terms = (case e2 of Sym e \<Rightarrow> e | Const b \<Rightarrow> if b = 0 then [] else [(term_one, b)]) in
          normalize_sorted_terms rules (linear_combination_sorted_pairs term_cmp e1_terms k1 e2_terms k2))"

text \<open>\<open>a + b\<close>, \<open>a - b\<close> and \<open>a * b\<close> on dimension sizes, with the reflected methods where \<open>a\<close> is an integer.\<close>

fun dim_add :: "norm_rules \<Rightarrow> dim_size \<Rightarrow> dim_size \<Rightarrow> dim_size res" where
  "dim_add rules (Const a) (Const b) = Inr (Const (a + b))"
| "dim_add rules (Const a) (Sym e) =
     (if a = 0 then Inr (Sym e) else linear_combination rules (Sym e) 1 (Const a) 1)"
| "dim_add rules (Sym e) b = (if b = Const 0 then Inr (Sym e) else linear_combination rules (Sym e) 1 b 1)"

fun dim_sub :: "norm_rules \<Rightarrow> dim_size \<Rightarrow> dim_size \<Rightarrow> dim_size res" where
  "dim_sub rules (Const a) (Const b) = Inr (Const (a - b))"
| "dim_sub rules (Const a) (Sym e) = linear_combination rules (Sym e) (-1) (Const a) 1"
| "dim_sub rules (Sym e) b = (if b = Const 0 then Inr (Sym e) else linear_combination rules (Sym e) 1 b (-1))"

fun dim_neg :: "norm_rules \<Rightarrow> dim_size \<Rightarrow> dim_size res" where
  "dim_neg rules (Const a) = Inr (Const (- a))"
| "dim_neg rules (Sym e) = linear_combination rules (Sym e) (-1) (Const 0) 0"

text \<open>The products of all pairs of terms, collected in a dictionary.\<close>

definition mul_coeffs :: "dim_expr \<Rightarrow> dim_expr \<Rightarrow> (dim_term \<times> int) list" where
  "mul_coeffs e1 e2 =
     fold (\<lambda>(mon1, coeff1) coeffs.
       fold (\<lambda>(mon2, coeff2) coeffs. add_coeff coeffs (term_mul mon1 mon2) (coeff1 * coeff2)) e2 coeffs) e1 []"

definition scale_expr :: "norm_rules \<Rightarrow> dim_expr \<Rightarrow> int \<Rightarrow> dim_size res" where
  "scale_expr rules e k =
     (if k = 1 then Inr (Sym e) else if k = 0 then Inr (Const 0)
      else linear_combination rules (Sym e) k (Const 0) 0)"

fun dim_mul :: "norm_rules \<Rightarrow> dim_size \<Rightarrow> dim_size \<Rightarrow> dim_size res" where
  "dim_mul rules (Const a) (Const b) = Inr (Const (a * b))"
| "dim_mul rules (Const a) (Sym e) = scale_expr rules e a"
| "dim_mul rules (Sym e) (Const b) = scale_expr rules e b"
| "dim_mul rules (Sym e1) (Sym e2) = normalize_sorted_terms rules (coeff_to_sorted_terms (mul_coeffs e1 e2))"

text \<open>\<^verbatim>\<open>__pow__\<close> with an integer power\<close>

definition dim_pow :: "norm_rules \<Rightarrow> dim_expr \<Rightarrow> int \<Rightarrow> dim_size res" where
  "dim_pow rules e k =
     (if k \<ge> 0 then rfold (\<lambda>x acc. dim_mul rules acc x) (replicate (nat k) (Sym e)) (Const 1)
      else Inl (ValueError ''negative power''))"

text \<open>\<^verbatim>\<open>_eq\<close> and \<^verbatim>\<open>__eq__\<close>: the difference normalizes to the constant zero.\<close>

definition dim_eq :: "norm_rules \<Rightarrow> dim_size \<Rightarrow> dim_size \<Rightarrow> bool res" where
  "dim_eq rules a b = rbind (dim_sub rules a b) (\<lambda>d. Inr (d = Const 0))"

subsection \<open>Division with remainder\<close>

text \<open>One round of the loop of \<^verbatim>\<open>_divmod\<close>.\<close>

definition divmod_step :: "norm_rules \<Rightarrow> dim_size \<Rightarrow> dim_size \<Rightarrow> dim_size \<Rightarrow> (dim_size \<times> dim_size) res" where
  "divmod_step rules divisor dividend quot =
     (case dividend of
        Sym ((mon, count) # _) \<Rightarrow>
          rbind (case divisor of
                   Sym ((dterm, dcount) # _) \<Rightarrow> rbind (term_divide mon dterm) (\<lambda>qterm. Inr (qterm, dcount))
                 | Sym [] \<Rightarrow> Inl IndexError
                 | Const k \<Rightarrow> Inr (mon, k))
          (\<lambda>(qterm, dcount).
             if dcount = 0 then Inl ZeroDivisionError
             else if count mod dcount \<noteq> 0 then Inl InconclusiveDimensionOperation
             else
               rbind (from_term rules qterm (count div dcount)) (\<lambda>q.
               rbind (dim_add rules quot q) (\<lambda>quot'.
               rbind (dim_mul rules q divisor) (\<lambda>qd.
               rbind (dim_sub rules dividend qd) (\<lambda>dividend'.
               Inr (dividend', quot'))))))
      | _ \<Rightarrow> Inl IndexError)"

fun divmod_loop :: "norm_rules \<Rightarrow> dim_size \<Rightarrow> nat \<Rightarrow> dim_size \<Rightarrow> dim_size \<Rightarrow> (dim_size \<times> dim_size) res option" where
  "divmod_loop rules divisor fuel dividend quot =
     (if to_constant dividend \<noteq> None then Some (Inr (dividend, quot))
      else
        (case fuel of
           0 \<Rightarrow> None
         | Suc fuel' \<Rightarrow>
             (case divmod_step rules divisor dividend quot of
                Inl e \<Rightarrow> Some (Inl e)
              | Inr (dividend', quot') \<Rightarrow> divmod_loop rules divisor fuel' dividend' quot')))"

declare divmod_loop.simps [simp del]

definition divmod_finish :: "norm_rules \<Rightarrow> dim_size \<Rightarrow> dim_size \<Rightarrow> dim_size \<Rightarrow> (dim_size \<times> dim_size) res" where
  "divmod_finish rules divisor dividend quot =
     (let k = the (to_constant dividend) in
      case divisor of
        Sym _ \<Rightarrow> if k \<noteq> 0 then Inl InconclusiveDimensionOperation else Inr (quot, Const 0)
      | Const d \<Rightarrow>
          if d = 0 then Inl ZeroDivisionError
          else rbind (dim_add rules quot (Const (k div d))) (\<lambda>q. Inr (q, Const (k mod d))))"

definition divmod_fallback :: "norm_rules \<Rightarrow> dim_expr \<Rightarrow> dim_size \<Rightarrow> (dim_size \<times> dim_size) res" where
  "divmod_fallback rules e divisor =
     rbind (from_operation rules OpFLOORDIV [Sym e, divisor]) (\<lambda>q.
     rbind (from_operation rules OpMOD [Sym e, divisor]) (\<lambda>r. Inr (q, r)))"

definition dim_divmod :: "norm_rules \<Rightarrow> nat \<Rightarrow> dim_expr \<Rightarrow> dim_size \<Rightarrow> (dim_size \<times> dim_size) res option" where
  "dim_divmod rules fuel e divisor =
     (case divmod_loop rules divisor fuel (Sym e) (Const 0) of
        None \<Rightarrow> None
      | Some attempt \<Rightarrow>
          (case rbind attempt (\<lambda>(dividend, quot). divmod_finish rules divisor dividend quot) of
             Inl err \<Rightarrow>
               Some (if err = InconclusiveDimensionOperation then divmod_fallback rules e divisor else Inl err)
           | Inr qr \<Rightarrow> Some (Inr qr)))"

subsection \<open>Evaluation\<close>

text \<open>
  \<open>dim_value\<close> maps dimension variables to integers; \<open>zero_divmod a\<close> is what \<^verbatim>\<open>divmod(a, 0)\<close> does
  on the numbers evaluated with: Python's integers raise, NumPy's scalars return a pair.
  Values are mathematical integers: the wrap-around of \<^verbatim>\<open>dim_value_dtype\<close> is not modelled.
\<close>

record dim_env =
  dim_value :: "string \<Rightarrow> int option"
  zero_divmod :: "int \<Rightarrow> (int \<times> int) res"

definition apply_op :: "(int \<Rightarrow> (int \<times> int) res) \<Rightarrow> dim_op \<Rightarrow> int list \<Rightarrow> int res" where
  "apply_op zd oper vs =
     (case vs of
        [a, b] \<Rightarrow>
          (case oper of
             OpFLOORDIV \<Rightarrow> if b = 0 then rbind (zd a) (\<lambda>p. Inr (fst p)) else Inr (a div b)
           | OpMOD \<Rightarrow> if b = 0 then rbind (zd a) (\<lambda>p. Inr (snd p)) else Inr (a mod b)
           | OpMAX \<Rightarrow> Inr (max a b)
           | OpMIN \<Rightarrow> Inr (min a b))
      | _ \<Rightarrow> Inl (ValueError ''operands''))"

text \<open>\<open>pow_opt v p\<close> is \<^verbatim>\<open>v\<close> for \<open>p = 1\<close> and the product of \<open>p\<close> copies of it otherwise.\<close>

fun eval_factor :: "(int \<Rightarrow> (int \<times> int) res) \<Rightarrow> (string \<Rightarrow> int res) \<Rightarrow> dim_factor \<Rightarrow> int res" where
  "eval_factor zd lookup (Var v) = lookup v"
| "eval_factor zd lookup (Oper oper es) =
     rbind (rmap (\<lambda>e.
       rbind (rmap (\<lambda>p.
         rbind (rmap (\<lambda>q. rbind (eval_factor zd lookup (fst q)) (\<lambda>x. Inr (x ^ nat (snd q)))) (fst p))
           (\<lambda>xs. Inr (prod_list xs * snd p))) e)
         (\<lambda>ys. Inr (sum_list ys))) es)
       (\<lambda>vs. apply_op zd oper vs)"

definition eval_term :: "(int \<Rightarrow> (int \<times> int) res) \<Rightarrow> (string \<Rightarrow> int res) \<Rightarrow> dim_term \<Rightarrow> int res" where
  "eval_term zd lookup t =
     rbind (rmap (\<lambda>q. rbind (eval_factor zd lookup (fst q)) (\<lambda>x. Inr (x ^ nat (snd q)))) t)
       (\<lambda>xs. Inr (prod_list xs))"

definition eval_expr :: "(int \<Rightarrow> (int \<times> int) res) \<Rightarrow> (string \<Rightarrow> int res) \<Rightarrow> dim_expr \<Rightarrow> int res" where
  "eval_expr zd lookup e =
     rbind (rmap (\<lambda>p. rbind (eval_term zd lookup (fst p)) (\<lambda>x. Inr (x * snd p))) e) (\<lambda>ys. Inr (sum_list ys))"

text \<open>
  A variable without a value may have a normalization rule; \<open>depth\<close> bounds the chain of rules
  that is followed, as Python's recursion limit does.
\<close>

fun lookup_var :: "norm_rules \<Rightarrow> dim_env \<Rightarrow> nat \<Rightarrow> string \<Rightarrow> int res" where
  "lookup_var rules env depth v =
     (case dim_value env v of
        Some x \<Rightarrow> Inr x
      | None \<Rightarrow>
          rbind (from_var rules v) (\<lambda>normalized.
          case normalized of
            Const c \<Rightarrow> Inr c
          | Sym e \<Rightarrow>
              rbind (expr_to_var e) (\<lambda>v1.
              if v1 = Some v then Inl UnexpectedDimVar
              else
                (case depth of
                   0 \<Rightarrow> Inl RecursionError
                 | Suc depth' \<Rightarrow> eval_expr (zero_divmod env) (lookup_var rules env depth') e))))"

declare lookup_var.simps [simp del]

fun evaluate :: "norm_rules \<Rightarrow> dim_env \<Rightarrow> nat \<Rightarrow> dim_size \<Rightarrow> int res" where
  "evaluate rules env depth (Const k) = Inr k"
| "evaluate rules env depth (Sym e) = eval_expr (zero_divmod env) (lookup_var rules env depth) e"

end
