(* ===== verification/TypeMatch.thy ===== *)
theory TypeMatch
  imports DimOps
begin

text \<open>
  Matching of array and reference types (\<^verbatim>\<open>typematch\<close> in \<^verbatim>\<open>jax/_src/core.py\<close>): dimensions are those of
  \<open>DimExpr\<close>; dtypes, partition specs, manual axis types and memory spaces are compared only, and are type
  parameters.
\<close>

datatype axis_type = Auto_axis | Explicit_axis | Manual_axis

text \<open>An \<^verbatim>\<open>AbstractMesh\<close>: the names, sizes and types of its axes. It is empty when its size is 0.\<close>

type_synonym mesh = "(string \<times> nat \<times> axis_type) list"

definition mesh_empty :: "mesh \<Rightarrow> bool" where
  "mesh_empty m \<longleftrightarrow> (if m = [] then 0 else prod_list (map (\<lambda>(_, n, _). n) m)) = 0"

definition any_axis_explicit :: "mesh \<Rightarrow> bool" where
  "any_axis_explicit m \<longleftrightarrow> list_ex (\<lambda>(_, _, ty). ty = Explicit_axis) m"

record ('d, 'p, 'm, 's) shaped_array =
  shape :: "dim_size list"
  dtype :: 'd
  weak_type :: bool
  sharding_mesh :: mesh
  sharding_spec :: 'p
  mat :: 'm
  memory_space :: 's

text \<open>Equality of references ignores their kind, which is left out.\<close>

datatype ('d, 'p, 'm, 's) abstract_value =
    Shaped "('d, 'p, 'm, 's) shaped_array"
  | AbstractRef "('d, 'p, 'm, 's) abstract_value" "'s option"
  | OtherAval nat

fun normalize_aval :: "('d, 'p, 'm, 's) abstract_value \<Rightarrow> ('d, 'p, 'm, 's) abstract_value" where
  "normalize_aval (Shaped a) = Shaped (a\<lparr>weak_type := False\<rparr>)"
| "normalize_aval (AbstractRef inner ms) = AbstractRef (normalize_aval inner) ms"
| "normalize_aval (OtherAval n) = OtherAval n"

definition definitely_equal :: "norm_rules \<Rightarrow> dim_size \<Rightarrow> dim_size \<Rightarrow> bool res" where
  "definitely_equal rules x y =
     (if x = y then Inr True
      else case dim_eq rules x y of
        Inl e \<Rightarrow> if e = InconclusiveDimensionOperation then Inr False else Inl e
      | Inr b \<Rightarrow> Inr b)"

text \<open>\<^verbatim>\<open>all(map(...))\<close>: it stops at the first pair that is not equal.\<close>

fun all_equal :: "norm_rules \<Rightarrow> dim_size list \<Rightarrow> dim_size list \<Rightarrow> bool res" where
  "all_equal rules (x # xs) (y # ys) =
     rbind (definitely_equal rules x y) (\<lambda>ok. if ok then all_equal rules xs ys else Inr False)"
| "all_equal rules _ _ = Inr True"

definition definitely_equal_shape :: "norm_rules \<Rightarrow> dim_size list \<Rightarrow> dim_size list \<Rightarrow> bool res" where
  "definitely_equal_shape rules s1 s2 = (if length s1 = length s2 then all_equal rules s1 s2 else Inr False)"

definition cmp_shape_shd_mat_memsp ::
  "norm_rules \<Rightarrow> ('d, 'p, 'm, 's) shaped_array \<Rightarrow> ('d, 'p, 'm, 's) shaped_array \<Rightarrow> bool res" where
  "cmp_shape_shd_mat_memsp rules t1 t2 =
     (let t1_mesh = sharding_mesh t1; t2_mesh = sharding_mesh t2;
          shd_eq = (if \<not> mesh_empty t1_mesh \<and> \<not> mesh_empty t2_mesh
                    then if any_axis_explicit t1_mesh \<or> any_axis_explicit t2_mesh
                         then t1_mesh = t2_mesh \<and> sharding_spec t1 = sharding_spec t2
                         else True
                    else True) in
      if \<not> shd_eq then Inr False
      else rbind (definitely_equal_shape rules (shape t1) (shape t2)) (\<lambda>ok.
             Inr (ok \<and> mat t1 = mat t2 \<and> memory_space t1 = memory_space t2)))"

text \<open>The method normalizes its arguments and those of its recursive calls; once is enough.\<close>

fun match_normal :: "norm_rules \<Rightarrow> bool \<Rightarrow> ('d, 'p, 'm, 's) abstract_value \<Rightarrow> ('d, 'p, 'm, 's) abstract_value \<Rightarrow> bool res" where
  "match_normal rules no_dtype_check (Shaped a) (Shaped b) =
     (if a = b then Inr True
      else if no_dtype_check \<or> dtype a = dtype b then cmp_shape_shd_mat_memsp rules a b
      else Inr False)"
| "match_normal rules no_dtype_check (AbstractRef i1 m1) (AbstractRef i2 m2) =
     (if AbstractRef i1 m1 = AbstractRef i2 m2 then Inr True
      else rbind (match_normal rules no_dtype_check i1 i2) (\<lambda>ok.
             Inr (ok \<and> (m1 = None \<or> m2 = None \<or> m1 = m2))))"
| "match_normal rules no_dtype_check t1 t2 = Inr (t1 = t2)"

definition typematch_aval :: "norm_rules \<Rightarrow> bool \<Rightarrow> ('d, 'p, 'm, 's) abstract_value \<Rightarrow> ('d, 'p, 'm, 's) abstract_value \<Rightarrow> bool res" where
  "typematch_aval rules no_dtype_check t1 t2 = match_normal rules no_dtype_check (normalize_aval t1) (normalize_aval t2)"

lemma normalize_aval_idem [simp]: "normalize_aval (normalize_aval t) = normalize_aval t"
  by (induction t) simp_all

text \<open>Types without wildcards: static shapes, a mesh with an explicit axis, and a memory space for every reference.\<close>

fun definite_aval :: "('d, 'p, 'm, 's) abstract_value \<Rightarrow> bool" where
  "definite_aval (Shaped a) \<longleftrightarrow>
     list_all (\<lambda>d. case d of Const _ \<Rightarrow> True | Sym _ \<Rightarrow> False) (shape a) \<and>
     \<not> mesh_empty (sharding_mesh a) \<and> any_axis_explicit (sharding_mesh a)"
| "definite_aval (AbstractRef inner ms) \<longleftrightarrow> definite_aval inner \<and> ms \<noteq> None"
| "definite_aval (OtherAval n) = True"

lemma all_equal_static:
  "list_all (\<lambda>d. case d of Const _ \<Rightarrow> True | Sym _ \<Rightarrow> False) xs \<Longrightarrow>
   list_all (\<lambda>d. case d of Const _ \<Rightarrow> True | Sym _ \<Rightarrow> False) ys \<Longrightarrow> length xs = length ys \<Longrightarrow>
   all_equal rules xs ys = Inr (xs = ys)"
  by (induction rules xs ys rule: all_equal.induct)
     (auto simp: definitely_equal_def dim_eq_def split: dim_size.splits)

lemma match_normal_definite:
  assumes "definite_aval t1" "definite_aval t2" "normalize_aval t1 = t1" "normalize_aval t2 = t2"
  shows "match_normal rules False t1 t2 = Inr (t1 = t2)"
  using assms
proof (induction rules "False" t1 t2 rule: match_normal.induct)
  case (1 rules a b)
  have "weak_type a = weak_type b" using 1 by (cases a; cases b) simp
  then have "a = b \<longleftrightarrow> dtype a = dtype b \<and> sharding_mesh a = sharding_mesh b \<and> sharding_spec a = sharding_spec b \<and>
      shape a = shape b \<and> mat a = mat b \<and> memory_space a = memory_space b"
    by (cases a; cases b) auto
  then show ?case
    using 1 all_equal_static [of "shape a" "shape b" rules]
    by (auto simp: cmp_shape_shd_mat_memsp_def definitely_equal_shape_def Let_def)
qed auto

text \<open>
  C6: On types without wildcards, \<^verbatim>\<open>typematch\<close> is equality up to weak types: when all dimensions are integers, every
  mesh has an explicit axis and every reference a memory space, two types match if and
  only if they are equal once their weak types are stripped, and no comparison raises.
\<close>

theorem typematch_definite:
  assumes "definite_aval t1" "definite_aval t2"
  shows "typematch_aval rules False t1 t2 = Inr (normalize_aval t1 = normalize_aval t2)"
proof -
  have "definite_aval (normalize_aval t)" if "definite_aval t" for t :: "('a, 'b, 'c, 'd) abstract_value"
    using that by (induction t) simp_all
  then show ?thesis using assms unfolding typematch_aval_def by (intro match_normal_definite) simp_all
qed

definition f32_array :: "int \<Rightarrow> bool \<Rightarrow> (nat, nat, nat, nat) abstract_value" where
  "f32_array n weak = Shaped \<lparr>shape = [Const n, Const 3], dtype = 32, weak_type = weak,
     sharding_mesh = [(''x'', 2, Explicit_axis)], sharding_spec = 0, mat = 0, memory_space = 0\<rparr>"

theorem typematch_definite_witness:
  "typematch_aval [] False (AbstractRef (f32_array 4 True) (Some 1)) (AbstractRef (f32_array 4 False) (Some 1)) = Inr True \<and>
   typematch_aval [] False (f32_array 4 True) (f32_array 5 True) = Inr False"
proof -
  have d: "definite_aval (f32_array n weak)" for n weak
    by (simp add: f32_array_def mesh_empty_def any_axis_explicit_def)
  then have "definite_aval (AbstractRef (f32_array n weak) (Some 1))" for n weak by simp
  from typematch_definite [OF this this, of "[]" 4 True 4 False] typematch_definite [OF d d, of "[]" 4 True 5 True]
  show ?thesis by (simp add: f32_array_def)
qed

text \<open>With wildcards it is no equivalence: two references in different memory spaces match one without, but not each other.\<close>

theorem typematch_not_transitive:
  "typematch_aval [] False (AbstractRef (f32_array 4 True) (Some 1)) (AbstractRef (f32_array 4 True) None) = Inr True \<and>
   typematch_aval [] False (AbstractRef (f32_array 4 True) None) (AbstractRef (f32_array 4 True) (Some 2)) = Inr True \<and>
   typematch_aval [] False (AbstractRef (f32_array 4 True) (Some 1)) (AbstractRef (f32_array 4 True) (Some 2)) = Inr False"
  by (simp add: typematch_aval_def f32_array_def)

end
