(* ===== verification/Dtypes.thy ===== *)
theory Dtypes
  imports Prelude
begin

text \<open>
  \<^verbatim>\<open>jax/_src/dtypes.py\<close>: JAX's dtypes, their canonical forms, and type promotion as least
  upper bounds on a directed graph of types. The locale \<open>promotion_order\<close> states what the
  tables of upper bounds have to be (a partial order); inside it the least upper bound is
  shown to be unique, least and independent of the grouping of its operands, and the
  tables the source builds are interpretations.
\<close>

subsection \<open>Dtypes and JAX types\<close>

datatype dtype =
    DBool
  | UInt1 | UInt2 | UInt4 | UInt8 | UInt16 | UInt32 | UInt64
  | Int1 | Int2 | Int4 | Int8 | Int16 | Int32 | Int64
  | Float4_e2m1fn | Float8_e3m4 | Float8_e4m3 | Float8_e8m0fnu | Float8_e4m3b11fnuz
  | Float8_e4m3fn | Float8_e4m3fnuz | Float8_e5m2 | Float8_e5m2fnuz
  | BFloat16 | Float16 | Float32 | Float64 | Complex64 | Complex128
  | Float0 | StringDType
  | Extended nat \<comment> \<open>an extended dtype, such as a PRNG key type\<close>
  | OtherDType string \<comment> \<open>any other NumPy dtype\<close>

text \<open>The Python scalar types; \<^verbatim>\<open>int\<close>, \<^verbatim>\<open>float\<close> and \<^verbatim>\<open>complex\<close> stand for weak types.\<close>

datatype scalar_type = PyBool | PyInt | PyFloat | PyComplex

datatype jax_type = D dtype | W scalar_type

datatype numpy_promotion = STANDARD | STRICT | UnknownPromotion

datatype explicit_x64_mode = ALLOW | WARN | ERROR

text \<open>\<^verbatim>\<open>has_int1\<close>: the installed \<^verbatim>\<open>ml_dtypes\<close> has the one-bit integers.\<close>

record dtype_config =
  enable_x64 :: bool
  numpy_dtype_promotion :: numpy_promotion
  explicit_x64_dtypes :: explicit_x64_mode
  has_int1 :: bool

definition custom_float_dtypes :: "dtype list" where
  "custom_float_dtypes = [Float4_e2m1fn, Float8_e3m4, Float8_e4m3, Float8_e8m0fnu, Float8_e4m3b11fnuz,
     Float8_e4m3fn, Float8_e4m3fnuz, Float8_e5m2, Float8_e5m2fnuz, BFloat16]"

definition weak_types :: "jax_type list" where
  "weak_types = [W PyInt, W PyFloat, W PyComplex]"

definition unsigned_types :: "bool \<Rightarrow> dtype list" where
  "unsigned_types int1 = (if int1 then [UInt1] else []) @ [UInt2, UInt4, UInt8, UInt16, UInt32, UInt64]"

definition signed_types :: "bool \<Rightarrow> dtype list" where
  "signed_types int1 = (if int1 then [Int1] else []) @ [Int2, Int4, Int8, Int16, Int32, Int64]"

definition int_types :: "bool \<Rightarrow> dtype list" where
  "int_types int1 = unsigned_types int1 @ signed_types int1"

definition float_types :: "dtype list" where
  "float_types = custom_float_dtypes @ [Float16, Float32, Float64]"

definition complex_types :: "dtype list" where
  "complex_types = [Complex64, Complex128]"

definition jax_types :: "bool \<Rightarrow> dtype list" where
  "jax_types int1 = [DBool] @ int_types int1 @ float_types @ complex_types"

definition jax_dtype_set :: "bool \<Rightarrow> dtype set" where
  "jax_dtype_set int1 = set ([Float0, StringDType] @ jax_types int1)"

fun is_extended :: "dtype \<Rightarrow> bool" where
  "is_extended (Extended _) = True"
| "is_extended _ = False"

subsection \<open>Defaults and canonical forms\<close>

definition default_int_dtype :: "dtype_config \<Rightarrow> dtype" where
  "default_int_dtype cfg = (if enable_x64 cfg then Int64 else Int32)"

definition default_uint_dtype :: "dtype_config \<Rightarrow> dtype" where
  "default_uint_dtype cfg = (if enable_x64 cfg then UInt64 else UInt32)"

definition default_float_dtype :: "dtype_config \<Rightarrow> dtype" where
  "default_float_dtype cfg = (if enable_x64 cfg then Float64 else Float32)"

definition default_complex_dtype :: "dtype_config \<Rightarrow> dtype" where
  "default_complex_dtype cfg = (if enable_x64 cfg then Complex128 else Complex64)"

definition default_types :: "dtype_config \<Rightarrow> (char \<rightharpoonup> dtype)" where
  "default_types cfg = map_of [(CHR ''b'', DBool), (CHR ''i'', default_int_dtype cfg),
     (CHR ''u'', default_uint_dtype cfg), (CHR ''f'', default_float_dtype cfg),
     (CHR ''c'', default_complex_dtype cfg)]"

fun default_typemap :: "dtype_config \<Rightarrow> scalar_type \<Rightarrow> dtype" where
  "default_typemap cfg PyBool = DBool"
| "default_typemap cfg PyInt = default_int_dtype cfg"
| "default_typemap cfg PyFloat = default_float_dtype cfg"
| "default_typemap cfg PyComplex = default_complex_dtype cfg"

fun dtype_to_32bit_dtype :: "dtype \<Rightarrow> dtype option" where
  "dtype_to_32bit_dtype Int64 = Some Int32"
| "dtype_to_32bit_dtype UInt64 = Some UInt32"
| "dtype_to_32bit_dtype Float64 = Some Float32"
| "dtype_to_32bit_dtype Complex128 = Some Complex64"
| "dtype_to_32bit_dtype _ = None"

definition dtype_to_inexact :: "dtype \<rightharpoonup> dtype" where
  "dtype_to_inexact = map_of [(DBool, Float32), (UInt4, Float32), (Int4, Float32),
     (UInt8, Float32), (Int8, Float32), (UInt16, Float32), (Int16, Float32),
     (UInt32, Float32), (Int32, Float32), (UInt64, Float64), (Int64, Float64)]"

definition dict_get :: "('k \<rightharpoonup> 'v) \<Rightarrow> 'k \<Rightarrow> 'v \<Rightarrow> 'v" where
  "dict_get m k d = (case m k of None \<Rightarrow> d | Some v \<Rightarrow> v)"

definition to_numeric_dtype :: "dtype \<Rightarrow> dtype" where
  "to_numeric_dtype d = (if d = DBool then Int32 else d)"

definition to_inexact_dtype :: "dtype \<Rightarrow> dtype" where
  "to_inexact_dtype d = dict_get dtype_to_inexact d d"

definition to_complex_dtype :: "dtype \<Rightarrow> dtype" where
  "to_complex_dtype d = (if to_inexact_dtype d \<in> {Float64, Complex128} then Complex128 else Complex64)"

definition canonicalize_dtype :: "dtype_config \<Rightarrow> bool \<Rightarrow> dtype \<Rightarrow> dtype res" where
  "canonicalize_dtype cfg allow_extended d =
     (if is_extended d
      then (if allow_extended then Inr d else Inl (ValueError ''extended dtype''))
      else if enable_x64 cfg then Inr d
      else Inr (dict_get dtype_to_32bit_dtype d d))"

fun python_scalar_types_to_dtypes :: "scalar_type \<Rightarrow> dtype" where
  "python_scalar_types_to_dtypes PyBool = DBool"
| "python_scalar_types_to_dtypes PyInt = Int64"
| "python_scalar_types_to_dtypes PyFloat = Float64"
| "python_scalar_types_to_dtypes PyComplex = Complex128"

text \<open>\<^verbatim>\<open>np.iinfo\<close> of the two dtypes a Python \<^verbatim>\<open>int\<close> may get.\<close>

definition int_bits :: "dtype \<Rightarrow> nat" where
  "int_bits d = (if d = Int64 then 64 else 32)"

definition iinfo_min :: "dtype \<Rightarrow> int" where
  "iinfo_min d = - (2 ^ (int_bits d - 1))"

definition iinfo_max :: "dtype \<Rightarrow> int" where
  "iinfo_max d = 2 ^ (int_bits d - 1) - 1"

definition scalar_type_to_dtype :: "dtype_config \<Rightarrow> scalar_type \<Rightarrow> int option \<Rightarrow> dtype res" where
  "scalar_type_to_dtype cfg typ val =
     rbind (canonicalize_dtype cfg False (python_scalar_types_to_dtypes typ)) (\<lambda>d.
     case val of
       Some v \<Rightarrow>
         if typ = PyInt \<and> (v < iinfo_min d \<or> v > iinfo_max d) then Inl OverflowError else Inr d
     | None \<Rightarrow> Inr d)"

definition maybe_canonicalize_explicit_dtype :: "dtype_config \<Rightarrow> dtype \<Rightarrow> dtype res" where
  "maybe_canonicalize_explicit_dtype cfg d =
     (if explicit_x64_dtypes cfg = ALLOW \<or> enable_x64 cfg then Inr d
      else rbind (canonicalize_dtype cfg False d) (\<lambda>c.
        if c = d then Inr d
        else if explicit_x64_dtypes cfg = ERROR then Inl (ValueError ''explicit x64'')
        else Inr c))"

definition check_valid_dtype :: "bool \<Rightarrow> dtype \<Rightarrow> unit res" where
  "check_valid_dtype int1 d = (if d \<in> jax_dtype_set int1 then Inr () else Inl (TypeError ''dtype''))"

subsection \<open>Kinds\<close>

datatype dtype_kind = KindStr string | KindDType dtype | KindInvalid

definition dtype_kinds :: "bool \<Rightarrow> (string \<rightharpoonup> dtype set)" where
  "dtype_kinds int1 = map_of
     [(''bool'', {DBool}),
      (''signed integer'', set (signed_types int1)),
      (''unsigned integer'', set (unsigned_types int1)),
      (''integral'', set (signed_types int1) \<union> set (unsigned_types int1)),
      (''real floating'', set float_types),
      (''complex floating'', set complex_types),
      (''numeric'', set (signed_types int1) \<union> set (unsigned_types int1) \<union> set float_types \<union> set complex_types)]"

text \<open>\<open>np_dtype\<close> reads a string that is not a kind as NumPy does, \<open>None\<close> where it raises.\<close>

fun kind_options :: "bool \<Rightarrow> (string \<Rightarrow> dtype option) \<Rightarrow> dtype_kind \<Rightarrow> dtype set res" where
  "kind_options int1 np_dtype (KindStr s) =
     (case dtype_kinds int1 s of
        Some ds \<Rightarrow> Inr ds
      | None \<Rightarrow> (case np_dtype s of Some d \<Rightarrow> Inr {d} | None \<Rightarrow> Inl (ValueError ''kind'')))"
| "kind_options int1 np_dtype (KindDType d) = Inr {d}"
| "kind_options int1 np_dtype KindInvalid = Inl (TypeError ''kind'')"

definition isdtype :: "bool \<Rightarrow> (string \<Rightarrow> dtype option) \<Rightarrow> dtype \<Rightarrow> dtype_kind list \<Rightarrow> bool res" where
  "isdtype int1 np_dtype d kinds =
     rbind (rmap (kind_options int1 np_dtype) kinds) (\<lambda>opts. Inr (d \<in> \<Union> (set opts)))"

subsection \<open>The promotion lattice\<close>

type_synonym lattice = "(jax_type \<times> jax_type list) list"

definition small_float_types :: "dtype list" where
  "small_float_types = [Float4_e2m1fn, Float8_e3m4, Float8_e4m3, Float8_e8m0fnu, Float8_e4m3b11fnuz,
     Float8_e4m3fn, Float8_e4m3fnuz, Float8_e5m2, Float8_e5m2fnuz]"

definition type_promotion_lattice :: "bool \<Rightarrow> bool \<Rightarrow> bool \<Rightarrow> lattice" where
  "type_promotion_lattice int1 strict x64 =
     (if \<not> strict then
        [(D DBool, [W PyInt]),
         (W PyInt, map D ([UInt8, UInt2, UInt4, Int8, Int2, Int4] @ (if int1 then [Int1, UInt1] else []))),
         (D UInt2, []), (D UInt4, []),
         (D UInt8, [D Int16, D UInt16]),
         (D UInt16, [D Int32, D UInt32]),
         (D UInt32, if x64 then [D Int64, D UInt64] else [D Int32, D UInt64]),
         (D UInt64, [W PyFloat]),
         (D Int2, []), (D Int4, []),
         (D Int8, [D Int16]), (D Int16, [D Int32]), (D Int32, [D Int64]),
         (D Int64, [W PyFloat]),
         (W PyFloat, map D (small_float_types @ [BFloat16, Float16]) @ [W PyComplex])]
        @ map (\<lambda>t. (D t, [])) small_float_types
        @ [(D BFloat16, [D Float32]), (D Float16, [D Float32]),
           (D Float32, [D Float64, D Complex64]), (D Float64, [D Complex128]),
           (W PyComplex, [D Complex64]), (D Complex64, [D Complex128]), (D Complex128, [])]
        @ (if int1 then [(D Int1, []), (D UInt1, [])] else [])
      else
        [(W PyInt, W PyFloat # map D (int_types int1)),
         (W PyFloat, W PyComplex # map D float_types),
         (W PyComplex, map D complex_types)]
        @ map (\<lambda>t. (D t, [])) (jax_types int1))"

definition lattice_next :: "lattice \<Rightarrow> jax_type set \<Rightarrow> jax_type set" where
  "lattice_next lat ub = (\<Union>b \<in> ub. case map_of lat b of None \<Rightarrow> {} | Some ts \<Rightarrow> set ts)"

text \<open>
  The loop that closes one set of upper bounds. Every round adds a node of the lattice or
  stops, so the number of nodes not yet in the set decreases.
\<close>

function close_upper_bounds :: "lattice \<Rightarrow> jax_type \<Rightarrow> jax_type set \<Rightarrow> jax_type set res" where
  "close_upper_bounds lat n ub =
     (if \<not> ub \<subseteq> set (map fst lat) then Inl KeyError
      else
        let new = lattice_next lat ub in
        if n \<in> new then Inl (ValueError ''cycle'')
        else if new \<subseteq> ub then Inr ub
        else close_upper_bounds lat n (ub \<union> new))"
  by auto
termination
proof (relation "measure (\<lambda>(lat, n, ub). if ub \<subseteq> set (map fst lat) then Suc (card (set (map fst lat) - ub)) else 0)")
  fix lat :: lattice and n :: jax_type and ub new :: "jax_type set"
  assume "\<not> \<not> ub \<subseteq> set (map fst lat)" and "\<not> new \<subseteq> ub"
  then have "card (set (map fst lat) - (ub \<union> new)) < card (set (map fst lat) - ub)"
    if "ub \<union> new \<subseteq> set (map fst lat)"
    using that by (intro psubset_card_mono) auto
  then show "((lat, n, ub \<union> new), lat, n, ub)
      \<in> measure (\<lambda>(lat, n, ub). if ub \<subseteq> set (map fst lat) then Suc (card (set (map fst lat) - ub)) else 0)"
    using \<open>\<not> \<not> ub \<subseteq> set (map fst lat)\<close> by auto
qed simp

declare close_upper_bounds.simps [simp del]

definition make_lattice_upper_bounds :: "bool \<Rightarrow> bool \<Rightarrow> bool \<Rightarrow> (jax_type \<times> jax_type set) list res" where
  "make_lattice_upper_bounds int1 strict x64 =
     (let lat = type_promotion_lattice int1 strict x64 in
      rmap (\<lambda>n. rbind (close_upper_bounds lat n {n}) (\<lambda>ub. Inr (n, ub))) (map fst lat))"

text \<open>The tables are module constants, built on import.\<close>

definition ub_table :: "dtype_config \<Rightarrow> (jax_type \<times> jax_type set) list res" where
  "ub_table cfg =
     (case numpy_dtype_promotion cfg of
        STRICT \<Rightarrow> make_lattice_upper_bounds (has_int1 cfg) True True
      | STANDARD \<Rightarrow> make_lattice_upper_bounds (has_int1 cfg) False (enable_x64 cfg)
      | UnknownPromotion \<Rightarrow> Inl (ValueError ''jax_numpy_dtype_promotion''))"

text \<open>
  \<open>lub_candidates UB N\<close> is the set \<open>LUB\<close> of the source, for a table \<open>UB\<close> and nodes \<open>N\<close>;
  \<open>UB\<close> gives the empty set where the table has no entry.
\<close>

definition common_upper_bounds :: "('a \<Rightarrow> 'a set) \<Rightarrow> 'a set \<Rightarrow> 'a set" where
  "common_upper_bounds UB N = \<Inter> (UB ` N)"

definition lub_candidates :: "('a \<Rightarrow> 'a set) \<Rightarrow> 'a set \<Rightarrow> 'a set" where
  "lub_candidates UB N =
     (let CUB = common_upper_bounds UB N in
      if CUB \<inter> N \<noteq> {} then CUB \<inter> N else {c \<in> CUB. CUB \<subseteq> UB c})"

definition table_fun :: "('a \<times> 'a set) list \<Rightarrow> 'a \<Rightarrow> 'a set" where
  "table_fun tab n = (case map_of tab n of None \<Rightarrow> {} | Some ub \<Rightarrow> ub)"

definition least_upper_bound :: "dtype_config \<Rightarrow> jax_type list \<Rightarrow> jax_type res" where
  "least_upper_bound cfg nodes =
     rbind (ub_table cfg) (\<lambda>tab.
     if \<not> list_all (\<lambda>n. n \<in> set (map fst tab)) nodes then Inl (ValueError ''not a valid dtype'')
     else if nodes = [] then Inl (TypeError ''set.intersection'')
     else
       let LUB = lub_candidates (table_fun tab) (set nodes) in
       if LUB = {} then Inl TypePromotionError
       else if is_singleton LUB then Inr (the_elem LUB)
       else Inl (ValueError ''Internal Type Promotion error''))"

subsection \<open>Tables of upper bounds\<close>

locale promotion_order =
  fixes nodes :: "'a set" and UB :: "'a \<Rightarrow> 'a set"
  assumes ub_nodes: "n \<in> nodes \<Longrightarrow> UB n \<subseteq> nodes"
    and ub_refl: "n \<in> nodes \<Longrightarrow> n \<in> UB n"
    and ub_trans: "n \<in> nodes \<Longrightarrow> m \<in> UB n \<Longrightarrow> UB m \<subseteq> UB n"
    and ub_antisym: "n \<in> nodes \<Longrightarrow> m \<in> UB n \<Longrightarrow> n \<in> UB m \<Longrightarrow> m = n"
begin

lemma cub_nodes: "N \<subseteq> nodes \<Longrightarrow> N \<noteq> {} \<Longrightarrow> common_upper_bounds UB N \<subseteq> nodes"
  using ub_nodes by (auto simp: common_upper_bounds_def)

text \<open>The shortcut of the source (a common upper bound among the operands) changes nothing.\<close>

lemma candidates_eq:
  assumes "N \<subseteq> nodes" and "N \<noteq> {}"
  shows "lub_candidates UB N =
     {c \<in> common_upper_bounds UB N. common_upper_bounds UB N \<subseteq> UB c}"
proof (cases "common_upper_bounds UB N \<inter> N = {}")
  case True
  then show ?thesis by (simp add: lub_candidates_def Let_def)
next
  case False
  then obtain c0 where c0: "c0 \<in> common_upper_bounds UB N" "c0 \<in> N" by blast
  have least: "common_upper_bounds UB N \<subseteq> UB c" if "c \<in> N" for c
    using that by (auto simp: common_upper_bounds_def)
  have "c \<in> N" if "c \<in> common_upper_bounds UB N" "common_upper_bounds UB N \<subseteq> UB c" for c
  proof -
    from that c0 least [OF c0(2)] have "c0 \<in> UB c" "c \<in> UB c0" by auto
    with ub_antisym [of c0 c] c0(2) assms(1) show ?thesis by auto
  qed
  with False least show ?thesis by (auto simp: lub_candidates_def)
qed

lemma candidates_unique:
  assumes "N \<subseteq> nodes" "N \<noteq> {}" "c \<in> lub_candidates UB N" "d \<in> lub_candidates UB N"
  shows "c = d"
proof -
  from assms have "c \<in> UB d" "d \<in> UB c" "d \<in> nodes"
    using cub_nodes [OF assms(1,2)] by (auto simp: candidates_eq)
  then show ?thesis using ub_antisym by blast
qed

lemma candidates_singleton:
  assumes "N \<subseteq> nodes" "N \<noteq> {}" and "lub_candidates UB N \<noteq> {}"
  shows "is_singleton (lub_candidates UB N)"
proof -
  from assms(3) obtain c where "c \<in> lub_candidates UB N" by blast
  with candidates_unique [OF assms(1,2)] have "lub_candidates UB N = {c}" by blast
  then show ?thesis by (simp add: is_singleton_def)
qed

lemma candidate_least:
  assumes "N \<subseteq> nodes" "N \<noteq> {}" and "c \<in> lub_candidates UB N"
  shows "c \<in> nodes" and "\<forall>n \<in> N. c \<in> UB n" and "common_upper_bounds UB N = UB c"
proof -
  from assms have c: "c \<in> common_upper_bounds UB N" "common_upper_bounds UB N \<subseteq> UB c"
    by (simp_all add: candidates_eq)
  then show "c \<in> nodes" "\<forall>n \<in> N. c \<in> UB n"
    using cub_nodes [OF assms(1,2)] by (auto simp: common_upper_bounds_def)
  have "UB c \<subseteq> common_upper_bounds UB N"
    using c(1) ub_trans assms(1) by (auto simp: common_upper_bounds_def)
  with c(2) show "common_upper_bounds UB N = UB c" by blast
qed

text \<open>Grouping: a group of operands may be replaced by its least upper bound.\<close>

lemma candidates_group:
  assumes "N \<subseteq> nodes" "N \<noteq> {}" "M \<subseteq> nodes" and "lub_candidates UB N = {c}"
  shows "lub_candidates UB (insert c M) = lub_candidates UB (N \<union> M)"
proof -
  have c: "c \<in> nodes" "common_upper_bounds UB N = UB c"
    using candidate_least [OF assms(1,2)] assms(4) by auto
  have "common_upper_bounds UB (insert c M) = common_upper_bounds UB (N \<union> M)"
    using c(2) by (auto simp: common_upper_bounds_def)
  with c(1) assms show ?thesis by (simp add: candidates_eq)
qed

end

text \<open>The check that a table is a partial order, and the tables of the source pass it.\<close>

definition order_table :: "('a \<times> 'a set) list \<Rightarrow> bool" where
  "order_table tab \<longleftrightarrow>
     list_all (\<lambda>(n, ub). n \<in> ub \<and> ub \<subseteq> set (map fst tab) \<and>
        (\<forall>m \<in> ub. table_fun tab m \<subseteq> ub \<and> (n \<in> table_fun tab m \<longrightarrow> m = n))) tab"

definition upper_bounds_of :: "bool \<Rightarrow> bool \<Rightarrow> bool \<Rightarrow> (jax_type \<times> jax_type set) list" where
  "upper_bounds_of int1 strict x64 =
     (case make_lattice_upper_bounds int1 strict x64 of Inr tab \<Rightarrow> tab | Inl _ \<Rightarrow> [])"

definition lattice_checked :: "bool \<Rightarrow> bool \<Rightarrow> bool \<Rightarrow> bool" where
  "lattice_checked int1 strict x64 =
     (case make_lattice_upper_bounds int1 strict x64 of
        Inr tab \<Rightarrow> order_table tab \<and> map fst tab = map fst (type_promotion_lattice int1 strict x64)
      | Inl _ \<Rightarrow> False)"

lemma lattice_checked_standard_x64: "lattice_checked True False True"
  by code_simp

lemma lattice_checked_standard_x32: "lattice_checked True False False"
  by code_simp

lemma lattice_checked_strict: "lattice_checked True True True"
  by code_simp

lemma lattice_checked_strict_x32: "lattice_checked True True False"
  by code_simp

lemma lattice_checked_no_int1:
  "lattice_checked False False True" "lattice_checked False False False"
  "lattice_checked False True True" "lattice_checked False True False"
  by code_simp+

lemma lattice_checked: "lattice_checked int1 strict x64"
  using lattice_checked_standard_x64 lattice_checked_standard_x32 lattice_checked_strict
    lattice_checked_strict_x32 lattice_checked_no_int1
  by (cases int1; cases strict; cases x64) simp_all

lemma order_tableD:
  assumes "order_table tab" and "map_of tab n = Some ub"
  shows "n \<in> ub" "ub \<subseteq> set (map fst tab)"
    "\<forall>m \<in> ub. table_fun tab m \<subseteq> ub \<and> (n \<in> table_fun tab m \<longrightarrow> m = n)"
proof -
  have "case (n, ub) of (n, ub) \<Rightarrow> n \<in> ub \<and> ub \<subseteq> set (map fst tab) \<and>
      (\<forall>m \<in> ub. table_fun tab m \<subseteq> ub \<and> (n \<in> table_fun tab m \<longrightarrow> m = n))"
    using assms(1) map_of_SomeD [OF assms(2)] unfolding order_table_def list_all_iff by blast
  then show "n \<in> ub" "ub \<subseteq> set (map fst tab)"
    "\<forall>m \<in> ub. table_fun tab m \<subseteq> ub \<and> (n \<in> table_fun tab m \<longrightarrow> m = n)"
    unfolding prod.case by blast+
qed

lemma table_fun_Some:
  "n \<in> set (map fst tab) \<Longrightarrow> \<exists>ub. map_of tab n = Some ub \<and> table_fun tab n = ub"
proof -
  assume "n \<in> set (map fst tab)"
  then have "map_of tab n \<noteq> None" by (simp add: map_of_eq_None_iff)
  then show ?thesis by (auto simp: table_fun_def)
qed

lemma order_table_promotion_order:
  assumes "order_table tab" shows "promotion_order (set (map fst tab)) (table_fun tab)"
proof
  fix n assume "n \<in> set (map fst tab)"
  from table_fun_Some [OF this] obtain ub where ub: "map_of tab n = Some ub" "table_fun tab n = ub"
    by (elim exE conjE)
  note f = order_tableD [OF assms ub(1)]
  show "table_fun tab n \<subseteq> set (map fst tab)" "n \<in> table_fun tab n" using f ub by simp_all
  fix m assume m: "m \<in> table_fun tab n"
  then show "table_fun tab m \<subseteq> table_fun tab n" using f(3) unfolding ub(2) by blast
  assume "n \<in> table_fun tab m"
  then show "m = n" using f(3) m unfolding ub(2) by blast
qed

lemma upper_bounds_of_order: "order_table (upper_bounds_of int1 strict x64)"
  using lattice_checked [of int1 strict x64]
  by (auto simp: lattice_checked_def upper_bounds_of_def split: sum.splits)

interpretation promo: promotion_order
    "set (map fst (upper_bounds_of int1 strict x64))" "table_fun (upper_bounds_of int1 strict x64)"
  for int1 strict x64
  by (rule order_table_promotion_order) (rule upper_bounds_of_order)

text \<open>A table holds what is reachable in the graph.\<close>

definition lattice_edges :: "lattice \<Rightarrow> (jax_type \<times> jax_type) set" where
  "lattice_edges lat = {(a, b). \<exists>ts. map_of lat a = Some ts \<and> b \<in> set ts}"

lemma lattice_next_edges: "lattice_next lat ub = lattice_edges lat `` ub"
  unfolding lattice_next_def lattice_edges_def by (auto split: option.splits) force

lemma close_upper_bounds_reach:
  assumes "close_upper_bounds lat n ub = Inr r" and "ub \<subseteq> (lattice_edges lat)\<^sup>* `` {n}" and "n \<in> ub"
  shows "r = (lattice_edges lat)\<^sup>* `` {n}"
  using assms
proof (induction lat n ub rule: close_upper_bounds.induct)
  case (1 lat n ub)
  let ?new = "lattice_next lat ub"
  have new: "?new \<subseteq> (lattice_edges lat)\<^sup>* `` {n}"
    using "1.prems"(2) by (auto simp: lattice_next_edges intro: rtrancl_into_rtrancl)
  from "1.prems"(1) have ok: "ub \<subseteq> set (map fst lat)" "n \<notin> ?new"
    by (subst (asm) close_upper_bounds.simps, auto simp: Let_def split: if_splits)+
  show ?case
  proof (cases "?new \<subseteq> ub")
    case True
    with "1.prems"(1) ok have "r = ub"
      by (subst (asm) close_upper_bounds.simps) (simp add: Let_def)
    moreover have "m \<in> ub" if "(n, m) \<in> (lattice_edges lat)\<^sup>*" for m
      using that
    proof (induction rule: rtrancl_induct)
      case base
      then show ?case using "1.prems"(3) .
    next
      case (step y z)
      then have "z \<in> ?new" by (auto simp: lattice_next_edges)
      with True show ?case by blast
    qed
    ultimately show ?thesis using "1.prems"(2) by blast
  next
    case False
    have "close_upper_bounds lat n (ub \<union> ?new) = Inr r"
      using "1.prems"(1) ok False by (subst (asm) close_upper_bounds.simps) (simp add: Let_def)
    with "1.IH" [OF _ refl] ok False "1.prems"(2,3) new show ?thesis by simp
  qed
qed

lemma upper_bounds_reach_aux:
  assumes "n \<in> set (map fst (type_promotion_lattice int1 strict x64))"
  shows "table_fun (upper_bounds_of int1 strict x64) n =
     (lattice_edges (type_promotion_lattice int1 strict x64))\<^sup>* `` {n}"
proof -
  let ?lat = "type_promotion_lattice int1 strict x64"
  from lattice_checked [of int1 strict x64] obtain tab where
    tab: "make_lattice_upper_bounds int1 strict x64 = Inr tab" "map fst tab = map fst ?lat"
    by (auto simp: lattice_checked_def split: sum.splits)
  then have u: "upper_bounds_of int1 strict x64 = tab" by (simp add: upper_bounds_of_def)
  have "n \<in> set (map fst tab)" using assms unfolding tab(2) .
  from table_fun_Some [OF this] obtain ub where ub: "map_of tab n = Some ub" "table_fun tab n = ub"
    by (elim exE conjE)
  from map_of_SomeD [OF ub(1)] obtain i where i: "i < length tab" "tab ! i = (n, ub)"
    by (auto simp: in_set_conv_nth)
  with tab(1) have "rbind (close_upper_bounds ?lat (map fst ?lat ! i) {map fst ?lat ! i})
      (\<lambda>ub. Inr (map fst ?lat ! i, ub)) = Inr (n, ub)"
    by (auto simp: make_lattice_upper_bounds_def Let_def rmap_Inr_iff)
  then have "close_upper_bounds ?lat n {n} = Inr ub" by (auto simp: res_simps)
  from close_upper_bounds_reach [OF this] ub u show ?thesis by auto
qed

subsection \<open>The least upper bound of a list of types\<close>

definition cfg_table :: "dtype_config \<Rightarrow> (jax_type \<times> jax_type set) list" where
  "cfg_table cfg = upper_bounds_of (has_int1 cfg) (numpy_dtype_promotion cfg = STRICT)
     (numpy_dtype_promotion cfg = STRICT \<or> enable_x64 cfg)"

lemma ub_table_cfg:
  "numpy_dtype_promotion cfg \<noteq> UnknownPromotion \<Longrightarrow> ub_table cfg = Inr (cfg_table cfg)"
  using lattice_checked [of "has_int1 cfg" True True] lattice_checked [of "has_int1 cfg" False "enable_x64 cfg"]
  by (cases "numpy_dtype_promotion cfg")
     (auto simp: ub_table_def cfg_table_def upper_bounds_of_def lattice_checked_def split: sum.splits)

abbreviation UB :: "dtype_config \<Rightarrow> jax_type \<Rightarrow> jax_type set" where
  "UB cfg \<equiv> table_fun (cfg_table cfg)"

abbreviation cfg_nodes :: "dtype_config \<Rightarrow> jax_type set" where
  "cfg_nodes cfg \<equiv> set (map fst (cfg_table cfg))"

lemma cfg_order: "promotion_order (cfg_nodes cfg) (UB cfg)"
  unfolding cfg_table_def by (rule promo.promotion_order_axioms)

lemma least_upper_bound_Inr:
  "least_upper_bound cfg nodes = Inr c \<longleftrightarrow>
     numpy_dtype_promotion cfg \<noteq> UnknownPromotion \<and> nodes \<noteq> [] \<and> set nodes \<subseteq> cfg_nodes cfg \<and>
     lub_candidates (UB cfg) (set nodes) = {c}"
proof (cases "numpy_dtype_promotion cfg = UnknownPromotion")
  case True
  then show ?thesis by (simp add: least_upper_bound_def ub_table_def)
next
  case False
  then show ?thesis
    by (auto simp: least_upper_bound_def ub_table_cfg Let_def list_all_iff is_singleton_def subset_iff)
qed

lemma least_upper_bound_cases:
  assumes "numpy_dtype_promotion cfg \<noteq> UnknownPromotion" "nodes \<noteq> []" "set nodes \<subseteq> cfg_nodes cfg"
  shows "least_upper_bound cfg nodes =
     (if lub_candidates (UB cfg) (set nodes) = {} then Inl TypePromotionError
      else Inr (the_elem (lub_candidates (UB cfg) (set nodes))))"
proof -
  have single: "is_singleton (lub_candidates (UB cfg) (set nodes))"
    if "lub_candidates (UB cfg) (set nodes) \<noteq> {}"
    using promotion_order.candidates_singleton [OF cfg_order assms(3) _ that] assms(2) by simp
  show ?thesis
    using assms single
    by (auto simp: least_upper_bound_def ub_table_cfg Let_def list_all_iff subset_iff)
qed

end
