(* ===== verification/DtypeProps.thy ===== *)
theory DtypeProps
  imports Dtypes
begin

text \<open>
  The user-facing side of \<^verbatim>\<open>jax/_src/dtypes.py\<close>: \<^verbatim>\<open>promote_types\<close>, \<^verbatim>\<open>dtype\<close>,
  \<^verbatim>\<open>lattice_result_type\<close>, \<^verbatim>\<open>result_type\<close> and \<^verbatim>\<open>safe_to_cast\<close>, and the properties of promotion.
\<close>

subsection \<open>Promoting two types\<close>

text \<open>\<^verbatim>\<open>np.dtype\<close> of a promotion result; a Python scalar type becomes NumPy's default.\<close>

fun np_dtype :: "jax_type \<Rightarrow> dtype" where
  "np_dtype (D d) = d"
| "np_dtype (W t) = python_scalar_types_to_dtypes t"

definition promote_types :: "dtype_config \<Rightarrow> jax_type \<Rightarrow> jax_type \<Rightarrow> dtype res" where
  "promote_types cfg a b = rbind (least_upper_bound cfg [a, b]) (\<lambda>t. Inr (np_dtype t))"

subsection \<open>The dtype of a value\<close>

text \<open>
  The objects the functions are given: Python scalar types and scalars, NumPy scalar types,
  dtypes (or their names), JAX arrays with their weak-type flag, other array-likes with a
  dtype, and objects NumPy cannot type.
\<close>

datatype py_value =
    NoneValue
  | ScalarType scalar_type
  | NpScalarType dtype
  | PyScalar scalar_type
  | JaxArray dtype bool
  | DTypeObj dtype
  | NpArray dtype
  | OtherObj

definition dtype_of :: "dtype_config \<Rightarrow> py_value \<Rightarrow> dtype res" where
  "dtype_of cfg x =
     (case x of
        NoneValue \<Rightarrow> Inl (ValueError ''Invalid argument to dtype'')
      | ScalarType t \<Rightarrow> canonicalize_dtype cfg False (python_scalar_types_to_dtypes t)
      | NpScalarType d \<Rightarrow> maybe_canonicalize_explicit_dtype cfg d
      | PyScalar t \<Rightarrow> canonicalize_dtype cfg False (python_scalar_types_to_dtypes t)
      | JaxArray d _ \<Rightarrow> Inr d
      | DTypeObj d \<Rightarrow>
          if is_extended d then Inl (TypeError ''Cannot determine dtype'')
          else if d \<notin> jax_dtype_set (has_int1 cfg) then Inl (TypeError ''not a valid JAX array type'')
          else maybe_canonicalize_explicit_dtype cfg d
      | NpArray d \<Rightarrow>
          if d \<notin> jax_dtype_set (has_int1 cfg) \<and> \<not> is_extended d
          then Inl (TypeError ''not a valid JAX array type'')
          else canonicalize_dtype cfg True d
      | OtherObj \<Rightarrow> Inl (TypeError ''Cannot determine dtype''))"

definition is_weakly_typed :: "py_value \<Rightarrow> bool" where
  "is_weakly_typed x =
     (case x of PyScalar t \<Rightarrow> W t \<in> set weak_types | JaxArray _ weak \<Rightarrow> weak | _ \<Rightarrow> False)"

definition dtype_and_weaktype :: "dtype_config \<Rightarrow> py_value \<Rightarrow> (dtype \<times> bool) res" where
  "dtype_and_weaktype cfg x =
     rbind (dtype_of cfg x) (\<lambda>d.
     Inr (d, (case x of ScalarType t \<Rightarrow> W t \<in> set weak_types | _ \<Rightarrow> False) \<or> is_weakly_typed x))"

text \<open>
  \<open>item_type d\<close> is the Python type of \<^verbatim>\<open>d.type(0).item()\<close> and \<open>kind_of d\<close> NumPy's kind
  character of \<open>d\<close>; both belong to NumPy and \<^verbatim>\<open>ml_dtypes\<close>.
\<close>

definition jax_type_of :: "(dtype \<Rightarrow> jax_type) \<Rightarrow> dtype \<Rightarrow> bool \<Rightarrow> jax_type" where
  "jax_type_of item_type d weak =
     (if weak then
        (if d = DBool then D d else if d \<in> set custom_float_dtypes then W PyFloat else item_type d)
      else D d)"

fun value_of_type :: "jax_type \<Rightarrow> py_value" where
  "value_of_type (D d) = DTypeObj d"
| "value_of_type (W t) = ScalarType t"

definition lattice_result_type ::
  "dtype_config \<Rightarrow> (dtype \<Rightarrow> jax_type) \<Rightarrow> py_value list \<Rightarrow> (dtype \<times> bool) res" where
  "lattice_result_type cfg item_type args =
     rbind (rmap (dtype_and_weaktype cfg) args) (\<lambda>dws.
     let dts = map fst dws; weaks = map snd dws;
         finish = (\<lambda>(d, w). Inr (d, d \<noteq> DBool \<and> w))
     in
     case dws of
       [] \<Rightarrow> Inl (ValueError ''unpack'')
     | [(d, w)] \<Rightarrow> finish (d, w)
     | (d, w) # _ \<Rightarrow>
       if set dts = {d} \<and> \<not> list_all id weaks then finish (d, False)
       else if list_all id weaks \<and> numpy_dtype_promotion cfg \<noteq> STRICT
       then rbind (least_upper_bound cfg (map (\<lambda>d. jax_type_of item_type d False) dts)) (\<lambda>t.
            rbind (dtype_of cfg (value_of_type t)) (\<lambda>d. finish (d, True)))
       else rbind (least_upper_bound cfg (map (\<lambda>(d, w). jax_type_of item_type d w) dws)) (\<lambda>t.
            rbind (dtype_of cfg (value_of_type t)) (\<lambda>d. finish (d, t \<in> set weak_types))))"

definition result_type ::
  "dtype_config \<Rightarrow> (dtype \<Rightarrow> jax_type) \<Rightarrow> (dtype \<Rightarrow> char) \<Rightarrow> py_value list \<Rightarrow> (dtype \<times> bool) res" where
  "result_type cfg item_type kind_of args =
     (if args = [] then Inl (ValueError ''at least one array or dtype is required'')
      else
        rbind (lattice_result_type cfg item_type
                 (map (\<lambda>a. if a = NoneValue then DTypeObj (default_float_dtype cfg) else a) args))
          (\<lambda>(d, weak).
           if weak
           then (case default_types cfg (if d \<in> set custom_float_dtypes then CHR ''f'' else kind_of d) of
                   None \<Rightarrow> Inl KeyError
                 | Some d' \<Rightarrow> Inr (d', weak))
           else Inr (d, weak)))"

definition safe_to_cast ::
  "dtype_config \<Rightarrow> (dtype \<Rightarrow> jax_type) \<Rightarrow> (dtype \<Rightarrow> char) \<Rightarrow> py_value \<Rightarrow> py_value \<Rightarrow> bool res" where
  "safe_to_cast cfg item_type kind_of inp outp =
     rbind (dtype_of cfg inp) (\<lambda>input_dtype.
     rbind (dtype_of cfg outp) (\<lambda>output_dtype.
     if input_dtype = output_dtype then Inr True
     else rbind (result_type cfg item_type kind_of [inp, DTypeObj output_dtype])
            (\<lambda>(d, _). Inr (d = output_dtype))))"

definition check_and_canonicalize_user_dtype :: "dtype_config \<Rightarrow> py_value \<Rightarrow> dtype res" where
  "check_and_canonicalize_user_dtype cfg x =
     (case x of
        NoneValue \<Rightarrow> Inl (ValueError ''dtype must be specified'')
      | JaxArray _ _ \<Rightarrow> Inl (ValueError ''Passing an array as a dtype argument'')
      | ScalarType t \<Rightarrow> Inr (default_typemap cfg t)
      | NpScalarType d \<Rightarrow>
          if d \<notin> jax_dtype_set (has_int1 cfg) then Inl (TypeError ''dtype'')
          else maybe_canonicalize_explicit_dtype cfg d
      | DTypeObj d \<Rightarrow>
          if is_extended d then Inr d
          else if d \<notin> jax_dtype_set (has_int1 cfg) then Inl (TypeError ''dtype'')
          else maybe_canonicalize_explicit_dtype cfg d
      | _ \<Rightarrow> Inl (TypeError ''dtype''))"

subsection \<open>Properties\<close>

definition std64 :: dtype_config where
  "std64 = \<lparr>enable_x64 = True, numpy_dtype_promotion = STANDARD, explicit_x64_dtypes = WARN, has_int1 = True\<rparr>"

definition std32 :: dtype_config where
  "std32 = \<lparr>enable_x64 = False, numpy_dtype_promotion = STANDARD, explicit_x64_dtypes = WARN, has_int1 = True\<rparr>"

text \<open>\<open>promotes cfg a b\<close>: \<open>b\<close> is reachable from \<open>a\<close> in the promotion graph of the configuration.\<close>

definition cfg_lattice :: "dtype_config \<Rightarrow> lattice" where
  "cfg_lattice cfg = type_promotion_lattice (has_int1 cfg) (numpy_dtype_promotion cfg = STRICT)
     (numpy_dtype_promotion cfg = STRICT \<or> enable_x64 cfg)"

definition promotes :: "dtype_config \<Rightarrow> jax_type \<Rightarrow> jax_type \<Rightarrow> bool" where
  "promotes cfg a b \<longleftrightarrow> (a, b) \<in> (lattice_edges (cfg_lattice cfg))\<^sup>*"

lemma cfg_nodes_lattice: "cfg_nodes cfg = set (map fst (cfg_lattice cfg))"
proof -
  have "map fst (cfg_table cfg) = map fst (cfg_lattice cfg)"
    using lattice_checked [of "has_int1 cfg" "numpy_dtype_promotion cfg = STRICT"
        "numpy_dtype_promotion cfg = STRICT \<or> enable_x64 cfg"]
    unfolding cfg_table_def cfg_lattice_def lattice_checked_def upper_bounds_of_def
    by (cases "make_lattice_upper_bounds (has_int1 cfg) (numpy_dtype_promotion cfg = STRICT)
        (numpy_dtype_promotion cfg = STRICT \<or> enable_x64 cfg)") (simp_all only: sum.case)
  then show ?thesis by (rule arg_cong)
qed

lemma UB_promotes: "a \<in> cfg_nodes cfg \<Longrightarrow> UB cfg a = {b. promotes cfg a b}"
  using upper_bounds_reach_aux [of a "has_int1 cfg" "numpy_dtype_promotion cfg = STRICT"
      "numpy_dtype_promotion cfg = STRICT \<or> enable_x64 cfg"]
  unfolding cfg_nodes_lattice by (auto simp: cfg_table_def cfg_lattice_def promotes_def)

lemma least_upper_bound_least:
  assumes "least_upper_bound cfg nodes = Inr c"
  shows "\<forall>n \<in> set nodes. promotes cfg n c" and "\<forall>d. (\<forall>n \<in> set nodes. promotes cfg n d) \<longrightarrow> promotes cfg c d"
proof -
  from assms have n: "nodes \<noteq> []" "set nodes \<subseteq> cfg_nodes cfg" "lub_candidates (UB cfg) (set nodes) = {c}"
    by (simp_all add: least_upper_bound_Inr)
  have l: "c \<in> cfg_nodes cfg" "\<forall>n \<in> set nodes. c \<in> UB cfg n"
    "common_upper_bounds (UB cfg) (set nodes) = UB cfg c"
    using promotion_order.candidate_least [OF cfg_order n(2)] n(1,3) by auto
  show "\<forall>n \<in> set nodes. promotes cfg n c" using l(2) n(2) UB_promotes by blast
  show "\<forall>d. (\<forall>n \<in> set nodes. promotes cfg n d) \<longrightarrow> promotes cfg c d"
  proof (intro allI impI)
    fix d assume "\<forall>n \<in> set nodes. promotes cfg n d"
    then have "d \<in> common_upper_bounds (UB cfg) (set nodes)"
      using n(2) UB_promotes by (fastforce simp: common_upper_bounds_def)
    with l(1,3) UB_promotes show "promotes cfg c d" by auto
  qed
qed

text \<open>The nodes that are not 64 bits wide, and the x32 graph.\<close>

definition wide_types :: "jax_type list" where
  "wide_types = [D Int64, D UInt64, D Float64, D Complex128]"

fun narrowed :: "jax_type \<Rightarrow> jax_type" where
  "narrowed (D d) = D (dict_get dtype_to_32bit_dtype d d)"
| "narrowed (W t) = W t"

definition narrow_checked :: "bool \<Rightarrow> bool" where
  "narrow_checked int1 =
     (case make_lattice_upper_bounds int1 False False of
        Inl _ \<Rightarrow> False
      | Inr tab \<Rightarrow>
          list_all (\<lambda>c. c \<in> table_fun tab (narrowed c) \<and>
             list_all (\<lambda>(n, ub). c \<in> ub \<longrightarrow> n \<in> set wide_types \<or> narrowed c \<in> ub) tab) wide_types)"

lemma narrow_checked: "narrow_checked int1"
proof -
  have "narrow_checked True" "narrow_checked False" by code_simp+
  then show ?thesis by (cases int1) simp_all
qed

lemma narrow_upper_bound:
  assumes "enable_x64 cfg = False" "numpy_dtype_promotion cfg = STANDARD"
    and "n \<in> cfg_nodes cfg" "n \<notin> set wide_types" "c \<in> set wide_types" "c \<in> UB cfg n"
  shows "narrowed c \<in> UB cfg n" and "c \<in> UB cfg (narrowed c)"
proof -
  from narrow_checked [of "has_int1 cfg"] assms(1,2) have
    *: "c \<in> UB cfg (narrowed c)" "list_all (\<lambda>(n, ub). c \<in> ub \<longrightarrow> n \<in> set wide_types \<or> narrowed c \<in> ub) (cfg_table cfg)"
    using assms(5)
    by (auto simp: narrow_checked_def cfg_table_def upper_bounds_of_def list_all_iff split: sum.splits)
  from table_fun_Some [OF assms(3)] obtain ub where ub: "map_of (cfg_table cfg) n = Some ub" "UB cfg n = ub"
    by (elim exE conjE)
  from map_of_SomeD [OF ub(1)] *(2) have "c \<in> ub \<longrightarrow> n \<in> set wide_types \<or> narrowed c \<in> ub"
    unfolding list_all_iff by blast
  with assms(4,6) ub show "narrowed c \<in> UB cfg n" by simp
  show "c \<in> UB cfg (narrowed c)" by (rule *(1))
qed

lemma narrowed_neq: "c \<in> set wide_types \<Longrightarrow> narrowed c \<noteq> c \<and> narrowed c \<notin> set wide_types"
  by (auto simp: wide_types_def dict_get_def)

text \<open>
  C7: promotion computes least upper bounds. The result of \<^verbatim>\<open>_least_upper_bound\<close> is reachable
  from every operand in the promotion graph, and everything reachable from all operands is
  reachable from it.
\<close>

theorem least_upper_bound_correct:
  assumes "least_upper_bound cfg nodes = Inr c"
  shows "(\<forall>n \<in> set nodes. promotes cfg n c) \<and>
     (\<forall>d. (\<forall>n \<in> set nodes. promotes cfg n d) \<longrightarrow> promotes cfg c d)"
  using least_upper_bound_least [OF assms] by blast

theorem least_upper_bound_correct_witness:
  "least_upper_bound std64 [D UInt8, D Int8] = Inr (D Int16) \<and>
   promotes std64 (D UInt8) (D Int16) \<and> promotes std64 (D Int8) (D Int16)"
proof -
  have e: "least_upper_bound std64 [D UInt8, D Int8] = Inr (D Int16)" by code_simp
  from least_upper_bound_correct [OF e] e show ?thesis by simp
qed

text \<open>
  C9: promotion is total up to \<^verbatim>\<open>TypePromotionError\<close>: on valid nodes the internal error about an
  ill-formed lattice is never raised, under every configuration.
\<close>

theorem least_upper_bound_no_internal_error:
  assumes "numpy_dtype_promotion cfg \<noteq> UnknownPromotion" and "nodes \<noteq> []"
    and "set nodes \<subseteq> set (map fst (cfg_lattice cfg))"
  shows "least_upper_bound cfg nodes = Inl TypePromotionError \<or> (\<exists>c. least_upper_bound cfg nodes = Inr c)"
  using least_upper_bound_cases [OF assms(1,2)] assms(3) unfolding cfg_nodes_lattice by auto

theorem least_upper_bound_no_internal_error_witness:
  "least_upper_bound std64 [D Int4, D Int8] = Inl TypePromotionError \<or>
   (\<exists>c. least_upper_bound std64 [D Int4, D Int8] = Inr c)"
proof -
  have "set [D Int4, D Int8] \<subseteq> set (map fst (cfg_lattice std64))" by code_simp
  then show ?thesis
    by (intro least_upper_bound_no_internal_error) (simp_all add: std64_def)
qed

text \<open>
  C8: the promotion of several operands does not depend on their grouping: operands whose
  least upper bound is \<open>c\<close> may be replaced by \<open>c\<close>. (Nor on their order, as the operands are
  taken as a set.)
\<close>

theorem least_upper_bound_grouping:
  assumes "least_upper_bound cfg xs = Inr c" and "set ys \<subseteq> set (map fst (cfg_lattice cfg))"
  shows "least_upper_bound cfg (c # ys) = least_upper_bound cfg (xs @ ys)"
proof -
  from assms(1) have x: "numpy_dtype_promotion cfg \<noteq> UnknownPromotion" "xs \<noteq> []" "set xs \<subseteq> cfg_nodes cfg"
    "lub_candidates (UB cfg) (set xs) = {c}" by (simp_all add: least_upper_bound_Inr)
  have y: "set ys \<subseteq> cfg_nodes cfg" using assms(2) unfolding cfg_nodes_lattice .
  have ne: "set xs \<noteq> {}" using x(2) by simp
  have "c \<in> cfg_nodes cfg"
    using promotion_order.candidate_least(1) [OF cfg_order x(3) ne] x(4) by simp
  moreover have "lub_candidates (UB cfg) (set (c # ys)) = lub_candidates (UB cfg) (set (xs @ ys))"
    using promotion_order.candidates_group [OF cfg_order x(3) ne y x(4)] by simp
  ultimately show ?thesis using x y by (simp add: least_upper_bound_cases)
qed

theorem least_upper_bound_grouping_witness:
  "least_upper_bound std64 [D UInt64, D Int64] = Inr (W PyFloat) \<and>
   least_upper_bound std64 [W PyFloat, D BFloat16] = least_upper_bound std64 [D UInt64, D Int64, D BFloat16]"
proof -
  have e: "least_upper_bound std64 [D UInt64, D Int64] = Inr (W PyFloat)" by code_simp
  have "set [D BFloat16] \<subseteq> set (map fst (cfg_lattice std64))" by code_simp
  from least_upper_bound_grouping [OF e this] e show ?thesis by simp
qed

text \<open>
  Without x64, promoting types none of which is 64 bits wide never yields a 64-bit type:
  the one edge the source changes in the graph is enough.
\<close>

theorem promotion_x32_stays_narrow:
  assumes "enable_x64 cfg = False" "numpy_dtype_promotion cfg = STANDARD"
    and "least_upper_bound cfg nodes = Inr c" and "set nodes \<inter> set wide_types = {}"
  shows "c \<notin> set wide_types"
proof
  assume c: "c \<in> set wide_types"
  from assms(3) have n: "nodes \<noteq> []" "set nodes \<subseteq> cfg_nodes cfg" "lub_candidates (UB cfg) (set nodes) = {c}"
    by (simp_all add: least_upper_bound_Inr)
  note l = promotion_order.candidate_least [OF cfg_order n(2), of c]
  have l: "c \<in> cfg_nodes cfg" "\<forall>m \<in> set nodes. c \<in> UB cfg m"
    "common_upper_bounds (UB cfg) (set nodes) = UB cfg c" using l n(1,3) by auto
  have "narrowed c \<in> UB cfg m" if m: "m \<in> set nodes" for m
    by (rule narrow_upper_bound(1) [OF assms(1,2) _ _ c]) (use m n(2) l(2) assms(4) in auto)
  then have "narrowed c \<in> UB cfg c" using l(3) by (auto simp: common_upper_bounds_def)
  moreover obtain m where "m \<in> set nodes" using n(1) by (cases nodes) auto
  then have "c \<in> UB cfg (narrowed c)"
    using narrow_upper_bound(2) [OF assms(1,2) _ _ c, of m] n(2) l(2) assms(4) by auto
  ultimately have "narrowed c = c" using promotion_order.ub_antisym [OF cfg_order l(1)] by blast
  with narrowed_neq [OF c] show False by simp
qed

theorem promotion_x32_stays_narrow_witness:
  "least_upper_bound std32 [D UInt32, D Int8] = Inr (D Int32) \<and> D Int32 \<notin> set wide_types"
proof -
  have e: "least_upper_bound std32 [D UInt32, D Int8] = Inr (D Int32)" by code_simp
  have "set [D UInt32, D Int8] \<inter> set wide_types = {}" by code_simp
  from promotion_x32_stays_narrow [OF _ _ e this] e show ?thesis by (simp add: std32_def)
qed

text \<open>
  \<^verbatim>\<open>promote_types\<close> itself is not associative, although the lattice join is: it turns the weak
  result of \<^verbatim>\<open>uint64\<close> and \<^verbatim>\<open>int64\<close> into \<^verbatim>\<open>float64\<close>, which then absorbs \<^verbatim>\<open>bfloat16\<close>.
\<close>

theorem promote_types_not_associative:
  "rbind (promote_types std64 (D UInt64) (D Int64)) (\<lambda>d. promote_types std64 (D d) (D BFloat16)) = Inr Float64 \<and>
   rbind (promote_types std64 (D Int64) (D BFloat16)) (\<lambda>d. promote_types std64 (D UInt64) (D d)) = Inr BFloat16"
proof
  show "rbind (promote_types std64 (D UInt64) (D Int64)) (\<lambda>d. promote_types std64 (D d) (D BFloat16)) = Inr Float64"
    by code_simp
  show "rbind (promote_types std64 (D Int64) (D BFloat16)) (\<lambda>d. promote_types std64 (D UInt64) (D d)) = Inr BFloat16"
    by code_simp
qed

end
