(* ===== verification/DimEval.thy ===== *)
theory DimEval
  imports DimOps
begin

text \<open>
  What the operations on dimension expressions compute. An expression denotes an integer
  under a valuation \<open>I\<close> of its factors; the locale \<open>scope_valuation\<close> states when a valuation
  agrees with the normalization rules of a scope, and inside it every operation is shown to
  return a canonical expression with the right value.
\<close>

subsection \<open>Denotations\<close>

definition tden :: "(dim_factor \<Rightarrow> int) \<Rightarrow> dim_term \<Rightarrow> int" where
  "tden I t = prod_list (map (\<lambda>(f, n). I f ^ nat n) t)"

definition eden :: "(dim_factor \<Rightarrow> int) \<Rightarrow> (dim_term \<times> int) list \<Rightarrow> int" where
  "eden I e = sum_list (map (\<lambda>(t, c). tden I t * c) e)"

fun den :: "(dim_factor \<Rightarrow> int) \<Rightarrow> dim_size \<Rightarrow> int" where
  "den I (Const k) = k"
| "den I (Sym e) = eden I e"

lemma tden_simps [simp]: "tden I [] = 1" "tden I ((f, n) # t) = I f ^ nat n * tden I t"
  by (simp_all add: tden_def)

lemma eden_simps [simp]: "eden I [] = 0" "eden I ((t, c) # e) = tden I t * c + eden I e"
  by (simp_all add: eden_def)

lemma eden_append [simp]: "eden I (e1 @ e2) = eden I e1 + eden I e2"
  by (simp add: eden_def)

lemma eden_scaled: "eden I (map (\<lambda>(t, c). (t, c * k)) e) = eden I e * k"
  by (induction e) (auto simp: algebra_simps)

lemma eden_filter_nonzero: "eden I (filter (\<lambda>(t, c). c \<noteq> 0) e) = eden I e"
  by (induction e) auto

text \<open>
  A term over the factors \<open>F\<close>: its factors descend strictly, its exponents are positive. (The
  size of a factor is positive when the exponents inside its operands are.)
\<close>

definition term_ok :: "dim_factor set \<Rightarrow> dim_term \<Rightarrow> bool" where
  "term_ok F t \<longleftrightarrow> strictly_descending factor_cmp t \<and> (\<forall>(f, n) \<in> set t. n > 0 \<and> f \<in> F \<and> factor_size f > 0)"

definition terms_ok :: "dim_factor set \<Rightarrow> (dim_term \<times> int) list \<Rightarrow> bool" where
  "terms_ok F ts \<longleftrightarrow> strictly_descending term_cmp ts \<and> (\<forall>(t, c) \<in> set ts. c \<noteq> 0 \<and> term_ok F t)"

fun size_ok :: "dim_factor set \<Rightarrow> dim_size \<Rightarrow> bool" where
  "size_ok F (Const k) = True"
| "size_ok F (Sym e) = (terms_ok F e \<and> to_constant (Sym e) = None \<and> e \<noteq> [])"

lemma term_ok_Nil [simp]: "term_ok F []"
  by (simp add: term_ok_def strictly_descending_def)

lemma terms_ok_Nil [simp]: "terms_ok F []"
  by (simp add: terms_ok_def strictly_descending_def)

lemma terms_ok_single [simp]: "terms_ok F [(t, c)] \<longleftrightarrow> c \<noteq> 0 \<and> term_ok F t"
  by (simp add: terms_ok_def strictly_descending_def)

lemma terms_ok_Cons:
  "terms_ok F (p # ts) \<Longrightarrow> terms_ok F ts \<and> snd p \<noteq> 0 \<and> term_ok F (fst p) \<and> (\<forall>q \<in> set ts. term_cmp (fst p) (fst q) > 0)"
  by (auto simp: terms_ok_def strictly_descending_def)

lemma terms_ok_distinct: "terms_ok F ts \<Longrightarrow> distinct (map fst ts)"
proof (induction ts)
  case (Cons p ts)
  then have "terms_ok F ts" "\<forall>q \<in> set ts. term_cmp (fst p) (fst q) > 0" using terms_ok_Cons by blast+
  moreover have "term_cmp t t = 0" for t by (rule term_order.cmp_refl) simp
  ultimately have "fst p \<notin> fst ` set ts" by fastforce
  then show ?case using Cons.IH \<open>terms_ok F ts\<close> by simp
qed simp

lemma term_size_nonneg: "term_ok F t \<Longrightarrow> term_size t \<ge> 0 \<and> (t \<noteq> [] \<longrightarrow> term_size t > 0)"
proof (induction t)
  case (Cons p t)
  obtain f n where p: "p = (f, n)" by (cases p)
  have "term_ok F t" using Cons.prems by (auto simp: term_ok_def strictly_descending_def)
  moreover have "n * factor_size f > 0" using Cons.prems p by (auto simp: term_ok_def)
  ultimately show ?case using Cons.IH p by (simp add: term_size_def)
qed (simp add: term_size_def)

lemma term_one_least: "term_ok F t \<Longrightarrow> term_cmp [] t \<le> 0"
  using term_size_nonneg [of F t]
  by (cases t) (auto simp: term_cmp_def cmp_by_def cmp_comparable_def term_size_def)

subsection \<open>Products and quotients of terms\<close>

lemma tden_filter_nonzero: "tden I (filter (\<lambda>(f, n). n \<noteq> 0) t) = tden I t"
  by (induction t) auto

lemma linear_combination_value:
  "eden I (linear_combination_sorted_pairs term_cmp e1 k1 e2 k2) = eden I e1 * k1 + eden I e2 * k2"
proof -
  have "c = term_cmp \<Longrightarrow> eden I (linear_combination_sorted_pairs c e1 k1 e2 k2) = eden I e1 * k1 + eden I e2 * k2" for c
  proof (induction c e1 k1 e2 k2 rule: linear_combination_sorted_pairs.induct)
    case (1 c m1 c1 ps1 f1 m2 c2 ps2 f2)
    have "term_cmp m1 m2 = 0 \<longleftrightarrow> m1 = m2" by (rule term_order.cmp_eq) simp_all
    then consider "term_cmp m1 m2 < 0" | "term_cmp m1 m2 > 0" | "term_cmp m1 m2 = 0" "m1 = m2" by linarith
    then show ?case
    proof cases
      case 3
      have z: "tden I m2 * c1 * f1 + tden I m2 * c2 * f2 = tden I m2 * (c1 * f1 + c2 * f2)" by (simp add: algebra_simps)
      show ?thesis
      proof (cases "c1 * f1 + c2 * f2 = 0")
        case True
        then show ?thesis using "1.IH"(3) [OF refl] 3 "1.prems" z by (simp add: algebra_simps)
      next
        case False
        then show ?thesis using "1.IH"(4) [OF refl] 3 "1.prems" z by (simp add: algebra_simps)
      qed
    qed (use 1 in \<open>simp_all add: Let_def algebra_simps\<close>)
  qed (simp_all only: linear_combination_sorted_pairs.simps eden_scaled eden_filter_nonzero, simp_all)
  then show ?thesis by simp
qed

definition pos_exps :: "dim_term \<Rightarrow> bool" where
  "pos_exps t \<longleftrightarrow> (\<forall>(f, n) \<in> set t. n > 0)"

lemma scale_one: "pos_exps t \<Longrightarrow> map (\<lambda>(m, c). (m, c * 1)) (filter (\<lambda>(m, c). c \<noteq> 0) t) = t"
  by (induction t) (auto simp: pos_exps_def)

lemma term_mul_value:
  assumes "pos_exps t" "pos_exps u"
  shows "tden I (term_mul t u) = tden I t * tden I u \<and> pos_exps (term_mul t u)"
proof -
  have "c = factor_cmp \<Longrightarrow> k1 = 1 \<Longrightarrow> k2 = 1 \<Longrightarrow>
      tden I (linear_combination_sorted_pairs c t k1 u k2) = tden I t * tden I u \<and>
      pos_exps (linear_combination_sorted_pairs c t k1 u k2)" for c k1 k2
    using assms
  proof (induction c t k1 u k2 rule: linear_combination_sorted_pairs.induct)
    case (1 c m1 c1 ps1 f1 m2 c2 ps2 f2)
    have pos: "c1 > 0" "c2 > 0" "pos_exps ps1" "pos_exps ps2" using "1.prems" by (auto simp: pos_exps_def)
    have "factor_cmp m1 m2 = 0 \<longleftrightarrow> m1 = m2" by (rule factor_order.cmp_eq) simp_all
    then consider "factor_cmp m1 m2 < 0" | "factor_cmp m1 m2 > 0" | "factor_cmp m1 m2 = 0" "m1 = m2" by linarith
    then show ?case
    proof cases
      case 1
      then have "tden I (linear_combination_sorted_pairs c ((m1, c1) # ps1) f1 ps2 f2)
          = tden I ((m1, c1) # ps1) * tden I ps2"
        "pos_exps (linear_combination_sorted_pairs c ((m1, c1) # ps1) f1 ps2 f2)"
        using "1.IH"(1) [OF refl] "1.prems" pos by auto
      then show ?thesis
        using 1 "1.prems"(1,3) pos by (simp only: linear_combination_step) (simp add: pos_exps_def)
    next
      case 2
      then have "tden I (linear_combination_sorted_pairs c ps1 f1 ((m2, c2) # ps2) f2)
          = tden I ps1 * tden I ((m2, c2) # ps2)"
        "pos_exps (linear_combination_sorted_pairs c ps1 f1 ((m2, c2) # ps2) f2)"
        using "1.IH"(2) [OF refl] "1.prems" pos by auto
      then show ?thesis
        using 2 "1.prems"(1,2) pos by (simp only: linear_combination_step) (simp add: pos_exps_def)
    next
      case 3
      let ?r = "linear_combination_sorted_pairs factor_cmp ps1 1 ps2 1"
      have "nat (c1 + c2) = nat c1 + nat c2" using pos by simp
      then have p: "I m2 ^ nat (c1 + c2) = I m2 ^ nat c1 * I m2 ^ nat c2" by (simp add: power_add)
      have l: "linear_combination_sorted_pairs c ((m1, c1) # ps1) f1 ((m2, c2) # ps2) f2 = (m2, c1 + c2) # ?r"
        using "1.prems"(1-3) pos 3 by (simp add: linear_combination_step(4))
      have "tden I ?r = tden I ps1 * tden I ps2" "pos_exps ?r"
        using "1.IH"(4) [OF refl] "1.prems"(1-3) pos 3 by auto
      then show ?thesis unfolding l using pos 3(2) p by (simp add: pos_exps_def)
    qed
  qed (simp_all only: linear_combination_sorted_pairs.simps scale_one, simp_all add: pos_exps_def)
  then show ?thesis by (simp add: term_mul_def)
qed

lemma term_divide_value:
  assumes "pos_exps t" "pos_exps d" "term_divide t d = Inr q"
  shows "tden I q * tden I d = tden I t \<and> pos_exps q"
proof -
  have "c = factor_cmp \<Longrightarrow> k1 = 1 \<Longrightarrow> k2 = -1 \<Longrightarrow> pos_exps (linear_combination_sorted_pairs c t k1 d k2) \<Longrightarrow>
      tden I (linear_combination_sorted_pairs c t k1 d k2) * tden I d = tden I t" for c k1 k2
    using assms(1,2)
  proof (induction c t k1 d k2 rule: linear_combination_sorted_pairs.induct)
    case (1 c m1 c1 ps1 f1 m2 c2 ps2 f2)
    have pos: "c1 > 0" "c2 > 0" "pos_exps ps1" "pos_exps ps2" using "1.prems" by (auto simp: pos_exps_def)
    have "factor_cmp m1 m2 = 0 \<longleftrightarrow> m1 = m2" by (rule factor_order.cmp_eq) simp_all
    then consider "factor_cmp m1 m2 < 0" | "factor_cmp m1 m2 > 0" | "factor_cmp m1 m2 = 0" "m1 = m2" by linarith
    then show ?case
    proof cases
      case 1
      with "1.prems" pos show ?thesis by (simp add: Let_def pos_exps_def)
    next
      case 2
      with "1.IH"(2) [OF refl] "1.prems" pos show ?thesis by (auto simp: Let_def pos_exps_def)
    next
      case 3
      show ?thesis
      proof (cases "c1 = c2")
        case True
        have l': "linear_combination_sorted_pairs c ((m1, c1) # ps1) f1 ((m2, c2) # ps2) f2
            = linear_combination_sorted_pairs factor_cmp ps1 1 ps2 (-1)"
          using "1.prems"(1-3) True 3 by (simp add: Let_def)
        moreover have "tden I (linear_combination_sorted_pairs factor_cmp ps1 1 ps2 (-1)) * tden I ps2 = tden I ps1"
          using "1.IH"(3) [OF refl] "1.prems" pos 3 True l' by simp
        ultimately show ?thesis using 3(2) True by simp
      next
        case False
        with "1.prems" pos 3 have l: "c2 < c1" by (simp add: Let_def pos_exps_def split: if_splits)
        then have "nat c1 = nat (c1 - c2) + nat c2" using pos by simp
        then have "I m2 ^ nat c1 = I m2 ^ nat (c1 - c2) * I m2 ^ nat c2" by (simp add: power_add)
        moreover have l': "linear_combination_sorted_pairs c ((m1, c1) # ps1) f1 ((m2, c2) # ps2) f2
            = (m2, c1 - c2) # linear_combination_sorted_pairs factor_cmp ps1 1 ps2 (-1)"
          using "1.prems"(1-3) l 3 by (simp add: Let_def)
        moreover have "tden I (linear_combination_sorted_pairs factor_cmp ps1 1 ps2 (-1)) * tden I ps2 = tden I ps1"
          using "1.IH"(4) [OF refl] "1.prems" pos 3 l l' by (simp add: pos_exps_def)
        ultimately show ?thesis using 3(2) by simp
      qed
    qed
  next
    case (2 c k1 u k2)
    then show ?case by (cases u) (auto simp: pos_exps_def)
  qed (simp_all only: linear_combination_sorted_pairs.simps scale_one, simp_all)
  then show ?thesis
    using assms(3) by (force simp: term_divide_def Let_def pos_exps_def split: if_splits)
qed

lemma term_mul_ok:
  assumes "term_ok F t" "term_ok F u"
  shows "term_ok F (term_mul t u)"
proof -
  have "pos_exps (term_mul t u)"
    using assms by (intro term_mul_value [THEN conjunct2]) (auto simp: term_ok_def pos_exps_def)
  moreover have "strictly_descending factor_cmp (term_mul t u)"
    unfolding term_mul_def by (rule factor_order.linear_combination_descending) (use assms in \<open>auto simp: term_ok_def\<close>)
  moreover have "\<forall>(f, n) \<in> set (term_mul t u). f \<in> F \<and> factor_size f > 0"
    unfolding term_mul_def using assms linear_combination_keysD [of _ _ factor_cmp t 1 u 1]
    by (fastforce simp: term_ok_def)
  ultimately show ?thesis by (auto simp: term_ok_def pos_exps_def)
qed

lemma term_divide_ok:
  assumes "term_ok F t" "term_ok F d" "term_divide t d = Inr q"
  shows "term_ok F q"
proof -
  have q: "q = linear_combination_sorted_pairs factor_cmp t 1 d (-1)" "\<forall>(f, n) \<in> set q. n > 0"
    using assms(3) by (auto simp: term_divide_def Let_def split: if_splits)
  have "strictly_descending factor_cmp q"
    unfolding q(1) by (rule factor_order.linear_combination_descending) (use assms in \<open>auto simp: term_ok_def\<close>)
  moreover have "\<forall>(f, n) \<in> set q. f \<in> F \<and> factor_size f > 0"
    unfolding q(1) using assms(1,2) linear_combination_keysD [of _ _ factor_cmp t 1 d "-1"]
    by (fastforce simp: term_ok_def)
  ultimately show ?thesis using q(2) by (auto simp: term_ok_def)
qed

text \<open>A factor of a product can be divided away.\<close>

lemma linear_combination_remove:
  assumes "term_ok F t" "(f, n) \<in> set t"
  shows "linear_combination_sorted_pairs factor_cmp t 1 [(f, n)] (-1) = filter (\<lambda>p. fst p \<noteq> f) t"
  using assms
proof (induction t)
  case (Cons p t)
  obtain g m where p: "p = (g, m)" by (cases p)
  have t: "term_ok F t" and d: "\<forall>q \<in> set t. factor_cmp g (fst q) > 0" and m: "m > 0"
    using Cons.prems(1) p by (auto simp: term_ok_def strictly_descending_def)
  have z: "factor_cmp g f = 0 \<longleftrightarrow> g = f" by (rule factor_order.cmp_eq) simp_all
  have pe: "pos_exps t" using t by (auto simp: term_ok_def pos_exps_def)
  show ?case
  proof (cases "g = f")
    case True
    then have "(f, n) \<notin> set t" using d z by force
    then have "n = m" using Cons.prems(2) p True by auto
    moreover have "filter (\<lambda>p. fst p \<noteq> f) t = t" using d z True by (intro filter_True) force
    ultimately show ?thesis
      using True p z pe scale_one [OF pe] by (cases t) (simp_all add: linear_combination_step(3))
  next
    case False
    then have "(f, n) \<in> set t" using Cons.prems(2) p by auto
    with Cons.IH t d have "factor_cmp g f > 0"
      "linear_combination_sorted_pairs factor_cmp t 1 [(f, n)] (-1) = filter (\<lambda>p. fst p \<noteq> f) t" by auto
    then show ?thesis using False p by (simp add: linear_combination_step(2))
  qed
qed simp

lemma term_divide_factor:
  assumes "term_ok F t" "(f, n) \<in> set t"
  shows "term_divide t [(f, n)] = Inr (filter (\<lambda>p. fst p \<noteq> f) t)"
  using assms unfolding term_divide_def linear_combination_remove [OF assms]
  by (auto simp: term_ok_def)

subsection \<open>Collecting coefficients\<close>

lemma eden_dict_set:
  "eden I (dict_set cs t c) = eden I cs + tden I t * (c - (case map_of cs t of None \<Rightarrow> 0 | Some c' \<Rightarrow> c'))"
  by (induction cs t c rule: dict_set.induct) (auto simp: algebra_simps)

lemma eden_add_coeff: "eden I (add_coeff cs t c) = eden I cs + tden I t * c"
  by (auto simp: add_coeff_def eden_dict_set algebra_simps split: option.splits)

lemma distinct_dict_set: "distinct (map fst cs) \<Longrightarrow> distinct (map fst (dict_set cs t c))"
proof (induction cs t c rule: dict_set.induct)
  case (2 k' v' d k v)
  then show ?case using keys_dict_set [of d k v] by auto
qed simp

text \<open>Dictionaries of coefficients: distinct keys that are terms over \<open>F\<close>.\<close>

definition coeffs_ok :: "dim_factor set \<Rightarrow> (dim_term \<times> int) list \<Rightarrow> bool" where
  "coeffs_ok F cs \<longleftrightarrow> distinct (map fst cs) \<and> (\<forall>t \<in> set (map fst cs). term_ok F t)"

lemma coeffs_ok_add: "coeffs_ok F cs \<Longrightarrow> term_ok F t \<Longrightarrow> coeffs_ok F (add_coeff cs t c)"
  unfolding coeffs_ok_def add_coeff_def by (simp only: keys_dict_set distinct_dict_set split: if_split) auto

lemma dict_of_distinct: "distinct (map fst ps) \<Longrightarrow> dict_of ps = ps"
proof -
  have set_end: "k \<notin> fst ` set ds \<Longrightarrow> dict_set ds k v = ds @ [(k, v)]" for ds :: "('a \<times> 'b) list" and k v
    by (induction ds k v rule: dict_set.induct) auto
  have "distinct (map fst (ds @ ps)) \<Longrightarrow> fold (\<lambda>(k, v) d. dict_set d k v) ps ds = ds @ ps" for ds
  proof (induction ps arbitrary: ds)
    case (Cons p ps)
    then have "dict_set ds (fst p) (snd p) = ds @ [p]" by (cases p) (auto intro: set_end)
    then show ?case using Cons.IH [of "ds @ [p]"] Cons.prems by (simp add: split_def)
  qed simp
  from this [of "[]"] show "distinct (map fst ps) \<Longrightarrow> dict_of ps = ps" by (simp add: dict_of_def)
qed

lemma set_insert_term: "set (insert_term p ps) = insert p (set ps)"
  by (induction p ps rule: insert_term.induct) auto

lemma eden_insert_term: "eden I (insert_term p ps) = eden I (p # ps)"
  by (induction p ps rule: insert_term.induct) (auto simp: split_def eden_def)

lemma insert_term_descending:
  assumes "strictly_descending term_cmp ps" "fst p \<notin> fst ` set ps"
  shows "strictly_descending term_cmp (insert_term p ps)"
  using assms
proof (induction p ps rule: insert_term.induct)
  case (2 p q qs)
  note sym = term_order.cmp_sym [OF UNIV_I UNIV_I] and eq = term_order.cmp_eq [OF UNIV_I UNIV_I]
  show ?case
  proof (cases "term_cmp (fst p) (fst q) > 0")
    case True
    have "term_cmp (fst p) (fst r) > 0" if "r \<in> set qs" for r
    proof -
      have "term_cmp (fst q) (fst r) > 0" using 2 that by (auto simp: strictly_descending_def)
      with True show ?thesis
        using term_order.cmp_trans [of "fst r" "fst q" "fst p"] sym [of "fst p" "fst q"]
          sym [of "fst q" "fst r"] sym [of "fst p" "fst r"] by simp
    qed
    with True 2 show ?thesis by (auto simp: strictly_descending_def)
  next
    case False
    then have "term_cmp (fst q) (fst p) > 0"
      using sym [of "fst p" "fst q"] eq [of "fst p" "fst q"] 2 by auto
    with False 2 show ?thesis by (auto simp: strictly_descending_def set_insert_term)
  qed
qed (simp add: strictly_descending_def)

lemma coeff_to_sorted_terms_ok:
  assumes "coeffs_ok F cs"
  shows "terms_ok F (coeff_to_sorted_terms cs) \<and> eden I (coeff_to_sorted_terms cs) = eden I cs"
proof -
  have "strictly_descending term_cmp (foldr insert_term (filter (\<lambda>p. snd p \<noteq> 0) cs) []) \<and>
    set (foldr insert_term (filter (\<lambda>p. snd p \<noteq> 0) cs) []) = {p \<in> set cs. snd p \<noteq> 0} \<and>
    eden I (foldr insert_term (filter (\<lambda>p. snd p \<noteq> 0) cs) []) = eden I cs"
    if "distinct (map fst cs)"
    using that
  proof (induction cs)
    case (Cons p cs)
    let ?s = "foldr insert_term (filter (\<lambda>p. snd p \<noteq> 0) cs) []"
    have IH: "strictly_descending term_cmp ?s" "set ?s = {p \<in> set cs. snd p \<noteq> 0}" "eden I ?s = eden I cs"
      using Cons by auto
    have "fst p \<notin> fst ` set ?s" using IH(2) Cons.prems by auto
    with IH show ?case
      by (cases p) (auto simp: set_insert_term eden_insert_term insert_term_descending)
  qed (simp add: strictly_descending_def)
  with assms show ?thesis by (auto simp: coeff_to_sorted_terms_def terms_ok_def coeffs_ok_def)
qed

subsection \<open>Valuations that agree with the rules of a scope\<close>

locale scope_valuation =
  fixes rules :: norm_rules and F :: "dim_factor set" and I :: "dim_factor \<Rightarrow> int"
  assumes rule_ok: "(t, after, k) \<in> set rules \<Longrightarrow> k \<noteq> 0 \<and> term_ok F t \<and> (\<forall>(t2, c2) \<in> set after. term_ok F t2)"
    and rule_holds: "(t, after, k) \<in> set rules \<Longrightarrow> k * tden I t = eden I after"
begin

lemma exact_quotient:
  assumes "(t, after, k) \<in> set rules" "t_k mod k = 0"
  shows "eden I after * (t_k div k) = tden I t * t_k"
proof -
  have "tden I t * t_k = tden I t * (k * (t_k div k))"
    using assms(2) by (metis mult_div_mod_eq add.right_neutral)
  also have "\<dots> = k * tden I t * (t_k div k)" by simp
  also have "\<dots> = eden I after * (t_k div k)" using rule_holds [OF assms(1)] by simp
  finally show ?thesis by simp
qed

lemma eden_mul_terms:
  assumes "term_ok F u" "\<forall>(t2, c2) \<in> set e. term_ok F t2"
  shows "eden I (map (\<lambda>(t2, c2). (term_mul t2 u, c2 * k)) e) = eden I e * tden I u * k"
  using assms(2)
proof (induction e)
  case (Cons p e)
  obtain t c where p: "p = (t, c)" by (cases p)
  have "tden I (term_mul t u) = tden I t * tden I u"
    using Cons.prems assms(1) p by (intro term_mul_value [THEN conjunct1]) (auto simp: term_ok_def pos_exps_def)
  then show ?case using Cons p by (simp add: algebra_simps)
qed simp

text \<open>The updates of a term have the value zero: they move the value to other terms.\<close>

definition updates_ok :: "(dim_term \<times> int) list res \<Rightarrow> bool" where
  "updates_ok r \<longleftrightarrow> (\<exists>us. r = Inr us \<and> eden I us = 0 \<and> (\<forall>(t, c) \<in> set us. term_ok F t))"

lemma normalize_factors_ok:
  assumes "term_ok F t" "set fs \<subseteq> set t"
  shows "updates_ok (normalize_factors rules t t_k fs)"
  using assms(2)
proof (induction fs)
  case Nil
  show ?case by (simp add: updates_ok_def)
next
  case (Cons q fs)
  obtain f n where q: "q = (f, n)" by (cases q)
  show ?case
  proof (cases "map_of rules [(f, n)]")
    case None
    with Cons q show ?thesis by simp
  next
    case (Some ak)
    obtain after k where ak: "ak = (after, k)" by (cases ak)
    have r: "([(f, n)], after, k) \<in> set rules" using map_of_SomeD [OF Some] ak by simp
    note ok = rule_ok [OF r]
    show ?thesis
    proof (cases "t_k mod k = 0")
      case False
      with Cons q Some ak ok show ?thesis by (simp add: py_mod_def)
    next
      case True
      have mem: "(f, n) \<in> set t" using Cons.prems q by auto
      note d = term_divide_factor [OF assms(1) mem]
      let ?w = "filter (\<lambda>p. fst p \<noteq> f) t"
      have w: "term_ok F ?w" using term_divide_ok [OF assms(1) _ d] ok by simp
      have "tden I ?w * tden I [(f, n)] = tden I t"
        using assms(1) ok by (intro term_divide_value [OF _ _ d, THEN conjunct1]) (auto simp: term_ok_def pos_exps_def)
      then have "eden I after * tden I ?w * (t_k div k) = tden I t * t_k"
        using exact_quotient [OF r True] by (metis mult.assoc mult.commute)
      then have "eden I ((t, - t_k) # map (\<lambda>(t2, c2). (term_mul t2 ?w, c2 * (t_k div k))) after) = 0"
        using eden_mul_terms [OF w] ok by simp
      moreover have "\<forall>(t2, c2) \<in> set after. term_ok F (term_mul t2 ?w)"
        using ok w by (auto intro: term_mul_ok)
      ultimately show ?thesis
        using q Some ak ok True d assms(1) by (auto simp: updates_ok_def py_mod_def)
    qed
  qed
qed

lemma normalize_term_ok:
  assumes "term_ok F t"
  shows "updates_ok (normalize_term rules t t_k)"
proof -
  have by_factors: "updates_ok (if length t \<le> 1 then Inr [] else normalize_factors rules t t_k t)"
    using normalize_factors_ok [OF assms order.refl] by (simp add: updates_ok_def)
  show ?thesis
  proof (cases "map_of rules t")
    case None
    with by_factors show ?thesis by (auto simp: normalize_term_def updates_ok_def)
  next
    case (Some ak)
    obtain after k where ak: "ak = (after, k)" by (cases ak)
    have r: "(t, after, k) \<in> set rules" using map_of_SomeD [OF Some] ak by simp
    note ok = rule_ok [OF r]
    show ?thesis
    proof (cases "t_k mod k = 0")
      case False
      with Some ak ok r by_factors show ?thesis by (auto simp: normalize_term_def py_mod_def Let_def)
    next
      case True
      have "eden I ((t, - t_k) # map (\<lambda>(t2, c2). (t2, c2 * (t_k div k))) after) = 0"
        using exact_quotient [OF r True] by (simp add: eden_scaled)
      with True Some ak ok r assms show ?thesis
        by (auto simp: normalize_term_def updates_ok_def py_mod_def Let_def)
    qed
  qed
qed

lemma add_updates_ok:
  assumes "coeffs_ok F cs" "\<forall>(t, c) \<in> set us. term_ok F t"
  shows "coeffs_ok F (fold (\<lambda>(t1, k1) cs. add_coeff cs t1 k1) us cs) \<and>
    eden I (fold (\<lambda>(t1, k1) cs. add_coeff cs t1 k1) us cs) = eden I cs + eden I us"
  using assms
proof (induction us arbitrary: cs)
  case (Cons u us)
  obtain t c where u: "u = (t, c)" by (cases u)
  have "coeffs_ok F (add_coeff cs t c)" using Cons.prems u by (auto intro: coeffs_ok_add)
  with Cons.IH [of "add_coeff cs t c"] Cons.prems u show ?case by (simp add: eden_add_coeff)
qed simp

lemma normalize_first_ok:
  assumes "terms_ok F ts" "set rest \<subseteq> set ts"
  shows "\<exists>ts'. normalize_first rules ts rest = Inr ts' \<and> terms_ok F ts' \<and> eden I ts' = eden I ts"
  using assms(2)
proof (induction rest)
  case Nil
  with assms show ?case by simp
next
  case (Cons p rest)
  obtain t k where p: "p = (t, k)" by (cases p)
  have tk: "k \<noteq> 0" "term_ok F t" using Cons.prems assms(1) p by (auto simp: terms_ok_def)
  from normalize_term_ok [OF tk(2), of k] obtain us where us:
    "normalize_term rules t k = Inr us" "eden I us = 0" "\<forall>(t, c) \<in> set us. term_ok F t"
    by (auto simp: updates_ok_def)
  have ok: "coeffs_ok F ts" "dict_of ts = ts"
    using assms(1) terms_ok_distinct [OF assms(1)] dict_of_distinct
    by (auto simp: coeffs_ok_def terms_ok_def)
  from add_updates_ok [OF ok(1) us(3)] coeff_to_sorted_terms_ok
  show ?case using Cons us p tk ok(2) by (cases "us = []") auto
qed

lemma to_dim_size_ok:
  assumes "terms_ok F ts'"
  shows "size_ok F (to_dim_size ts') \<and> den I (to_dim_size ts') = eden I ts'"
proof (cases ts' rule: to_dim_size.cases)
  case (2 t k us)
  show ?thesis
  proof (cases "t = []")
    case True
    have "us = []"
    proof (rule ccontr)
      assume "us \<noteq> []"
      then obtain q where "q \<in> set us" by (cases us) auto
      then have "term_cmp [] (fst q) > 0" "term_ok F (fst q)"
        using terms_ok_Cons [of F "(t, k)" us] assms 2 True by (auto simp: terms_ok_def)
      then show False using term_one_least [of F "fst q"] by simp
    qed
    then show ?thesis using 2 True by simp
  next
    case False
    then show ?thesis using 2 assms by simp
  qed
qed simp

lemma normalize_sorted_terms_ok:
  assumes "terms_ok F ts"
  shows "\<exists>d. normalize_sorted_terms rules ts = Inr d \<and> size_ok F d \<and> den I d = eden I ts"
proof -
  from normalize_first_ok [OF assms order.refl] obtain ts' where ts':
    "normalize_first rules ts ts = Inr ts'" "terms_ok F ts'" "eden I ts' = eden I ts" by blast
  with to_dim_size_ok [OF ts'(2)] ts' show ?thesis by (simp add: normalize_sorted_terms_def)
qed

text \<open>\<open>yields r v\<close>: the operation succeeds with a canonical size of value \<open>v\<close>.\<close>

definition yields :: "dim_size res \<Rightarrow> int \<Rightarrow> bool" where
  "yields r v \<longleftrightarrow> (\<exists>d. r = Inr d \<and> size_ok F d \<and> den I d = v)"

lemma yields_Inr [simp]: "yields (Inr d) v \<longleftrightarrow> size_ok F d \<and> den I d = v"
  by (auto simp: yields_def)

lemma linear_combination_terms_ok:
  assumes "terms_ok F e1" "terms_ok F e2" "k1 \<noteq> 0 \<or> e1 = []" "k2 \<noteq> 0 \<or> e2 = []"
  shows "terms_ok F (linear_combination_sorted_pairs term_cmp e1 k1 e2 k2)"
proof -
  have "strictly_descending term_cmp (linear_combination_sorted_pairs term_cmp e1 k1 e2 k2)"
    by (rule term_order.linear_combination_descending) (use assms in \<open>auto simp: terms_ok_def\<close>)
  moreover have "\<forall>(t, c) \<in> set (linear_combination_sorted_pairs term_cmp e1 k1 e2 k2). c \<noteq> 0"
    by (rule term_order.linear_combination_nonzero) (use assms in \<open>auto simp: terms_ok_def\<close>)
  moreover have "term_ok F t" if "(t, c) \<in> set (linear_combination_sorted_pairs term_cmp e1 k1 e2 k2)" for t c
    using linear_combination_keysD [OF that] assms(1,2) by (auto simp: terms_ok_def)
  ultimately show ?thesis by (auto simp: terms_ok_def)
qed

lemma linear_combination_ok:
  assumes "size_ok F (Sym e)" "size_ok F b" "k1 \<noteq> 0" "k2 \<noteq> 0 \<or> b = Const 0"
  shows "yields (linear_combination rules (Sym e) k1 b k2) (eden I e * k1 + den I b * k2)"
proof -
  let ?e2 = "case b of Sym e \<Rightarrow> e | Const b \<Rightarrow> if b = 0 then [] else [([], b)]"
  have e2: "terms_ok F ?e2" "eden I ?e2 = den I b" "k2 \<noteq> 0 \<or> ?e2 = []"
    using assms(2,4) by (cases b; simp)+
  have "terms_ok F (linear_combination_sorted_pairs term_cmp e k1 ?e2 k2)"
    using assms(1,3) e2 by (intro linear_combination_terms_ok) auto
  from normalize_sorted_terms_ok [OF this] show ?thesis
    by (cases b) (auto simp: linear_combination_def yields_def linear_combination_value)
qed

lemma dim_add_ok:
  assumes "size_ok F a" "size_ok F b"
  shows "yields (dim_add rules a b) (den I a + den I b)"
proof (cases a)
  case (Sym e)
  then show ?thesis using assms linear_combination_ok [of e b 1 1] by simp
next
  case (Const k)
  then show ?thesis
    using assms linear_combination_ok [of _ a 1 1] by (cases b) (simp_all add: add.commute)
qed

lemma dim_sub_ok:
  assumes "size_ok F a" "size_ok F b"
  shows "yields (dim_sub rules a b) (den I a - den I b)"
proof (cases a)
  case (Sym e)
  then show ?thesis using assms linear_combination_ok [of e b 1 "-1"] by simp
next
  case (Const k)
  then show ?thesis
    using assms linear_combination_ok [of _ a "-1" 1] by (cases b) simp_all
qed

lemma dim_neg_ok:
  assumes "size_ok F a"
  shows "yields (dim_neg rules a) (- den I a)"
proof (cases a)
  case (Sym e)
  then show ?thesis using assms linear_combination_ok [of e "Const 0" "-1" 0] by simp
qed simp

lemma scale_expr_ok: "size_ok F (Sym e) \<Longrightarrow> yields (scale_expr rules e k) (eden I e * k)"
  using linear_combination_ok [of e "Const 0" k 0] by (simp add: scale_expr_def)

lemma mul_coeffs_ok:
  assumes "\<forall>(t, c) \<in> set e1. term_ok F t" "\<forall>(t, c) \<in> set e2. term_ok F t"
  shows "coeffs_ok F (mul_coeffs e1 e2) \<and> eden I (mul_coeffs e1 e2) = eden I e1 * eden I e2"
proof -
  have tm: "term_ok F (term_mul t u)" "tden I (term_mul t u) = tden I t * tden I u"
    if "term_ok F t" "term_ok F u" for t u
  proof -
    have "pos_exps t" "pos_exps u" using that by (auto simp: term_ok_def pos_exps_def)
    from term_mul_value [OF this, of I] show "tden I (term_mul t u) = tden I t * tden I u" ..
    show "term_ok F (term_mul t u)" using that by (rule term_mul_ok)
  qed
  have inner: "coeffs_ok F cs \<Longrightarrow> term_ok F t \<Longrightarrow> \<forall>(t, c) \<in> set e2. term_ok F t \<Longrightarrow>
      coeffs_ok F (fold (\<lambda>(u, d) cs. add_coeff cs (term_mul t u) (c * d)) e2 cs) \<and>
      eden I (fold (\<lambda>(u, d) cs. add_coeff cs (term_mul t u) (c * d)) e2 cs) = eden I cs + tden I t * c * eden I e2"
    for t c cs
  proof (induction e2 arbitrary: cs)
    case (Cons p e2)
    obtain u d where p: "p = (u, d)" by (cases p)
    with Cons.prems have "coeffs_ok F (add_coeff cs (term_mul t u) (c * d))"
      by (auto intro: coeffs_ok_add tm)
    with Cons.IH [of "add_coeff cs (term_mul t u) (c * d)"] Cons.prems p tm(2) [of t u] show ?case
      by (simp add: eden_add_coeff algebra_simps)
  qed simp
  let ?outer = "\<lambda>(t, c) cs. fold (\<lambda>(u, d) cs. add_coeff cs (term_mul t u) (c * d)) e2 cs"
  have "coeffs_ok F cs \<Longrightarrow> \<forall>(t, c) \<in> set e1. term_ok F t \<Longrightarrow>
      coeffs_ok F (fold ?outer e1 cs) \<and> eden I (fold ?outer e1 cs) = eden I cs + eden I e1 * eden I e2" for cs
  proof (induction e1 arbitrary: cs)
    case (Cons p e1)
    obtain t c where p: "p = (t, c)" by (cases p)
    from inner [of cs t c] Cons.IH [of "?outer (t, c) cs"] Cons.prems p assms(2)
    show ?case by (simp add: algebra_simps)
  qed simp
  from this [of "[]"] assms(1) show ?thesis by (simp add: mul_coeffs_def coeffs_ok_def)
qed

lemma dim_mul_ok:
  assumes "size_ok F a" "size_ok F b"
  shows "yields (dim_mul rules a b) (den I a * den I b)"
proof (cases a; cases b)
  fix e1 e2 assume ab: "a = Sym e1" "b = Sym e2"
  with assms have "coeffs_ok F (mul_coeffs e1 e2) \<and> eden I (mul_coeffs e1 e2) = eden I e1 * eden I e2"
    by (intro mul_coeffs_ok) (auto simp: terms_ok_def)
  then show ?thesis
    using normalize_sorted_terms_ok [of "coeff_to_sorted_terms (mul_coeffs e1 e2)"]
      coeff_to_sorted_terms_ok [of F "mul_coeffs e1 e2" I] ab by (auto simp: yields_def)
qed (use assms scale_expr_ok in \<open>simp_all add: mult.commute\<close>)

lemma dim_pow_ok:
  assumes "size_ok F (Sym e)" "k \<ge> 0"
  shows "yields (dim_pow rules e k) (eden I e ^ nat k)"
proof -
  have "size_ok F acc \<Longrightarrow> yields (rfold (\<lambda>x acc. dim_mul rules acc x) (replicate n (Sym e)) acc) (den I acc * eden I e ^ n)"
    for n acc
  proof (induction n arbitrary: acc)
    case (Suc n)
    from dim_mul_ok [OF Suc.prems assms(1)] obtain d where
      d: "dim_mul rules acc (Sym e) = Inr d" "size_ok F d" "den I d = den I acc * eden I e" by (auto simp: yields_def)
    with Suc.IH [OF d(2)] show ?case by (simp add: mult.assoc)
  qed simp
  from this [of "Const 1" "nat k"] assms(2) show ?thesis by (simp add: dim_pow_def)
qed

lemma from_term_ok: "term_ok F t \<Longrightarrow> k \<noteq> 0 \<Longrightarrow> yields (from_term rules t k) (tden I t * k)"
  using normalize_sorted_terms_ok [of "[(t, k)]"] by (simp add: from_term_def yields_def)

lemma dim_eq_sound:
  assumes "size_ok F a" "size_ok F b" "dim_eq rules a b = Inr True"
  shows "den I a = den I b"
  using dim_sub_ok [OF assms(1,2)] assms(3) by (auto simp: yields_def dim_eq_def res_simps)

end

end
