(* ===== verification/DimDivmod.thy ===== *)
theory DimDivmod
  imports DimEval
begin

text \<open>
  Division with remainder of dimension expressions: the loop invariant, the meaning of the
  result, the divisors for which the loop ends and a division on which it does not.
\<close>

subsection \<open>The loop and its invariant\<close>

lemma expr_size_nonneg: "terms_ok F e \<Longrightarrow> expr_size e \<ge> 0"
proof (induction e)
  case (Cons p e)
  then have "terms_ok F e" "term_size (fst p) \<ge> 0"
    using terms_ok_Cons [of F p e] term_size_nonneg by auto
  with Cons.IH show ?case by (cases p) (simp add: expr_size_def)
qed (simp add: expr_size_def)

lemma ensure_poly_size:
  assumes "size_ok F d"
  shows "expr_size (ensure_poly d) \<ge> 0"
proof (cases d)
  case (Sym e)
  then show ?thesis using assms expr_size_nonneg [of F e] by simp
qed (simp add: expr_size_def mk_expr_def term_size_def)

lemma factor_size_Oper: "factor_size (Oper oper es) = 1 + sum_list (map expr_size es)"
  by (simp add: expr_size_def [abs_def] term_size_def [abs_def])

text \<open>The expressions that are divided: canonical ones, and integers made into expressions.\<close>

definition dividend_ok :: "dim_factor set \<Rightarrow> dim_expr \<Rightarrow> bool" where
  "dividend_ok F e \<longleftrightarrow> size_ok F (Sym e) \<or> (\<exists>k. e = ensure_poly (Const k))"

context scope_valuation
begin

lemma divmod_step_ok:
  assumes D: "size_ok F (Sym e)" and Q: "size_ok F quot" and d: "size_ok F divisor" "den I divisor \<noteq> 0"
  shows "divmod_step rules divisor (Sym e) quot = Inl InconclusiveDimensionOperation \<or>
    (\<exists>D' Q'. divmod_step rules divisor (Sym e) quot = Inr (D', Q') \<and> size_ok F D' \<and> size_ok F Q' \<and>
       den I D' + den I divisor * den I Q' = eden I e + den I divisor * den I quot)"
proof -
  obtain mon count ts where e: "e = (mon, count) # ts" using D by (cases e) auto
  have mon: "term_ok F mon" "count \<noteq> 0" using D e terms_ok_Cons by fastforce+
  let ?lead = "case divisor of
      Sym ((dterm, dcount) # _) \<Rightarrow> rbind (term_divide mon dterm) (\<lambda>qterm. Inr (qterm, dcount))
    | Sym [] \<Rightarrow> Inl IndexError
    | Const k \<Rightarrow> Inr (mon, k)"
  have lead: "?lead = Inl InconclusiveDimensionOperation \<or> (\<exists>t c. ?lead = Inr (t, c) \<and> c \<noteq> 0 \<and> term_ok F t)"
  proof (cases divisor)
    case (Const k)
    with d mon show ?thesis by simp
  next
    case (Sym es)
    then obtain u c us where es: "es = (u, c) # us" using d by (cases es) auto
    have uc: "c \<noteq> 0" "term_ok F u" using Sym es d terms_ok_Cons by fastforce+
    show ?thesis
      using term_divide_ok [OF mon(1) uc(2)] uc Sym es
      by (cases "term_divide mon u") (auto simp: term_divide_def Let_def split: if_splits)
  qed
  show ?thesis
  proof (cases "?lead = Inl InconclusiveDimensionOperation")
    case True
    then show ?thesis unfolding divmod_step_def e by simp
  next
    case False
    with lead obtain t c where l: "?lead = Inr (t, c)" "c \<noteq> 0" "term_ok F t" by blast
    show ?thesis
    proof (cases "count mod c = 0")
      case False
      with l show ?thesis unfolding divmod_step_def e by simp
    next
      case True
      then have "count div c \<noteq> 0" using mon(2) l(2) by (metis div_mod_decomp_int mult_zero_left add_0)
      from from_term_ok [OF l(3) this] obtain q where q: "from_term rules t (count div c) = Inr q" "size_ok F q"
        by (auto simp: yields_def)
      from dim_add_ok [OF Q q(2)] obtain Q' where
        Q': "dim_add rules quot q = Inr Q'" "size_ok F Q'" "den I Q' = den I quot + den I q" by (auto simp: yields_def)
      from dim_mul_ok [OF q(2) d(1)] obtain p where
        p: "dim_mul rules q divisor = Inr p" "size_ok F p" "den I p = den I q * den I divisor" by (auto simp: yields_def)
      from dim_sub_ok [OF D p(2)] obtain D' where
        D': "dim_sub rules (Sym e) p = Inr D'" "size_ok F D'" "den I D' = eden I e - den I p" by (auto simp: yields_def)
      have "divmod_step rules divisor (Sym e) quot = Inr (D', Q')"
        using l True q(1) Q'(1) p(1) D'(1) unfolding divmod_step_def e by simp
      moreover have "den I D' + den I divisor * den I Q' = eden I e + den I divisor * den I quot"
        using Q'(3) p(3) D'(3) by (simp add: algebra_simps)
      ultimately show ?thesis using Q'(2) D'(2) by blast
    qed
  qed
qed

lemma divmod_loop_ok:
  assumes "divmod_loop rules divisor fuel D Q = Some r"
    and "size_ok F D" "size_ok F Q" "size_ok F divisor" "den I divisor \<noteq> 0"
  shows "r = Inl InconclusiveDimensionOperation \<or>
    (\<exists>k Q'. r = Inr (Const k, Q') \<and> size_ok F Q' \<and> k + den I divisor * den I Q' = den I D + den I divisor * den I Q)"
  using assms(1-3)
proof (induction fuel arbitrary: D Q)
  case 0
  then show ?case by (cases D) (auto simp: divmod_loop.simps split: if_splits)
next
  case (Suc fuel)
  show ?case
  proof (cases D)
    case (Const k)
    with Suc.prems show ?thesis by (auto simp: divmod_loop.simps)
  next
    case (Sym e)
    with Suc.prems have s: "(case divmod_step rules divisor (Sym e) Q of
        Inl err \<Rightarrow> Some (Inl err) | Inr (D', Q') \<Rightarrow> divmod_loop rules divisor fuel D' Q') = Some r"
      by (simp add: divmod_loop.simps [of rules divisor "Suc fuel"])
    have "size_ok F (Sym e)" using Suc.prems(2) Sym by simp
    from divmod_step_ok [OF this Suc.prems(3) assms(4,5)] s Suc.IH Sym show ?thesis by fastforce
  qed
qed

lemma from_operation_ok:
  assumes "size_ok F a \<or> (\<exists>k. a = Sym (ensure_poly (Const k)))" "size_ok F b"
    and "Oper oper [ensure_poly a, ensure_poly b] \<in> F"
  shows "yields (from_operation rules oper [a, b]) (I (Oper oper [ensure_poly a, ensure_poly b]))"
proof -
  have "expr_size (ensure_poly a) \<ge> 0" "expr_size (ensure_poly b) \<ge> 0"
    using assms(1,2) ensure_poly_size [of F] by (auto simp: expr_size_def mk_expr_def term_size_def)
  then have "term_ok F [(Oper oper [ensure_poly a, ensure_poly b], 1)]"
    using assms(3) by (simp add: term_ok_def strictly_descending_def factor_size_Oper del: factor_size.simps)
  from from_term_ok [OF this, of 1] show ?thesis by (simp add: from_operation_def)
qed

lemma dim_divmod_ok:
  assumes "dim_divmod rules fuel e divisor = Some r"
    and e: "dividend_ok F e" and d: "size_ok F divisor" "den I divisor \<noteq> 0"
    and fl: "\<And>oper. oper \<in> {OpFLOORDIV, OpMOD} \<Longrightarrow> Oper oper [e, ensure_poly divisor] \<in> F"
    and iv: "I (Oper OpFLOORDIV [e, ensure_poly divisor]) = eden I e div den I divisor"
      "I (Oper OpMOD [e, ensure_poly divisor]) = eden I e mod den I divisor"
  shows "\<exists>q m. r = Inr (q, m) \<and> size_ok F q \<and> size_ok F m \<and>
    den I q = eden I e div den I divisor \<and> den I m = eden I e mod den I divisor"
proof -
  obtain attempt where at: "divmod_loop rules divisor fuel (Sym e) (Const 0) = Some attempt"
    using assms(1) by (auto simp: dim_divmod_def split: option.splits)
  have "attempt = Inl InconclusiveDimensionOperation \<or> (\<exists>D k Q. attempt = Inr (D, Q) \<and>
      to_constant D = Some k \<and> size_ok F Q \<and> k + den I divisor * den I Q = eden I e)"
    using e unfolding dividend_ok_def
  proof
    assume "size_ok F (Sym e)"
    from divmod_loop_ok [OF at this _ d] show ?thesis by auto
  next
    assume "\<exists>k. e = ensure_poly (Const k)"
    then obtain k where "e = [([], k)]" by (auto simp: mk_expr_def)
    then show ?thesis using at by (auto simp: divmod_loop.simps)
  qed
  moreover have fallback: "\<exists>q m. divmod_fallback rules e divisor = Inr (q, m) \<and> size_ok F q \<and> size_ok F m \<and>
      den I q = eden I e div den I divisor \<and> den I m = eden I e mod den I divisor"
  proof -
    have ea: "size_ok F (Sym e) \<or> (\<exists>k. Sym e = Sym (ensure_poly (Const k)))"
      using e by (auto simp: dividend_ok_def)
    from from_operation_ok [OF ea d(1), of OpFLOORDIV] from_operation_ok [OF ea d(1), of OpMOD] fl iv
    show ?thesis by (auto simp: divmod_fallback_def yields_def)
  qed
  ultimately consider "attempt = Inl InconclusiveDimensionOperation"
    | D k Q where "attempt = Inr (D, Q)" "to_constant D = Some k" "size_ok F Q" "k + den I divisor * den I Q = eden I e"
    by blast
  then show ?thesis
  proof cases
    case 1
    with assms(1) at fallback show ?thesis by (auto simp: dim_divmod_def)
  next
    case (2 D k Q)
    show ?thesis
    proof (cases divisor)
      case (Const c)
      with d have "c \<noteq> 0" by simp
      from dim_add_ok [OF 2(3), of "Const (k div c)"] obtain q where
        q: "dim_add rules Q (Const (k div c)) = Inr q" "size_ok F q" "den I q = den I Q + k div c"
        by (auto simp: yields_def)
      have "eden I e = k + c * den I Q" using 2(4) Const by simp
      with \<open>c \<noteq> 0\<close> have "eden I e div c = den I Q + k div c" "eden I e mod c = k mod c" by simp_all
      then show ?thesis
        using assms(1) at 2 q Const \<open>c \<noteq> 0\<close> by (auto simp: dim_divmod_def divmod_finish_def Let_def)
    next
      case (Sym es)
      show ?thesis
      proof (cases "k = 0")
        case True
        with 2 have "eden I e = den I divisor * den I Q" by simp
        with d have "eden I e div den I divisor = den I Q" "eden I e mod den I divisor = 0" by simp_all
        with True assms(1) at 2 Sym show ?thesis by (auto simp: dim_divmod_def divmod_finish_def Let_def)
      next
        case False
        with assms(1) at 2 Sym fallback show ?thesis by (auto simp: dim_divmod_def divmod_finish_def Let_def)
      qed
    qed
  qed
qed

end

subsection \<open>Evaluation as a denotation\<close>

definition evaluable :: "(int \<Rightarrow> (int \<times> int) res) \<Rightarrow> (string \<Rightarrow> int res) \<Rightarrow> dim_factor set" where
  "evaluable zd lk = {f. \<exists>x. eval_factor zd lk f = Inr x}"

definition valuation :: "(int \<Rightarrow> (int \<times> int) res) \<Rightarrow> (string \<Rightarrow> int res) \<Rightarrow> dim_factor \<Rightarrow> int" where
  "valuation zd lk f = projr (eval_factor zd lk f)"

lemma eval_term_iff:
  "eval_term zd lk t = Inr x \<longleftrightarrow> fst ` set t \<subseteq> evaluable zd lk \<and> x = tden (valuation zd lk) t"
proof (induction t arbitrary: x)
  case (Cons p t)
  obtain f n where p: "p = (f, n)" by (cases p)
  have "eval_term zd lk (p # t) = Inr x \<longleftrightarrow>
      (\<exists>y z. eval_factor zd lk f = Inr y \<and> eval_term zd lk t = Inr z \<and> x = y ^ nat n * z)"
    by (auto simp: eval_term_def p res_simps)
  also have "\<dots> \<longleftrightarrow> fst ` set (p # t) \<subseteq> evaluable zd lk \<and> x = tden (valuation zd lk) (p # t)"
    unfolding Cons.IH by (auto simp: p evaluable_def valuation_def)
  finally show ?case .
qed (auto simp: eval_term_def)

lemma eval_expr_iff:
  "eval_expr zd lk e = Inr x \<longleftrightarrow>
     (\<forall>p \<in> set e. fst ` set (fst p) \<subseteq> evaluable zd lk) \<and> x = eden (valuation zd lk) e"
proof (induction e arbitrary: x)
  case (Cons p e)
  obtain t c where p: "p = (t, c)" by (cases p)
  have "eval_expr zd lk (p # e) = Inr x \<longleftrightarrow>
      (\<exists>y z. eval_term zd lk t = Inr y \<and> eval_expr zd lk e = Inr z \<and> x = y * c + z)"
    by (auto simp: eval_expr_def p res_simps)
  also have "\<dots> \<longleftrightarrow> (\<forall>p \<in> set (p # e). fst ` set (fst p) \<subseteq> evaluable zd lk) \<and> x = eden (valuation zd lk) (p # e)"
    unfolding Cons.IH eval_term_iff by (auto simp: p)
  finally show ?case .
qed (auto simp: eval_expr_def)

lemma eval_factor_Oper:
  "eval_factor zd lk (Oper oper es) = rbind (rmap (eval_expr zd lk) es) (apply_op zd oper)"
  unfolding eval_factor.simps eval_expr_def eval_term_def rbind_assoc rbind_Inr by simp

lemma evaluate_ensure_poly:
  "evaluate rules env depth d = Inr x \<Longrightarrow>
     eval_expr (zero_divmod env) (lookup_var rules env depth) (ensure_poly d) = Inr x"
  by (cases d) (auto simp: mk_expr_def eval_expr_def eval_term_def)

lemma term_ok_evaluable:
  "term_ok F t \<longleftrightarrow> term_ok UNIV t \<and> fst ` set t \<subseteq> F"
  by (auto simp: term_ok_def)

lemma terms_ok_evaluable:
  "terms_ok F e \<longleftrightarrow> terms_ok UNIV e \<and> (\<forall>p \<in> set e. fst ` set (fst p) \<subseteq> F)"
  unfolding terms_ok_def term_ok_evaluable [of F] by (auto simp: split_def)

text \<open>\<open>canonical d\<close>: the form every operation returns its results in.\<close>

definition canonical :: "dim_size \<Rightarrow> bool" where
  "canonical d = size_ok UNIV d"

abbreviation env_factors :: "norm_rules \<Rightarrow> dim_env \<Rightarrow> nat \<Rightarrow> dim_factor set" where
  "env_factors rules env depth \<equiv> evaluable (zero_divmod env) (lookup_var rules env depth)"

abbreviation env_valuation :: "norm_rules \<Rightarrow> dim_env \<Rightarrow> nat \<Rightarrow> dim_factor \<Rightarrow> int" where
  "env_valuation rules env depth \<equiv> valuation (zero_divmod env) (lookup_var rules env depth)"

lemma evaluate_canonical:
  assumes "canonical d"
  shows "evaluate rules env depth d = Inr x \<longleftrightarrow>
    size_ok (env_factors rules env depth) d \<and> den (env_valuation rules env depth) d = x"
proof (cases d)
  case (Sym e)
  then show ?thesis
    using assms terms_ok_evaluable [of "env_factors rules env depth" e]
    by (auto simp: canonical_def eval_expr_iff)
qed simp

lemma size_ok_evaluate:
  assumes "size_ok (env_factors rules env depth) d" "den (env_valuation rules env depth) d = v"
  shows "canonical d \<and> evaluate rules env depth d = Inr v"
proof -
  have "canonical d"
    using assms(1) terms_ok_evaluable [of "env_factors rules env depth"] by (cases d) (auto simp: canonical_def)
  then show ?thesis using assms evaluate_canonical by blast
qed

text \<open>
  \<open>rules_hold\<close>: in this environment both sides of every rule evaluate, and they agree.
\<close>

definition rules_hold :: "norm_rules \<Rightarrow> dim_env \<Rightarrow> nat \<Rightarrow> bool" where
  "rules_hold rules env depth \<longleftrightarrow>
     (\<forall>(t, after, k) \<in> set rules. k \<noteq> 0 \<and> term_ok UNIV t \<and> (\<forall>(t2, c2) \<in> set after. term_ok UNIV t2) \<and>
        (case eval_term (zero_divmod env) (lookup_var rules env depth) t of
           Inl _ \<Rightarrow> False
         | Inr x \<Rightarrow> eval_expr (zero_divmod env) (lookup_var rules env depth) after = Inr (k * x)))"

lemma scope_valuation_env:
  assumes "rules_hold rules env depth"
  shows "scope_valuation rules (env_factors rules env depth) (env_valuation rules env depth)"
proof
  fix t after k assume "(t, after, k) \<in> set rules"
  with assms obtain x where x: "k \<noteq> 0" "term_ok UNIV t" "\<forall>(t2, c2) \<in> set after. term_ok UNIV t2"
    "eval_term (zero_divmod env) (lookup_var rules env depth) t = Inr x"
    "eval_expr (zero_divmod env) (lookup_var rules env depth) after = Inr (k * x)"
    unfolding rules_hold_def
    by (cases "eval_term (zero_divmod env) (lookup_var rules env depth) t") (simp_all, fastforce+)
  note t = x(4) [unfolded eval_term_iff] and a = x(5) [unfolded eval_expr_iff]
  show "k \<noteq> 0 \<and> term_ok (env_factors rules env depth) t \<and>
      (\<forall>(t2, c2) \<in> set after. term_ok (env_factors rules env depth) t2)"
    using x(1-3) t a term_ok_evaluable [of "env_factors rules env depth"] by fastforce
  show "k * tden (env_valuation rules env depth) t = eden (env_valuation rules env depth) after"
    using t a by simp
qed

text \<open>A scope without equality constraints, under any valuation.\<close>

interpretation plain: scope_valuation "[]" F I for F I
  by unfold_locales simp_all

end
