(* ===== verification/DimProps.thy ===== *)
theory DimProps
  imports DimDivmod
begin

text \<open>
  The properties of symbolic dimension expressions (\<^verbatim>\<open>jax/_src/export/shape_poly.py\<close>).
\<close>

subsection \<open>Divisions that end\<close>

lemma normalize_first_plain:
  "\<forall>p \<in> set rest. snd p \<noteq> 0 \<Longrightarrow> normalize_first [] ts rest = Inr ts"
  by (induction rest) (auto simp: normalize_term_def)

lemma normalize_sorted_terms_plain:
  "terms_ok F ts \<Longrightarrow> normalize_sorted_terms [] ts = Inr (to_dim_size ts)"
  unfolding normalize_sorted_terms_def by (subst normalize_first_plain) (auto simp: terms_ok_def)

text \<open>Subtracting its leading term from an expression leaves the rest of its terms.\<close>

lemma subtract_leading:
  assumes "terms_ok F ((t, c) # ts)" "t \<noteq> []"
  shows "dim_sub [] (Sym ((t, c) # ts)) (Sym [(t, c)]) = Inr (to_dim_size ts)"
proof -
  have ts: "terms_ok F ts" using assms terms_ok_Cons by blast
  have "term_cmp t t = 0" by (rule term_order.cmp_refl) simp
  moreover have "map (\<lambda>(m, c). (m, c * 1)) (filter (\<lambda>(m, c). c \<noteq> 0) ts) = ts"
    using ts by (induction ts) (auto simp: terms_ok_def strictly_descending_def)
  ultimately have "linear_combination_sorted_pairs term_cmp ((t, c) # ts) 1 [(t, c)] (-1) = ts"
    by (cases ts) (simp_all add: linear_combination_step(3))
  then show ?thesis
    using normalize_sorted_terms_plain [OF ts] by (simp add: linear_combination_def)
qed

lemma to_dim_size_Sym:
  assumes "terms_ok F ts" "to_constant (to_dim_size ts) = None"
  shows "to_dim_size ts = Sym ts" "ts \<noteq> []"
  using assms(2) by (cases ts rule: to_dim_size.cases; force)+

text \<open>A divisor that has one term.\<close>

fun one_term :: "dim_size \<Rightarrow> bool" where
  "one_term (Const k) = True"
| "one_term (Sym e) = (length e = 1)"

lemma term_divide_exact:
  assumes "term_ok F t" "term_ok F u" "term_divide t u = Inr q"
  shows "term_mul q u = t"
proof -
  have q: "term_ok F q" using assms by (rule term_divide_ok)
  have tm: "term_ok F (term_mul q u)" using q assms(2) by (rule term_mul_ok)
  have "coeff (term_mul q u) f = coeff t f" for f
    using assms(3) factor_order.linear_combination_coeff [of q u 1 1 f]
      factor_order.linear_combination_coeff [of t u 1 "-1" f]
    by (auto simp: term_mul_def term_divide_def Let_def split: if_splits)
  then show ?thesis
    by (intro factor_order.descending_unique) (use tm assms(1) in \<open>auto simp: term_ok_def\<close>)
qed

lemma divmod_step_one_term:
  assumes D: "size_ok F (Sym ((t, c) # ts))" and d: "one_term divisor" "size_ok F divisor"
    and step: "divmod_step [] divisor (Sym ((t, c) # ts)) quot = Inr (D', Q')"
  shows "D' = to_dim_size ts"
proof -
  have t: "term_ok F t" "c \<noteq> 0" "t \<noteq> []"
    using D terms_ok_Cons [of F "(t, c)" ts] by (auto split: if_splits)
  have sub: "dim_sub [] (Sym ((t, c) # ts)) (Sym [(t, c)]) = Inr (to_dim_size ts)"
    using D t by (intro subtract_leading) auto
  have ft: "from_term [] u k = Inr (to_dim_size [(u, k)])" if "term_ok F u" "k \<noteq> 0" for u k
    using normalize_sorted_terms_plain [of F "[(u, k)]"] that by (simp add: from_term_def)
  have product: "dim_mul [] q divisor = Inr (Sym [(t, c)])"
    if "from_term [] u (c div k) = Inr q" "c mod k = 0" "k \<noteq> 0"
      "divisor = Const k \<and> u = t \<or> (\<exists>v. divisor = Sym [(v, k)] \<and> term_divide t v = Inr u)" for q u k
  proof -
    have ck: "c div k * k = c" "k * (c div k) = c" using that(2) by auto
    then have nz: "c div k \<noteq> 0" using t(2) by auto
    have scale: "scale_expr [] [(v, a)] b = Inr (Sym [(v, a * b)])" if "term_ok F v" "v \<noteq> []" "a \<noteq> 0" "b \<noteq> 0" for v a b
      using that normalize_sorted_terms_plain [of F "[(v, a * b)]"]
      by (simp add: scale_expr_def linear_combination_def)
    from that(4) show ?thesis
    proof
      assume a: "divisor = Const k \<and> u = t"
      then have "q = Sym [(t, c div k)]" using that(1) ft [OF t(1) nz] t(3) by simp
      then show ?thesis using a scale [OF t(1,3) nz that(3)] ck by simp
    next
      assume "\<exists>v. divisor = Sym [(v, k)] \<and> term_divide t v = Inr u"
      then obtain v where v: "divisor = Sym [(v, k)]" "term_divide t v = Inr u" by blast
      have vo: "term_ok F v" "v \<noteq> []" using v(1) d(2) by (auto split: if_splits)
      have u: "term_ok F u" using term_divide_ok [OF t(1) vo(1) v(2)] .
      have uv: "term_mul u v = t" using term_divide_exact [OF t(1) vo(1) v(2)] .
      show ?thesis
      proof (cases "u = []")
        case True
        then have "q = Const (c div k)" using that(1) ft [OF u nz] by simp
        moreover have "v = t"
        proof -
          have "term_mul [] v = v"
            using vo scale_one [of v] by (force simp: term_mul_def term_ok_def pos_exps_def)
          then show ?thesis using uv True by simp
        qed
        ultimately show ?thesis using v scale [OF vo that(3) nz] ck by simp
      next
        case False
        then have "q = Sym [(u, c div k)]" using that(1) ft [OF u nz] by simp
        moreover have "mul_coeffs [(u, c div k)] [(v, k)] = [(t, c)]"
          using uv ck t(2) nz that(3) by (simp add: mul_coeffs_def add_coeff_def)
        ultimately show ?thesis
          using v t normalize_sorted_terms_plain [of F "[(t, c)]"] by (simp add: coeff_to_sorted_terms_def)
      qed
    qed
  qed
  show ?thesis
  proof (cases divisor)
    case (Const k)
    with step obtain q Q where "k \<noteq> 0" "c mod k = 0" "from_term [] t (c div k) = Inr q"
      "rbind (dim_mul [] q divisor) (\<lambda>qd. rbind (dim_sub [] (Sym ((t, c) # ts)) qd) (\<lambda>x. Inr (x, Q))) = Inr (D', Q')"
      by (auto simp: divmod_step_def res_simps split: if_splits)
    with product [of t k q] Const sub show ?thesis by simp
  next
    case (Sym e)
    with d obtain v k where e: "e = [(v, k)]" by (cases e) auto
    from step obtain u q Q where "term_divide t v = Inr u" "k \<noteq> 0" "c mod k = 0" "from_term [] u (c div k) = Inr q"
      "rbind (dim_mul [] q divisor) (\<lambda>qd. rbind (dim_sub [] (Sym ((t, c) # ts)) qd) (\<lambda>x. Inr (x, Q))) = Inr (D', Q')"
      unfolding Sym e by (auto simp: divmod_step_def res_simps split: if_splits)
    with product [of u k q] Sym e sub show ?thesis by simp
  qed
qed

lemma divmod_loop_one_term:
  assumes "terms_ok F ts" "one_term divisor" "size_ok F divisor" "length ts \<le> fuel"
  shows "\<exists>r. divmod_loop [] divisor fuel (to_dim_size ts) quot = Some r"
  using assms(1,4)
proof (induction ts arbitrary: fuel quot)
  case Nil
  then show ?case by (simp add: divmod_loop.simps)
next
  case (Cons p ts)
  obtain t c where p: "p = (t, c)" by (cases p)
  show ?case
  proof (cases "t = []")
    case True
    then show ?thesis using p by (simp add: divmod_loop.simps)
  next
    case False
    then have D: "to_dim_size (p # ts) = Sym ((t, c) # ts)" "size_ok F (Sym ((t, c) # ts))"
      using p Cons.prems by simp_all
    obtain fuel' where fuel: "fuel = Suc fuel'" using Cons.prems by (cases fuel) auto
    show ?thesis
    proof (cases "divmod_step [] divisor (Sym ((t, c) # ts)) quot")
      case (Inl e)
      then show ?thesis using D False fuel by (simp add: divmod_loop.simps)
    next
      case (Inr DQ)
      obtain D' Q' where DQ: "DQ = (D', Q')" by (cases DQ)
      have "D' = to_dim_size ts"
        using divmod_step_one_term [OF D(2) assms(2,3)] Inr DQ by simp
      moreover have "terms_ok F ts" using Cons.prems terms_ok_Cons by blast
      ultimately show ?thesis
        using Cons.IH [of fuel' Q'] Cons.prems Inr DQ D False fuel
        by (simp add: divmod_loop.simps [of "[]" divisor "Suc fuel'"])
    qed
  qed
qed

subsection \<open>A division that never ends\<close>

text \<open>The monomials \<open>b\<^sup>i a\<^sup>j\<close>, as sorted terms.\<close>

definition ba :: "int \<Rightarrow> int \<Rightarrow> dim_term" where
  "ba i j = filter (\<lambda>p. snd p \<noteq> 0) [(Var ''b'', i), (Var ''a'', j)]"

text \<open>\<open>ab - a\<^sup>2 - b\<^sup>2\<close> and \<open>a\<^sup>2 b\<^sup>2\<close>\<close>

definition loop_divisor :: dim_size where
  "loop_divisor = Sym [(ba 1 1, 1), (ba 2 0, -1), (ba 0 2, -1)]"

definition loop_dividend :: dim_expr where
  "loop_dividend = [(ba 2 2, 1)]"

lemma ba_cmp:
  "term_cmp (ba 2 2) (ba 2 2) = 0" "term_cmp (ba 1 3) (ba 1 3) = 0" "term_cmp (ba 4 0) (ba 4 0) = 0"
  "term_cmp (ba 3 1) (ba 3 1) = 0" "term_cmp (ba 2 2) (ba 3 1) = -1" "term_cmp (ba 1 3) (ba 2 2) = -1"
  "term_cmp (ba 4 0) (ba 1 3) = -1" "term_cmp (ba 1 3) (ba 4 0) = 1" "term_cmp (ba 2 2) (ba 4 0) = 1"
  "term_cmp (ba 1 1) (ba 2 0) = 1" "term_cmp (ba 2 0) (ba 1 1) = -1" "term_cmp (ba 1 1) (ba 1 1) = 0"
  "term_cmp (ba 2 0) (ba 2 0) = 0" "term_cmp (ba 3 1) (ba 1 3) = 1" "term_cmp (ba 2 2) (ba 1 3) = 1"
  by code_simp+

lemma ba_neq: "ba 2 2 \<noteq> []" "ba 3 1 \<noteq> []" "ba 1 1 \<noteq> []" "ba 2 0 \<noteq> []" "ba 1 3 \<noteq> []" "ba 4 0 \<noteq> []"
  by code_simp+

lemma ba_divide: "term_divide (ba 2 2) (ba 1 1) = Inr (ba 1 1)" "term_divide (ba 3 1) (ba 1 1) = Inr (ba 2 0)"
  by code_simp+

lemma ba_mul:
  "dim_mul [] (Sym [(ba 1 1, 1)]) loop_divisor = Inr (Sym [(ba 3 1, -1), (ba 2 2, 1), (ba 1 3, -1)])"
  "dim_mul [] (Sym [(ba 2 0, 1)]) loop_divisor = Inr (Sym [(ba 3 1, 1), (ba 2 2, -1), (ba 4 0, -1)])"
  by code_simp+

text \<open>The two states the loop alternates between; their coefficients grow.\<close>

definition even_dividend :: "int \<Rightarrow> dim_size" where
  "even_dividend n = Sym [(ba 2 2, 1), (ba 1 3, n), (ba 4 0, n)]"

definition even_quot :: "int \<Rightarrow> dim_size" where
  "even_quot n = Sym [(ba 1 1, n), (ba 2 0, n)]"

definition odd_dividend :: "int \<Rightarrow> dim_size" where
  "odd_dividend n = Sym [(ba 3 1, 1), (ba 1 3, n + 1), (ba 4 0, n)]"

definition odd_quot :: "int \<Rightarrow> dim_size" where
  "odd_quot n = Sym [(ba 1 1, n + 1), (ba 2 0, n)]"

lemmas loop_simps = linear_combination_def linear_combination_step ba_cmp normalize_sorted_terms_def
  normalize_term_def ba_neq

lemma even_step:
  assumes "n \<ge> 1"
  shows "divmod_step [] loop_divisor (even_dividend n) (even_quot n) = Inr (odd_dividend n, odd_quot n)"
proof -
  have "from_term [] (ba 1 1) 1 = Inr (Sym [(ba 1 1, 1)])" by code_simp
  moreover have "dim_add [] (even_quot n) (Sym [(ba 1 1, 1)]) = Inr (odd_quot n)"
    using assms by (simp add: even_quot_def odd_quot_def loop_simps)
  moreover have "dim_sub [] (even_dividend n) (Sym [(ba 3 1, -1), (ba 2 2, 1), (ba 1 3, -1)]) = Inr (odd_dividend n)"
    using assms by (simp add: even_dividend_def odd_dividend_def loop_simps)
  ultimately show ?thesis
    using ba_mul ba_divide by (simp add: divmod_step_def even_dividend_def loop_divisor_def)
qed

lemma odd_step:
  assumes "n \<ge> 1"
  shows "divmod_step [] loop_divisor (odd_dividend n) (odd_quot n) = Inr (even_dividend (n + 1), even_quot (n + 1))"
proof -
  have "from_term [] (ba 2 0) 1 = Inr (Sym [(ba 2 0, 1)])" by code_simp
  moreover have "dim_add [] (odd_quot n) (Sym [(ba 2 0, 1)]) = Inr (even_quot (n + 1))"
    using assms by (simp add: even_quot_def odd_quot_def loop_simps)
  moreover have "dim_sub [] (odd_dividend n) (Sym [(ba 3 1, 1), (ba 2 2, -1), (ba 4 0, -1)]) = Inr (even_dividend (n + 1))"
    using assms by (simp add: even_dividend_def odd_dividend_def loop_simps)
  ultimately show ?thesis
    using ba_mul ba_divide by (simp add: divmod_step_def odd_dividend_def loop_divisor_def)
qed

lemma loop_runs: "n \<ge> 1 \<Longrightarrow>
    divmod_loop [] loop_divisor fuel (even_dividend n) (even_quot n) = None \<and>
    divmod_loop [] loop_divisor fuel (odd_dividend n) (odd_quot n) = None"
proof (induction fuel arbitrary: n)
  case 0
  then show ?case by (simp add: divmod_loop.simps even_dividend_def odd_dividend_def ba_neq)
next
  case (Suc fuel)
  have "to_constant (even_dividend n) = None" "to_constant (odd_dividend n) = None"
    by (simp_all add: even_dividend_def odd_dividend_def ba_neq)
  with Suc even_step odd_step show ?case by (simp add: divmod_loop.simps [of _ _ "Suc fuel"])
qed

subsection \<open>Properties\<close>

text \<open>
  The syntactic comparison of factors is a linear order: it is antisymmetric and
  transitive, and two factors compare equal only when they are the same. Sorting factors and
  terms with it, and using it for equality and as dictionary keys, is therefore sound.
\<close>

theorem syntactic_cmp_linear:
  "factor_cmp g f = - factor_cmp f g \<and> (factor_cmp f g = 0 \<longleftrightarrow> f = g) \<and>
   (factor_cmp f g < 0 \<and> factor_cmp g h < 0 \<longrightarrow> factor_cmp f h < 0) \<and>
   term_cmp u t = - term_cmp t u \<and> (term_cmp t u = 0 \<longleftrightarrow> t = u) \<and>
   (term_cmp t u < 0 \<and> term_cmp u v < 0 \<longrightarrow> term_cmp t v < 0)"
  using factor_order.cmp_sym [of f g] factor_order.cmp_eq [of f g] factor_order.cmp_trans [of f g h]
    term_order.cmp_sym [of t u] term_order.cmp_eq [of t u] term_order.cmp_trans [of t u v] by simp

theorem syntactic_cmp_linear_witness:
  "factor_cmp (Var ''a'') (Var ''b'') < 0 \<and>
   factor_cmp (Var ''a'') (Oper OpMAX [[([(Var ''a'', 1)], 1)], [([], 3)]]) < 0"
proof -
  have l: "factor_cmp (Var ''a'') (Var ''b'') < 0"
    "factor_cmp (Var ''b'') (Oper OpMAX [[([(Var ''a'', 1)], 1)], [([], 3)]]) < 0" by code_simp+
  then show ?thesis
    using syntactic_cmp_linear [of "Var ''b''" "Var ''a''" "Oper OpMAX [[([(Var ''a'', 1)], 1)], [([], 3)]]"]
    by simp
qed

text \<open>
  The merge of two sorted lists of terms is the linear combination it stands for: the
  result is sorted, has no zero coefficient, and the coefficient of every term is the
  combination of its coefficients.
\<close>

theorem linear_combination_sorted_pairs_correct:
  assumes "strictly_descending term_cmp e1" "strictly_descending term_cmp e2"
    and "\<forall>(t, c) \<in> set e1. c \<noteq> 0" "\<forall>(t, c) \<in> set e2. c \<noteq> 0" and "k1 \<noteq> 0" "k2 \<noteq> 0"
  shows "strictly_descending term_cmp (linear_combination_sorted_pairs term_cmp e1 k1 e2 k2) \<and>
    (\<forall>(t, c) \<in> set (linear_combination_sorted_pairs term_cmp e1 k1 e2 k2). c \<noteq> 0) \<and>
    coeff (linear_combination_sorted_pairs term_cmp e1 k1 e2 k2) t = coeff e1 t * k1 + coeff e2 t * k2"
  using assms
  by (intro conjI term_order.linear_combination_descending term_order.linear_combination_nonzero
      term_order.linear_combination_coeff) simp_all

theorem linear_combination_sorted_pairs_correct_witness:
  "strictly_descending term_cmp (linear_combination_sorted_pairs term_cmp [(ba 1 1, 2), ([], 5)] 3 [(ba 1 0, 1), ([], 15)] (-1)) \<and>
   coeff (linear_combination_sorted_pairs term_cmp [(ba 1 1, 2), ([], 5)] 3 [(ba 1 0, 1), ([], 15)] (-1)) (ba 1 0) = -1"
proof -
  have d: "strictly_descending term_cmp [(ba 1 1, 2), ([], 5)]" "strictly_descending term_cmp [(ba 1 0, 1), ([], 15)]"
    "ba 1 1 \<noteq> ba 1 0" "ba 1 0 \<noteq> []"
    by code_simp+
  from linear_combination_sorted_pairs_correct [OF d(1,2), of 3 "-1" "ba 1 0"] d(3,4) show ?thesis by simp
qed

text \<open>
  C11: addition, subtraction, multiplication and negation of symbolic dimensions never fail on
  canonical operands, return canonical results, and commute with evaluation: the value of the
  result in an environment that satisfies the equality constraints of the scope is the
  integer operation on the values of the operands.
\<close>

theorem dim_arithmetic_correct:
  assumes "rules_hold rules env depth" and "canonical a" "canonical b"
    and "evaluate rules env depth a = Inr x" "evaluate rules env depth b = Inr y"
  shows "\<exists>s d p m. dim_add rules a b = Inr s \<and> dim_sub rules a b = Inr d \<and> dim_mul rules a b = Inr p \<and>
    dim_neg rules a = Inr m \<and> canonical s \<and> canonical d \<and> canonical p \<and> canonical m \<and>
    evaluate rules env depth s = Inr (x + y) \<and> evaluate rules env depth d = Inr (x - y) \<and>
    evaluate rules env depth p = Inr (x * y) \<and> evaluate rules env depth m = Inr (- x)"
proof -
  let ?F = "env_factors rules env depth" and ?I = "env_valuation rules env depth"
  note sv = scope_valuation_env [OF assms(1)]
  have ab: "size_ok ?F a" "size_ok ?F b" "den ?I a = x" "den ?I b = y"
    using evaluate_canonical [OF assms(2)] evaluate_canonical [OF assms(3)] assms(4,5) by auto
  have result: "canonical d \<and> evaluate rules env depth d = Inr v" if "size_ok ?F d" "den ?I d = v" for d v
    by (rule size_ok_evaluate [OF that])
  from scope_valuation.dim_add_ok [OF sv ab(1,2)] scope_valuation.dim_sub_ok [OF sv ab(1,2)]
    scope_valuation.dim_mul_ok [OF sv ab(1,2)] scope_valuation.dim_neg_ok [OF sv ab(1)] ab(3,4)
  show ?thesis
    unfolding scope_valuation.yields_def [OF sv] using result by metis
qed

text \<open>A scope with the constraint \<open>a == 2*b\<close>, an environment that satisfies it, and two operands.\<close>

definition ex_rules :: norm_rules where
  "ex_rules = [(ba 0 1, [(ba 1 0, 2)], 1)]"

definition ex_env :: dim_env where
  "ex_env = \<lparr>dim_value = map_of [(''a'', 6), (''b'', 3)], zero_divmod = (\<lambda>_. Inl ZeroDivisionError)\<rparr>"

definition ex_a :: dim_size where
  "ex_a = Sym [(ba 1 1, 1), ([], 5)]"

definition ex_b :: dim_size where
  "ex_b = Sym [(ba 1 0, -1), ([], 1)]"

lemma ex_facts:
  "rules_hold ex_rules ex_env 0" "rules_hold [] ex_env 0" "canonical ex_a" "canonical ex_b"
  "evaluate ex_rules ex_env 0 ex_a = Inr 23" "evaluate ex_rules ex_env 0 ex_b = Inr (-2)"
  "evaluate [] ex_env 0 ex_a = Inr 23" "evaluate [] ex_env 0 ex_b = Inr (-2)"
  by code_simp+

theorem dim_arithmetic_correct_witness:
  "\<exists>s p. dim_add ex_rules ex_a ex_b = Inr s \<and> dim_mul ex_rules ex_a ex_b = Inr p \<and>
     evaluate ex_rules ex_env 0 s = Inr 21 \<and> evaluate ex_rules ex_env 0 p = Inr (-46)"
  using dim_arithmetic_correct [OF ex_facts(1,3,4,5,6)] by auto

text \<open>
  An equality decided true is true: when \<^verbatim>\<open>a == b\<close> holds for two symbolic dimensions, they
  have the same value in every environment that satisfies the constraints of the scope.
\<close>

theorem dim_eq_correct:
  assumes "rules_hold rules env depth" and "canonical a" "canonical b" and "dim_eq rules a b = Inr True"
    and "evaluate rules env depth a = Inr x" "evaluate rules env depth b = Inr y"
  shows "x = y"
proof -
  have "size_ok (env_factors rules env depth) a" "size_ok (env_factors rules env depth) b"
    "den (env_valuation rules env depth) a = x" "den (env_valuation rules env depth) b = y"
    using evaluate_canonical [OF assms(2)] evaluate_canonical [OF assms(3)] assms(5,6) by auto
  with scope_valuation.dim_eq_sound [OF scope_valuation_env [OF assms(1)] _ _ assms(4)] show ?thesis by simp
qed

theorem dim_eq_correct_witness:
  "dim_eq ex_rules (Sym [(ba 1 1, 1)]) (Sym [(ba 2 0, 2)]) = Inr True \<and> (6 * 3 :: int) = 2 * 3 ^ 2"
proof -
  have f: "canonical (Sym [(ba 1 1, 1)])" "canonical (Sym [(ba 2 0, 2)])"
    "dim_eq ex_rules (Sym [(ba 1 1, 1)]) (Sym [(ba 2 0, 2)]) = Inr True"
    "evaluate ex_rules ex_env 0 (Sym [(ba 1 1, 1)]) = Inr (6 * 3)"
    "evaluate ex_rules ex_env 0 (Sym [(ba 2 0, 2)]) = Inr (2 * 3 ^ 2)" by code_simp+
  from dim_eq_correct [OF ex_facts(1) f] f(3) show ?thesis by simp
qed

text \<open>Fuel beyond what a division needs makes no difference.\<close>

lemma divmod_loop_more:
  assumes "divmod_loop rules d fuel D Q = Some r" "fuel \<le> fuel'"
  shows "divmod_loop rules d fuel' D Q = Some r"
  using assms
proof (induction fuel arbitrary: fuel' D Q)
  case 0
  then show ?case by (cases fuel'; cases D) (simp_all add: divmod_loop.simps split: if_splits)
next
  case (Suc fuel)
  then obtain n where n: "fuel' = Suc n" "fuel \<le> n" by (cases fuel') auto
  show ?case
    using Suc.prems(1) Suc.IH [OF _ n(2)] n(1)
    by (auto simp: divmod_loop.simps [of _ _ "Suc _"] split: if_splits sum.splits prod.splits)
qed

lemma dim_divmod_more:
  "dim_divmod rules fuel e d = Some r \<Longrightarrow> fuel \<le> fuel' \<Longrightarrow> dim_divmod rules fuel' e d = Some r"
  using divmod_loop_more [of rules d fuel _ _ _ fuel'] by (auto simp: dim_divmod_def split: option.splits)

lemma one_term_divides:
  assumes "canonical (Sym e)" "canonical d" "one_term d"
  obtains r where "dim_divmod [] (length e) e d = Some r"
proof -
  have e: "terms_ok UNIV e" "to_dim_size e = Sym e"
    using assms(1) by (cases e; auto simp: canonical_def split: if_splits)+
  from divmod_loop_one_term [OF e(1) assms(3), of "length e" "Const 0"] assms(2) e(2)
  obtain r where "divmod_loop [] d (length e) (Sym e) (Const 0) = Some r" by (auto simp: canonical_def)
  then have "dim_divmod [] (length e) e d \<noteq> None" by (auto simp: dim_divmod_def split: sum.splits)
  then show thesis using that by blast
qed

text \<open>
  C10: what \<^verbatim>\<open>_divmod\<close> does in at most \<open>fuel\<close> rounds of its loop. If the loop ends, quotient and
  remainder are Python's: they are canonical and evaluate to the floor division and the modulus
  of the values, for every divisor whose value is not zero, whether the polynomial division
  succeeds or not. In a scope without equality constraints and for an integer or a single term as divisor it does end
  within as many rounds as the dividend has terms. (Other divisions may never end: see
  the diverging division below.)
\<close>

theorem dim_divmod_correct:
  assumes "rules_hold rules env depth" and "canonical (Sym e)" "canonical d"
    and "evaluate rules env depth (Sym e) = Inr x" "evaluate rules env depth d = Inr y" "y \<noteq> 0"
  shows "case dim_divmod rules fuel e d of
      Some r \<Rightarrow> \<exists>q m. r = Inr (q, m) \<and> canonical q \<and> canonical m \<and>
        evaluate rules env depth q = Inr (x div y) \<and> evaluate rules env depth m = Inr (x mod y)
    | None \<Rightarrow> rules \<noteq> [] \<or> \<not> one_term d \<or> fuel < length e"
proof (cases "dim_divmod rules fuel e d")
  case None
  have "dim_divmod rules fuel e d \<noteq> None" if d: "one_term d" and r: "rules = []" and fuel: "length e \<le> fuel"
  proof -
    obtain r where "dim_divmod [] (length e) e d = Some r" by (rule one_term_divides [OF assms(2,3) d])
    from dim_divmod_more [OF this fuel] show ?thesis using r by simp
  qed
  then show ?thesis using None by (cases "rules = [] \<and> one_term d") (auto simp: not_less [symmetric])
next
  case (Some r)
  let ?F = "env_factors rules env depth" and ?I = "env_valuation rules env depth"
  note sv = scope_valuation_env [OF assms(1)]
  have ed: "size_ok ?F (Sym e)" "size_ok ?F d" "eden ?I e = x" "den ?I d = y"
    using evaluate_canonical [OF assms(2)] evaluate_canonical [OF assms(3)] assms(4,5) by auto
  have "eval_factor (zero_divmod env) (lookup_var rules env depth) (Oper oper [e, ensure_poly d]) =
      apply_op (zero_divmod env) oper [x, y]" for oper
    using assms(4) evaluate_ensure_poly [OF assms(5)]
    by (simp only: eval_factor_Oper rmap.simps rbind_Inr evaluate.simps)
  then have op: "Oper OpFLOORDIV [e, ensure_poly d] \<in> ?F" "?I (Oper OpFLOORDIV [e, ensure_poly d]) = x div y"
    "Oper OpMOD [e, ensure_poly d] \<in> ?F" "?I (Oper OpMOD [e, ensure_poly d]) = x mod y"
    using assms(6) by (simp_all add: evaluable_def valuation_def apply_op_def)
  have "\<exists>q m. r = Inr (q, m) \<and> size_ok ?F q \<and> size_ok ?F m \<and> den ?I q = x div y \<and> den ?I m = x mod y"
    using scope_valuation.dim_divmod_ok [OF sv Some _ ed(2)] ed op assms(6)
    by (auto simp: dividend_ok_def)
  then have "\<exists>q m. r = Inr (q, m) \<and> canonical q \<and> canonical m \<and>
      evaluate rules env depth q = Inr (x div y) \<and> evaluate rules env depth m = Inr (x mod y)"
    using size_ok_evaluate by metis
  then show ?thesis using Some by simp
qed

theorem dim_divmod_correct_witness:
  "\<exists>q m. dim_divmod [] 5 [(ba 1 1, 1), ([], 5)] ex_b = Some (Inr (q, m)) \<and>
     evaluate [] ex_env 0 q = Inr (-12) \<and> evaluate [] ex_env 0 m = Inr (-1)"
proof -
  note f = ex_facts(2,3,4,7,8) [unfolded ex_a_def]
  have "dim_divmod [] 5 [(ba 1 1, 1), ([], 5)] ex_b \<noteq> None" by code_simp
  with dim_divmod_correct [OF f, of 5] show ?thesis by (auto split: option.splits)
qed

text \<open>
  C13: In a scope without equality constraints, dividing by an integer or by a single term takes at most one
  round of the loop per term of the dividend, so it ends, and what it returns or raises does not
  depend on any further rounds.
\<close>

theorem dim_divmod_terminates:
  assumes "canonical (Sym e)" "canonical d" "one_term d"
  shows "\<exists>r. \<forall>fuel \<ge> length e. dim_divmod [] fuel e d = Some r"
proof -
  obtain r where "dim_divmod [] (length e) e d = Some r" by (rule one_term_divides [OF assms])
  then show ?thesis using dim_divmod_more by blast
qed

theorem dim_divmod_terminates_witness:
  "\<exists>r. dim_divmod [] 100 [(ba 1 1, 6), ([], 5)] (Sym [(ba 0 1, 3)]) = Some r"
proof -
  have "canonical (Sym [(ba 1 1, 6), ([], 5)])" "canonical (Sym [(ba 0 1, 3)])" by code_simp+
  from dim_divmod_terminates [OF this] show ?thesis by auto
qed

text \<open>
  C12: the leading term of the dividend need not decrease, and the loop of \<^verbatim>\<open>_divmod\<close> need not
  end: dividing \<open>a\<^sup>2 b\<^sup>2\<close> by \<open>ab - a\<^sup>2 - b\<^sup>2\<close> runs forever, in a scope without constraints.
\<close>

theorem dim_divmod_diverges:
  "canonical (Sym loop_dividend) \<and> canonical loop_divisor \<and> (\<forall>fuel. dim_divmod [] fuel loop_dividend loop_divisor = None)"
proof (intro conjI allI)
  show "canonical (Sym loop_dividend)" "canonical loop_divisor" by code_simp+
  fix fuel
  have s: "divmod_step [] loop_divisor (Sym loop_dividend) (Const 0)
      = Inr (Sym [(ba 3 1, 1), (ba 1 3, 1)], Sym [(ba 1 1, 1)])"
    "divmod_step [] loop_divisor (Sym [(ba 3 1, 1), (ba 1 3, 1)]) (Sym [(ba 1 1, 1)])
      = Inr (even_dividend 1, even_quot 1)"
    "to_constant (Sym loop_dividend) = None" by code_simp+
  then have "divmod_loop [] loop_divisor fuel (Sym loop_dividend) (Const 0) = None"
    using loop_runs [of 1] ba_neq
    by (cases fuel; cases "fuel - 1") (simp_all add: divmod_loop.simps [of _ _ "Suc _"] divmod_loop.simps [of _ _ 0])
  then show "dim_divmod [] fuel loop_dividend loop_divisor = None" by (simp add: dim_divmod_def)
qed

end
