(* ===== verification/DimDecision.thy ===== *)
theory DimDecision
  imports DimDivmod
begin

text \<open>
  \<^verbatim>\<open>jax/_src/export/shape_poly_decision.py\<close>: bounds of symbolic dimension expressions by
  elimination of terms, and the comparisons of \<^verbatim>\<open>shape_poly.py\<close> that rest on them.

  Python's numbers here are integers and the floats \<open>inf\<close>, \<open>-inf\<close> and \<open>nan\<close>. Quotients that the
  source computes in floating point are modelled where they are exact. Recursive methods take
  the remaining depth and raise \<open>RecursionError\<close> when it is used up, as Python does. Sets of
  constraints are lists in the order of insertion.
\<close>

subsection \<open>Integers and infinite floats\<close>

datatype py_num = Fin int | PInf | NInf | NaN

fun num_less :: "py_num \<Rightarrow> py_num \<Rightarrow> bool" where
  "num_less (Fin a) (Fin b) = (a < b)"
| "num_less (Fin a) PInf = True"
| "num_less NInf (Fin b) = True"
| "num_less NInf PInf = True"
| "num_less _ _ = False"

definition num_le :: "py_num \<Rightarrow> py_num \<Rightarrow> bool" where
  "num_le a b \<longleftrightarrow> num_less a b \<or> (a = b \<and> a \<noteq> NaN)"

definition py_min :: "py_num \<Rightarrow> py_num \<Rightarrow> py_num" where
  "py_min a b = (if num_less b a then b else a)"

definition py_max :: "py_num \<Rightarrow> py_num \<Rightarrow> py_num" where
  "py_max a b = (if num_less a b then b else a)"

text \<open>\<^verbatim>\<open>min(*xs)\<close> and \<^verbatim>\<open>max(*xs)\<close> of a list that is not empty\<close>

fun py_min_list :: "py_num list \<Rightarrow> py_num res" where
  "py_min_list [] = Inl (TypeError ''min'')"
| "py_min_list (x # xs) = Inr (fold (\<lambda>y m. py_min m y) xs x)"

fun py_max_list :: "py_num list \<Rightarrow> py_num res" where
  "py_max_list [] = Inl (TypeError ''max'')"
| "py_max_list (x # xs) = Inr (fold (\<lambda>y m. py_max m y) xs x)"

fun num_mul :: "py_num \<Rightarrow> py_num \<Rightarrow> py_num" where
  "num_mul (Fin a) (Fin b) = Fin (a * b)"
| "num_mul NaN _ = NaN"
| "num_mul _ NaN = NaN"
| "num_mul (Fin a) PInf = (if a > 0 then PInf else if a < 0 then NInf else NaN)"
| "num_mul (Fin a) NInf = (if a > 0 then NInf else if a < 0 then PInf else NaN)"
| "num_mul PInf (Fin b) = (if b > 0 then PInf else if b < 0 then NInf else NaN)"
| "num_mul NInf (Fin b) = (if b > 0 then NInf else if b < 0 then PInf else NaN)"
| "num_mul PInf PInf = PInf"
| "num_mul PInf NInf = NInf"
| "num_mul NInf PInf = NInf"
| "num_mul NInf NInf = PInf"

text \<open>\<open>x ** n\<close> for \<open>n > 0\<close>\<close>

fun num_pow :: "py_num \<Rightarrow> nat \<Rightarrow> py_num" where
  "num_pow (Fin a) n = Fin (a ^ n)"
| "num_pow PInf n = PInf"
| "num_pow NInf n = (if even n then PInf else NInf)"
| "num_pow NaN n = NaN"

fun num_add :: "py_num \<Rightarrow> int \<Rightarrow> py_num" where
  "num_add (Fin a) k = Fin (a + k)"
| "num_add x k = x"

definition sgn_py :: "int \<Rightarrow> int" where
  "sgn_py x = (if x \<ge> 0 then 1 else -1)"

text \<open>
  The source divides in floating point and rounds to an integer. When both numbers are below
  \<open>2\<^sup>53\<close> in absolute value, that is the exact quotient rounded (\<open>float_quotient_exact\<close>); other
  quotients are not modelled: they stop the model with \<open>InexactQuotient\<close>.
\<close>

definition float_exact :: "int \<Rightarrow> bool" where
  "float_exact a \<longleftrightarrow> \<bar>a\<bar> < 9007199254740992"

definition floor_div :: "int \<Rightarrow> int \<Rightarrow> int res" where
  "floor_div a b = (if float_exact a \<and> float_exact b then Inr (a div b) else Inl InexactQuotient)"

definition ceil_div :: "int \<Rightarrow> int \<Rightarrow> int res" where
  "ceil_div a b = (if float_exact a \<and> float_exact b then Inr (- ((- a) div b)) else Inl InexactQuotient)"

text \<open>\<^verbatim>\<open>int(np.floor(x / k))\<close> and \<^verbatim>\<open>int(np.ceil(x / k))\<close>: \<^verbatim>\<open>int\<close> of an infinity overflows.\<close>

fun floor_quot :: "py_num \<Rightarrow> int \<Rightarrow> int res" where
  "floor_quot (Fin a) k = (if k = 0 then Inl ZeroDivisionError else floor_div a k)"
| "floor_quot NaN k = (if k = 0 then Inl ZeroDivisionError else Inl (ValueError ''nan''))"
| "floor_quot _ k = (if k = 0 then Inl ZeroDivisionError else Inl OverflowError)"

fun ceil_quot :: "py_num \<Rightarrow> int \<Rightarrow> int res" where
  "ceil_quot (Fin a) k = (if k = 0 then Inl ZeroDivisionError else ceil_div a k)"
| "ceil_quot NaN k = (if k = 0 then Inl ZeroDivisionError else Inl (ValueError ''nan''))"
| "ceil_quot _ k = (if k = 0 then Inl ZeroDivisionError else Inl OverflowError)"

subsection \<open>Precision, constraints and the state of the procedure\<close>

datatype bounds_precision = FOR_GEQ0_OR_LEQ0 | FOR_GEQ0_OR_LT0 | BEST

fun precision_value :: "bounds_precision \<Rightarrow> nat" where
  "precision_value FOR_GEQ0_OR_LEQ0 = 0"
| "precision_value FOR_GEQ0_OR_LT0 = 1"
| "precision_value BEST = 2"

fun bounds_are_sufficient :: "bounds_precision \<Rightarrow> py_num \<Rightarrow> py_num \<Rightarrow> bool" where
  "bounds_are_sufficient FOR_GEQ0_OR_LEQ0 lb ub = (num_le (Fin 0) lb \<or> num_le ub (Fin 0))"
| "bounds_are_sufficient FOR_GEQ0_OR_LT0 lb ub = (num_le (Fin 0) lb \<or> num_less ub (Fin 0))"
| "bounds_are_sufficient BEST lb ub = False"

datatype comparator = CmpEQ | CmpGEQ

text \<open>The part of \<^verbatim>\<open>SymbolicScope\<close> the procedure reads: a constraint is its comparison and \<^verbatim>\<open>diff\<close>.\<close>

record symbolic_scope =
  normalization_rules :: norm_rules
  explicit_constraints :: "(comparator \<times> dim_size) list"

text \<open>\<^verbatim>\<open>_DecisionByElimination\<close>, with the cache of bounds that the scope holds.\<close>

record decision =
  processed :: "dim_term list"
  term_bounds :: "(dim_term \<times> py_num \<times> py_num) list"
  expr_constraints :: "(dim_term \<times> (comparator \<times> int \<times> dim_expr) list) list"
  bounds_cache :: "(dim_expr \<times> py_num \<times> py_num \<times> bounds_precision) list"

definition empty_decision :: decision where
  "empty_decision = \<lparr>processed = [], term_bounds = [], expr_constraints = [], bounds_cache = []\<rparr>"

definition get_term_bounds :: "decision \<Rightarrow> dim_term \<Rightarrow> py_num \<times> py_num" where
  "get_term_bounds st t = (case map_of (term_bounds st) t of None \<Rightarrow> (NInf, PInf) | Some b \<Rightarrow> b)"

subsection \<open>Adding constraints\<close>

definition add_to_state :: "decision \<Rightarrow> comparator \<Rightarrow> dim_expr \<Rightarrow> decision res" where
  "add_to_state st cmp e =
     rbind (rassert (to_constant (Sym e) = None)) (\<lambda>_.
     rbind (to_single_term e) (\<lambda>term_factors.
     case term_factors of
       Some (n, t_k, t) \<Rightarrow>
         let (lb, ub) = get_term_bounds st t in
         rbind (case cmp of
                  CmpEQ \<Rightarrow>
                    rbind (py_mod n t_k) (\<lambda>r.
                    if r \<noteq> 0 then Inl (ValueError ''unsatisfiable'')
                    else let t_val = Fin (- (n div t_k)) in Inr (py_max lb t_val, py_min ub t_val))
                | CmpGEQ \<Rightarrow>
                    if t_k > 0 then rbind (ceil_quot (Fin (- n)) t_k) (\<lambda>k. Inr (py_max lb (Fin k), ub))
                    else rbind (floor_quot (Fin (- n)) t_k) (\<lambda>k. Inr (lb, py_min ub (Fin k))))
         (\<lambda>(lb, ub).
            if num_less ub lb then Inl (ValueError ''unsatisfiable'')
            else Inr (st\<lparr>term_bounds := dict_set (term_bounds st) t (lb, ub)\<rparr>))
     | None \<Rightarrow>
         (case e of
            [] \<Rightarrow> Inl IndexError
          | (lead_t, lead_t_k) # _ \<Rightarrow>
              let cs = (case map_of (expr_constraints st) lead_t of None \<Rightarrow> [] | Some cs \<Rightarrow> cs);
                  c = (cmp, lead_t_k, e) in
              Inr (st\<lparr>expr_constraints :=
                dict_set (expr_constraints st) lead_t (if c \<in> set cs then cs else cs @ [c])\<rparr>))))"

text \<open>
  \<^verbatim>\<open>combine_term_with_existing\<close>: constraints \<open>c\<close> with multipliers \<open>c_s\<close> and \<open>t_s\<close> that eliminate
  the term \<open>t\<close> from \<open>t * t_k * t_s + c * c_s\<close>.
\<close>

definition combine_term_with_existing ::
  "norm_rules \<Rightarrow> decision \<Rightarrow> dim_term \<Rightarrow> int \<Rightarrow> bool \<Rightarrow> (comparator \<times> dim_size \<times> int \<times> int) list res" where
  "combine_term_with_existing rules st t t_k only_smaller_than_t =
     (let (t_lb, t_ub) = get_term_bounds st t in
      rbind
        (if t_lb = t_ub
         then (case t_lb of
                 Fin b \<Rightarrow> rbind (dim_sub rules (Sym [(t, 1)]) (Const b)) (\<lambda>c. Inr [(CmpEQ, c, \<bar>t_k\<bar>, - sgn_py t_k)])
               | _ \<Rightarrow> Inl OverflowError)
         else
           rbind (case t_lb of
                    Fin b \<Rightarrow> rbind (dim_sub rules (Sym [(t, 1)]) (Const b)) (\<lambda>c. Inr [(CmpGEQ, c, \<bar>t_k\<bar>, - sgn_py t_k)])
                  | PInf \<Rightarrow> Inl OverflowError
                  | _ \<Rightarrow> Inr []) (\<lambda>lower.
           rbind (case t_ub of
                    Fin b \<Rightarrow> rbind (dim_add rules (Sym [(t, -1)]) (Const b)) (\<lambda>c. Inr [(CmpGEQ, c, \<bar>t_k\<bar>, sgn_py t_k)])
                  | NInf \<Rightarrow> Inl OverflowError
                  | _ \<Rightarrow> Inr []) (\<lambda>upper.
           Inr (lower @ upper))))
        (\<lambda>acc.
           let prev = (if only_smaller_than_t
                       then (case map_of (expr_constraints st) t of None \<Rightarrow> [] | Some cs \<Rightarrow> cs)
                       else concat (map snd (expr_constraints st))) in
           Inr (acc @ List.map_filter (\<lambda>(c_eq, _, c).
             case map_of c t of
               None \<Rightarrow> None
             | Some tc_k \<Rightarrow> Some (c_eq, Sym c, \<bar>t_k\<bar>, - tc_k * sgn_py t_k)) prev)))"

definition combine_one ::
  "norm_rules \<Rightarrow> comparator \<Rightarrow> dim_expr \<Rightarrow> comparator \<times> dim_size \<times> int \<times> int
    \<Rightarrow> (comparator \<times> dim_expr) list \<Rightarrow> (comparator \<times> dim_expr) list res" where
  "combine_one rules eq e = (\<lambda>(c_eq, c, c_s, t_s) combinations.
     if t_s > 0 \<or> eq = CmpEQ
     then
       let new_eq = (if eq = CmpEQ \<and> c_eq = CmpEQ then CmpEQ else CmpGEQ) in
       rbind (linear_combination rules (Sym e) t_s c c_s) (\<lambda>new_e.
       case to_constant new_e of
         Some k \<Rightarrow>
           if (new_eq = CmpGEQ \<and> k < 0) \<or> (new_eq = CmpEQ \<and> k \<noteq> 0) then Inl (ValueError ''unsatisfiable'')
           else Inr combinations
       | None \<Rightarrow>
           (case new_e of
              Sym e' \<Rightarrow> Inr (if (new_eq, e') \<in> set combinations then combinations else combinations @ [(new_eq, e')])
            | Const _ \<Rightarrow> Inr combinations))
     else Inr combinations)"

definition combine_constraint_with_existing ::
  "norm_rules \<Rightarrow> decision \<Rightarrow> comparator \<Rightarrow> dim_expr \<Rightarrow> (comparator \<times> dim_expr) list res" where
  "combine_constraint_with_existing rules st eq e =
     rfold (\<lambda>(t, t_k) combinations.
       if t = term_one then Inr combinations
       else rbind (combine_term_with_existing rules st t t_k False)
              (\<lambda>cs. rfold (combine_one rules eq e) cs combinations)) e []"

text \<open>
  \<open>as_size cmp first x\<close>: the side of a constraint as a dimension size; \<open>None\<close> where an infinite side
  makes the constraint trivial.
\<close>

datatype side = SizeSide dim_size | NumSide py_num

fun as_size :: "comparator \<Rightarrow> bool \<Rightarrow> side \<Rightarrow> dim_size option res" where
  "as_size cmp first (SizeSide d) = Inr (Some d)"
| "as_size cmp first (NumSide (Fin k)) = Inr (Some (Const k))"
| "as_size cmp first (NumSide NaN) = Inl AssertionError"
| "as_size cmp first (NumSide PInf) = (if first \<and> cmp = CmpGEQ then Inr None else Inl OverflowError)"
| "as_size cmp first (NumSide NInf) = (if \<not> first \<and> cmp = CmpGEQ then Inr None else Inl OverflowError)"

definition combine_and_add_constraint ::
  "norm_rules \<Rightarrow> decision \<Rightarrow> comparator \<Rightarrow> side \<Rightarrow> side \<Rightarrow> decision res" where
  "combine_and_add_constraint rules st cmp s1 s2 =
     rbind (as_size cmp True s1) (\<lambda>e1. case e1 of None \<Rightarrow> Inr st | Some e1 \<Rightarrow>
     rbind (as_size cmp False s2) (\<lambda>e2. case e2 of None \<Rightarrow> Inr st | Some e2 \<Rightarrow>
     rbind (dim_sub rules e1 e2) (\<lambda>e.
     case to_constant e of
       Some k \<Rightarrow> if k < 0 then Inl (ValueError ''unsatisfiable'') else Inr st
     | None \<Rightarrow>
         (case e of
            Const _ \<Rightarrow> Inl AssertionError
          | Sym e \<Rightarrow>
              rbind (add_to_state st cmp e) (\<lambda>st.
              rbind (combine_constraint_with_existing rules st cmp e) (\<lambda>combinations.
              rfold (\<lambda>(cmp, a) st. add_to_state st cmp a) combinations st))))))"

subsection \<open>Bounds of an expression\<close>

text \<open>
  The body of the loop of \<^verbatim>\<open>_bounds_for_sorted_terms\<close> for one constraint: \<open>rest_lb\<close> and \<open>rest_ub\<close> are
  the bounds of the combination.
\<close>

definition refine_bounds ::
  "comparator \<Rightarrow> int \<Rightarrow> py_num \<times> py_num \<Rightarrow> py_num \<times> py_num \<Rightarrow> (py_num \<times> py_num) res" where
  "refine_bounds c_eq t_s rest b =
     (let (rest_lb, rest_ub) = rest; (lb, ub) = b in
      rbind (if num_less rest_ub PInf
             then if t_s > 0 then rbind (floor_quot rest_ub t_s) (\<lambda>k. Inr (lb, py_min ub (Fin k)))
                  else rbind (ceil_quot rest_ub t_s) (\<lambda>k. Inr (py_max lb (Fin k), ub))
             else Inr (lb, ub)) (\<lambda>(lb, ub).
      if num_less NInf rest_lb \<and> c_eq = CmpEQ
      then if t_s > 0 then rbind (ceil_quot rest_lb t_s) (\<lambda>k. Inr (py_max lb (Fin k), ub))
           else rbind (floor_quot rest_lb t_s) (\<lambda>k. Inr (lb, py_min ub (Fin k)))
      else Inr (lb, ub)))"

text \<open>The loop; the flag of the result tells that the bounds were sufficient and it returned.\<close>

fun bounds_by_constraints ::
  "(dim_expr \<Rightarrow> (py_num \<times> py_num) res) \<Rightarrow> dim_expr \<Rightarrow> bounds_precision \<Rightarrow> (comparator \<times> dim_size \<times> int \<times> int) list
    \<Rightarrow> py_num \<times> py_num \<Rightarrow> (bool \<times> py_num \<times> py_num) res" where
  "bounds_by_constraints rec e prec [] (lb, ub) = Inr (False, lb, ub)"
| "bounds_by_constraints rec e prec ((c_eq, c, c_s, t_s) # cs) (lb, ub) =
     (case c of
        Const _ \<Rightarrow> Inl (TypeError ''attribute'')
      | Sym c_terms \<Rightarrow>
          rbind (rec (linear_combination_sorted_pairs term_cmp e t_s c_terms c_s)) (\<lambda>rest.
          rbind (refine_bounds c_eq t_s rest (lb, ub)) (\<lambda>(lb, ub).
          if bounds_are_sufficient prec lb ub then Inr (True, lb, ub)
          else bounds_by_constraints rec e prec cs (lb, ub))))"

text \<open>The special rules for a factor \<open>max(op1, op2)\<close> or \<open>min(op1, op2)\<close>.\<close>

definition bounds_by_max_min ::
  "(dim_expr \<Rightarrow> (py_num \<times> py_num) res) \<Rightarrow> dim_term \<Rightarrow> int \<Rightarrow> dim_expr \<Rightarrow> py_num \<times> py_num \<Rightarrow> (py_num \<times> py_num) res" where
  "bounds_by_max_min rec t t_k tail b =
     rbind (term_to_factor t) (\<lambda>t_f.
     case t_f of
       Some (Oper oper operands) \<Rightarrow>
         if oper = OpMAX \<or> oper = OpMIN
         then
           (case operands of
              [op1, op2] \<Rightarrow>
                rbind (rec (linear_combination_sorted_pairs term_cmp tail 1 op1 t_k)) (\<lambda>(rest1_lb, rest1_ub).
                rbind (rec (linear_combination_sorted_pairs term_cmp tail 1 op2 t_k)) (\<lambda>(rest2_lb, rest2_ub).
                let (lb, ub) = b;
                    like_max = (if oper = OpMAX then t_k > 0 else t_k < 0) in
                Inr (if like_max
                     then (py_max lb (py_max rest1_lb rest2_lb), py_min ub (py_max rest1_ub rest2_ub))
                     else (py_max lb (py_min rest1_lb rest2_lb), py_min ub (py_min rest1_ub rest2_ub)))))
            | _ \<Rightarrow> Inl (ValueError ''unpack''))
         else Inr b
     | _ \<Rightarrow> Inr b)"

fun bounds_for_sorted_terms ::
  "norm_rules \<Rightarrow> decision \<Rightarrow> nat \<Rightarrow> bounds_precision \<Rightarrow> dim_expr \<Rightarrow> (py_num \<times> py_num) res" where
  "bounds_for_sorted_terms rules st 0 prec e = Inl RecursionError"
| "bounds_for_sorted_terms rules st (Suc depth) prec [] = Inr (Fin 0, Fin 0)"
| "bounds_for_sorted_terms rules st (Suc depth) prec ((t, t_k) # tail) =
     (if t = term_one then rbind (rassert (tail = [])) (\<lambda>_. Inr (Fin t_k, Fin t_k))
      else
        let rec = bounds_for_sorted_terms rules st depth BEST in
        rbind (combine_term_with_existing rules st t t_k True) (\<lambda>cs.
        rbind (bounds_by_constraints rec ((t, t_k) # tail) prec cs (NInf, PInf)) (\<lambda>(done, lb, ub).
        if done then Inr (lb, ub) else bounds_by_max_min rec t t_k tail (lb, ub))))"

text \<open>\<^verbatim>\<open>bounds\<close> without implicit constraints; it caches its result in the scope.\<close>

definition bounds ::
  "norm_rules \<Rightarrow> nat \<Rightarrow> decision \<Rightarrow> dim_size \<Rightarrow> bounds_precision \<Rightarrow> ((py_num \<times> py_num) \<times> decision) res" where
  "bounds rules depth st d prec =
     (case to_constant d of
        Some k \<Rightarrow> Inr ((Fin k, Fin k), st)
      | None \<Rightarrow>
          (case d of
             Const _ \<Rightarrow> Inl AssertionError
           | Sym e \<Rightarrow>
               let compute =
                 rbind (bounds_for_sorted_terms rules st depth prec e) (\<lambda>(lb, ub).
                 Inr ((lb, ub), st\<lparr>bounds_cache := dict_set (bounds_cache st) e (lb, ub, prec)\<rparr>)) in
               (case map_of (bounds_cache st) e of
                  Some (lb, ub, prev_prec) \<Rightarrow>
                    if bounds_are_sufficient prec lb ub \<or> precision_value prev_prec \<ge> precision_value prec
                    then Inr ((lb, ub), st)
                    else compute
                | None \<Rightarrow> compute)))"

subsection \<open>Implicit constraints\<close>

text \<open>\<^verbatim>\<open>math_floor_with_inf\<close>\<close>

fun num_nonneg :: "py_num \<Rightarrow> bool" where
  "num_nonneg (Fin a) = (a \<ge> 0)"
| "num_nonneg PInf = True"
| "num_nonneg NInf = False"
| "num_nonneg NaN = False"

definition num_isinf :: "py_num \<Rightarrow> bool" where
  "num_isinf a \<longleftrightarrow> a = PInf \<or> a = NInf"

definition math_floor_with_inf :: "py_num \<Rightarrow> py_num \<Rightarrow> py_num res" where
  "math_floor_with_inf a b =
     rbind (rassert (b \<noteq> Fin 0)) (\<lambda>_.
     if \<not> num_isinf b
     then
       if \<not> num_isinf a
       then (case (a, b) of (Fin x, Fin y) \<Rightarrow> rbind (floor_div x y) (\<lambda>q. Inr (Fin q)) | _ \<Rightarrow> Inl (ValueError ''nan''))
       else Inr (if num_nonneg a \<noteq> num_nonneg b then NInf else PInf)
     else if \<not> num_isinf a then Inr (Fin (if num_nonneg a \<noteq> num_nonneg b then -1 else 0))
     else Inr (if num_nonneg a \<noteq> num_nonneg b then NInf else PInf))"

text \<open>\<^verbatim>\<open>itertools.product(*bounds)\<close> and the products of the choices\<close>

fun product_bounds :: "(py_num \<times> py_num) list \<Rightarrow> py_num list list" where
  "product_bounds [] = [[]]"
| "product_bounds ((l, u) # bs) = map ((#) l) (product_bounds bs) @ map ((#) u) (product_bounds bs)"

definition num_prod :: "py_num list \<Rightarrow> py_num" where
  "num_prod xs = fold (\<lambda>x acc. num_mul acc x) xs (Fin 1)"

abbreviation add_geq :: "norm_rules \<Rightarrow> side \<Rightarrow> side \<Rightarrow> decision \<Rightarrow> decision res" where
  "add_geq rules s1 s2 st \<equiv> combine_and_add_constraint rules st CmpGEQ s1 s2"

abbreviation ex :: "dim_size \<Rightarrow> side" where "ex \<equiv> SizeSide"

abbreviation num :: "py_num \<Rightarrow> side" where "num \<equiv> NumSide"

text \<open>The interval of a product of powers of factors from the intervals of the factors.\<close>

definition product_interval :: "(py_num \<times> py_num) list \<Rightarrow> (py_num \<times> py_num) res" where
  "product_interval bs =
     (let candidates = map num_prod (product_bounds bs) in
      rbind (py_min_list candidates) (\<lambda>m_l. rbind (py_max_list candidates) (\<lambda>m_u. Inr (m_l, m_u))))"

definition floordiv_interval :: "py_num \<times> py_num \<Rightarrow> py_num \<times> py_num \<Rightarrow> (py_num \<times> py_num) res" where
  "floordiv_interval b1 b2 =
     (let (op1_l, op1_u) = b1; (op2_l, op2_u) = b2 in
      if num_le op2_l (Fin 0) \<and> num_le (Fin 0) op2_u then Inl InconclusiveDimensionOperation
      else
        rbind (math_floor_with_inf op1_l op2_l) (\<lambda>c1.
        rbind (math_floor_with_inf op1_l op2_u) (\<lambda>c2.
        rbind (math_floor_with_inf op1_u op2_l) (\<lambda>c3.
        rbind (math_floor_with_inf op1_u op2_u) (\<lambda>c4.
        rbind (py_min_list [c1, c2, c3, c4]) (\<lambda>m_l.
        rbind (py_max_list [c1, c2, c3, c4]) (\<lambda>m_u. Inr (m_l, m_u))))))))"

text \<open>The constraints of a factor \<open>mod(op1, op2)\<close>, \<open>max(op1, op2)\<close> or \<open>min(op1, op2)\<close> called \<open>t_e\<close>.\<close>

definition mod_constraints :: "norm_rules \<Rightarrow> nat \<Rightarrow> dim_size \<Rightarrow> dim_expr \<Rightarrow> decision \<Rightarrow> decision res" where
  "mod_constraints rules depth t_e op2 st =
     rbind (bounds rules depth st (Sym op2) FOR_GEQ0_OR_LT0) (\<lambda>((l, u), st).
     if num_less (Fin 0) l
     then
       rbind (add_geq rules (ex t_e) (num (Fin 0)) st) (\<lambda>st.
       rbind (dim_sub rules (Sym op2) (Const 1)) (\<lambda>top.
       rbind (add_geq rules (ex top) (ex t_e) st) (\<lambda>st.
       add_geq rules (num (num_add u (-1))) (ex t_e) st)))
     else if num_less u (Fin 0)
     then
       rbind (dim_add rules (Sym op2) (Const 1)) (\<lambda>bottom.
       rbind (add_geq rules (ex t_e) (ex bottom) st) (\<lambda>st.
       rbind (add_geq rules (ex t_e) (num (num_add l 1)) st) (\<lambda>st.
       add_geq rules (num (Fin 0)) (ex t_e) st)))
     else Inr st)"

definition max_constraints :: "norm_rules \<Rightarrow> nat \<Rightarrow> dim_size \<Rightarrow> dim_expr \<Rightarrow> dim_expr \<Rightarrow> decision \<Rightarrow> decision res" where
  "max_constraints rules depth t_e op1 op2 st =
     rbind (bounds rules depth st (Sym op1) BEST) (\<lambda>((l1, u1), st).
     rbind (bounds rules depth st (Sym op2) BEST) (\<lambda>((l2, u2), st).
     rbind (add_geq rules (ex t_e) (num (py_max l1 l2)) st) (\<lambda>st.
     rbind (add_geq rules (num (py_max u1 u2)) (ex t_e) st) (\<lambda>st.
     rbind (add_geq rules (ex t_e) (ex (Sym op1)) st) (\<lambda>st.
     add_geq rules (ex t_e) (ex (Sym op2)) st)))))"

definition min_constraints :: "norm_rules \<Rightarrow> nat \<Rightarrow> dim_size \<Rightarrow> dim_expr \<Rightarrow> dim_expr \<Rightarrow> decision \<Rightarrow> decision res" where
  "min_constraints rules depth t_e op1 op2 st =
     rbind (bounds rules depth st (Sym op1) BEST) (\<lambda>((l1, u1), st).
     rbind (bounds rules depth st (Sym op2) BEST) (\<lambda>((l2, u2), st).
     rbind (add_geq rules (ex t_e) (num (py_min l1 l2)) st) (\<lambda>st.
     rbind (add_geq rules (num (py_min u1 u2)) (ex t_e) st) (\<lambda>st.
     rbind (add_geq rules (ex (Sym op1)) (ex t_e) st) (\<lambda>st.
     add_geq rules (ex (Sym op2)) (ex t_e) st)))))"

text \<open>
  \<^verbatim>\<open>add_implicit_constraints_term\<close>; \<open>add_implicit_expr\<close> is its loop over the terms of an expression.
\<close>

definition add_implicit_expr :: "(dim_term \<Rightarrow> decision \<Rightarrow> decision res) \<Rightarrow> dim_expr \<Rightarrow> decision \<Rightarrow> decision res" where
  "add_implicit_expr rec e st =
     rfold (\<lambda>(t, _) st. if t = term_one then Inr st else rec t st) e st"

definition floordiv_constraints ::
  "norm_rules \<Rightarrow> nat \<Rightarrow> (dim_term \<Rightarrow> decision \<Rightarrow> decision res) \<Rightarrow> dim_size \<Rightarrow> dim_expr \<Rightarrow> dim_expr \<Rightarrow> decision \<Rightarrow> decision res" where
  "floordiv_constraints rules depth rec t_e op1 op2 st =
     rbind (bounds rules depth st (Sym op1) BEST) (\<lambda>((l1, u1), st).
     rbind (bounds rules depth st (Sym op2) BEST) (\<lambda>((l2, u2), st).
     rbind (floordiv_interval (l1, u1) (l2, u2)) (\<lambda>(m_l, m_u).
     rbind (add_geq rules (ex t_e) (num m_l) st) (\<lambda>st.
     rbind (add_geq rules (num m_u) (ex t_e) st) (\<lambda>st.
     if num_nonneg l2
     then
       rbind (if num_nonneg l1 then add_geq rules (ex t_e) (num (Fin 0)) st else Inr st) (\<lambda>st.
       rbind (from_operation rules OpMOD [Sym op1, Sym op2]) (\<lambda>mod_e.
       rbind (case mod_e of Sym me \<Rightarrow> add_implicit_expr rec me st | Const _ \<Rightarrow> Inr st) (\<lambda>st.
       rbind (dim_mul rules (Sym op2) t_e) (\<lambda>p.
       rbind (dim_add rules p mod_e) (\<lambda>combined.
       combine_and_add_constraint rules st CmpEQ (ex (Sym op1)) (ex combined))))))
     else Inr st)))))"

text \<open>The factors of a product: implicit constraints of each, then its interval raised to its power.\<close>

fun factor_intervals ::
  "norm_rules \<Rightarrow> nat \<Rightarrow> (dim_term \<Rightarrow> decision \<Rightarrow> decision res) \<Rightarrow> dim_term \<Rightarrow> decision
    \<Rightarrow> ((py_num \<times> py_num) list \<times> decision) res" where
  "factor_intervals rules depth rec [] st = Inr ([], st)"
| "factor_intervals rules depth rec ((f1, f1_exp) # fs) st =
     rbind (from_term rules [(f1, 1)] 1) (\<lambda>f1_e.
     rbind (rec [(f1, 1)] st) (\<lambda>st.
     rbind (bounds rules depth st f1_e BEST) (\<lambda>((a1_l, a1_u), st).
     rbind (rassert (num_le a1_l a1_u)) (\<lambda>_.
     rbind (factor_intervals rules depth rec fs st) (\<lambda>(bs, st).
     Inr ((num_pow a1_l (nat f1_exp), num_pow a1_u (nat f1_exp)) # bs, st))))))"

fun add_implicit_term :: "norm_rules \<Rightarrow> nat \<Rightarrow> dim_term \<Rightarrow> decision \<Rightarrow> decision res" where
  "add_implicit_term rules 0 t st = Inl RecursionError"
| "add_implicit_term rules (Suc depth) t st =
     (if t \<in> set (processed st) then Inr st
      else
        let st = st\<lparr>processed := t # processed st\<rparr>;
            rec = add_implicit_term rules depth in
        rbind (from_term rules t 1) (\<lambda>t_e.
        rbind (term_to_factor t) (\<lambda>f.
        case f of
          None \<Rightarrow>
            rbind (factor_intervals rules depth rec t st) (\<lambda>(bs, st).
            rbind (product_interval bs) (\<lambda>(m_l, m_u).
            rbind (add_geq rules (ex t_e) (num m_l) st) (\<lambda>st.
            add_geq rules (num m_u) (ex t_e) st)))
        | Some (Var v) \<Rightarrow> add_geq rules (ex t_e) (num (Fin 1)) st
        | Some (Oper oper operands) \<Rightarrow>
            rbind (rfold (add_implicit_expr rec) operands st) (\<lambda>st.
            case operands of
              [op1, op2] \<Rightarrow>
                (case oper of
                   OpMOD \<Rightarrow> mod_constraints rules depth t_e op2 st
                 | OpFLOORDIV \<Rightarrow> floordiv_constraints rules depth rec t_e op1 op2 st
                 | OpMAX \<Rightarrow> max_constraints rules depth t_e op1 op2 st
                 | OpMIN \<Rightarrow> min_constraints rules depth t_e op1 op2 st)
            | _ \<Rightarrow> Inl (ValueError ''unpack'')))))"

end
