(* ===== verification/DimCompare.thy ===== *)
theory DimCompare
  imports DimDecision
begin

text \<open>
  The users of the decision procedure: \<^verbatim>\<open>bounds_decision\<close>, the comparison operators, \<^verbatim>\<open>max\<close> and
  \<^verbatim>\<open>min\<close> of dimension expressions, and the constraints of a \<^verbatim>\<open>SymbolicScope\<close>.
\<close>

text \<open>\<^verbatim>\<open>_DecisionByElimination.initialize\<close>: the explicit constraints, in the order of the user.\<close>

definition initialize :: "nat \<Rightarrow> symbolic_scope \<Rightarrow> decision res" where
  "initialize depth sc =
     rfold (\<lambda>(cmp, diff) st.
       rbind (case diff of
                Sym e \<Rightarrow> add_implicit_expr (add_implicit_term (normalization_rules sc) depth) e st
              | Const _ \<Rightarrow> Inr st) (\<lambda>st.
       rbind (combine_and_add_constraint (normalization_rules sc) st cmp (ex diff) (num (Fin 0))) (\<lambda>st.
       Inr (st\<lparr>bounds_cache := []\<rparr>))))
       (explicit_constraints sc) empty_decision"

type_synonym cache = "(dim_expr \<times> py_num \<times> py_num \<times> bounds_precision) list"

text \<open>
  \<^verbatim>\<open>bounds_decision\<close>. Every call works on a copy of the initial state (\<^verbatim>\<open>build\<close>); only the cache
  of the scope outlives it, so it is passed on.
\<close>

definition bounds_decision ::
  "nat \<Rightarrow> symbolic_scope \<Rightarrow> cache \<Rightarrow> dim_size \<Rightarrow> bounds_precision \<Rightarrow> ((py_num \<times> py_num) \<times> cache) res" where
  "bounds_decision depth sc cache d prec =
     (case d of
        Const k \<Rightarrow> Inr ((Fin k, Fin k), cache)
      | Sym e \<Rightarrow>
          rbind (initialize depth sc) (\<lambda>st.
          let st = st\<lparr>bounds_cache := cache\<rparr>; rules = normalization_rules sc;
              compute =
                rbind (add_implicit_expr (add_implicit_term rules depth) e st) (\<lambda>st.
                rbind (bounds_for_sorted_terms rules st depth prec e) (\<lambda>(lb, ub).
                Inr ((lb, ub), dict_set (bounds_cache st) e (lb, ub, prec)))) in
          case to_constant d of
            Some k \<Rightarrow> Inr ((Fin k, Fin k), cache)
          | None \<Rightarrow>
              (case map_of cache e of
                 Some (lb, ub, prev_prec) \<Rightarrow>
                   if bounds_are_sufficient prec lb ub \<or> precision_value prev_prec \<ge> precision_value prec
                   then Inr ((lb, ub), cache)
                   else compute
               | None \<Rightarrow> compute)))"

text \<open>\<^verbatim>\<open>_geq_decision\<close>\<close>

definition geq_decision :: "nat \<Rightarrow> symbolic_scope \<Rightarrow> cache \<Rightarrow> dim_size \<Rightarrow> dim_size \<Rightarrow> (bool \<times> cache) res" where
  "geq_decision depth sc cache e1 e2 =
     (case (e1, e2) of
        (Const a, Const b) \<Rightarrow> Inr (a \<ge> b, cache)
      | _ \<Rightarrow>
          rbind (dim_sub (normalization_rules sc) e1 e2) (\<lambda>d.
          rbind (bounds_decision depth sc cache d FOR_GEQ0_OR_LT0) (\<lambda>((lb, ub), cache).
          if num_le (Fin 0) lb then Inr (True, cache)
          else if num_less ub (Fin 0) then Inr (False, cache)
          else Inl InconclusiveDimensionOperation)))"

text \<open>\<^verbatim>\<open>__ge__\<close>, \<^verbatim>\<open>__le__\<close>, \<^verbatim>\<open>__gt__\<close> and \<^verbatim>\<open>__lt__\<close>\<close>

definition dim_ge :: "nat \<Rightarrow> symbolic_scope \<Rightarrow> cache \<Rightarrow> dim_size \<Rightarrow> dim_size \<Rightarrow> (bool \<times> cache) res" where
  "dim_ge depth sc cache a b = geq_decision depth sc cache a b"

definition dim_le :: "nat \<Rightarrow> symbolic_scope \<Rightarrow> cache \<Rightarrow> dim_size \<Rightarrow> dim_size \<Rightarrow> (bool \<times> cache) res" where
  "dim_le depth sc cache a b = geq_decision depth sc cache b a"

definition dim_gt :: "nat \<Rightarrow> symbolic_scope \<Rightarrow> cache \<Rightarrow> dim_size \<Rightarrow> dim_size \<Rightarrow> (bool \<times> cache) res" where
  "dim_gt depth sc cache a b = rbind (geq_decision depth sc cache b a) (\<lambda>(r, cache). Inr (\<not> r, cache))"

definition dim_lt :: "nat \<Rightarrow> symbolic_scope \<Rightarrow> cache \<Rightarrow> dim_size \<Rightarrow> dim_size \<Rightarrow> (bool \<times> cache) res" where
  "dim_lt depth sc cache a b = rbind (geq_decision depth sc cache a b) (\<lambda>(r, cache). Inr (\<not> r, cache))"

text \<open>\<^verbatim>\<open>max\<close>, \<^verbatim>\<open>rmax\<close>, \<^verbatim>\<open>min\<close> and \<^verbatim>\<open>rmin\<close> of an expression and a size\<close>

definition dim_extremum ::
  "dim_op \<Rightarrow> bool \<Rightarrow> nat \<Rightarrow> symbolic_scope \<Rightarrow> cache \<Rightarrow> dim_expr \<Rightarrow> dim_size \<Rightarrow> (dim_size \<times> cache) res" where
  "dim_extremum oper reflected depth sc cache self other =
     rbind (dim_sub (normalization_rules sc) (Sym self) other) (\<lambda>d.
     rbind (bounds_decision depth sc cache d FOR_GEQ0_OR_LEQ0) (\<lambda>((lb, ub), cache).
     if num_le (Fin 0) lb then Inr (if oper = OpMAX then Sym self else other, cache)
     else if num_le ub (Fin 0) then Inr (if oper = OpMAX then other else Sym self, cache)
     else
       rbind (from_operation (normalization_rules sc) oper
                (if reflected then [other, Sym self] else [Sym self, other])) (\<lambda>r. Inr (r, cache))))"

definition dim_max :: "nat \<Rightarrow> symbolic_scope \<Rightarrow> cache \<Rightarrow> dim_expr \<Rightarrow> dim_size \<Rightarrow> (dim_size \<times> cache) res" where
  "dim_max = dim_extremum OpMAX False"

definition dim_rmax :: "nat \<Rightarrow> symbolic_scope \<Rightarrow> cache \<Rightarrow> dim_expr \<Rightarrow> dim_size \<Rightarrow> (dim_size \<times> cache) res" where
  "dim_rmax = dim_extremum OpMAX True"

definition dim_min :: "nat \<Rightarrow> symbolic_scope \<Rightarrow> cache \<Rightarrow> dim_expr \<Rightarrow> dim_size \<Rightarrow> (dim_size \<times> cache) res" where
  "dim_min = dim_extremum OpMIN False"

definition dim_rmin :: "nat \<Rightarrow> symbolic_scope \<Rightarrow> cache \<Rightarrow> dim_expr \<Rightarrow> dim_size \<Rightarrow> (dim_size \<times> cache) res" where
  "dim_rmin = dim_extremum OpMIN True"

subsection \<open>The constraints of a scope\<close>

text \<open>The new normalization rule of an equality constraint \<open>e1 == e2\<close>.\<close>

definition add_rule :: "symbolic_scope \<Rightarrow> dim_size \<Rightarrow> dim_size \<Rightarrow> (dim_term \<times> int \<times> symbolic_scope) res" where
  "add_rule sc e1 e2 =
     (case e1 of
        Sym [(before, before_k)] \<Rightarrow>
          if map_of (normalization_rules sc) before \<noteq> None then Inl NotImplementedError
          else Inr (before, before_k,
                 sc\<lparr>normalization_rules := normalization_rules sc @ [(before, ensure_poly e2, before_k)]\<rparr>)
      | _ \<Rightarrow> Inl (ValueError ''invalid equality constraint''))"

definition process_simple_constraint ::
  "(dim_term \<Rightarrow> int \<Rightarrow> symbolic_scope \<Rightarrow> symbolic_scope res) \<Rightarrow> symbolic_scope \<Rightarrow> comparator \<Rightarrow> dim_size \<Rightarrow> dim_size \<Rightarrow> dim_size
    \<Rightarrow> symbolic_scope res" where
  "process_simple_constraint after_rule sc cmp e1 e2 diff =
     (case to_constant diff of
        Some k \<Rightarrow>
          if (cmp = CmpEQ \<and> k \<noteq> 0) \<or> (cmp = CmpGEQ \<and> k < 0) then Inl (ValueError ''unsatisfiable'') else Inr sc
      | None \<Rightarrow>
          rbind (if cmp = CmpEQ
                 then rbind (add_rule sc e1 e2) (\<lambda>(before, before_k, sc). after_rule before before_k sc)
                 else Inr sc) (\<lambda>sc.
          Inr (sc\<lparr>explicit_constraints := explicit_constraints sc @ [(cmp, diff)]\<rparr>)))"

text \<open>
  \<^verbatim>\<open>_process_explicit_constraint\<close>: an equality \<open>mod(e, k) == 0\<close> also adds \<open>k * floordiv(e, k) == e\<close>;
  that second constraint is not of the form \<open>\<dots> == 0\<close>, so the recursion stops there.
\<close>

definition process_explicit_constraint ::
  "symbolic_scope \<Rightarrow> comparator \<Rightarrow> dim_size \<Rightarrow> dim_size \<Rightarrow> dim_size \<Rightarrow> symbolic_scope res" where
  "process_explicit_constraint sc cmp e1 e2 diff =
     process_simple_constraint (\<lambda>before before_k sc.
       if before_k = 1 \<and> e2 = Const 0
       then
         rbind (term_to_factor before) (\<lambda>f.
         case f of
           Some (Oper OpMOD [op1, op2]) \<Rightarrow>
             (case to_constant (Sym op2) of
                Some k2 \<Rightarrow>
                  rbind (from_term (normalization_rules sc) [(Oper OpFLOORDIV [op1, op2], 1)] k2) (\<lambda>kf.
                  rbind (dim_sub (normalization_rules sc) kf (Sym op1)) (\<lambda>d.
                  process_simple_constraint (\<lambda>_ _ sc. Inr sc) sc CmpEQ kf (Sym op1) d))
              | None \<Rightarrow> Inr sc)
         | _ \<Rightarrow> Inr sc)
       else Inr sc) sc cmp e1 e2 diff"

end
