(* ===== verification/DimBounds.thy ===== *)
theory DimBounds
  imports DimCompare
begin

text \<open>
  Soundness of the decision procedure on dimension expressions. The locale \<open>dim_semantics\<close>
  states what a valuation of factors has to satisfy to be one of dimensions: variables are
  positive, the operations have their meaning, the rules of the scope hold. Inside it every
  step of the procedure is shown to keep the constraints of its state true, and every bound
  it returns to be a bound.
\<close>

subsection \<open>Intervals\<close>

definition within :: "py_num \<Rightarrow> int \<Rightarrow> py_num \<Rightarrow> bool" where
  "within lb x ub \<longleftrightarrow> num_le lb (Fin x) \<and> num_le (Fin x) ub"

lemma num_le_simps [simp]:
  "num_le (Fin a) (Fin b) \<longleftrightarrow> a \<le> b"
  "num_le NInf (Fin a)" "num_le (Fin a) PInf"
  "\<not> num_le PInf (Fin a)" "\<not> num_le (Fin a) NInf"
  "\<not> num_le NaN x" "\<not> num_le x NaN"
  by (auto simp: num_le_def)

lemma num_le_trans: "num_le a b \<Longrightarrow> num_le b c \<Longrightarrow> num_le a c"
  by (cases a; cases b; cases c) (auto simp: num_le_def)

lemma num_le_Fin_cases:
  "num_le lb (Fin x) \<longleftrightarrow> lb = NInf \<or> (\<exists>k. lb = Fin k \<and> k \<le> x)"
  "num_le (Fin x) ub \<longleftrightarrow> ub = PInf \<or> (\<exists>k. ub = Fin k \<and> x \<le> k)"
  by (cases lb; simp) (cases ub; simp)

lemma within_lower: "within lb x ub \<Longrightarrow> num_le k (Fin x) \<Longrightarrow> within (py_max lb k) x ub"
  by (simp add: within_def py_max_def)

lemma within_upper: "within lb x ub \<Longrightarrow> num_le (Fin x) k \<Longrightarrow> within lb x (py_min ub k)"
  by (simp add: within_def py_min_def)

lemma within_full [simp]: "within NInf x PInf" "within (Fin x) x (Fin x)"
  by (simp_all add: within_def)

lemma within_max:
  assumes "within l1 x u1" "within l2 y u2"
  shows "within (py_max l1 l2) (max x y) (py_max u1 u2)"
  using assms unfolding within_def num_le_Fin_cases py_max_def by auto

lemma within_min:
  assumes "within l1 x u1" "within l2 y u2"
  shows "within (py_min l1 l2) (min x y) (py_min u1 u2)"
  using assms unfolding within_def num_le_Fin_cases py_min_def by auto

lemma floor_quot_upper:
  assumes "floor_quot r t = Inr k" "num_le (Fin (x * t)) r" "t > 0"
  shows "x \<le> k"
proof -
  from assms obtain a where "r = Fin a" "k = a div t" "x * t \<le> a" by (cases r) (auto simp: floor_div_def ceil_div_def split: if_splits)
  with assms(3) show ?thesis by (simp add: zdiv_mono1 [of "x * t" a t, simplified])
qed

lemma ceil_quot_lower:
  assumes "ceil_quot r t = Inr k" "num_le r (Fin (x * t))" "t > 0"
  shows "k \<le> x"
proof -
  from assms obtain a where a: "r = Fin a" "k = - ((- a) div t)" "a \<le> x * t" by (cases r) (auto simp: floor_div_def ceil_div_def split: if_splits)
  have "(- x) * t div t \<le> (- a) div t" using a(3) assms(3) by (intro zdiv_mono1) auto
  moreover have "(- x) * t div t = - x" using assms(3) by (intro nonzero_mult_div_cancel_right) simp
  ultimately have "- x \<le> (- a) div t" by simp
  with a show ?thesis by simp
qed

lemma ceil_quot_lower_neg:
  assumes "ceil_quot r t = Inr k" "num_le (Fin (x * t)) r" "t < 0"
  shows "k \<le> x"
proof -
  from assms obtain a where a: "r = Fin a" "k = - ((- a) div t)" "x * t \<le> a" by (cases r) (auto simp: floor_div_def ceil_div_def split: if_splits)
  have "(- x) * t div t \<le> (- a) div t" using a(3) assms(3) by (intro zdiv_mono1_neg) auto
  moreover have "(- x) * t div t = - x" using assms(3) by (intro nonzero_mult_div_cancel_right) simp
  ultimately have "- x \<le> (- a) div t" by simp
  with a show ?thesis by simp
qed

lemma floor_quot_upper_neg:
  assumes "floor_quot r t = Inr k" "num_le r (Fin (x * t))" "t < 0"
  shows "x \<le> k"
proof -
  from assms obtain a where a: "r = Fin a" "k = a div t" "a \<le> x * t" by (cases r) (auto simp: floor_div_def ceil_div_def split: if_splits)
  have "x * t div t \<le> a div t" using a(3) assms(3) by (intro zdiv_mono1_neg) auto
  with a assms(3) show ?thesis by simp
qed

definition holds :: "comparator \<Rightarrow> int \<Rightarrow> bool" where
  "holds cmp v \<longleftrightarrow> (case cmp of CmpEQ \<Rightarrow> v = 0 | CmpGEQ \<Rightarrow> v \<ge> 0)"

lemma holds_simps [simp]: "holds CmpEQ v \<longleftrightarrow> v = 0" "holds CmpGEQ v \<longleftrightarrow> v \<ge> 0"
  by (simp_all add: holds_def)

lemma refine_bounds_within:
  assumes "refine_bounds c_eq t_s (rest_lb, rest_ub) (lb, ub) = Inr (lb', ub')"
    and "within rest_lb (x * t_s + c * c_s) rest_ub" "holds c_eq c" "c_s \<ge> 0" "within lb x ub"
  shows "within lb' x ub'"
proof -
  have c: "c * c_s \<ge> 0" using assms(3,4) by (cases c_eq) auto
  have up: "num_le (Fin (x * t_s)) rest_ub"
    using assms(2) c unfolding within_def num_le_Fin_cases by auto
  have low: "c_eq = CmpEQ \<Longrightarrow> num_le rest_lb (Fin (x * t_s))"
    using assms(2,3) unfolding within_def num_le_Fin_cases by auto
  have nz: "floor_quot r t_s = Inr k \<Longrightarrow> t_s \<noteq> 0" "ceil_quot r t_s = Inr k \<Longrightarrow> t_s \<noteq> 0" for r k
    by (cases r; auto)+
  obtain lb1 ub1 where one: "(if num_less rest_ub PInf
      then if t_s > 0 then rbind (floor_quot rest_ub t_s) (\<lambda>k. Inr (lb, py_min ub (Fin k)))
           else rbind (ceil_quot rest_ub t_s) (\<lambda>k. Inr (py_max lb (Fin k), ub))
      else Inr (lb, ub)) = Inr (lb1, ub1)"
    and two: "(if num_less NInf rest_lb \<and> c_eq = CmpEQ
      then if t_s > 0 then rbind (ceil_quot rest_lb t_s) (\<lambda>k. Inr (py_max lb1 (Fin k), ub1))
           else rbind (floor_quot rest_lb t_s) (\<lambda>k. Inr (lb1, py_min ub1 (Fin k)))
      else Inr (lb1, ub1)) = Inr (lb', ub')"
    using assms(1) unfolding refine_bounds_def Let_def prod.case rbind_eq_Inr by fastforce
  have "within lb1 x ub1"
  proof (cases "num_less rest_ub PInf")
    case False
    then show ?thesis using one assms(5) by simp
  next
    case True
    show ?thesis
    proof (cases "t_s > 0")
      case t: True
      with one True obtain k where k: "floor_quot rest_ub t_s = Inr k" "lb1 = lb" "ub1 = py_min ub (Fin k)"
        by (auto simp: res_simps)
      have "x \<le> k" by (rule floor_quot_upper [OF k(1) up t])
      then show ?thesis using assms(5) unfolding k by (auto intro: within_upper)
    next
      case t: False
      with one True obtain k where k: "ceil_quot rest_ub t_s = Inr k" "lb1 = py_max lb (Fin k)" "ub1 = ub"
        by (auto simp: res_simps)
      have "t_s < 0" using t nz(2) [OF k(1)] by simp
      have "k \<le> x" by (rule ceil_quot_lower_neg [OF k(1) up \<open>t_s < 0\<close>])
      then show ?thesis using assms(5) unfolding k by (auto intro: within_lower)
    qed
  qed
  show ?thesis
  proof (cases "num_less NInf rest_lb \<and> c_eq = CmpEQ")
    case False
    then show ?thesis using two \<open>within lb1 x ub1\<close> by (auto split: if_splits)
  next
    case True
    note low = low [OF True [THEN conjunct2]]
    show ?thesis
    proof (cases "t_s > 0")
      case t: True
      with two True obtain k where k: "ceil_quot rest_lb t_s = Inr k" "lb' = py_max lb1 (Fin k)" "ub' = ub1"
        by (auto simp: res_simps)
      have "k \<le> x" by (rule ceil_quot_lower [OF k(1) low t])
      then show ?thesis using \<open>within lb1 x ub1\<close> unfolding k by (auto intro: within_lower)
    next
      case t: False
      with two True obtain k where k: "floor_quot rest_lb t_s = Inr k" "lb' = lb1" "ub' = py_min ub1 (Fin k)"
        by (auto simp: res_simps)
      have "t_s < 0" using t nz(1) [OF k(1)] by simp
      have "x \<le> k" by (rule floor_quot_upper_neg [OF k(1) low \<open>t_s < 0\<close>])
      then show ?thesis using \<open>within lb1 x ub1\<close> unfolding k by (auto intro: within_upper)
    qed
  qed
qed

subsection \<open>Intervals of products and quotients\<close>

text \<open>The extended integers without \<open>nan\<close>, between which intervals stretch.\<close>

lemma num_mul_nan: "num_mul a b \<noteq> NaN \<Longrightarrow> a \<noteq> NaN \<and> b \<noteq> NaN"
  by (cases a; cases b) auto

lemma fold_min_le:
  assumes "a \<noteq> NaN"
  shows "\<forall>x \<in> set (a # xs). x \<noteq> NaN \<longrightarrow> num_le (fold (\<lambda>y m. py_min m y) xs a) x"
  using assms
proof (induction xs arbitrary: a)
  case (Cons y xs)
  have m: "py_min a y \<noteq> NaN" "num_le (py_min a y) a" "y \<noteq> NaN \<Longrightarrow> num_le (py_min a y) y"
    using Cons.prems by (cases a; cases y; auto simp: py_min_def num_le_def)+
  let ?r = "fold (\<lambda>y m. py_min m y) xs (py_min a y)"
  have r: "num_le ?r (py_min a y)" "\<forall>x \<in> set xs. x \<noteq> NaN \<longrightarrow> num_le ?r x" using Cons.IH [OF m(1)] m(1) by auto
  from num_le_trans [OF r(1) m(2)] num_le_trans [OF r(1) m(3)] r(2) show ?case by simp
qed (auto simp: num_le_def)

lemma fold_max_ge:
  assumes "a \<noteq> NaN"
  shows "\<forall>x \<in> set (a # xs). x \<noteq> NaN \<longrightarrow> num_le x (fold (\<lambda>y m. py_max m y) xs a)"
  using assms
proof (induction xs arbitrary: a)
  case (Cons y xs)
  have m: "py_max a y \<noteq> NaN" "num_le a (py_max a y)" "y \<noteq> NaN \<Longrightarrow> num_le y (py_max a y)"
    using Cons.prems by (cases a; cases y; auto simp: py_max_def num_le_def)+
  let ?r = "fold (\<lambda>y m. py_max m y) xs (py_max a y)"
  have r: "num_le (py_max a y) ?r" "\<forall>x \<in> set xs. x \<noteq> NaN \<longrightarrow> num_le x ?r" using Cons.IH [OF m(1)] m(1) by auto
  from num_le_trans [OF m(2) r(1)] num_le_trans [OF m(3) r(1)] r(2) show ?case by simp
qed (auto simp: num_le_def)

lemma fold_nan: "fold (\<lambda>y m. py_min m y) xs NaN = NaN" "fold (\<lambda>y m. py_max m y) xs NaN = NaN"
  by (induction xs) (simp_all add: py_min_def py_max_def)

end
