(* ===== verification/DimIntervals.thy ===== *)
theory DimIntervals
  imports DimBounds
begin

text \<open>
  The interval arithmetic of the decision procedure: the bounds of a product of powers and of
  a floor division lie among the corners. A product \<open>0 * inf\<close> is \<open>nan\<close> in floating point; the
  lemmas show that the bounds are right whenever the procedure gets past its assertion.
\<close>

subsection \<open>Products that read \<open>0 * inf\<close> as zero\<close>

fun mul0 :: "py_num \<Rightarrow> py_num \<Rightarrow> py_num" where
  "mul0 a b = (if num_mul a b = NaN then Fin 0 else num_mul a b)"

declare mul0.simps [simp del]

definition prod0 :: "py_num list \<Rightarrow> py_num" where
  "prod0 xs = foldr mul0 xs (Fin 1)"

lemma num_mul_commute: "num_mul a b = num_mul b a"
  by (cases a; cases b) auto

lemma num_mul_assoc: "num_mul (num_mul a b) c = num_mul a (num_mul b c)"
  by (cases a; cases b; cases c) (auto simp: zero_less_mult_iff mult_less_0_iff)

lemma num_mul_one [simp]: "num_mul (Fin 1) a = a"
  by (cases a) auto

lemma num_prod_Cons: "num_prod (x # xs) = num_mul x (num_prod xs)"
proof -
  have "fold (\<lambda>x acc. num_mul acc x) xs (num_mul a b) = num_mul a (fold (\<lambda>x acc. num_mul acc x) xs b)" for a b
    by (induction xs arbitrary: b) (simp_all add: num_mul_assoc)
  from this [of x "Fin 1"] show ?thesis by (simp add: num_prod_def num_mul_commute)
qed

lemma num_prod_Nil [simp]: "num_prod [] = Fin 1"
  by (simp add: num_prod_def)

lemma mul0_not_nan: "a \<noteq> NaN \<Longrightarrow> b \<noteq> NaN \<Longrightarrow> mul0 a b \<noteq> NaN"
  by (simp add: mul0.simps)

lemma mul0_commute: "mul0 a b = mul0 b a"
  by (simp add: mul0.simps num_mul_commute)

lemma mul0_mono:
  assumes "num_le a b" "num_le (Fin 0) c"
  shows "num_le (mul0 a c) (mul0 b c)"
  using assms by (cases a; cases b; cases c) (auto simp: mul0.simps num_le_def mult_right_mono mult_less_0_iff)

lemma mul0_antimono:
  assumes "num_le a b" "num_le c (Fin 0)"
  shows "num_le (mul0 b c) (mul0 a c)"
  using assms by (cases a; cases b; cases c) (auto simp: mul0.simps num_le_def mult_right_mono_neg mult_less_0_iff)

lemma num_le_total: "a \<noteq> NaN \<Longrightarrow> b \<noteq> NaN \<Longrightarrow> num_le a b \<or> num_le b a"
  by (cases a; cases b) (auto simp: num_le_def)

lemma num_le_not_nan: "num_le a b \<Longrightarrow> a \<noteq> NaN \<and> b \<noteq> NaN"
  by auto

lemma corner_below:
  assumes "num_le l x" "num_le x u" "num_le l' y" "num_le y u'"
  shows "\<exists>a \<in> {l, u}. \<exists>b \<in> {l', u'}. num_le (mul0 a b) (mul0 x y)"
proof -
  have n: "y \<noteq> NaN" "l \<noteq> NaN" "u \<noteq> NaN" using assms by auto
  have "\<exists>a \<in> {l, u}. num_le (mul0 a y) (mul0 x y)"
    using num_le_total [OF n(1), of "Fin 0"] mul0_mono [OF assms(1), of y] mul0_antimono [OF assms(2), of y] by auto
  then obtain a where a: "a \<in> {l, u}" "num_le (mul0 a y) (mul0 x y)" by blast
  then have "a \<noteq> NaN" using n by auto
  then have "\<exists>b \<in> {l', u'}. num_le (mul0 b a) (mul0 y a)"
    using num_le_total [of a "Fin 0"] mul0_mono [OF assms(3), of a] mul0_antimono [OF assms(4), of a] by auto
  with a num_le_trans show ?thesis unfolding mul0_commute [of _ a] by blast
qed

lemma corner_above:
  assumes "num_le l x" "num_le x u" "num_le l' y" "num_le y u'"
  shows "\<exists>a \<in> {l, u}. \<exists>b \<in> {l', u'}. num_le (mul0 x y) (mul0 a b)"
proof -
  have n: "y \<noteq> NaN" "l \<noteq> NaN" "u \<noteq> NaN" using assms by auto
  have "\<exists>a \<in> {l, u}. num_le (mul0 x y) (mul0 a y)"
    using num_le_total [OF n(1), of "Fin 0"] mul0_mono [OF assms(2), of y] mul0_antimono [OF assms(1), of y] by auto
  then obtain a where a: "a \<in> {l, u}" "num_le (mul0 x y) (mul0 a y)" by blast
  then have "a \<noteq> NaN" using n by auto
  then have "\<exists>b \<in> {l', u'}. num_le (mul0 y a) (mul0 b a)"
    using num_le_total [of a "Fin 0"] mul0_mono [OF assms(4), of a] mul0_antimono [OF assms(3), of a] by auto
  with a num_le_trans show ?thesis unfolding mul0_commute [of _ a] by blast
qed

lemma prod0_Fin: "prod0 (map Fin xs) = Fin (prod_list xs)"
  by (induction xs) (auto simp: prod0_def mul0.simps)

lemma prod0_corners:
  assumes "list_all2 (\<lambda>b x. within (fst b) x (snd b)) bs xs"
  shows "(\<exists>c \<in> set (product_bounds bs). num_le (prod0 c) (Fin (prod_list xs))) \<and>
    (\<exists>c \<in> set (product_bounds bs). num_le (Fin (prod_list xs)) (prod0 c))"
  using assms
proof (induction bs xs rule: list_all2_induct)
  case Nil
  show ?case by (simp add: prod0_def)
next
  case (Cons b bs x xs)
  obtain l u where b: "b = (l, u)" by (cases b)
  have x: "num_le l (Fin x)" "num_le (Fin x) u" using Cons.hyps b by (simp_all add: within_def)
  obtain c1 c2 where c: "c1 \<in> set (product_bounds bs)" "num_le (prod0 c1) (Fin (prod_list xs))"
    "c2 \<in> set (product_bounds bs)" "num_le (Fin (prod_list xs)) (prod0 c2)" using Cons.IH by blast
  have p: "mul0 (Fin x) (Fin (prod_list xs)) = Fin (prod_list (x # xs))" by (simp add: mul0.simps)
  have m: "mul0 a (prod0 c) = prod0 (a # c)" for a c by (simp add: prod0_def)
  have mem: "a # d \<in> set (product_bounds (b # bs))" if "a \<in> {l, u}" "d \<in> set (product_bounds bs)" for a d
    using that b by auto
  show ?case
    using corner_below [OF x c(2,4)] corner_above [OF x c(2,4)] mem c(1,3) unfolding p
    by (metis m insertE singletonD)
qed

subsection \<open>Corners that are \<open>nan\<close>\<close>

lemma num_prod_prod0:
  assumes "NaN \<notin> set cs"
  shows "prod0 cs = (if num_prod cs = NaN then Fin 0 else num_prod cs)"
  using assms
proof (induction cs)
  case (Cons c cs)
  then have "prod0 (c # cs) = mul0 c (if num_prod cs = NaN then Fin 0 else num_prod cs)" "c \<noteq> NaN"
    by (auto simp: prod0_def)
  then show ?case by (cases c) (auto simp: num_prod_Cons mul0.simps)
qed (simp add: prod0_def)

lemma num_prod_nonzero:
  "NaN \<notin> set cs \<Longrightarrow> Fin 0 \<notin> set cs \<Longrightarrow> num_prod cs \<noteq> NaN \<and> num_prod cs \<noteq> Fin 0"
proof (induction cs)
  case (Cons c cs)
  then show ?case by (cases c; cases "num_prod cs") (auto simp: num_prod_Cons)
qed simp

lemma num_prod_zero: "Fin 0 \<in> set cs \<Longrightarrow> num_prod cs \<in> {Fin 0, NaN}"
proof (induction cs)
  case (Cons c cs)
  then show ?case by (cases c; cases "num_prod cs") (auto simp: num_prod_Cons)
qed simp

lemma num_prod_finite: "\<forall>c \<in> set cs. \<exists>k. c = Fin k \<Longrightarrow> \<exists>k. num_prod cs = Fin k"
  by (induction cs) (auto simp: num_prod_Cons)

lemma num_prod_infinite:
  "c \<in> set cs \<Longrightarrow> \<forall>k. c \<noteq> Fin k \<Longrightarrow> Fin 0 \<in> set cs \<Longrightarrow> num_prod cs = NaN"
proof (induction cs)
  case (Cons d cs)
  show ?case
  proof (cases "c \<in> set cs \<and> Fin 0 \<in> set cs")
    case True
    then show ?thesis using Cons by (simp add: num_prod_Cons num_mul_commute [of d])
  next
    case False
    then consider "d = c" "Fin 0 \<in> set cs" | "d = Fin 0" "c \<in> set cs" using Cons.prems by auto
    then show ?thesis
    proof cases
      case 1
      then show ?thesis using num_prod_zero [of cs] Cons.prems by (cases c) (auto simp: num_prod_Cons)
    next
      case 2
      have "\<forall>k. num_prod cs \<noteq> Fin k"
        using 2 Cons.prems(2)
      proof (induction cs)
        case (Cons e es)
        then show ?case
          using False by (cases e; cases "num_prod es"; cases c) (auto simp: num_prod_Cons split: if_splits)
      qed simp
      then show ?thesis using 2 by (cases "num_prod cs") (auto simp: num_prod_Cons)
    qed
  qed
qed simp

lemma product_bounds_iff:
  "c \<in> set (product_bounds bs) \<longleftrightarrow> list_all2 (\<lambda>b x. x = fst b \<or> x = snd b) bs c"
proof (induction bs arbitrary: c)
  case (Cons b bs)
  then show ?case by (cases b; cases c) auto
qed auto

lemma hd_product_bounds: "\<exists>cs. product_bounds bs = map fst bs # cs"
proof (induction bs)
  case (Cons b bs)
  then show ?case by (cases b) auto
qed simp

lemma num_prod_at: "num_prod (xs @ a # ys) = num_mul a (num_prod (xs @ ys))"
proof (induction xs)
  case (Cons x xs)
  have "num_mul x (num_mul a r) = num_mul a (num_mul x r)" for r
    using num_mul_assoc [of x a r] num_mul_assoc [of a x r] num_mul_commute [of x a] by simp
  then show ?case using Cons by (simp add: num_prod_Cons)
qed (simp add: num_prod_Cons)

lemma corner_not_nan:
  assumes ends: "\<forall>b \<in> set bs. fst b \<in> {NInf} \<union> range Fin \<and> snd b \<in> {PInf} \<union> range Fin"
    and "c \<in> set (product_bounds bs)"
  shows "NaN \<notin> set c"
proof
  assume "NaN \<in> set c"
  then obtain i where "i < length c" "c ! i = NaN" by (auto simp: in_set_conv_nth)
  moreover from this assms(2) have "i < length bs" "NaN = fst (bs ! i) \<or> NaN = snd (bs ! i)"
    unfolding product_bounds_iff by (auto simp: list_all2_conv_all_nth)
  ultimately show False using ends nth_mem [of i bs] by fastforce
qed

text \<open>When a corner is \<open>nan\<close> but the first is not, corners of both signs remain.\<close>

lemma nan_corner:
  assumes ends: "\<forall>b \<in> set bs. fst b \<in> {NInf} \<union> range Fin \<and> snd b \<in> {PInf} \<union> range Fin"
    and first: "num_prod (map fst bs) \<noteq> NaN"
    and c: "c \<in> set (product_bounds bs)" "num_prod c = NaN"
  shows "(\<exists>d \<in> set (product_bounds bs). num_prod d \<noteq> NaN \<and> num_le (num_prod d) (Fin 0)) \<and>
    (\<exists>d \<in> set (product_bounds bs). num_prod d \<noteq> NaN \<and> num_le (Fin 0) (num_prod d))"
proof (cases "(NInf, PInf) \<in> set bs")
  case True
  then obtain as es where bs: "bs = as @ (NInf, PInf) # es" by (meson split_list)
  let ?R = "num_prod (map fst as @ map fst es)"
  have f: "num_mul NInf ?R \<noteq> NaN" using first bs by (simp add: num_prod_at)
  have "list_all2 (\<lambda>b x. x = fst b \<or> x = snd b) zs (map fst zs)" for zs :: "(py_num \<times> py_num) list"
    by (induction zs) auto
  then have m: "map fst as @ NInf # map fst es \<in> set (product_bounds bs)"
    "map fst as @ PInf # map fst es \<in> set (product_bounds bs)"
    unfolding product_bounds_iff bs by (auto intro!: list_all2_appendI)
  have "num_mul NInf ?R = PInf \<and> num_mul PInf ?R = NInf \<or> num_mul NInf ?R = NInf \<and> num_mul PInf ?R = PInf"
    using f by (cases ?R) (auto split: if_splits)
  then have "num_prod (map fst as @ NInf # map fst es) = PInf \<and> num_prod (map fst as @ PInf # map fst es) = NInf \<or>
      num_prod (map fst as @ NInf # map fst es) = NInf \<and> num_prod (map fst as @ PInf # map fst es) = PInf"
    unfolding num_prod_at .
  then show ?thesis
  proof
    assume "num_prod (map fst as @ NInf # map fst es) = PInf \<and> num_prod (map fst as @ PInf # map fst es) = NInf"
    then show ?thesis using m by (intro conjI bexI [OF _ m(1)] bexI [OF _ m(2)]) simp_all
  next
    assume "num_prod (map fst as @ NInf # map fst es) = NInf \<and> num_prod (map fst as @ PInf # map fst es) = PInf"
    then show ?thesis using m by (intro conjI bexI [OF _ m(1)] bexI [OF _ m(2)]) simp_all
  qed
next
  case False
  have nn: "NaN \<notin> set c" by (rule corner_not_nan [OF ends c(1)])
  then have "Fin 0 \<in> set c" using c(2) num_prod_nonzero by blast
  then obtain i where "i < length c" "c ! i = Fin 0" unfolding in_set_conv_nth by blast
  moreover have len: "length c = length bs" using list_all2_lengthD [OF c(1) [unfolded product_bounds_iff]] by simp
  ultimately have i: "i < length bs" "c ! i = Fin 0" "length c = length bs" by simp_all
  define fin where "fin b = (case fst b of Fin k \<Rightarrow> fst b | _ \<Rightarrow> snd b)" for b :: "py_num \<times> py_num"
  define d where "d = (map fin bs)[i := Fin 0]"
  have "fin b = fst b \<or> fin b = snd b" for b by (cases "fst b") (auto simp: fin_def)
  moreover have "Fin 0 = fst (bs ! i) \<or> Fin 0 = snd (bs ! i)"
    using list_all2_nthD [OF c(1) [unfolded product_bounds_iff] i(1)] i(2) by simp
  ultimately have "d ! j = fst (bs ! j) \<or> d ! j = snd (bs ! j)" if "j < length bs" for j
    unfolding d_def using that i(1) by (cases "j = i") auto
  then have "d \<in> set (product_bounds bs)"
    unfolding product_bounds_iff list_all2_conv_all_nth by (simp add: d_def)
  moreover have "num_prod d = Fin 0"
  proof -
    have "\<exists>k. fin b = Fin k" if "b \<in> set bs" for b
      using ends that False by (cases b; cases "fst b"; cases "snd b") (auto simp: fin_def)
    moreover have "set d \<subseteq> insert (Fin 0) (fin ` set bs)"
      unfolding d_def using set_update_subset_insert [of "map fin bs" i "Fin 0"] by simp
    ultimately have "\<forall>x \<in> set d. \<exists>k. x = Fin k" by blast
    moreover have "Fin 0 \<in> set d" unfolding d_def using i by (simp add: set_update_memI)
    ultimately show ?thesis using num_prod_finite [of d] num_prod_zero [of d] by auto
  qed
  ultimately show ?thesis by force
qed

theorem product_interval_within:
  assumes "list_all2 (\<lambda>b x. within (fst b) x (snd b)) bs xs"
    and "product_interval bs = Inr (m_l, m_u)"
  shows "m_l \<noteq> NaN \<Longrightarrow> num_le m_l (Fin (prod_list xs))" "m_u \<noteq> NaN \<Longrightarrow> num_le (Fin (prod_list xs)) m_u"
proof -
  have ends: "\<forall>b \<in> set bs. fst b \<in> {NInf} \<union> range Fin \<and> snd b \<in> {PInf} \<union> range Fin"
  proof
    fix b assume "b \<in> set bs"
    then obtain x where "within (fst b) x (snd b)"
      using assms(1) by (auto simp: list_all2_conv_all_nth in_set_conv_nth)
    then show "fst b \<in> {NInf} \<union> range Fin \<and> snd b \<in> {PInf} \<union> range Fin"
      by (auto simp: within_def num_le_Fin_cases)
  qed
  note nn = corner_not_nan [OF ends]
  obtain cs where cs: "product_bounds bs = map fst bs # cs" using hd_product_bounds by blast
  let ?first = "num_prod (map fst bs)"
  have m: "m_l = fold (\<lambda>y m. py_min m y) (map num_prod cs) ?first" "m_u = fold (\<lambda>y m. py_max m y) (map num_prod cs) ?first"
    using assms(2) by (simp_all add: product_interval_def cs)
  let ?x = "Fin (prod_list xs)"
  have good: "(\<exists>d \<in> set (product_bounds bs). num_prod d \<noteq> NaN \<and> num_le (num_prod d) ?x) \<and>
      (\<exists>d \<in> set (product_bounds bs). num_prod d \<noteq> NaN \<and> num_le ?x (num_prod d))" if first: "?first \<noteq> NaN"
  proof -
    from prod0_corners [OF assms(1)] obtain c1 c2 where
      c: "c1 \<in> set (product_bounds bs)" "num_le (prod0 c1) ?x" "c2 \<in> set (product_bounds bs)" "num_le ?x (prod0 c2)"
      by blast
    note p = num_prod_prod0 [OF nn [OF c(1)]] num_prod_prod0 [OF nn [OF c(3)]]
    note nc = nan_corner [OF ends first]
    have "\<exists>d \<in> set (product_bounds bs). num_prod d \<noteq> NaN \<and> num_le (num_prod d) ?x"
    proof (cases "num_prod c1 = NaN")
      case True
      then have "num_le (Fin 0) ?x" using p(1) c(2) by simp
      with nc [OF c(1) True] num_le_trans show ?thesis by blast
    next
      case False
      then have "num_le (num_prod c1) ?x" using p(1) c(2) by simp
      with False c(1) show ?thesis by blast
    qed
    moreover have "\<exists>d \<in> set (product_bounds bs). num_prod d \<noteq> NaN \<and> num_le ?x (num_prod d)"
    proof (cases "num_prod c2 = NaN")
      case True
      then have "num_le ?x (Fin 0)" using p(2) c(4) by simp
      with nc [OF c(3) True] num_le_trans show ?thesis by blast
    next
      case False
      then have "num_le ?x (num_prod c2)" using p(2) c(4) by simp
      with False c(3) show ?thesis by blast
    qed
    ultimately show ?thesis ..
  qed
  show "num_le m_l ?x" if "m_l \<noteq> NaN"
  proof -
    have first: "?first \<noteq> NaN" using that m(1) fold_nan(1) by metis
    from good [OF first] obtain d where d: "d \<in> set (product_bounds bs)" "num_prod d \<noteq> NaN" "num_le (num_prod d) ?x"
      by blast
    have "num_prod d \<in> set (?first # map num_prod cs)" using d(1) cs by auto
    then have "num_le m_l (num_prod d)" using fold_min_le [OF first, of "map num_prod cs"] d(2) m(1) by blast
    with d(3) num_le_trans show ?thesis by blast
  qed
  show "num_le ?x m_u" if "m_u \<noteq> NaN"
  proof -
    have first: "?first \<noteq> NaN" using that m(2) fold_nan(2) by metis
    from good [OF first] obtain d where d: "d \<in> set (product_bounds bs)" "num_prod d \<noteq> NaN" "num_le ?x (num_prod d)"
      by blast
    have "num_prod d \<in> set (?first # map num_prod cs)" using d(1) cs by auto
    then have "num_le (num_prod d) m_u" using fold_max_ge [OF first, of "map num_prod cs"] d(2) m(2) by blast
    with d(3) num_le_trans show ?thesis by blast
  qed
qed

lemma num_pow_within:
  assumes "within l x u" "odd n"
  shows "within (num_pow l n) (x ^ n) (num_pow u n)"
proof -
  have mono: "a ^ n \<le> b ^ n" if "a \<le> b" for a b :: int by (rule power_mono_odd [OF assms(2) that])
  show ?thesis using assms mono unfolding within_def by (cases l; cases u) auto
qed

subsection \<open>Floor division\<close>

lemma div_between_pos:
  fixes a :: int
  assumes "0 < l" "l \<le> y" "y \<le> u"
  shows "a \<ge> 0 \<Longrightarrow> a div u \<le> a div y \<and> a div y \<le> a div l" "a < 0 \<Longrightarrow> a div l \<le> a div y \<and> a div y \<le> a div u"
  using assms zdiv_mono2 [of a] zdiv_mono2_neg [of a] by auto

text \<open>The quotients with exact division of finite numbers\<close>

definition exact_floor :: "py_num \<Rightarrow> py_num \<Rightarrow> py_num res" where
  "exact_floor a b =
     (case (a, b) of
        (Fin x, Fin y) \<Rightarrow> rbind (rassert (y \<noteq> 0)) (\<lambda>_. Inr (Fin (x div y)))
      | _ \<Rightarrow> math_floor_with_inf a b)"

lemma math_floor_exact: "math_floor_with_inf a b = Inr c \<Longrightarrow> exact_floor a b = Inr c"
  by (cases a; cases b) (auto simp: exact_floor_def math_floor_with_inf_def num_isinf_def floor_div_def res_simps split: if_splits)

lemma math_floor_Inr:
  "exact_floor a b = Inr c \<Longrightarrow> b \<noteq> Fin 0 \<and> c \<noteq> NaN"
  by (cases a; cases b) (auto simp: exact_floor_def math_floor_with_inf_def num_isinf_def res_simps split: if_splits)

lemma math_floor_Fin:
  "exact_floor (Fin x) (Fin y) = Inr c \<longleftrightarrow> y \<noteq> 0 \<and> c = Fin (x div y)"
  "exact_floor (Fin x) PInf = Inr c \<longleftrightarrow> c = Fin (if x \<ge> 0 then 0 else -1)"
  "exact_floor (Fin x) NInf = Inr c \<longleftrightarrow> c = Fin (if x \<ge> 0 then -1 else 0)"
  by (auto simp: exact_floor_def math_floor_with_inf_def num_isinf_def res_simps)

lemma math_floor_Inf:
  "exact_floor PInf (Fin y) = Inr c \<longleftrightarrow> y \<noteq> 0 \<and> c = (if y \<ge> 0 then PInf else NInf)"
  "exact_floor NInf (Fin y) = Inr c \<longleftrightarrow> y \<noteq> 0 \<and> c = (if y \<ge> 0 then NInf else PInf)"
  "exact_floor PInf PInf = Inr c \<longleftrightarrow> c = PInf" "exact_floor PInf NInf = Inr c \<longleftrightarrow> c = NInf"
  "exact_floor NInf PInf = Inr c \<longleftrightarrow> c = NInf" "exact_floor NInf NInf = Inr c \<longleftrightarrow> c = PInf"
  by (auto simp: exact_floor_def math_floor_with_inf_def num_isinf_def res_simps)

lemma math_floor_mono:
  assumes "exact_floor a b = Inr c" "exact_floor a' b = Inr c'" "num_le a a'"
  shows "num_le (Fin 0) b \<Longrightarrow> num_le c c'" "num_le b (Fin 0) \<Longrightarrow> num_le c' c"
proof -
  have nn: "a \<noteq> NaN" "a' \<noteq> NaN" using num_le_not_nan assms(3) by blast+
  have fin: "x < x' \<or> x = x' \<Longrightarrow> 0 < y \<Longrightarrow> x div y < x' div y \<or> x div y = x' div y"
    "x < x' \<or> x = x' \<Longrightarrow> y < 0 \<Longrightarrow> x' div y < x div y \<or> x' div y = x div y" for x x' y :: int
    using zdiv_mono1 [of x x' y] zdiv_mono1_neg [of x x' y] by linarith+
  show "num_le c c'" if "num_le (Fin 0) b"
    using assms nn that fin(1)
    by (cases a; cases a'; cases b) (simp_all add: math_floor_Fin math_floor_Inf num_le_def split: if_splits)
  show "num_le c' c" if "num_le b (Fin 0)"
    using assms nn that fin(2)
    by (cases a; cases a'; cases b) (simp_all add: math_floor_Fin math_floor_Inf num_le_def split: if_splits)
qed

text \<open>For a finite dividend, the quotient by a number between \<open>l\<close> and \<open>u\<close> of one sign.\<close>

lemma math_floor_divisor:
  assumes "exact_floor (Fin x) l = Inr c" "exact_floor (Fin x) u = Inr c'"
    and "num_le l (Fin y)" "num_le (Fin y) u" "num_less (Fin 0) l \<or> num_less u (Fin 0)"
  shows "(num_le c (Fin (x div y)) \<or> num_le c' (Fin (x div y))) \<and> (num_le (Fin (x div y)) c \<or> num_le (Fin (x div y)) c')"
proof -
  consider "0 < y" "num_less (Fin 0) l" | "y < 0" "num_less u (Fin 0)"
    using assms(3-5) by (cases l; cases u) (auto simp: num_le_def)
  then show ?thesis
  proof cases
    case 1
    then obtain l' where l: "l = Fin l'" "0 < l'" "l' \<le> y" using assms(3) by (cases l) (auto simp: num_le_def)
    have c: "c = Fin (x div l')" using assms(1) l by (simp add: math_floor_Fin)
    show ?thesis
    proof (cases u)
      case (Fin u')
      then have "c' = Fin (x div u')" "y \<le> u'" using assms(2,4) by (simp_all add: math_floor_Fin)
      then show ?thesis using div_between_pos [OF l(2,3), of u' x] c by (cases "x \<ge> 0") auto
    next
      case PInf
      then have "c' = Fin (if x \<ge> 0 then 0 else -1)" using assms(2) by (simp add: math_floor_Fin)
      moreover have "x div y \<ge> 0 \<longleftrightarrow> x \<ge> 0" using 1 by (simp add: pos_imp_zdiv_nonneg_iff)
      ultimately show ?thesis using div_between_pos [OF l(2,3), of y x] c by (cases "x \<ge> 0") auto
    qed (use assms(4) in simp_all)
  next
    case 2
    then obtain u' where u: "u = Fin u'" "u' < 0" "y \<le> u'" using assms(4) by (cases u) (auto simp: num_le_def)
    have c': "c' = Fin (x div u')" using assms(2) u by (simp add: math_floor_Fin)
    have d: "0 < - u'" "- u' \<le> - y" using u by simp_all
    show ?thesis
    proof (cases l)
      case (Fin l')
      then have "c = Fin (x div l')" "- y \<le> - l'" using assms(1,3) by (simp_all add: math_floor_Fin)
      then show ?thesis using div_between_pos [OF d, of "- l'" "- x"] c' by (cases "- x \<ge> 0") auto
    next
      case NInf
      then have "c = Fin (if x \<ge> 0 then -1 else 0)" using assms(1) by (simp add: math_floor_Fin)
      moreover have "x div y \<ge> 0 \<longleftrightarrow> x \<le> 0" using 2 by (simp add: neg_imp_zdiv_nonneg_iff)
      ultimately show ?thesis using div_between_pos [OF d, of "- y" "- x"] c' by (cases "x \<ge> 0"; cases "x = 0") auto
    qed (use assms(3) in simp_all)
  qed
qed

theorem floordiv_interval_within:
  assumes "within l1 x u1" "within l2 y u2" "floordiv_interval (l1, u1) (l2, u2) = Inr (m_l, m_u)"
  shows "y \<noteq> 0" "within m_l (x div y) m_u"
proof -
  from assms(3) obtain c1 c2 c3 c4 where
    sign: "\<not> (num_le l2 (Fin 0) \<and> num_le (Fin 0) u2)"
    and c: "exact_floor l1 l2 = Inr c1" "exact_floor l1 u2 = Inr c2"
      "exact_floor u1 l2 = Inr c3" "exact_floor u1 u2 = Inr c4"
    and m: "m_l = fold (\<lambda>y m. py_min m y) [c2, c3, c4] c1" "m_u = fold (\<lambda>y m. py_max m y) [c2, c3, c4] c1"
    unfolding floordiv_interval_def by (auto simp: res_simps dest!: math_floor_exact split: if_splits)
  have x: "num_le l1 (Fin x)" "num_le (Fin x) u1" and y: "num_le l2 (Fin y)" "num_le (Fin y) u2"
    using assms(1,2) by (simp_all add: within_def)
  have s: "num_less (Fin 0) l2 \<or> num_less u2 (Fin 0)"
    using sign y by (cases l2; cases u2) (auto simp: num_le_def)
  then show "y \<noteq> 0" using y by (cases l2; cases u2) (auto simp: num_le_def)
  have nn: "c1 \<noteq> NaN" "c2 \<noteq> NaN" "c3 \<noteq> NaN" "c4 \<noteq> NaN" "l2 \<noteq> Fin 0" "u2 \<noteq> Fin 0" "l2 \<noteq> NaN" "u2 \<noteq> NaN"
    using c math_floor_Inr y num_le_not_nan by blast+
  have ml: "num_le m_l c1" "num_le m_l c2" "num_le m_l c3" "num_le m_l c4"
    using fold_min_le [OF nn(1), of "[c2, c3, c4]"] m(1) nn by auto
  have mu: "num_le c1 m_u" "num_le c2 m_u" "num_le c3 m_u" "num_le c4 m_u"
    using fold_max_ge [OF nn(1), of "[c2, c3, c4]"] m(2) nn by auto
  obtain a b where ab: "exact_floor (Fin x) l2 = Inr a" "exact_floor (Fin x) u2 = Inr b"
    using nn(5-8) by (cases l2; cases u2) (auto simp: exact_floor_def math_floor_with_inf_def num_isinf_def)
  have q: "(num_le a (Fin (x div y)) \<or> num_le b (Fin (x div y))) \<and> (num_le (Fin (x div y)) a \<or> num_le (Fin (x div y)) b)"
    by (rule math_floor_divisor [OF ab y s])
  have sgn: "num_le (Fin 0) l2 \<or> num_le l2 (Fin 0)" "num_le (Fin 0) u2 \<or> num_le u2 (Fin 0)"
    using num_le_total [of "Fin 0" l2] num_le_total [of "Fin 0" u2] nn by auto
  have "num_le m_l a" "num_le m_l b"
    using math_floor_mono [OF c(1) ab(1) x(1)] math_floor_mono [OF ab(1) c(3) x(2)]
      math_floor_mono [OF c(2) ab(2) x(1)] math_floor_mono [OF ab(2) c(4) x(2)] sgn ml num_le_trans by blast+
  moreover have "num_le a m_u" "num_le b m_u"
    using math_floor_mono [OF c(1) ab(1) x(1)] math_floor_mono [OF ab(1) c(3) x(2)]
      math_floor_mono [OF c(2) ab(2) x(1)] math_floor_mono [OF ab(2) c(4) x(2)] sgn mu num_le_trans by blast+
  ultimately show "within m_l (x div y) m_u" unfolding within_def using q num_le_trans by blast
qed

end
