(* ===== verification/DimSound.thy ===== *)
theory DimSound
  imports DimIntervals
begin

text \<open>
  Soundness of the decision procedure: the constraints in its state stay true, and the bounds
  it returns are bounds.
\<close>

subsection \<open>Well-formed factors\<close>

text \<open>
  \<open>factor_deep\<close>: the operands of a factor are sorted like the results of the operations, all the
  way down, and only odd powers of factors occur in them. Even powers are excluded because
  the procedure takes the powers of the ends of an interval for the ends of the power.
\<close>

fun factor_deep :: "dim_factor \<Rightarrow> bool" where
  "factor_deep (Var v) = True"
| "factor_deep (Oper oper es) =
     (\<forall>e \<in> set es. strictly_descending term_cmp e \<and>
        (\<forall>p \<in> set e. strictly_descending factor_cmp (fst p) \<and>
           (\<forall>q \<in> set (fst p). snd q > 0 \<and> odd (snd q) \<and> factor_size (fst q) > 0 \<and> factor_deep (fst q))))"

definition odd_term :: "dim_term \<Rightarrow> bool" where
  "odd_term t \<longleftrightarrow> (\<forall>(f, n) \<in> set t. odd n)"

definition terms_wf :: "dim_factor set \<Rightarrow> dim_expr \<Rightarrow> bool" where
  "terms_wf F e \<longleftrightarrow> strictly_descending term_cmp e \<and> (\<forall>(t, c) \<in> set e. term_ok F t)"

definition odd_expr :: "dim_expr \<Rightarrow> bool" where
  "odd_expr e \<longleftrightarrow> (\<forall>(t, c) \<in> set e. odd_term t)"

fun size_wf :: "dim_factor set \<Rightarrow> dim_size \<Rightarrow> bool" where
  "size_wf F (Const k) = True"
| "size_wf F (Sym e) = terms_wf F e"

lemma size_ok_wf: "size_ok F d \<Longrightarrow> size_wf F d"
  by (cases d) (auto simp: terms_ok_def terms_wf_def)

lemma terms_wf_distinct: "terms_wf F e \<Longrightarrow> distinct (map fst e)"
proof (induction e)
  case (Cons p ts)
  then have w: "terms_wf F ts" "\<forall>q \<in> set ts. term_cmp (fst p) (fst q) > 0"
    by (auto simp: terms_wf_def strictly_descending_def)
  moreover have "term_cmp t t = 0" for t by (rule term_order.cmp_refl) simp
  ultimately have "fst p \<notin> fst ` set ts" by fastforce
  then show ?case using Cons.IH w(1) by simp
qed simp

text \<open>The value of a list of terms is that of its first hit in a dictionary plus the rest.\<close>

lemma single_term_value:
  assumes "distinct (map fst e)" "single_term_loop e n1 (Some (t, n2)) = Some r" "term_one \<notin> fst ` set e \<or> n1 = 0"
  shows "\<exists>n. r = (n, Some (t, n2)) \<and> eden I e = n - n1"
  using assms
proof (induction e arbitrary: n1)
  case (Cons p e)
  obtain u c where p: "p = (u, c)" by (cases p)
  with Cons.prems have u: "u = []" by (auto split: if_splits)
  then have "term_one \<notin> fst ` set e" using Cons.prems(1) p by auto
  with Cons.IH [of c] Cons.prems p u show ?case by auto
qed simp

lemma single_term_value_none:
  assumes "distinct (map fst e)" "single_term_loop e n1 None = Some (n, Some (t, n2))" "term_one \<notin> fst ` set e \<or> n1 = 0"
  shows "t \<in> fst ` set e \<and> eden I e = n - n1 + tden I t * n2"
  using assms
proof (induction e arbitrary: n1)
  case (Cons p e)
  obtain u c where p: "p = (u, c)" by (cases p)
  show ?case
  proof (cases "u = []")
    case True
    then have "term_one \<notin> fst ` set e" using Cons.prems(1) p by auto
    with Cons.IH [of c] Cons.prems p True show ?thesis by auto
  next
    case False
    have "term_one \<notin> fst ` set e \<or> n1 = 0" using Cons.prems(3) by auto
    with single_term_value [of e n1 u c "(n, Some (t, n2))" I] Cons.prems p False show ?thesis by auto
  qed
qed simp

lemma to_single_term_value:
  assumes "terms_wf F e" "to_single_term e = Inr (Some (n, t_k, t))"
  shows "term_ok F t" "eden I e = n + t_k * tden I t"
proof -
  have "single_term_loop e 0 None = Some (n, Some (t, t_k))"
    using assms(2) by (auto simp: to_single_term_def split: option.splits)
  from single_term_value_none [OF terms_wf_distinct [OF assms(1)] this, of I]
  have "t \<in> fst ` set e" "eden I e = n + t_k * tden I t" by (auto simp: algebra_simps)
  with assms(1) show "term_ok F t" "eden I e = n + t_k * tden I t" by (auto simp: terms_wf_def)
qed

subsection \<open>Valuations of dimensions\<close>

locale dim_semantics = scope_valuation rules F I for rules F I +
  assumes deep: "f \<in> F \<Longrightarrow> factor_deep f"
    and operands: "Oper oper es \<in> F \<Longrightarrow> e \<in> set es \<Longrightarrow> (t, c) \<in> set e \<Longrightarrow> (f, n) \<in> set t \<Longrightarrow> f \<in> F"
    and var_pos: "Var v \<in> F \<Longrightarrow> I (Var v) \<ge> 1"
    and op_max: "Oper OpMAX [a, b] \<in> F \<Longrightarrow> I (Oper OpMAX [a, b]) = max (eden I a) (eden I b)"
    and op_min: "Oper OpMIN [a, b] \<in> F \<Longrightarrow> I (Oper OpMIN [a, b]) = min (eden I a) (eden I b)"
    and op_floordiv: "Oper OpFLOORDIV [a, b] \<in> F \<Longrightarrow> eden I b \<noteq> 0 \<Longrightarrow> I (Oper OpFLOORDIV [a, b]) = eden I a div eden I b"
    and op_mod: "Oper OpMOD [a, b] \<in> F \<Longrightarrow> eden I b \<noteq> 0 \<Longrightarrow> I (Oper OpMOD [a, b]) = eden I a mod eden I b"
    and mod_total: "Oper OpFLOORDIV [a, b] \<in> F \<Longrightarrow> eden I b \<noteq> 0 \<Longrightarrow> Oper OpMOD [a, b] \<in> F"
    and rule_odd: "(t, after, k) \<in> set rules \<Longrightarrow> odd_expr after"
begin

lemma operand_wf:
  assumes "Oper oper es \<in> F" "e \<in> set es"
  shows "terms_wf F e" "odd_expr e"
  using deep [OF assms(1)] operands [OF assms] assms(2)
  by (fastforce simp: terms_wf_def term_ok_def odd_expr_def odd_term_def split_def)+

text \<open>Arithmetic on sorted expressions, whose constants may be zero: when it returns, it is right.\<close>

lemma normalize_first_wf:
  assumes "terms_wf F ts" "set rest \<subseteq> set ts" "normalize_first rules ts rest = Inr ts'"
  shows "(ts' = ts \<and> (\<forall>p \<in> set rest. snd p \<noteq> 0)) \<or> (terms_ok F ts' \<and> eden I ts' = eden I ts)"
  using assms(2,3)
proof (induction rest)
  case (Cons p rest)
  obtain t k where p: "p = (t, k)" by (cases p)
  have t: "term_ok F t" using Cons.prems(1) assms(1) p by (auto simp: terms_wf_def)
  have k: "k \<noteq> 0" using Cons.prems(2) p by (auto simp: res_simps)
  from normalize_term_ok [OF t, of k] obtain us where us:
    "normalize_term rules t k = Inr us" "eden I us = 0" "\<forall>(t, c) \<in> set us. term_ok F t"
    by (auto simp: updates_ok_def)
  have ok: "coeffs_ok F ts" "dict_of ts = ts"
    using assms(1) terms_wf_distinct [OF assms(1)] dict_of_distinct by (auto simp: coeffs_ok_def terms_wf_def)
  from add_updates_ok [OF ok(1) us(3)] coeff_to_sorted_terms_ok
  show ?case using Cons us p k ok(2) by (cases "us = []") auto
qed simp

lemma normalize_wf:
  assumes "terms_wf F ts" "normalize_sorted_terms rules ts = Inr d"
  shows "size_ok F d \<and> den I d = eden I ts"
proof -
  from assms(2) obtain ts' where ts': "normalize_first rules ts ts = Inr ts'" "d = to_dim_size ts'"
    by (auto simp: normalize_sorted_terms_def res_simps)
  have "terms_ok F ts' \<and> eden I ts' = eden I ts"
    using normalize_first_wf [OF assms(1) order.refl ts'(1)] assms(1)
    by (auto simp: terms_wf_def terms_ok_def)
  with to_dim_size_ok [of ts'] ts'(2) show ?thesis by simp
qed

lemma merge_wf:
  assumes "terms_wf F e1" "terms_wf F e2"
  shows "terms_wf F (linear_combination_sorted_pairs term_cmp e1 k1 e2 k2)"
proof -
  have "strictly_descending term_cmp (linear_combination_sorted_pairs term_cmp e1 k1 e2 k2)"
    by (rule term_order.linear_combination_descending) (use assms in \<open>auto simp: terms_wf_def\<close>)
  moreover have "term_ok F t" if "(t, c) \<in> set (linear_combination_sorted_pairs term_cmp e1 k1 e2 k2)" for t c
    using linear_combination_keysD [OF that] assms by (auto simp: terms_wf_def)
  ultimately show ?thesis by (auto simp: terms_wf_def)
qed

lemma terms_wf_one [simp]: "terms_wf F [([], k)]" "terms_wf F []"
  by (simp_all add: terms_wf_def strictly_descending_def)

lemma linear_combination_wf:
  assumes "size_wf F a" "size_wf F b" "linear_combination rules a k1 b k2 = Inr d"
  shows "size_wf F d" "den I d = den I a * k1 + den I b * k2"
proof -
  have "size_wf F d \<and> den I d = den I a * k1 + den I b * k2"
  proof (cases "\<exists>x y. a = Const x \<and> b = Const y")
    case True
    then show ?thesis using assms(3) by (auto simp: linear_combination_def)
  next
    case False
    let ?e1 = "case a of Sym e \<Rightarrow> e | Const a \<Rightarrow> [([], a)]"
    let ?e2 = "case b of Sym e \<Rightarrow> e | Const b \<Rightarrow> if b = 0 then [] else [([], b)]"
    have w: "terms_wf F ?e1" "terms_wf F ?e2" "eden I ?e1 = den I a" "eden I ?e2 = den I b"
      using assms(1,2) by (cases a; cases b; simp)+
    have "normalize_sorted_terms rules (linear_combination_sorted_pairs term_cmp ?e1 k1 ?e2 k2) = Inr d"
      using assms(3) False by (cases a; cases b) (auto simp: linear_combination_def)
    from normalize_wf [OF merge_wf [OF w(1,2)] this] w(3,4) size_ok_wf show ?thesis
      by (simp add: linear_combination_value)
  qed
  then show "size_wf F d" "den I d = den I a * k1 + den I b * k2" by auto
qed

lemma dim_sub_wf:
  assumes "size_wf F a" "size_wf F b" "dim_sub rules a b = Inr d"
  shows "size_wf F d" "den I d = den I a - den I b"
proof -
  have "size_wf F d \<and> den I d = den I a - den I b"
    using assms linear_combination_wf [of a b 1 "-1" d] linear_combination_wf [of b a "-1" 1 d]
    by (cases a; cases b) (auto split: if_splits)
  then show "size_wf F d" "den I d = den I a - den I b" by auto
qed

lemma dim_add_wf:
  assumes "size_wf F a" "size_wf F b" "dim_add rules a b = Inr d"
  shows "size_wf F d" "den I d = den I a + den I b"
proof -
  have "size_wf F d \<and> den I d = den I a + den I b"
    using assms linear_combination_wf [of a b 1 1 d] linear_combination_wf [of b a 1 1 d]
    by (cases a; cases b) (auto split: if_splits)
  then show "size_wf F d" "den I d = den I a + den I b" by auto
qed

lemma dim_mul_wf:
  assumes "size_wf F a" "size_wf F b" "dim_mul rules a b = Inr d"
  shows "size_wf F d" "den I d = den I a * den I b"
proof -
  have scale: "size_wf F d \<and> den I d = eden I e * k" if "terms_wf F e" "scale_expr rules e k = Inr d" for e k
    using that linear_combination_wf [of "Sym e" "Const 0" k 0 d] by (auto simp: scale_expr_def split: if_splits)
  have "size_wf F d \<and> den I d = den I a * den I b"
  proof (cases a; cases b)
    fix e1 e2 assume ab: "a = Sym e1" "b = Sym e2"
    with assms have m: "coeffs_ok F (mul_coeffs e1 e2) \<and> eden I (mul_coeffs e1 e2) = eden I e1 * eden I e2"
      by (intro mul_coeffs_ok) (auto simp: terms_wf_def)
    have "terms_wf F (coeff_to_sorted_terms (mul_coeffs e1 e2))"
      using coeff_to_sorted_terms_ok [of F "mul_coeffs e1 e2" I] m by (auto simp: terms_ok_def terms_wf_def)
    from normalize_wf [OF this] assms(3) ab m coeff_to_sorted_terms_ok [of F "mul_coeffs e1 e2" I] size_ok_wf
    show ?thesis by simp
  qed (use assms scale in \<open>auto simp: mult.commute\<close>)
  then show "size_wf F d" "den I d = den I a * den I b" by auto
qed

lemma from_term_wf:
  assumes "term_ok F t" "from_term rules t k = Inr d"
  shows "size_ok F d" "den I d = tden I t * k"
proof -
  have "terms_wf F [(t, k)]" using assms(1) by (simp add: terms_wf_def strictly_descending_def)
  from normalize_wf [OF this] assms(2) show "size_ok F d" "den I d = tden I t * k"
    by (simp_all add: from_term_def)
qed

subsection \<open>The constraints of the state\<close>

definition constraint_true :: "comparator \<times> int \<times> dim_expr \<Rightarrow> bool" where
  "constraint_true c \<longleftrightarrow> (case c of (cmp, _, e) \<Rightarrow> terms_wf F e \<and> holds cmp (eden I e))"

definition sat :: "decision \<Rightarrow> bool" where
  "sat st \<longleftrightarrow>
     (\<forall>(t, lb, ub) \<in> set (term_bounds st). within lb (tden I t) ub) \<and>
     (\<forall>(t, cs) \<in> set (expr_constraints st). \<forall>c \<in> set cs. constraint_true c) \<and>
     (\<forall>(e, lb, ub, p) \<in> set (bounds_cache st). terms_wf F e \<longrightarrow> within lb (eden I e) ub)"

lemma set_dict_set_subset: "set (dict_set d k v) \<subseteq> insert (k, v) (set d)"
  by (induction d k v rule: dict_set.induct) auto

lemma sat_set_term_bounds:
  "sat st \<Longrightarrow> within lb (tden I t) ub \<Longrightarrow> sat (st\<lparr>term_bounds := dict_set (term_bounds st) t (lb, ub)\<rparr>)"
  using set_dict_set_subset [of "term_bounds st" t "(lb, ub)"] by (fastforce simp: sat_def)

lemma sat_set_constraints:
  "sat st \<Longrightarrow> \<forall>c \<in> set cs. constraint_true c \<Longrightarrow> sat (st\<lparr>expr_constraints := dict_set (expr_constraints st) t cs\<rparr>)"
  using set_dict_set_subset [of "expr_constraints st" t cs] by (fastforce simp: sat_def)

lemma sat_set_cache:
  "sat st \<Longrightarrow> within lb (eden I e) ub \<Longrightarrow> sat (st\<lparr>bounds_cache := dict_set (bounds_cache st) e (lb, ub, p)\<rparr>)"
  using set_dict_set_subset [of "bounds_cache st" e "(lb, ub, p)"] by (fastforce simp: sat_def)

lemma sat_processed: "sat (st\<lparr>processed := ts\<rparr>) \<longleftrightarrow> sat st"
  by (simp add: sat_def)

lemma sat_term_bounds: "sat st \<Longrightarrow> get_term_bounds st t = (lb, ub) \<Longrightarrow> within lb (tden I t) ub"
  by (auto simp: sat_def get_term_bounds_def split: option.splits dest!: map_of_SomeD)

lemma sat_constraints: "sat st \<Longrightarrow> map_of (expr_constraints st) t = Some cs \<Longrightarrow> c \<in> set cs \<Longrightarrow> constraint_true c"
  by (fastforce simp: sat_def dest!: map_of_SomeD)

lemma add_to_state_sat:
  assumes "sat st" "terms_wf F e" "holds cmp (eden I e)" "add_to_state st cmp e = Inr st'"
  shows "sat st'"
proof -
  from assms(4) obtain tf where tf: "to_single_term e = Inr tf"
    by (auto simp: add_to_state_def res_simps)
  show ?thesis
  proof (cases tf)
    case None
    obtain lead_t lead_t_k rest where e: "e = (lead_t, lead_t_k) # rest"
      using assms(4) tf None by (cases e) (auto simp: add_to_state_def res_simps)
    have "constraint_true (cmp, lead_t_k, e)" using assms(2,3) by (simp add: constraint_true_def)
    then show ?thesis
      using assms(4) tf None e sat_constraints [OF assms(1), of lead_t]
      by (auto simp: add_to_state_def res_simps Let_def split: option.splits if_splits intro!: sat_set_constraints assms(1))
  next
    case (Some a)
    obtain n t_k t where a: "a = (n, t_k, t)" by (cases a)
    have v: "eden I e = n + t_k * tden I t" using to_single_term_value(2) [OF assms(2)] tf Some a by simp
    obtain lb ub where b: "get_term_bounds st t = (lb, ub)" by (cases "get_term_bounds st t")
    have w: "within lb (tden I t) ub" using sat_term_bounds [OF assms(1) b] .
    have "st' = st\<lparr>term_bounds := dict_set (term_bounds st) t (lb', ub')\<rparr> \<Longrightarrow> within lb' (tden I t) ub' \<Longrightarrow> sat st'" for lb' ub'
      using sat_set_term_bounds [OF assms(1)] by blast
    then show ?thesis
    proof (cases cmp)
      case CmpEQ
      with assms(4) tf Some a b have r: "t_k \<noteq> 0" "n mod t_k = 0"
        "st' = st\<lparr>term_bounds := dict_set (term_bounds st) t (py_max lb (Fin (- (n div t_k))), py_min ub (Fin (- (n div t_k))))\<rparr>"
        by (auto simp: add_to_state_def res_simps py_mod_def Let_def split: if_splits)
      have "t_k * tden I t = t_k * (- (n div t_k))" using v assms(3) CmpEQ r(2) by auto
      then have "tden I t = - (n div t_k)" using mult_left_cancel [OF r(1)] by blast
      then have "within (py_max lb (Fin (- (n div t_k)))) (tden I t) (py_min ub (Fin (- (n div t_k))))"
        using w by (auto intro!: within_lower within_upper)
      then show ?thesis unfolding r(3) by (rule sat_set_term_bounds [OF assms(1)])
    next
      case CmpGEQ
      have ge: "- n \<le> tden I t * t_k" using v assms(3) CmpGEQ by (simp add: mult.commute)
      show ?thesis
      proof (cases "t_k > 0")
        case True
        with assms(4) tf Some a b CmpGEQ obtain k where r: "ceil_quot (Fin (- n)) t_k = Inr k"
          "st' = st\<lparr>term_bounds := dict_set (term_bounds st) t (py_max lb (Fin k), ub)\<rparr>"
          unfolding add_to_state_def Let_def by (auto simp: res_simps simp del: ceil_quot.simps split: if_splits)
        have "k \<le> tden I t" using ceil_quot_lower [OF r(1)] ge True by simp
        then show ?thesis unfolding r(2) by (intro sat_set_term_bounds [OF assms(1)] within_lower [OF w]) simp
      next
        case False
        with assms(4) tf Some a b CmpGEQ obtain k where r: "floor_quot (Fin (- n)) t_k = Inr k"
          "st' = st\<lparr>term_bounds := dict_set (term_bounds st) t (lb, py_min ub (Fin k))\<rparr>"
          unfolding add_to_state_def Let_def by (auto simp: res_simps simp del: floor_quot.simps split: if_splits)
        then have "t_k < 0" using False by (auto split: if_splits)
        have "tden I t \<le> k" using floor_quot_upper_neg [OF r(1)] ge \<open>t_k < 0\<close> by simp
        then show ?thesis unfolding r(2) by (intro sat_set_term_bounds [OF assms(1)] within_upper [OF w]) simp
      qed
    qed
  qed
qed

lemma in_map_filter: "y \<in> set (List.map_filter f xs) \<longleftrightarrow> (\<exists>x \<in> set xs. f x = Some y)"
  by (induction xs) (auto split: option.splits)

text \<open>What a combination carries: a constraint that holds, with a multiplier that is not negative.\<close>

definition combinable :: "comparator \<times> dim_size \<times> int \<times> int \<Rightarrow> bool" where
  "combinable x \<longleftrightarrow> (case x of (c_eq, c, c_s, t_s) \<Rightarrow> size_wf F c \<and> holds c_eq (den I c) \<and> c_s \<ge> 0)"

lemma unit_term_wf: "term_ok F t \<Longrightarrow> size_wf F (Sym [(t, k)])"
  by (simp add: terms_wf_def strictly_descending_def)

lemma combine_term_combinable:
  assumes "sat st" "term_ok F t" "combine_term_with_existing rules st t t_k smaller = Inr cs" "x \<in> set cs"
  shows "combinable x"
proof -
  obtain lb ub where b: "get_term_bounds st t = (lb, ub)" by (cases "get_term_bounds st t")
  have w: "within lb (tden I t) ub" using sat_term_bounds [OF assms(1) b] .
  let ?prev = "if smaller then (case map_of (expr_constraints st) t of None \<Rightarrow> [] | Some cs \<Rightarrow> cs)
    else concat (map snd (expr_constraints st))"
  have prev: "constraint_true c" if "c \<in> set ?prev" for c
  proof (cases smaller)
    case True
    with that obtain cs where "map_of (expr_constraints st) t = Some cs" "c \<in> set cs"
      by (cases "map_of (expr_constraints st) t") auto
    then show ?thesis using sat_constraints [OF assms(1)] by blast
  next
    case False
    then show ?thesis using that assms(1) by (fastforce simp: sat_def)
  qed
  obtain acc where acc: "cs = acc @ List.map_filter (\<lambda>(c_eq, _, c).
      case map_of c t of None \<Rightarrow> None | Some tc_k \<Rightarrow> Some (c_eq, Sym c, \<bar>t_k\<bar>, - tc_k * sgn_py t_k)) ?prev"
    and first: "(if lb = ub
         then (case lb of
                 Fin b \<Rightarrow> rbind (dim_sub rules (Sym [(t, 1)]) (Const b)) (\<lambda>c. Inr [(CmpEQ, c, \<bar>t_k\<bar>, - sgn_py t_k)])
               | _ \<Rightarrow> Inl OverflowError)
         else
           rbind (case lb of
                    Fin b \<Rightarrow> rbind (dim_sub rules (Sym [(t, 1)]) (Const b)) (\<lambda>c. Inr [(CmpGEQ, c, \<bar>t_k\<bar>, - sgn_py t_k)])
                  | PInf \<Rightarrow> Inl OverflowError
                  | _ \<Rightarrow> Inr []) (\<lambda>lower.
           rbind (case ub of
                    Fin b \<Rightarrow> rbind (dim_add rules (Sym [(t, -1)]) (Const b)) (\<lambda>c. Inr [(CmpGEQ, c, \<bar>t_k\<bar>, sgn_py t_k)])
                  | NInf \<Rightarrow> Inl OverflowError
                  | _ \<Rightarrow> Inr []) (\<lambda>upper.
           Inr (lower @ upper)))) = Inr acc"
    using assms(3) unfolding combine_term_with_existing_def b Let_def prod.case rbind_eq_Inr by blast
  have low: "combinable (CmpGEQ, c, \<bar>t_k\<bar>, m)" if "dim_sub rules (Sym [(t, 1)]) (Const k) = Inr c" "lb = Fin k" for c k m
    using dim_sub_wf [OF unit_term_wf [OF assms(2), of 1] _ that(1)] w that(2) by (simp add: combinable_def within_def)
  have eq: "combinable (CmpEQ, c, \<bar>t_k\<bar>, m)" if "dim_sub rules (Sym [(t, 1)]) (Const k) = Inr c" "lb = Fin k" "ub = lb" for c k m
    using dim_sub_wf [OF unit_term_wf [OF assms(2), of 1] _ that(1)] w that(2,3) by (simp add: combinable_def within_def)
  have up: "combinable (CmpGEQ, c, \<bar>t_k\<bar>, m)" if "dim_add rules (Sym [(t, -1)]) (Const k) = Inr c" "ub = Fin k" for c k m
    using dim_add_wf [OF unit_term_wf [OF assms(2), of "-1"] _ that(1)] w that(2) by (simp add: combinable_def within_def)
  have "combinable y" if "y \<in> set acc" for y
  proof (cases "lb = ub")
    case True
    show ?thesis
    proof (cases lb)
      case (Fin k)
      with first [unfolded if_P [OF True]] obtain c where c: "dim_sub rules (Sym [(t, 1)]) (Const k) = Inr c"
        "acc = [(CmpEQ, c, \<bar>t_k\<bar>, - sgn_py t_k)]"
        unfolding Fin py_num.case rbind_eq_Inr by auto
      with eq [OF c(1) Fin] True that show ?thesis by simp
    qed (use first [unfolded if_P [OF True]] in simp_all)
  next
    case False
    from first [unfolded if_not_P [OF False]] obtain lower upper where l:
      "(case lb of
          Fin b \<Rightarrow> rbind (dim_sub rules (Sym [(t, 1)]) (Const b)) (\<lambda>c. Inr [(CmpGEQ, c, \<bar>t_k\<bar>, - sgn_py t_k)])
        | PInf \<Rightarrow> Inl OverflowError | _ \<Rightarrow> Inr []) = Inr lower"
      "(case ub of
          Fin b \<Rightarrow> rbind (dim_add rules (Sym [(t, -1)]) (Const b)) (\<lambda>c. Inr [(CmpGEQ, c, \<bar>t_k\<bar>, sgn_py t_k)])
        | NInf \<Rightarrow> Inl OverflowError | _ \<Rightarrow> Inr []) = Inr upper"
      "acc = lower @ upper" unfolding rbind_eq_Inr by blast
    have "combinable y" if "y \<in> set lower" for y 
    proof (cases lb)
      case (Fin k)
      with l(1) obtain c where "dim_sub rules (Sym [(t, 1)]) (Const k) = Inr c" "lower = [(CmpGEQ, c, \<bar>t_k\<bar>, - sgn_py t_k)]"
        unfolding Fin py_num.case rbind_eq_Inr by auto
      with low [of k c] Fin that show ?thesis by simp
    qed (use l(1) that in simp_all)
    moreover have "combinable y" if "y \<in> set upper" for y 
    proof (cases ub)
      case (Fin k)
      with l(2) obtain c where "dim_add rules (Sym [(t, -1)]) (Const k) = Inr c" "upper = [(CmpGEQ, c, \<bar>t_k\<bar>, sgn_py t_k)]"
        unfolding Fin py_num.case rbind_eq_Inr by auto
      with up [of k c] Fin that show ?thesis by simp
    qed (use l(2) that in simp_all)
    moreover have "y \<in> set lower \<or> y \<in> set upper" using that l(3) by simp
    ultimately show ?thesis by blast
  qed
  moreover have "combinable y" if "y \<in> set (List.map_filter (\<lambda>(c_eq, _, c).
      case map_of c t of None \<Rightarrow> None | Some tc_k \<Rightarrow> Some (c_eq, Sym c, \<bar>t_k\<bar>, - tc_k * sgn_py t_k)) ?prev)" for y
  proof -
    from that obtain p where p: "p \<in> set ?prev" "(\<lambda>(c_eq, _, c). case map_of c t of None \<Rightarrow> None
        | Some tc_k \<Rightarrow> Some (c_eq, Sym c, \<bar>t_k\<bar>, - tc_k * sgn_py t_k)) p = Some y"
      unfolding in_map_filter by blast
    obtain c_eq k c where pc: "p = (c_eq, k, c)" by (cases p)
    with p obtain tc where "(c_eq, k, c) \<in> set ?prev" "y = (c_eq, Sym c, \<bar>t_k\<bar>, - tc * sgn_py t_k)"
      by (cases "map_of c t") auto
    then show ?thesis using prev [of "(c_eq, k, c)"] by (simp add: combinable_def constraint_true_def)
  qed
  ultimately show ?thesis using assms(4) unfolding acc set_append Un_iff by blast
qed

lemma combine_one_holds:
  assumes "combinable x" "terms_wf F e" "holds eq (eden I e)"
    and "\<forall>(cmp, a) \<in> set combos. terms_wf F a \<and> holds cmp (eden I a)"
    and "combine_one rules eq e x combos = Inr combos'"
  shows "\<forall>(cmp, a) \<in> set combos'. terms_wf F a \<and> holds cmp (eden I a)"
proof -
  obtain c_eq c c_s t_s where x: "x = (c_eq, c, c_s, t_s)" by (cases x) auto
  show ?thesis
  proof (cases "t_s > 0 \<or> eq = CmpEQ")
    case False
    then show ?thesis using assms(4,5) x by (simp add: combine_one_def)
  next
    case True
    let ?new = "if eq = CmpEQ \<and> c_eq = CmpEQ then CmpEQ else CmpGEQ"
    from assms(5) True x obtain d where d: "linear_combination rules (Sym e) t_s c c_s = Inr d"
      by (auto simp: combine_one_def res_simps Let_def)
    have c: "size_wf F c" "holds c_eq (den I c)" "c_s \<ge> 0" using assms(1) x by (simp_all add: combinable_def)
    have v: "size_wf F d" "den I d = eden I e * t_s + den I c * c_s"
      using linear_combination_wf [OF _ c(1) d] assms(2) by simp_all
    have ge: "den I c * c_s \<ge> 0" using c(2,3) by (cases c_eq) simp_all
    have "eden I e * t_s \<ge> 0" using assms(3) True by (cases eq) auto
    then have h: "holds ?new (den I d)" using v(2) ge c(2) assms(3) by auto
    show ?thesis
    proof (cases d)
      case (Sym e')
      with d v(1) h assms(4,5) True x show ?thesis
        by (auto simp: combine_one_def Let_def split: option.splits if_splits)
    next
      case (Const k)
      with d assms(4,5) True x show ?thesis
        by (auto simp: combine_one_def Let_def split: if_splits)
    qed
  qed
qed

lemma combine_constraint_holds:
  assumes "sat st" "terms_wf F e" "holds eq (eden I e)"
    and "combine_constraint_with_existing rules st eq e = Inr combos"
  shows "\<forall>(cmp, a) \<in> set combos. terms_wf F a \<and> holds cmp (eden I a)"
  using assms(4) unfolding combine_constraint_with_existing_def
proof (rule rfold_invariant)
  fix p combos combos'
  assume p: "p \<in> set e" and inv: "\<forall>(cmp, a) \<in> set combos. terms_wf F a \<and> holds cmp (eden I a)"
    and step: "(case p of (t, t_k) \<Rightarrow> \<lambda>combinations.
      if t = [] then Inr combinations
      else rbind (combine_term_with_existing rules st t t_k False)
        (\<lambda>cs. rfold (combine_one rules eq e) cs combinations)) combos = Inr combos'"
  obtain t k where t: "p = (t, k)" "term_ok F t" using p assms(2) by (cases p) (auto simp: terms_wf_def)
  show "\<forall>(cmp, a) \<in> set combos'. terms_wf F a \<and> holds cmp (eden I a)"
  proof (cases "t = []")
    case True
    then show ?thesis using step inv t by simp
  next
    case False
    with step t obtain cs where cs: "combine_term_with_existing rules st t k False = Inr cs"
      "rfold (combine_one rules eq e) cs combos = Inr combos'" by (auto simp: res_simps)
    show ?thesis
      by (rule rfold_invariant [where P = "\<lambda>combos. \<forall>(cmp, a) \<in> set combos. terms_wf F a \<and> holds cmp (eden I a)",
            OF cs(2) inv])
         (use combine_one_holds [OF _ assms(2,3)] combine_term_combinable [OF assms(1) t(2) cs(1)] in blast)
  qed
qed simp

lemma combine_and_add_sat:
  assumes "sat st" "combine_and_add_constraint rules st cmp s1 s2 = Inr st'"
    and "\<And>d1 d2. as_size cmp True s1 = Inr (Some d1) \<Longrightarrow> as_size cmp False s2 = Inr (Some d2) \<Longrightarrow>
      size_wf F d1 \<and> size_wf F d2 \<and> holds cmp (den I d1 - den I d2)"
  shows "sat st'"
proof -
  from assms(2) obtain e1 where e1: "as_size cmp True s1 = Inr e1"
    by (auto simp: combine_and_add_constraint_def res_simps)
  show ?thesis
  proof (cases e1)
    case None
    with assms e1 show ?thesis by (simp add: combine_and_add_constraint_def)
  next
    case (Some d1)
    with assms(2) e1 obtain e2 where e2: "as_size cmp False s2 = Inr e2"
      by (auto simp: combine_and_add_constraint_def res_simps)
    show ?thesis
    proof (cases e2)
      case None
      with assms e1 e2 Some show ?thesis by (simp add: combine_and_add_constraint_def)
    next
      case (Some d2)
      note d = assms(3) [OF e1 [unfolded \<open>e1 = Some d1\<close>] e2 [unfolded Some]]
      from assms(2) e1 e2 Some \<open>e1 = Some d1\<close> obtain e where e: "dim_sub rules d1 d2 = Inr e"
        by (auto simp: combine_and_add_constraint_def res_simps)
      have w: "size_wf F e" "holds cmp (den I e)" using dim_sub_wf [OF _ _ e] d by simp_all
      show ?thesis
      proof (cases "to_constant e")
        case (Some k)
        with assms(1,2) e1 e2 \<open>e2 = Some d2\<close> \<open>e1 = Some d1\<close> e show ?thesis
          by (auto simp: combine_and_add_constraint_def split: if_splits)
      next
        case None
        then obtain es where es: "e = Sym es" by (cases e) simp_all
        from assms(2) e1 e2 \<open>e2 = Some d2\<close> \<open>e1 = Some d1\<close> e None es obtain st1 combos where
          st1: "add_to_state st cmp es = Inr st1" "combine_constraint_with_existing rules st1 cmp es = Inr combos"
          "rfold (\<lambda>(cmp, a) st. add_to_state st cmp a) combos st1 = Inr st'"
          by (auto simp: combine_and_add_constraint_def res_simps)
        have s1: "sat st1" using add_to_state_sat [OF assms(1) _ _ st1(1)] w es by simp
        have c: "\<forall>(cmp, a) \<in> set combos. terms_wf F a \<and> holds cmp (eden I a)"
          using combine_constraint_holds [OF s1 _ _ st1(2)] w es by simp
        show ?thesis
          by (rule rfold_invariant [where P = sat, OF st1(3) s1]) (use c add_to_state_sat in fastforce)
      qed
    qed
  qed
qed

end

end
