(* ===== verification/DimImplicit.thy ===== *)
theory DimImplicit
  imports DimSound
begin

text \<open>
  The bounds that the decision procedure returns are bounds: first those computed from the
  constraints of the state, then the implicit constraints of the terms, then the entry point
  \<^verbatim>\<open>bounds_decision\<close>, its cache and the comparisons.
\<close>

context dim_semantics
begin

subsection \<open>Bounds from the constraints of the state\<close>

definition sound_bounds :: "(dim_expr \<Rightarrow> (py_num \<times> py_num) res) \<Rightarrow> bool" where
  "sound_bounds rec \<longleftrightarrow> (\<forall>e lb ub. terms_wf F e \<longrightarrow> rec e = Inr (lb, ub) \<longrightarrow> within lb (eden I e) ub)"

lemma within_inter: "within lb x ub \<Longrightarrow> within l x u \<Longrightarrow> within (py_max lb l) x (py_min ub u)"
  by (simp add: within_def py_max_def py_min_def)

lemma bounds_by_constraints_within:
  assumes "sound_bounds rec" "terms_wf F e" "\<forall>c \<in> set cs. combinable c"
    and "within lb (eden I e) ub" "bounds_by_constraints rec e prec cs (lb, ub) = Inr (found, lb', ub')"
  shows "within lb' (eden I e) ub'"
  using assms(3-5)
proof (induction cs arbitrary: lb ub)
  case (Cons x cs)
  obtain c_eq c c_s t_s where x: "x = (c_eq, c, c_s, t_s)" by (cases x) auto
  show ?case
  proof (cases c)
    case (Const k)
    with Cons.prems x show ?thesis by simp
  next
    case (Sym c_terms)
    with Cons.prems(1) x have c: "terms_wf F c_terms" "holds c_eq (eden I c_terms)" "c_s \<ge> 0"
      by (auto simp: combinable_def)
    let ?m = "linear_combination_sorted_pairs term_cmp e t_s c_terms c_s"
    from Cons.prems(3) x Sym obtain rl ru lb1 ub1 where
      r: "rec ?m = Inr (rl, ru)" "refine_bounds c_eq t_s (rl, ru) (lb, ub) = Inr (lb1, ub1)" and
      rest: "(if bounds_are_sufficient prec lb1 ub1 then Inr (True, lb1, ub1)
          else bounds_by_constraints rec e prec cs (lb1, ub1)) = Inr (found, lb', ub')"
      unfolding x Sym bounds_by_constraints.simps prod.case dim_size.case rbind_eq_Inr by fastforce
    have "within rl (eden I e * t_s + eden I c_terms * c_s) ru"
      using assms(1) merge_wf [OF assms(2) c(1)] r(1) unfolding sound_bounds_def by (metis linear_combination_value)
    from refine_bounds_within [OF r(2) this c(2,3) Cons.prems(2)] have "within lb1 (eden I e) ub1" .
    with rest Cons.IH [of lb1 ub1] Cons.prems(1) show ?thesis by (simp split: if_splits)
  qed
qed simp

lemma term_to_factor_Some: "term_to_factor t = Inr (Some f) \<Longrightarrow> t = [(f, 1)]"
  by (auto simp: term_to_factor_def split: list.splits if_splits prod.splits)

lemma terms_wf_Cons: "terms_wf F ((t, c) # e) \<Longrightarrow> term_ok F t \<and> terms_wf F e"
  by (auto simp: terms_wf_def strictly_descending_def)

lemma terms_wf_factor: "term_ok F [(f, n)] \<Longrightarrow> f \<in> F"
  by (simp add: term_ok_def)

lemma max_min_scaled:
  fixes k a b c :: int
  shows "k > 0 \<Longrightarrow> max a b * k + c = max (c + a * k) (c + b * k)"
    "k \<le> 0 \<Longrightarrow> max a b * k + c = min (c + a * k) (c + b * k)"
    "k < 0 \<Longrightarrow> min a b * k + c = max (c + a * k) (c + b * k)"
    "k \<ge> 0 \<Longrightarrow> min a b * k + c = min (c + a * k) (c + b * k)"
  by (cases "k = 0"; simp add: max_mult_distrib_right min_mult_distrib_right max_add_distrib_left
      min_add_distrib_left add.commute)+

lemma bounds_by_max_min_within:
  assumes "sound_bounds rec" "terms_wf F ((t, t_k) # tail)"
    and "within lb (eden I ((t, t_k) # tail)) ub" "bounds_by_max_min rec t t_k tail (lb, ub) = Inr (lb', ub')"
  shows "within lb' (eden I ((t, t_k) # tail)) ub'"
proof -
  from assms(4) obtain t_f where f: "term_to_factor t = Inr t_f"
    by (auto simp: bounds_by_max_min_def res_simps)
  show ?thesis
  proof (cases "\<exists>oper ops. t_f = Some (Oper oper ops) \<and> (oper = OpMAX \<or> oper = OpMIN)")
    case False
    then have "(lb', ub') = (lb, ub)" using assms(4) f
      by (cases t_f) (auto simp: bounds_by_max_min_def split: dim_factor.splits)
    then show ?thesis using assms(3) by simp
  next
    case True
    then obtain oper ops where o: "t_f = Some (Oper oper ops)" "oper = OpMAX \<or> oper = OpMIN" by blast
    then have t: "t = [(Oper oper ops, 1)]" using f term_to_factor_Some by blast
    then have F: "Oper oper ops \<in> F" "terms_wf F tail" using terms_wf_Cons [OF assms(2)] terms_wf_factor by auto
    obtain op1 op2 where ops: "ops = [op1, op2]"
      using assms(4) o f by (auto simp: bounds_by_max_min_def split: list.splits)
    have w: "terms_wf F op1" "terms_wf F op2" using operand_wf [OF F(1)] ops by auto
    let ?like_max = "if oper = OpMAX then t_k > 0 else t_k < 0"
    from assms(4) obtain l1 u1 l2 u2 where
      r: "rec (linear_combination_sorted_pairs term_cmp tail 1 op1 t_k) = Inr (l1, u1)"
        "rec (linear_combination_sorted_pairs term_cmp tail 1 op2 t_k) = Inr (l2, u2)" and
      b: "lb' = py_max lb (if ?like_max then py_max l1 l2 else py_min l1 l2)"
        "ub' = py_min ub (if ?like_max then py_max u1 u2 else py_min u1 u2)"
      using o(2) unfolding bounds_by_max_min_def f o(1) ops by (auto simp: res_simps Let_def split: if_splits)
    have r1: "within l1 (eden I tail + eden I op1 * t_k) u1"
      using assms(1) merge_wf [OF F(2) w(1), of 1 t_k] r(1) linear_combination_value [of I tail 1 op1 t_k]
      unfolding sound_bounds_def by fastforce
    have r2: "within l2 (eden I tail + eden I op2 * t_k) u2"
      using assms(1) merge_wf [OF F(2) w(2), of 1 t_k] r(2) linear_combination_value [of I tail 1 op2 t_k]
      unfolding sound_bounds_def by fastforce
    have v: "eden I ((t, t_k) # tail) = I (Oper oper [op1, op2]) * t_k + eden I tail" using t ops by simp
    have "eden I ((t, t_k) # tail) = (if ?like_max
        then max (eden I tail + eden I op1 * t_k) (eden I tail + eden I op2 * t_k)
        else min (eden I tail + eden I op1 * t_k) (eden I tail + eden I op2 * t_k))"
      unfolding v using o(2) F(1) op_max [of op1 op2] op_min [of op1 op2]
        max_min_scaled [of t_k "eden I op1" "eden I op2" "eden I tail"] ops by (auto simp: not_less)
    then show ?thesis unfolding b using within_inter [OF assms(3)] within_max [OF r1 r2] within_min [OF r1 r2]
      by (simp split: if_splits)
  qed
qed

theorem bounds_for_sorted_terms_within:
  assumes "sat st" "terms_wf F e" "bounds_for_sorted_terms rules st depth prec e = Inr (lb, ub)"
  shows "within lb (eden I e) ub"
  using assms(2,3)
proof (induction depth arbitrary: prec e lb ub)
  case (Suc depth)
  show ?case
  proof (cases e)
    case Nil
    then show ?thesis using Suc.prems by (auto simp: within_def)
  next
    case (Cons p tail)
    obtain t k where p: "p = (t, k)" by (cases p)
    show ?thesis
    proof (cases "t = []")
      case True
      then show ?thesis using Suc.prems Cons p by (auto simp: res_simps)
    next
      case False
      let ?rec = "bounds_for_sorted_terms rules st depth BEST"
      have rec: "sound_bounds ?rec" using Suc.IH by (simp add: sound_bounds_def)
      note e = Suc.prems(1) [unfolded Cons p]
      from Suc.prems(2) False obtain cs found lb1 ub1 where
        cs: "combine_term_with_existing rules st t k True = Inr cs" and
        b: "bounds_by_constraints ?rec ((t, k) # tail) prec cs (NInf, PInf) = Inr (found, lb1, ub1)" and
        fin: "(if found then Inr (lb1, ub1) else bounds_by_max_min ?rec t k tail (lb1, ub1)) = Inr (lb, ub)"
        unfolding Cons p bounds_for_sorted_terms.simps if_not_P [OF False] Let_def rbind_eq_Inr by fastforce
      have "term_ok F t" using terms_wf_Cons [OF e] by simp
      then have "\<forall>c \<in> set cs. combinable c" using combine_term_combinable [OF assms(1) _ cs] by blast
      then have "within lb1 (eden I ((t, k) # tail)) ub1"
        using bounds_by_constraints_within [OF rec e _ _ b] by simp
      then show ?thesis using fin bounds_by_max_min_within [OF rec e] unfolding Cons p by (simp split: if_splits)
    qed
  qed
qed simp

lemma to_constant_den:
  assumes "size_wf F d" "to_constant d = Some k"
  shows "den I d = k"
proof (cases d)
  case (Sym e)
  then obtain ts where e: "e = ([], k) # ts" using assms(2) by (cases e) (auto split: if_splits)
  have "ts = []"
  proof (rule ccontr)
    assume "ts \<noteq> []"
    then obtain q where q: "q \<in> set ts" by (cases ts) auto
    then have "term_cmp [] (fst q) > 0" "term_ok F (fst q)"
      using assms(1) Sym e by (auto simp: terms_wf_def strictly_descending_def split_def)
    then show False using term_one_least [of F "fst q"] by simp
  qed
  with e Sym show ?thesis by simp
qed (use assms(2) in simp)

lemma bounds_sat:
  assumes "sat st" "size_wf F d" "bounds rules depth st d prec = Inr ((lb, ub), st')"
  shows "sat st'" "within lb (den I d) ub"
proof -
  have "sat st' \<and> within lb (den I d) ub"
  proof (cases "to_constant d")
    case (Some k)
    then have "den I d = k" using to_constant_den assms(2) by blast
    then show ?thesis using assms(1,3) Some by (auto simp: bounds_def within_def)
  next
    case None
    then obtain e where d: "d = Sym e" by (cases d) simp_all
    let ?compute = "rbind (bounds_for_sorted_terms rules st depth prec e) (\<lambda>(lb, ub).
      Inr ((lb, ub), st\<lparr>bounds_cache := dict_set (bounds_cache st) e (lb, ub, prec)\<rparr>))"
    have c: "sat st' \<and> within lb (eden I e) ub" if "?compute = Inr ((lb, ub), st')"
    proof -
      from that have b: "bounds_for_sorted_terms rules st depth prec e = Inr (lb, ub)"
        "st' = st\<lparr>bounds_cache := dict_set (bounds_cache st) e (lb, ub, prec)\<rparr>" by (auto simp: res_simps)
      have "within lb (eden I e) ub" using bounds_for_sorted_terms_within [OF assms(1) _ b(1)] assms(2) d by simp
      then show ?thesis unfolding b(2) using sat_set_cache [OF assms(1)] by blast
    qed
    show ?thesis
    proof (cases "map_of (bounds_cache st) e")
      case None
      with \<open>to_constant d = None\<close> d assms(3) c show ?thesis by (simp add: bounds_def Let_def)
    next
      case (Some b)
      obtain l u pr where b: "b = (l, u, pr)" by (cases b) auto
      have "(e, l, u, pr) \<in> set (bounds_cache st)" using Some b map_of_SomeD by fastforce
      then have "within l (eden I e) u" using assms(1,2) d by (auto simp: sat_def)
      with \<open>to_constant d = None\<close> d assms(1,3) c Some b show ?thesis
        by (auto simp: bounds_def Let_def split: if_splits)
    qed
  qed
  then show "sat st'" "within lb (den I d) ub" by auto
qed

subsection \<open>Adding true inequalities\<close>

lemma add_geq_sat:
  assumes "sat st" "size_wf F d1" "size_wf F d2" "den I d1 \<ge> den I d2" "add_geq rules (ex d1) (ex d2) st = Inr st'"
  shows "sat st'"
  by (rule combine_and_add_sat [OF assms(1,5)]) (use assms(2-4) in auto)

lemma add_geq_lower:
  assumes "sat st" "size_wf F d" "k \<noteq> NaN \<Longrightarrow> num_le k (Fin (den I d))" "add_geq rules (ex d) (num k) st = Inr st'"
  shows "sat st'"
  by (rule combine_and_add_sat [OF assms(1,4)]) (use assms(2,3) in \<open>cases k; auto\<close>)

lemma add_geq_upper:
  assumes "sat st" "size_wf F d" "k \<noteq> NaN \<Longrightarrow> num_le (Fin (den I d)) k" "add_geq rules (num k) (ex d) st = Inr st'"
  shows "sat st'"
  by (rule combine_and_add_sat [OF assms(1,4)]) (use assms(2,3) in \<open>cases k; auto\<close>)

lemma within_lower_upper: "within l x u \<Longrightarrow> num_le l (Fin x)" "within l x u \<Longrightarrow> num_le (Fin x) u"
  by (simp_all add: within_def)

lemma max_constraints_sat:
  assumes "sat st" "size_wf F t_e" "terms_wf F op1" "terms_wf F op2" "den I t_e = max (eden I op1) (eden I op2)"
    and "max_constraints rules depth t_e op1 op2 st = Inr st'"
  shows "sat st'"
proof -
  from assms(6) obtain l1 u1 s1 l2 u2 s2 s3 s4 s5 where
    b: "bounds rules depth st (Sym op1) BEST = Inr ((l1, u1), s1)"
      "bounds rules depth s1 (Sym op2) BEST = Inr ((l2, u2), s2)" and
    c: "add_geq rules (ex t_e) (num (py_max l1 l2)) s2 = Inr s3"
      "add_geq rules (num (py_max u1 u2)) (ex t_e) s3 = Inr s4"
      "add_geq rules (ex t_e) (ex (Sym op1)) s4 = Inr s5"
      "add_geq rules (ex t_e) (ex (Sym op2)) s5 = Inr st'"
    unfolding max_constraints_def rbind_triple unfolding rbind_eq_Inr by blast
  note b1 = bounds_sat [OF assms(1) _ b(1)] and b2 = bounds_sat [OF _ _ b(2)]
  have s2: "sat s2" and w: "within l1 (eden I op1) u1" "within l2 (eden I op2) u2"
    using b1 b2 assms(3,4) by simp_all
  note m = within_max [OF w, folded assms(5)]
  have "sat s3" using add_geq_lower [OF s2 assms(2) _ c(1)] within_lower_upper [OF m] by simp
  then have "sat s4" using add_geq_upper [OF _ assms(2) _ c(2)] within_lower_upper [OF m] by simp
  then have "sat s5" using add_geq_sat [OF _ assms(2) _ _ c(3)] assms(3,5) by simp
  then show ?thesis using add_geq_sat [OF _ assms(2) _ _ c(4)] assms(4,5) by simp
qed

lemma min_constraints_sat:
  assumes "sat st" "size_wf F t_e" "terms_wf F op1" "terms_wf F op2" "den I t_e = min (eden I op1) (eden I op2)"
    and "min_constraints rules depth t_e op1 op2 st = Inr st'"
  shows "sat st'"
proof -
  from assms(6) obtain l1 u1 s1 l2 u2 s2 s3 s4 s5 where
    b: "bounds rules depth st (Sym op1) BEST = Inr ((l1, u1), s1)"
      "bounds rules depth s1 (Sym op2) BEST = Inr ((l2, u2), s2)" and
    c: "add_geq rules (ex t_e) (num (py_min l1 l2)) s2 = Inr s3"
      "add_geq rules (num (py_min u1 u2)) (ex t_e) s3 = Inr s4"
      "add_geq rules (ex (Sym op1)) (ex t_e) s4 = Inr s5"
      "add_geq rules (ex (Sym op2)) (ex t_e) s5 = Inr st'"
    unfolding min_constraints_def rbind_triple unfolding rbind_eq_Inr by blast
  note b1 = bounds_sat [OF assms(1) _ b(1)] and b2 = bounds_sat [OF _ _ b(2)]
  have s2: "sat s2" and w: "within l1 (eden I op1) u1" "within l2 (eden I op2) u2"
    using b1 b2 assms(3,4) by simp_all
  note m = within_min [OF w, folded assms(5)]
  have "sat s3" using add_geq_lower [OF s2 assms(2) _ c(1)] within_lower_upper [OF m] by simp
  then have "sat s4" using add_geq_upper [OF _ assms(2) _ c(2)] within_lower_upper [OF m] by simp
  then have "sat s5" using add_geq_sat [OF _ _ assms(2) _ c(3)] assms(3,5) by simp
  then show ?thesis using add_geq_sat [OF _ _ assms(2) _ c(4)] assms(4,5) by simp
qed

lemma mod_constraints_sat:
  assumes "sat st" "size_wf F t_e" "terms_wf F op2" "eden I op2 \<noteq> 0 \<Longrightarrow> den I t_e = a mod eden I op2"
    and "mod_constraints rules depth t_e op2 st = Inr st'"
  shows "sat st'"
proof -
  from assms(5) obtain l u s1 where
    b: "bounds rules depth st (Sym op2) FOR_GEQ0_OR_LT0 = Inr ((l, u), s1)" and
    rest: "(if num_less (Fin 0) l
     then
       rbind (add_geq rules (ex t_e) (num (Fin 0)) s1) (\<lambda>st.
       rbind (dim_sub rules (Sym op2) (Const 1)) (\<lambda>top.
       rbind (add_geq rules (ex top) (ex t_e) st) (\<lambda>st.
       add_geq rules (num (num_add u (-1))) (ex t_e) st)))
     else if num_less u (Fin 0)
     then
       rbind (dim_add rules (Sym op2) (Const 1)) (\<lambda>bottom.
       rbind (add_geq rules (ex t_e) (ex bottom) s1) (\<lambda>st.
       rbind (add_geq rules (ex t_e) (num (num_add l 1)) st) (\<lambda>st.
       add_geq rules (num (Fin 0)) (ex t_e) st)))
     else Inr s1) = Inr st'"
    unfolding mod_constraints_def rbind_triple by blast
  have s1: "sat s1" "within l (eden I op2) u" using bounds_sat [OF assms(1) _ b] assms(3) by simp_all
  consider "num_less (Fin 0) l" | "\<not> num_less (Fin 0) l" "num_less u (Fin 0)"
    | "\<not> num_less (Fin 0) l" "\<not> num_less u (Fin 0)" by blast
  then show ?thesis
  proof cases
    case 1
    then have pos: "eden I op2 > 0" using s1(2) by (cases l) (auto simp: within_def)
    then have v: "den I t_e \<ge> 0" "den I t_e \<le> eden I op2 - 1" using assms(4) by simp_all
    from rest [unfolded if_P [OF 1] rbind_eq_Inr] obtain s2 top s3 where
      c: "add_geq rules (ex t_e) (num (Fin 0)) s1 = Inr s2" "dim_sub rules (Sym op2) (Const 1) = Inr top"
        "add_geq rules (ex top) (ex t_e) s2 = Inr s3" "add_geq rules (num (num_add u (-1))) (ex t_e) s3 = Inr st'" by blast
    have t: "size_wf F top" "den I top = eden I op2 - 1" using dim_sub_wf [OF _ _ c(2)] assms(3) by simp_all
    have "sat s2" using add_geq_lower [OF s1(1) assms(2) _ c(1)] v by simp
    then have "sat s3" using add_geq_sat [OF _ t(1) assms(2) _ c(3)] t v by simp
    moreover have "num_le (Fin (den I t_e)) (num_add u (-1))" using s1(2) v by (cases u) (auto simp: within_def)
    ultimately show ?thesis using add_geq_upper [OF _ assms(2) _ c(4)] by simp
  next
    case 2
    then have neg: "eden I op2 < 0" using s1(2) by (cases u) (auto simp: within_def)
    then have v: "den I t_e \<le> 0" "den I t_e \<ge> eden I op2 + 1"
      using assms(4) neg neg_mod_bound [OF neg, of a] neg_mod_sign [OF neg, of a] by linarith+
    from rest [unfolded if_not_P [OF 2(1)] if_P [OF 2(2)] rbind_eq_Inr] obtain s2 bot s3 where
      c: "dim_add rules (Sym op2) (Const 1) = Inr bot" "add_geq rules (ex t_e) (ex bot) s1 = Inr s2"
        "add_geq rules (ex t_e) (num (num_add l 1)) s2 = Inr s3" "add_geq rules (num (Fin 0)) (ex t_e) s3 = Inr st'" by blast
    have t: "size_wf F bot" "den I bot = eden I op2 + 1" using dim_add_wf [OF _ _ c(1)] assms(3) by simp_all
    have "sat s2" using add_geq_sat [OF s1(1) assms(2) t(1) _ c(2)] t v by simp
    moreover have "num_le (num_add l 1) (Fin (den I t_e))" using s1(2) v by (cases l) (auto simp: within_def)
    ultimately have "sat s3" using add_geq_lower [OF _ assms(2) _ c(3)] by simp
    then show ?thesis using add_geq_upper [OF _ assms(2) _ c(4)] v by simp
  next
    case 3
    then show ?thesis using rest s1 by simp
  qed
qed

subsection \<open>The implicit constraints of a term\<close>

lemma odd_add_coeffs:
  assumes "odd_expr cs" "odd_expr us"
  shows "odd_expr (fold (\<lambda>(t1, k1) cs. add_coeff cs t1 k1) us cs)"
  using assms
proof (induction us arbitrary: cs)
  case (Cons u us)
  obtain t k where u: "u = (t, k)" by (cases u)
  have "odd_expr (add_coeff cs t k)"
    using Cons.prems set_dict_set_subset [of cs t] unfolding u add_coeff_def odd_expr_def
    by (cases "k = 0") (simp, fastforce)
  then show ?case using Cons.IH Cons.prems(2) u by (simp add: odd_expr_def)
qed simp

lemma odd_sorted_terms: "odd_expr cs \<Longrightarrow> odd_expr (coeff_to_sorted_terms cs)"
proof -
  have "set (foldr insert_term ps []) = set ps" for ps :: dim_expr
    by (induction ps) (simp_all add: set_insert_term)
  then show "odd_expr cs \<Longrightarrow> odd_expr (coeff_to_sorted_terms cs)"
    by (auto simp: odd_expr_def coeff_to_sorted_terms_def)
qed

lemma from_single_factor_odd:
  assumes "from_term rules [(f, 1)] 1 = Inr (Sym e)"
  shows "odd_expr e"
proof -
  have t: "odd_expr [([(f, 1)], k)]" for k by (simp add: odd_expr_def odd_term_def)
  from assms obtain ts where ts: "normalize_first rules [([(f, 1)], 1)] [([(f, 1)], 1)] = Inr ts" "to_dim_size ts = Sym e"
    by (auto simp: from_term_def normalize_sorted_terms_def res_simps)
  then have "e = ts" by (cases ts rule: to_dim_size.cases) (auto split: if_splits)
  from ts(1) obtain us where us: "normalize_term rules [(f, 1)] 1 = Inr us"
    "(if us = [] then Inr [([(f, 1)], 1)]
      else Inr (coeff_to_sorted_terms (fold (\<lambda>(t1, k1) cs. add_coeff cs t1 k1) us (dict_of [([(f, 1)], 1)])))) = Inr ts"
    by (auto simp: res_simps split: if_splits)
  have "odd_expr us"
  proof (cases "map_of rules [(f, 1)]")
    case None
    with us(1) show ?thesis by (auto simp: normalize_term_def odd_expr_def split: if_splits)
  next
    case (Some r)
    obtain after k where r: "r = (after, k)" by (cases r)
    with Some have "([(f, 1)], after, k) \<in> set rules" using map_of_SomeD by fastforce
    from rule_odd [OF this] t [of "-1"] have "odd_expr (([(f, 1)], - 1) # map (\<lambda>(t2, c2). (t2, c2 * (1 div k))) after)"
      by (auto simp: odd_expr_def)
    with us(1) Some r show ?thesis
      by (auto simp: normalize_term_def Let_def res_simps odd_expr_def split: if_splits)
  qed
  moreover have "odd_expr (dict_of [([(f, 1)], 1)])" using t by (simp add: dict_of_def)
  ultimately have "odd_expr ts" using us(2) t odd_add_coeffs odd_sorted_terms by (metis Inr_inject)
  with \<open>e = ts\<close> show ?thesis by simp
qed

definition keeps_sat :: "(dim_term \<Rightarrow> decision \<Rightarrow> decision res) \<Rightarrow> bool" where
  "keeps_sat rec \<longleftrightarrow>
     (\<forall>t st st'. sat st \<longrightarrow> term_ok F t \<longrightarrow> odd_term t \<longrightarrow> rec t st = Inr st' \<longrightarrow> sat st')"

lemma add_implicit_expr_sat:
  assumes "keeps_sat rec" "sat st" "terms_wf F e" "odd_expr e" "add_implicit_expr rec e st = Inr st'"
  shows "sat st'"
  using assms(5) unfolding add_implicit_expr_def
proof (rule rfold_invariant [where P = sat])
  show "sat st" by (rule assms(2))
  fix p s s' assume p: "p \<in> set e" and s: "sat s" and step: "(case p of (t, _) \<Rightarrow> \<lambda>st. if t = [] then Inr st else rec t st) s = Inr s'"
  obtain t c where pt: "p = (t, c)" by (cases p)
  have "term_ok F t" "odd_term t" using p pt assms(3,4) by (auto simp: terms_wf_def odd_expr_def)
  with s step pt assms(1) show "sat s'" by (auto simp: keeps_sat_def split: if_splits)
qed

lemma add_implicit_exprs_sat:
  assumes "keeps_sat rec" "sat st" "\<forall>e \<in> set es. terms_wf F e \<and> odd_expr e" "rfold (add_implicit_expr rec) es st = Inr st'"
  shows "sat st'"
  by (rule rfold_invariant [where P = sat, OF assms(4,2)]) (use add_implicit_expr_sat [OF assms(1)] assms(3) in blast)

lemma expr_size_pos: "terms_wf F e \<Longrightarrow> expr_size e \<ge> 0"
proof (induction e)
  case (Cons p e)
  then have "terms_wf F e" "term_size (fst p) \<ge> 0"
    using terms_wf_Cons [of "fst p" "snd p" e] term_size_nonneg by auto
  with Cons.IH show ?case by (cases p) (simp add: expr_size_def)
qed (simp add: expr_size_def)

lemma operation_term_ok:
  assumes "Oper oper [op1, op2] \<in> F"
  shows "term_ok F [(Oper oper [op1, op2], 1)]"
proof -
  have "expr_size op1 \<ge> 0" "expr_size op2 \<ge> 0" using operand_wf [OF assms] expr_size_pos by auto
  then show ?thesis using assms
    by (simp add: term_ok_def strictly_descending_def factor_size_Oper del: factor_size.simps)
qed

lemma floordiv_constraints_sat:
  assumes "keeps_sat rec" "sat st" "size_wf F t_e" "Oper OpFLOORDIV [op1, op2] \<in> F"
    and "den I t_e = I (Oper OpFLOORDIV [op1, op2])"
    and "floordiv_constraints rules depth rec t_e op1 op2 st = Inr st'"
  shows "sat st'"
proof -
  have w: "terms_wf F op1" "terms_wf F op2" using operand_wf [OF assms(4)] by auto
  from assms(6) obtain l1 u1 s1 l2 u2 s2 m_l m_u s3 s4 where
    b: "bounds rules depth st (Sym op1) BEST = Inr ((l1, u1), s1)"
      "bounds rules depth s1 (Sym op2) BEST = Inr ((l2, u2), s2)" and
    fl: "floordiv_interval (l1, u1) (l2, u2) = Inr (m_l, m_u)" and
    c: "add_geq rules (ex t_e) (num m_l) s2 = Inr s3" "add_geq rules (num m_u) (ex t_e) s3 = Inr s4" and
    rest: "(if num_nonneg l2 then
       rbind (if num_nonneg l1 then add_geq rules (ex t_e) (num (Fin 0)) s4 else Inr s4) (\<lambda>st.
       rbind (from_operation rules OpMOD [Sym op1, Sym op2]) (\<lambda>mod_e.
       rbind (case mod_e of Sym me \<Rightarrow> add_implicit_expr rec me st | Const _ \<Rightarrow> Inr st) (\<lambda>st.
       rbind (dim_mul rules (Sym op2) t_e) (\<lambda>p.
       rbind (dim_add rules p mod_e) (\<lambda>combined.
       combine_and_add_constraint rules st CmpEQ (ex (Sym op1)) (ex combined))))))
     else Inr s4) = Inr st'"
    unfolding floordiv_constraints_def rbind_triple unfolding rbind_pair unfolding rbind_eq_Inr by blast
  note b1 = bounds_sat [OF assms(2) _ b(1)] and b2 = bounds_sat [OF _ _ b(2)]
  have s2: "sat s2" and wi: "within l1 (eden I op1) u1" "within l2 (eden I op2) u2" using b1 b2 w by simp_all
  note q = floordiv_interval_within [OF wi fl]
  have v: "den I t_e = eden I op1 div eden I op2" using op_floordiv [OF assms(4) q(1)] assms(5) by simp
  have "sat s3" using add_geq_lower [OF s2 assms(3) _ c(1)] within_lower_upper [OF q(2)] v by simp
  then have s4: "sat s4" using add_geq_upper [OF _ assms(3) _ c(2)] within_lower_upper [OF q(2)] v by simp
  show ?thesis
  proof (cases "num_nonneg l2")
    case False
    then show ?thesis using rest s4 by simp
  next
    case True
    then have pos: "eden I op2 > 0" using wi(2) q(1) by (cases l2) (auto simp: within_def)
    from rest [unfolded if_P [OF True] rbind_eq_Inr] obtain s5 mod_e s6 p combined where
      d: "(if num_nonneg l1 then add_geq rules (ex t_e) (num (Fin 0)) s4 else Inr s4) = Inr s5"
        "from_operation rules OpMOD [Sym op1, Sym op2] = Inr mod_e"
        "(case mod_e of Sym me \<Rightarrow> add_implicit_expr rec me s5 | Const _ \<Rightarrow> Inr s5) = Inr s6"
        "dim_mul rules (Sym op2) t_e = Inr p" "dim_add rules p mod_e = Inr combined"
        "combine_and_add_constraint rules s6 CmpEQ (ex (Sym op1)) (ex combined) = Inr st'" by blast
    have s5: "sat s5"
    proof (cases "num_nonneg l1")
      case True
      then have "eden I op1 \<ge> 0" using wi(1) by (cases l1) (auto simp: within_def)
      then have "den I t_e \<ge> 0" using v pos by (simp add: pos_imp_zdiv_nonneg_iff)
      then show ?thesis using d(1) True add_geq_lower [OF s4 assms(3), of "Fin 0" s5] by simp
    qed (use d(1) s4 in simp)
    have mF: "Oper OpMOD [op1, op2] \<in> F" using mod_total [OF assms(4) q(1)] .
    have m: "size_ok F mod_e" "den I mod_e = eden I op1 mod eden I op2"
      using from_term_wf [OF operation_term_ok [OF mF], of 1 mod_e] d(2) op_mod [OF mF q(1)]
      by (simp_all add: from_operation_def)
    have s6: "sat s6"
    proof (cases mod_e)
      case (Sym me)
      then have "odd_expr me" using d(2) from_single_factor_odd by (simp add: from_operation_def)
      moreover have "terms_wf F me" using size_ok_wf [OF m(1)] Sym by simp
      ultimately show ?thesis using add_implicit_expr_sat [OF assms(1) s5] d(3) Sym by simp
    qed (use d(3) s5 in simp)
    have pv: "size_wf F p" "den I p = eden I op2 * den I t_e" using dim_mul_wf [OF _ assms(3) d(4)] w by simp_all
    have cv: "size_wf F combined" "den I combined = eden I op1"
      using dim_add_wf [OF pv(1) size_ok_wf [OF m(1)] d(5)] pv(2) m(2) v by simp_all
    show ?thesis by (rule combine_and_add_sat [OF s6 d(6)]) (use w cv in auto)
  qed
qed

lemma factor_intervals_sat:
  assumes "keeps_sat rec" "sat st" "\<forall>(f, n) \<in> set t. n > 0 \<and> odd n \<and> f \<in> F \<and> factor_size f > 0"
    and "factor_intervals rules depth rec t st = Inr (bs, st')"
  shows "sat st' \<and> list_all2 (\<lambda>b x. within (fst b) x (snd b)) bs (map (\<lambda>(f, n). I f ^ nat n) t)"
  using assms(2-4)
proof (induction t arbitrary: st bs)
  case (Cons q t)
  obtain f n where q: "q = (f, n)" by (cases q)
  with Cons.prems(2) have n: "n > 0" "odd n" and F: "f \<in> F" "factor_size f > 0" by auto
  then have tok: "term_ok F [(f, 1)]" "odd_term [(f, 1)]"
    by (simp_all add: term_ok_def strictly_descending_def odd_term_def)
  from Cons.prems(3) obtain f_e s1 l u s2 bs' where
    r: "from_term rules [(f, 1)] 1 = Inr f_e" "rec [(f, 1)] st = Inr s1"
      "bounds rules depth s1 f_e BEST = Inr ((l, u), s2)" "factor_intervals rules depth rec t s2 = Inr (bs', st')"
      "bs = (num_pow l (nat n), num_pow u (nat n)) # bs'"
    unfolding q by (auto simp: res_simps)
  have f_e: "size_wf F f_e" "den I f_e = I f" using from_term_wf [OF tok(1) r(1)] size_ok_wf by simp_all
  have s1: "sat s1" using assms(1) Cons.prems(1) tok r(2) unfolding keeps_sat_def by blast
  note b = bounds_sat [OF s1 f_e(1) r(3)]
  have "odd (nat n)" using n by (simp add: even_nat_iff)
  from num_pow_within [OF b(2) this] Cons.IH [OF b(1) _ r(4)] Cons.prems(2) show ?case
    unfolding r(5) q f_e(2) by simp
qed simp

lemma add_implicit_term_sat: "keeps_sat (add_implicit_term rules depth)"
proof (induction depth)
  case 0
  then show ?case by (simp add: keeps_sat_def)
next
  case (Suc depth)
  let ?rec = "add_implicit_term rules depth"
  have "sat st'" if st: "sat st" and t: "term_ok F t" "odd_term t" and r: "add_implicit_term rules (Suc depth) t st = Inr st'"
    for t st st'
  proof (cases "t \<in> set (processed st)")
    case True
    then show ?thesis using st r by simp
  next
    case False
    let ?s = "st\<lparr>processed := t # processed st\<rparr>"
    have s: "sat ?s" using st by (simp add: sat_processed)
    from r obtain t_e f where t_e: "from_term rules t 1 = Inr t_e" and f: "term_to_factor t = Inr f" and
      rest: "(case f of
          None \<Rightarrow>
            rbind (factor_intervals rules depth ?rec t ?s) (\<lambda>(bs, st).
            rbind (product_interval bs) (\<lambda>(m_l, m_u).
            rbind (add_geq rules (ex t_e) (num m_l) st) (\<lambda>st.
            add_geq rules (num m_u) (ex t_e) st)))
        | Some (Var v) \<Rightarrow> add_geq rules (ex t_e) (num (Fin 1)) ?s
        | Some (Oper oper operands) \<Rightarrow>
            rbind (rfold (add_implicit_expr ?rec) operands ?s) (\<lambda>st.
            case operands of
              [op1, op2] \<Rightarrow>
                (case oper of
                   OpMOD \<Rightarrow> mod_constraints rules depth t_e op2 st
                 | OpFLOORDIV \<Rightarrow> floordiv_constraints rules depth ?rec t_e op1 op2 st
                 | OpMAX \<Rightarrow> max_constraints rules depth t_e op1 op2 st
                 | OpMIN \<Rightarrow> min_constraints rules depth t_e op1 op2 st)
            | _ \<Rightarrow> Inl (ValueError ''unpack''))) = Inr st'"
      unfolding add_implicit_term.simps if_not_P [OF False] Let_def rbind_eq_Inr by blast
    have w: "size_wf F t_e" "den I t_e = tden I t" using from_term_wf [OF t(1) t_e] size_ok_wf by simp_all
    show ?thesis
    proof (cases f)
      case None
      with rest obtain bs s1 m_l m_u s2 where
        p: "factor_intervals rules depth ?rec t ?s = Inr (bs, s1)" "product_interval bs = Inr (m_l, m_u)"
          "add_geq rules (ex t_e) (num m_l) s1 = Inr s2" "add_geq rules (num m_u) (ex t_e) s2 = Inr st'"
        unfolding None option.case rbind_pair unfolding rbind_eq_Inr by blast
      have "\<forall>(f, n) \<in> set t. n > 0 \<and> odd n \<and> f \<in> F \<and> factor_size f > 0"
        using t by (auto simp: term_ok_def odd_term_def)
      from factor_intervals_sat [OF Suc.IH s this p(1)] have
        s1: "sat s1" and "list_all2 (\<lambda>b x. within (fst b) x (snd b)) bs (map (\<lambda>(f, n). I f ^ nat n) t)" by auto
      note pi = product_interval_within [OF this(2) p(2), folded tden_def]
      have "sat s2" using add_geq_lower [OF s1 w(1) _ p(3)] pi(1) w(2) by simp
      then show ?thesis using add_geq_upper [OF _ w(1) _ p(4)] pi(2) w(2) by simp
    next
      case (Some g)
      have tf: "t = [(g, 1)]" using term_to_factor_Some f Some by blast
      have gF: "g \<in> F" and gv: "den I t_e = I g" using t(1) w(2) unfolding tf by (auto simp: term_ok_def)
      show ?thesis
      proof (cases g)
        case (Var v)
        then show ?thesis using rest Some add_geq_lower [OF s w(1), of "Fin 1" st'] var_pos [of v] gF gv by simp
      next
        case (Oper oper operands)
        with rest Some obtain s1 where s1: "rfold (add_implicit_expr ?rec) operands ?s = Inr s1" and
          op: "(case operands of
              [op1, op2] \<Rightarrow>
                (case oper of
                   OpMOD \<Rightarrow> mod_constraints rules depth t_e op2 s1
                 | OpFLOORDIV \<Rightarrow> floordiv_constraints rules depth ?rec t_e op1 op2 s1
                 | OpMAX \<Rightarrow> max_constraints rules depth t_e op1 op2 s1
                 | OpMIN \<Rightarrow> min_constraints rules depth t_e op1 op2 s1)
            | _ \<Rightarrow> Inl (ValueError ''unpack'')) = Inr st'"
          unfolding Some Oper option.case dim_factor.case rbind_eq_Inr by blast
        obtain op1 op2 where ops: "operands = [op1, op2]" using op by (auto split: list.splits)
        note F = gF [unfolded Oper ops] and v = gv [unfolded Oper ops] and op = op [unfolded ops, simplified]
        have ow: "terms_wf F op1" "terms_wf F op2" using operand_wf [OF F] by auto
        have s1': "sat s1" using add_implicit_exprs_sat [OF Suc.IH s _ s1] operand_wf [OF gF [unfolded Oper]] by blast
        show ?thesis
        proof (cases oper)
          case OpFLOORDIV
          then show ?thesis using op v F floordiv_constraints_sat [OF Suc.IH s1' w(1)] by simp
        next
          case OpMOD
          then show ?thesis using op v F op_mod mod_constraints_sat [OF s1' w(1) ow(2), of "eden I op1"] by simp
        next
          case OpMAX
          then show ?thesis using op v F op_max max_constraints_sat [OF s1' w(1) ow] by simp
        next
          case OpMIN
          then show ?thesis using op v F op_min min_constraints_sat [OF s1' w(1) ow] by simp
        qed
      qed
    qed
  qed
  then show ?case unfolding keeps_sat_def by blast
qed

end

end
