(* ===== verification/DimScope.thy ===== *)
theory DimScope
  imports DimImplicit
begin

text \<open>
  From the state of the procedure to its users: the initial state of a scope, \<^verbatim>\<open>bounds_decision\<close>
  with its cache, the comparisons and \<^verbatim>\<open>max\<close>/\<^verbatim>\<open>min\<close>; then the interpretation of \<open>dim_semantics\<close> on
  the evaluation of expressions in an environment.
\<close>

fun odd_size :: "dim_size \<Rightarrow> bool" where
  "odd_size (Const k) = True"
| "odd_size (Sym e) = odd_expr e"

context dim_semantics
begin

definition scope_sound :: "symbolic_scope \<Rightarrow> bool" where
  "scope_sound sc \<longleftrightarrow> normalization_rules sc = rules \<and>
     (\<forall>(cmp, d) \<in> set (explicit_constraints sc). size_wf F d \<and> odd_size d \<and> holds cmp (den I d))"

definition cached_within :: "cache \<Rightarrow> bool" where
  "cached_within cache \<longleftrightarrow> (\<forall>(e, lb, ub, p) \<in> set cache. terms_wf F e \<longrightarrow> within lb (eden I e) ub)"

lemma sat_with_cache: "sat st \<Longrightarrow> cached_within cache \<Longrightarrow> sat (st\<lparr>bounds_cache := cache\<rparr>)"
  by (simp add: sat_def cached_within_def)

lemma sat_cached: "sat st \<Longrightarrow> cached_within (bounds_cache st)"
  by (simp add: sat_def cached_within_def)

lemma cached_within_set:
  "cached_within cache \<Longrightarrow> within lb (eden I e) ub \<Longrightarrow> cached_within (dict_set cache e (lb, ub, p))"
  using set_dict_set_subset [of cache e "(lb, ub, p)"] by (fastforce simp: cached_within_def)

lemma initialize_sat:
  assumes "scope_sound sc" "initialize depth sc = Inr st"
  shows "sat st"
  using assms(2) unfolding initialize_def
proof (rule rfold_invariant [where P = sat])
  show "sat empty_decision" by (simp add: sat_def empty_decision_def)
  fix x s s' assume x: "x \<in> set (explicit_constraints sc)" and s: "sat s"
    and step: "(case x of (cmp, diff) \<Rightarrow> \<lambda>st.
       rbind (case diff of
                Sym e \<Rightarrow> add_implicit_expr (add_implicit_term (normalization_rules sc) depth) e st
              | Const _ \<Rightarrow> Inr st) (\<lambda>st.
       rbind (combine_and_add_constraint (normalization_rules sc) st cmp (ex diff) (num (Fin 0))) (\<lambda>st.
       Inr (st\<lparr>bounds_cache := []\<rparr>)))) s = Inr s'"
  obtain cmp d where xd: "x = (cmp, d)" by (cases x)
  have R: "normalization_rules sc = rules" and d: "size_wf F d" "odd_size d" "holds cmp (den I d)"
    using assms(1) x xd by (auto simp: scope_sound_def)
  from step [unfolded xd R prod.case rbind_eq_Inr] obtain s1 s2 where
    s1: "(case d of Sym e \<Rightarrow> add_implicit_expr (add_implicit_term rules depth) e s | Const _ \<Rightarrow> Inr s) = Inr s1" and
    s2: "combine_and_add_constraint rules s1 cmp (ex d) (num (Fin 0)) = Inr s2" "s' = s2\<lparr>bounds_cache := []\<rparr>" by blast
  have "sat s1"
  proof (cases d)
    case (Sym e)
    then show ?thesis using s1 d add_implicit_expr_sat [OF add_implicit_term_sat s] by simp
  qed (use s1 s in simp)
  then have "sat s2" by (rule combine_and_add_sat [OF _ s2(1)]) (use d in auto)
  then show "sat s'" unfolding s2(2) by (rule sat_with_cache) (simp add: cached_within_def)
qed

theorem bounds_decision_within:
  assumes "scope_sound sc" "cached_within cache" "size_wf F d" "odd_size d"
    and "bounds_decision depth sc cache d prec = Inr ((lb, ub), cache')"
  shows "within lb (den I d) ub" "cached_within cache'"
proof -
  have R: "normalization_rules sc = rules" using assms(1) by (simp add: scope_sound_def)
  have "within lb (den I d) ub \<and> cached_within cache'"
  proof (cases d)
    case (Const k)
    then show ?thesis using assms(2,5) by (auto simp: bounds_decision_def)
  next
    case (Sym e)
    let ?s = "\<lambda>st. st\<lparr>bounds_cache := cache\<rparr>"
    let ?compute = "\<lambda>st. rbind (add_implicit_expr (add_implicit_term rules depth) e (?s st)) (\<lambda>st.
      rbind (bounds_for_sorted_terms rules st depth prec e) (\<lambda>(lb, ub).
      Inr ((lb, ub), dict_set (bounds_cache st) e (lb, ub, prec))))"
    from assms(5) Sym obtain st where st: "initialize depth sc = Inr st" and
      rest: "(case to_constant d of
            Some k \<Rightarrow> Inr ((Fin k, Fin k), cache)
          | None \<Rightarrow>
              (case map_of cache e of
                 Some (lb, ub, prev_prec) \<Rightarrow>
                   if bounds_are_sufficient prec lb ub \<or> precision_value prev_prec \<ge> precision_value prec
                   then Inr ((lb, ub), cache)
                   else ?compute st
               | None \<Rightarrow> ?compute st)) = Inr ((lb, ub), cache')"
      unfolding bounds_decision_def R Let_def by (auto simp: rbind_eq_Inr)
    have s: "sat (?s st)" using sat_with_cache [OF initialize_sat [OF assms(1) st] assms(2)] .
    have c: "within lb (eden I e) ub \<and> cached_within cache'" if comp: "?compute st = Inr ((lb, ub), cache')"
    proof -
      from comp obtain s1 where s1: "add_implicit_expr (add_implicit_term rules depth) e (?s st) = Inr s1"
        "bounds_for_sorted_terms rules s1 depth prec e = Inr (lb, ub)"
        "cache' = dict_set (bounds_cache s1) e (lb, ub, prec)" by (auto simp: res_simps)
      have "sat s1" using add_implicit_expr_sat [OF add_implicit_term_sat s _ _ s1(1)] assms(3,4) Sym by simp
      moreover from this have "within lb (eden I e) ub"
        using bounds_for_sorted_terms_within [OF _ _ s1(2)] assms(3) Sym by simp
      ultimately show ?thesis unfolding s1(3) using cached_within_set [OF sat_cached] by blast
    qed
    show ?thesis
    proof (cases "to_constant d")
      case (Some k)
      then show ?thesis using rest to_constant_den [OF assms(3) Some] assms(2) by (auto simp: within_def)
    next
      case None
      show ?thesis
      proof (cases "map_of cache e")
        case None
        then show ?thesis using rest c Sym \<open>to_constant d = None\<close> by simp
      next
        case (Some b)
        obtain l u pr where b: "b = (l, u, pr)" by (cases b) auto
        then have "(e, l, u, pr) \<in> set cache" using Some map_of_SomeD by fastforce
        then have "within l (eden I e) u" using assms(2,3) Sym by (auto simp: cached_within_def)
        then show ?thesis using rest c Sym \<open>to_constant d = None\<close> Some b assms(2) by (auto split: if_splits)
      qed
    qed
  qed
  then show "within lb (den I d) ub" "cached_within cache'" by auto
qed

theorem geq_decision_sound:
  assumes "scope_sound sc" "cached_within cache" "size_wf F a" "size_wf F b"
    and "\<And>d. dim_sub rules a b = Inr d \<Longrightarrow> odd_size d"
    and "geq_decision depth sc cache a b = Inr (r, cache')"
  shows "r \<longleftrightarrow> den I a \<ge> den I b" "cached_within cache'"
proof -
  have R: "normalization_rules sc = rules" using assms(1) by (simp add: scope_sound_def)
  have "(r \<longleftrightarrow> den I a \<ge> den I b) \<and> cached_within cache'"
  proof (cases "\<exists>x y. a = Const x \<and> b = Const y")
    case True
    then show ?thesis using assms(2,6) by (auto simp: geq_decision_def)
  next
    case False
    then have "geq_decision depth sc cache a b =
        rbind (dim_sub rules a b) (\<lambda>d. rbind (bounds_decision depth sc cache d FOR_GEQ0_OR_LT0) (\<lambda>((lb, ub), cache).
          if num_le (Fin 0) lb then Inr (True, cache)
          else if num_less ub (Fin 0) then Inr (False, cache)
          else Inl InconclusiveDimensionOperation))"
      by (cases a; cases b) (simp_all add: geq_decision_def R del: dim_sub.simps)
    with assms(6) obtain d lb ub c where d: "dim_sub rules a b = Inr d"
      "bounds_decision depth sc cache d FOR_GEQ0_OR_LT0 = Inr ((lb, ub), c)"
      "(if num_le (Fin 0) lb then Inr (True, c) else if num_less ub (Fin 0) then Inr (False, c)
        else Inl InconclusiveDimensionOperation) = Inr (r, cache')"
      by (auto simp: res_simps simp del: dim_sub.simps)
    note v = dim_sub_wf [OF assms(3,4) d(1)]
    note w = bounds_decision_within [OF assms(1,2) v(1) assms(5) [OF d(1)] d(2)]
    have "num_le (Fin 0) lb \<Longrightarrow> den I d \<ge> 0" "num_less ub (Fin 0) \<Longrightarrow> den I d < 0"
      using w(1) by (cases lb; cases ub; auto simp: within_def)+
    then show ?thesis using d(3) v(2) w(2) by (auto split: if_splits)
  qed
  then show "r \<longleftrightarrow> den I a \<ge> den I b" "cached_within cache'" by auto
qed

theorem dim_extremum_sound:
  assumes "scope_sound sc" "cached_within cache" "size_wf F (Sym self)" "size_ok F other \<or> size_wf F other"
    and "\<And>d. dim_sub rules (Sym self) other = Inr d \<Longrightarrow> odd_size d"
    and "oper = OpMAX \<or> oper = OpMIN"
    and "Oper oper (if reflected then [ensure_poly other, self] else [self, ensure_poly other]) \<in> F"
    and "dim_extremum oper reflected depth sc cache self other = Inr (r, cache')"
  shows "den I r = (if oper = OpMAX then max (eden I self) (den I other) else min (eden I self) (den I other))"
    "size_wf F r" "cached_within cache'"
proof -
  have R: "normalization_rules sc = rules" using assms(1) by (simp add: scope_sound_def)
  have other: "size_wf F other" using assms(4) size_ok_wf by blast
  from assms(8) obtain d lb ub c where d: "dim_sub rules (Sym self) other = Inr d"
    "bounds_decision depth sc cache d FOR_GEQ0_OR_LEQ0 = Inr ((lb, ub), c)" and
    fin: "(if num_le (Fin 0) lb then Inr (if oper = OpMAX then Sym self else other, c)
      else if num_le ub (Fin 0) then Inr (if oper = OpMAX then other else Sym self, c)
      else rbind (from_operation rules oper (if reflected then [other, Sym self] else [Sym self, other]))
        (\<lambda>r. Inr (r, c))) = Inr (r, cache')"
    unfolding dim_extremum_def R by (auto simp: res_simps simp del: dim_sub.simps)
  note v = dim_sub_wf [OF assms(3) other d(1)]
  note w = bounds_decision_within [OF assms(1,2) v(1) assms(5) [OF d(1)] d(2)]
  have ends: "num_le (Fin 0) lb \<Longrightarrow> den I d \<ge> 0" "num_le ub (Fin 0) \<Longrightarrow> den I d \<le> 0"
    using w(1) by (cases lb; cases ub; auto simp: within_def num_le_def)+
  have e: "eden I (ensure_poly other) = den I other" by (cases other) (simp_all add: mk_expr_def)
  have op: "den I r' = (if oper = OpMAX then max (eden I self) (den I other) else min (eden I self) (den I other)) \<and> size_wf F r'"
    if "from_operation rules oper (if reflected then [other, Sym self] else [Sym self, other]) = Inr r'" for r'
  proof -
    obtain op1 op2 where o: "[op1, op2] = (if reflected then [ensure_poly other, self] else [self, ensure_poly other])"
      by (cases reflected) auto
    have oF: "Oper oper [op1, op2] \<in> F" using assms(7) o by simp
    have "from_term rules [(Oper oper [op1, op2], 1)] 1 = Inr r'"
      using that o by (cases reflected) (simp_all add: from_operation_def)
    then have "den I r' = I (Oper oper [op1, op2])" "size_wf F r'"
      using from_term_wf [OF operation_term_ok [OF oF]] size_ok_wf by simp_all
    then show ?thesis using o oF e op_max [of op1 op2] op_min [of op1 op2] assms(6)
      by (cases reflected) (auto simp: max.commute min.commute)
  qed
  have "den I r = (if oper = OpMAX then max (eden I self) (den I other) else min (eden I self) (den I other)) \<and> size_wf F r \<and> c = cache'"
    using fin v(2) ends op assms(3) other by (auto simp: res_simps split: if_splits)
  with w(2) show "den I r = (if oper = OpMAX then max (eden I self) (den I other) else min (eden I self) (den I other))"
    "size_wf F r" "cached_within cache'" by auto
qed

end

subsection \<open>Environments\<close>

text \<open>The factors an environment evaluates, of the form the procedure is sound for.\<close>

definition deep_factors :: "norm_rules \<Rightarrow> dim_env \<Rightarrow> nat \<Rightarrow> dim_factor set" where
  "deep_factors rules env depth = {f \<in> env_factors rules env depth. factor_deep f}"

text \<open>\<open>decidable_size d\<close>: a canonical size in whose factors, at every depth, only odd powers occur.\<close>

definition decidable_size :: "dim_size \<Rightarrow> bool" where
  "decidable_size d \<longleftrightarrow> size_wf {f. factor_deep f} d \<and> odd_size d"

definition rules_decidable :: "norm_rules \<Rightarrow> bool" where
  "rules_decidable rules \<longleftrightarrow> (\<forall>(t, after, k) \<in> set rules.
     (\<forall>(f, n) \<in> set t. factor_deep f) \<and> odd_expr after \<and> (\<forall>(t2, c2) \<in> set after. \<forall>(f, n) \<in> set t2. factor_deep f))"

definition dims_positive :: "norm_rules \<Rightarrow> dim_env \<Rightarrow> nat \<Rightarrow> bool" where
  "dims_positive rules env depth \<longleftrightarrow> (\<forall>v x. lookup_var rules env depth v = Inr x \<longrightarrow> x \<ge> 1)"

lemma Oper_evaluable:
  "Oper oper es \<in> env_factors rules env depth \<longleftrightarrow>
     (\<exists>vs x. rmap (eval_expr (zero_divmod env) (lookup_var rules env depth)) es = Inr vs \<and>
       apply_op (zero_divmod env) oper vs = Inr x)"
  by (auto simp: evaluable_def eval_factor_Oper res_simps simp del: eval_factor.simps)

lemma Oper_value:
  assumes "Oper oper [a, b] \<in> env_factors rules env depth"
  shows "apply_op (zero_divmod env) oper
      [eden (env_valuation rules env depth) a, eden (env_valuation rules env depth) b]
    = Inr (env_valuation rules env depth (Oper oper [a, b]))"
proof -
  from assms obtain x y where
    "eval_expr (zero_divmod env) (lookup_var rules env depth) a = Inr x"
    "eval_expr (zero_divmod env) (lookup_var rules env depth) b = Inr y"
    by (auto simp: Oper_evaluable res_simps)
  moreover from this have "x = eden (env_valuation rules env depth) a" "y = eden (env_valuation rules env depth) b"
    by (simp_all add: eval_expr_iff)
  ultimately show ?thesis using assms
    by (auto simp: valuation_def evaluable_def eval_factor_Oper simp del: eval_factor.simps)
qed

lemma Oper_mod_evaluable:
  assumes "Oper OpFLOORDIV [a, b] \<in> env_factors rules env depth" "eden (env_valuation rules env depth) b \<noteq> 0"
  shows "Oper OpMOD [a, b] \<in> env_factors rules env depth"
proof -
  from assms(1) obtain x y where v:
    "eval_expr (zero_divmod env) (lookup_var rules env depth) a = Inr x"
    "eval_expr (zero_divmod env) (lookup_var rules env depth) b = Inr y"
    by (auto simp: Oper_evaluable res_simps)
  with assms(2) have "y \<noteq> 0" by (simp add: eval_expr_iff)
  with v show ?thesis by (simp add: Oper_evaluable apply_op_def)
qed

lemma Oper_operands:
  assumes "Oper oper es \<in> env_factors rules env depth" "e \<in> set es" "(t, c) \<in> set e" "(f, n) \<in> set t"
  shows "f \<in> env_factors rules env depth"
proof -
  from assms(1) obtain vs where vs: "rmap (eval_expr (zero_divmod env) (lookup_var rules env depth)) es = Inr vs"
    by (auto simp: Oper_evaluable)
  from rmap_set [OF vs assms(2)] obtain x where "eval_expr (zero_divmod env) (lookup_var rules env depth) e = Inr x"
    by blast
  then show ?thesis using assms(3,4) unfolding eval_expr_iff by force
qed

theorem dim_semantics_env:
  assumes "rules_hold rules env depth" "rules_decidable rules" "dims_positive rules env depth"
  shows "dim_semantics rules (deep_factors rules env depth) (env_valuation rules env depth)"
proof (intro dim_semantics.intro dim_semantics_axioms.intro)
  let ?F = "deep_factors rules env depth" and ?I = "env_valuation rules env depth"
  note sv = scope_valuation_env [OF assms(1)]
  have sub: "term_ok ?F t" if "term_ok (env_factors rules env depth) t" "\<forall>(f, n) \<in> set t. factor_deep f" for t
    using that by (auto simp: term_ok_def deep_factors_def)
  show "scope_valuation rules ?F ?I"
  proof
    fix t after k assume r: "(t, after, k) \<in> set rules"
    note ok = scope_valuation.rule_ok [OF sv r]
    have d: "\<forall>(f, n) \<in> set t. factor_deep f" "\<forall>(t2, c2) \<in> set after. \<forall>(f, n) \<in> set t2. factor_deep f"
      using assms(2) [unfolded rules_decidable_def, THEN bspec, OF r] by simp_all
    show "k \<noteq> 0 \<and> term_ok ?F t \<and> (\<forall>(t2, c2) \<in> set after. term_ok ?F t2)"
      using ok d sub by fast
    show "k * tden ?I t = eden ?I after" by (rule scope_valuation.rule_holds [OF sv r])
  qed
  show "factor_deep f" if "f \<in> ?F" for f using that by (simp add: deep_factors_def)
  show "f \<in> ?F" if "Oper oper es \<in> ?F" "e \<in> set es" "(t, c) \<in> set e" "(f, n) \<in> set t" for oper es e t c f n
  proof -
    have "f \<in> env_factors rules env depth" using that(1) Oper_operands [OF _ that(2-4)] unfolding deep_factors_def by blast
    moreover have "factor_deep f" using that by (fastforce simp: deep_factors_def)
    ultimately show ?thesis by (simp add: deep_factors_def)
  qed
  show "1 \<le> ?I (Var v)" if "Var v \<in> ?F" for v
    using that assms(3) by (auto simp: deep_factors_def evaluable_def valuation_def dims_positive_def)
  fix a b
  note val = Oper_value [where a = a and b = b and rules = rules and env = env and depth = depth]
  show "?I (Oper OpMAX [a, b]) = max (eden ?I a) (eden ?I b)" if "Oper OpMAX [a, b] \<in> ?F"
    using val [where oper = OpMAX] that by (simp add: deep_factors_def apply_op_def)
  show "?I (Oper OpMIN [a, b]) = min (eden ?I a) (eden ?I b)" if "Oper OpMIN [a, b] \<in> ?F"
    using val [where oper = OpMIN] that by (simp add: deep_factors_def apply_op_def)
  show "?I (Oper OpFLOORDIV [a, b]) = eden ?I a div eden ?I b" if "Oper OpFLOORDIV [a, b] \<in> ?F" "eden ?I b \<noteq> 0"
    using val [where oper = OpFLOORDIV] that by (simp add: deep_factors_def apply_op_def)
  show "?I (Oper OpMOD [a, b]) = eden ?I a mod eden ?I b" if "Oper OpMOD [a, b] \<in> ?F" "eden ?I b \<noteq> 0"
    using val [where oper = OpMOD] that by (simp add: deep_factors_def apply_op_def)
  show "Oper OpMOD [a, b] \<in> ?F" if "Oper OpFLOORDIV [a, b] \<in> ?F" "eden ?I b \<noteq> 0"
    using that Oper_mod_evaluable [where a = a and b = b and rules = rules and env = env and depth = depth] by (simp add: deep_factors_def)
  show "odd_expr after" if "(t, after, k) \<in> set rules" for t after k
    using that assms(2) by (auto simp: rules_decidable_def)
qed

text \<open>
  Without equality constraints every assignment of positive numbers to dimension variables is a
  model of the interface.
\<close>

definition positive_env :: "(string \<Rightarrow> int option) \<Rightarrow> (int \<Rightarrow> (int \<times> int) res) \<Rightarrow> dim_env" where
  "positive_env vals zd =
     \<lparr>dim_value = (\<lambda>v. case vals v of None \<Rightarrow> None | Some n \<Rightarrow> if n \<ge> 1 then Some n else None), zero_divmod = zd\<rparr>"

lemma lookup_var_plain:
  "lookup_var [] env depth v = (case dim_value env v of Some x \<Rightarrow> Inr x | None \<Rightarrow> Inl UnexpectedDimVar)"
  by (simp add: lookup_var.simps from_var_def normalize_sorted_terms_def normalize_term_def expr_to_var_def
      expr_to_term_def term_to_var_def term_to_factor_def split: option.splits)

lemma dims_positive_env: "dims_positive [] (positive_env vals zd) depth"
  by (auto simp: dims_positive_def lookup_var_plain positive_env_def split: option.splits if_splits)

interpretation positive: dim_semantics "[]" "deep_factors [] (positive_env vals zd) depth"
    "env_valuation [] (positive_env vals zd) depth" for vals zd depth
  by (rule dim_semantics_env) (simp_all add: rules_hold_def rules_decidable_def dims_positive_env)

end
