(* ===== verification/DimDecisionProps.thy ===== *)
theory DimDecisionProps
  imports DimScope
begin

text \<open>
  The properties of the decision procedure on symbolic dimensions
  (\<^verbatim>\<open>jax/_src/export/shape_poly_decision.py\<close>) and of the comparisons of \<^verbatim>\<open>shape_poly.py\<close>.
\<close>

text \<open>\<open>scope_holds\<close>: the rules and the constraints of the scope are true in this environment.\<close>

definition scope_holds :: "symbolic_scope \<Rightarrow> dim_env \<Rightarrow> nat \<Rightarrow> bool" where
  "scope_holds sc env depth \<longleftrightarrow>
     rules_hold (normalization_rules sc) env depth \<and> rules_decidable (normalization_rules sc) \<and>
     dims_positive (normalization_rules sc) env depth \<and>
     (\<forall>(cmp, d) \<in> set (explicit_constraints sc). decidable_size d \<and>
        (case evaluate (normalization_rules sc) env depth d of Inl _ \<Rightarrow> False | Inr x \<Rightarrow> holds cmp x))"

text \<open>\<open>cache_holds\<close>: the bounds in the cache are bounds of the values in this environment.\<close>

definition cache_holds :: "symbolic_scope \<Rightarrow> dim_env \<Rightarrow> nat \<Rightarrow> cache \<Rightarrow> bool" where
  "cache_holds sc env depth cache \<longleftrightarrow>
     dim_semantics.cached_within (deep_factors (normalization_rules sc) env depth)
       (env_valuation (normalization_rules sc) env depth) cache"

lemma scope_semantics:
  "scope_holds sc env depth \<Longrightarrow> dim_semantics (normalization_rules sc)
     (deep_factors (normalization_rules sc) env depth) (env_valuation (normalization_rules sc) env depth)"
  by (rule dim_semantics_env) (simp_all add: scope_holds_def)

lemma cache_holds_Nil:
  assumes "scope_holds sc env depth"
  shows "cache_holds sc env depth []"
  using dim_semantics.cached_within_def [OF scope_semantics [OF assms]] by (simp add: cache_holds_def)

lemma decidable_evaluate:
  assumes "decidable_size d"
  shows "evaluate rules env depth d = Inr x \<longleftrightarrow>
    size_wf (deep_factors rules env depth) d \<and> den (env_valuation rules env depth) d = x"
proof (cases d)
  case (Sym e)
  have "terms_wf (deep_factors rules env depth) e \<longleftrightarrow> (\<forall>p \<in> set e. fst ` set (fst p) \<subseteq> env_factors rules env depth)"
    using assms Sym by (fastforce simp: decidable_size_def terms_wf_def term_ok_def deep_factors_def)
  with Sym show ?thesis by (auto simp: eval_expr_iff)
qed simp

lemma wf_evaluate:
  assumes "size_wf (deep_factors rules env depth) d"
  shows "evaluate rules env depth d = Inr (den (env_valuation rules env depth) d)"
proof (cases d)
  case (Sym e)
  have "\<forall>p \<in> set e. fst ` set (fst p) \<subseteq> env_factors rules env depth"
    using assms Sym by (fastforce simp: terms_wf_def term_ok_def deep_factors_def)
  with Sym show ?thesis by (simp add: eval_expr_iff)
qed simp

lemma scope_sound_env:
  assumes "scope_holds sc env depth"
  shows "dim_semantics.scope_sound (normalization_rules sc) (deep_factors (normalization_rules sc) env depth)
    (env_valuation (normalization_rules sc) env depth) sc"
proof -
  let ?r = "normalization_rules sc"
  have "size_wf (deep_factors ?r env depth) d \<and> odd_size d \<and> holds cmp (den (env_valuation ?r env depth) d)"
    if "(cmp, d) \<in> set (explicit_constraints sc)" for cmp d
  proof -
    have d: "decidable_size d" "case evaluate ?r env depth d of Inl _ \<Rightarrow> False | Inr x \<Rightarrow> holds cmp x"
      using assms that by (auto simp: scope_holds_def)
    then obtain x where "evaluate ?r env depth d = Inr x" "holds cmp x"
      by (cases "evaluate ?r env depth d") auto
    then show ?thesis using d(1) decidable_evaluate [OF d(1)] by (auto simp: decidable_size_def)
  qed
  then show ?thesis using dim_semantics.scope_sound_def [OF scope_semantics [OF assms]] by auto
qed


text \<open>A scope with the constraint \<open>a >= 4\<close>, an environment where \<open>a\<close> is 9, and \<open>floordiv(a - 5, 2) + 3\<close>\<close>

definition dv :: "string \<Rightarrow> int \<Rightarrow> dim_term \<times> int" where
  "dv v k = ([(Var v, 1)], k)"

definition ex_scope :: symbolic_scope where
  "ex_scope = \<lparr>normalization_rules = [], explicit_constraints = [(CmpGEQ, Sym [dv ''a'' 1, ([], -4)])]\<rparr>"

definition nine :: dim_env where
  "nine = positive_env (\<lambda>v. if v = ''a'' then Some 9 else if v = ''b'' then Some 2 else None) (\<lambda>_. Inl ZeroDivisionError)"

definition ex_floordiv :: dim_factor where
  "ex_floordiv = Oper OpFLOORDIV [[dv ''a'' 1, ([], -5)], [([], 2)]]"

lemmas decidable_defs = decidable_size_def dv_def size_wf.simps terms_wf_def odd_size.simps odd_expr_def odd_term_def
  term_ok_def strictly_descending_def mem_Collect_eq

lemma ex_scope_holds: "scope_holds ex_scope nine 0"
proof -
  have "decidable_size (Sym [dv ''a'' 1, ([], -4)])"
    unfolding decidable_defs by code_simp
  moreover have "evaluate [] nine 0 (Sym [dv ''a'' 1, ([], -4)]) = Inr 5" by code_simp
  ultimately show ?thesis
    by (simp add: scope_holds_def ex_scope_def rules_hold_def rules_decidable_def nine_def dims_positive_env)
qed




text \<open>
  \<^verbatim>\<open>max\<close>, \<^verbatim>\<open>rmax\<close>, \<^verbatim>\<open>min\<close> and \<^verbatim>\<open>rmin\<close> of symbolic dimensions evaluate to the larger or the smaller
  of the values, whether the decision procedure could pick one or a symbolic operation was
  built.
\<close>

theorem dim_extremum_correct:
  assumes "scope_holds sc env edepth" and "cache_holds sc env edepth cache" and "decidable_size (Sym e)" "decidable_size d"
    and "\<forall>s. dim_sub (normalization_rules sc) (Sym e) d = Inr s \<longrightarrow> odd_size s"
    and "evaluate (normalization_rules sc) env edepth (Sym e) = Inr x" "evaluate (normalization_rules sc) env edepth d = Inr y"
  shows "((dim_max depth sc cache e d = Inr (m, cache') \<or> dim_rmax depth sc cache e d = Inr (m, cache')) \<longrightarrow>
      evaluate (normalization_rules sc) env edepth m = Inr (max x y)) \<and>
    ((dim_min depth sc cache e d = Inr (m, cache') \<or> dim_rmin depth sc cache e d = Inr (m, cache')) \<longrightarrow>
      evaluate (normalization_rules sc) env edepth m = Inr (min x y))"
proof -
  let ?r = "normalization_rules sc"
  let ?F = "deep_factors ?r env edepth" and ?I = "env_valuation ?r env edepth"
  have w: "size_wf ?F (Sym e)" "size_wf ?F d" and v: "eden ?I e = x" "den ?I d = y"
    using assms(3,4,6,7) decidable_evaluate by fastforce+
  have deep: "factor_deep (Oper oper [op1, op2])" if "{op1, op2} = {e, ensure_poly d}" for oper op1 op2
  proof -
    have "terms_wf {f. factor_deep f} a \<and> odd_expr a" if "a \<in> {e, ensure_poly d}" for a
      using that assms(3,4) by (cases d)
        (auto simp: decidable_size_def mk_expr_def terms_wf_def strictly_descending_def odd_expr_def odd_term_def)
    then have "terms_wf {f. factor_deep f} op1 \<and> odd_expr op1" "terms_wf {f. factor_deep f} op2 \<and> odd_expr op2"
      using that by blast+
    then show ?thesis by (auto simp: terms_wf_def term_ok_def odd_expr_def odd_term_def split_def)
  qed
  have ev: "eval_expr (zero_divmod env) (lookup_var ?r env edepth) e = Inr x"
    "eval_expr (zero_divmod env) (lookup_var ?r env edepth) (ensure_poly d) = Inr y"
    using assms(6) evaluate_ensure_poly [OF assms(7)] by simp_all
  have inF: "Oper oper (if reflected then [ensure_poly d, e] else [e, ensure_poly d]) \<in> ?F"
    if "oper = OpMAX \<or> oper = OpMIN" for oper reflected
    using that ev deep [of e "ensure_poly d" oper] deep [of "ensure_poly d" e oper]
    by (cases reflected) (auto simp: deep_factors_def Oper_evaluable apply_op_def insert_commute simp del: factor_deep.simps)
  have "evaluate ?r env edepth m = Inr (if oper = OpMAX then max x y else min x y)"
    if "oper = OpMAX \<or> oper = OpMIN" "dim_extremum oper reflected depth sc cache e d = Inr (m, cache')" for oper reflected
    using dim_semantics.dim_extremum_sound [OF scope_semantics [OF assms(1)] scope_sound_env [OF assms(1)]
        assms(2) [unfolded cache_holds_def] w(1) disjI2 [OF w(2)] _ that(1) inF [OF that(1)] that(2)] assms(5) v wf_evaluate
    by fastforce
  then show ?thesis unfolding dim_max_def dim_rmax_def dim_min_def dim_rmin_def by fastforce
qed

theorem dim_extremum_correct_witness:
  "(case dim_max 20 ex_scope [] [dv ''b'' 1] (Sym [dv ''a'' 1]) of
      Inr (m, _) \<Rightarrow> m \<noteq> Sym [dv ''a'' 1] \<and> evaluate [] nine 0 m = Inr (max 2 9) | _ \<Rightarrow> False)"
proof -
  let ?e = "[dv ''b'' 1]" and ?d = "Sym [dv ''a'' 1]"
  have d: "decidable_size (Sym ?e)" "decidable_size ?d" unfolding decidable_defs by code_simp+
  have "dim_sub (normalization_rules ex_scope) (Sym ?e) ?d = Inr (Sym [dv ''b'' 1, dv ''a'' (-1)])" by code_simp
  then have s: "\<forall>s. dim_sub (normalization_rules ex_scope) (Sym ?e) ?d = Inr s \<longrightarrow> odd_size s"
    by (simp add: odd_expr_def odd_term_def dv_def)
  have v: "evaluate (normalization_rules ex_scope) nine 0 (Sym ?e) = Inr 2" "evaluate (normalization_rules ex_scope) nine 0 ?d = Inr 9"
    by code_simp+
  have "case dim_max 20 ex_scope [] ?e ?d of Inr (m, _) \<Rightarrow> m \<noteq> ?d | _ \<Rightarrow> False" by code_simp
  then obtain m c where g: "dim_max 20 ex_scope [] ?e ?d = Inr (m, c)" "m \<noteq> ?d" by (auto split: sum.splits)
  from dim_extremum_correct [OF ex_scope_holds cache_holds_Nil [OF ex_scope_holds] d s v, of 20 m c] g
  show ?thesis by (simp add: ex_scope_def)
qed

subsection \<open>Where the procedure goes wrong\<close>

definition free_scope :: symbolic_scope where
  "free_scope = \<lparr>normalization_rules = [], explicit_constraints = []\<rparr>"

text \<open>
  An inequality that is false can be decided true. The interval of a power is computed from the powers of the ends of the interval of its base.
  For an even power of an interval around zero that is wrong: with \<open>a >= 1\<close> the factor
  \<open>floordiv(a - 5, 2)\<close> is at least \<open>-2\<close>, so its square is taken to be at least 4, and
  \<^verbatim>\<open>floordiv(a - 5, 2) ** 2 >= 4\<close> is decided true; at \<open>a = 5\<close> the square is 0.
\<close>

theorem even_power_unsound:
  "(case geq_decision 20 free_scope [] (Sym [([(ex_floordiv, 2)], 1)]) (Const 4) of Inr (r, _) \<Rightarrow> r | _ \<Rightarrow> False) \<and>
   evaluate [] (positive_env [''a'' \<mapsto> 5] (\<lambda>_. Inl ZeroDivisionError)) 0 (Sym [([(ex_floordiv, 2)], 1)]) = Inr 0"
proof
  show "case geq_decision 20 free_scope [] (Sym [([(ex_floordiv, 2)], 1)]) (Const 4) of Inr (r, _) \<Rightarrow> r | _ \<Rightarrow> False"
    by code_simp
qed code_simp

text \<open>
  Asking for bounds can fail on an assertion. Zero times an infinite bound is \<open>nan\<close>, on which an assertion fails: \<open>mod(a, 2) * floordiv(b, -2)\<close> has
  no bounds, it raises \<open>AssertionError\<close>.
\<close>

theorem nan_bound_raises:
  "bounds_decision 20 free_scope []
     (Sym [([(Oper OpMOD [[dv ''a'' 1], [([], 2)]], 1), (Oper OpFLOORDIV [[dv ''b'' 1], [([], -2)]], 1)], 1)]) BEST
   = Inl AssertionError"
  by code_simp

end
