(* ===== verification/DimFloat.thy ===== *)
theory DimFloat
  imports DimDecision Complex_Main
begin

text \<open>
  Why quotients of numbers below \<open>2\<^sup>53\<close> may be modelled exactly: whatever function \<open>fl\<close> rounds real
  numbers to floats, if it is exact on such integers and its relative error is at most \<open>2\<^sup>-\<^sup>53\<close> on the
  magnitudes that occur (both hold of IEEE double precision), the rounded quotient has the floor and
  the ceiling of the exact one.
\<close>

lemma quotient_apart:
  fixes a b :: int
  assumes "b \<noteq> 0" "a mod b \<noteq> 0"
  shows "of_int (a div b) + 1 / \<bar>of_int b\<bar> \<le> (of_int a / of_int b :: real)"
    "(of_int a / of_int b :: real) \<le> of_int (a div b) + 1 - 1 / \<bar>of_int b\<bar>"
proof -
  have x: "of_int a / of_int b = (of_int (a div b) + of_int (a mod b) / of_int b :: real)"
  proof -
    have "(of_int a :: real) = of_int (a div b * b + a mod b)" by simp
    then have "(of_int a :: real) = of_int (a div b) * of_int b + of_int (a mod b)" by (simp only: of_int_add of_int_mult)
    then show ?thesis using assms(1) by (simp add: field_simps)
  qed
  consider "0 < b" "1 \<le> a mod b" "a mod b \<le> b - 1" | "b < 0" "a mod b \<le> -1" "b + 1 \<le> a mod b"
    using assms pos_mod_bound [of b a] pos_mod_sign [of b a] neg_mod_bound [of b a] neg_mod_sign [of b a] by linarith
  then have "1 / \<bar>of_int b\<bar> \<le> (of_int (a mod b) / of_int b :: real) \<and> of_int (a mod b) / of_int b \<le> 1 - 1 / (\<bar>of_int b\<bar> :: real)"
  proof cases
    case 1
    then have "(1 :: real) \<le> of_int (a mod b)" "of_int (a mod b) \<le> (of_int b - 1 :: real)" "(0 :: real) < of_int b" by linarith+
    then show ?thesis by (simp add: field_simps)
  next
    case 2
    then have "of_int (a mod b) \<le> (-1 :: real)" "(of_int b + 1 :: real) \<le> of_int (a mod b)" "of_int b < (0 :: real)" by linarith+
    then show ?thesis by (simp add: field_simps)
  qed
  then show "of_int (a div b) + 1 / \<bar>of_int b\<bar> \<le> (of_int a / of_int b :: real)"
    "(of_int a / of_int b :: real) \<le> of_int (a div b) + 1 - 1 / \<bar>of_int b\<bar>" unfolding x by simp_all
qed

lemma float_quotient_exact:
  fixes fl :: "real \<Rightarrow> real"
  assumes exact: "\<And>k. float_exact k \<Longrightarrow> fl (of_int k) = of_int k"
    and error: "\<And>x. 1 / 2 ^ 53 \<le> \<bar>x\<bar> \<Longrightarrow> \<bar>x\<bar> \<le> 2 ^ 53 \<Longrightarrow> \<bar>fl x - x\<bar> \<le> \<bar>x\<bar> / 2 ^ 53"
    and b: "b \<noteq> 0"
  shows "floor_div a b = Inr q \<Longrightarrow> \<lfloor>fl (of_int a / of_int b)\<rfloor> = q"
    "ceil_div a b = Inr q' \<Longrightarrow> \<lceil>fl (of_int a / of_int b)\<rceil> = q'"
proof -
  have "\<lfloor>fl (of_int a / of_int b)\<rfloor> = a div b \<and> \<lceil>fl (of_int a / of_int b)\<rceil> = - ((- a) div b)"
    if ab: "float_exact a" "float_exact b"
  proof (cases "a mod b = 0")
    case True
    then obtain m where m: "a = b * m" by auto
    have "\<bar>m\<bar> \<le> \<bar>a\<bar>" using b unfolding m abs_mult by (cases "m = 0") (simp_all add: mult_le_cancel_right1)
    then have "float_exact m" using ab(1) by (simp add: float_exact_def)
    moreover have "of_int a / of_int b = (of_int m :: real)" "a div b = m" "(- a) div b = - m"
      using b m nonzero_mult_div_cancel_left [of b "- m"] by simp_all
    ultimately show ?thesis using exact [of m] by simp
  next
    case False
    let ?x = "of_int a / of_int b :: real"
    have B: "\<bar>of_int b\<bar> \<ge> (1 :: real)" "\<bar>of_int b\<bar> \<le> (2 ^ 53 :: real)" using b ab(2) by (simp_all add: float_exact_def)
    have A: "\<bar>of_int a\<bar> \<ge> (1 :: real)" "\<bar>of_int a\<bar> < (2 ^ 53 :: real)"
      using False ab(1) by (cases "a = 0"; simp add: float_exact_def)+
    have abs: "\<bar>?x\<bar> = \<bar>of_int a\<bar> / \<bar>of_int b\<bar>" by (rule abs_divide)
    have "1 / 2 ^ 53 \<le> \<bar>?x\<bar>" unfolding abs by (rule frac_le) (use A B in simp_all)
    moreover have "\<bar>?x\<bar> \<le> 2 ^ 53 / 1" unfolding abs by (rule frac_le) (use A B in simp_all)
    ultimately have "\<bar>fl ?x - ?x\<bar> \<le> \<bar>?x\<bar> / 2 ^ 53" by (intro error) simp_all
    also have "\<dots> < 1 / \<bar>of_int b\<bar>" unfolding abs using A(2) B(1) by (simp add: field_simps)
    finally have near: "\<bar>fl ?x - ?x\<bar> < 1 / \<bar>of_int b\<bar>" .
    note apart = quotient_apart [OF b False]
    have r: "of_int (a div b) < fl ?x" "fl ?x < of_int (a div b) + 1" using near apart by linarith+
    have "- ((- a) div b) = a div b + 1" using False by (simp add: zdiv_zminus1_eq_if b)
    then show ?thesis using r by (simp add: floor_eq_iff ceiling_eq_iff)
  qed
  then show "floor_div a b = Inr q \<Longrightarrow> \<lfloor>fl (of_int a / of_int b)\<rfloor> = q"
    "ceil_div a b = Inr q' \<Longrightarrow> \<lceil>fl (of_int a / of_int b)\<rceil> = q'"
    by (auto simp: floor_div_def ceil_div_def split: if_splits)
qed

end
