(* ===== verification/DimParse.thy ===== *)
theory DimParse
  imports DimCompare "HOL-Library.Product_Lexorder"
begin

text \<open>
  Symbolic dimensions as strings (\<^verbatim>\<open>shape_poly.py\<close>): the printing of expressions, \<^verbatim>\<open>_Parser\<close>, the
  constraints of a scope given as strings, and \<^verbatim>\<open>symbolic_shape\<close>. Strings are one line of ASCII; of
  Python's tokenizer the tokens are modelled that the parser knows, any other character is a token
  of its own, which the parser refuses. The parser's recursion takes fuel, and too little of it is
  \<^verbatim>\<open>RecursionError\<close>.
\<close>

subsection \<open>Printing\<close>

fun str_nat :: "nat \<Rightarrow> string" where
  "str_nat n = (if n < 10 then [char_of (48 + n)] else str_nat (n div 10) @ [char_of (48 + n mod 10)])"

declare str_nat.simps [simp del]

definition str_int :: "int \<Rightarrow> string" where
  "str_int k = (if k < 0 then CHR ''-'' # str_nat (nat (- k)) else str_nat (nat k))"

fun str_join :: "string \<Rightarrow> string list \<Rightarrow> string" where
  "str_join sep [] = []"
| "str_join sep [x] = x"
| "str_join sep (x # y # xs) = x @ sep @ str_join sep (y # xs)"

lemma str_join_cong [fundef_cong]: "sep = sep' \<Longrightarrow> xs = ys \<Longrightarrow> str_join sep xs = str_join sep' ys"
  by simp

text \<open>\<^verbatim>\<open>__str__\<close> of factors, terms and expressions, one function because their types nest.\<close>

definition str_power :: "string \<Rightarrow> int \<Rightarrow> string" where
  "str_power s exponent = (if exponent \<noteq> 1 then s @ ''^'' @ str_int exponent else s)"

definition str_one_term :: "dim_term \<Rightarrow> string \<Rightarrow> int \<Rightarrow> string" where
  "str_one_term t str_t t_k =
     (let sgn = (if t_k > 0 then ''+'' else ''-'') in
      if t = term_one then if t_k \<noteq> 0 then sgn @ '' '' @ str_int \<bar>t_k\<bar> else ''0''
      else if \<bar>t_k\<bar> = 1 then sgn @ '' '' @ str_t
      else sgn @ '' '' @ str_int \<bar>t_k\<bar> @ ''*'' @ str_t)"

definition strip_plus :: "string \<Rightarrow> string" where
  "strip_plus res = (if take 2 res = ''+ '' then drop 2 res else res)"

fun str_factor :: "dim_factor \<Rightarrow> string" where
  "str_factor (Var v) = v"
| "str_factor (Oper oper es) =
     op_name oper @ ''('' @ str_join '', '' (map (\<lambda>e. strip_plus (str_join '' '' (map (\<lambda>(t, k).
       str_one_term t (str_join ''*'' (map (\<lambda>(f, n). str_power (str_factor f) n) (sort t))) k) e))) es) @ '')''"

definition str_term :: "dim_term \<Rightarrow> string" where
  "str_term t = str_join ''*'' (map (\<lambda>(f, n). str_power (str_factor f) n) (sort t))"

definition str_expr :: "dim_expr \<Rightarrow> string" where
  "str_expr e = strip_plus (str_join '' '' (map (\<lambda>(t, k). str_one_term t (str_term t) k) e))"

fun str_dim :: "dim_size \<Rightarrow> string" where
  "str_dim (Const k) = str_int k"
| "str_dim (Sym e) = str_expr e"

text \<open>\<^verbatim>\<open>PolyShape.__str__\<close>, for shapes without placeholders\<close>

definition str_shape :: "dim_size list \<Rightarrow> string" where
  "str_shape dims = ''('' @ str_join '', '' (map str_dim dims) @ '')''"

subsection \<open>Tokens\<close>

datatype tok = TName string | TNumber string | TLpar | TRpar | TComma | TPlus | TMinus | TStar | TCircumflex
  | TEllipsis | TEnd | TOther char

definition is_digit :: "char \<Rightarrow> bool" where
  "is_digit c \<longleftrightarrow> 48 \<le> (of_char c :: nat) \<and> (of_char c :: nat) \<le> 57"

definition is_name_start :: "char \<Rightarrow> bool" where
  "is_name_start c \<longleftrightarrow> (let n = of_char c :: nat in 65 \<le> n \<and> n \<le> 90 \<or> 97 \<le> n \<and> n \<le> 122 \<or> n = 95)"

definition is_name_char :: "char \<Rightarrow> bool" where
  "is_name_char c \<longleftrightarrow> is_name_start c \<or> is_digit c"

definition symbol_tok :: "char \<Rightarrow> tok" where
  "symbol_tok c =
     (if c = CHR ''('' then TLpar else if c = CHR '')'' then TRpar else if c = CHR '','' then TComma
      else if c = CHR ''+'' then TPlus else if c = CHR ''-'' then TMinus else if c = CHR ''*'' then TStar
      else if c = CHR ''^'' then TCircumflex else TOther c)"

text \<open>Spaces, tabs and form feeds separate tokens.\<close>

definition is_space :: "char \<Rightarrow> bool" where
  "is_space c \<longleftrightarrow> (of_char c :: nat) \<in> {9, 12, 32}"

text \<open>A decimal literal has single underscores between its digits only, and no leading zeros unless it
  is zero. Any other literal is an error of the tokenizer or of \<^verbatim>\<open>int\<close>.\<close>

fun number_ok :: "string \<Rightarrow> bool" where
  "number_ok [] = False"
| "number_ok [c] = is_digit c"
| "number_ok (c # d # s) =
     (is_digit c \<and> (if d = CHR ''_'' then number_ok s else number_ok (d # s)))"

definition decimal :: "string \<Rightarrow> bool" where
  "decimal s \<longleftrightarrow> number_ok s \<and> (hd s = CHR ''0'' \<longrightarrow> list_all (\<lambda>c. c = CHR ''0'' \<or> c = CHR ''_'') s)"

function tokenize :: "string \<Rightarrow> tok list res" where
  "tokenize [] = Inr [TEnd]"
| "tokenize (c # cs) =
     (if is_space c then tokenize cs
      else if is_digit c
      then
        let s = takeWhile is_name_char (c # cs) in
        if decimal s then rbind (tokenize (dropWhile is_name_char (c # cs))) (\<lambda>ts. Inr (TNumber s # ts))
        else Inl (ValueError ''expecting integer'')
      else if is_name_start c
      then rbind (tokenize (dropWhile is_name_char (c # cs))) (\<lambda>ts. Inr (TName (takeWhile is_name_char (c # cs)) # ts))
      else if take 3 (c # cs) = ''...'' then rbind (tokenize (drop 2 cs)) (\<lambda>ts. Inr (TEllipsis # ts))
      else rbind (tokenize cs) (\<lambda>ts. Inr (symbol_tok c # ts)))"
  by pat_completeness auto

termination
  by (relation "measure length")
    (auto simp: is_name_char_def less_Suc_eq_le intro: le_trans [OF length_dropWhile_le])

declare tokenize.simps(2) [simp del]

text \<open>\<^verbatim>\<open>int(tok.string)\<close> of a decimal literal\<close>

definition int_of_digits :: "string \<Rightarrow> int" where
  "int_of_digits s = int (foldl (\<lambda>n c. 10 * n + (of_char c - 48)) 0 (filter is_digit s))"

subsection \<open>The parser\<close>

type_synonym 'a parser = "cache \<Rightarrow> tok list \<Rightarrow> ('a \<times> cache \<times> tok list) res"

text \<open>The current token is the first; \<open>next_tok\<close> gives it up.\<close>

definition parse_err :: "'a res" where
  "parse_err = Inl (ValueError ''syntax error in symbolic shape'')"

fun next_tok :: "tok list \<Rightarrow> tok list res" where
  "next_tok (t # u # ts) = Inr (u # ts)"
| "next_tok _ = parse_err"

definition expect_token :: "tok list \<Rightarrow> (tok \<Rightarrow> bool) \<Rightarrow> unit res" where
  "expect_token ts expected = (if ts \<noteq> [] \<and> expected (hd ts) then Inr () else parse_err)"

definition consume_token :: "tok \<Rightarrow> tok list \<Rightarrow> tok list res" where
  "consume_token t ts = rbind (expect_token ts (\<lambda>u. u = t)) (\<lambda>_. next_tok ts)"

fun parse_integer :: "tok list \<Rightarrow> (int \<times> tok list) res" where
  "parse_integer (TNumber s # ts) = rbind (next_tok (TNumber s # ts)) (\<lambda>ts. Inr (int_of_digits s, ts))"
| "parse_integer _ = parse_err"

definition follow_shape :: "tok list \<Rightarrow> bool" where
  "follow_shape ts \<longleftrightarrow> ts \<noteq> [] \<and> (hd ts = TEnd \<or> hd ts = TRpar)"

definition follow_expr :: "tok list \<Rightarrow> bool" where
  "follow_expr ts \<longleftrightarrow> follow_shape ts \<or> ts \<noteq> [] \<and> hd ts = TComma"

definition follow_term :: "tok list \<Rightarrow> bool" where
  "follow_term ts \<longleftrightarrow> follow_expr ts \<or> ts \<noteq> [] \<and> (hd ts = TPlus \<or> hd ts = TMinus)"

definition op_of_name :: "string \<Rightarrow> dim_op option" where
  "op_of_name s = find (\<lambda>oper. op_name oper = s) [OpMOD, OpFLOORDIV, OpMAX, OpMIN]"

text \<open>\<^verbatim>\<open>core.max_dim\<close> and \<^verbatim>\<open>core.min_dim\<close>\<close>

fun max_dim :: "nat \<Rightarrow> symbolic_scope \<Rightarrow> cache \<Rightarrow> dim_size \<Rightarrow> dim_size \<Rightarrow> (dim_size \<times> cache) res" where
  "max_dim depth sc cache (Const a) (Const b) = Inr (Const (max a b), cache)"
| "max_dim depth sc cache (Const a) (Sym e) = dim_rmax depth sc cache e (Const a)"
| "max_dim depth sc cache (Sym e) d = dim_max depth sc cache e d"

fun min_dim :: "nat \<Rightarrow> symbolic_scope \<Rightarrow> cache \<Rightarrow> dim_size \<Rightarrow> dim_size \<Rightarrow> (dim_size \<times> cache) res" where
  "min_dim depth sc cache (Const a) (Const b) = Inr (Const (min a b), cache)"
| "min_dim depth sc cache (Const a) (Sym e) = dim_rmin depth sc cache e (Const a)"
| "min_dim depth sc cache (Sym e) d = dim_min depth sc cache e d"

definition binary_op :: "nat \<Rightarrow> symbolic_scope \<Rightarrow> dim_op \<Rightarrow> cache \<Rightarrow> dim_size \<Rightarrow> dim_size \<Rightarrow> (dim_size \<times> cache) res" where
  "binary_op depth sc oper cache e1 e2 =
     (case oper of
        OpMAX \<Rightarrow> max_dim depth sc cache e1 e2
      | OpMIN \<Rightarrow> min_dim depth sc cache e1 e2
      | _ \<Rightarrow> rbind (from_operation (normalization_rules sc) oper [e1, e2]) (\<lambda>r. Inr (r, cache)))"

text \<open>\<^verbatim>\<open>f ** power\<close>\<close>

fun size_pow :: "norm_rules \<Rightarrow> dim_size \<Rightarrow> int \<Rightarrow> dim_size res" where
  "size_pow rules (Const k) p = Inr (Const (k ^ nat p))"
| "size_pow rules (Sym e) p = dim_pow rules e p"

definition at_tok :: "tok \<Rightarrow> tok list \<Rightarrow> bool" where
  "at_tok t ts \<longleftrightarrow> ts \<noteq> [] \<and> hd ts = t"

fun tok_name :: "tok list \<Rightarrow> string option" where
  "tok_name (TName s # ts) = Some s"
| "tok_name _ = None"

text \<open>The steps of the parser's functions that do not parse further: a sum's next term, a factor's
  exponent, a product's next factor, and the numbers.\<close>

definition add_term :: "norm_rules \<Rightarrow> bool \<Rightarrow> dim_size option \<Rightarrow> dim_size \<Rightarrow> dim_size res" where
  "add_term rules next_t_negated acc t =
     rbind (if next_t_negated then dim_neg rules t else Inr t) (\<lambda>t.
     case acc of None \<Rightarrow> Inr t | Some a \<Rightarrow> dim_add rules a t)"

definition p_power :: "norm_rules \<Rightarrow> dim_size \<Rightarrow> tok list \<Rightarrow> (dim_size \<times> tok list) res" where
  "p_power rules f ts =
     (if at_tok TCircumflex ts
      then
        rbind (next_tok ts) (\<lambda>ts.
        rbind (parse_integer ts) (\<lambda>(power, ts).
        rbind (size_pow rules f power) (\<lambda>f. Inr (f, ts))))
      else Inr (f, ts))"

definition mul_factor :: "norm_rules \<Rightarrow> dim_size option \<Rightarrow> dim_size \<Rightarrow> dim_size res" where
  "mul_factor rules acc f = (case acc of None \<Rightarrow> Inr f | Some a \<Rightarrow> dim_mul rules a f)"

definition p_number :: "dim_size parser" where
  "p_number cache ts =
     (let negate = at_tok TMinus ts in
      rbind (if negate then next_tok ts else Inr ts) (\<lambda>ts.
      rbind (parse_integer ts) (\<lambda>(v, ts). Inr (Const (if negate then - v else v), cache, ts))))"

text \<open>The loops of \<^verbatim>\<open>term\<close> and \<^verbatim>\<open>expr\<close> take the parser of factors, which calls them; they give up
  at least one token in every round, so as many rounds as there are tokens are enough.\<close>

primrec p_term :: "norm_rules \<Rightarrow> dim_size parser \<Rightarrow> nat \<Rightarrow> dim_size option \<Rightarrow> dim_size parser" where
  "p_term rules factor 0 acc cache ts = Inl RecursionError"
| "p_term rules factor (Suc n) acc cache ts =
     rbind (factor cache ts) (\<lambda>(f, cache, ts).
     rbind (p_power rules f ts) (\<lambda>(f, ts).
     rbind (mul_factor rules acc f) (\<lambda>acc.
     if follow_term ts then Inr (acc, cache, ts)
     else rbind (consume_token TStar ts) (p_term rules factor n (Some acc) cache))))"

primrec p_sum :: "norm_rules \<Rightarrow> dim_size parser \<Rightarrow> nat \<Rightarrow> bool \<Rightarrow> dim_size option \<Rightarrow> dim_size parser" where
  "p_sum rules factor 0 next_t_negated acc cache ts = Inl RecursionError"
| "p_sum rules factor (Suc n) next_t_negated acc cache ts =
     rbind (p_term rules factor (length ts) None cache ts) (\<lambda>(t, cache, ts).
     rbind (add_term rules next_t_negated acc t) (\<lambda>acc.
     if follow_expr ts then Inr (acc, cache, ts)
     else
       rbind (expect_token ts (\<lambda>t. t = TPlus \<or> t = TMinus)) (\<lambda>_.
       rbind (next_tok ts) (p_sum rules factor n (at_tok TMinus ts) (Some acc) cache))))"

definition p_expr :: "norm_rules \<Rightarrow> dim_size parser \<Rightarrow> dim_size parser" where
  "p_expr rules factor cache ts =
     (let next_t_negated = at_tok TMinus ts in
      rbind (if next_t_negated then next_tok ts else if at_tok TPlus ts then next_tok ts else Inr ts)
        (p_sum rules factor (length ts) next_t_negated None cache))"

definition p_binary_op :: "nat \<Rightarrow> symbolic_scope \<Rightarrow> dim_size parser \<Rightarrow> dim_op \<Rightarrow> dim_size parser" where
  "p_binary_op depth sc factor oper cache ts =
     rbind (consume_token TLpar ts) (\<lambda>ts.
     rbind (p_expr (normalization_rules sc) factor cache ts) (\<lambda>(e1, cache, ts).
     rbind (consume_token TComma ts) (\<lambda>ts.
     rbind (p_expr (normalization_rules sc) factor cache ts) (\<lambda>(e2, cache, ts).
     rbind (consume_token TRpar ts) (\<lambda>ts.
     rbind (binary_op depth sc oper cache e1 e2) (\<lambda>(r, cache). Inr (r, cache, ts)))))))"

text \<open>The fuel \<open>n\<close> bounds the depth of nested operations.\<close>

primrec p_factor :: "nat \<Rightarrow> symbolic_scope \<Rightarrow> nat \<Rightarrow> dim_size parser" where
  "p_factor depth sc 0 cache ts = Inl RecursionError"
| "p_factor depth sc (Suc n) cache ts =
     (case tok_name ts of
        None \<Rightarrow> p_number cache ts
      | Some s \<Rightarrow>
          (case op_of_name s of
             None \<Rightarrow>
               rbind (from_var (normalization_rules sc) s) (\<lambda>d.
               rbind (next_tok ts) (\<lambda>ts. Inr (d, cache, ts)))
           | Some oper \<Rightarrow> rbind (next_tok ts) (p_binary_op depth sc (p_factor depth sc n) oper cache)))"

text \<open>Shapes; \<open>like\<close> is the shape that fills placeholders, in which \<open>None\<close> is an unknown dimension.\<close>

definition add_dim :: "int option list option \<Rightarrow> dim_size list \<Rightarrow> dim_size option \<Rightarrow> dim_size list res" where
  "add_dim like dims expr =
     (case expr of
        None \<Rightarrow> parse_err
      | Some e \<Rightarrow>
          (case (e, like) of
             (Const k, Some shape) \<Rightarrow>
               rbind (seq_get shape (length dims)) (\<lambda>d. if d \<noteq> Some k then parse_err else Inr (dims @ [e]))
           | _ \<Rightarrow> Inr (dims @ [e])))"

abbreviation placeholder :: "tok list \<Rightarrow> bool" where
  "placeholder ts \<equiv> ts \<noteq> [] \<and> hd ts = TName ''_''"

definition p_ellipsis :: "int option list \<Rightarrow> dim_size list \<Rightarrow> tok list \<Rightarrow> (dim_size list \<times> tok list) res" where
  "p_ellipsis shape dims ts =
     rbind (rfold (\<lambda>ad dims. add_dim (Some shape) dims (map_option Const ad)) (drop (length dims) shape) dims) (\<lambda>dims.
     rbind (next_tok ts) (\<lambda>ts. Inr (dims, ts)))"

text \<open>The loop of \<^verbatim>\<open>shape\<close>; the parser of expressions is an argument.\<close>

primrec p_dims :: "dim_size parser \<Rightarrow> int option list option \<Rightarrow> nat \<Rightarrow> dim_size list \<Rightarrow> dim_size list parser" where
  "p_dims expr like 0 dims cache ts = Inl RecursionError"
| "p_dims expr like (Suc n) dims cache ts =
     (if follow_shape ts then Inr (dims, cache, ts)
      else
        rbind (if at_tok TEllipsis ts \<or> at_tok (TName ''_'') ts
               then (case like of
                       None \<Rightarrow> parse_err
                     | Some shape \<Rightarrow>
                         if length shape < (if at_tok TEllipsis ts then length dims else length dims + 1)
                         then parse_err else Inr ())
               else Inr ()) (\<lambda>_.
        if at_tok TEllipsis ts
        then rbind (p_ellipsis (the like) dims ts) (\<lambda>(dims, ts). Inr (dims, cache, ts))
        else
          rbind (if at_tok (TName ''_'') ts
                 then rbind (next_tok ts) (\<lambda>ts'. Inr (map_option Const (the like ! length dims), cache, ts'))
                 else rbind (expr cache ts) (\<lambda>(e, cache, ts). Inr (Some e, cache, ts))) (\<lambda>(e, cache, ts).
          rbind (add_dim like dims e) (\<lambda>dims.
          if follow_shape ts then Inr (dims, cache, ts)
          else rbind (consume_token TComma ts) (p_dims expr like n dims cache)))))"

text \<open>The dimensions are kept in the parser, also those of the shape in nested parentheses.\<close>

primrec p_shape :: "dim_size parser \<Rightarrow> int option list option \<Rightarrow> nat \<Rightarrow> dim_size list parser" where
  "p_shape expr like 0 cache ts = Inl RecursionError"
| "p_shape expr like (Suc n) cache ts =
     (if at_tok TLpar ts
      then
        rbind (next_tok ts) (\<lambda>ts.
        rbind (p_shape expr like n cache ts) (\<lambda>(dims, cache, ts).
        rbind (consume_token TRpar ts) (\<lambda>ts. Inr (dims, cache, ts))))
      else p_dims expr like (length ts + 1) [] cache ts)"

definition parse_shape :: "nat \<Rightarrow> symbolic_scope \<Rightarrow> int option list option \<Rightarrow> cache \<Rightarrow> string \<Rightarrow> (dim_size list \<times> cache) res" where
  "parse_shape depth sc like cache spec =
     rbind (tokenize spec) (\<lambda>ts.
     rbind (p_shape (p_expr (normalization_rules sc) (p_factor depth sc (length ts))) like (length ts) cache ts) (\<lambda>(dims, cache, ts).
     rbind (expect_token ts (\<lambda>t. t = TEnd)) (\<lambda>_. Inr (dims, cache))))"

subsection \<open>Scopes and shapes\<close>

text \<open>\<^verbatim>\<open>str.find\<close>, with \<open>None\<close> for \<^verbatim>\<open>-1\<close>\<close>

fun str_find :: "string \<Rightarrow> string \<Rightarrow> nat option" where
  "str_find [] sub = (if sub = [] then Some 0 else None)"
| "str_find (c # cs) sub = (if take (length sub) (c # cs) = sub then Some 0 else map_option Suc (str_find cs sub))"

definition parse_and_process_explicit_constraint :: "nat \<Rightarrow> symbolic_scope \<Rightarrow> cache \<Rightarrow> string \<Rightarrow> symbolic_scope res" where
  "parse_and_process_explicit_constraint depth sc cache c_str =
     rbind
       (case str_find c_str ''=='' of
          Some pos \<Rightarrow> Inr (pos, CmpEQ, True)
        | None \<Rightarrow>
            (case str_find c_str ''>='' of
               Some pos \<Rightarrow> Inr (pos, CmpGEQ, True)
             | None \<Rightarrow>
                 (case str_find c_str ''<='' of
                    Some pos \<Rightarrow> Inr (pos, CmpGEQ, False)
                  | None \<Rightarrow> Inl (ValueError ''Constraint parsing error'')))) (\<lambda>(pos, cmp, is_geq).
     rbind (parse_shape depth sc None cache (take pos c_str)) (\<lambda>(s1, cache).
     rbind (case s1 of [e] \<Rightarrow> Inr e | _ \<Rightarrow> Inl (ValueError ''unpack'')) (\<lambda>e1.
     rbind (parse_shape depth sc None cache (drop (pos + 2) c_str)) (\<lambda>(s2, cache).
     rbind (case s2 of [e] \<Rightarrow> Inr e | _ \<Rightarrow> Inl (ValueError ''unpack'')) (\<lambda>e2.
     let (e1, e2) = (if cmp = CmpGEQ \<and> \<not> is_geq then (e2, e1) else (e1, e2)) in
     rbind (dim_sub (normalization_rules sc) e1 e2) (\<lambda>diff.
     process_explicit_constraint sc cmp e1 e2 diff))))))"

text \<open>\<^verbatim>\<open>SymbolicScope(constraints)\<close>; the cache of bounds is cleared after every constraint.\<close>

definition new_scope :: "nat \<Rightarrow> string list \<Rightarrow> symbolic_scope res" where
  "new_scope depth constraints =
     rfold (\<lambda>c_str sc. parse_and_process_explicit_constraint depth sc [] c_str) constraints
       \<lparr>normalization_rules = [], explicit_constraints = []\<rparr>"

definition symbolic_shape ::
  "nat \<Rightarrow> string option \<Rightarrow> string list \<Rightarrow> (symbolic_scope \<times> cache) option \<Rightarrow> int option list option
    \<Rightarrow> (dim_size list \<times> symbolic_scope \<times> cache) res" where
  "symbolic_shape depth shape_spec constraints scope like =
     (let spec = (case shape_spec of None \<Rightarrow> ''...'' | Some s \<Rightarrow> s) in
      rbind (case scope of
               None \<Rightarrow> rbind (new_scope depth constraints) (\<lambda>sc. Inr (sc, []))
             | Some sc \<Rightarrow> if constraints \<noteq> [] then Inl (ValueError ''scope and constraints'') else Inr sc) (\<lambda>(sc, cache).
      rbind (parse_shape depth sc like cache spec) (\<lambda>(dims, cache). Inr (dims, sc, cache))))"

end
