(* ===== verification/DimParseProps.thy ===== *)
theory DimParseProps
  imports DimParse DimProps "HOL-Library.Multiset"
begin

text \<open>
  The text of a symbolic shape is its shape: parsing what the printer prints gives the dimensions
  back, exactly. The tokenizer is shown to cut the printed text where its parts meet; the parser is
  then followed through factors, products, sums, dimensions and the shape.
\<close>

subsection \<open>Cutting the printed text\<close>

definition stops :: "string \<Rightarrow> bool" where
  "stops rest \<longleftrightarrow> rest = [] \<or> \<not> is_name_char (hd rest)"

text \<open>\<open>s\<close> is cut into the tokens \<open>ts\<close> whatever follows, if it does not lengthen the last token.\<close>

definition lexes :: "string \<Rightarrow> tok list \<Rightarrow> bool" where
  "lexes s ts \<longleftrightarrow> (\<forall>rest. stops rest \<longrightarrow> tokenize (s @ rest) = rbind (tokenize rest) (\<lambda>us. Inr (ts @ us)))"

definition symbol_char :: "char \<Rightarrow> bool" where
  "symbol_char c \<longleftrightarrow> c \<in> set ''()*,+-^''"

lemmas char_class_defs = is_space_def is_digit_def is_name_start_def is_name_char_def symbol_char_def

lemma tokenize_space: "tokenize (CHR '' '' # cs) = tokenize cs"
  by (simp add: tokenize.simps is_space_def)

lemma tokenize_symbol:
  "symbol_char c \<Longrightarrow> tokenize (c # cs) = rbind (tokenize cs) (\<lambda>ts. Inr (symbol_tok c # ts))"
  by (auto simp: tokenize.simps char_class_defs)

lemma symbol_stops: "symbol_char c \<Longrightarrow> stops (c # s)"
  by (auto simp: stops_def char_class_defs)

lemma space_stops: "stops (CHR '' '' # s)"
  by (simp add: stops_def char_class_defs)

lemma lexes_Nil: "lexes [] []"
  by (simp add: lexes_def)

lemma lexes_append:
  assumes "lexes s a" "lexes s' b" "stops s'"
  shows "lexes (s @ s') (a @ b)"
  unfolding lexes_def
proof (intro allI impI)
  fix rest assume rest: "stops rest"
  then have "stops (s' @ rest)" using assms(3) by (cases s') (auto simp: stops_def)
  then show "tokenize ((s @ s') @ rest) = rbind (tokenize rest) (\<lambda>us. Inr ((a @ b) @ us))"
    using assms(1,2) rest by (simp add: lexes_def rbind_assoc)
qed

lemma lexes_space: "lexes s a \<Longrightarrow> lexes (CHR '' '' # s) a"
  by (simp add: lexes_def tokenize_space)

lemma lexes_symbol: "symbol_char c \<Longrightarrow> lexes s a \<Longrightarrow> lexes (c # s) (symbol_tok c # a)"
  by (simp add: lexes_def tokenize_symbol rbind_assoc)

lemma takeWhile_stops:
  assumes "list_all p s" "rest = [] \<or> \<not> p (hd rest)"
  shows "takeWhile p (s @ rest) = s" "dropWhile p (s @ rest) = rest"
  using assms by (induction s) (auto simp: takeWhile_eq_Nil_iff dropWhile_eq_self_iff)

definition is_name :: "string \<Rightarrow> bool" where
  "is_name v \<longleftrightarrow> v \<noteq> [] \<and> is_name_start (hd v) \<and> list_all is_name_char v"

lemma lexes_name:
  assumes "is_name v"
  shows "lexes v [TName v]"
  unfolding lexes_def
proof (intro allI impI)
  fix rest assume rest: "stops rest"
  obtain c cs where v: "v = c # cs" "is_name_start c" "list_all is_name_char (c # cs)"
    using assms by (cases v) (auto simp: is_name_def)
  have c: "\<not> is_space c" "\<not> is_digit c" using v(2) by (auto simp: char_class_defs Let_def)
  have w: "takeWhile is_name_char (c # cs @ rest) = c # cs" "dropWhile is_name_char (c # cs @ rest) = rest"
    using takeWhile_stops [OF v(3), of rest] rest by (simp_all add: stops_def)
  show "tokenize (v @ rest) = rbind (tokenize rest) (\<lambda>us. Inr ([TName v] @ us))"
    unfolding v(1) append_Cons tokenize.simps(2) w using c v(2) by simp
qed

subsection \<open>Numbers\<close>

lemma of_char_digit: "d < 10 \<Longrightarrow> (of_char (char_of (48 + d) :: char) :: nat) = 48 + d"
  by simp

lemma is_digit_char: "d < 10 \<Longrightarrow> is_digit (char_of (48 + d))" for d :: nat
  unfolding is_digit_def of_char_digit by simp

lemma str_nat_digits: "list_all is_digit (str_nat n)"
proof (induction n rule: str_nat.induct)
  case (1 n)
  then show ?case
    using is_digit_char [of n] is_digit_char [of "n mod 10"] by (subst str_nat.simps) simp
qed

lemma str_nat_nonempty: "str_nat n \<noteq> []"
  by (subst str_nat.simps) simp

lemma number_ok_digits: "list_all is_digit s \<Longrightarrow> s \<noteq> [] \<Longrightarrow> number_ok s"
  by (induction s rule: number_ok.induct) (auto simp: is_digit_def)

lemma str_nat_hd: "n > 0 \<Longrightarrow> hd (str_nat n) \<noteq> CHR ''0''"
proof (induction n rule: str_nat.induct)
  case (1 n)
  show ?case
  proof (cases "n < 10")
    case True
    have "(of_char (char_of (48 + n) :: char) :: nat) \<noteq> of_char (CHR ''0'')"
      unfolding of_char_digit [OF True] using 1(2) by simp
    then have "(char_of (48 + n) :: char) \<noteq> CHR ''0''" by metis
    then show ?thesis using True by (subst str_nat.simps) simp
  next
    case False
    then show ?thesis using 1 str_nat_nonempty [of "n div 10"] by (subst str_nat.simps) simp
  qed
qed

lemma decimal_str_nat: "decimal (str_nat n)"
proof (cases "n = 0")
  case True
  then show ?thesis by (simp add: decimal_def str_nat.simps is_digit_def)
next
  case False
  then show ?thesis
    using str_nat_hd [of n] number_ok_digits [OF str_nat_digits str_nat_nonempty, of n]
    by (simp add: decimal_def)
qed

lemma int_of_digits_str_nat: "int_of_digits (str_nat n) = int n"
proof -
  have f: "filter is_digit (str_nat n) = str_nat n" for n
    using str_nat_digits [of n] by (simp add: list_all_iff)
  have "foldl (\<lambda>n c. 10 * n + (of_char c - 48)) 0 (str_nat n) = n"
  proof (induction n rule: str_nat.induct)
    case (1 n)
    show ?case
    proof (cases "n < 10")
      case True
      then show ?thesis using of_char_digit [OF True] by (subst str_nat.simps) simp
    next
      case False
      then show ?thesis using 1 of_char_digit [of "n mod 10"] by (subst str_nat.simps) simp
    qed
  qed
  then show ?thesis by (simp add: int_of_digits_def f)
qed

lemma lexes_number: "lexes (str_nat n) [TNumber (str_nat n)]"
  unfolding lexes_def
proof (intro allI impI)
  fix rest assume rest: "stops rest"
  obtain c cs where s: "str_nat n = c # cs" using str_nat_nonempty [of n] by (cases "str_nat n") auto
  have d: "list_all is_digit (c # cs)" using str_nat_digits [of n] s by simp
  then have n: "list_all is_name_char (c # cs)" by (auto simp: list_all_iff is_name_char_def)
  have w: "takeWhile is_name_char (c # cs @ rest) = c # cs" "dropWhile is_name_char (c # cs @ rest) = rest"
    using takeWhile_stops [OF n, of rest] rest by (simp_all add: stops_def)
  have c: "is_digit c" "\<not> is_space c" using d by (auto simp: is_digit_def is_space_def)
  show "tokenize (str_nat n @ rest) = rbind (tokenize rest) (\<lambda>us. Inr ([TNumber (str_nat n)] @ us))"
    unfolding s append_Cons tokenize.simps(2) w using c decimal_str_nat [of n] s by simp
qed

subsection \<open>The arithmetic of the parser\<close>

text \<open>Without normalization rules a sum of terms stays as it is.\<close>

lemma normalize_plain:
  "\<forall>p \<in> set ts. snd p \<noteq> 0 \<Longrightarrow> normalize_sorted_terms [] ts = Inr (to_dim_size ts)"
  by (simp add: normalize_sorted_terms_def normalize_first_plain)

lemma mul_unit_terms:
  assumes "term_mul t u = v" "v \<noteq> []" "c \<noteq> 0"
  shows "dim_mul [] (Sym [(t, c)]) (Sym [(u, 1)]) = Inr (Sym [(v, c)])"
  using assms by (simp add: mul_coeffs_def add_coeff_def coeff_to_sorted_terms_def normalize_plain)

lemma unit_pow:
  assumes "n > 0"
  shows "dim_pow [] [([(f, 1)], 1)] n = Inr (Sym [([(f, n)], 1)])"
proof -
  let ?x = "Sym [([(f, 1)], 1)]"
  have f: "factor_cmp f f = 0" by (rule factor_order.cmp_refl) simp
  have "rfold (\<lambda>x acc. dim_mul [] acc x) (replicate m ?x) (Sym [([(f, k)], 1)]) = Inr (Sym [([(f, k + int m)], 1)])"
    if "k > 0" for m k
    using that
  proof (induction m arbitrary: k)
    case (Suc m)
    have "term_mul [(f, k)] [(f, 1)] = [(f, k + 1)]" using Suc.prems f by (simp add: term_mul_def)
    from mul_unit_terms [OF this] Suc.IH [of "k + 1"] Suc.prems show ?case by (simp add: algebra_simps)
  qed simp
  from this [of 1 "nat n - 1"] assms show ?thesis
    by (cases "nat n") (simp_all add: dim_pow_def scale_expr_def)
qed

text \<open>A number is the product of no factors.\<close>

definition product :: "dim_term \<Rightarrow> int \<Rightarrow> dim_size" where
  "product t c = (if t = [] then Const c else Sym [(t, c)])"

definition product_acc :: "dim_size option \<Rightarrow> dim_term \<Rightarrow> int \<Rightarrow> bool" where
  "product_acc acc t c \<longleftrightarrow> acc = Some (product t c) \<or> acc = None \<and> t = [] \<and> c = 1"

lemma term_mul_larger:
  assumes "term_ok F ((f, n) # t)"
  shows "term_mul t [(f, n)] = (f, n) # t"
proof -
  have n: "n \<noteq> 0" and t: "pos_exps t" using assms by (auto simp: term_ok_def pos_exps_def)
  show ?thesis
  proof (cases t)
    case Nil
    then show ?thesis using n by (simp add: term_mul_def)
  next
    case (Cons p t')
    then have "factor_cmp f (fst p) > 0" using assms by (auto simp: term_ok_def strictly_descending_def)
    then have "factor_cmp (fst p) f < 0" using factor_order.cmp_sym [of f "fst p"] by simp
    then show ?thesis using Cons n scale_one [OF t]
      by (cases p) (simp add: term_mul_def linear_combination_step(1))
  qed
qed

lemma mul_factor_product:
  assumes "product_acc acc t c" "term_ok F ((f, n) # t)" "c \<noteq> 0"
  shows "mul_factor [] acc (Sym [([(f, n)], 1)]) = Inr (product ((f, n) # t) c)"
proof (cases "t = []")
  case True
  then show ?thesis
    using assms by (auto simp: product_acc_def product_def mul_factor_def scale_expr_def linear_combination_def
      normalize_plain split: if_splits)
next
  case False
  then show ?thesis
    using assms mul_unit_terms [OF term_mul_larger [OF assms(2)]]
    by (simp add: product_acc_def product_def mul_factor_def)
qed

lemma neg_product: "c \<noteq> 0 \<Longrightarrow> dim_neg [] (product t c) = Inr (product t (- c))"
  by (simp add: product_def linear_combination_def normalize_plain)

lemma append_term:
  assumes "terms_ok F (e @ [(t, c)])"
  shows "linear_combination_sorted_pairs term_cmp e 1 [(t, c)] 1 = e @ [(t, c)]"
  using assms
proof (induction e)
  case (Cons p e)
  obtain u d where p: "p = (u, d)" by (cases p)
  have "terms_ok F (e @ [(t, c)])" "term_cmp u t > 0" using terms_ok_Cons [of F p "e @ [(t, c)]"] Cons.prems p by auto
  then show ?case using Cons.IH p by (simp add: linear_combination_step(2))
qed simp

lemma add_product:
  assumes "terms_ok F (e @ [(t, c)])" "e \<noteq> []"
  shows "dim_add [] (Sym e) (product t c) = Inr (to_dim_size (e @ [(t, c)]))"
proof -
  have c: "c \<noteq> 0" "\<forall>p \<in> set (e @ [(t, c)]). snd p \<noteq> 0" using assms(1) by (auto simp: terms_ok_def)
  show ?thesis
    using c append_term [OF assms(1)] normalize_plain [OF c(2)]
    by (auto simp: product_def linear_combination_def)
qed

lemma to_dim_size_sum:
  assumes "terms_ok F (e @ p # e')" "e \<noteq> []"
  shows "to_dim_size (e @ e'') = Sym (e @ e'')"
proof -
  obtain u d e1 where e: "e = (u, d) # e1" using assms(2) by (cases e) auto
  have "term_cmp u (fst p) > 0" using assms(1) e terms_ok_Cons [of F "(u, d)" "e1 @ p # e'"] by auto
  moreover have "term_ok F (fst p)" using assms(1) by (auto simp: terms_ok_def)
  ultimately have "u \<noteq> []" using term_one_least [of F "fst p"] by auto
  then show ?thesis using e by simp
qed

subsection \<open>Factors and products\<close>

lemmas token_simps = follow_shape_def follow_expr_def follow_term_def at_tok_def expect_token_def consume_token_def

lemma next_tok_append: "us \<noteq> [] \<Longrightarrow> next_tok (t # us) = Inr us"
  by (cases us) simp_all

text \<open>The first token of a factor: a number, or a name that is not the placeholder.\<close>

fun starts :: "tok list \<Rightarrow> bool" where
  "starts (TName s # ts) = (s \<noteq> ''_'')"
| "starts (TNumber s # ts) = True"
| "starts _ = False"

lemma starts_append: "starts ts \<Longrightarrow> starts (ts @ us)"
  by (cases ts rule: starts.cases) simp_all

lemma startsD: "starts ts \<Longrightarrow> ts \<noteq> [] \<and> hd ts \<notin> {TMinus, TPlus, TLpar, TRpar, TComma, TEnd, TEllipsis, TName ''_''}"
  by (cases ts rule: starts.cases) simp_all

definition factor_text :: "nat \<Rightarrow> symbolic_scope \<Rightarrow> dim_factor \<Rightarrow> tok list \<Rightarrow> bool" where
  "factor_text depth sc f ts \<longleftrightarrow>
     lexes (str_factor f) ts \<and> starts ts \<and>
     (\<forall>N \<ge> length ts. \<forall>cache us. us \<noteq> [] \<longrightarrow>
        p_factor depth sc N cache (ts @ us) = Inr (Sym [([(f, 1)], 1)], cache, us))"

definition power_text :: "nat \<Rightarrow> symbolic_scope \<Rightarrow> dim_factor \<Rightarrow> int \<Rightarrow> tok list \<Rightarrow> bool" where
  "power_text depth sc f n ts \<longleftrightarrow>
     lexes (str_power (str_factor f) n) ts \<and> starts ts \<and>
     (\<forall>N \<ge> length ts. \<forall>cache us. us \<noteq> [] \<and> hd us \<noteq> TCircumflex \<longrightarrow>
        (\<exists>us'. p_factor depth sc N cache (ts @ us) = Inr (Sym [([(f, 1)], 1)], cache, us') \<and>
               p_power [] (Sym [([(f, 1)], 1)]) us' = Inr (Sym [([(f, n)], 1)], us)))"

lemma power_text_ex:
  assumes "factor_text depth sc f ts" "n > 0"
  obtains ts' where "power_text depth sc f n ts'"
proof (cases "n = 1")
  case True
  have "power_text depth sc f n ts"
    using assms(1) unfolding power_text_def factor_text_def str_power_def p_power_def at_tok_def True by simp
  then show thesis ..
next
  case False
  let ?e = "[TCircumflex, TNumber (str_nat (nat n))]"
  have e: "lexes (''^'' @ str_int n) ?e" "stops (''^'' @ str_int n)"
    using lexes_symbol [of "CHR ''^''", OF _ lexes_number [of "nat n"]] symbol_stops [of "CHR ''^''"] assms(2)
    by (simp_all add: str_int_def symbol_char_def symbol_tok_def)
  have "power_text depth sc f n (ts @ ?e)"
    unfolding power_text_def
  proof (intro conjI allI impI)
    show "lexes (str_power (str_factor f) n) (ts @ ?e)"
      using lexes_append [OF _ e] assms(1) False by (simp add: factor_text_def str_power_def)
    show "starts (ts @ ?e)" using assms(1) by (simp add: factor_text_def starts_append)
    fix N cache and us :: "tok list" assume N: "length (ts @ ?e) \<le> N" and us: "us \<noteq> [] \<and> hd us \<noteq> TCircumflex"
    have "p_factor depth sc N cache (ts @ ?e @ us) = Inr (Sym [([(f, 1)], 1)], cache, ?e @ us)"
      using assms(1) N unfolding factor_text_def by simp
    moreover have "p_power [] (Sym [([(f, 1)], 1)]) (?e @ us) = Inr (Sym [([(f, n)], 1)], us)"
      using us assms(2) by (simp add: p_power_def at_tok_def next_tok_append int_of_digits_str_nat unit_pow)
    ultimately show "\<exists>us'. p_factor depth sc N cache ((ts @ ?e) @ us) = Inr (Sym [([(f, 1)], 1)], cache, us') \<and>
        p_power [] (Sym [([(f, 1)], 1)]) us' = Inr (Sym [([(f, n)], 1)], us)" by auto
  qed
  then show thesis ..
qed

definition product_text :: "nat \<Rightarrow> symbolic_scope \<Rightarrow> (dim_factor \<times> int) list \<Rightarrow> tok list \<Rightarrow> bool" where
  "product_text depth sc fs ts \<longleftrightarrow>
     lexes (str_join ''*'' (map (\<lambda>(f, n). str_power (str_factor f) n) fs)) ts \<and> starts ts \<and> length fs \<le> length ts \<and>
     (\<forall>N m cache us acc t c. length ts \<le> N \<longrightarrow> length fs \<le> m \<longrightarrow> product_acc acc t c \<longrightarrow> c \<noteq> 0 \<longrightarrow>
        term_ok UNIV (rev fs @ t) \<longrightarrow> follow_term us \<longrightarrow>
        p_term [] (p_factor depth sc N) m acc cache (ts @ us) = Inr (product (rev fs @ t) c, cache, us))"

lemma follow_termD: "follow_term us \<Longrightarrow> us \<noteq> [] \<and> hd us \<noteq> TCircumflex"
  by (auto simp: token_simps)

lemma term_ok_tail: "term_ok F (u @ t) \<Longrightarrow> term_ok F t"
  by (auto simp: term_ok_def strictly_descending_def sorted_wrt_append)

lemma product_text_ex:
  assumes "fs \<noteq> []" "\<forall>(f, n) \<in> set fs. n > 0 \<and> (\<exists>ts. factor_text depth sc f ts)"
  shows "\<exists>ts. product_text depth sc fs ts"
  using assms
proof (induction fs)
  case (Cons p fs)
  obtain f n where p: "p = (f, n)" by (cases p)
  from Cons.prems(2) p obtain ts0 where "factor_text depth sc f ts0" "n > 0" by auto
  then obtain ts1 where ts1: "power_text depth sc f n ts1" by (rule power_text_ex)
  note r1 = ts1 [unfolded power_text_def]
  have first: "p_term [] (p_factor depth sc N) m acc cache (ts1 @ us) =
      (if follow_term us then Inr (product ((f, n) # t) c, cache, us)
       else rbind (consume_token TStar us) (p_term [] (p_factor depth sc N) (m - 1) (Some (product ((f, n) # t) c)) cache))"
    if "length ts1 \<le> N" "m > 0" "product_acc acc t c" "c \<noteq> 0" "term_ok UNIV ((f, n) # t)" "us \<noteq> []" "hd us \<noteq> TCircumflex"
    for N m acc t c cache us
  proof -
    from r1 that(1,6,7) obtain us' where
      "p_factor depth sc N cache (ts1 @ us) = Inr (Sym [([(f, 1)], 1)], cache, us')"
      "p_power [] (Sym [([(f, 1)], 1)]) us' = Inr (Sym [([(f, n)], 1)], us)" by blast
    then show ?thesis using that(2) mul_factor_product [OF that(3,5,4)] by (cases m) simp_all
  qed
  show ?case
  proof (cases "fs = []")
    case True
    have "product_text depth sc (p # fs) ts1"
      unfolding product_text_def
    proof (intro conjI allI impI)
      show "starts ts1" using r1 by blast
      then show "length (p # fs) \<le> length ts1" using True by (cases ts1) simp_all
      show "lexes (str_join ''*'' (map (\<lambda>(f, n). str_power (str_factor f) n) (p # fs))) ts1" using r1 True p by simp
      fix N m cache us acc t c
      assume a: "length ts1 \<le> N" "length (p # fs) \<le> m" "product_acc acc t c" "c \<noteq> (0 :: int)"
        "term_ok UNIV (rev (p # fs) @ t)" "follow_term us"
      then show "p_term [] (p_factor depth sc N) m acc cache (ts1 @ us) = Inr (product (rev (p # fs) @ t) c, cache, us)"
        using first [of N m acc t c us cache] follow_termD [OF a(6)] True p by simp
    qed
    then show ?thesis ..
  next
    case False
    with Cons obtain ts2 where ts2: "product_text depth sc fs ts2" by auto
    note r2 = ts2 [unfolded product_text_def]
    let ?s2 = "str_join ''*'' (map (\<lambda>(f, n). str_power (str_factor f) n) fs)"
    have "lexes (''*'' @ ?s2) (TStar # ts2)" "stops (''*'' @ ?s2)"
      using lexes_symbol [of "CHR ''*''" ?s2 ts2] r2 symbol_stops [of "CHR ''*''" ?s2]
      by (simp_all add: symbol_char_def symbol_tok_def)
    then have lex: "lexes (str_power (str_factor f) n @ ''*'' @ ?s2) (ts1 @ TStar # ts2)"
      using r1 lexes_append by blast
    have "product_text depth sc (p # fs) (ts1 @ TStar # ts2)"
      unfolding product_text_def
    proof (intro conjI allI impI)
      show "starts (ts1 @ TStar # ts2)" using r1 starts_append by blast
      show "length (p # fs) \<le> length (ts1 @ TStar # ts2)" using r2 by simp
      show "lexes (str_join ''*'' (map (\<lambda>(f, n). str_power (str_factor f) n) (p # fs))) (ts1 @ TStar # ts2)"
        using lex False p by (cases fs) simp_all
      fix N m cache us acc t c
      assume a: "length (ts1 @ TStar # ts2) \<le> N" "length (p # fs) \<le> m" "product_acc acc t c" "c \<noteq> (0 :: int)"
        "term_ok UNIV (rev (p # fs) @ t)" "follow_term us"
      have ok: "term_ok UNIV ((f, n) # t)" using term_ok_tail [of UNIV "rev fs"] a(5) p by simp
      have us: "ts2 @ us \<noteq> []" using follow_termD [OF a(6)] by simp
      have "p_term [] (p_factor depth sc N) (m - 1) (Some (product ((f, n) # t) c)) cache (ts2 @ us)
          = Inr (product (rev fs @ (f, n) # t) c, cache, us)"
        using r2 a p by (simp add: product_acc_def)
      then show "p_term [] (p_factor depth sc N) m acc cache ((ts1 @ TStar # ts2) @ us)
          = Inr (product (rev (p # fs) @ t) c, cache, us)"
        using first [of N m acc t c "TStar # ts2 @ us" cache] a(1-4) ok p us by (simp add: token_simps next_tok_append)
    qed
    then show ?thesis ..
  qed
qed simp

subsection \<open>Terms\<close>

lemma sort_term:
  assumes "term_ok F t"
  shows "sort t = rev t"
proof (rule properties_for_sort)
  have "sorted_wrt (\<lambda>p q. factor_cmp (fst p) (fst q) > 0) t"
    using assms by (simp add: term_ok_def strictly_descending_def)
  then have "sorted_wrt (\<lambda>q p. p \<ge> q) (rev t)"
  proof (unfold sorted_wrt_rev, elim sorted_wrt_mono_rel [rotated])
    fix p q :: "dim_factor \<times> int" assume "factor_cmp (fst p) (fst q) > 0"
    then have "fst q < fst p"
      using factor_order.cmp_sym [of "fst p" "fst q"] by (simp add: less_dim_factor_def factor_lt_def)
    then show "q \<le> p" by (cases p; cases q) simp
  qed
  then show "sorted (rev t)" by simp
qed simp

definition str_body :: "dim_term \<Rightarrow> int \<Rightarrow> string" where
  "str_body t k =
     (if t = [] then str_int \<bar>k\<bar> else if \<bar>k\<bar> = 1 then str_term t else str_int \<bar>k\<bar> @ ''*'' @ str_term t)"

lemma str_one_term_body:
  "k \<noteq> 0 \<Longrightarrow> str_one_term t (str_term t) k = (if k > 0 then CHR ''+'' else CHR ''-'') # CHR '' '' # str_body t k"
  by (simp add: str_one_term_def str_body_def Let_def)

definition term_text :: "nat \<Rightarrow> symbolic_scope \<Rightarrow> dim_term \<Rightarrow> int \<Rightarrow> tok list \<Rightarrow> bool" where
  "term_text depth sc t k ts \<longleftrightarrow>
     lexes (str_body t k) ts \<and> starts ts \<and>
     (\<forall>N m cache us. length ts \<le> N \<longrightarrow> length ts \<le> m \<longrightarrow> follow_term us \<longrightarrow>
        p_term [] (p_factor depth sc N) m None cache (ts @ us) = Inr (product t \<bar>k\<bar>, cache, us))"

definition factors_text :: "nat \<Rightarrow> symbolic_scope \<Rightarrow> dim_term \<Rightarrow> bool" where
  "factors_text depth sc t \<longleftrightarrow> (\<forall>(f, n) \<in> set t. \<exists>ts. factor_text depth sc f ts)"

lemma lexes_int: "k \<ge> 0 \<Longrightarrow> lexes (str_int k) [TNumber (str_nat (nat k))]"
  by (simp add: str_int_def lexes_number)

lemma p_factor_number:
  "N > 0 \<Longrightarrow> us \<noteq> [] \<Longrightarrow> k \<ge> 0 \<Longrightarrow>
     p_factor depth sc N cache (TNumber (str_nat (nat k)) # us) = Inr (Const k, cache, us)"
  by (cases N) (simp_all add: p_number_def at_tok_def next_tok_append int_of_digits_str_nat)

lemma term_text_ex:
  assumes "term_ok UNIV t" "factors_text depth sc t" "k \<noteq> 0 \<or> t = []"
  shows "\<exists>ts. term_text depth sc t k ts"
proof (cases "t = []")
  case True
  let ?n = "TNumber (str_nat (nat \<bar>k\<bar>))"
  have "term_text depth sc t k [?n]"
    unfolding term_text_def
  proof (intro conjI allI impI)
    show "lexes (str_body t k) [?n]" using True lexes_int [of "\<bar>k\<bar>"] by (simp add: str_body_def)
    fix N m cache us assume "length [?n] \<le> N" "length [?n] \<le> m" "follow_term us"
    then show "p_term [] (p_factor depth sc N) m None cache ([?n] @ us) = Inr (product t \<bar>k\<bar>, cache, us)"
      using follow_termD [of us] p_factor_number [of N us "\<bar>k\<bar>" depth sc cache] True
      by (cases m) (simp_all add: p_power_def at_tok_def mul_factor_def product_def)
  qed simp
  then show ?thesis ..
next
  case False
  have "\<exists>ts. product_text depth sc (rev t) ts"
    by (rule product_text_ex) (use False assms in \<open>auto simp: term_ok_def factors_text_def\<close>)
  then obtain ts where "product_text depth sc (rev t) ts" ..
  note r = this [unfolded product_text_def]
  have lex: "lexes (str_term t) ts" using r sort_term [OF assms(1)] by (simp add: str_term_def)
  show ?thesis
  proof (cases "\<bar>k\<bar> = 1")
    case True
    have "term_text depth sc t k ts"
      unfolding term_text_def
    proof (intro conjI allI impI)
      fix N m cache us assume "length ts \<le> N" "length ts \<le> m" "follow_term us"
      then show "p_term [] (p_factor depth sc N) m None cache (ts @ us) = Inr (product t \<bar>k\<bar>, cache, us)"
        using r assms(1) True by (simp add: product_acc_def)
    qed (use r lex False True in \<open>simp_all add: str_body_def\<close>)
    then show ?thesis ..
  next
    case one: False
    let ?n = "TNumber (str_nat (nat \<bar>k\<bar>))"
    have "lexes (''*'' @ str_term t) (TStar # ts)" "stops (''*'' @ str_term t)"
      using lexes_symbol [of "CHR ''*''" _ ts] lex symbol_stops [of "CHR ''*''"]
      by (simp_all add: symbol_char_def symbol_tok_def)
    then have lex': "lexes (str_int \<bar>k\<bar> @ ''*'' @ str_term t) ([?n] @ TStar # ts)"
      using lexes_append [OF lexes_int] by simp
    have "term_text depth sc t k (?n # TStar # ts)"
      unfolding term_text_def
    proof (intro conjI allI impI)
      show "lexes (str_body t k) (?n # TStar # ts)" using lex' False one by (simp add: str_body_def)
      fix N m cache us assume a: "length (?n # TStar # ts) \<le> N" "length (?n # TStar # ts) \<le> m" "follow_term us"
      then have us: "ts @ us \<noteq> []" using follow_termD [of us] by simp
      have "length t \<le> length ts" using r by simp
      then have "p_term [] (p_factor depth sc N) (m - 1) (Some (Const \<bar>k\<bar>)) cache (ts @ us) = Inr (product t \<bar>k\<bar>, cache, us)"
        using r [THEN conjunct2, THEN conjunct2, THEN conjunct2, rule_format, of N "m - 1" "Some (Const \<bar>k\<bar>)" "[]" "\<bar>k\<bar>" us cache]
          a assms False by (simp add: product_acc_def product_def)
      then show "p_term [] (p_factor depth sc N) m None cache ((?n # TStar # ts) @ us) = Inr (product t \<bar>k\<bar>, cache, us)"
        using a p_factor_number [of N "TStar # ts @ us" "\<bar>k\<bar>" depth sc cache] us
        by (cases m) (simp_all add: p_power_def mul_factor_def token_simps next_tok_append)
    qed simp
    then show ?thesis ..
  qed
qed

subsection \<open>Sums\<close>

definition str_rest :: "dim_expr \<Rightarrow> string" where
  "str_rest e = concat (map (\<lambda>(t, k). CHR '' '' # str_one_term t (str_term t) k) e)"

lemma str_join_space: "str_join '' '' (map f (p # e)) = f p @ concat (map (\<lambda>q. CHR '' '' # f q) e)"
  by (induction e arbitrary: p) simp_all

lemma str_expr_Cons: "str_expr ((t, k) # e) = strip_plus (str_one_term t (str_term t) k @ str_rest e)"
  unfolding str_expr_def str_join_space str_rest_def by (simp add: split_def)

definition sum_text :: "nat \<Rightarrow> symbolic_scope \<Rightarrow> dim_term \<Rightarrow> int \<Rightarrow> dim_expr \<Rightarrow> tok list \<Rightarrow> bool" where
  "sum_text depth sc t k e ts \<longleftrightarrow>
     lexes (str_body t k @ str_rest e) ts \<and> starts ts \<and> length e < length ts \<and>
     (\<forall>N m cache us e0. length ts \<le> N \<longrightarrow> length e < m \<longrightarrow> terms_ok UNIV (e0 @ (t, k) # e) \<longrightarrow> follow_expr us \<longrightarrow>
        p_sum [] (p_factor depth sc N) m (k < 0) (if e0 = [] then None else Some (Sym e0)) cache (ts @ us)
          = Inr (to_dim_size (e0 @ (t, k) # e), cache, us))"

lemma add_term_product:
  assumes "terms_ok UNIV (e0 @ [(t, k)])"
  shows "add_term [] (k < 0) (if e0 = [] then None else Some (Sym e0)) (product t \<bar>k\<bar>) = Inr (to_dim_size (e0 @ [(t, k)]))"
proof -
  have "k \<noteq> 0" using assms by (auto simp: terms_ok_def)
  then show ?thesis
    using neg_product [of "\<bar>k\<bar>" t] add_product [OF assms] by (auto simp: add_term_def product_def abs_if)
qed

lemma follow_exprD: "follow_expr us \<Longrightarrow> us \<noteq> [] \<and> follow_term us"
  by (auto simp: token_simps)

lemma terms_ok_prefix: "terms_ok F (e0 @ e) \<Longrightarrow> terms_ok F e0"
  by (auto simp: terms_ok_def strictly_descending_def sorted_wrt_append)

lemma sum_text_ex:
  assumes "terms_ok UNIV ((t, k) # e)" "\<forall>(t, k) \<in> set ((t, k) # e). factors_text depth sc t"
  shows "\<exists>ts. sum_text depth sc t k e ts"
  using assms
proof (induction e arbitrary: t k)
  case (Nil t k)
  then obtain ts where ts: "term_text depth sc t k ts" using term_text_ex [of t depth sc k] by auto
  note r = ts [unfolded term_text_def]
  have "sum_text depth sc t k [] ts"
    unfolding sum_text_def
  proof (intro conjI allI impI)
    show "length [] < length ts" using r startsD [of ts] by simp
    fix N m cache us e0
    assume a: "length ts \<le> N" "length [] < m" "terms_ok UNIV (e0 @ [(t, k)])" "follow_expr us"
    then show "p_sum [] (p_factor depth sc N) m (k < 0) (if e0 = [] then None else Some (Sym e0)) cache (ts @ us)
          = Inr (to_dim_size (e0 @ [(t, k)]), cache, us)"
      using r follow_exprD [OF a(4)] add_term_product [OF a(3)] by (cases m) simp_all
  qed (use r in \<open>simp_all add: str_rest_def\<close>)
  then show ?case ..
next
  case (Cons p e)
  obtain u j where p: "p = (u, j)" by (cases p)
  have ok: "term_ok UNIV t" "k \<noteq> 0" "terms_ok UNIV ((u, j) # e)" "j \<noteq> 0"
    using Cons.prems(1) p terms_ok_Cons [of UNIV "(t, k)" "(u, j) # e"] terms_ok_Cons [of UNIV "(u, j)" e] by simp_all
  then obtain ts1 where ts1: "term_text depth sc t k ts1" using term_text_ex [of t depth sc k] Cons.prems(2) by auto
  note r1 = ts1 [unfolded term_text_def]
  from Cons.IH [of u j] ok Cons.prems(2) p obtain ts2 where ts2: "sum_text depth sc u j e ts2" by auto
  note r2 = ts2 [unfolded sum_text_def]
  let ?sign = "if j > 0 then TPlus else TMinus"
  have lex: "lexes (str_body t k @ str_rest (p # e)) (ts1 @ ?sign # ts2)"
  proof (rule lexes_append)
    show "lexes (str_body t k) ts1" using r1 by blast
    show "stops (str_rest (p # e))" using p by (simp add: str_rest_def space_stops)
    have "lexes (CHR '' '' # str_body u j @ str_rest e) ts2" using r2 lexes_space by blast
    then have "lexes (CHR '' '' # (if j > 0 then CHR ''+'' else CHR ''-'') # CHR '' '' # str_body u j @ str_rest e) (?sign # ts2)"
      using lexes_symbol [of "if j > 0 then CHR ''+'' else CHR ''-''" _ ts2] lexes_space
      by (auto simp: symbol_char_def symbol_tok_def)
    then show "lexes (str_rest (p # e)) (?sign # ts2)" using p str_one_term_body [OF ok(4)] by (simp add: str_rest_def)
  qed
  have "sum_text depth sc t k (p # e) (ts1 @ ?sign # ts2)"
    unfolding sum_text_def
  proof (intro conjI allI impI)
    show "starts (ts1 @ ?sign # ts2)" using r1 starts_append by blast
    show "length (p # e) < length (ts1 @ ?sign # ts2)" using r2 by simp
    fix N m cache us e0
    assume a: "length (ts1 @ ?sign # ts2) \<le> N" "length (p # e) < m" "terms_ok UNIV (e0 @ (t, k) # p # e)" "follow_expr us"
    then have us: "ts2 @ us \<noteq> []" using follow_exprD by simp
    have sign: "follow_term (?sign # ts2 @ us)" by (simp add: token_simps)
    have first: "p_term [] (p_factor depth sc N) (length (ts1 @ ?sign # ts2 @ us)) None cache (ts1 @ ?sign # ts2 @ us)
        = Inr (product t \<bar>k\<bar>, cache, ?sign # ts2 @ us)"
      by (rule r1 [THEN conjunct2, THEN conjunct2, rule_format]) (use a(1) sign in simp_all)
    have acc: "to_dim_size (e0 @ [(t, k)]) = Sym (e0 @ [(t, k)])"
      using to_dim_size_sum [of UNIV "e0 @ [(t, k)]" p e "[]"] a(3) by simp
    have add: "add_term [] (k < 0) (if e0 = [] then None else Some (Sym e0)) (product t \<bar>k\<bar>) = Inr (Sym (e0 @ [(t, k)]))"
      using add_term_product [of e0 t k] terms_ok_prefix [of UNIV "e0 @ [(t, k)]" "p # e"] a(3) acc by simp
    have "p_sum [] (p_factor depth sc N) (m - 1) (j < 0) (Some (Sym (e0 @ [(t, k)]))) cache (ts2 @ us)
          = Inr (to_dim_size (e0 @ (t, k) # p # e), cache, us)"
      using r2 [THEN conjunct2, THEN conjunct2, THEN conjunct2, rule_format, of N "m - 1" "e0 @ [(t, k)]" us cache] a p by simp
    moreover have "at_tok TMinus (?sign # ts2 @ us) \<longleftrightarrow> j < 0" using ok(4) by (simp add: at_tok_def)
    moreover have "\<not> follow_expr (?sign # ts2 @ us)" "expect_token (?sign # ts2 @ us) (\<lambda>t. t = TPlus \<or> t = TMinus) = Inr ()"
      by (simp_all add: token_simps)
    ultimately show "p_sum [] (p_factor depth sc N) m (k < 0) (if e0 = [] then None else Some (Sym e0)) cache ((ts1 @ ?sign # ts2) @ us)
        = Inr (to_dim_size (e0 @ (t, k) # p # e), cache, us)"
      using first add a(2) next_tok_append [OF us, of ?sign] by (cases m) (simp_all)
  qed (rule lex)
  then show ?case ..
qed

subsection \<open>Expressions\<close>

definition is_number :: "dim_expr \<Rightarrow> bool" where
  "is_number e \<longleftrightarrow> map fst e = [[]]"

definition sum_ok :: "dim_expr \<Rightarrow> bool" where
  "sum_ok e \<longleftrightarrow> is_number e \<or> terms_ok UNIV e \<and> e \<noteq> []"

definition expr_text :: "nat \<Rightarrow> symbolic_scope \<Rightarrow> string \<Rightarrow> dim_size \<Rightarrow> tok list \<Rightarrow> bool" where
  "expr_text depth sc s d ts \<longleftrightarrow>
     lexes s ts \<and> (starts ts \<or> (\<exists>ts'. ts = TMinus # ts')) \<and>
     (\<forall>N cache us. length ts \<le> N \<longrightarrow> follow_expr us \<longrightarrow>
        p_expr [] (p_factor depth sc N) cache (ts @ us) = Inr (d, cache, us))"

lemma p_expr_start:
  assumes "starts ts"
  shows "p_expr rules factor cache ts = p_sum rules factor (length ts) False None cache ts"
    "p_expr rules factor cache (TMinus # ts) = p_sum rules factor (Suc (length ts)) True None cache ts"
  using startsD [OF assms] by (simp_all add: p_expr_def at_tok_def Let_def next_tok_append)

lemma expr_text_sum:
  assumes "terms_ok UNIV ((t, k) # e)" "\<forall>(t, k) \<in> set ((t, k) # e). factors_text depth sc t"
  shows "\<exists>ts. expr_text depth sc (str_expr ((t, k) # e)) (to_dim_size ((t, k) # e)) ts"
    "k < 0 \<Longrightarrow> \<exists>ts. expr_text depth sc (CHR ''-'' # str_body t k @ str_rest e) (to_dim_size ((t, k) # e)) ts"
proof -
  have k: "k \<noteq> 0" using assms(1) by (auto simp: terms_ok_def)
  obtain ts where ts: "sum_text depth sc t k e ts" using sum_text_ex [OF assms] ..
  note r = ts [unfolded sum_text_def]
  let ?ts = "(if k > 0 then [] else [TMinus]) @ ts"
  have sum: "p_sum [] (p_factor depth sc N) m (k < 0) None cache (ts @ us) = Inr (to_dim_size ((t, k) # e), cache, us)"
    if "length ts \<le> N" "length e < m" "follow_expr us" for N m cache us
    using r [THEN conjunct2, THEN conjunct2, THEN conjunct2, rule_format, of N m "[]" us cache] that assms(1) by simp
  have p: "p_expr [] (p_factor depth sc N) cache (?ts @ us) = Inr (to_dim_size ((t, k) # e), cache, us)"
    if "length ?ts \<le> N" "follow_expr us" for N cache us
  proof -
    have u: "starts (ts @ us)" "length e < length (ts @ us)" using r starts_append by auto
    show ?thesis
    proof (cases "k > 0")
      case True
      then show ?thesis using sum [of N "length (ts @ us)" us cache] that u(2) p_expr_start(1) [OF u(1)] by simp
    next
      case False
      then show ?thesis using sum [of N "Suc (length (ts @ us))" us cache] that u(2) k p_expr_start(2) [OF u(1)] by simp
    qed
  qed
  have s: "lexes (str_body t k @ str_rest e) ts" using r by blast
  have "lexes (str_expr ((t, k) # e)) ?ts"
    using s lexes_symbol [of "CHR ''-''" _ ts] lexes_space [OF s] str_one_term_body [OF k, of t] k
    by (auto simp: str_expr_Cons strip_plus_def symbol_char_def symbol_tok_def)
  then have "expr_text depth sc (str_expr ((t, k) # e)) (to_dim_size ((t, k) # e)) ?ts"
    unfolding expr_text_def using p r by simp
  then show "\<exists>ts. expr_text depth sc (str_expr ((t, k) # e)) (to_dim_size ((t, k) # e)) ts" ..
  assume "k < 0"
  then have "lexes (CHR ''-'' # str_body t k @ str_rest e) ?ts"
    using s lexes_symbol [of "CHR ''-''" _ ts] by (simp add: symbol_char_def symbol_tok_def)
  then have "expr_text depth sc (CHR ''-'' # str_body t k @ str_rest e) (to_dim_size ((t, k) # e)) ?ts"
    unfolding expr_text_def using p r by simp
  then show "\<exists>ts. expr_text depth sc (CHR ''-'' # str_body t k @ str_rest e) (to_dim_size ((t, k) # e)) ts" ..
qed

lemma str_nat_zero: "str_nat 0 = ''0''"
proof -
  have "(of_char (CHR ''0'') :: nat) = 48" by simp
  then have "char_of (48 :: nat) = CHR ''0''" by (metis char_of_char)
  then show ?thesis by (simp add: str_nat.simps)
qed

lemma expr_text_zero: "expr_text depth sc ''0'' (Const 0) [TNumber ''0'']"
  unfolding expr_text_def
proof (intro conjI allI impI)
  have z: "str_nat (nat 0) = ''0''" using str_nat_zero by simp
  show "lexes ''0'' [TNumber ''0'']" using lexes_number [of "nat 0"] unfolding z .
  show "starts [TNumber ''0''] \<or> (\<exists>ts'. [TNumber ''0''] = TMinus # ts')" by simp
  fix N cache us assume a: "length [TNumber ''0''] \<le> N" "follow_expr us"
  have f: "p_factor depth sc N cache (TNumber ''0'' # us) = Inr (Const 0, cache, us)"
    using p_factor_number [of N us 0 depth sc cache] a follow_exprD [OF a(2)] unfolding z by simp
  have us: "us \<noteq> []" "follow_term us" "hd us \<noteq> TCircumflex"
    using follow_exprD [OF a(2)] follow_termD [of us] by simp_all
  have t: "p_term [] (p_factor depth sc N) (Suc m) None cache (TNumber ''0'' # us) = Inr (Const 0, cache, us)" for m
    using f us by (simp add: p_power_def at_tok_def mul_factor_def)
  show "p_expr [] (p_factor depth sc N) cache ([TNumber ''0''] @ us) = Inr (Const 0, cache, us)"
    using a(2) by (simp add: p_expr_start t add_term_def del: p_term.simps)
qed

lemma expr_text_number: "\<exists>ts. expr_text depth sc (str_expr [([], k)]) (Const k) ts" "\<exists>ts. expr_text depth sc (str_int k) (Const k) ts"
proof -
  have f: "\<forall>(t, k) \<in> set [([], k)]. factors_text depth sc t" by (simp add: factors_text_def)
  show "\<exists>ts. expr_text depth sc (str_expr [([], k)]) (Const k) ts"
  proof (cases "k = 0")
    case True
    then show ?thesis using expr_text_zero [of depth sc]
      by (auto simp: str_expr_Cons str_one_term_def str_rest_def strip_plus_def)
  next
    case False
    then show ?thesis using expr_text_sum(1) [of "[]" k "[]" depth sc] f by simp
  qed
  have pos: "str_expr [([], k)] = str_int k" if "k > 0"
    using that by (simp add: str_expr_Cons str_one_term_def str_rest_def strip_plus_def)
  have neg: "CHR ''-'' # str_body [] k @ str_rest [] = str_int k" if "k < 0"
    using that by (simp add: str_body_def str_int_def str_rest_def)
  consider "k = 0" | "k > 0" | "k < 0" by linarith
  then show "\<exists>ts. expr_text depth sc (str_int k) (Const k) ts"
  proof cases
    case 1
    then show ?thesis using expr_text_zero [of depth sc] by (auto simp: str_int_def str_nat_zero)
  next
    case 2
    then show ?thesis using expr_text_sum(1) [of "[]" k "[]" depth sc] f pos by simp
  next
    case 3
    then show ?thesis using expr_text_sum(2) [of "[]" k "[]" depth sc] f neg by simp
  qed
qed

lemma expr_text_ex:
  assumes "sum_ok e" "\<forall>(t, k) \<in> set e. factors_text depth sc t"
  shows "\<exists>ts. expr_text depth sc (str_expr e) (to_dim_size e) ts"
proof (cases "is_number e")
  case True
  then obtain k where "e = [([], k)]" by (cases e) (auto simp: is_number_def)
  then show ?thesis using expr_text_number(1) [of depth sc k] by simp
next
  case False
  then obtain t k e' where "e = (t, k) # e'" "terms_ok UNIV e" using assms(1) by (cases e) (auto simp: sum_ok_def)
  then show ?thesis using expr_text_sum(1) [of t k e' depth sc] assms(2) by simp
qed

subsection \<open>Nested operations\<close>

text \<open>What can be printed and read back: sorted sums and products of variables with proper names and
  of divisions; a maximum or minimum is decided anew when it is read, and need not come back.\<close>

fun writable_factor :: "dim_factor \<Rightarrow> bool" where
  "writable_factor (Var v) \<longleftrightarrow> is_name v \<and> v \<noteq> ''_'' \<and> op_of_name v = None"
| "writable_factor (Oper oper es) \<longleftrightarrow>
     (oper = OpMOD \<or> oper = OpFLOORDIV) \<and> length es = 2 \<and> list_all sum_ok es \<and>
     (\<forall>e \<in> set es. \<forall>p \<in> set e. \<forall>q \<in> set (fst p). writable_factor (fst q))"

lemma to_dim_size_ensure: "sum_ok e \<Longrightarrow> ensure_poly (to_dim_size e) = e"
proof (cases "is_number e")
  case True
  then obtain k where "e = [([], k)]" by (cases e) (auto simp: is_number_def)
  then show ?thesis by (simp add: mk_expr_def)
next
  case False
  assume "sum_ok e"
  with False obtain t k e' where e: "e = (t, k) # e'" "terms_ok UNIV e" by (cases e) (auto simp: sum_ok_def)
  show ?thesis
  proof (cases e')
    case Nil
    then show ?thesis using e False by (simp add: is_number_def)
  next
    case (Cons q e'')
    then show ?thesis using to_dim_size_sum [of UNIV "[(t, k)]" q e'' e'] e by simp
  qed
qed

lemma str_factor_Oper: "str_factor (Oper oper es) = op_name oper @ ''('' @ str_join '', '' (map str_expr es) @ '')''"
  by (simp add: str_expr_def [abs_def] str_term_def [abs_def])

lemma op_name_word: "is_name (op_name oper)" "op_of_name (op_name oper) = Some oper"
proof -
  show "is_name (op_name oper)"
    by (cases oper) (simp_all add: is_name_def char_class_defs)
  show "op_of_name (op_name oper) = Some oper" by (cases oper) (simp_all add: op_of_name_def)
qed

lemma factor_text_Var:
  assumes "normalization_rules sc = []" "writable_factor (Var v)"
  shows "factor_text depth sc (Var v) [TName v]"
  unfolding factor_text_def
proof (intro conjI allI impI)
  fix N cache and us :: "tok list" assume "length [TName v] \<le> N" "us \<noteq> []"
  then show "p_factor depth sc N cache ([TName v] @ us) = Inr (Sym [([(Var v, 1)], 1)], cache, us)"
    using assms by (cases N) (simp_all add: from_var_def normalize_plain next_tok_append)
qed (use assms(2) lexes_name in simp_all)

lemma factor_text_Oper:
  assumes "normalization_rules sc = []" "oper = OpMOD \<or> oper = OpFLOORDIV" "sum_ok e1" "sum_ok e2"
    and "expr_text depth sc (str_expr e1) (to_dim_size e1) ts1" "expr_text depth sc (str_expr e2) (to_dim_size e2) ts2"
  shows "factor_text depth sc (Oper oper [e1, e2]) (TName (op_name oper) # TLpar # ts1 @ TComma # ts2 @ [TRpar])"
  unfolding factor_text_def
proof (intro conjI allI impI)
  note r1 = assms(5) [unfolded expr_text_def] and r2 = assms(6) [unfolded expr_text_def]
  have "lexes '')'' [TRpar]" using lexes_symbol [OF _ lexes_Nil, of "CHR '')''"] by (simp add: symbol_char_def symbol_tok_def)
  then have "lexes (str_expr e2 @ '')'') (ts2 @ [TRpar])"
    using r2 lexes_append symbol_stops [of "CHR '')''" "[]"] by (simp add: symbol_char_def)
  then have "lexes ('', '' @ str_expr e2 @ '')'') (TComma # ts2 @ [TRpar])"
    using lexes_symbol [OF _ lexes_space, of "CHR '',''"] by (simp add: symbol_char_def symbol_tok_def)
  then have "lexes (str_expr e1 @ '', '' @ str_expr e2 @ '')'') (ts1 @ TComma # ts2 @ [TRpar])"
    using r1 lexes_append symbol_stops [of "CHR '',''"] by (simp add: symbol_char_def)
  then have "lexes (''('' @ str_expr e1 @ '', '' @ str_expr e2 @ '')'') (TLpar # ts1 @ TComma # ts2 @ [TRpar])"
    using lexes_symbol [of "CHR ''(''"] by (simp add: symbol_char_def symbol_tok_def)
  then have "lexes (op_name oper @ ''('' @ str_expr e1 @ '', '' @ str_expr e2 @ '')'')
      ([TName (op_name oper)] @ TLpar # ts1 @ TComma # ts2 @ [TRpar])"
    using lexes_append [OF lexes_name [OF op_name_word(1)]] symbol_stops [of "CHR ''(''"] by (simp add: symbol_char_def)
  then show "lexes (str_factor (Oper oper [e1, e2])) (TName (op_name oper) # TLpar # ts1 @ TComma # ts2 @ [TRpar])"
    unfolding str_factor_Oper by simp
  show "starts (TName (op_name oper) # TLpar # ts1 @ TComma # ts2 @ [TRpar])" by (cases oper) simp_all
  fix N cache and us :: "tok list"
  assume N: "length (TName (op_name oper) # TLpar # ts1 @ TComma # ts2 @ [TRpar]) \<le> N" and us: "us \<noteq> []"
  let ?p = "p_expr [] (p_factor depth sc (N - 1)) cache"
  have p1: "?p (ts1 @ TComma # ts2 @ TRpar # us) = Inr (to_dim_size e1, cache, TComma # ts2 @ TRpar # us)"
    using r1 [THEN conjunct2, THEN conjunct2, rule_format, of "N - 1" "TComma # ts2 @ TRpar # us" cache] N
    by (simp add: token_simps)
  have p2: "?p (ts2 @ TRpar # us) = Inr (to_dim_size e2, cache, TRpar # us)"
    using r2 [THEN conjunct2, THEN conjunct2, rule_format, of "N - 1" "TRpar # us" cache] N
    by (simp add: token_simps)
  have b: "binary_op depth sc oper cache (to_dim_size e1) (to_dim_size e2) = Inr (Sym [([(Oper oper [e1, e2], 1)], 1)], cache)"
    using assms(1-4) by (auto simp: binary_op_def from_operation_def from_term_def normalize_plain to_dim_size_ensure)
  show "p_factor depth sc N cache ((TName (op_name oper) # TLpar # ts1 @ TComma # ts2 @ [TRpar]) @ us)
      = Inr (Sym [([(Oper oper [e1, e2], 1)], 1)], cache, us)"
    using N us p1 p2 b assms(1)
    by (cases N) (simp_all add: p_binary_op_def op_name_word next_tok_append consume_token_def expect_token_def)
qed

lemma factor_text_ex:
  assumes "normalization_rules sc = []" "writable_factor f"
  shows "\<exists>ts. factor_text depth sc f ts"
  using assms(2)
proof (induction f rule: measure_induct_rule [where f = size])
  case (less f)
  show ?case
  proof (cases f)
    case (Var v)
    then show ?thesis using factor_text_Var [OF assms(1)] less.prems by blast
  next
    case (Oper oper es)
    then obtain e1 e2 where es: "es = [e1, e2]" using less.prems by (auto simp: numeral_2_eq_2 length_Suc_conv)
    have "\<exists>ts. expr_text depth sc (str_expr e) (to_dim_size e) ts" if e: "e \<in> set es" for e
    proof (rule expr_text_ex)
      show "sum_ok e" using less.prems Oper e by (simp add: list_all_iff)
      have "\<exists>ts. factor_text depth sc g ts" if "(t, k) \<in> set e" "(g, n) \<in> set t" for t k g n
        using less.IH [of g] size_operand [OF e that] less.prems Oper e that by fastforce
      then show "\<forall>(t, k) \<in> set e. factors_text depth sc t" unfolding factors_text_def by blast
    qed
    then have "\<exists>ts. expr_text depth sc (str_expr e1) (to_dim_size e1) ts" "\<exists>ts. expr_text depth sc (str_expr e2) (to_dim_size e2) ts"
      using es by simp_all
    then obtain ts1 ts2 where "expr_text depth sc (str_expr e1) (to_dim_size e1) ts1" "expr_text depth sc (str_expr e2) (to_dim_size e2) ts2"
      by blast
    moreover have "oper = OpMOD \<or> oper = OpFLOORDIV" "sum_ok e1" "sum_ok e2" using less.prems Oper es by simp_all
    ultimately show ?thesis using factor_text_Oper [OF assms(1)] Oper es by blast
  qed
qed

subsection \<open>Shapes\<close>

fun writable :: "dim_size \<Rightarrow> bool" where
  "writable (Const k) \<longleftrightarrow> True"
| "writable (Sym e) \<longleftrightarrow> size_ok UNIV (Sym e) \<and> (\<forall>p \<in> set e. \<forall>q \<in> set (fst p). writable_factor (fst q))"

lemma dim_text:
  assumes "normalization_rules sc = []" "writable d"
  shows "\<exists>ts. expr_text depth sc (str_dim d) d ts"
proof (cases d)
  case (Const k)
  then show ?thesis using expr_text_number(2) by simp
next
  case (Sym e)
  then have e: "terms_ok UNIV e" "e \<noteq> []" using assms(2) by simp_all
  then have "to_dim_size e = Sym e" using Sym assms(2) by (cases e) (auto split: if_splits)
  moreover have "\<forall>(t, k) \<in> set e. factors_text depth sc t"
    using assms(2) Sym factor_text_ex [OF assms(1)] by (fastforce simp: factors_text_def)
  ultimately show ?thesis using expr_text_ex [of e depth sc] e Sym by (simp add: sum_ok_def)
qed

definition dims_text :: "nat \<Rightarrow> symbolic_scope \<Rightarrow> dim_size list \<Rightarrow> tok list \<Rightarrow> bool" where
  "dims_text depth sc ds ts \<longleftrightarrow>
     lexes (str_join '', '' (map str_dim ds)) ts \<and> \<not> at_tok TLpar ts \<and> length ds \<le> length ts \<and>
     (\<forall>N m dims cache us. length ts \<le> N \<longrightarrow> length ds < m \<longrightarrow> follow_shape us \<longrightarrow>
        p_dims (p_expr [] (p_factor depth sc N)) None m dims cache (ts @ us) = Inr (dims @ ds, cache, us))"

lemma expr_text_start:
  assumes "expr_text depth sc s d ts"
  shows "ts \<noteq> []" "hd ts \<notin> {TLpar, TRpar, TComma, TEnd, TEllipsis, TName ''_''}"
  using assms startsD [of ts] by (auto simp: expr_text_def)

lemma dims_text_ex:
  assumes "\<forall>d \<in> set ds. \<exists>ts. expr_text depth sc (str_dim d) d ts"
  shows "\<exists>ts. dims_text depth sc ds ts"
  using assms
proof (induction ds)
  case Nil
  have "p_dims p None m dims cache us = Inr (dims, cache, us)" if "0 < m" "follow_shape us" for p m dims cache us
    using that by (cases m) simp_all
  then have "dims_text depth sc [] []" by (simp add: dims_text_def lexes_Nil at_tok_def)
  then show ?case ..
next
  case (Cons d ds)
  then obtain ts1 ts2 where ts: "expr_text depth sc (str_dim d) d ts1" "dims_text depth sc ds ts2" by auto
  note r1 = ts(1) [unfolded expr_text_def] and r2 = ts(2) [unfolded dims_text_def]
  note s = expr_text_start [OF ts(1)]
  have first: "p_dims (p_expr [] (p_factor depth sc N)) None m dims cache (ts1 @ us) =
      (if follow_shape us then Inr (dims @ [d], cache, us)
       else rbind (consume_token TComma us) (p_dims (p_expr [] (p_factor depth sc N)) None (m - 1) (dims @ [d]) cache))"
    if "length ts1 \<le> N" "m > 0" "follow_expr us" for N m dims cache us
  proof -
    have "p_expr [] (p_factor depth sc N) cache (ts1 @ us) = Inr (d, cache, us)" using r1 that by simp
    then show ?thesis using s that(2)
      by (cases m; cases d) (simp_all add: follow_shape_def at_tok_def add_dim_def)
  qed
  show ?case
  proof (cases "ds = []")
    case True
    have "dims_text depth sc (d # ds) ts1"
      unfolding dims_text_def
    proof (intro conjI allI impI)
      show "length (d # ds) \<le> length ts1" using s(1) True by (cases ts1) simp_all
      fix N m dims cache us assume "length ts1 \<le> N" "length (d # ds) < m" "follow_shape us"
      then show "p_dims (p_expr [] (p_factor depth sc N)) None m dims cache (ts1 @ us) = Inr (dims @ d # ds, cache, us)"
        using first [of N m us dims cache] True by (simp add: follow_expr_def)
    qed (use r1 s True in \<open>auto simp: at_tok_def\<close>)
    then show ?thesis ..
  next
    case False
    let ?s2 = "str_join '', '' (map str_dim ds)"
    have "lexes ('', '' @ ?s2) (TComma # ts2)" "stops ('', '' @ ?s2)"
      using lexes_symbol [OF _ lexes_space, of "CHR '',''" ?s2 ts2] r2 symbol_stops [of "CHR '',''"]
      by (simp_all add: symbol_char_def symbol_tok_def)
    then have lex: "lexes (str_dim d @ '', '' @ ?s2) (ts1 @ TComma # ts2)" using r1 lexes_append by blast
    have "dims_text depth sc (d # ds) (ts1 @ TComma # ts2)"
      unfolding dims_text_def
    proof (intro conjI allI impI)
      show "lexes (str_join '', '' (map str_dim (d # ds))) (ts1 @ TComma # ts2)" using lex False by (cases ds) simp_all
      show "\<not> at_tok TLpar (ts1 @ TComma # ts2)" using s by (simp add: at_tok_def)
      show "length (d # ds) \<le> length (ts1 @ TComma # ts2)" using r2 by simp
      fix N m dims cache us
      assume a: "length (ts1 @ TComma # ts2) \<le> N" "length (d # ds) < m" "follow_shape us"
      then have us: "ts2 @ us \<noteq> []" by (simp add: follow_shape_def)
      have "p_dims (p_expr [] (p_factor depth sc N)) None (m - 1) (dims @ [d]) cache (ts2 @ us) = Inr (dims @ d # ds, cache, us)"
        using r2 [THEN conjunct2, THEN conjunct2, THEN conjunct2, rule_format, of N "m - 1" us "dims @ [d]" cache] a by simp
      then show "p_dims (p_expr [] (p_factor depth sc N)) None m dims cache ((ts1 @ TComma # ts2) @ us) = Inr (dims @ d # ds, cache, us)"
        using first [of N m "TComma # ts2 @ us" dims cache] a us by (simp add: token_simps next_tok_append)
    qed
    then show ?thesis ..
  qed
qed

text \<open>
  C33: Printing a shape and parsing the text gives the shape back: in a scope without equality
  constraints, for integers and expressions in canonical form over variables with proper names
  and divisions of such expressions, the parser returns exactly the printed dimensions and leaves the cache of
  bounds as it was.
\<close>

theorem parse_printed_shape:
  assumes "normalization_rules sc = []" "\<forall>d \<in> set dims. writable d"
  shows "parse_shape depth sc None cache (str_shape dims) = Inr (dims, cache)"
proof -
  obtain ts where "dims_text depth sc dims ts" using dims_text_ex dim_text [OF assms(1)] assms(2) by blast
  note r = this [unfolded dims_text_def]
  let ?ts = "ts @ [TRpar, TEnd]" and ?e = "p_expr [] (p_factor depth sc (length ts + 3))"
  have "lexes (''('' @ str_join '', '' (map str_dim dims) @ '')'') (TLpar # ts @ [TRpar])"
    using lexes_symbol [OF _ lexes_append [OF _ lexes_symbol [OF _ lexes_Nil]], of "CHR ''(''" _ ts "CHR '')''"]
      r symbol_stops [of "CHR '')''" "[]"] by (simp add: symbol_char_def symbol_tok_def)
  from this [unfolded lexes_def, rule_format, of "[]"] have t: "tokenize (str_shape dims) = Inr (TLpar # ?ts)"
    by (simp add: stops_def str_shape_def)
  have "p_dims ?e None (length ?ts + 1) [] cache ?ts = Inr (dims, cache, [TRpar, TEnd])"
    using r [THEN conjunct2, THEN conjunct2, THEN conjunct2, rule_format, of "length ts + 3" "length ?ts + 1" "[TRpar, TEnd]" "[]" cache] r
    by (simp add: follow_shape_def)
  moreover have "\<not> at_tok TLpar ?ts" using r by (cases ts) (simp_all add: at_tok_def)
  ultimately have "p_shape ?e None (length ts + 2) cache ?ts = Inr (dims, cache, [TRpar, TEnd])" by simp
  then have "p_shape ?e None (Suc (length ts + 2)) cache (TLpar # ?ts) = Inr (dims, cache, [TEnd])"
    using next_tok_append [of ?ts TLpar]
    by (simp add: consume_token_def expect_token_def at_tok_def)
  then show ?thesis
    unfolding parse_shape_def t assms(1) by (simp add: expect_token_def eval_nat_numeral)
qed

text \<open>The shape \<^verbatim>\<open>(- floordiv(b + a, 2) + 3*a*b^2 - 5, -7, mod(a, - 3))\<close>\<close>

definition shape_example :: "dim_size list" where
  "shape_example =
     (let a = Var ''a''; b = Var ''b'' in
      [Sym [([(Oper OpFLOORDIV [[([(b, 1)], 1), ([(a, 1)], 1)], [([], 2)]], 1)], -1), ([(b, 2), (a, 1)], 3), ([], -5)],
       Const (-7),
       Sym [([(Oper OpMOD [[([(a, 1)], 1)], [([], -3)]], 1)], 1)]])"

theorem parse_printed_shape_witness:
  "parse_shape 3 \<lparr>normalization_rules = [], explicit_constraints = []\<rparr> None [] (str_shape shape_example)
     = Inr (shape_example, [])"
  by (rule parse_printed_shape) code_simp+

subsection \<open>Shapes that fill in placeholders\<close>

definition fits_like :: "int option list \<Rightarrow> dim_size list \<Rightarrow> bool" where
  "fits_like shape dims \<longleftrightarrow> (\<forall>i k. i < length dims \<longrightarrow> dims ! i = Const k \<longrightarrow> i < length shape \<and> shape ! i = Some k)"

lemma add_dim_fits:
  assumes "add_dim (Some shape) dims d = Inr dims'" "fits_like shape dims"
  shows "fits_like shape dims'"
proof -
  from assms(1) obtain e where e: "d = Some e" "dims' = dims @ [e]"
    "\<And>k. e = Const k \<Longrightarrow> length dims < length shape \<and> shape ! length dims = Some k"
    by (auto simp: add_dim_def parse_err_def rbind_eq_Inr seq_get_def split: option.splits dim_size.splits if_splits)
  then show ?thesis using assms(2) by (auto simp: fits_like_def nth_append less_Suc_eq)
qed

lemma p_ellipsis_fits: "p_ellipsis shape dims ts = Inr (dims', ts') \<Longrightarrow> fits_like shape dims \<Longrightarrow> fits_like shape dims'"
  unfolding p_ellipsis_def rbind_eq_Inr
  by (elim exE conjE) (auto elim!: rfold_invariant [where P = "fits_like shape"] intro: add_dim_fits)

lemma p_dims_fits:
  "p_dims expr (Some shape) n dims cache ts = Inr (dims', cache', ts') \<Longrightarrow> fits_like shape dims \<Longrightarrow> fits_like shape dims'"
proof (induction n arbitrary: dims cache ts)
  case (Suc n)
  consider "follow_shape ts" | "\<not> follow_shape ts" "at_tok TEllipsis ts" | "\<not> follow_shape ts" "\<not> at_tok TEllipsis ts" by blast
  then show ?case
  proof cases
    case 2
    then show ?thesis using Suc.prems p_ellipsis_fits by (auto simp: rbind_eq_Inr)
  next
    case 3
    with Suc.prems(1) obtain d dims1 cache1 ts1 where
      add: "add_dim (Some shape) dims d = Inr dims1" and
      rest: "(if follow_shape ts1 then Inr (dims1, cache1, ts1)
        else rbind (consume_token TComma ts1) (p_dims expr (Some shape) n dims1 cache1)) = Inr (dims', cache', ts')"
      by (auto simp: rbind_eq_Inr simp del: add_dim_def)
    have "fits_like shape dims1" using add_dim_fits [OF add Suc.prems(2)] .
    then show ?thesis using rest Suc.IH by (auto simp: rbind_eq_Inr split: if_splits)
  qed (use Suc.prems in simp)
qed simp

lemma p_shape_fits: "p_shape expr (Some shape) n cache ts = Inr (dims, cache', ts') \<Longrightarrow> fits_like shape dims"
proof (induction n arbitrary: cache ts cache' ts')
  case (Suc n)
  have "fits_like shape []" by (simp add: fits_like_def)
  with Suc show ?case using p_dims_fits by (auto simp: rbind_eq_Inr simp del: p_dims.simps split: if_splits)
qed simp

text \<open>
  C34: A shape parsed against a shape \<open>like\<close> agrees with it: wherever the result has an integer,
  written or filled in for a placeholder, \<open>like\<close> has that integer at the same position.
\<close>

theorem parsed_sizes_fit_like:
  assumes "parse_shape depth sc (Some shape) cache spec = Inr (dims, cache')"
    and "i < length dims" "dims ! i = Const k"
  shows "i < length shape \<and> shape ! i = Some k"
proof -
  have "fits_like shape dims" using assms(1) p_shape_fits by (auto simp: parse_shape_def rbind_eq_Inr)
  then show ?thesis using assms(2,3) by (simp add: fits_like_def)
qed

text \<open>The shape \<^verbatim>\<open>(a, _, ...)\<close> for an array of the shape \<^verbatim>\<open>(7, 4, 5, 6)\<close>; its third dimension is 5.\<close>

lemma parse_placeholders:
  "parse_shape 3 \<lparr>normalization_rules = [], explicit_constraints = []\<rparr> (Some [Some 7, Some 4, Some 5, Some 6]) []
     ''(a, _, ...)'' = Inr ([Sym [([(Var ''a'', 1)], 1)], Const 4, Const 5, Const 6], [])"
  by code_simp

theorem parsed_sizes_fit_like_witness: "2 < length [7 :: int, 4, 5, 6] \<and> [Some 7, Some 4, Some (5 :: int), Some 6] ! 2 = Some 5"
  using parsed_sizes_fit_like [OF parse_placeholders, of 2 5] by simp

text \<open>
  A number written beyond the end of \<open>like\<close> is an index error, where all other errors of a
  shape are syntax errors that name the dimension.
\<close>

theorem number_beyond_like_raises_index_error:
  "symbolic_shape 3 (Some ''a, 3'') [] None (Some [None]) = Inl IndexError"
  by code_simp

end
