(* ===== verification/DimSolve.thy ===== *)
theory DimSolve
  imports DimParse
begin

text \<open>
  Solving for dimension variables (\<^verbatim>\<open>shape_poly.py\<close>): from the symbolic shapes of the arguments of
  a function, the values of its dimension variables in terms of the actual dimensions, and the
  constraints on those; and the shape check of a call of an exported function
  (\<^verbatim>\<open>_export.py\<close>). Expressions are evaluated with expressions as the values of variables: a
  computation carries the cache of bounds, may raise, and returns \<open>None\<close> when a division runs out of
  fuel. Values are mathematical integers.
\<close>

subsection \<open>Computations\<close>

type_synonym 'a sym = "cache \<Rightarrow> ('a res \<times> cache) option"

definition slift :: "'a res \<Rightarrow> 'a sym" where
  "slift r cache = Some (r, cache)"

definition sbind :: "'a sym \<Rightarrow> ('a \<Rightarrow> 'b sym) \<Rightarrow> 'b sym" where
  "sbind m f cache =
     (case m cache of
        None \<Rightarrow> None
      | Some (Inl e, cache') \<Rightarrow> Some (Inl e, cache')
      | Some (Inr x, cache') \<Rightarrow> f x cache')"

text \<open>\<^verbatim>\<open>try: m except UnexpectedDimVar: h else: f\<close>\<close>

definition stry :: "'a sym \<Rightarrow> 'b sym \<Rightarrow> ('a \<Rightarrow> 'b sym) \<Rightarrow> 'b sym" where
  "stry m h f cache =
     (case m cache of
        None \<Rightarrow> None
      | Some (Inl e, cache') \<Rightarrow> if e = UnexpectedDimVar then h cache' else Some (Inl e, cache')
      | Some (Inr x, cache') \<Rightarrow> f x cache')"

abbreviation sret :: "'a \<Rightarrow> 'a sym" where
  "sret x \<equiv> slift (Inr x)"

fun smap :: "('a \<Rightarrow> 'b sym) \<Rightarrow> 'a list \<Rightarrow> 'b list sym" where
  "smap f [] = sret []"
| "smap f (x # xs) = sbind (f x) (\<lambda>y. sbind (smap f xs) (\<lambda>ys. sret (y # ys)))"

lemma smap_cong [fundef_cong]:
  "xs = ys \<Longrightarrow> (\<And>x. x \<in> set ys \<Longrightarrow> f x = g x) \<Longrightarrow> smap f xs = smap g ys"
  by (induction ys arbitrary: xs) auto

lemma sbind_cong [fundef_cong]: "m = m' \<Longrightarrow> (\<And>x. f x = f' x) \<Longrightarrow> sbind m f = sbind m' f'"
  by presburger

text \<open>Operations that return the cache along with their result\<close>

definition scached :: "(cache \<Rightarrow> ('a \<times> cache) res) \<Rightarrow> 'a sym" where
  "scached f cache = (case f cache of Inl e \<Rightarrow> Some (Inl e, cache) | Inr (x, cache') \<Rightarrow> Some (Inr x, cache'))"

subsection \<open>Evaluation with symbolic values\<close>

text \<open>
  \<open>sym_zero_divmod a\<close> is \<^verbatim>\<open>divmod(a, 0)\<close> on the numbers in use; \<open>chain\<close> bounds the chain of
  normalization rules that the lookup of a variable follows, \<open>sym_depth\<close> the depth of the
  decision procedure, \<open>division_fuel\<close> the rounds of a division.
\<close>

record sym_config =
  sym_scope :: symbolic_scope
  sym_depth :: nat
  division_fuel :: nat
  chain :: nat
  sym_zero_divmod :: "int \<Rightarrow> (int \<times> int) res"

abbreviation sym_rules :: "sym_config \<Rightarrow> norm_rules" where
  "sym_rules cfg \<equiv> normalization_rules (sym_scope cfg)"

type_synonym dim_var_env = "(string \<times> dim_size) list"

definition evaluate_add :: "norm_rules \<Rightarrow> dim_size \<Rightarrow> dim_size \<Rightarrow> dim_size res" where
  "evaluate_add rules v1 v2 =
     (if v1 = Const 0 then Inr v2 else if v2 = Const 0 then Inr v1 else dim_add rules v1 v2)"

definition evaluate_multiply :: "norm_rules \<Rightarrow> dim_size \<Rightarrow> dim_size \<Rightarrow> dim_size res" where
  "evaluate_multiply rules v1 v2 =
     (if v1 = Const 1 then Inr v2 else if v2 = Const 1 then Inr v1 else dim_mul rules v1 v2)"

fun prod_values :: "norm_rules \<Rightarrow> dim_size list \<Rightarrow> dim_size res" where
  "prod_values rules [] = Inr (Const 1)"
| "prod_values rules (v # vs) = rfold (\<lambda>x acc. evaluate_multiply rules acc x) vs v"

fun sum_values :: "norm_rules \<Rightarrow> dim_size list \<Rightarrow> dim_size res" where
  "sum_values rules [] = Inl IndexError"
| "sum_values rules (v # vs) = rfold (\<lambda>x acc. evaluate_add rules acc x) vs v"

definition pow_opt :: "norm_rules \<Rightarrow> dim_size \<Rightarrow> int \<Rightarrow> dim_size res" where
  "pow_opt rules v p = (if p = 1 then Inr v else prod_values rules (replicate (nat p) v))"

fun sym_divmod :: "sym_config \<Rightarrow> dim_size \<Rightarrow> dim_size \<Rightarrow> (dim_size \<times> dim_size) sym" where
  "sym_divmod cfg (Const a) (Const b) =
     (if b = 0 then slift (rbind (sym_zero_divmod cfg a) (\<lambda>(q, r). Inr (Const q, Const r)))
      else sret (Const (a div b), Const (a mod b)))"
| "sym_divmod cfg a b =
     (\<lambda>cache. map_option (\<lambda>r. (r, cache)) (dim_divmod (sym_rules cfg) (division_fuel cfg) (ensure_poly a) b))"

definition sym_op :: "sym_config \<Rightarrow> dim_op \<Rightarrow> dim_size list \<Rightarrow> dim_size sym" where
  "sym_op cfg oper operand_values =
     (case operand_values of
        [op1, op2] \<Rightarrow>
          (case oper of
             OpFLOORDIV \<Rightarrow> sbind (sym_divmod cfg op1 op2) (\<lambda>p. sret (fst p))
           | OpMOD \<Rightarrow> sbind (sym_divmod cfg op1 op2) (\<lambda>p. sret (snd p))
           | OpMAX \<Rightarrow> scached (\<lambda>cache. max_dim (sym_depth cfg) (sym_scope cfg) cache op1 op2)
           | OpMIN \<Rightarrow> scached (\<lambda>cache. min_dim (sym_depth cfg) (sym_scope cfg) cache op1 op2))
      | _ \<Rightarrow> slift (Inl (ValueError ''operands'')))"

fun sym_factor :: "sym_config \<Rightarrow> (string \<Rightarrow> dim_size sym) \<Rightarrow> dim_factor \<Rightarrow> dim_size sym" where
  "sym_factor cfg lookup (Var v) = lookup v"
| "sym_factor cfg lookup (Oper oper es) =
     sbind (smap (\<lambda>e.
       sbind (smap (\<lambda>p.
         sbind (smap (\<lambda>q. sbind (sym_factor cfg lookup (fst q)) (\<lambda>v. slift (pow_opt (sym_rules cfg) v (snd q)))) (fst p)) (\<lambda>vs.
         sbind (slift (prod_values (sym_rules cfg) vs)) (\<lambda>v.
         slift (evaluate_multiply (sym_rules cfg) v (Const (snd p)))))) e) (\<lambda>vs.
       slift (sum_values (sym_rules cfg) vs))) es) (sym_op cfg oper)"

definition sym_term :: "sym_config \<Rightarrow> (string \<Rightarrow> dim_size sym) \<Rightarrow> dim_term \<Rightarrow> dim_size sym" where
  "sym_term cfg lookup t =
     sbind (smap (\<lambda>q. sbind (sym_factor cfg lookup (fst q)) (\<lambda>v. slift (pow_opt (sym_rules cfg) v (snd q)))) t) (\<lambda>vs.
     slift (prod_values (sym_rules cfg) vs))"

definition sym_expr :: "sym_config \<Rightarrow> (string \<Rightarrow> dim_size sym) \<Rightarrow> dim_expr \<Rightarrow> dim_size sym" where
  "sym_expr cfg lookup e =
     sbind (smap (\<lambda>p. sbind (sym_term cfg lookup (fst p)) (\<lambda>v.
       slift (evaluate_multiply (sym_rules cfg) v (Const (snd p))))) e) (\<lambda>vs.
     slift (sum_values (sym_rules cfg) vs))"

fun sym_lookup :: "sym_config \<Rightarrow> dim_var_env \<Rightarrow> nat \<Rightarrow> string \<Rightarrow> dim_size sym" where
  "sym_lookup cfg env n v =
     (case map_of env v of
        Some d \<Rightarrow> sret d
      | None \<Rightarrow>
          sbind (slift (from_var (sym_rules cfg) v)) (\<lambda>normalized_var.
          case normalized_var of
            Const c \<Rightarrow> sret (Const c)
          | Sym e \<Rightarrow>
              sbind (slift (expr_to_var e)) (\<lambda>v1.
              if v1 = Some v then slift (Inl UnexpectedDimVar)
              else
                (case n of
                   0 \<Rightarrow> slift (Inl RecursionError)
                 | Suc n' \<Rightarrow> sym_expr cfg (sym_lookup cfg env n') e))))"

declare sym_lookup.simps [simp del]

subsection \<open>Equations\<close>

text \<open>A dimension \<open>dim_name\<close> of an argument that is specified by \<open>aval_dim_expr\<close>\<close>

record dim_equation =
  aval_dim_expr :: dim_expr
  dim_name :: string

type_synonym shape_constraint = "comparator \<times> dim_size \<times> dim_size"

text \<open>The state of \<^verbatim>\<open>_solve_dim_equations\<close>, without the pieces of its messages\<close>

record solver =
  shape_env :: dim_var_env
  shape_constraints :: "shape_constraint list"

definition add_constraint :: "comparator \<Rightarrow> dim_size \<Rightarrow> dim_size \<Rightarrow> solver \<Rightarrow> solver" where
  "add_constraint cmp left right s = s\<lparr>shape_constraints := shape_constraints s @ [(cmp, left, right)]\<rparr>"

text \<open>The loop over the terms: the rest of the dimension and the variable to solve for, if the equation has
  at most one variable that is not solved.\<close>

fun process_terms :: "sym_config \<Rightarrow> dim_var_env \<Rightarrow> dim_expr \<Rightarrow> dim_size \<Rightarrow> (string \<times> int) option
    \<Rightarrow> (dim_size \<times> (string \<times> int) option) option sym" where
  "process_terms cfg env [] rest var = sret (Some (rest, var))"
| "process_terms cfg env ((t, term_k) # ts) rest var =
     stry (sym_term cfg (sym_lookup cfg env (chain cfg)) t)
       (sbind (slift (term_to_var t)) (\<lambda>v.
        case (v, var) of
          (Some v, None) \<Rightarrow> process_terms cfg env ts rest (Some (v, term_k))
        | _ \<Rightarrow> sret None))
       (\<lambda>term_value.
        sbind (slift (evaluate_multiply (sym_rules cfg) term_value (Const term_k))) (\<lambda>m.
        sbind (slift (dim_mul (sym_rules cfg) (Const (-1)) m)) (\<lambda>m.
        sbind (slift (dim_add (sym_rules cfg) rest m)) (\<lambda>rest.
        process_terms cfg env ts rest var))))"

definition solve_var :: "sym_config \<Rightarrow> dim_size \<Rightarrow> string \<Rightarrow> int \<Rightarrow> solver \<Rightarrow> solver sym" where
  "solve_var cfg rest v var_k s =
     sbind (if var_k = 1 then sret (rest, s)
            else
              sbind (sym_divmod cfg rest (Const var_k)) (\<lambda>(var_value, var_remainder).
              sret (var_value, add_constraint CmpEQ var_remainder (Const 0) s))) (\<lambda>(var_value, s).
     case var_value of
       Const _ \<Rightarrow> slift (Inl AttributeError)
     | Sym _ \<Rightarrow>
         sret (add_constraint CmpGEQ var_value (Const 1) (s\<lparr>shape_env := dict_set (shape_env s) v var_value\<rparr>)))"

definition process_one_eqn :: "sym_config \<Rightarrow> dim_equation \<Rightarrow> solver \<Rightarrow> (bool \<times> solver) sym" where
  "process_one_eqn cfg eqn s =
     sbind (slift (from_var (sym_rules cfg) (dim_name eqn))) (\<lambda>rest.
     sbind (process_terms cfg (shape_env s) (aval_dim_expr eqn) rest None) (\<lambda>r.
     case r of
       None \<Rightarrow> sret (False, s)
     | Some (rest, Some (v, var_k)) \<Rightarrow> sbind (solve_var cfg rest v var_k s) (\<lambda>s. sret (True, s))
     | Some (_, None) \<Rightarrow>
         sbind (slift (from_var (sym_rules cfg) (dim_name eqn))) (\<lambda>left.
         sbind (sym_expr cfg (sym_lookup cfg (shape_env s) (chain cfg)) (aval_dim_expr eqn)) (\<lambda>right.
         sret (True, add_constraint CmpEQ left right s)))))"

text \<open>\<^verbatim>\<open>[eqn for eqn in eqns if not process_one_eqn(eqn)]\<close>\<close>

fun process_eqns :: "sym_config \<Rightarrow> dim_equation list \<Rightarrow> solver \<Rightarrow> (dim_equation list \<times> solver) sym" where
  "process_eqns cfg [] s = sret ([], s)"
| "process_eqns cfg (eqn # eqns) s =
     sbind (process_one_eqn cfg eqn s) (\<lambda>(solved, s).
     sbind (process_eqns cfg eqns s) (\<lambda>(unsolved, s).
     sret (if solved then unsolved else eqn # unsolved, s)))"

fun add_explicit_constraints :: "sym_config \<Rightarrow> (comparator \<times> dim_size) list \<Rightarrow> solver \<Rightarrow> solver sym" where
  "add_explicit_constraints cfg [] s = sret s"
| "add_explicit_constraints cfg ((cmp, diff) # constrs) s =
     sbind (case diff of
              Const k \<Rightarrow> sret (Const k)
            | Sym e \<Rightarrow> sym_expr cfg (sym_lookup cfg (shape_env s) (chain cfg)) e) (\<lambda>c_diff.
     add_explicit_constraints cfg constrs (add_constraint cmp c_diff (Const 0) s))"

definition add_explicit_symbolic_constraints :: "sym_config \<Rightarrow> solver \<Rightarrow> solver sym" where
  "add_explicit_symbolic_constraints cfg s =
     (if shape_env s = [] then sret s
      else add_explicit_constraints cfg (explicit_constraints (sym_scope cfg)) s)"

text \<open>The loop; every round but the last solves an equation, so there are at most as many rounds
  as equations and one more.\<close>

primrec solve_loop :: "sym_config \<Rightarrow> nat \<Rightarrow> dim_equation list \<Rightarrow> solver \<Rightarrow> solver sym" where
  "solve_loop cfg 0 eqns s = (\<lambda>_. None)"
| "solve_loop cfg (Suc n) eqns s =
     sbind (process_eqns cfg eqns s) (\<lambda>(unsolved, s).
     if unsolved = [] then add_explicit_symbolic_constraints cfg s
     else if length unsolved \<ge> length eqns then slift (Inl (ValueError ''cannot solve for dimension variables''))
     else solve_loop cfg n unsolved s)"

definition solve_dim_equations :: "sym_config \<Rightarrow> dim_equation list \<Rightarrow> solver sym" where
  "solve_dim_equations cfg eqns =
     solve_loop cfg (length eqns + 1) eqns \<lparr>shape_env = [], shape_constraints = []\<rparr>"

subsection \<open>Shapes of arguments\<close>

fun is_symbolic_dim :: "dim_size \<Rightarrow> bool" where
  "is_symbolic_dim (Sym e) = True"
| "is_symbolic_dim (Const k) = False"

text \<open>The names of the dimensions, given by the tree of arguments, are a parameter \<open>describe\<close>.\<close>

definition synth_dimension_vars :: "(nat \<Rightarrow> nat \<Rightarrow> string) \<Rightarrow> dim_size list list \<Rightarrow> (string \<times> nat \<times> nat) list" where
  "synth_dimension_vars describe shapes =
     concat (map (\<lambda>(arg_idx, shape).
       map (\<lambda>(dim_idx, d). (describe arg_idx dim_idx, arg_idx, dim_idx))
         (filter (\<lambda>(dim_idx, d). is_symbolic_dim d) (enumerate 0 shape))) (enumerate 0 shapes))"

definition dim_equations :: "(nat \<Rightarrow> nat \<Rightarrow> string) \<Rightarrow> dim_size list list \<Rightarrow> dim_equation list" where
  "dim_equations describe shapes =
     map (\<lambda>(name, arg_idx, dim_idx).
       \<lparr>aval_dim_expr = ensure_poly (shapes ! arg_idx ! dim_idx), dim_name = name\<rparr>) (synth_dimension_vars describe shapes)"

definition solve_dim_vars ::
  "sym_config \<Rightarrow> (nat \<Rightarrow> nat \<Rightarrow> string) \<Rightarrow> dim_size list list \<Rightarrow> (solver \<times> (string \<times> nat \<times> nat) list) sym" where
  "solve_dim_vars cfg describe args_avals =
     sbind (solve_dim_equations cfg (dim_equations describe args_avals)) (\<lambda>solution.
     sret (solution, synth_dimension_vars describe args_avals))"

definition all_dim_vars :: "dim_size list list \<Rightarrow> string list" where
  "all_dim_vars shapes =
     sorted_list_of_set (\<Union>d \<in> set (concat shapes). case d of Sym e \<Rightarrow> expr_vars e | Const _ \<Rightarrow> {})"

subsection \<open>Checks of a call\<close>

definition check_shape_constraint :: "norm_rules \<Rightarrow> dim_env \<Rightarrow> nat \<Rightarrow> shape_constraint \<Rightarrow> unit res" where
  "check_shape_constraint rules env n c =
     (case c of (cmp, left, right) \<Rightarrow>
        rbind (evaluate rules env n left) (\<lambda>left.
        rbind (evaluate rules env n right) (\<lambda>right.
        if (case cmp of CmpEQ \<Rightarrow> left = right | CmpGEQ \<Rightarrow> left \<ge> right) then Inr ()
        else Inl (ValueError ''input shapes do not match''))))"

definition check_statically :: "norm_rules \<Rightarrow> dim_env \<Rightarrow> nat \<Rightarrow> shape_constraint list \<Rightarrow> unit res" where
  "check_statically rules env n constraints =
     rfold (\<lambda>c _. check_shape_constraint rules env n c) constraints ()"

definition evaluate_shape :: "norm_rules \<Rightarrow> (int \<Rightarrow> (int \<times> int) res) \<Rightarrow> nat \<Rightarrow> dim_size list \<Rightarrow> string list \<Rightarrow> int list \<Rightarrow> int list res" where
  "evaluate_shape rules zd n shape dim_vars dim_values =
     rmap (evaluate rules \<lparr>dim_value = map_of (zip dim_vars dim_values), zero_divmod = zd\<rparr> n) shape"

text \<open>The shape of an argument against the exported one: same rank, same constants\<close>

definition check_argument :: "dim_size list \<Rightarrow> int list \<Rightarrow> unit res" where
  "check_argument expected actual =
     (if length expected \<noteq> length actual then Inl (ValueError ''rank mismatch'')
      else
        rfold (\<lambda>(aval_d, d) _.
          case aval_d of
            Const k \<Rightarrow> if k \<noteq> d then Inl (ValueError ''shape mismatch'') else Inr ()
          | Sym _ \<Rightarrow> Inr ()) (zip expected actual) ())"

text \<open>\<^verbatim>\<open>_call_exported_abstract_eval\<close> on arguments of static shapes: the values of the dimension variables and
  the shapes of the results\<close>

definition call_exported ::
  "sym_config \<Rightarrow> (nat \<Rightarrow> nat \<Rightarrow> string) \<Rightarrow> dim_size list list \<Rightarrow> dim_size list list \<Rightarrow> int list list
    \<Rightarrow> (int list \<times> int list list) sym" where
  "call_exported cfg describe exported_in exported_out in_avals =
     sbind (slift (rassert (length in_avals = length exported_in))) (\<lambda>_.
     sbind (slift (rfold (\<lambda>(e, a) _. check_argument e a) (zip exported_in in_avals) ())) (\<lambda>_.
     sbind (solve_dim_vars cfg describe exported_in) (\<lambda>(solution, synth_dim_vars).
     let synthetic_env = \<lparr>dim_value = map_of (rev (map (\<lambda>(vname, arg_idx, dim_idx). (vname, in_avals ! arg_idx ! dim_idx)) synth_dim_vars)),
           zero_divmod = sym_zero_divmod cfg\<rparr>;
         dim_vars = all_dim_vars exported_in in
     sbind (slift (check_statically (sym_rules cfg) synthetic_env (chain cfg) (shape_constraints solution))) (\<lambda>_.
     sbind (slift (rmap (\<lambda>var. case map_of (shape_env solution) var of
              None \<Rightarrow> Inl KeyError
            | Some d \<Rightarrow> evaluate (sym_rules cfg) synthetic_env (chain cfg) d) dim_vars)) (\<lambda>dim_values.
     sbind (slift (rmap (\<lambda>shape. evaluate_shape (sym_rules cfg) (sym_zero_divmod cfg) (chain cfg) shape dim_vars dim_values)
              exported_out)) (\<lambda>out_shapes.
     sret (dim_values, out_shapes)))))))"

end
