(* ===== verification/DimSolveCorrect.thy ===== *)
theory DimSolveCorrect
  imports DimSolve DimDivmod
begin

text \<open>
  The solver of dimension variables finds exactly the solutions: an assignment satisfies the equations if
  and only if it gives the variables the values of the computed expressions and satisfies the collected
  constraints. Proved in the locale \<open>solving\<close> for a valuation of factors, \<open>divisions\<close> being what the
  evaluation with symbolic values needs of it.
\<close>

subsection \<open>Computations that return\<close>

lemma sbind_Some:
  "sbind m f c = Some (Inr y, c') \<longleftrightarrow> (\<exists>x c1. m c = Some (Inr x, c1) \<and> f x c1 = Some (Inr y, c'))"
  unfolding sbind_def by (auto split: option.splits sum.splits)

lemma slift_Some: "slift r c = Some (x, c') \<longleftrightarrow> r = x \<and> c' = c"
  by (auto simp: slift_def)

lemma stry_Some:
  "stry m h f c = Some (Inr y, c') \<longleftrightarrow>
     (\<exists>x c1. m c = Some (Inr x, c1) \<and> f x c1 = Some (Inr y, c')) \<or>
     (\<exists>c1. m c = Some (Inl UnexpectedDimVar, c1) \<and> h c1 = Some (Inr y, c'))"
  unfolding stry_def by (auto split: option.splits sum.splits if_splits)

lemma sbind_assoc: "sbind (sbind m f) g = sbind m (\<lambda>x. sbind (f x) g)"
  by (rule ext) (simp add: sbind_def split: option.splits sum.splits)

lemmas sym_simps = sbind_Some slift_Some stry_Some

lemma smap_Some:
  "smap f xs c = Some (Inr ys, c') \<Longrightarrow> (\<And>x d e y. x \<in> set xs \<Longrightarrow> f x d = Some (Inr y, e) \<Longrightarrow> P x y) \<Longrightarrow> list_all2 P xs ys"
  by (induction xs arbitrary: ys c) (auto simp: sym_simps)

subsection \<open>Values\<close>

text \<open>\<open>regular I f\<close>: the divisions in \<open>f\<close> are by operands that are not zero, and \<open>I\<close> gives them their values.\<close>

fun regular :: "(dim_factor \<Rightarrow> int) \<Rightarrow> dim_factor \<Rightarrow> bool" where
  "regular I (Var v) = True"
| "regular I (Oper oper es) =
     ((case es of
         [a, b] \<Rightarrow> eden I b \<noteq> 0 \<and>
           (oper = OpFLOORDIV \<and> I (Oper oper es) = eden I a div eden I b \<or>
            oper = OpMOD \<and> I (Oper oper es) = eden I a mod eden I b)
       | _ \<Rightarrow> False) \<and>
      (\<forall>e \<in> set es. \<forall>p \<in> set e. \<forall>q \<in> set (fst p). regular I (fst q)))"

definition regular_expr :: "(dim_factor \<Rightarrow> int) \<Rightarrow> dim_expr \<Rightarrow> bool" where
  "regular_expr I e \<longleftrightarrow> (\<forall>p \<in> set e. \<forall>q \<in> set (fst p). regular I (fst q))"

definition regular_term :: "(dim_factor \<Rightarrow> int) \<Rightarrow> dim_term \<Rightarrow> bool" where
  "regular_term I t \<longleftrightarrow> (\<forall>q \<in> set t. regular I (fst q))"

text \<open>A constraint that evaluates to a true comparison\<close>

definition checked :: "(dim_size \<Rightarrow> int res) \<Rightarrow> shape_constraint \<Rightarrow> bool" where
  "checked ev c \<longleftrightarrow> (case c of (cmp, l, r) \<Rightarrow>
     \<exists>a b. ev l = Inr a \<and> ev r = Inr b \<and> (case cmp of CmpEQ \<Rightarrow> a = b | CmpGEQ \<Rightarrow> a \<ge> b))"

text \<open>A variable that is its own normal form; with the variables of expressions in normal form it is so.\<close>

definition own_var :: "norm_rules \<Rightarrow> string \<Rightarrow> bool" where
  "own_var rules v \<longleftrightarrow> from_var rules v = Inr (Sym [([(Var v, 1)], 1)])"

lemma sym_lookup_own:
  assumes "own_var (sym_rules cfg) v"
  shows "sym_lookup cfg env n v c = Some (case map_of env v of Some d \<Rightarrow> Inr d | None \<Rightarrow> Inl UnexpectedDimVar, c)"
  using assms
  by (subst sym_lookup.simps) (simp add: own_var_def slift_def sbind_def expr_to_var_def expr_to_term_def term_to_var_def
    term_to_factor_def split: option.splits)

lemma term_to_var_Some:
  assumes "term_to_var t = Inr (Some v)"
  shows "t = [(Var v, 1)]"
proof -
  obtain f where f: "term_to_factor t = Inr (Some f)" "factor_to_var f = Some v"
    using assms by (auto simp: term_to_var_def rbind_eq_Inr bind_eq_Some_conv)
  moreover have "f = Var v" using f(2) by (cases f) auto
  ultimately show ?thesis by (auto simp: term_to_factor_def split: list.splits if_splits)
qed

text \<open>The variable that is solved for has no value yet.\<close>

lemma sym_term_var:
  assumes "own_var (sym_rules cfg) v" "map_of env v = Some d"
  shows "sym_term cfg (sym_lookup cfg env n) [(Var v, 1)] c = Some (Inr d, c)"
  using sym_lookup_own [OF assms(1), of env n] assms(2)
  by (simp add: sym_term_def sbind_def slift_def pow_opt_def)

lemma process_terms_Cons:
  assumes "process_terms cfg env ((t, k) # ts) rest var c = Some (Inr (Some r), c')"
  obtains (known) tv c1 m n rest1 where "sym_term cfg (sym_lookup cfg env (chain cfg)) t c = Some (Inr tv, c1)"
      "evaluate_multiply (sym_rules cfg) tv (Const k) = Inr m" "dim_mul (sym_rules cfg) (Const (-1)) m = Inr n"
      "dim_add (sym_rules cfg) rest n = Inr rest1" "process_terms cfg env ts rest1 var c1 = Some (Inr (Some r), c')"
  | (new) c1 v where "sym_term cfg (sym_lookup cfg env (chain cfg)) t c = Some (Inl UnexpectedDimVar, c1)"
      "term_to_var t = Inr (Some v)" "var = None" "process_terms cfg env ts rest (Some (v, k)) c1 = Some (Inr (Some r), c')"
proof -
  from assms [unfolded process_terms.simps stry_Some]
  show thesis
  proof (elim disjE exE conjE)
    fix c1 assume t: "sym_term cfg (sym_lookup cfg env (chain cfg)) t c = Some (Inl UnexpectedDimVar, c1)"
      and "sbind (slift (term_to_var t)) (\<lambda>v. case (v, var) of
          (Some v, None) \<Rightarrow> process_terms cfg env ts rest (Some (v, k)) | _ \<Rightarrow> sret None) c1 = Some (Inr (Some r), c')"
    then obtain y where y: "term_to_var t = Inr y"
      "(case (y, var) of (Some v, None) \<Rightarrow> process_terms cfg env ts rest (Some (v, k)) | _ \<Rightarrow> sret None) c1
        = Some (Inr (Some r), c')" by (auto simp: sym_simps)
    then show thesis using new [OF t] by (cases y; cases var) (auto simp: sym_simps)
  next
    fix tv c1 assume "sym_term cfg (sym_lookup cfg env (chain cfg)) t c = Some (Inr tv, c1)"
    then show ?thesis if "sbind (slift (evaluate_multiply (sym_rules cfg) tv (Const k))) (\<lambda>m.
        sbind (slift (dim_mul (sym_rules cfg) (Const (-1)) m)) (\<lambda>m.
        sbind (slift (dim_add (sym_rules cfg) rest m)) (\<lambda>rest.
        process_terms cfg env ts rest var))) c1 = Some (Inr (Some r), c')"
      using that known by (auto simp: sym_simps)
  qed
qed

lemma process_terms_fresh:
  assumes "process_terms cfg env ts rest var c = Some (Inr (Some (rest', var')), c')"
    and "\<forall>v \<in> expr_vars ts. own_var (sym_rules cfg) v" "\<forall>p \<in> set ts. snd p \<noteq> 0"
  shows "var' = var \<or> (\<exists>v k. var' = Some (v, k) \<and> k \<noteq> 0 \<and> map_of env v = None)"
  using assms
proof (induction ts arbitrary: rest var c)
  case (Cons p ts)
  obtain t k where p: "p = (t, k)" by (cases p)
  have own: "\<forall>v \<in> expr_vars ts. own_var (sym_rules cfg) v" "\<forall>p \<in> set ts. snd p \<noteq> 0"
    using Cons.prems(2,3) by (auto simp: expr_vars_def)
  from Cons.prems(1) [unfolded p] show ?case
  proof (cases rule: process_terms_Cons)
    case (known tv c1 m n rest1)
    then show ?thesis using Cons.IH own by blast
  next
    case (new c1 v)
    note t = term_to_var_Some [OF new(2)]
    have "own_var (sym_rules cfg) v" using Cons.prems(2) t p by (simp add: expr_vars_def term_vars_def)
    then have "map_of env v = None" using new(1) sym_term_var [of cfg v env] t by (cases "map_of env v") auto
    moreover have "k \<noteq> 0" using Cons.prems(3) p by simp
    ultimately show ?thesis using Cons.IH [OF new(4) own] new(3) by blast
  qed
qed (auto simp: sym_simps)

lemma solve_var_cases:
  assumes "solve_var cfg rest v k s c = Some (Inr s', c')"
  obtains (one) "k = 1" "s' = add_constraint CmpGEQ rest (Const 1) (s\<lparr>shape_env := dict_set (shape_env s) v rest\<rparr>)"
  | (quotient) q r c1 where "sym_divmod cfg rest (Const k) c = Some (Inr (q, r), c1)"
      "s' = add_constraint CmpGEQ q (Const 1) ((add_constraint CmpEQ r (Const 0) s)\<lparr>shape_env := dict_set (shape_env s) v q\<rparr>)"
proof (cases "k = 1")
  case True
  then show thesis using assms one by (auto simp: solve_var_def sym_simps split: dim_size.splits)
next
  case False
  then obtain q r c1 where d: "sym_divmod cfg rest (Const k) c = Some (Inr (q, r), c1)"
    "(case q of Const _ \<Rightarrow> slift (Inl AttributeError)
      | Sym _ \<Rightarrow> sret (add_constraint CmpGEQ q (Const 1)
          ((add_constraint CmpEQ r (Const 0) s)\<lparr>shape_env := dict_set (shape_env (add_constraint CmpEQ r (Const 0) s)) v q\<rparr>))) c1
      = Some (Inr s', c')"
    using assms by (auto simp: solve_var_def sbind_Some slift_Some)
  show thesis
  proof (cases q)
    case (Sym e)
    then show thesis using quotient [OF d(1)] d(2) by (auto simp: slift_Some add_constraint_def)
  qed (use d(2) in \<open>simp add: slift_Some\<close>)
qed

locale solving = scope_valuation rules F I for rules F I +
  assumes divisions: "dividend_ok F e \<Longrightarrow> size_ok F d \<Longrightarrow> den I d \<noteq> 0 \<Longrightarrow>
    Oper OpFLOORDIV [e, ensure_poly d] \<in> F \<and> Oper OpMOD [e, ensure_poly d] \<in> F \<and>
    I (Oper OpFLOORDIV [e, ensure_poly d]) = eden I e div den I d \<and>
    I (Oper OpMOD [e, ensure_poly d]) = eden I e mod den I d"
begin

definition returns :: "dim_size sym \<Rightarrow> int \<Rightarrow> bool" where
  "returns m v \<longleftrightarrow> (\<forall>c d c'. m c = Some (Inr d, c') \<longrightarrow> size_ok F d \<and> den I d = v)"

lemma evaluate_multiply_ok:
  "size_ok F a \<Longrightarrow> size_ok F b \<Longrightarrow> evaluate_multiply rules a b = Inr d \<Longrightarrow> size_ok F d \<and> den I d = den I a * den I b"
  using dim_mul_ok [of a b] by (auto simp: evaluate_multiply_def yields_def split: if_splits)

lemma evaluate_add_ok:
  "size_ok F a \<Longrightarrow> size_ok F b \<Longrightarrow> evaluate_add rules a b = Inr d \<Longrightarrow> size_ok F d \<and> den I d = den I a + den I b"
  using dim_add_ok [of a b] by (auto simp: evaluate_add_def yields_def split: if_splits)

lemma reduce_product:
  "rfold (\<lambda>x acc. evaluate_multiply rules acc x) vs v = Inr d \<Longrightarrow> size_ok F v \<Longrightarrow> \<forall>v \<in> set vs. size_ok F v \<Longrightarrow>
     size_ok F d \<and> den I d = den I v * prod_list (map (den I) vs)"
proof (induction vs arbitrary: v)
  case (Cons x vs)
  from Cons.prems obtain w where w: "evaluate_multiply rules v x = Inr w"
    "rfold (\<lambda>x acc. evaluate_multiply rules acc x) vs w = Inr d" by (auto simp: rbind_eq_Inr)
  then show ?case using Cons.IH [OF w(2)] evaluate_multiply_ok [of v x w] Cons.prems by (simp add: mult.assoc)
qed simp

lemma reduce_sum:
  "rfold (\<lambda>x acc. evaluate_add rules acc x) vs v = Inr d \<Longrightarrow> size_ok F v \<Longrightarrow> \<forall>v \<in> set vs. size_ok F v \<Longrightarrow>
     size_ok F d \<and> den I d = den I v + sum_list (map (den I) vs)"
proof (induction vs arbitrary: v)
  case (Cons x vs)
  from Cons.prems obtain w where w: "evaluate_add rules v x = Inr w"
    "rfold (\<lambda>x acc. evaluate_add rules acc x) vs w = Inr d" by (auto simp: rbind_eq_Inr)
  then show ?case using Cons.IH [OF w(2)] evaluate_add_ok [of v x w] Cons.prems by (simp add: add.assoc)
qed simp

lemma prod_values_ok:
  "prod_values rules vs = Inr d \<Longrightarrow> \<forall>v \<in> set vs. size_ok F v \<Longrightarrow> size_ok F d \<and> den I d = prod_list (map (den I) vs)"
  using reduce_product by (cases vs) auto

lemma sum_values_ok:
  "sum_values rules vs = Inr d \<Longrightarrow> \<forall>v \<in> set vs. size_ok F v \<Longrightarrow> size_ok F d \<and> den I d = sum_list (map (den I) vs)"
  using reduce_sum by (cases vs) auto

lemma pow_opt_ok:
  assumes "pow_opt rules v n = Inr d" "size_ok F v"
  shows "size_ok F d \<and> den I d = den I v ^ nat n"
proof (cases "n = 1")
  case False
  have "prod_list (map (den I) (replicate (nat n) v)) = den I v ^ nat n"
    unfolding map_replicate prod_list_replicate ..
  then show ?thesis using assms False prod_values_ok [of "replicate (nat n) v" d] by (auto simp: pow_opt_def)
qed (use assms in \<open>simp add: pow_opt_def\<close>)

lemma sym_divmod_ok:
  assumes "size_ok F a" "size_ok F b" "den I b \<noteq> 0" "sym_rules cfg = rules" "sym_divmod cfg a b c = Some (Inr (q, r), c')"
  shows "size_ok F q \<and> size_ok F r \<and> den I q = den I a div den I b \<and> den I r = den I a mod den I b"
proof (cases "\<exists>x y. a = Const x \<and> b = Const y")
  case True
  then show ?thesis using assms by (auto simp: slift_def)
next
  case False
  then have d: "dim_divmod rules (division_fuel cfg) (ensure_poly a) b = Some (Inr (q, r))"
    using assms(4,5) by (cases a; cases b) auto
  have "dividend_ok F (ensure_poly a)" using assms(1) by (cases a) (auto simp: dividend_ok_def)
  moreover have "eden I (ensure_poly a) = den I a" by (cases a) (simp_all add: mk_expr_def)
  ultimately show ?thesis
    using dim_divmod_ok [OF d _ assms(2,3)] divisions [OF _ assms(2,3), of "ensure_poly a"] by auto
qed

lemma returns_smap:
  assumes "smap f xs c = Some (Inr vs, c')" "\<And>x. x \<in> set xs \<Longrightarrow> returns (f x) (g x)"
  shows "\<forall>v \<in> set vs. size_ok F v" "map (den I) vs = map g xs"
proof -
  have l: "list_all2 (\<lambda>x v. size_ok F v \<and> den I v = g x) xs vs"
    by (rule smap_Some [OF assms(1)]) (use assms(2) in \<open>auto simp: returns_def\<close>)
  then show "\<forall>v \<in> set vs. size_ok F v" by (auto simp: list_all2_conv_all_nth in_set_conv_nth)
  show "map (den I) vs = map g xs" using l by (auto simp: list_all2_conv_all_nth intro: nth_equalityI)
qed

lemma returns_term:
  assumes "sym_rules cfg = rules" "\<And>q. q \<in> set t \<Longrightarrow> returns (sym_factor cfg lookup (fst q)) (I (fst q))"
  shows "returns (sym_term cfg lookup t) (tden I t)"
  unfolding returns_def
proof (intro allI impI)
  fix c d c' assume "sym_term cfg lookup t c = Some (Inr d, c')"
  then obtain vs where m: "smap (\<lambda>q. sbind (sym_factor cfg lookup (fst q)) (\<lambda>v. slift (pow_opt rules v (snd q)))) t c = Some (Inr vs, c')"
    and p: "prod_values rules vs = Inr d" using assms(1) by (auto simp: sym_term_def sym_simps)
  have "returns (sbind (sym_factor cfg lookup (fst q)) (\<lambda>v. slift (pow_opt rules v (snd q)))) (I (fst q) ^ nat (snd q))"
    if "q \<in> set t" for q
    using assms(2) [OF that] pow_opt_ok by (force simp: returns_def sym_simps)
  from returns_smap [OF m this] have "\<forall>v \<in> set vs. size_ok F v"
    "map (den I) vs = map (\<lambda>q. I (fst q) ^ nat (snd q)) t" by blast+
  then show "size_ok F d \<and> den I d = tden I t" using prod_values_ok [OF p] by (simp add: tden_def split_def)
qed

lemma returns_expr:
  assumes "sym_rules cfg = rules" "\<And>p. p \<in> set e \<Longrightarrow> returns (sym_term cfg lookup (fst p)) (tden I (fst p))"
  shows "returns (sym_expr cfg lookup e) (eden I e)"
  unfolding returns_def
proof (intro allI impI)
  fix c d c' assume "sym_expr cfg lookup e c = Some (Inr d, c')"
  then obtain vs where m: "smap (\<lambda>p. sbind (sym_term cfg lookup (fst p)) (\<lambda>v. slift (evaluate_multiply rules v (Const (snd p))))) e c = Some (Inr vs, c')"
    and p: "sum_values rules vs = Inr d" using assms(1) by (auto simp: sym_expr_def sym_simps)
  have "returns (sbind (sym_term cfg lookup (fst p)) (\<lambda>v. slift (evaluate_multiply rules v (Const (snd p))))) (tden I (fst p) * snd p)"
    if "p \<in> set e" for p
    using assms(2) [OF that] evaluate_multiply_ok [of _ "Const (snd p)"] by (force simp: returns_def sym_simps)
  from returns_smap [OF m this] have "\<forall>v \<in> set vs. size_ok F v"
    "map (den I) vs = map (\<lambda>p. tden I (fst p) * snd p) e" by blast+
  then show "size_ok F d \<and> den I d = eden I e" using sum_values_ok [OF p] by (simp add: eden_def split_def)
qed

lemma sym_factor_Oper: "sym_factor cfg lookup (Oper oper es) = sbind (smap (sym_expr cfg lookup) es) (sym_op cfg oper)"
  by (simp add: sym_expr_def [abs_def] sym_term_def [abs_def] sbind_assoc)

lemma returns_factor:
  assumes "sym_rules cfg = rules" "regular I f" "\<And>v. v \<in> factor_vars f \<Longrightarrow> returns (lookup v) (I (Var v))"
  shows "returns (sym_factor cfg lookup f) (I f)"
  using assms(2,3)
proof (induction f rule: measure_induct_rule [where f = size])
  case (less f)
  show ?case
  proof (cases f)
    case (Var v)
    then show ?thesis using less.prems by simp
  next
    case (Oper oper es)
    then obtain a b where es: "es = [a, b]" using less.prems(1) by (auto split: list.splits)
    have r: "returns (sym_expr cfg lookup e) (eden I e)" if e: "e \<in> set es" for e
    proof (intro returns_expr returns_term assms(1))
      fix p q assume "p \<in> set e" "q \<in> set (fst p)"
      then show "returns (sym_factor cfg lookup (fst q)) (I (fst q))"
        using less.IH [of "fst q"] size_operand [OF e, of "fst p" "snd p" "fst q" "snd q"] less.prems Oper e by fastforce
    qed
    show ?thesis
      unfolding returns_def
    proof (intro allI impI)
      fix c d c' assume "sym_factor cfg lookup f c = Some (Inr d, c')"
      then obtain vs c1 where m: "smap (sym_expr cfg lookup) es c = Some (Inr vs, c1)" and o: "sym_op cfg oper vs c1 = Some (Inr d, c')"
        unfolding Oper sym_factor_Oper by (auto simp: sym_simps)
      have v: "\<forall>v \<in> set vs. size_ok F v" "map (den I) vs = map (eden I) es" using returns_smap [OF m r] by blast+
      then obtain x y where xy: "vs = [x, y]" "size_ok F x" "size_ok F y" "den I x = eden I a" "den I y = eden I b"
        using es by (auto simp: map_eq_Cons_conv)
      have I: "eden I b \<noteq> 0" "oper = OpFLOORDIV \<and> I f = eden I a div eden I b \<or> oper = OpMOD \<and> I f = eden I a mod eden I b"
        using less.prems(1) Oper es by auto
      from o obtain q r where "sym_divmod cfg x y c1 = Some (Inr (q, r), c')" "d = (if oper = OpFLOORDIV then q else r)"
        using I(2) xy(1) by (auto simp: sym_op_def sym_simps)
      then show "size_ok F d \<and> den I d = I f"
        using sym_divmod_ok [OF xy(2,3) _ assms(1)] I xy(4,5) by auto
    qed
  qed
qed

subsection \<open>Equations and constraints\<close>

definition good_env :: "dim_var_env \<Rightarrow> bool" where
  "good_env env \<longleftrightarrow> (\<forall>v d. map_of env v = Some d \<longrightarrow> size_ok F d \<and> den I d = I (Var v))"

definition spec_ok :: "dim_expr \<Rightarrow> bool" where
  "spec_ok e \<longleftrightarrow> (\<forall>p \<in> set e. snd p \<noteq> 0) \<and> regular_expr I e \<and> (\<forall>v \<in> expr_vars e. own_var rules v)"

fun constraint_holds :: "shape_constraint \<Rightarrow> bool" where
  "constraint_holds (CmpEQ, l, r) \<longleftrightarrow> den I l = den I r"
| "constraint_holds (CmpGEQ, l, r) \<longleftrightarrow> den I l \<ge> den I r"

text \<open>What a state of the solver says of the valuation, and that its expressions are canonical.\<close>

definition sound :: "solver \<Rightarrow> bool" where
  "sound s \<longleftrightarrow> (\<forall>v d. map_of (shape_env s) v = Some d \<longrightarrow> den I d = I (Var v)) \<and>
     (\<forall>c \<in> set (shape_constraints s). constraint_holds c)"

definition wf :: "solver \<Rightarrow> bool" where
  "wf s \<longleftrightarrow> (\<forall>v d. map_of (shape_env s) v = Some d \<longrightarrow> size_ok F d) \<and>
     (\<forall>(cmp, l, r) \<in> set (shape_constraints s). size_ok F l \<and> size_ok F r)"

lemma sound_wf_env: "sound s \<Longrightarrow> wf s \<Longrightarrow> good_env (shape_env s)"
  by (auto simp: sound_def wf_def good_env_def)

lemma add_constraint_simps [simp]:
  "shape_env (add_constraint cmp l r s) = shape_env s"
  "sound (add_constraint cmp l r s) \<longleftrightarrow> sound s \<and> constraint_holds (cmp, l, r)"
  "wf (add_constraint cmp l r s) \<longleftrightarrow> wf s \<and> size_ok F l \<and> size_ok F r"
  by (auto simp: add_constraint_def sound_def wf_def)

lemma returns_lookup:
  assumes "sym_rules cfg = rules" "own_var rules v" "good_env env"
  shows "returns (sym_lookup cfg env n v) (I (Var v))"
  using sym_lookup_own [of cfg v env n] assms by (auto simp: returns_def good_env_def split: option.splits)

lemma returns_spec_term:
  assumes "sym_rules cfg = rules" "good_env env" "\<forall>q \<in> set t. regular I (fst q)" "\<forall>v \<in> term_vars t. own_var rules v"
  shows "returns (sym_term cfg (sym_lookup cfg env n) t) (tden I t)"
proof (intro returns_term assms(1))
  fix q assume q: "q \<in> set t"
  have "returns (sym_lookup cfg env n v) (I (Var v))" if "v \<in> factor_vars (fst q)" for v
    using that q assms(4) by (intro returns_lookup assms(1,2)) (auto simp: term_vars_def)
  then show "returns (sym_factor cfg (sym_lookup cfg env n) (fst q)) (I (fst q))"
    using q assms(3) by (intro returns_factor assms(1)) auto
qed

lemma returns_spec:
  assumes "sym_rules cfg = rules" "good_env env" "spec_ok e"
  shows "returns (sym_expr cfg (sym_lookup cfg env n) e) (eden I e)"
  by (intro returns_expr returns_spec_term assms) (use assms(3) in \<open>auto simp: spec_ok_def regular_expr_def expr_vars_def\<close>)

definition value_of :: "(string \<times> int) option \<Rightarrow> int" where
  "value_of var = (case var of None \<Rightarrow> 0 | Some (v, k) \<Rightarrow> I (Var v) * k)"

lemma process_terms_ok:
  assumes "process_terms cfg env ts rest var c = Some (Inr (Some (rest', var')), c')"
    and "sym_rules cfg = rules" "good_env env" "spec_ok ts" "size_ok F rest"
  shows "size_ok F rest' \<and> den I rest - eden I ts - value_of var = den I rest' - value_of var'"
  using assms(1,4,5)
proof (induction ts arbitrary: rest var c)
  case (Cons p ts)
  obtain t k where p: "p = (t, k)" by (cases p)
  have s: "spec_ok ts" "\<forall>q \<in> set t. regular I (fst q)" "\<forall>v \<in> term_vars t. own_var rules v"
    using Cons.prems(2) p by (auto simp: spec_ok_def regular_expr_def expr_vars_def)
  from Cons.prems(1) [unfolded p] show ?case
  proof (cases rule: process_terms_Cons)
    case (known tv c1 m n rest1)
    have "size_ok F tv \<and> den I tv = tden I t"
      using returns_spec_term [OF assms(2,3) s(2,3)] known(1) by (auto simp: returns_def)
    then have m: "size_ok F m \<and> den I m = tden I t * k"
      using evaluate_multiply_ok [of tv "Const k" m] known(2) assms(2) by simp
    then have "size_ok F n \<and> den I n = - (tden I t * k)"
      using dim_mul_ok [of "Const (-1)" m] known(3) assms(2) by (auto simp: yields_def)
    then have "size_ok F rest1 \<and> den I rest1 = den I rest - tden I t * k"
      using dim_add_ok [of rest n] known(4) assms(2) Cons.prems(3) by (auto simp: yields_def)
    then show ?thesis using Cons.IH [OF known(5) s(1)] p by simp
  next
    case (new c1 v)
    then have "value_of (Some (v, k)) = tden I t * k" "value_of var = 0"
      using term_to_var_Some [OF new(2)] by (simp_all add: value_of_def)
    then show ?thesis using Cons.IH [OF new(4) s(1) Cons.prems(3)] p by simp
  qed
qed (auto simp: sym_simps)

lemma sound_update:
  assumes "map_of (shape_env s) v = None"
  shows "sound (s\<lparr>shape_env := dict_set (shape_env s) v d\<rparr>) \<longleftrightarrow> sound s \<and> den I d = I (Var v)"
    "size_ok F d \<Longrightarrow> wf s \<Longrightarrow> wf (s\<lparr>shape_env := dict_set (shape_env s) v d\<rparr>)"
proof -
  have up: "map_of (dict_set (shape_env s) v d) u = Some x \<longleftrightarrow> (if u = v then x = d else map_of (shape_env s) u = Some x)" for u x
    by auto
  show "sound (s\<lparr>shape_env := dict_set (shape_env s) v d\<rparr>) \<longleftrightarrow> sound s \<and> den I d = I (Var v)"
  proof
    assume n: "sound (s\<lparr>shape_env := dict_set (shape_env s) v d\<rparr>)"
    then have "den I x = I (Var u)" if "map_of (shape_env s) u = Some x" for u x
      using that assms unfolding sound_def by (cases "u = v") (auto simp: up)
    then show "sound s \<and> den I d = I (Var v)" using n by (auto simp: sound_def)
  qed (auto simp: sound_def up)
  show "size_ok F d \<Longrightarrow> wf s \<Longrightarrow> wf (s\<lparr>shape_env := dict_set (shape_env s) v d\<rparr>)"
    by (simp add: wf_def)
qed

lemma solve_var_ok:
  assumes "solve_var cfg rest v k s c = Some (Inr s', c')" "map_of (shape_env s) v = None" "k \<noteq> 0"
  shows "sound s' \<Longrightarrow> sound s" "dom (map_of (shape_env s')) = insert v (dom (map_of (shape_env s)))"
    "sym_rules cfg = rules \<Longrightarrow> size_ok F rest \<Longrightarrow> wf s \<Longrightarrow> sound s \<Longrightarrow>
      wf s' \<and> (sound s' \<longleftrightarrow> den I rest = I (Var v) * k \<and> I (Var v) \<ge> 1)"
proof -
  have con: "map_of (shape_env (add_constraint CmpEQ r (Const 0) s)) v = None" for r using assms(2) by simp
  show "sound s' \<Longrightarrow> sound s"
    using assms(1) by (cases rule: solve_var_cases)
      (use sound_update(1) [OF assms(2)] sound_update(1) [OF con] in \<open>auto simp del: constraint_holds.simps\<close>)
  show "dom (map_of (shape_env s')) = insert v (dom (map_of (shape_env s)))"
    using assms(1) by (cases rule: solve_var_cases) auto
  assume r: "sym_rules cfg = rules" "size_ok F rest" "wf s" "sound s"
  from assms(1) show "wf s' \<and> (sound s' \<longleftrightarrow> den I rest = I (Var v) * k \<and> I (Var v) \<ge> 1)"
  proof (cases rule: solve_var_cases)
    case one
    then show ?thesis using r sound_update [OF assms(2)] by auto
  next
    case (quotient q m c1)
    from sym_divmod_ok [OF r(2) _ _ r(1) quotient(1)] assms(3) have
      q: "size_ok F q" "size_ok F m" "den I q = den I rest div k" "den I m = den I rest mod k" by auto
    have "den I rest = I (Var v) * k \<longleftrightarrow> den I q = I (Var v) \<and> den I m = 0"
      unfolding q(3,4) using assms(3) by (metis add.right_neutral div_mult_mod_eq mod_mult_self2_is_0 nonzero_mult_div_cancel_right)
    then show ?thesis using quotient(2) r q(1,2) sound_update [OF con [of m], of q] by auto
  qed
qed

definition eqn_ok :: "dim_equation \<Rightarrow> bool" where
  "eqn_ok eqn \<longleftrightarrow> spec_ok (aval_dim_expr eqn) \<and> own_var rules (dim_name eqn) \<and> Var (dim_name eqn) \<in> F"

definition eqn_holds :: "dim_equation \<Rightarrow> bool" where
  "eqn_holds eqn \<longleftrightarrow> eden I (aval_dim_expr eqn) = I (Var (dim_name eqn))"

text \<open>The step from one state to the next: the new state says as much more of the valuation as the equations
  that hold, and that the newly solved variables are positive.\<close>

definition step_ok :: "solver \<Rightarrow> solver \<Rightarrow> bool \<Rightarrow> bool" where
  "step_ok s s' eqs \<longleftrightarrow>
     ((sound s \<longrightarrow> wf s) \<longrightarrow> (sound s' \<longrightarrow> wf s')) \<and>
     ((sound s \<longrightarrow> wf s) \<longrightarrow> (sound s' \<longleftrightarrow> sound s \<and> eqs \<and>
       (\<forall>v \<in> dom (map_of (shape_env s')) - dom (map_of (shape_env s)). I (Var v) \<ge> 1))) \<and>
     dom (map_of (shape_env s)) \<subseteq> dom (map_of (shape_env s'))"

lemma own_var_size: "own_var rules v \<Longrightarrow> Var v \<in> F \<Longrightarrow> size_ok F (Sym [([(Var v, 1)], 1)])"
  by (simp add: term_ok_def strictly_descending_def)

lemma process_one_eqn_ok:
  assumes "process_one_eqn cfg eqn s c = Some (Inr (b, s'), c')" "sym_rules cfg = rules" "eqn_ok eqn"
  shows "step_ok s s' (b \<longrightarrow> eqn_holds eqn)" "\<not> b \<Longrightarrow> s' = s"
proof -
  let ?n = "Sym [([(Var (dim_name eqn), 1)], 1)]" and ?e = "aval_dim_expr eqn"
  have n: "from_var rules (dim_name eqn) = Inr ?n" "size_ok F ?n" "den I ?n = I (Var (dim_name eqn))"
    using assms(3) own_var_size by (auto simp: eqn_ok_def own_var_def)
  have spec: "spec_ok ?e" "\<forall>v \<in> expr_vars ?e. own_var (sym_rules cfg) v" "\<forall>p \<in> set ?e. snd p \<noteq> 0"
    using assms(2,3) by (auto simp: eqn_ok_def spec_ok_def)
  from assms(1) obtain r c1 where r: "process_terms cfg (shape_env s) ?e ?n None c = Some (Inr r, c1)" and
    rest: "(case r of
       None \<Rightarrow> sret (False, s)
     | Some (rest, Some (v, var_k)) \<Rightarrow> sbind (solve_var cfg rest v var_k s) (\<lambda>s. sret (True, s))
     | Some (_, None) \<Rightarrow>
         sbind (sret ?n) (\<lambda>left.
         sbind (sym_expr cfg (sym_lookup cfg (shape_env s) (chain cfg)) ?e) (\<lambda>right.
         sret (True, add_constraint CmpEQ left right s)))) c1 = Some (Inr (b, s'), c')"
    unfolding process_one_eqn_def assms(2) n(1) sbind_Some [of "sret _"] sbind_Some [of "process_terms _ _ _ _ _"] slift_Some
    by blast
  have "step_ok s s' (b \<longrightarrow> eqn_holds eqn) \<and> (\<not> b \<longrightarrow> s' = s)"
  proof (cases r)
    case None
    then have "b = False" "s' = s" using rest by (auto simp: slift_Some)
    then show ?thesis by (auto simp: step_ok_def)
  next
    case (Some rv)
    obtain d var where rv: "rv = (d, var)" by (cases rv)
    note pt = r [unfolded Some rv]
    have t: "size_ok F d \<and> I (Var (dim_name eqn)) - eden I ?e = den I d - value_of var" if "sound s" "wf s"
      using process_terms_ok [OF pt assms(2) sound_wf_env [OF that] spec(1) n(2)] n(3) by (simp add: value_of_def)
    show ?thesis
    proof (cases var)
      case None
      then obtain right c2 where e: "sym_expr cfg (sym_lookup cfg (shape_env s) (chain cfg)) ?e c1 = Some (Inr right, c2)"
        "b" "s' = add_constraint CmpEQ ?n right s"
        using rest Some rv n(1) assms(2) by (auto simp: sbind_Some slift_Some)
      have "size_ok F right \<and> den I right = eden I ?e" if "sound s" "wf s"
        using returns_spec [OF assms(2) sound_wf_env [OF that] spec(1)] e(1) by (auto simp: returns_def)
      then show ?thesis using e n by (auto simp: step_ok_def eqn_holds_def)
    next
      case (Some vk)
      obtain v k where vk: "vk = (v, k)" by (cases vk)
      have f: "map_of (shape_env s) v = None" "k \<noteq> 0"
        using process_terms_fresh [OF pt spec(2,3)] Some vk by auto
      have sv: "solve_var cfg d v k s c1 = Some (Inr s', c')" "b"
        using rest \<open>r = Some rv\<close> rv Some vk by (auto simp: sbind_Some slift_Some)
      note o = solve_var_ok [OF sv(1) f]
      have "wf s' \<and> (sound s' \<longleftrightarrow> eqn_holds eqn \<and> I (Var v) \<ge> 1)" if "sound s" "wf s"
        using o(3) [OF assms(2) _ that(2,1)] t [OF that] Some vk by (auto simp: eqn_holds_def value_of_def)
      moreover have "dom (map_of (shape_env s')) - dom (map_of (shape_env s)) = {v}" using o(2) f(1) by auto
      ultimately show ?thesis using o(1,2) sv(2) unfolding step_ok_def by auto
    qed
  qed
  then show "step_ok s s' (b \<longrightarrow> eqn_holds eqn)" "\<not> b \<Longrightarrow> s' = s" by auto
qed

lemma step_ok_trans:
  assumes "step_ok s s1 P" "step_ok s1 s2 Q"
  shows "step_ok s s2 (P \<and> Q)"
  using assms unfolding step_ok_def by blast

lemma step_ok_refl: "step_ok s s True"
  by (simp add: step_ok_def)

lemma process_eqns_ok:
  assumes "process_eqns cfg eqns s c = Some (Inr (unsolved, s'), c')" "sym_rules cfg = rules" "\<forall>eqn \<in> set eqns. eqn_ok eqn"
  shows "\<exists>P. step_ok s s' P \<and> ((\<forall>eqn \<in> set eqns. eqn_holds eqn) \<longleftrightarrow> P \<and> (\<forall>eqn \<in> set unsolved. eqn_holds eqn))"
    "set unsolved \<subseteq> set eqns"
proof -
  have "(\<exists>P. step_ok s s' P \<and> ((\<forall>eqn \<in> set eqns. eqn_holds eqn) \<longleftrightarrow> P \<and> (\<forall>eqn \<in> set unsolved. eqn_holds eqn))) \<and>
    set unsolved \<subseteq> set eqns"
    using assms(1,3)
  proof (induction eqns arbitrary: s c unsolved)
    case Nil
    then show ?case using step_ok_refl by (auto simp: slift_Some)
  next
    case (Cons eqn eqns)
    from Cons.prems(1) obtain b s1 c1 us where
      one: "process_one_eqn cfg eqn s c = Some (Inr (b, s1), c1)" and
      more: "process_eqns cfg eqns s1 c1 = Some (Inr (us, s'), c')" "unsolved = (if b then us else eqn # us)"
      by (auto simp: sym_simps)
    have ok: "step_ok s s1 (b \<longrightarrow> eqn_holds eqn)" using process_one_eqn_ok(1) [OF one assms(2)] Cons.prems(2) by simp
    from Cons.IH [OF more(1)] Cons.prems(2) obtain P where
      P: "step_ok s1 s' P" "(\<forall>eqn \<in> set eqns. eqn_holds eqn) \<longleftrightarrow> P \<and> (\<forall>eqn \<in> set us. eqn_holds eqn)" "set us \<subseteq> set eqns"
      by auto
    show ?case using step_ok_trans [OF ok P(1)] P(2,3) more(2) by (cases b) auto
  qed
  then show "\<exists>P. step_ok s s' P \<and> ((\<forall>eqn \<in> set eqns. eqn_holds eqn) \<longleftrightarrow> P \<and> (\<forall>eqn \<in> set unsolved. eqn_holds eqn))"
    "set unsolved \<subseteq> set eqns" by blast+
qed

subsection \<open>Explicit constraints and the loop\<close>

fun diff_ok :: "dim_size \<Rightarrow> bool" where
  "diff_ok (Const k) = True"
| "diff_ok (Sym e) = spec_ok e"

definition explicit_holds :: "(comparator \<times> dim_size) list \<Rightarrow> bool" where
  "explicit_holds cs \<longleftrightarrow> (\<forall>(cmp, d) \<in> set cs. constraint_holds (cmp, d, Const 0))"

lemma add_explicit_constraints_ok:
  assumes "add_explicit_constraints cfg cs s c = Some (Inr s', c')" "sym_rules cfg = rules" "\<forall>(cmp, d) \<in> set cs. diff_ok d"
    and "sound s \<longrightarrow> wf s"
  shows "shape_env s' = shape_env s" "sound s' \<longrightarrow> wf s'" "sound s' \<longleftrightarrow> sound s \<and> explicit_holds cs"
proof -
  have "shape_env s' = shape_env s \<and> (sound s' \<longrightarrow> wf s') \<and> (sound s' \<longleftrightarrow> sound s \<and> explicit_holds cs)"
    using assms(1,3,4)
  proof (induction cs arbitrary: s c)
    case Nil
    then show ?case by (auto simp: slift_Some explicit_holds_def)
  next
    case (Cons p cs)
    obtain cmp d where p: "p = (cmp, d)" by (cases p)
    from Cons.prems(1) p obtain v c1 where
      v: "(case d of Const k \<Rightarrow> sret (Const k) | Sym e \<Rightarrow> sym_expr cfg (sym_lookup cfg (shape_env s) (chain cfg)) e) c = Some (Inr v, c1)"
      and more: "add_explicit_constraints cfg cs (add_constraint cmp v (Const 0) s) c1 = Some (Inr s', c')"
      by (auto simp: sbind_Some)
    have d: "size_ok F v \<and> den I v = den I d" if s: "sound s"
    proof (cases d)
      case (Sym e)
      then have "spec_ok e" "wf s" using Cons.prems(2,3) p s by auto
      then have "returns (sym_expr cfg (sym_lookup cfg (shape_env s) (chain cfg)) e) (eden I e)"
        using returns_spec [OF assms(2) sound_wf_env [OF s]] by blast
      then show ?thesis using v Sym by (auto simp: returns_def)
    qed (use v in \<open>auto simp: slift_Some\<close>)
    have w: "sound (add_constraint cmp v (Const 0) s) \<longrightarrow> wf (add_constraint cmp v (Const 0) s)" using d Cons.prems(3) by auto
    have "constraint_holds (cmp, v, Const 0) \<longleftrightarrow> constraint_holds (cmp, d, Const 0)" if "sound s"
      using d [OF that] by (cases cmp) simp_all
    moreover note Cons.IH [OF more _ w]
    ultimately show ?case using Cons.prems(2) p by (auto simp: explicit_holds_def simp del: constraint_holds.simps)
  qed
  then show "shape_env s' = shape_env s" "sound s' \<longrightarrow> wf s'" "sound s' \<longleftrightarrow> sound s \<and> explicit_holds cs" by blast+
qed

lemma solve_loop_ok:
  assumes "solve_loop cfg n eqns s c = Some (Inr s', c')" "sym_rules cfg = rules" "\<forall>eqn \<in> set eqns. eqn_ok eqn"
    and "\<forall>(cmp, d) \<in> set (explicit_constraints (sym_scope cfg)). diff_ok d"
    and "sound s \<longrightarrow> wf s" "dom (map_of (shape_env s)) = D"
  shows "(sound s' \<longrightarrow> wf s') \<and> D \<subseteq> dom (map_of (shape_env s')) \<and>
    (sound s' \<longleftrightarrow> sound s \<and> (\<forall>eqn \<in> set eqns. eqn_holds eqn) \<and> (\<forall>v \<in> dom (map_of (shape_env s')) - D. I (Var v) \<ge> 1) \<and>
      (shape_env s' \<noteq> [] \<longrightarrow> explicit_holds (explicit_constraints (sym_scope cfg))))"
  using assms(1,3,5,6)
proof (induction n arbitrary: eqns s c D)
  case (Suc n)
  from Suc.prems(1) obtain us s1 c1 where
    pe: "process_eqns cfg eqns s c = Some (Inr (us, s1), c1)" and
    rest: "(if us = [] then add_explicit_symbolic_constraints cfg s1
      else if length us \<ge> length eqns then slift (Inl (ValueError ''cannot solve for dimension variables''))
      else solve_loop cfg n us s1) c1 = Some (Inr s', c')"
    by (auto simp: sbind_Some)
  from process_eqns_ok [OF pe assms(2) Suc.prems(2)] obtain P where P: "step_ok s s1 P"
    "(\<forall>eqn \<in> set eqns. eqn_holds eqn) \<longleftrightarrow> P \<and> (\<forall>eqn \<in> set us. eqn_holds eqn)" "set us \<subseteq> set eqns" by blast
  note st = P(1) [unfolded step_ok_def Suc.prems(4)]
  have w1: "sound s1 \<longrightarrow> wf s1" using st Suc.prems(3) by blast
  show ?case
  proof (cases "us = []")
    case True
    show ?thesis
    proof (cases "shape_env s1 = []")
      case e: True
      then have "s' = s1" using rest True by (simp add: add_explicit_symbolic_constraints_def slift_Some)
      then show ?thesis using st Suc.prems(3) P(2) True e by auto
    next
      case False
      then have "add_explicit_constraints cfg (explicit_constraints (sym_scope cfg)) s1 c1 = Some (Inr s', c')"
        using rest True by (simp add: add_explicit_symbolic_constraints_def)
      from add_explicit_constraints_ok [OF this assms(2,4) w1] show ?thesis
        using st Suc.prems(3) P(2) True False by auto
    qed
  next
    case False
    then have l: "solve_loop cfg n us s1 c1 = Some (Inr s', c')" using rest by (auto simp: slift_Some split: if_splits)
    have "\<forall>eqn \<in> set us. eqn_ok eqn" using P(3) Suc.prems(2) by blast
    from Suc.IH [OF l this w1 refl] show ?thesis using st Suc.prems(3) P(2) by blast
  qed
qed simp

text \<open>The equations hold and the variables are positive if and only if the solution and the
  constraints hold.\<close>

theorem solve_dim_equations_exact:
  assumes "solve_dim_equations cfg eqns c = Some (Inr s, c')" "sym_rules cfg = rules" "\<forall>eqn \<in> set eqns. eqn_ok eqn"
    and "\<forall>(cmp, d) \<in> set (explicit_constraints (sym_scope cfg)). diff_ok d"
  shows "sound s \<longleftrightarrow> (\<forall>eqn \<in> set eqns. eqn_holds eqn) \<and> (\<forall>v \<in> dom (map_of (shape_env s)). I (Var v) \<ge> 1) \<and>
      (shape_env s \<noteq> [] \<longrightarrow> explicit_holds (explicit_constraints (sym_scope cfg)))"
    and "sound s \<Longrightarrow> wf s"
  using solve_loop_ok [OF assms(1) [unfolded solve_dim_equations_def] assms(2-4), of "{}"]
  by (simp_all add: sound_def wf_def)

text \<open>The same with an evaluation \<open>ev\<close> of expressions that agrees with the valuation.\<close>

lemma solved_evaluated:
  assumes ev: "\<And>d x. ev d = Inr x \<Longrightarrow> den I d = x" "\<And>d. size_ok F d \<Longrightarrow> ev d = Inr (den I d)"
    and solve: "solve_dim_equations cfg eqns c = Some (Inr s, c')" "sym_rules cfg = rules" "\<forall>eqn \<in> set eqns. eqn_ok eqn"
      "\<forall>(cmp, d) \<in> set (explicit_constraints (sym_scope cfg)). diff_ok d"
  shows "(\<forall>v d. map_of (shape_env s) v = Some d \<longrightarrow> ev d = Inr (I (Var v))) \<and>
      (\<forall>c \<in> set (shape_constraints s). checked ev c) \<longleftrightarrow>
    (\<forall>eqn \<in> set eqns. eqn_holds eqn) \<and> (\<forall>v \<in> dom (map_of (shape_env s)). I (Var v) \<ge> 1) \<and>
      (shape_env s \<noteq> [] \<longrightarrow> explicit_holds (explicit_constraints (sym_scope cfg)))"
proof -
  note exact = solve_dim_equations_exact [OF solve]
  have c: "constraint_holds (cmp, l, r)" if "checked ev (cmp, l, r)" for cmp l r
    using that ev(1) [of l] ev(1) [of r] by (cases cmp) (auto simp: checked_def)
  have c': "checked ev (cmp, l, r)" if "constraint_holds (cmp, l, r)" "size_ok F l" "size_ok F r" for cmp l r
    using that ev(2) [of l] ev(2) [of r] by (cases cmp) (auto simp: checked_def)
  show ?thesis (is "?solution \<longleftrightarrow> ?equations")
  proof
    assume ?solution
    then have "sound s" unfolding sound_def using c ev(1) by fast
    then show ?equations using exact(1) by blast
  next
    assume ?equations
    then have s: "sound s" "wf s" using exact by blast+
    then show ?solution unfolding sound_def wf_def using c' ev(2) by fastforce
  qed
qed

end

subsection \<open>All variables are solved for\<close>

lemma smap_each: "smap f xs c = Some (Inr ys, c') \<Longrightarrow> x \<in> set xs \<Longrightarrow> \<exists>d y e. f x d = Some (Inr y, e)"
  by (induction xs arbitrary: ys c) (auto simp: sym_simps)

lemma sym_term_each:
  "sym_term cfg lookup t c = Some (Inr d, c') \<Longrightarrow> q \<in> set t \<Longrightarrow> \<exists>c d c'. sym_factor cfg lookup (fst q) c = Some (Inr d, c')"
  using smap_each [of _ t c _ c' q] by (fastforce simp: sym_term_def sym_simps)

lemma sym_expr_each:
  "sym_expr cfg lookup e c = Some (Inr d, c') \<Longrightarrow> p \<in> set e \<Longrightarrow> \<exists>c d c'. sym_term cfg lookup (fst p) c = Some (Inr d, c')"
  using smap_each [of _ e c _ c' p] by (fastforce simp: sym_expr_def sym_simps)

lemma sym_factor_vars:
  assumes "sym_factor cfg lookup f c = Some (Inr d, c')" "v \<in> factor_vars f"
  shows "\<exists>c d c'. lookup v c = Some (Inr d, c')"
  using assms
proof (induction f arbitrary: c d c' rule: measure_induct_rule [where f = size])
  case (less f)
  show ?case
  proof (cases f)
    case (Var w)
    then show ?thesis using less.prems by auto
  next
    case (Oper oper es)
    then obtain e p q where m: "e \<in> set es" "p \<in> set e" "q \<in> set (fst p)" "v \<in> factor_vars (fst q)"
      using less.prems(2) by auto
    obtain vs c1 where "smap (sym_expr cfg lookup) es c = Some (Inr vs, c1)"
      using less.prems(1) unfolding Oper sym_factor.simps
      by (auto simp: sym_simps sym_expr_def [abs_def] sym_term_def [abs_def] sbind_assoc)
    from smap_each [OF this m(1)] obtain c2 d2 c3 where "sym_expr cfg lookup e c2 = Some (Inr d2, c3)" by blast
    from sym_expr_each [OF this m(2)] obtain c4 d4 c5 where "sym_term cfg lookup (fst p) c4 = Some (Inr d4, c5)" by blast
    from sym_term_each [OF this m(3)] obtain c6 d6 c7 where "sym_factor cfg lookup (fst q) c6 = Some (Inr d6, c7)" by blast
    then show ?thesis
      using less.IH [of "fst q"] size_operand [OF m(1), of "fst p" "snd p" "fst q" "snd q"] m Oper by fastforce
  qed
qed

lemma sym_term_known:
  assumes "sym_term cfg (sym_lookup cfg env n) t c = Some (Inr d, c')" "\<forall>v \<in> term_vars t. own_var (sym_rules cfg) v"
  shows "term_vars t \<subseteq> dom (map_of env)"
proof
  fix v assume v: "v \<in> term_vars t"
  then obtain q where q: "q \<in> set t" "v \<in> factor_vars (fst q)" by (auto simp: term_vars_def)
  obtain c1 d1 c2 where "sym_factor cfg (sym_lookup cfg env n) (fst q) c1 = Some (Inr d1, c2)"
    using sym_term_each [OF assms(1) q(1)] by blast
  from sym_factor_vars [OF this q(2)] sym_lookup_own [of cfg v env n] assms(2) v show "v \<in> dom (map_of env)"
    by (auto split: option.splits)
qed

lemma process_terms_vars:
  assumes "process_terms cfg env ts rest var c = Some (Inr (Some (rest', var')), c')"
    and "\<forall>v \<in> expr_vars ts. own_var (sym_rules cfg) v"
  shows "expr_vars ts \<subseteq> dom (map_of env) \<union> fst ` set_option var'" "set_option var \<subseteq> set_option var'"
proof -
  have "expr_vars ts \<subseteq> dom (map_of env) \<union> fst ` set_option var' \<and> set_option var \<subseteq> set_option var'"
    using assms
  proof (induction ts arbitrary: rest var c)
    case (Cons p ts)
    obtain t k where p: "p = (t, k)" by (cases p)
    have own: "\<forall>v \<in> expr_vars ts. own_var (sym_rules cfg) v" "\<forall>v \<in> term_vars t. own_var (sym_rules cfg) v"
      using Cons.prems(2) p by (auto simp: expr_vars_def)
    have vars: "expr_vars (p # ts) = term_vars t \<union> expr_vars ts" using p by (simp add: expr_vars_def)
    from Cons.prems(1) [unfolded p] show ?case
    proof (cases rule: process_terms_Cons)
      case (known tv c1 m n rest1)
      then show ?thesis using Cons.IH [OF known(5) own(1)] sym_term_known [OF known(1) own(2)] vars by auto
    next
      case (new c1 v)
      have "term_vars t = {v}" using term_to_var_Some [OF new(2)] by (simp add: term_vars_def)
      then show ?thesis using Cons.IH [OF new(4) own(1)] vars new(3) by auto
    qed
  qed (auto simp: sym_simps expr_vars_def)
  then show "expr_vars ts \<subseteq> dom (map_of env) \<union> fst ` set_option var'" "set_option var \<subseteq> set_option var'" by auto
qed

lemma solve_var_dom:
  "solve_var cfg rest v k s c = Some (Inr s', c') \<Longrightarrow> dom (map_of (shape_env s')) = insert v (dom (map_of (shape_env s)))"
  by (elim solve_var_cases) (auto simp: add_constraint_def)

lemma process_one_eqn_vars:
  assumes "process_one_eqn cfg eqn s c = Some (Inr (b, s'), c')" "\<forall>v \<in> expr_vars (aval_dim_expr eqn). own_var (sym_rules cfg) v"
  shows "dom (map_of (shape_env s)) \<subseteq> dom (map_of (shape_env s'))"
    "b \<Longrightarrow> expr_vars (aval_dim_expr eqn) \<subseteq> dom (map_of (shape_env s'))"
proof -
  from assms(1) obtain n r c0 c1 where r: "process_terms cfg (shape_env s) (aval_dim_expr eqn) n None c0 = Some (Inr r, c1)" and
    rest: "(case r of
       None \<Rightarrow> sret (False, s)
     | Some (rest, Some (v, var_k)) \<Rightarrow> sbind (solve_var cfg rest v var_k s) (\<lambda>s. sret (True, s))
     | Some (_, None) \<Rightarrow>
         sbind (slift (from_var (sym_rules cfg) (dim_name eqn))) (\<lambda>left.
         sbind (sym_expr cfg (sym_lookup cfg (shape_env s) (chain cfg)) (aval_dim_expr eqn)) (\<lambda>right.
         sret (True, add_constraint CmpEQ left right s)))) c1 = Some (Inr (b, s'), c')"
    unfolding process_one_eqn_def sbind_Some [of "slift _"] sbind_Some [of "process_terms _ _ _ _ _"] slift_Some by blast
  have "dom (map_of (shape_env s)) \<subseteq> dom (map_of (shape_env s')) \<and>
      (b \<longrightarrow> expr_vars (aval_dim_expr eqn) \<subseteq> dom (map_of (shape_env s')))"
  proof (cases r)
    case None
    then show ?thesis using rest by (auto simp: slift_Some)
  next
    case (Some rv)
    obtain d var where rv: "rv = (d, var)" by (cases rv)
    note v = process_terms_vars(1) [OF r [unfolded Some rv] assms(2)]
    show ?thesis
    proof (cases var)
      case None
      then have "shape_env s' = shape_env s" using rest Some rv by (auto simp: sym_simps add_constraint_def)
      then show ?thesis using v None by simp
    next
      case (Some vk)
      then show ?thesis using rest v \<open>r = Some rv\<close> rv by (cases vk) (auto simp: sym_simps dest!: solve_var_dom)
    qed
  qed
  then show "dom (map_of (shape_env s)) \<subseteq> dom (map_of (shape_env s'))"
    "b \<Longrightarrow> expr_vars (aval_dim_expr eqn) \<subseteq> dom (map_of (shape_env s'))" by auto
qed

lemma process_terms_spec_var:
  assumes "process_terms cfg env ts rest var c = Some (Inr (Some (rest', var')), c')"
  shows "fst ` set_option var' \<subseteq> fst ` set_option var \<union> expr_vars ts"
  using assms
proof (induction ts arbitrary: rest var c)
  case (Cons p ts)
  obtain t k where p: "p = (t, k)" by (cases p)
  have vars: "expr_vars (p # ts) = term_vars t \<union> expr_vars ts" using p by (simp add: expr_vars_def)
  from Cons.prems [unfolded p] show ?case
  proof (cases rule: process_terms_Cons)
    case (known tv c1 m n rest1)
    then show ?thesis using Cons.IH [OF known(5)] vars by auto
  next
    case (new c1 v)
    have "term_vars t = {v}" using term_to_var_Some [OF new(2)] by (simp add: term_vars_def)
    then show ?thesis using Cons.IH [OF new(4)] vars by auto
  qed
qed (auto simp: sym_simps)

definition solved_vars :: "solver \<Rightarrow> string set" where
  "solved_vars s = dom (map_of (shape_env s))"

lemma process_one_eqn_spec_vars:
  assumes "process_one_eqn cfg eqn s c = Some (Inr (b, s'), c')"
  shows "solved_vars s' \<subseteq> solved_vars s \<union> expr_vars (aval_dim_expr eqn)"
proof -
  from assms obtain n r c0 c1 where r: "process_terms cfg (shape_env s) (aval_dim_expr eqn) n None c0 = Some (Inr r, c1)" and
    rest: "(case r of
       None \<Rightarrow> sret (False, s)
     | Some (rest, Some (v, var_k)) \<Rightarrow> sbind (solve_var cfg rest v var_k s) (\<lambda>s. sret (True, s))
     | Some (_, None) \<Rightarrow>
         sbind (slift (from_var (sym_rules cfg) (dim_name eqn))) (\<lambda>left.
         sbind (sym_expr cfg (sym_lookup cfg (shape_env s) (chain cfg)) (aval_dim_expr eqn)) (\<lambda>right.
         sret (True, add_constraint CmpEQ left right s)))) c1 = Some (Inr (b, s'), c')"
    unfolding process_one_eqn_def sbind_Some [of "slift _"] sbind_Some [of "process_terms _ _ _ _ _"] slift_Some by blast
  show ?thesis
  proof (cases r)
    case None
    then show ?thesis using rest by (auto simp: slift_Some)
  next
    case (Some rv)
    obtain d var where rv: "rv = (d, var)" by (cases rv)
    note v = process_terms_spec_var [OF r [unfolded Some rv]]
    show ?thesis
    proof (cases var)
      case None
      then have "shape_env s' = shape_env s" using rest Some rv by (auto simp: sym_simps add_constraint_def)
      then show ?thesis by (simp add: solved_vars_def)
    next
      case (Some vk)
      obtain u k where vk: "vk = (u, k)" by (cases vk)
      have "\<exists>c2. solve_var cfg d u k s c1 = Some (Inr s', c2)"
        using rest \<open>r = Some rv\<close> rv Some vk by (auto simp: sym_simps)
      then obtain c2 where "solve_var cfg d u k s c1 = Some (Inr s', c2)" ..
      from solve_var_dom [OF this] have e: "solved_vars s' = insert u (solved_vars s)" unfolding solved_vars_def .
      have "u \<in> expr_vars (aval_dim_expr eqn)" using v Some vk by simp
      then show ?thesis unfolding e by simp
    qed
  qed
qed

lemma process_eqns_spec_vars:
  "process_eqns cfg eqns s c = Some (Inr (us, s'), c') \<Longrightarrow> set us \<subseteq> set eqns \<and>
     solved_vars s' \<subseteq> solved_vars s \<union> (\<Union>eqn \<in> set eqns. expr_vars (aval_dim_expr eqn))"
proof (induction eqns arbitrary: s c us)
  case (Cons eqn eqns)
  from Cons.prems obtain b s1 c1 us1 where
    one: "process_one_eqn cfg eqn s c = Some (Inr (b, s1), c1)" and
    more: "process_eqns cfg eqns s1 c1 = Some (Inr (us1, s'), c')" "us = (if b then us1 else eqn # us1)"
    by (auto simp: sym_simps)
  have "solved_vars s' \<subseteq> solved_vars s \<union> (expr_vars (aval_dim_expr eqn) \<union>
      (\<Union>eqn \<in> set eqns. expr_vars (aval_dim_expr eqn)))"
    using process_one_eqn_spec_vars [OF one] Cons.IH [OF more(1), THEN conjunct2] by blast
  moreover have "set us \<subseteq> set (eqn # eqns)" using Cons.IH [OF more(1), THEN conjunct1] more(2) by auto
  ultimately show ?case by simp
qed (auto simp: slift_Some)

lemma process_eqns_vars:
  assumes "process_eqns cfg eqns s c = Some (Inr (us, s'), c')"
    and "\<forall>eqn \<in> set eqns. \<forall>v \<in> expr_vars (aval_dim_expr eqn). own_var (sym_rules cfg) v"
  shows "dom (map_of (shape_env s)) \<subseteq> dom (map_of (shape_env s')) \<and> set us \<subseteq> set eqns \<and>
    (\<forall>eqn \<in> set eqns - set us. expr_vars (aval_dim_expr eqn) \<subseteq> dom (map_of (shape_env s')))"
  using assms
proof (induction eqns arbitrary: s c us)
  case (Cons eqn eqns)
  from Cons.prems(1) obtain b s1 c1 us1 where
    one: "process_one_eqn cfg eqn s c = Some (Inr (b, s1), c1)" and
    more: "process_eqns cfg eqns s1 c1 = Some (Inr (us1, s'), c')" "us = (if b then us1 else eqn # us1)"
    by (auto simp: sym_simps)
  note o = process_one_eqn_vars [OF one] and m = Cons.IH [OF more(1)]
  have own: "\<forall>v \<in> expr_vars (aval_dim_expr eqn). own_var (sym_rules cfg) v"
    "\<forall>eqn \<in> set eqns. \<forall>v \<in> expr_vars (aval_dim_expr eqn). own_var (sym_rules cfg) v" using Cons.prems(2) by simp_all
  note o = o [OF own(1)] and m = m [OF own(2)]
  have d: "dom (map_of (shape_env s)) \<subseteq> dom (map_of (shape_env s'))" using o(1) m by blast
  show ?case
  proof (cases b)
    case True
    then have "expr_vars (aval_dim_expr eqn) \<subseteq> dom (map_of (shape_env s'))" using o(2) m by blast
    then show ?thesis using d m more(2) True by auto
  next
    case False
    then show ?thesis using d m more(2) by auto
  qed
qed (auto simp: slift_Some)

lemma add_explicit_constraints_env:
  "add_explicit_constraints cfg cs s c = Some (Inr s', c') \<Longrightarrow> shape_env s' = shape_env s"
  by (induction cs arbitrary: s c) (auto simp: sym_simps add_constraint_def split: prod.splits)

lemma solve_loop_vars:
  assumes "solve_loop cfg n eqns s c = Some (Inr s', c')"
    and "\<forall>eqn \<in> set eqns. \<forall>v \<in> expr_vars (aval_dim_expr eqn). own_var (sym_rules cfg) v"
  shows "dom (map_of (shape_env s)) \<subseteq> dom (map_of (shape_env s')) \<and>
    (\<forall>eqn \<in> set eqns. expr_vars (aval_dim_expr eqn) \<subseteq> dom (map_of (shape_env s')))"
  using assms
proof (induction n arbitrary: eqns s c)
  case (Suc n)
  from Suc.prems(1) obtain us s1 c1 where
    pe: "process_eqns cfg eqns s c = Some (Inr (us, s1), c1)" and
    rest: "(if us = [] then add_explicit_symbolic_constraints cfg s1
      else if length us \<ge> length eqns then slift (Inl (ValueError ''cannot solve for dimension variables''))
      else solve_loop cfg n us s1) c1 = Some (Inr s', c')"
    by (auto simp: sbind_Some)
  note p = process_eqns_vars [OF pe Suc.prems(2)]
  show ?case
  proof (cases "us = []")
    case True
    then have "shape_env s' = shape_env s1"
      using rest add_explicit_constraints_env by (auto simp: add_explicit_symbolic_constraints_def slift_Some split: if_splits)
    then show ?thesis using p True by simp
  next
    case False
    then have l: "solve_loop cfg n us s1 c1 = Some (Inr s', c')" using rest by (auto simp: slift_Some split: if_splits)
    have "\<forall>eqn \<in> set us. \<forall>v \<in> expr_vars (aval_dim_expr eqn). own_var (sym_rules cfg) v" using p Suc.prems(2) by blast
    from Suc.IH [OF l this] p show ?thesis by blast
  qed
qed simp

lemma solve_loop_spec_vars:
  "solve_loop cfg n eqns s c = Some (Inr s', c') \<Longrightarrow>
     solved_vars s' \<subseteq> solved_vars s \<union> (\<Union>eqn \<in> set eqns. expr_vars (aval_dim_expr eqn))"
proof (induction n arbitrary: eqns s c)
  case (Suc n)
  from Suc.prems obtain us s1 c1 where
    pe: "process_eqns cfg eqns s c = Some (Inr (us, s1), c1)" and
    rest: "(if us = [] then add_explicit_symbolic_constraints cfg s1
      else if length us \<ge> length eqns then slift (Inl (ValueError ''cannot solve for dimension variables''))
      else solve_loop cfg n us s1) c1 = Some (Inr s', c')"
    by (auto simp: sbind_Some)
  note p = process_eqns_spec_vars [OF pe]
  show ?case
  proof (cases "us = []")
    case True
    then have "shape_env s' = shape_env s1"
      using rest add_explicit_constraints_env by (auto simp: add_explicit_symbolic_constraints_def slift_Some split: if_splits)
    then show ?thesis using p by (simp add: solved_vars_def)
  next
    case False
    then have l: "solve_loop cfg n us s1 c1 = Some (Inr s', c')" using rest by (auto simp: slift_Some split: if_splits)
    have "(\<Union>eqn \<in> set us. expr_vars (aval_dim_expr eqn)) \<subseteq> (\<Union>eqn \<in> set eqns. expr_vars (aval_dim_expr eqn))"
      using p by (intro UN_mono) simp_all
    then show ?thesis using Suc.IH [OF l] p [THEN conjunct2] by (meson Un_least Un_upper2 subset_trans)
  qed
qed simp

text \<open>The rounds of the loop are enough: it runs out of fuel only if a computation inside does.\<close>

theorem solve_loop_returns:
  assumes "\<And>eqns s c. process_eqns cfg eqns s c \<noteq> None" "\<And>s c. add_explicit_symbolic_constraints cfg s c \<noteq> None"
    and "length eqns < n"
  shows "solve_loop cfg n eqns s c \<noteq> None"
  using assms(3)
proof (induction n arbitrary: eqns s c)
  case (Suc n)
  obtain r c1 where r: "process_eqns cfg eqns s c = Some (r, c1)" using assms(1) [of eqns s c] by (cases "process_eqns cfg eqns s c") auto
  show ?case
  proof (cases r)
    case (Inr x)
    obtain us s1 where x: "x = (us, s1)" by (cases x)
    consider "us = []" | "us \<noteq> []" "length us \<ge> length eqns" | "us \<noteq> []" "length us < length eqns" by linarith
    then show ?thesis
    proof cases
      case 3
      then have "length us < n" using Suc.prems by simp
      then have "solve_loop cfg n us s1 c1 \<noteq> None" by (rule Suc.IH)
      then show ?thesis using 3 r Inr x by (simp add: sbind_def)
    qed (use r Inr x assms(2) in \<open>simp_all add: sbind_def slift_def\<close>)
  qed (use r in \<open>simp add: sbind_def\<close>)
qed simp

end
