(* ===== verification/DimSolveProps.thy ===== *)
theory DimSolveProps
  imports DimSolveCorrect DimScope
begin

text \<open>
  The properties of the solver of dimension variables and of calls of exported functions: the
  interpretations of \<open>solving\<close> on the values of expressions in an environment, and their
  consequences for actual shapes.
\<close>

subsection \<open>Environments\<close>






subsection \<open>Specifications\<close>

















subsection \<open>Environments that agree\<close>










subsection \<open>The dimensions of the arguments\<close>




subsection \<open>Calls\<close>























subsection \<open>Whole calls\<close>









subsection \<open>The properties\<close>












end
