(* ===== verification/InterpUtils.thy ===== *)
theory InterpUtils
  imports Prelude
begin

text \<open>
  \<^verbatim>\<open>jax/_src/pallas/mosaic/interpret/utils.py\<close>: the index arithmetic of the TPU interpreter. Ranges
  of a buffer and their composition, the numbering of grid points, and the logical ids of
  devices in a mesh.
\<close>

unbundle bit_operations_syntax

subsection \<open>Ranges\<close>

text \<open>An element of a range is an index or Python's \<^verbatim>\<open>slice(start, stop, step)\<close>.\<close>

datatype srange = Idx int | Slice "int option" "int option" "int option"

abbreviation full_slice :: srange where
  "full_slice \<equiv> Slice None None None"

text \<open>The indices of an \<^verbatim>\<open>NDIndexer\<close>: an integer, or start, size and stride.\<close>

datatype indexer = AtIdx int | AtSlice int int int

fun transform_slice_or_index :: "indexer \<Rightarrow> srange" where
  "transform_slice_or_index (AtIdx i) = Idx i"
| "transform_slice_or_index (AtSlice start sz stride) =
     Slice (Some start) (Some (start + sz * stride)) (Some stride)"

text \<open>Arithmetic on \<^verbatim>\<open>None\<close> raises \<^verbatim>\<open>TypeError\<close>.\<close>

definition the_int :: "int option \<Rightarrow> int res" where
  "the_int x = (case x of None \<Rightarrow> Inl (TypeError ''NoneType'') | Some i \<Rightarrow> Inr i)"

fun compose_slice_or_index :: "srange list \<Rightarrow> srange list \<Rightarrow> srange list res" where
  "compose_slice_or_index [] ys = Inr ys"
| "compose_slice_or_index (x # xs) [] = Inr (x # xs)"
| "compose_slice_or_index (Idx a # xs) (y # ys) =
     rbind (compose_slice_or_index xs (y # ys)) (\<lambda>r. Inr (Idx a # r))"
| "compose_slice_or_index (Slice start stop step # xs) (Idx j # ys) =
     rbind (the_int start) (\<lambda>b. rbind (the_int step) (\<lambda>s.
     rbind (compose_slice_or_index xs ys) (\<lambda>r. Inr (Idx (b + j * s) # r))))"
| "compose_slice_or_index (Slice start stop step # xs) (Slice start2 stop2 step2 # ys) =
     rbind (the_int start) (\<lambda>b. rbind (the_int step) (\<lambda>s.
     rbind (the_int start2) (\<lambda>b2. rbind (the_int stop2) (\<lambda>e2. rbind (the_int step2) (\<lambda>s2.
     rbind (compose_slice_or_index xs ys) (\<lambda>r.
     Inr (Slice (Some (b + b2 * s)) (Some (b + e2 * s)) (Some (s * s2)) # r)))))))"

definition to_range :: "indexer list list \<Rightarrow> srange list res" where
  "to_range transforms =
     rfold (\<lambda>transform r. compose_slice_or_index r (map transform_slice_or_index transform)) transforms []"

text \<open>
  What a range means: \<open>locate r idx\<close> is the position in the buffer of the element at \<open>idx\<close> of the
  part that \<open>r\<close> selects, when \<open>idx\<close> is inside that part. Trailing dimensions are selected whole.
\<close>

fun locate :: "srange list \<Rightarrow> int list \<Rightarrow> int list option" where
  "locate [] idx = Some idx"
| "locate (Idx a # rs) idx = map_option ((#) a) (locate rs idx)"
| "locate (Slice (Some b) (Some e) (Some s) # rs) (i # idx) =
     (if 0 \<le> i \<and> b + i * s < e then map_option ((#) (b + i * s)) (locate rs idx) else None)"
| "locate (Slice _ _ _ # rs) _ = None"

lemma the_int_Some [simp]: "the_int (Some i) = Inr i"
  by (simp add: the_int_def)

lemma the_int_Inr [res_simps]: "the_int x = Inr i \<longleftrightarrow> x = Some i"
  by (auto simp: the_int_def split: option.splits)

text \<open>
  \<open>view shape t\<close>: the shape of the part that indices \<open>t\<close> select of an array of shape \<open>shape\<close>, when
  they are inside it. Dimensions without an index are selected whole.
\<close>

fun view :: "int list \<Rightarrow> indexer list \<Rightarrow> int list option" where
  "view ns [] = Some ns"
| "view [] (i # t) = None"
| "view (n # ns) (AtIdx i # t) = (if 0 \<le> i \<and> i < n then view ns t else None)"
| "view (n # ns) (AtSlice start sz stride # t) =
     (if 0 \<le> start \<and> 0 \<le> sz \<and> 0 < stride \<and> (0 < sz \<longrightarrow> start + (sz - 1) * stride < n)
      then map_option ((#) sz) (view ns t) else None)"

text \<open>A range that selects a part of shape \<open>shape\<close>: each slice has as many elements as the dimension.\<close>

fun spans :: "srange list \<Rightarrow> int list \<Rightarrow> bool" where
  "spans [] ns = True"
| "spans (Idx a # rs) ns = spans rs ns"
| "spans (Slice (Some b) (Some e) (Some s) # rs) (n # ns) =
     (0 < s \<and> (\<forall>i \<ge> 0. b + i * s < e \<longleftrightarrow> i < n) \<and> spans rs ns)"
| "spans (Slice _ _ _ # rs) _ = False"

lemma spans_slice:
  "spans (Slice b e s # rs) ns \<longleftrightarrow> (\<exists>b' e' s' n ns'. b = Some b' \<and> e = Some e' \<and> s = Some s' \<and> ns = n # ns' \<and>
     0 < s' \<and> (\<forall>i \<ge> 0. b' + i * s' < e' \<longleftrightarrow> i < n) \<and> spans rs ns')"
  by (cases b; cases e; cases s; cases ns) auto

lemma locate_Idx: "locate (Idx a # rs) = (\<lambda>idx. map_option ((#) a) (locate rs idx))"
  by (simp add: fun_eq_iff)

lemma locate_cons:
  "locate (Slice (Some b) (Some e) (Some s) # rs) idx =
     (case idx of [] \<Rightarrow> None
      | i # idx \<Rightarrow> if 0 \<le> i \<and> b + i * s < e then map_option ((#) (b + i * s)) (locate rs idx) else None)"
  by (cases idx) simp_all

lemma bind_map_option: "Option.bind (map_option f x) g = Option.bind x (\<lambda>y. g (f y))"
  by (cases x) simp_all

lemma map_option_bind: "map_option f (Option.bind x g) = Option.bind x (\<lambda>y. map_option f (g y))"
  by (cases x) simp_all

lemma slice_in_view:
  fixes s :: int
  assumes "0 < s" "0 < sz \<longrightarrow> b + (sz - 1) * s < n" "0 \<le> i" "i < sz"
  shows "b + i * s < n"
proof -
  have "i * s \<le> (sz - 1) * s" using assms by (intro mult_right_mono) auto
  then show ?thesis using assms by linarith
qed

lemma spans_view: "view ns t = Some ns' \<Longrightarrow> spans (map transform_slice_or_index t) ns'"
  by (induction ns t arbitrary: ns' rule: view.induct) (auto simp: mult_less_0_iff split: if_splits)

text \<open>Indexing with the composition is indexing twice.\<close>

lemma compose_locate:
  assumes "compose_slice_or_index r (map transform_slice_or_index t) = Inr r'" "spans r ns" "view ns t = Some ns'"
  shows "spans r' ns' \<and> (\<forall>idx. locate r' idx = Option.bind (locate (map transform_slice_or_index t) idx) (locate r))"
  using assms
proof (induction r "map transform_slice_or_index t" arbitrary: r' t ns ns' rule: compose_slice_or_index.induct)
  case 1
  moreover have "locate [] = Some" by (simp add: fun_eq_iff)
  ultimately show ?case using spans_view [of ns t ns'] by (cases "map transform_slice_or_index t") auto
next
  case (2 x xs)
  then show ?case by simp
next
  case (3 a xs y ys)
  then obtain r1 where r1: "compose_slice_or_index xs (y # ys) = Inr r1" "r' = Idx a # r1" by (auto simp: res_simps)
  have "spans r1 ns'" "locate r1 idx = Option.bind (locate (y # ys) idx) (locate xs)" for idx
    using "3.hyps"(1) [OF "3.hyps"(2), of r1 ns ns'] r1(1) "3.prems"(2,3) "3.hyps"(2) by simp_all
  then show ?case by (simp add: r1(2) locate_Idx map_option_bind flip: "3.hyps"(2))
next
  case (4 start stop step xs j ys)
  from "4.hyps"(2) obtain t' where t: "t = AtIdx j # t'" "ys = map transform_slice_or_index t'"
    by (cases t; cases "hd t") auto
  from "4.prems"(2) obtain b e s n ns1 where sl: "start = Some b" "stop = Some e" "step = Some s" "ns = n # ns1"
    "0 < s" "\<forall>i \<ge> 0. b + i * s < e \<longleftrightarrow> i < n" "spans xs ns1" by (auto simp: spans_slice)
  from "4.prems"(1) obtain r1 where r1: "compose_slice_or_index xs ys = Inr r1" "r' = Idx (b + j * s) # r1"
    using t sl by (auto simp: res_simps)
  from "4.prems"(3) have v: "0 \<le> j" "j < n" "view ns1 t' = Some ns'" using t sl by (auto split: if_splits)
  have IH: "spans r1 ns'" "locate r1 idx = Option.bind (locate ys idx) (locate xs)" for idx
    using "4.hyps"(1) [of b s t' r1 ns1 ns'] sl v(3) r1(1) t(2) by auto
  show ?case using IH v sl(1-3,6) t by (simp add: r1(2) bind_map_option map_option_bind)
next
  case (5 start stop step xs start2 stop2 step2 ys)
  from "5.hyps"(2) obtain b2 sz s2 t' where t: "t = AtSlice b2 sz s2 # t'" "ys = map transform_slice_or_index t'"
    "start2 = Some b2" "stop2 = Some (b2 + sz * s2)" "step2 = Some s2"
    by (cases t; cases "hd t") auto
  from "5.prems"(2) obtain b e s n ns1 where sl: "start = Some b" "stop = Some e" "step = Some s" "ns = n # ns1"
    "0 < s" "\<forall>i \<ge> 0. b + i * s < e \<longleftrightarrow> i < n" "spans xs ns1" by (auto simp: spans_slice)
  from "5.prems"(1) obtain r1 where r1: "compose_slice_or_index xs ys = Inr r1"
    "r' = Slice (Some (b + b2 * s)) (Some (b + (b2 + sz * s2) * s)) (Some (s * s2)) # r1"
    using t sl by (auto simp: res_simps)
  from "5.prems"(3) obtain ns2 where v: "0 \<le> b2" "0 < s2" "0 < sz \<longrightarrow> b2 + (sz - 1) * s2 < n" "view ns1 t' = Some ns2" "ns' = sz # ns2"
    using t sl by (auto split: if_splits)
  have IH: "spans r1 ns2" "locate r1 idx = Option.bind (locate ys idx) (locate xs)" for idx
    using "5.hyps"(1) [of b s b2 "b2 + sz * s2" s2 t' r1 ns1 ns2] sl v(4) r1(1) t by auto
  have stop: "b + b2 * s + i * (s * s2) < b + (b2 + sz * s2) * s \<longleftrightarrow> i < sz" for i
  proof -
    have "b + b2 * s + i * (s * s2) < b + (b2 + sz * s2) * s \<longleftrightarrow> i * (s * s2) < sz * (s * s2)" by (simp add: algebra_simps)
    then show ?thesis using sl(5) v(2) by simp
  qed
  have inside: "0 \<le> b2 + i * s2" "b + (b2 + i * s2) * s < e" if "0 \<le> i" "i < sz" for i
    using slice_in_view [OF v(2,3) that] v(1,2) that(1) sl(6) by simp_all
  have inner: "b2 + i * s2 < b2 + sz * s2 \<longleftrightarrow> i < sz" for i using v(2) by simp
  have "locate r' idx = Option.bind (locate (map transform_slice_or_index t) idx) (locate (Slice start stop step # xs))" for idx
  proof (cases idx)
    case (Cons i idx')
    show ?thesis
    proof (cases "0 \<le> i \<and> i < sz")
      case True
      have pos: "b + b2 * s + i * (s * s2) = b + (b2 + i * s2) * s" by (simp add: algebra_simps)
      have "i * s2 < sz * s2" "(b2 + i * s2) * s < (b2 + sz * s2) * s" using True v(2) sl(5) by simp_all
      with True show ?thesis
        using IH(2) [of idx'] inside [of i]
        by (simp del: mult_less_cancel_right_disj add.assoc add: pos t(1) sl(1-3) Cons r1(2) stop inner bind_map_option map_option_bind locate_cons flip: t(2))
    qed (use v(2) in \<open>auto simp: t(1) Cons r1(2) stop inner\<close>)
  qed (simp add: r1(2) t(1))
  moreover have "spans r' ns'" using IH(1) stop sl(5) v(2) by (simp add: r1(2) v(5))
  ultimately show ?case by blast
qed

subsection \<open>Grid points\<close>

fun indices_of :: "int list \<Rightarrow> int \<Rightarrow> int list" where
  "indices_of [] k = []"
| "indices_of (d # ds) k = (k mod d) # indices_of ds (k div d)"

text \<open>\<^verbatim>\<open>get_indices\<close>: the last dimension runs fastest. Grid dimensions are positive.\<close>

definition get_indices :: "int list \<Rightarrow> int \<Rightarrow> int list" where
  "get_indices grid k = rev (indices_of (rev grid) k)"

fun next_of :: "bool \<Rightarrow> (int \<times> int) list \<Rightarrow> int list" where
  "next_of carry [] = []"
| "next_of carry ((d, x) # ps) =
     (let i = (if carry then x + 1 else x); carry = (d = i) in (if carry then 0 else i) # next_of carry ps)"

definition get_next_indices :: "int list \<Rightarrow> int list \<Rightarrow> int list" where
  "get_next_indices grid indices = rev (next_of True (rev (zip grid indices)))"

lemma length_indices_of [simp]: "length (indices_of ds k) = length ds"
  by (induction ds k rule: indices_of.induct) simp_all

lemma next_of_False: "\<forall>d \<in> set ds. d > 0 \<Longrightarrow> next_of False (zip ds (indices_of ds k)) = indices_of ds k"
proof (induction ds k rule: indices_of.induct)
  case (2 d ds k)
  then have "k mod d < d" by simp
  then have "d \<noteq> k mod d" by linarith
  with 2 show ?case by (simp add: Let_def)
qed simp

lemma next_of_indices:
  assumes "\<forall>d \<in> set ds. d > 0"
  shows "next_of True (zip ds (indices_of ds k)) = indices_of ds (k + 1)"
  using assms
proof (induction ds arbitrary: k)
  case (Cons d ds)
  have d: "d > 0" using Cons.prems by simp
  show ?case
  proof (cases "d = k mod d + 1")
    case True
    have "(k div d + 1) * d = k div d * d + d" by (simp add: algebra_simps)
    then have "k + 1 = (k div d + 1) * d" using True div_mult_mod_eq [of k d] by linarith
    then have "(k + 1) mod d = 0" "(k + 1) div d = k div d + 1" using d by simp_all
    then show ?thesis using Cons True by (simp add: Let_def)
  next
    case False
    have "0 \<le> k mod d + 1" "k mod d + 1 < d" using False d pos_mod_bound [of d k] pos_mod_sign [of d k] by linarith+
    moreover have "k + 1 = d * (k div d) + (k mod d + 1)" by simp
    ultimately have "(k + 1) div d = k div d" "(k + 1) mod d = k mod d + 1"
      by (metis int_div_pos_eq) (metis \<open>0 \<le> k mod d + 1\<close> \<open>k mod d + 1 < d\<close> \<open>k + 1 = d * (k div d) + (k mod d + 1)\<close> int_mod_pos_eq)
    then show ?thesis using next_of_False [of ds "k div d"] Cons.prems False by (simp add: Let_def)
  qed
qed simp

lemma next_indices_step:
  assumes "\<forall>d \<in> set grid. d > 0"
  shows "get_next_indices grid (get_indices grid k) = get_indices grid (k + 1)"
  using next_of_indices [of "rev grid" k] assms zip_rev [of grid "rev (indices_of (rev grid) k)"]
  by (simp add: get_next_indices_def get_indices_def)

subsection \<open>Logical device ids\<close>

fun bit_length :: "nat \<Rightarrow> nat" where
  "bit_length n = (if n = 0 then 0 else Suc (bit_length (n div 2)))"

declare bit_length.simps [simp del]

text \<open>
  The index of a device along one mesh axis: \<open>inner\<close> is the number of devices in the axes behind it.
  Sizes that are powers of two are handled with shifts and masks; a negative shift count raises
  \<open>ValueError\<close>.
\<close>

definition mesh_axis_index :: "int \<Rightarrow> int \<Rightarrow> int \<Rightarrow> int res" where
  "mesh_axis_index inner axis_size idx =
     rbind (if inner AND (inner - 1) = 0
            then let shift_len = int (bit_length (nat (inner AND - inner))) - 1 in
                 if shift_len < 0 then Inl (ValueError ''negative shift count'') else Inr (drop_bit (nat shift_len) idx)
            else Inr (idx div inner)) (\<lambda>partial_device_idx.
     Inr (if axis_size AND (axis_size - 1) = 0 then partial_device_idx AND (axis_size - 1)
          else partial_device_idx mod axis_size))"

datatype mesh_axis = AxisName string | AxisTuple "string list"

definition lookup_key :: "('k \<times> 'v) list \<Rightarrow> 'k \<Rightarrow> 'v res" where
  "lookup_key d k = (case map_of d k of None \<Rightarrow> Inl KeyError | Some v \<Rightarrow> Inr v)"

fun split_axes :: "(string \<times> int) list \<Rightarrow> int \<Rightarrow> (mesh_axis \<times> int) list \<Rightarrow> (mesh_axis \<times> int) list res" where
  "split_axes [] idx physical = Inr physical"
| "split_axes ((name, sz) # dims) idx physical =
     rbind (mesh_axis_index (prod_list (map snd dims)) sz idx) (\<lambda>device_idx.
     split_axes dims idx (dict_set physical (AxisName name) device_idx))"

text \<open>\<^verbatim>\<open>_device_id_dict_to_mesh\<close>\<close>

definition physical_axes :: "(string \<times> int) list \<Rightarrow> mesh_axis \<times> int \<Rightarrow> (mesh_axis \<times> int) list \<Rightarrow> (mesh_axis \<times> int) list res" where
  "physical_axes axis_sizes = (\<lambda>(axis, idx) physical.
     case axis of
       AxisTuple names \<Rightarrow>
         if \<exists>a \<in> set names. a \<in> fst ` set axis_sizes
         then
           if \<not> (\<forall>a \<in> set names. a \<in> fst ` set axis_sizes) then Inl NotImplementedError
           else
             rbind (rmap (\<lambda>name. rbind (lookup_key axis_sizes name) (\<lambda>sz. Inr (name, sz))) names) (\<lambda>dims.
             split_axes dims idx physical)
         else Inr (dict_set physical axis idx)
     | AxisName _ \<Rightarrow> Inr (dict_set physical axis idx))"

definition device_id_dict_to_mesh ::
  "(mesh_axis \<times> int) list \<Rightarrow> (string \<times> int) list \<Rightarrow> (string \<times> int) list \<Rightarrow> (int list \<times> (mesh_axis \<times> int) list) res" where
  "device_id_dict_to_mesh device_id_dict axis_sizes axis_indices =
     rbind (rfold (physical_axes axis_sizes) device_id_dict []) (\<lambda>physical.
     rbind (rmap (\<lambda>axis. case map_of physical (AxisName axis) of
                            Some i \<Rightarrow> Inr i
                          | None \<Rightarrow> lookup_key axis_indices axis) (map fst axis_sizes)) (\<lambda>device_id.
     Inr (device_id, filter (\<lambda>(k, v). k \<notin> AxisName ` fst ` set axis_sizes) physical)))"

datatype device_coords = CoordDict "(mesh_axis \<times> int) list" | CoordTuple "int list" | CoordInt int

fun flat_id :: "int list \<Rightarrow> int list \<Rightarrow> int" where
  "flat_id (c # cs) (d # ds) = c * prod_list ds + flat_id cs ds"
| "flat_id _ _ = 0"

definition device_coords_to_logical_id ::
  "device_coords \<Rightarrow> (string \<times> int) list \<Rightarrow> (string \<times> int) list \<Rightarrow> int res" where
  "device_coords_to_logical_id device_coords axis_sizes axis_indices =
     rbind (case device_coords of
              CoordDict d \<Rightarrow>
                rbind (device_id_dict_to_mesh d axis_sizes axis_indices) (\<lambda>(coords, non_mesh_axes).
                if non_mesh_axes \<noteq> [] then Inl NotImplementedError else Inr coords)
            | CoordTuple coords \<Rightarrow> Inr coords
            | CoordInt i \<Rightarrow> Inr [i]) (\<lambda>coords.
     rbind (rassert (length coords = length axis_sizes)) (\<lambda>_.
     Inr (flat_id coords (map snd axis_sizes))))"

lemma power_of_two:
  fixes n :: int
  assumes "n > 0" "n AND (n - 1) = 0"
  shows "\<exists>k. n = 2 ^ k"
  using assms
proof (induction "nat n" arbitrary: n rule: less_induct)
  case less
  show ?case
  proof (cases "even n")
    case True
    then obtain m where m: "n = 2 * m" by blast
    have "(n - 1) div 2 = m - 1" using m by presburger
    then have "n AND (n - 1) = 2 * (m AND (m - 1))"
      using and_rec [of n "n - 1"] m by simp
    then have "m AND (m - 1) = 0" using less.prems by simp
    moreover have "m > 0" "nat m < nat n" using less.prems m by simp_all
    ultimately obtain k where "m = 2 ^ k" using less.hyps by blast
    then show ?thesis using m by (intro exI [of _ "Suc k"]) simp
  next
    case False
    then obtain m where m: "n = 2 * m + 1" by (auto elim: oddE)
    have "n AND (n - 1) = 2 * m" using and_rec [of n "n - 1"] m by simp
    then have "n = 2 ^ 0" using less.prems m by simp
    then show ?thesis by blast
  qed
qed

lemma bit_length_power: "bit_length (2 ^ k) = Suc k"
proof (induction k)
  case 0
  then show ?case by (simp add: bit_length.simps)
next
  case (Suc k)
  then show ?case by (subst bit_length.simps) simp
qed

lemma mesh_axis_index_div_mod:
  assumes "inner > 0" "axis_size > 0"
  shows "mesh_axis_index inner axis_size idx = Inr (idx div inner mod axis_size)"
proof -
  have low: "(2 :: int) ^ k AND - (2 ^ k) = 2 ^ k" for k
    by (rule bit_eqI) (auto simp: bit_simps minus_exp_eq_not_mask)
  have shift: "drop_bit (nat (int (bit_length (nat (inner AND - inner))) - 1)) idx = idx div inner \<and>
      bit_length (nat (inner AND - inner)) \<ge> 1" if z: "inner AND (inner - 1) = 0"
  proof -
    obtain k where k: "inner = 2 ^ k" using power_of_two [OF assms(1) z] by blast
    have "bit_length (nat (inner AND - inner)) = Suc k" unfolding k low by (simp add: bit_length_power nat_power_eq)
    then show ?thesis unfolding k by (simp add: drop_bit_eq_div)
  qed
  have mask: "x AND (axis_size - 1) = x mod axis_size" if z: "axis_size AND (axis_size - 1) = 0" for x
  proof -
    obtain k where "axis_size = 2 ^ k" using power_of_two [OF assms(2) z] by blast
    then show ?thesis by (simp add: take_bit_eq_mask [symmetric] take_bit_eq_mod mask_eq_exp_minus_1 [symmetric])
  qed
  show ?thesis using shift mask by (auto simp: mesh_axis_index_def Let_def)
qed

lemma prod_list_pos: "\<forall>d \<in> set ds. (0 :: int) < d \<Longrightarrow> prod_list ds > 0"
  by (induction ds) simp_all

lemma indices_of_append:
  "\<forall>d \<in> set xs. d > 0 \<Longrightarrow> indices_of (xs @ ys) k = indices_of xs k @ indices_of ys (k div prod_list xs)"
proof (induction xs arbitrary: k)
  case (Cons d xs)
  then have "prod_list xs > 0" by (simp add: prod_list_pos)
  then show ?case using Cons zdiv_zmult2_eq [of "prod_list xs" k d] by simp
qed simp

lemma get_indices_Cons:
  "\<forall>d \<in> set ds. d > 0 \<Longrightarrow> get_indices (d # ds) k = (k div prod_list ds mod d) # get_indices ds k"
  by (simp add: get_indices_def indices_of_append)

lemma flat_id_get_indices: "\<forall>d \<in> set ds. d > 0 \<Longrightarrow> flat_id (get_indices ds k) ds = k mod prod_list ds"
proof (induction ds)
  case (Cons d ds)
  then have "d > 0" by simp
  then show ?case using Cons zmod_zmult2_eq [of d k "prod_list ds"]
    by (simp add: get_indices_Cons mult.commute)
qed (simp add: get_indices_def)

text \<open>Splitting an index along all axes numbers the grid points.\<close>

lemma split_axes_indices:
  assumes "\<forall>(a, n) \<in> set dims. n > 0" "distinct (map fst dims)"
  shows "\<exists>physical'. split_axes dims idx physical = Inr physical' \<and>
    map_of physical' = map_of physical ++ map_of (zip (map (\<lambda>p. AxisName (fst p)) dims) (get_indices (map snd dims) idx)) \<and>
    fst ` set physical' = AxisName ` fst ` set dims \<union> fst ` set physical"
  using assms
proof (induction dims arbitrary: physical)
  case (Cons p dims)
  obtain a n where p: "p = (a, n)" by (cases p)
  let ?ds = "map snd dims"
  let ?v = "idx div prod_list ?ds mod n"
  have pos: "\<forall>d \<in> set ?ds. d > 0" using Cons.prems(1) by auto
  then have i: "mesh_axis_index (prod_list ?ds) n idx = Inr ?v"
    using Cons.prems(1) p by (intro mesh_axis_index_div_mod) (auto simp: prod_list_pos)
  let ?ph = "dict_set physical (AxisName a) ?v"
  let ?m = "map_of (zip (map (\<lambda>p. AxisName (fst p)) dims) (get_indices ?ds idx))"
  have prems: "\<forall>(a, n) \<in> set dims. n > 0" "distinct (map fst dims)" using Cons.prems by auto
  from Cons.IH [OF prems, of ?ph] obtain ph' where ph':
    "split_axes dims idx ?ph = Inr ph'" "map_of ph' = map_of ?ph ++ ?m"
    "fst ` set ph' = AxisName ` fst ` set dims \<union> fst ` set ?ph" by blast
  have "AxisName a \<notin> dom ?m" using Cons.prems(2) p by (auto dest!: map_of_SomeD set_zip_leftD)
  then have "map_of ph' = (map_of physical ++ ?m)(AxisName a \<mapsto> ?v)"
    by (simp add: ph'(2) map_of_dict_set map_add_upd_left)
  then have "map_of ph' = map_of physical ++
      map_of (zip (map (\<lambda>p. AxisName (fst p)) (p # dims)) (get_indices (map snd (p # dims)) idx))"
    using p get_indices_Cons [OF pos] by simp
  then show ?case using p i ph'(1,3) by (auto simp: keys_dict_set [unfolded set_map])
qed simp

lemma map_of_zip_rmap:
  "distinct xs \<Longrightarrow> length xs = length ys \<Longrightarrow> map (\<lambda>x. map_of (zip xs ys) x) xs = map Some ys"
  by (induction xs ys rule: list_induct2') (auto simp: map_idI)

lemma mesh_roundtrip:
  assumes "\<forall>(a, n) \<in> set axis_sizes. n > 0" "distinct (map fst axis_sizes)" "axis_sizes \<noteq> []"
    and "0 \<le> idx" "idx < prod_list (map snd axis_sizes)"
  shows "device_id_dict_to_mesh [(AxisTuple (map fst axis_sizes), idx)] axis_sizes axis_indices
      = Inr (get_indices (map snd axis_sizes) idx, [])"
    "device_coords_to_logical_id (CoordDict [(AxisTuple (map fst axis_sizes), idx)]) axis_sizes axis_indices = Inr idx"
proof -
  let ?names = "map fst axis_sizes" and ?ds = "map snd axis_sizes"
  let ?coords = "get_indices ?ds idx"
  have len: "length ?coords = length ?ds" by (simp add: get_indices_def)
  have sizes: "rmap (\<lambda>name. rbind (lookup_key axis_sizes name) (\<lambda>sz. Inr (name, sz))) ?names = Inr axis_sizes"
  proof (unfold rmap_Inr_iff, intro conjI allI impI)
    fix i assume "i < length ?names"
    then have "map_of axis_sizes (fst (axis_sizes ! i)) = Some (snd (axis_sizes ! i))"
      using assms(2) by (intro map_of_is_SomeI) auto
    then show "rbind (lookup_key axis_sizes (?names ! i)) (\<lambda>sz. Inr (?names ! i, sz)) = Inr (axis_sizes ! i)"
      using \<open>i < length ?names\<close> by (simp add: lookup_key_def)
  qed simp
  from split_axes_indices [OF assms(1,2), of idx "[]"] obtain ph where ph:
    "split_axes axis_sizes idx [] = Inr ph"
    "map_of ph = map_of (zip (map (\<lambda>p. AxisName (fst p)) axis_sizes) ?coords)"
    "fst ` set ph = AxisName ` fst ` set axis_sizes" by auto
  have phys: "rfold (physical_axes axis_sizes) [(AxisTuple ?names, idx)] [] = Inr ph"
  proof -
    have "\<exists>a \<in> set ?names. a \<in> fst ` set axis_sizes" using assms(3) by (cases axis_sizes) auto
    moreover have "\<forall>a \<in> set ?names. a \<in> fst ` set axis_sizes" by simp
    ultimately have "physical_axes axis_sizes (AxisTuple ?names, idx) [] = Inr ph"
      unfolding physical_axes_def prod.case mesh_axis.case sizes rbind_Inr ph(1) by presburger
    then show ?thesis by simp
  qed
  have "distinct (map (\<lambda>p. AxisName (fst p)) axis_sizes)" using assms(2) by (simp add: distinct_map inj_on_def)
  from map_of_zip_rmap [OF this, of ?coords] len
  have "map (\<lambda>a. map_of ph (AxisName a)) ?names = map Some ?coords" by (simp add: ph(2) comp_def)
  then have "rmap (\<lambda>axis. case map_of ph (AxisName axis) of Some i \<Rightarrow> Inr i | None \<Rightarrow> lookup_key axis_indices axis) ?names = Inr ?coords"
  proof (unfold rmap_Inr_iff, intro conjI allI impI)
    fix i assume i: "i < length ?names"
    from \<open>map (\<lambda>a. map_of ph (AxisName a)) ?names = map Some ?coords\<close>
    have "map (\<lambda>a. map_of ph (AxisName a)) ?names ! i = map Some ?coords ! i" by (rule arg_cong)
    then have "map_of ph (AxisName (?names ! i)) = Some (?coords ! i)" using i len by simp
    then show "(case map_of ph (AxisName (?names ! i)) of Some i \<Rightarrow> Inr i | None \<Rightarrow> lookup_key axis_indices (?names ! i))
        = Inr (?coords ! i)" by simp
  qed (use len in simp)
  moreover have "filter (\<lambda>(k, v). k \<notin> AxisName ` fst ` set axis_sizes) ph = []"
  proof -
    have "fst p \<in> AxisName ` fst ` set axis_sizes" if "p \<in> set ph" for p using that imageI [of p "set ph" fst] ph(3) by simp
    then show ?thesis unfolding filter_empty_conv split_def by blast
  qed
  ultimately show m: "device_id_dict_to_mesh [(AxisTuple ?names, idx)] axis_sizes axis_indices = Inr (?coords, [])"
    by (simp only: device_id_dict_to_mesh_def phys rbind_Inr)
  have "\<forall>d \<in> set ?ds. d > 0" using assms(1) by auto
  then have "flat_id ?coords ?ds = idx" using flat_id_get_indices assms(4,5) by simp
  then show "device_coords_to_logical_id (CoordDict [(AxisTuple ?names, idx)]) axis_sizes axis_indices = Inr idx"
    using m len by (simp add: device_coords_to_logical_id_def)
qed

end
