(* ===== verification/RaceState.thy ===== *)
theory RaceState
  imports InterpUtils "HOL-Library.Multiset"
begin

text \<open>
  Vector clocks and the record of memory accesses of the TPU interpreter:
  \<^verbatim>\<open>vector_clock.py\<close> and \<^verbatim>\<open>race_detection_state.py\<close> in \<^verbatim>\<open>jax/_src/pallas/mosaic/interpret\<close>.
\<close>

subsection \<open>Vector clocks\<close>

text \<open>
  A clock is an array of \<^verbatim>\<open>np.int32\<close>, whose additions wrap around. All clocks of a memory have the
  same length (an invariant of \<open>SharedMem\<close>).
\<close>

type_synonym vector_clock = "int list"

definition int32 :: "int \<Rightarrow> int" where
  "int32 x = (x + 2 ^ 31) mod 2 ^ 32 - 2 ^ 31"

definition make_vector_clock :: "nat \<Rightarrow> vector_clock" where
  "make_vector_clock n = replicate n 0"

definition update_vector_clock :: "vector_clock \<Rightarrow> vector_clock \<Rightarrow> vector_clock" where
  "update_vector_clock x y = map2 max x y"

definition clock_lt :: "vector_clock \<Rightarrow> vector_clock \<Rightarrow> bool" where
  "clock_lt x y \<longleftrightarrow> (\<forall>(a, b) \<in> set (zip x y). a \<le> b) \<and> (\<exists>(a, b) \<in> set (zip x y). a < b)"

definition clock_ordered :: "vector_clock \<Rightarrow> vector_clock \<Rightarrow> bool" where
  "clock_ordered x y \<longleftrightarrow> clock_lt x y \<or> clock_lt y x"

definition inc_vector_clock :: "vector_clock \<Rightarrow> nat \<Rightarrow> vector_clock res" where
  "inc_vector_clock x i =
     (if i \<ge> length x then Inl (ValueError ''device_id out of range'') else Inr (x[i := int32 (x ! i + 1)]))"

lemma clock_ordered_commute: "clock_ordered x y = clock_ordered y x"
  by (auto simp: clock_ordered_def)

lemma int32_small: "- (2 ^ 31) \<le> x \<Longrightarrow> x < 2 ^ 31 \<Longrightarrow> int32 x = x"
  by (simp add: int32_def)

subsection \<open>Overlap of ranges\<close>

text \<open>\<^verbatim>\<open>_is_empty_slice\<close>: despite its name it is true of the slices that are not empty.\<close>

fun is_empty_slice :: "srange \<Rightarrow> bool res" where
  "is_empty_slice (Idx i) = Inr False"
| "is_empty_slice (Slice start stop step) =
     (if Slice start stop step = full_slice then Inr False
      else
        let start = (case start of None \<Rightarrow> 0 | Some b \<Rightarrow> b) in
        rbind (the_int stop) (\<lambda>stop. Inr (start < stop)))"

fun as_slice :: "srange \<Rightarrow> srange" where
  "as_slice (Idx i) = Slice (Some i) (Some (i + 1)) None"
| "as_slice (Slice start stop step) = Slice start stop step"

definition slices_overlap :: "srange \<Rightarrow> srange \<Rightarrow> bool res" where
  "slices_overlap r1 r2 =
     (let s1 = as_slice r1; s2 = as_slice r2 in
      if s1 = full_slice then is_empty_slice s2
      else if s2 = full_slice then is_empty_slice s1
      else
        (case (s1, s2) of
           (Slice (Some b1) (Some e1) k1, Slice (Some b2) (Some e2) k2) \<Rightarrow>
             rbind (rassert ((k1 = Some 1 \<or> k1 = None) \<and> (k2 = Some 1 \<or> k2 = None))) (\<lambda>_.
             Inr ((b1 \<le> b2 \<and> b2 < e1) \<or> (b2 \<le> b1 \<and> b1 < e2)))
         | _ \<Rightarrow> Inl AssertionError))"

text \<open>\<^verbatim>\<open>all(...)\<close> stops at the first dimension without overlap; the shorter range is filled up.\<close>

fun ranges_overlap :: "srange list \<Rightarrow> srange list \<Rightarrow> bool res" where
  "ranges_overlap [] [] = Inr True"
| "ranges_overlap (r1 # rs1) [] =
     rbind (slices_overlap r1 full_slice) (\<lambda>o1. if o1 then ranges_overlap rs1 [] else Inr False)"
| "ranges_overlap [] (r2 # rs2) =
     rbind (slices_overlap full_slice r2) (\<lambda>o1. if o1 then ranges_overlap [] rs2 else Inr False)"
| "ranges_overlap (r1 # rs1) (r2 # rs2) =
     rbind (slices_overlap r1 r2) (\<lambda>o1. if o1 then ranges_overlap rs1 rs2 else Inr False)"

lemma slices_overlap_commute: "slices_overlap r1 r2 = slices_overlap r2 r1"
  unfolding slices_overlap_def Let_def
  by (cases "as_slice r1"; cases "as_slice r2") (auto split: option.splits simp: rassert_def)

lemma ranges_overlap_commute: "ranges_overlap rs1 rs2 = ranges_overlap rs2 rs1"
  by (induction rs1 rs2 rule: ranges_overlap.induct)
    (simp_all only: ranges_overlap.simps slices_overlap_commute [of full_slice] slices_overlap_commute, simp_all split: rbind_split)

subsection \<open>The state\<close>

text \<open>An access: the device and core it is made for, its clock and its range.\<close>

record access =
  acc_device :: int
  acc_core :: int
  acc_clock :: vector_clock
  acc_range :: "srange list"

type_synonym buffer_key = "string \<times> int \<times> int \<times> int"

record race_state =
  reads :: "buffer_key \<Rightarrow> access list"
  writes :: "buffer_key \<Rightarrow> access list"
  races_found :: bool

definition initial_races :: race_state where
  "initial_races = \<lparr>reads = (\<lambda>_. []), writes = (\<lambda>_. []), races_found = False\<rparr>"

text \<open>The loop over earlier accesses: it stops at the first race.\<close>

fun find_race :: "access \<Rightarrow> access list \<Rightarrow> bool res" where
  "find_race a [] = Inr False"
| "find_race a (b # bs) =
     (if clock_ordered (acc_clock b) (acc_clock a) then find_race a bs
      else rbind (ranges_overlap (acc_range a) (acc_range b)) (\<lambda>ov. if ov then Inr True else find_race a bs))"

definition check_read :: "buffer_key \<Rightarrow> access \<Rightarrow> race_state \<Rightarrow> race_state res" where
  "check_read key a rs =
     (let earlier_writes = writes rs key;
          rs = rs\<lparr>reads := (reads rs)(key := reads rs key @ [a])\<rparr> in
      rbind (find_race a earlier_writes) (\<lambda>race.
      Inr (if race then rs\<lparr>races_found := True\<rparr> else rs)))"

definition check_write :: "buffer_key \<Rightarrow> access \<Rightarrow> race_state \<Rightarrow> race_state res" where
  "check_write key a rs =
     (let earlier_writes = writes rs key; earlier_reads = reads rs key;
          rs = rs\<lparr>writes := (writes rs)(key := writes rs key @ [a])\<rparr> in
      rbind (find_race a earlier_writes) (\<lambda>race.
      let rs = (if race then rs\<lparr>races_found := True\<rparr> else rs) in
      rbind (find_race a earlier_reads) (\<lambda>race.
      Inr (if race then rs\<lparr>races_found := True\<rparr> else rs))))"

subsection \<open>What the state says\<close>

datatype access_kind = ReadAccess | WriteAccess

type_synonym check = "access_kind \<times> buffer_key \<times> access"

definition perform_check :: "check \<Rightarrow> race_state \<Rightarrow> race_state res" where
  "perform_check = (\<lambda>(kind, key, a). case kind of ReadAccess \<Rightarrow> check_read key a | WriteAccess \<Rightarrow> check_write key a)"

text \<open>Two accesses to a buffer that conflict: one writes, their clocks are unordered, they overlap.\<close>

definition conflict :: "check \<Rightarrow> check \<Rightarrow> bool" where
  "conflict c d \<longleftrightarrow> (case (c, d) of ((k1, key1, a1), (k2, key2, a2)) \<Rightarrow>
     key1 = key2 \<and> (k1 = WriteAccess \<or> k2 = WriteAccess) \<and>
     \<not> clock_ordered (acc_clock a1) (acc_clock a2) \<and> ranges_overlap (acc_range a1) (acc_range a2) = Inr True)"

lemma conflict_commute: "conflict c d = conflict d c"
  by (auto simp: conflict_def clock_ordered_commute ranges_overlap_commute split: prod.splits)

lemma find_race_iff:
  "find_race a bs = Inr r \<Longrightarrow> r \<longleftrightarrow> (\<exists>b \<in> set bs. \<not> clock_ordered (acc_clock b) (acc_clock a) \<and>
     ranges_overlap (acc_range a) (acc_range b) = Inr True)"
  by (induction bs arbitrary: r) (auto simp: res_simps split: if_splits)

lemma ex_access_kind: "(\<exists>k. P k) \<longleftrightarrow> P ReadAccess \<or> P WriteAccess"
  by (metis access_kind.exhaust)

lemma conflict_earlier:
  "(\<exists>d \<in> set cs. conflict d (k, key, a)) \<longleftrightarrow>
     (\<exists>kind b. (kind, key, b) \<in> set cs \<and> (kind = WriteAccess \<or> k = WriteAccess) \<and>
        \<not> clock_ordered (acc_clock b) (acc_clock a) \<and> ranges_overlap (acc_range a) (acc_range b) = Inr True)"
  (is "?l \<longleftrightarrow> ?r")
proof
  assume ?l
  then obtain kind key1 b where "(kind, key1, b) \<in> set cs" "conflict (kind, key1, b) (k, key, a)" by (metis prod_cases3)
  then show ?r unfolding conflict_def prod.case ranges_overlap_commute [of "acc_range a"] by blast
next
  assume ?r
  then obtain kind b where b: "(kind, key, b) \<in> set cs" "kind = WriteAccess \<or> k = WriteAccess"
    "\<not> clock_ordered (acc_clock b) (acc_clock a)" "ranges_overlap (acc_range a) (acc_range b) = Inr True" by blast
  then have "conflict (kind, key, b) (k, key, a)"
    unfolding conflict_def prod.case ranges_overlap_commute [of "acc_range a"] by blast
  with b(1) show ?l by blast
qed

definition recorded :: "access_kind \<Rightarrow> buffer_key \<Rightarrow> check list \<Rightarrow> access list" where
  "recorded kind key cs = map (snd \<circ> snd) (filter (\<lambda>(k, key', a). k = kind \<and> key' = key) cs)"

lemma recorded_snoc:
  "recorded kind key (cs @ [(k, key', a)]) = recorded kind key cs @ (if k = kind \<and> key' = key then [a] else [])"
  by (simp add: recorded_def)

lemma set_recorded: "a \<in> set (recorded kind key cs) \<longleftrightarrow> (kind, key, a) \<in> set cs"
  by (force simp: recorded_def)

lemma perform_check_step:
  assumes "perform_check c rs = Inr rs'" "c = (k, key, a)"
    and "\<forall>key. reads rs key = recorded ReadAccess key cs" "\<forall>key. writes rs key = recorded WriteAccess key cs"
  shows "\<forall>key. reads rs' key = recorded ReadAccess key (cs @ [c])"
    "\<forall>key. writes rs' key = recorded WriteAccess key (cs @ [c])"
    "races_found rs' \<longleftrightarrow> races_found rs \<or> (\<exists>d \<in> set cs. conflict d c)"
proof -
  have "(\<forall>key. reads rs' key = recorded ReadAccess key (cs @ [c])) \<and>
    (\<forall>key. writes rs' key = recorded WriteAccess key (cs @ [c])) \<and>
    (races_found rs' \<longleftrightarrow> races_found rs \<or> (\<exists>d \<in> set cs. conflict d c))"
  proof (cases k)
    case ReadAccess
    with assms(1,2) obtain race where r: "find_race a (writes rs key) = Inr race"
      "rs' = (let rs = rs\<lparr>reads := (reads rs)(key := reads rs key @ [a])\<rparr> in if race then rs\<lparr>races_found := True\<rparr> else rs)"
      by (auto simp: perform_check_def check_read_def Let_def res_simps)
    have "race \<longleftrightarrow> (\<exists>d \<in> set cs. conflict d c)"
      unfolding find_race_iff [OF r(1)] assms(2) ReadAccess conflict_earlier
      unfolding assms(4) [rule_format] Bex_def set_recorded by auto
    then show ?thesis using r(2) assms(2-4) ReadAccess
      by (auto simp: recorded_snoc Let_def)
  next
    case WriteAccess
    with assms(1,2) obtain race1 race2 where r: "find_race a (writes rs key) = Inr race1" "find_race a (reads rs key) = Inr race2"
      "rs' = (let rs = rs\<lparr>writes := (writes rs)(key := writes rs key @ [a])\<rparr> in
        if race1 \<or> race2 then rs\<lparr>races_found := True\<rparr> else rs)"
      by (auto simp: perform_check_def check_write_def Let_def res_simps)
    have "race1 \<or> race2 \<longleftrightarrow> (\<exists>d \<in> set cs. conflict d c)"
      unfolding find_race_iff [OF r(1)] find_race_iff [OF r(2)] assms(2) WriteAccess conflict_earlier
      unfolding assms(3,4) [rule_format] Bex_def set_recorded ex_access_kind by auto
    then show ?thesis using r(3) assms(2-4) WriteAccess
      by (auto simp: recorded_snoc Let_def)
  qed
  then show "\<forall>key. reads rs' key = recorded ReadAccess key (cs @ [c])"
    "\<forall>key. writes rs' key = recorded WriteAccess key (cs @ [c])"
    "races_found rs' \<longleftrightarrow> races_found rs \<or> (\<exists>d \<in> set cs. conflict d c)" by blast+
qed

lemma checks_record:
  assumes "rfold perform_check cs initial_races = Inr rs"
  shows "(\<forall>key. reads rs key = recorded ReadAccess key cs) \<and> (\<forall>key. writes rs key = recorded WriteAccess key cs) \<and>
    (races_found rs \<longleftrightarrow> (\<exists>i j. i < j \<and> j < length cs \<and> conflict (cs ! i) (cs ! j)))"
  using assms
proof (induction cs arbitrary: rs rule: rev_induct)
  case Nil
  then show ?case by (auto simp: initial_races_def recorded_def)
next
  case (snoc c cs)
  then obtain rs0 where rs0: "rfold perform_check cs initial_races = Inr rs0" "perform_check c rs0 = Inr rs"
    by (auto simp: rfold_append res_simps)
  obtain k key a where c: "c = (k, key, a)" by (cases c) auto
  note step = perform_check_step [OF rs0(2) c, of cs]
  have "(\<exists>i j. i < j \<and> j < length (cs @ [c]) \<and> conflict ((cs @ [c]) ! i) ((cs @ [c]) ! j)) \<longleftrightarrow>
      (\<exists>i j. i < j \<and> j < length cs \<and> conflict (cs ! i) (cs ! j)) \<or> (\<exists>d \<in> set cs. conflict d c)"
  proof
    assume "\<exists>i j. i < j \<and> j < length (cs @ [c]) \<and> conflict ((cs @ [c]) ! i) ((cs @ [c]) ! j)"
    then obtain i j where ij0: "i < j" "j < length (cs @ [c])" "conflict ((cs @ [c]) ! i) ((cs @ [c]) ! j)" by blast
    then have ij: "i < j" "j < length cs \<or> j = length cs" "conflict ((cs @ [c]) ! i) ((cs @ [c]) ! j)" by auto
    then show "(\<exists>i j. i < j \<and> j < length cs \<and> conflict (cs ! i) (cs ! j)) \<or> (\<exists>d \<in> set cs. conflict d c)"
      using less_trans [OF ij(1)] nth_mem [of i cs] by (fastforce simp: nth_append)
  next
    assume "(\<exists>i j. i < j \<and> j < length cs \<and> conflict (cs ! i) (cs ! j)) \<or> (\<exists>d \<in> set cs. conflict d c)"
    then show "\<exists>i j. i < j \<and> j < length (cs @ [c]) \<and> conflict ((cs @ [c]) ! i) ((cs @ [c]) ! j)"
    proof
      assume "\<exists>i j. i < j \<and> j < length cs \<and> conflict (cs ! i) (cs ! j)"
      then obtain i j where "i < j" "j < length cs" "conflict (cs ! i) (cs ! j)" by blast
      then show ?thesis by (intro exI [of _ i] exI [of _ j]) (simp add: nth_append)
    next
      assume "\<exists>d \<in> set cs. conflict d c"
      then obtain i where "i < length cs" "conflict (cs ! i) c" by (metis in_set_conv_nth)
      then show ?thesis by (intro exI [of _ i] exI [of _ "length cs"]) (simp add: nth_append)
    qed
  qed
  with step snoc.IH [OF rs0(1)] show ?case by metis
qed

lemma conflict_pair_mset:
  "(\<exists>i j. i < j \<and> j < length cs \<and> conflict (cs ! i) (cs ! j)) \<longleftrightarrow> (\<exists>c d. {#c, d#} \<subseteq># mset cs \<and> conflict c d)"
proof
  assume "\<exists>i j. i < j \<and> j < length cs \<and> conflict (cs ! i) (cs ! j)"
  then obtain i j where ij: "i < j" "j < length cs" "conflict (cs ! i) (cs ! j)" by blast
  have "cs = take i cs @ cs ! i # drop (Suc i) cs" using ij by (simp add: id_take_nth_drop)
  moreover have "cs ! j \<in> set (drop (Suc i) cs)"
    using ij nth_mem [of "j - Suc i" "drop (Suc i) cs"] by simp
  then obtain us vs where "drop (Suc i) cs = us @ cs ! j # vs" by (meson split_list)
  ultimately have "cs = take i cs @ cs ! i # us @ cs ! j # vs" by metis
  then have "mset cs = mset (take i cs @ cs ! i # us @ cs ! j # vs)" by (rule arg_cong)
  also have "\<dots> = {#cs ! i, cs ! j#} + mset (take i cs @ us @ vs)" by simp
  finally have "{#cs ! i, cs ! j#} \<subseteq># mset cs" using mset_subset_eq_add_left by metis
  with ij(3) show "\<exists>c d. {#c, d#} \<subseteq># mset cs \<and> conflict c d" by blast
next
  assume "\<exists>c d. {#c, d#} \<subseteq># mset cs \<and> conflict c d"
  then obtain c d where cd: "{#c, d#} \<subseteq># mset cs" "conflict c d" by blast
  then have "c \<in># mset cs" by (meson mset_subset_eqD union_single_eq_member)
  then obtain us vs where cs: "cs = us @ c # vs" using split_list by fastforce
  then have "d \<in># mset (us @ vs)" using cd(1) by simp
  then consider "d \<in> set us" | "d \<in> set vs" by auto
  then show "\<exists>i j. i < j \<and> j < length cs \<and> conflict (cs ! i) (cs ! j)"
  proof cases
    case 1
    then obtain i where "i < length us" "us ! i = d" by (metis in_set_conv_nth)
    then show ?thesis using cs cd(2) conflict_commute
      by (intro exI [of _ i] exI [of _ "length us"]) (auto simp: nth_append)
  next
    case 2
    then obtain j where "j < length vs" "vs ! j = d" by (metis in_set_conv_nth)
    then show ?thesis using cs cd(2)
      by (intro exI [of _ "length us"] exI [of _ "Suc (length us + j)"]) (auto simp: nth_append)
  qed
qed

text \<open>The verdict does not depend on the order in which the checks get the lock.\<close>

lemma races_found_order:
  assumes "rfold perform_check cs initial_races = Inr rs" "rfold perform_check cs' initial_races = Inr rs'" "mset cs = mset cs'"
  shows "races_found rs = races_found rs'"
  using checks_record [OF assms(1)] checks_record [OF assms(2)] conflict_pair_mset [of cs] conflict_pair_mset [of cs'] assms(3)
  by simp

subsection \<open>Overlap is overlap\<close>

text \<open>A range all of whose slices have step one and are not empty.\<close>

fun unit_range :: "srange list \<Rightarrow> bool" where
  "unit_range [] = True"
| "unit_range (Idx i # rs) = unit_range rs"
| "unit_range (Slice (Some b) (Some e) (Some s) # rs) = (b < e \<and> s = 1 \<and> unit_range rs)"
| "unit_range (Slice _ _ _ # rs) = False"

lemma unit_range_locate: "unit_range rs \<Longrightarrow> \<exists>idx p. locate rs idx = Some p"
proof (induction rs rule: unit_range.induct)
  case (3 b e s rs)
  then obtain idx p where "locate rs idx = Some p" by auto
  with 3 show ?case by (intro exI [of _ "0 # idx"] exI [of _ "b # p"]) simp
qed auto

fun in_slice :: "srange \<Rightarrow> int \<Rightarrow> bool" where
  "in_slice (Idx i) x = (x = i)"
| "in_slice (Slice b e s) x = (the b \<le> x \<and> x < the e)"

lemma locate_unit_Cons:
  assumes "unit_range (r # rs)"
  shows "(\<exists>idx. locate (r # rs) idx = Some p) \<longleftrightarrow> (\<exists>x q. p = x # q \<and> in_slice r x \<and> (\<exists>idx. locate rs idx = Some q))"
proof (cases r)
  case (Idx i)
  then show ?thesis by auto
next
  case (Slice b e s)
  then obtain b' e' where r: "r = Slice (Some b') (Some e') (Some 1)"
    using assms by (cases b; cases e; cases s) auto
  show ?thesis
  proof
    assume "\<exists>idx. locate (r # rs) idx = Some p"
    then obtain idx where idx: "locate (r # rs) idx = Some p" by blast
    then obtain i idx' where "idx = i # idx'" using r by (cases idx) auto
    with idx r show "\<exists>x q. p = x # q \<and> in_slice r x \<and> (\<exists>idx. locate rs idx = Some q)"
      by (auto split: if_splits)
  next
    assume "\<exists>x q. p = x # q \<and> in_slice r x \<and> (\<exists>idx. locate rs idx = Some q)"
    then obtain x q idx where "p = x # q" "in_slice r x" "locate rs idx = Some q" by blast
    then show "\<exists>idx. locate (r # rs) idx = Some p"
      using r by (intro exI [of _ "(x - b') # idx"]) simp
  qed
qed

lemma slices_overlap_unit:
  assumes "unit_range (r1 # rs1)" "unit_range (r2 # rs2)"
  shows "slices_overlap r1 r2 = Inr (\<exists>x. in_slice r1 x \<and> in_slice r2 x)"
proof -
  have shape: "\<exists>b e k. as_slice r = Slice (Some b) (Some e) k \<and> (k = Some 1 \<or> k = None) \<and> b < e \<and>
      (\<forall>x. in_slice r x \<longleftrightarrow> b \<le> x \<and> x < e)" if "unit_range (r # rs)" for r rs
    using that by (cases r; cases "(r # rs)" rule: unit_range.cases) auto
  from shape [OF assms(1)] shape [OF assms(2)] obtain b1 e1 k1 b2 e2 k2 where
    s: "as_slice r1 = Slice (Some b1) (Some e1) k1" "k1 = Some 1 \<or> k1 = None" "b1 < e1" "\<forall>x. in_slice r1 x \<longleftrightarrow> b1 \<le> x \<and> x < e1"
      "as_slice r2 = Slice (Some b2) (Some e2) k2" "k2 = Some 1 \<or> k2 = None" "b2 < e2" "\<forall>x. in_slice r2 x \<longleftrightarrow> b2 \<le> x \<and> x < e2"
    by blast
  have "(\<exists>x. in_slice r1 x \<and> in_slice r2 x) \<longleftrightarrow> (b1 \<le> b2 \<and> b2 < e1) \<or> (b2 \<le> b1 \<and> b1 < e2)"
  proof
    assume "(b1 \<le> b2 \<and> b2 < e1) \<or> (b2 \<le> b1 \<and> b1 < e2)"
    then show "\<exists>x. in_slice r1 x \<and> in_slice r2 x" using s by (intro exI [of _ "max b1 b2"]) auto
  qed (use s in auto)
  then show ?thesis using s by (simp add: slices_overlap_def Let_def)
qed

lemma ranges_overlap_whole: "unit_range r \<Longrightarrow> ranges_overlap r [] = Inr True"
proof (induction r rule: unit_range.induct)
  case (2 i rs)
  then show ?case by (simp add: slices_overlap_def)
next
  case (3 b e s rs)
  then show ?case by (simp add: slices_overlap_def)
qed auto

lemma ranges_overlap_locate:
  assumes "unit_range r1" "unit_range r2"
  shows "ranges_overlap r1 r2 = Inr (\<exists>p. (\<exists>idx. locate r1 idx = Some p) \<and> (\<exists>idx. locate r2 idx = Some p))"
  using assms
proof (induction r1 r2 rule: ranges_overlap.induct)
  case (2 r1 rs1)
  then show ?case using ranges_overlap_whole [OF 2(2)] unit_range_locate [OF 2(2)] by auto
next
  case (3 r2 rs2)
  then show ?case
    using ranges_overlap_whole [OF 3(3)] ranges_overlap_commute [of "[]"] unit_range_locate [OF 3(3)] by auto
next
  case (4 r1 rs1 r2 rs2)
  have u: "unit_range rs1" "unit_range rs2"
    using 4(2,3) by (cases "r1 # rs1" rule: unit_range.cases; cases "r2 # rs2" rule: unit_range.cases; simp)+
  have "ranges_overlap (r1 # rs1) (r2 # rs2) = Inr ((\<exists>x. in_slice r1 x \<and> in_slice r2 x) \<and>
      (\<exists>q. (\<exists>idx. locate rs1 idx = Some q) \<and> (\<exists>idx. locate rs2 idx = Some q)))"
    using 4(1) [OF slices_overlap_unit [OF 4(2,3)] _ u] slices_overlap_unit [OF 4(2,3)] by auto
  then show ?case unfolding locate_unit_Cons [OF 4(2)] locate_unit_Cons [OF 4(3)] by auto
qed auto

end
