(* ===== verification/SharedMem.thy ===== *)
theory SharedMem
  imports RaceState
begin

text \<open>
  The memory that the threads of the TPU interpreter share:
  \<^verbatim>\<open>jax/_src/pallas/mosaic/interpret/shared_memory.py\<close> and the callbacks of
  \<^verbatim>\<open>interpret_pallas_call.py\<close> that work on it. Every definition of the first part is one section
  under a lock; the callbacks of the second part run several of them in sequence, and other
  threads may run theirs in between (\<open>HappensBefore\<close>).

  Arrays are NumPy's: the operations the code uses on them are fields of the record \<open>numpy\<close>.
  Logging and the calls of the garbage collector are left out.
\<close>

subsection \<open>Data\<close>

text \<open>
  \<open>np_getitem a r\<close> is \<^verbatim>\<open>a[r]\<close>, \<open>None\<close> when it raises; \<open>np_setitem a r v\<close> is \<open>a\<close> after \<^verbatim>\<open>a[r] = v\<close>;
  \<open>np_masked_outside m s\<close> tells that the mask \<open>m\<close> is set somewhere outside the shape \<open>s\<close>.
\<close>

record 'a numpy =
  np_getitem :: "'a \<Rightarrow> srange list \<Rightarrow> 'a option"
  np_setitem :: "'a \<Rightarrow> srange list \<Rightarrow> 'a \<Rightarrow> 'a"
  np_shape :: "'a \<Rightarrow> int list"
  np_nbytes :: "'a \<Rightarrow> int"
  np_same_dtype :: "'a \<Rightarrow> 'a \<Rightarrow> bool"
  np_where :: "'a \<Rightarrow> 'a \<Rightarrow> 'a \<Rightarrow> 'a"
  np_masked_outside :: "'a \<Rightarrow> int list \<Rightarrow> bool"
  np_full_like :: "'a \<Rightarrow> int list \<Rightarrow> string \<Rightarrow> 'a"

record 'a buffer =
  buf_content :: 'a
  ref_count :: int

datatype 'a allocation = Buffer "'a buffer" | OtherAllocation

text \<open>A semaphore: its count for every core and, when races are detected, the clock of each count.\<close>

record semaphore =
  count_by_core :: "int list"
  sem_clocks :: "vector_clock option list"

datatype sem_ref = InternalSem int | FixedSem int

text \<open>\<^verbatim>\<open>DMA\<close>. The tasks on a semaphore refer to DMAs by their number.\<close>

datatype dma_state = STARTED | READ | COMPLETED

record 'a dma =
  src_device_id :: int
  src_local_core_id :: int
  src_space :: string
  src_buffer_id :: int
  src_transforms :: "indexer list list"
  dst_device_id :: int
  dst_local_core_id :: int
  dst_space :: string
  dst_buffer_id :: int
  dst_transforms :: "indexer list list"
  src_sem :: "sem_ref option"
  dst_sem :: sem_ref
  virtual_device_id :: nat
  dma_clock :: vector_clock
  dma_phase :: dma_state
  dma_data :: "'a option"

datatype task = ExecuteRead int | ExecuteReadAndWrite int

record 'a shared_memory =
  num_devices :: nat
  num_cores_per_device :: nat
  out_of_bounds_reads :: string
  dma_execution_mode :: string
  uninitialized_memory :: string
  detect_races :: bool
  vector_clock_size :: nat
  clocks :: "vector_clock list"
  mem :: "buffer_key \<Rightarrow> 'a allocation option"
  sems :: "int \<Rightarrow> semaphore option"
  fixed_id_sem :: "int \<Rightarrow> semaphore option"
  tasks_by_sem :: "sem_ref \<times> nat \<Rightarrow> task list"
  next_buffer_id :: "int \<times> int \<Rightarrow> int"
  next_semaphore_id :: "nat \<Rightarrow> int"
  deallocated_bytes :: int
  dmas :: "int \<Rightarrow> 'a dma option"
  next_dma_id :: int
  races :: race_state

definition num_cores :: "'a shared_memory \<Rightarrow> nat" where
  "num_cores m = num_devices m * num_cores_per_device m"

definition get_global_core_id :: "'a shared_memory \<Rightarrow> int \<Rightarrow> int \<Rightarrow> nat" where
  "get_global_core_id m device_id local_core_id = nat (device_id * int (num_cores_per_device m) + local_core_id)"

definition get_global_core_ids :: "'a shared_memory \<Rightarrow> int \<Rightarrow> nat list" where
  "get_global_core_ids m device_id = map (\<lambda>c. get_global_core_id m device_id (int c)) [0..<num_cores_per_device m]"

text \<open>\<^verbatim>\<open>_initialize_shared_memory\<close>\<close>

definition initialize_shared_memory ::
  "nat \<Rightarrow> nat \<Rightarrow> string \<Rightarrow> string \<Rightarrow> string \<Rightarrow> bool \<Rightarrow> nat \<Rightarrow> 'a shared_memory" where
  "initialize_shared_memory n_devices n_cores oob mode uninit detect clock_size =
     \<lparr>num_devices = n_devices, num_cores_per_device = n_cores, out_of_bounds_reads = oob, dma_execution_mode = mode,
      uninitialized_memory = uninit, detect_races = detect, vector_clock_size = clock_size,
      clocks = map (\<lambda>_. make_vector_clock clock_size) [0..<n_devices * n_cores],
      mem = (\<lambda>_. None), sems = (\<lambda>_. None), fixed_id_sem = (\<lambda>_. None), tasks_by_sem = (\<lambda>_. []),
      next_buffer_id = (\<lambda>_. 100), next_semaphore_id = (\<lambda>_. 2000), deallocated_bytes = 0,
      dmas = (\<lambda>_. None), next_dma_id = 100, races = initial_races\<rparr>"

subsection \<open>Clocks\<close>

text \<open>\<^verbatim>\<open>vc.inc_vector_clock(self.clocks[i], i)\<close> and the copy of the clock\<close>

definition tick :: "'a shared_memory \<Rightarrow> nat \<Rightarrow> (vector_clock option \<times> 'a shared_memory) res" where
  "tick m core =
     (if \<not> detect_races m then Inr (None, m)
      else if core \<ge> length (clocks m) then Inl IndexError
      else rbind (inc_vector_clock (clocks m ! core) core) (\<lambda>clock.
        Inr (Some clock, m\<lparr>clocks := (clocks m)[core := clock]\<rparr>)))"

text \<open>\<^verbatim>\<open>update_clocks\<close>: the clocks of a range of cores become their least upper bound.\<close>

definition update_clocks :: "'a shared_memory \<Rightarrow> nat \<Rightarrow> nat \<Rightarrow> 'a shared_memory" where
  "update_clocks m low high =
       (let others = [low + 1..<min high (length (clocks m))];
            cs = fold (\<lambda>c cs. cs[low := update_vector_clock (cs ! low) (cs ! c)]) others (clocks m);
            cs = fold (\<lambda>c cs. cs[c := update_vector_clock (cs ! c) (cs ! low)]) others cs in
        m\<lparr>clocks := cs\<rparr>)"

definition update_clocks_for_device_barrier :: "'a shared_memory \<Rightarrow> nat \<Rightarrow> 'a shared_memory" where
  "update_clocks_for_device_barrier m device_id =
     update_clocks m (device_id * num_cores_per_device m) ((device_id + 1) * num_cores_per_device m)"

definition update_clocks_for_global_barrier :: "'a shared_memory \<Rightarrow> 'a shared_memory" where
  "update_clocks_for_global_barrier m = update_clocks m 0 (num_cores m)"

subsection \<open>Semaphores\<close>

definition new_semaphore :: "'a shared_memory \<Rightarrow> semaphore" where
  "new_semaphore m = \<lparr>count_by_core = replicate (num_cores m) 0, sem_clocks = replicate (num_cores m) None\<rparr>"

fun get_sem :: "'a shared_memory \<Rightarrow> sem_ref \<Rightarrow> semaphore res" where
  "get_sem m (InternalSem i) = (case sems m i of None \<Rightarrow> Inl KeyError | Some s \<Rightarrow> Inr s)"
| "get_sem m (FixedSem i) = (case fixed_id_sem m i of None \<Rightarrow> Inl KeyError | Some s \<Rightarrow> Inr s)"

fun set_sem :: "'a shared_memory \<Rightarrow> sem_ref \<Rightarrow> semaphore \<Rightarrow> 'a shared_memory" where
  "set_sem m (InternalSem i) s = m\<lparr>sems := (sems m)(i := Some s)\<rparr>"
| "set_sem m (FixedSem i) s = m\<lparr>fixed_id_sem := (fixed_id_sem m)(i := Some s)\<rparr>"

definition find_semaphore :: "'a shared_memory \<Rightarrow> int option \<Rightarrow> sem_ref option res" where
  "find_semaphore m sem_id =
     (case sem_id of
        None \<Rightarrow> Inr None
      | Some i \<Rightarrow>
          if fixed_id_sem m i \<noteq> None
          then if sems m i \<noteq> None then Inl (ValueError ''both fixed-id and internal'') else Inr (Some (FixedSem i))
          else if sems m i \<noteq> None then Inr (Some (InternalSem i)) else Inl KeyError)"

definition get_semaphores_and_increment_clock ::
  "'a shared_memory \<Rightarrow> int option list \<Rightarrow> nat \<Rightarrow> (sem_ref option list \<times> vector_clock option \<times> 'a shared_memory) res" where
  "get_semaphores_and_increment_clock m sem_ids core =
     rbind (tick m core) (\<lambda>(clock, m).
     rbind (rmap (find_semaphore m) sem_ids) (\<lambda>refs. Inr (refs, clock, m)))"

definition sem_signal :: "'a shared_memory \<Rightarrow> sem_ref \<Rightarrow> int \<Rightarrow> nat \<Rightarrow> vector_clock option \<Rightarrow> 'a shared_memory res" where
  "sem_signal m ref inc core clock =
     rbind (get_sem m ref) (\<lambda>s.
     if core \<ge> length (count_by_core s) then Inl IndexError
     else
       let s = s\<lparr>count_by_core := (count_by_core s)[core := int32 (count_by_core s ! core + inc)]\<rparr> in
       if \<not> detect_races m then Inr (set_sem m ref s)
       else
         (case sem_clocks s ! core of
            None \<Rightarrow> Inr (set_sem m ref (s\<lparr>sem_clocks := (sem_clocks s)[core := clock]\<rparr>))
          | Some global_clock \<Rightarrow>
              (case clock of
                 None \<Rightarrow> Inl (TypeError ''NoneType'')
               | Some c \<Rightarrow>
                   Inr (set_sem m ref
                     (s\<lparr>sem_clocks := (sem_clocks s)[core := Some (update_vector_clock global_clock c)]\<rparr>)))))"

text \<open>
  The section of \<^verbatim>\<open>Semaphore.wait\<close> under the lock of the semaphore: \<open>None\<close> while the count is too
  small, otherwise the count is taken and the clock is copied. The clock of the waiting core
  is brought up to date in a second section (\<open>sem_wait_finish\<close>).
\<close>

definition sem_try_acquire ::
  "'a shared_memory \<Rightarrow> sem_ref \<Rightarrow> int \<Rightarrow> nat \<Rightarrow> (vector_clock option \<times> 'a shared_memory) option res" where
  "sem_try_acquire m ref v core =
     rbind (get_sem m ref) (\<lambda>s.
     if core \<ge> length (count_by_core s) then Inl IndexError
     else if count_by_core s ! core < v then Inr None
     else
       let m = set_sem m ref (s\<lparr>count_by_core := (count_by_core s)[core := int32 (count_by_core s ! core - v)]\<rparr>) in
       if \<not> detect_races m then Inr (Some (None, m))
       else
         (case sem_clocks s ! core of
            None \<Rightarrow> Inl AssertionError
          | Some c \<Rightarrow> Inr (Some (Some c, m))))"

definition sem_wait_finish :: "'a shared_memory \<Rightarrow> nat \<Rightarrow> vector_clock option \<Rightarrow> 'a shared_memory res" where
  "sem_wait_finish m core clock =
     (case clock of
        None \<Rightarrow> Inr m
      | Some c \<Rightarrow>
          if core \<ge> length (clocks m) then Inl IndexError
          else Inr (m\<lparr>clocks := (clocks m)[core := update_vector_clock (clocks m ! core) c]\<rparr>))"

text \<open>\<^verbatim>\<open>allocate_semaphores\<close> and \<^verbatim>\<open>guarantee_semaphore_with_fixed_id\<close>\<close>

definition allocate_semaphores :: "'a shared_memory \<Rightarrow> nat \<Rightarrow> nat \<Rightarrow> int \<times> 'a shared_memory" where
  "allocate_semaphores m key num_semaphores =
     (let semaphore_id = next_semaphore_id m key;
          m = m\<lparr>next_semaphore_id := (next_semaphore_id m)(key := semaphore_id + int num_semaphores)\<rparr>;
          m = fold (\<lambda>k m. let i = semaphore_id + int k in
                if sems m i = None then m\<lparr>sems := (sems m)(i := Some (new_semaphore m))\<rparr> else m)
              [0..<num_semaphores] m in
      (semaphore_id, m))"

definition guarantee_semaphore_with_fixed_id :: "'a shared_memory \<Rightarrow> int \<Rightarrow> 'a shared_memory" where
  "guarantee_semaphore_with_fixed_id m i =
     (if fixed_id_sem m i = None then m\<lparr>fixed_id_sem := (fixed_id_sem m)(i := Some (new_semaphore m))\<rparr> else m)"

definition append_semaphore_task :: "'a shared_memory \<Rightarrow> sem_ref \<Rightarrow> nat \<Rightarrow> task \<Rightarrow> 'a shared_memory" where
  "append_semaphore_task m ref core t =
     m\<lparr>tasks_by_sem := (tasks_by_sem m)((ref, core) := tasks_by_sem m (ref, core) @ [t])\<rparr>"

text \<open>\<^verbatim>\<open>get_sempahores_with_nonzero_count\<close>, for the semaphores with the given names\<close>

definition nonzero_counts :: "'a shared_memory \<Rightarrow> sem_ref list \<Rightarrow> int \<Rightarrow> (sem_ref \<times> nat) list" where
  "nonzero_counts m refs device_id =
     concat (map (\<lambda>ref. case get_sem m ref of
         Inl _ \<Rightarrow> []
       | Inr s \<Rightarrow> map (Pair ref) (filter (\<lambda>core. count_by_core s ! core \<noteq> 0) (get_global_core_ids m device_id))) refs)"

subsection \<open>Buffers\<close>

definition take_buffer_id :: "'a shared_memory \<Rightarrow> int \<Rightarrow> int \<Rightarrow> int \<times> 'a shared_memory" where
  "take_buffer_id m device_id local_core_id =
     (let buffer_id = next_buffer_id m (device_id, local_core_id) in
      (buffer_id, m\<lparr>next_buffer_id := (next_buffer_id m)((device_id, local_core_id) := buffer_id + 1)\<rparr>))"

definition allocate_buffer :: "'a shared_memory \<Rightarrow> buffer_key \<Rightarrow> int \<Rightarrow> 'a \<Rightarrow> 'a shared_memory" where
  "allocate_buffer m key refs v =
     (if mem m key = None then m\<lparr>mem := (mem m)(key := Some (Buffer \<lparr>buf_content = v, ref_count = refs\<rparr>))\<rparr> else m)"

definition get_buffer :: "'a shared_memory \<Rightarrow> buffer_key \<Rightarrow> 'a buffer res" where
  "get_buffer m key =
     (case mem m key of
        None \<Rightarrow> Inl KeyError
      | Some OtherAllocation \<Rightarrow> Inl (ValueError ''not a Buffer'')
      | Some (Buffer b) \<Rightarrow> Inr b)"

definition deallocate_buffer :: "'a numpy \<Rightarrow> 'a shared_memory \<Rightarrow> buffer_key \<Rightarrow> 'a shared_memory res" where
  "deallocate_buffer np m key =
     rbind (get_buffer m key) (\<lambda>b.
     rbind (rassert (ref_count b > 0)) (\<lambda>_.
     let b = b\<lparr>ref_count := ref_count b - 1\<rparr>;
         m = (if ref_count b = 0
              then m\<lparr>mem := (mem m)(key := None), deallocated_bytes := deallocated_bytes m + np_nbytes np (buf_content b)\<rparr>
              else m\<lparr>mem := (mem m)(key := Some (Buffer b))\<rparr>) in
     Inr (if deallocated_bytes m > 100000000 then m\<lparr>deallocated_bytes := 0\<rparr> else m)))"

definition set_content :: "'a shared_memory \<Rightarrow> buffer_key \<Rightarrow> 'a buffer \<Rightarrow> 'a \<Rightarrow> 'a shared_memory" where
  "set_content m key b v = m\<lparr>mem := (mem m)(key := Some (Buffer (b\<lparr>buf_content := v\<rparr>)))\<rparr>"

text \<open>\<^verbatim>\<open>get_buffer_content\<close>, \<^verbatim>\<open>store_buffer_content\<close> and \<^verbatim>\<open>swap_buffer_content\<close>, with the shape of the buffer\<close>

definition get_buffer_content ::
  "'a numpy \<Rightarrow> 'a shared_memory \<Rightarrow> buffer_key \<Rightarrow> srange list \<Rightarrow> nat
    \<Rightarrow> ('a option \<times> 'a \<times> vector_clock option \<times> 'a shared_memory) res" where
  "get_buffer_content np m key rnge core =
     rbind (tick m core) (\<lambda>(clock, m).
     rbind (get_buffer m key) (\<lambda>b.
     Inr (np_getitem np (buf_content b) rnge, buf_content b, clock, m)))"

definition store_buffer_content ::
  "'a numpy \<Rightarrow> 'a shared_memory \<Rightarrow> buffer_key \<Rightarrow> srange list \<Rightarrow> 'a \<Rightarrow> nat
    \<Rightarrow> (bool \<times> vector_clock option \<times> 'a shared_memory) res" where
  "store_buffer_content np m key rnge v core =
     rbind (tick m core) (\<lambda>(clock, m).
     rbind (get_buffer m key) (\<lambda>b.
     rbind (rassert (np_same_dtype np (buf_content b) v)) (\<lambda>_.
     (case np_getitem np (buf_content b) rnge of
        None \<Rightarrow> Inl IndexError
      | Some part \<Rightarrow>
          if np_shape np part = np_shape np v
          then Inr (True, clock, set_content m key b (np_setitem np (buf_content b) rnge v))
          else Inr (False, clock, m)))))"

definition swap_buffer_content ::
  "'a numpy \<Rightarrow> 'a shared_memory \<Rightarrow> buffer_key \<Rightarrow> srange list \<Rightarrow> 'a \<Rightarrow> 'a option \<Rightarrow> nat
    \<Rightarrow> ('a option \<times> vector_clock option \<times> 'a shared_memory) res" where
  "swap_buffer_content np m key rnge v msk core =
     rbind (tick m core) (\<lambda>(clock, m).
     rbind (get_buffer m key) (\<lambda>b.
     rbind (rassert (np_same_dtype np (buf_content b) v)) (\<lambda>_.
     (case np_getitem np (buf_content b) rnge of
        None \<Rightarrow> Inl IndexError
      | Some raw_result \<Rightarrow>
          (case msk of
             None \<Rightarrow>
               if np_shape np raw_result = np_shape np v
               then Inr (Some raw_result, clock, set_content m key b (np_setitem np (buf_content b) rnge v))
               else Inr (None, clock, m)
           | Some msk \<Rightarrow>
               if np_masked_outside np msk (np_shape np raw_result) then Inr (None, clock, m)
               else
                 let in_bounds_idx = map (\<lambda>i. Slice None (Some i) None) (np_shape np raw_result) in
                 (case (np_getitem np msk in_bounds_idx, np_getitem np v in_bounds_idx) of
                    (Some msk_in, Some v_in) \<Rightarrow>
                      let r = np_setitem np v in_bounds_idx (np_where np msk_in raw_result v_in);
                          content = np_setitem np (buf_content b) rnge (np_where np msk_in v_in raw_result) in
                      Inr (Some r, clock, set_content m key b content)
                  | _ \<Rightarrow> Inl IndexError))))))"

subsection \<open>Callbacks\<close>

definition in_hbm :: "string \<Rightarrow> bool" where
  "in_hbm memory_space \<longleftrightarrow> memory_space = ''any'' \<or> memory_space = ''hbm''"

definition local_core_id_or_zero_if_hbm :: "int \<Rightarrow> string \<Rightarrow> int" where
  "local_core_id_or_zero_if_hbm local_core_id memory_space = (if in_hbm memory_space then 0 else local_core_id)"

text \<open>The shape of a read that is in bounds: the number of elements of each slice.\<close>

fun full_read_shape :: "int list \<Rightarrow> srange list \<Rightarrow> int list res" where
  "full_read_shape dims [] = Inr dims"
| "full_read_shape [] (r # rs) = Inl AssertionError"
| "full_read_shape (d # dims) (Idx i # rs) = full_read_shape dims rs"
| "full_read_shape (d # dims) (Slice b e s # rs) =
     rbind (the_int e) (\<lambda>e. rbind (the_int b) (\<lambda>b. rbind (the_int s) (\<lambda>s.
     if s = 0 then Inl ZeroDivisionError
     else rbind (full_read_shape dims rs) (\<lambda>ds. Inr ((e - b) div s # ds)))))"

definition whole :: "int list \<Rightarrow> srange list" where
  "whole shape = map (\<lambda>i. Slice None (Some i) None) shape"

text \<open>\<open>mem_get\<close>, \<open>mem_store\<close> and \<open>mem_swap\<close> are \<^verbatim>\<open>get\<close>, \<^verbatim>\<open>store\<close> and \<^verbatim>\<open>swap\<close>. The core whose clock is incremented
  is the one of the buffer; a DMA passes a clock of its own and its number as the device.\<close>

definition mem_get ::
  "'a numpy \<Rightarrow> 'a shared_memory \<Rightarrow> int \<Rightarrow> int \<Rightarrow> string \<Rightarrow> int \<Rightarrow> indexer list list \<Rightarrow> (int \<times> int \<times> vector_clock option) option
    \<Rightarrow> ('a \<times> 'a shared_memory) res" where
  "mem_get np m device_id local_core_id memory_space buffer_id transforms src =
     (let core_for_buffer = local_core_id_or_zero_if_hbm local_core_id memory_space;
          core = get_global_core_id m device_id local_core_id;
          key = (memory_space, buffer_id, device_id, core_for_buffer) in
      rbind (to_range transforms) (\<lambda>read_range.
      rbind (get_buffer_content np m key read_range core) (\<lambda>(ret, array, own_clock, m).
      rbind (full_read_shape (np_shape np array) read_range) (\<lambda>full_shape.
      rbind (if ret = None \<or> np_shape np (the ret) \<noteq> full_shape
             then
               if out_of_bounds_reads m = ''raise'' then Inl IndexError
               else
                 let uninit = np_full_like np array full_shape (uninitialized_memory m) in
                 Inr (case ret of None \<Rightarrow> uninit | Some r \<Rightarrow> np_setitem np uninit (whole (np_shape np r)) r)
             else Inr (the ret)) (\<lambda>ret.
      if \<not> detect_races m then Inr (ret, m)
      else
        let (dev, cor, clock) = (case src of
              None \<Rightarrow> (device_id, local_core_id, own_clock)
            | Some (d, c, cl) \<Rightarrow> (d, c, case cl of None \<Rightarrow> own_clock | Some x \<Rightarrow> Some x)) in
        (case clock of
           None \<Rightarrow> Inl (TypeError ''NoneType'')
         | Some clock \<Rightarrow>
             rbind (check_read key \<lparr>acc_device = dev, acc_core = cor, acc_clock = clock, acc_range = read_range\<rparr> (races m))
               (\<lambda>rs. Inr (ret, m\<lparr>races := rs\<rparr>))))))))"

definition mem_store ::
  "'a numpy \<Rightarrow> 'a shared_memory \<Rightarrow> int \<Rightarrow> int \<Rightarrow> string \<Rightarrow> int \<Rightarrow> indexer list list \<Rightarrow> 'a
    \<Rightarrow> (int \<times> int \<times> vector_clock option) option \<Rightarrow> 'a shared_memory res" where
  "mem_store np m device_id local_core_id memory_space buffer_id transforms v src =
     (let core_for_buffer = local_core_id_or_zero_if_hbm local_core_id memory_space;
          core = get_global_core_id m device_id local_core_id;
          key = (memory_space, buffer_id, device_id, core_for_buffer) in
      rbind (to_range transforms) (\<lambda>write_range.
      rbind (store_buffer_content np m key write_range v core) (\<lambda>(in_bounds, own_clock, m).
      if \<not> in_bounds then Inl (ValueError ''Out-of-bounds write'')
      else if \<not> detect_races m then Inr m
      else
        let (dev, cor, clock) = (case src of
              None \<Rightarrow> (device_id, local_core_id, own_clock)
            | Some (d, c, cl) \<Rightarrow> (d, c, case cl of None \<Rightarrow> own_clock | Some x \<Rightarrow> Some x)) in
        (case clock of
           None \<Rightarrow> Inl (TypeError ''NoneType'')
         | Some clock \<Rightarrow>
             rbind (check_write key \<lparr>acc_device = dev, acc_core = cor, acc_clock = clock, acc_range = write_range\<rparr> (races m))
               (\<lambda>rs. Inr (m\<lparr>races := rs\<rparr>))))))"

definition mem_swap ::
  "'a numpy \<Rightarrow> 'a shared_memory \<Rightarrow> int \<Rightarrow> int \<Rightarrow> string \<Rightarrow> int \<Rightarrow> indexer list list \<Rightarrow> 'a \<Rightarrow> 'a option
    \<Rightarrow> ('a \<times> 'a shared_memory) res" where
  "mem_swap np m device_id local_core_id memory_space buffer_id transforms v msk =
     rbind (rassert (case msk of None \<Rightarrow> True | Some k \<Rightarrow> np_shape np k = np_shape np v)) (\<lambda>_.
     let core_for_buffer = local_core_id_or_zero_if_hbm local_core_id memory_space;
         core = get_global_core_id m device_id local_core_id;
         key = (memory_space, buffer_id, device_id, core_for_buffer) in
     rbind (to_range transforms) (\<lambda>range_rw.
     rbind (swap_buffer_content np m key range_rw v msk core) (\<lambda>(ret, clock, m).
     case ret of
       None \<Rightarrow> Inl (ValueError ''Out-of-bounds swap'')
     | Some ret \<Rightarrow>
         if \<not> detect_races m then Inr (ret, m)
         else
           (case clock of
              None \<Rightarrow> Inl (TypeError ''NoneType'')
            | Some clock \<Rightarrow>
                rbind (check_write key
                  \<lparr>acc_device = device_id, acc_core = local_core_id, acc_clock = clock, acc_range = range_rw\<rparr> (races m))
                  (\<lambda>rs. Inr (ret, m\<lparr>races := rs\<rparr>))))))"

text \<open>
  \<^verbatim>\<open>_allocate_buffer\<close>: one buffer per core, one per device in HBM; \<^verbatim>\<open>None\<close> stands for all cores. The
  number is returned as an \<^verbatim>\<open>np.int16\<close>, which raises when it does not fit.
\<close>

definition allocate_buffers ::
  "'a shared_memory \<Rightarrow> int \<Rightarrow> int option \<Rightarrow> string \<Rightarrow> 'a \<Rightarrow> (int \<times> 'a shared_memory) res" where
  "allocate_buffers m device_id local_core_id memory_space v =
     (let cores = (case local_core_id of None \<Rightarrow> map int [0..<num_cores_per_device m] | Some c \<Rightarrow> [c]);
          first = (case local_core_id of None \<Rightarrow> 0 | Some c \<Rightarrow> c);
          (ids, m) = fold (\<lambda>lci (ids, m).
            let (buffer_id, m) = take_buffer_id m device_id lci;
                m = (if in_hbm memory_space
                     then allocate_buffer m (memory_space, buffer_id, device_id, 0) (int (num_cores_per_device m)) v
                     else allocate_buffer m (memory_space, buffer_id, device_id, lci) 1 v) in
            (ids @ [(lci, buffer_id)], m)) cores ([], m) in
      (case map_of ids first of
         None \<Rightarrow> Inl KeyError
       | Some i \<Rightarrow>
           rbind (rassert (\<forall>p \<in> set ids. snd p = i)) (\<lambda>_.
           if - (2 ^ 15) \<le> i \<and> i < 2 ^ 15 then Inr (i, m) else Inl OverflowError)))"

definition deallocate ::
  "'a numpy \<Rightarrow> 'a shared_memory \<Rightarrow> int \<Rightarrow> int \<Rightarrow> string \<Rightarrow> int \<Rightarrow> 'a shared_memory res" where
  "deallocate np m device_id local_core_id memory_space buffer_id =
     deallocate_buffer np m
       (memory_space, buffer_id, device_id, local_core_id_or_zero_if_hbm local_core_id memory_space)"

definition semaphore_signal ::
  "'a shared_memory \<Rightarrow> int \<Rightarrow> int \<Rightarrow> int \<Rightarrow> int \<Rightarrow> int option \<Rightarrow> int option \<Rightarrow> 'a shared_memory res" where
  "semaphore_signal m device_id local_core_id sem_id inc target_device_id target_local_core_id =
     (let src = get_global_core_id m device_id local_core_id;
          target_device = (case target_device_id of None \<Rightarrow> device_id | Some d \<Rightarrow> d);
          target_core = (case target_local_core_id of None \<Rightarrow> 0 | Some c \<Rightarrow> c) in
      rbind (get_semaphores_and_increment_clock m [Some sem_id] src) (\<lambda>(refs, clock, m).
      case refs of
        [Some ref] \<Rightarrow> sem_signal m ref inc (get_global_core_id m target_device target_core) clock
      | _ \<Rightarrow> Inl AssertionError))"

text \<open>\<^verbatim>\<open>semaphore_wait\<close>: \<open>None\<close> while it blocks.\<close>

definition sem_wait :: "'a shared_memory \<Rightarrow> sem_ref \<Rightarrow> int \<Rightarrow> nat \<Rightarrow> 'a shared_memory option res" where
  "sem_wait m ref v core =
     rbind (sem_try_acquire m ref v core) (\<lambda>r.
     case r of
       None \<Rightarrow> Inr None
     | Some (clock, m) \<Rightarrow> rbind (sem_wait_finish m core clock) (\<lambda>m. Inr (Some m)))"

definition semaphore_wait :: "'a shared_memory \<Rightarrow> int \<Rightarrow> int \<Rightarrow> int \<Rightarrow> int \<Rightarrow> 'a shared_memory option res" where
  "semaphore_wait m device_id local_core_id sem_id v =
     (let core = get_global_core_id m device_id local_core_id in
      rbind (get_semaphores_and_increment_clock m [Some sem_id] core) (\<lambda>(refs, clock, m).
      case refs of
        [Some ref] \<Rightarrow> sem_wait m ref v core
      | _ \<Rightarrow> Inl AssertionError))"

subsection \<open>DMAs\<close>

definition get_dma :: "'a shared_memory \<Rightarrow> int \<Rightarrow> 'a dma res" where
  "get_dma m i = (case dmas m i of None \<Rightarrow> Inl KeyError | Some d \<Rightarrow> Inr d)"

definition set_dma :: "'a shared_memory \<Rightarrow> int \<Rightarrow> 'a dma \<Rightarrow> 'a shared_memory" where
  "set_dma m i d = m\<lparr>dmas := (dmas m)(i := Some d)\<rparr>"

text \<open>The clock of a DMA counts its operations in the coordinate of its virtual device.\<close>

definition dma_tick :: "'a shared_memory \<Rightarrow> int \<Rightarrow> 'a dma \<Rightarrow> 'a dma res" where
  "dma_tick m i d =
     (if \<not> detect_races m then Inr d
      else rbind (inc_vector_clock (dma_clock d) (virtual_device_id d)) (\<lambda>c. Inr (d\<lparr>dma_clock := c\<rparr>)))"

definition the_data :: "'a dma \<Rightarrow> 'a res" where
  "the_data d = (case dma_data d of None \<Rightarrow> Inl AssertionError | Some x \<Rightarrow> Inr x)"

definition dma_execute_read :: "'a numpy \<Rightarrow> 'a shared_memory \<Rightarrow> int \<Rightarrow> 'a shared_memory res" where
  "dma_execute_read np m i =
     rbind (get_dma m i) (\<lambda>d.
     if dma_phase d \<noteq> STARTED then Inr m
     else
       rbind (dma_tick m i d) (\<lambda>d.
       rbind (mem_get np m (src_device_id d) (src_local_core_id d) (src_space d) (src_buffer_id d) (src_transforms d)
                (Some (i, 0, Some (dma_clock d)))) (\<lambda>(x, m).
       rbind (dma_tick m i (d\<lparr>dma_data := Some x\<rparr>)) (\<lambda>d.
       rbind (case src_sem d of
                None \<Rightarrow> Inr m
              | Some ref \<Rightarrow>
                  sem_signal m ref (np_nbytes np x) (get_global_core_id m (src_device_id d) (src_local_core_id d))
                    (Some (dma_clock d))) (\<lambda>m.
       Inr (set_dma m i (d\<lparr>dma_phase := READ\<rparr>)))))))"

definition dma_execute_write :: "'a numpy \<Rightarrow> 'a shared_memory \<Rightarrow> int \<Rightarrow> 'a shared_memory res" where
  "dma_execute_write np m i =
     rbind (get_dma m i) (\<lambda>d.
     rbind (rassert (dma_phase d \<noteq> STARTED)) (\<lambda>_.
     if dma_phase d = COMPLETED then Inr m
     else
       rbind (the_data d) (\<lambda>x.
       rbind (dma_tick m i d) (\<lambda>d.
       rbind (mem_store np m (dst_device_id d) (dst_local_core_id d) (dst_space d) (dst_buffer_id d) (dst_transforms d) x
                (Some (i, 0, Some (dma_clock d)))) (\<lambda>m.
       rbind (dma_tick m i d) (\<lambda>d.
       rbind (sem_signal m (dst_sem d) (np_nbytes np x) (get_global_core_id m (dst_device_id d) (dst_local_core_id d))
                (Some (dma_clock d))) (\<lambda>m.
       Inr (set_dma m i (d\<lparr>dma_data := None, dma_phase := COMPLETED\<rparr>)))))))))"

definition dma_execute_read_and_write :: "'a numpy \<Rightarrow> 'a shared_memory \<Rightarrow> int \<Rightarrow> 'a shared_memory res" where
  "dma_execute_read_and_write np m i = rbind (dma_execute_read np m i) (\<lambda>m. dma_execute_write np m i)"

fun run_task :: "'a numpy \<Rightarrow> 'a shared_memory \<Rightarrow> task \<Rightarrow> 'a shared_memory res" where
  "run_task np m (ExecuteRead i) = dma_execute_read np m i"
| "run_task np m (ExecuteReadAndWrite i) = dma_execute_read_and_write np m i"

text \<open>\<^verbatim>\<open>dma_start\<close>; \<open>vid\<close> is the virtual device that \<^verbatim>\<open>get_random_virtual_device_id\<close> returns.\<close>

definition dma_start ::
  "'a numpy \<Rightarrow> nat \<Rightarrow> 'a shared_memory \<Rightarrow> int \<Rightarrow> int \<Rightarrow> string \<Rightarrow> int \<Rightarrow> indexer list list
    \<Rightarrow> string \<Rightarrow> int \<Rightarrow> indexer list list \<Rightarrow> int \<Rightarrow> int option \<Rightarrow> int option \<Rightarrow> 'a shared_memory res" where
  "dma_start np vid m device_id local_core_id src_sp src_id src_tr dst_sp dst_id dst_tr dst_sem_id src_sem_id dst_device =
     (let src_core = get_global_core_id m device_id local_core_id;
          dst_device = (case dst_device of None \<Rightarrow> device_id | Some d \<Rightarrow> d);
          dst_core = get_global_core_id m dst_device local_core_id in
      rbind (get_semaphores_and_increment_clock m [src_sem_id, Some dst_sem_id] src_core) (\<lambda>(refs, clock, m).
      case refs of
        [src_ref, Some dst_ref] \<Rightarrow>
          let i = next_dma_id m;
              d = \<lparr>src_device_id = device_id, src_local_core_id = local_core_id, src_space = src_sp, src_buffer_id = src_id,
                   src_transforms = src_tr, dst_device_id = dst_device, dst_local_core_id = local_core_id,
                   dst_space = dst_sp, dst_buffer_id = dst_id, dst_transforms = dst_tr, src_sem = src_ref,
                   dst_sem = dst_ref, virtual_device_id = vid, dma_clock = (case clock of None \<Rightarrow> [] | Some c \<Rightarrow> c),
                   dma_phase = STARTED, dma_data = None\<rparr>;
              m = set_dma (m\<lparr>next_dma_id := i + 1\<rparr>) i d in
          if dma_execution_mode m = ''on_wait''
          then
            (case src_ref of
               None \<Rightarrow> Inr (append_semaphore_task m dst_ref dst_core (ExecuteReadAndWrite i))
             | Some r \<Rightarrow>
                 Inr (append_semaphore_task (append_semaphore_task m r src_core (ExecuteRead i))
                   dst_ref dst_core (ExecuteReadAndWrite i)))
          else
            rbind (rassert (dma_execution_mode m = ''eager'')) (\<lambda>_. dma_execute_read_and_write np m i)
      | _ \<Rightarrow> Inl AssertionError))"

text \<open>
  The loop of \<^verbatim>\<open>wait\<close> with tasks: it takes the last task of the queue and runs it until the count
  is large enough. With an empty queue it spins until another thread signals, which is \<open>None\<close>.
\<close>

fun sem_wait_tasks :: "'a numpy \<Rightarrow> nat \<Rightarrow> 'a shared_memory \<Rightarrow> sem_ref \<Rightarrow> int \<Rightarrow> nat \<Rightarrow> 'a shared_memory option res" where
  "sem_wait_tasks np fuel m ref v core =
     rbind (sem_wait m ref v core) (\<lambda>r.
     case r of
       Some m \<Rightarrow> Inr (Some m)
     | None \<Rightarrow>
         let queue = tasks_by_sem m (ref, core) in
         if queue = [] then Inr None
         else
           (case fuel of
              0 \<Rightarrow> Inr None
            | Suc fuel \<Rightarrow>
                let m = m\<lparr>tasks_by_sem := (tasks_by_sem m)((ref, core) := butlast queue)\<rparr> in
                rbind (run_task np m (last queue)) (\<lambda>m. sem_wait_tasks np fuel m ref v core)))"

declare sem_wait_tasks.simps [simp del]

text \<open>Tasks add no tasks, so the length of the queue is enough fuel.\<close>

definition dma_wait :: "'a numpy \<Rightarrow> 'a shared_memory \<Rightarrow> int \<Rightarrow> int \<Rightarrow> int \<Rightarrow> int \<Rightarrow> 'a shared_memory option res" where
  "dma_wait np m device_id local_core_id sem_id sz =
     (let core = get_global_core_id m device_id local_core_id in
      rbind (get_semaphores_and_increment_clock m [Some sem_id] core) (\<lambda>(refs, clock, m).
      case refs of
        [Some ref] \<Rightarrow> sem_wait_tasks np (length (tasks_by_sem m (ref, core))) m ref sz core
      | _ \<Rightarrow> Inl AssertionError))"

end
