(* ===== verification/HappensBefore.thy ===== *)
theory HappensBefore
  imports SharedMem
begin

text \<open>
  Threads of the TPU interpreter interleave at the lock-protected sections of \<open>SharedMem\<close>. The
  machine of this theory runs any sequence of such sections, each on clocks that earlier
  sections copied; a specification machine computes the same way the sets of events that each
  event depends on. Vector clocks are shown to order two accesses when one happens before the
  other, and for accesses by cores only then.
\<close>

subsection \<open>The machine\<close>

text \<open>
  The sections. A \<open>Tick\<close> is a core's own operation: it increments its clock and copies it; numbers
  refer to the copies made so far. \<open>StartDma\<close> gives the clock of a copy to a DMA with a virtual
  device, \<open>TickDma\<close> is an operation of a DMA.
\<close>

datatype action =
    Tick nat
  | Signal nat sem_ref nat int
  | Acquire sem_ref nat int
  | FinishWait nat nat
  | Sync nat nat
  | StartDma nat nat
  | TickDma nat
  | Check access_kind buffer_key int int "srange list" nat

text \<open>
  The state: the memory, the copies of clocks (with the event of a copy that has not been used
  for a check), the clocks of DMAs with their virtual devices, the log of events (the
  coordinate that was incremented and the clock after it) and the events of the checks.
\<close>

record 'a machine =
  shared :: "'a shared_memory"
  copies :: "(nat option \<times> vector_clock) list"
  dma_clocks :: "(nat \<times> vector_clock) list"
  event_log :: "(nat \<times> vector_clock) list"
  checked :: "(check \<times> nat) list"

definition nth_opt :: "'x list \<Rightarrow> nat \<Rightarrow> 'x option" where
  "nth_opt xs i = (if i < length xs then Some (xs ! i) else None)"

fun to_option :: "'x res \<Rightarrow> 'x option" where
  "to_option (Inl e) = None"
| "to_option (Inr x) = Some x"

fun machine_step :: "action \<Rightarrow> 'a machine \<Rightarrow> 'a machine option" where
  "machine_step (Tick core) M =
     (case to_option (tick (shared M) core) of
        Some (Some c, m) \<Rightarrow>
          Some (M\<lparr>shared := m, copies := copies M @ [(Some (length (event_log M)), c)], event_log := event_log M @ [(core, c)]\<rparr>)
      | _ \<Rightarrow> None)"
| "machine_step (Signal t ref core inc) M =
     Option.bind (nth_opt (copies M) t) (\<lambda>(_, c).
     Option.bind (to_option (sem_signal (shared M) ref inc core (Some c))) (\<lambda>m. Some (M\<lparr>shared := m\<rparr>)))"
| "machine_step (Acquire ref core v) M =
     (case to_option (sem_try_acquire (shared M) ref v core) of
        Some (Some (Some c, m)) \<Rightarrow> Some (M\<lparr>shared := m, copies := copies M @ [(None, c)]\<rparr>)
      | _ \<Rightarrow> None)"
| "machine_step (FinishWait core t) M =
     Option.bind (nth_opt (copies M) t) (\<lambda>(_, c).
     Option.bind (to_option (sem_wait_finish (shared M) core (Some c))) (\<lambda>m. Some (M\<lparr>shared := m\<rparr>)))"
| "machine_step (Sync low high) M =
     (if low < high \<and> high \<le> num_cores (shared M) then Some (M\<lparr>shared := update_clocks (shared M) low high\<rparr>) else None)"
| "machine_step (StartDma t vid) M =
     Option.bind (nth_opt (copies M) t) (\<lambda>(_, c).
     if num_cores (shared M) \<le> vid \<and> vid < vector_clock_size (shared M)
     then Some (M\<lparr>dma_clocks := dma_clocks M @ [(vid, c)]\<rparr>) else None)"
| "machine_step (TickDma d) M =
     Option.bind (nth_opt (dma_clocks M) d) (\<lambda>(vid, c).
     Option.bind (to_option (inc_vector_clock c vid)) (\<lambda>c.
     Some (M\<lparr>dma_clocks := (dma_clocks M)[d := (vid, c)],
             copies := copies M @ [(Some (length (event_log M)), c)], event_log := event_log M @ [(vid, c)]\<rparr>)))"
| "machine_step (Check kind key dev cor rnge t) M =
     (case nth_opt (copies M) t of
        Some (Some e, c) \<Rightarrow>
          let chk = (kind, key, \<lparr>acc_device = dev, acc_core = cor, acc_clock = c, acc_range = rnge\<rparr>) in
          Option.bind (to_option (perform_check chk (races (shared M)))) (\<lambda>rs.
          Some (M\<lparr>shared := (shared M)\<lparr>races := rs\<rparr>, copies := (copies M)[t := (None, c)],
                  checked := checked M @ [(chk, e)]\<rparr>))
      | _ \<Rightarrow> None)"

fun machine_run :: "action list \<Rightarrow> 'a machine \<Rightarrow> 'a machine option" where
  "machine_run [] M = Some M"
| "machine_run (s # ss) M = Option.bind (machine_step s M) (machine_run ss)"

subsection \<open>Specification: the causal past\<close>

text \<open>
  The past of a core, a semaphore count, a copy or a DMA is the set of the events it depends on,
  that of an event includes the event itself.
\<close>

record past =
  core_past :: "nat \<Rightarrow> nat set"
  sem_past :: "sem_ref \<times> nat \<Rightarrow> nat set"
  copy_past :: "nat set list"
  dma_past :: "nat set list"
  event_past :: "nat set list"

definition no_past :: past where
  "no_past = \<lparr>core_past = (\<lambda>_. {}), sem_past = (\<lambda>_. {}), copy_past = [], dma_past = [], event_past = []\<rparr>"

fun past_step :: "action \<Rightarrow> past \<Rightarrow> past" where
  "past_step (Tick core) S =
     (let P = insert (length (event_past S)) (core_past S core) in
      S\<lparr>core_past := (core_past S)(core := P), copy_past := copy_past S @ [P], event_past := event_past S @ [P]\<rparr>)"
| "past_step (Signal t ref core inc) S =
     S\<lparr>sem_past := (sem_past S)((ref, core) := sem_past S (ref, core) \<union> copy_past S ! t)\<rparr>"
| "past_step (Acquire ref core v) S = S\<lparr>copy_past := copy_past S @ [sem_past S (ref, core)]\<rparr>"
| "past_step (FinishWait core t) S = S\<lparr>core_past := (core_past S)(core := core_past S core \<union> copy_past S ! t)\<rparr>"
| "past_step (Sync low high) S =
     S\<lparr>core_past := (\<lambda>c. if low \<le> c \<and> c < high then (\<Union>d \<in> {low..<high}. core_past S d) else core_past S c)\<rparr>"
| "past_step (StartDma t vid) S = S\<lparr>dma_past := dma_past S @ [copy_past S ! t]\<rparr>"
| "past_step (TickDma d) S =
     (let P = insert (length (event_past S)) (dma_past S ! d) in
      S\<lparr>dma_past := (dma_past S)[d := P], copy_past := copy_past S @ [P], event_past := event_past S @ [P]\<rparr>)"
| "past_step (Check kind key dev cor rnge t) S = S"

definition causal_past :: "action list \<Rightarrow> past" where
  "causal_past ss = fold past_step ss no_past"

text \<open>One event happens before another: it is in its past.\<close>

definition happens_before :: "action list \<Rightarrow> nat \<Rightarrow> nat \<Rightarrow> bool" where
  "happens_before ss a b \<longleftrightarrow> a \<noteq> b \<and> a \<in> event_past (causal_past ss) ! b"

subsection \<open>Clocks and pasts\<close>

text \<open>
  \<open>good\<close>: the clock \<open>V\<close> belongs to the past \<open>P\<close>. It is above the clocks of the events in \<open>P\<close>, and in the
  coordinate of a core it is the clock of an event of that core in \<open>P\<close>.
\<close>

type_synonym history = "(nat \<times> vector_clock) list \<times> nat set list"

abbreviation ev_owner :: "history \<Rightarrow> nat \<Rightarrow> nat" where "ev_owner H e \<equiv> fst (fst H ! e)"
abbreviation ev_clock :: "history \<Rightarrow> nat \<Rightarrow> vector_clock" where "ev_clock H e \<equiv> snd (fst H ! e)"
abbreviation ev_past :: "history \<Rightarrow> nat \<Rightarrow> nat set" where "ev_past H e \<equiv> snd H ! e"
abbreviation events :: "history \<Rightarrow> nat" where "events H \<equiv> length (fst H)"

definition good :: "nat \<Rightarrow> nat \<Rightarrow> history \<Rightarrow> vector_clock \<Rightarrow> nat set \<Rightarrow> bool" where
  "good n nc H V P \<longleftrightarrow>
     length V = n \<and> P \<subseteq> {..<events H} \<and> (\<forall>e \<in> P. ev_past H e \<subseteq> P) \<and>
     (\<forall>c < n. 0 \<le> V ! c \<and> V ! c \<le> int (events H)) \<and>
     (\<forall>e \<in> P. \<forall>c < n. ev_clock H e ! c \<le> V ! c) \<and>
     (\<forall>c < nc. V ! c = 0 \<or> (\<exists>e \<in> P. ev_owner H e = c \<and> ev_clock H e ! c = V ! c))"

lemma good_zero: "nc \<le> n \<Longrightarrow> good n nc H (make_vector_clock n) {}"
  by (simp add: good_def make_vector_clock_def)

lemma good_join:
  assumes "good n nc H V1 P1" "good n nc H V2 P2" "nc \<le> n"
  shows "good n nc H (update_vector_clock V1 V2) (P1 \<union> P2)"
proof -
  let ?V = "update_vector_clock V1 V2"
  have len: "length V1 = n" "length V2 = n" using assms by (auto simp: good_def)
  then have v: "length ?V = n" "\<And>c. c < n \<Longrightarrow> ?V ! c = max (V1 ! c) (V2 ! c)"
    by (simp_all add: update_vector_clock_def)
  have "?V ! c = 0 \<or> (\<exists>e \<in> P1 \<union> P2. ev_owner H e = c \<and> ev_clock H e ! c = ?V ! c)" if "c < nc" for c
  proof -
    have "V1 ! c = 0 \<or> (\<exists>e \<in> P1. ev_owner H e = c \<and> ev_clock H e ! c = V1 ! c)"
      "V2 ! c = 0 \<or> (\<exists>e \<in> P2. ev_owner H e = c \<and> ev_clock H e ! c = V2 ! c)"
      using assms(1,2) that by (simp_all add: good_def)
    moreover have "?V ! c = V1 ! c \<or> ?V ! c = V2 ! c" using v(2) that assms(3) by auto
    ultimately show ?thesis by (metis UnI1 UnI2)
  qed
  moreover have "\<forall>e \<in> P1 \<union> P2. \<forall>c < n. ev_clock H e ! c \<le> ?V ! c"
    using assms(1,2) v(2) by (auto simp: good_def le_max_iff_disj)
  moreover have "\<forall>c < n. 0 \<le> ?V ! c \<and> ?V ! c \<le> int (events H)" using assms(1,2) v(2) by (auto simp: good_def)
  moreover have "P1 \<union> P2 \<subseteq> {..<events H} \<and> (\<forall>e \<in> P1 \<union> P2. ev_past H e \<subseteq> P1 \<union> P2)"
    using assms(1,2) by (auto simp: good_def)
  ultimately show ?thesis unfolding good_def using v(1) by blast
qed

text \<open>A new event leaves the pasts of the others alone.\<close>

definition extend :: "history \<Rightarrow> nat \<Rightarrow> vector_clock \<Rightarrow> nat set \<Rightarrow> history" where
  "extend H c V P = (fst H @ [(c, V)], snd H @ [P])"

definition history_wf :: "nat \<Rightarrow> nat \<Rightarrow> history \<Rightarrow> bool" where
  "history_wf n nc H \<longleftrightarrow> length (snd H) = events H \<and>
     (\<forall>e < events H. good n nc H (ev_clock H e) (ev_past H e) \<and> e \<in> ev_past H e \<and> ev_owner H e < n \<and>
        0 < ev_clock H e ! ev_owner H e \<and>
        (\<forall>e' \<in> ev_past H e. e' \<noteq> e \<longrightarrow> ev_clock H e' ! ev_owner H e < ev_clock H e ! ev_owner H e)) \<and>
     (\<forall>e1 e2. e1 < e2 \<longrightarrow> e2 < events H \<longrightarrow> ev_owner H e1 = ev_owner H e2 \<longrightarrow> ev_owner H e1 < nc \<longrightarrow> e1 \<in> ev_past H e2)"

lemma extend_old:
  assumes "history_wf n nc H" "e < events H"
  shows "ev_owner (extend H c V P) e = ev_owner H e" "ev_clock (extend H c V P) e = ev_clock H e"
    "ev_past (extend H c V P) e = ev_past H e"
  using assms by (simp_all add: extend_def nth_append history_wf_def)

lemma extend_new:
  assumes "history_wf n nc H"
  shows "ev_owner (extend H c V P) (events H) = c" "ev_clock (extend H c V P) (events H) = V"
    "ev_past (extend H c V P) (events H) = P" "events (extend H c V P) = Suc (events H)"
    "length (snd (extend H c V P)) = Suc (events H)"
  using assms by (simp_all add: extend_def nth_append history_wf_def)

lemma good_extend:
  assumes "history_wf n nc H" "good n nc H V P"
  shows "good n nc (extend H c V' P') V P"
proof -
  have P: "\<And>e. e \<in> P \<Longrightarrow> e < events H" using assms(2) by (auto simp: good_def)
  note old = extend_old [OF assms(1) P] and new = extend_new [OF assms(1)]
  have "\<forall>c < nc. V ! c = 0 \<or> (\<exists>e \<in> P. ev_owner (extend H c' V' P') e = c \<and> ev_clock (extend H c' V' P') e ! c = V ! c)" for c'
    using assms(2) old unfolding good_def by metis
  moreover have "\<forall>c < n. 0 \<le> V ! c \<and> V ! c \<le> int (Suc (events H))" using assms(2) by (force simp: good_def)
  ultimately show ?thesis using assms(2) old unfolding good_def new by auto
qed

lemma good_tick:
  assumes "history_wf n nc H" "good n nc H V P" "c < n" "events H < 2 ^ 31 - 1"
  defines "V' \<equiv> V[c := int32 (V ! c + 1)]" and "P' \<equiv> insert (events H) P"
  shows "good n nc (extend H c V' P') V' P'" "V' ! c = V ! c + 1"
proof -
  let ?H = "extend H c V' P'"
  have len: "length V = n" and bound: "\<forall>c < n. 0 \<le> V ! c \<and> V ! c \<le> int (events H)"
    using assms(2) by (auto simp: good_def)
  have "int32 (V ! c + 1) = V ! c + 1"
    by (rule int32_small) (use bound assms(3,4) in force)+
  then show c: "V' ! c = V ! c + 1" using len assms(3) by (simp add: V'_def)
  have other: "V' ! d = V ! d" if "d \<noteq> c" for d using that by (simp add: V'_def)
  have up: "V ! d \<le> V' ! d" for d using c other by (cases "d = c") auto
  have P: "\<And>e. e \<in> P \<Longrightarrow> e < events H" using assms(2) by (auto simp: good_def)
  note old = extend_old [OF assms(1) P] and new = extend_new [OF assms(1)]
  have "\<forall>d < nc. V' ! d = 0 \<or> (\<exists>e \<in> P'. ev_owner ?H e = d \<and> ev_clock ?H e ! d = V' ! d)"
  proof (intro allI impI)
    fix d assume d: "d < nc"
    show "V' ! d = 0 \<or> (\<exists>e \<in> P'. ev_owner ?H e = d \<and> ev_clock ?H e ! d = V' ! d)"
    proof (cases "d = c")
      case True
      then show ?thesis using new by (auto simp: P'_def)
    next
      case False
      then show ?thesis using assms(2) d old other unfolding good_def P'_def by (metis insertCI)
    qed
  qed
  moreover have "\<forall>d < n. 0 \<le> V' ! d \<and> V' ! d \<le> int (Suc (events H))"
  proof (intro allI impI)
    fix d assume d: "d < n"
    then have "0 \<le> V ! d \<and> V ! d \<le> int (events H)" using bound by blast
    then show "0 \<le> V' ! d \<and> V' ! d \<le> int (Suc (events H))" using c other [of d] by (cases "d = c") auto
  qed
  moreover have "\<forall>e \<in> P'. \<forall>d < n. ev_clock ?H e ! d \<le> V' ! d"
  proof (intro ballI allI impI)
    fix e d assume e: "e \<in> P'" and d: "d < n"
    show "ev_clock ?H e ! d \<le> V' ! d"
    proof (cases "e = events H")
      case False
      then have "ev_clock H e ! d \<le> V ! d" "e \<in> P" using assms(2) e d by (auto simp: good_def P'_def)
      then show ?thesis using up [of d] old(2) by simp
    qed (simp add: new)
  qed
  moreover have "length V' = n" using len by (simp add: V'_def)
  moreover have "P' \<subseteq> {..<Suc (events H)}" using P by (force simp: P'_def)
  moreover have "\<forall>e \<in> P'. ev_past ?H e \<subseteq> P'"
    using assms(2) old new(3) unfolding good_def P'_def by auto
  ultimately show "good n nc ?H V' P'" unfolding good_def new by blast
qed

lemma history_wf_tick:
  assumes "history_wf n nc H" "good n nc H V P" "c < n" "events H < 2 ^ 31 - 1"
    and "\<And>e. c < nc \<Longrightarrow> e < events H \<Longrightarrow> ev_owner H e = c \<Longrightarrow> e \<in> P"
  shows "history_wf n nc (extend H c (V[c := int32 (V ! c + 1)]) (insert (events H) P))"
proof -
  let ?V' = "V[c := int32 (V ! c + 1)]" and ?P' = "insert (events H) P"
  let ?H = "extend H c ?V' ?P'"
  note tick = good_tick [OF assms(1-4)]
  note old = extend_old [OF assms(1)] and new = extend_new [OF assms(1)]
  have "good n nc ?H (ev_clock ?H e) (ev_past ?H e) \<and> e \<in> ev_past ?H e \<and> ev_owner ?H e < n \<and>
      0 < ev_clock ?H e ! ev_owner ?H e \<and>
      (\<forall>e' \<in> ev_past ?H e. e' \<noteq> e \<longrightarrow> ev_clock ?H e' ! ev_owner ?H e < ev_clock ?H e ! ev_owner ?H e)" if "e < Suc (events H)" for e
  proof (cases "e = events H")
    case True
    have "ev_clock ?H e' ! c < ?V' ! c" if "e' \<in> P" for e'
    proof -
      have "e' < events H" "ev_clock H e' ! c \<le> V ! c" using assms(2,3) that by (auto simp: good_def)
      then show ?thesis using tick(2) old(2) by simp
    qed
    moreover have "0 \<le> V ! c" using assms(2,3) by (simp add: good_def)
    ultimately show ?thesis using True tick assms(3) new by auto
  next
    case False
    then have e: "e < events H" using that by simp
    then have w: "good n nc H (ev_clock H e) (ev_past H e)" "e \<in> ev_past H e" "ev_owner H e < n"
      "0 < ev_clock H e ! ev_owner H e" "\<forall>e' \<in> ev_past H e. e' \<noteq> e \<longrightarrow> ev_clock H e' ! ev_owner H e < ev_clock H e ! ev_owner H e"
      using assms(1) unfolding history_wf_def by blast+
    moreover have "\<And>e'. e' \<in> ev_past H e \<Longrightarrow> e' < events H" using w(1) by (auto simp: good_def)
    ultimately show ?thesis using good_extend [OF assms(1) w(1)] old [OF e] old by metis
  qed
  moreover have "e1 \<in> ev_past ?H e2" if "e1 < e2" "e2 < Suc (events H)" "ev_owner ?H e1 = ev_owner ?H e2" "ev_owner ?H e1 < nc" for e1 e2
  proof (cases "e2 = events H")
    case True
    then show ?thesis using that assms(5) [of e1] old(1) [of e1] new by auto
  next
    case False
    then have "e1 < events H" "e2 < events H" using that by simp_all
    then show ?thesis using that assms(1) old unfolding history_wf_def by metis
  qed
  ultimately show ?thesis unfolding history_wf_def new by simp
qed

text \<open>An event's clock is below another's exactly when it happens before; for cores both ways.\<close>

lemma past_clock_lt:
  assumes "history_wf n nc H" "b < events H" "a \<in> ev_past H b" "a \<noteq> b"
  shows "clock_lt (ev_clock H a) (ev_clock H b)"
proof -
  have b: "good n nc H (ev_clock H b) (ev_past H b)" "ev_owner H b < n"
    "ev_clock H a ! ev_owner H b < ev_clock H b ! ev_owner H b"
    using assms unfolding history_wf_def by blast+
  then have "a < events H" using assms(3) by (auto simp: good_def)
  then have "good n nc H (ev_clock H a) (ev_past H a)" using assms(1) by (simp add: history_wf_def)
  then have len: "length (ev_clock H a) = n" "length (ev_clock H b) = n" using b(1) by (simp_all add: good_def)
  have le: "\<forall>c < n. ev_clock H a ! c \<le> ev_clock H b ! c" using b(1) assms(3) by (simp add: good_def)
  show ?thesis unfolding clock_lt_def using le len b(2,3) by (force simp: set_zip)
qed

lemma clock_lt_nth: "clock_lt x y \<Longrightarrow> length x = length y \<Longrightarrow> c < length x \<Longrightarrow> x ! c \<le> y ! c"
proof -
  assume "clock_lt x y" "length x = length y" "c < length x"
  moreover from this have "(x ! c, y ! c) \<in> set (zip x y)" by (auto simp: set_zip)
  ultimately show ?thesis by (auto simp: clock_lt_def)
qed

lemma clock_lt_past:
  assumes "history_wf n nc H" "nc \<le> n" "a < events H" "b < events H" "ev_owner H a < nc"
    and "clock_lt (ev_clock H a) (ev_clock H b)"
  shows "a \<in> ev_past H b"
proof -
  let ?c = "ev_owner H a"
  have wf: "good n nc H (ev_clock H e) (ev_past H e)" if "e < events H" for e
    using assms(1) that by (simp add: history_wf_def)
  have len: "length (ev_clock H a) = n" "length (ev_clock H b) = n" using wf assms(3,4) by (simp_all add: good_def)
  have prog: "\<And>e1 e2. e1 < e2 \<Longrightarrow> e2 < events H \<Longrightarrow> ev_owner H e1 = ev_owner H e2 \<Longrightarrow> ev_owner H e1 < nc \<Longrightarrow> e1 \<in> ev_past H e2"
    using assms(1) unfolding history_wf_def by blast
  have le: "ev_clock H a ! ?c \<le> ev_clock H b ! ?c"
    using clock_lt_nth [OF assms(6)] len assms(2,5) by simp
  moreover have "0 < ev_clock H a ! ?c" using assms(1,3) by (simp add: history_wf_def)
  ultimately have "ev_clock H b ! ?c \<noteq> 0" by linarith
  then obtain e where e: "e \<in> ev_past H b" "ev_owner H e = ?c" "ev_clock H e ! ?c = ev_clock H b ! ?c"
    using wf [OF assms(4)] assms(5) unfolding good_def by blast
  have sub: "ev_past H b \<subseteq> {..<events H}" "\<forall>e \<in> ev_past H b. ev_past H e \<subseteq> ev_past H b"
    using wf [OF assms(4)] by (simp_all add: good_def)
  have eb: "e < events H" using subsetD [OF sub(1) e(1)] by simp
  have closed: "ev_past H e \<subseteq> ev_past H b" using bspec [OF sub(2) e(1)] .
  consider "e < a" | "e = a" | "a < e" by linarith
  then show ?thesis
  proof cases
    case 1
    then have "e \<in> ev_past H a" using prog [of e a] assms(3,5) e(2) by simp
    moreover have "\<forall>e' \<in> ev_past H a. e' \<noteq> a \<longrightarrow> ev_clock H e' ! ?c < ev_clock H a ! ?c"
      using assms(1,3) by (simp add: history_wf_def)
    ultimately have "ev_clock H e ! ?c < ev_clock H a ! ?c" using 1 by auto
    then show ?thesis using e(3) le by simp
  next
    case 2
    then show ?thesis using e(1) by simp
  next
    case 3
    then have "a \<in> ev_past H e" using prog [of a e] assms(5) e(2) eb by simp
    then show ?thesis using closed by blast
  qed
qed

subsection \<open>The invariant of the machine\<close>

abbreviation history_of :: "'a machine \<Rightarrow> past \<Rightarrow> history" where
  "history_of M S \<equiv> (event_log M, event_past S)"

definition sems_match :: "nat \<Rightarrow> nat \<Rightarrow> history \<Rightarrow> 'a shared_memory \<Rightarrow> past \<Rightarrow> bool" where
  "sems_match n nc H m S \<longleftrightarrow> (\<forall>ref s. get_sem m ref = Inr s \<longrightarrow>
     length (count_by_core s) = nc \<and> length (sem_clocks s) = nc \<and>
     (\<forall>c < nc. case sem_clocks s ! c of None \<Rightarrow> sem_past S (ref, c) = {} | Some V \<Rightarrow> good n nc H V (sem_past S (ref, c))))"

definition cores_match :: "nat \<Rightarrow> nat \<Rightarrow> history \<Rightarrow> 'a shared_memory \<Rightarrow> past \<Rightarrow> bool" where
  "cores_match n nc H m S \<longleftrightarrow> length (clocks m) = nc \<and>
     (\<forall>c < nc. good n nc H (clocks m ! c) (core_past S c)) \<and>
     (\<forall>e < events H. ev_owner H e < nc \<longrightarrow> e \<in> core_past S (ev_owner H e))"

definition copies_match :: "nat \<Rightarrow> nat \<Rightarrow> history \<Rightarrow> (nat option \<times> vector_clock) list \<Rightarrow> past \<Rightarrow> bool" where
  "copies_match n nc H cps S \<longleftrightarrow> length cps = length (copy_past S) \<and>
     (\<forall>t < length cps. good n nc H (snd (cps ! t)) (copy_past S ! t) \<and>
        (case fst (cps ! t) of None \<Rightarrow> True | Some e \<Rightarrow> e < events H \<and> snd (cps ! t) = ev_clock H e))"

definition dmas_match :: "nat \<Rightarrow> nat \<Rightarrow> history \<Rightarrow> (nat \<times> vector_clock) list \<Rightarrow> past \<Rightarrow> bool" where
  "dmas_match n nc H ds S \<longleftrightarrow> length ds = length (dma_past S) \<and>
     (\<forall>d < length ds. nc \<le> fst (ds ! d) \<and> fst (ds ! d) < n \<and> good n nc H (snd (ds ! d)) (dma_past S ! d))"

text \<open>Every event is checked at most once: by an unused copy, or by a check already made.\<close>

definition unused :: "(nat option \<times> vector_clock) list \<Rightarrow> nat list" where
  "unused cps = List.map_filter fst cps"

definition checks_match :: "history \<Rightarrow> 'a machine \<Rightarrow> bool" where
  "checks_match H M \<longleftrightarrow>
     distinct (unused (copies M) @ map snd (checked M)) \<and>
     (\<forall>((k, key, a), e) \<in> set (checked M). e < events H \<and> acc_clock a = ev_clock H e) \<and>
     rfold perform_check (map fst (checked M)) initial_races = Inr (races (shared M))"

lemma checks_match_parts:
  assumes "checks_match H M"
  shows "distinct (unused (copies M) @ map snd (checked M))"
    "\<forall>((k, key, a), e) \<in> set (checked M). e < events H \<and> acc_clock a = ev_clock H e"
    "rfold perform_check (map fst (checked M)) initial_races = Inr (races (shared M))"
  by (rule conjunct1 [OF assms [unfolded checks_match_def]] conjunct1 [OF conjunct2 [OF assms [unfolded checks_match_def]]]
    conjunct2 [OF conjunct2 [OF assms [unfolded checks_match_def]]])+

definition machine_inv :: "nat \<Rightarrow> nat \<Rightarrow> 'a machine \<Rightarrow> past \<Rightarrow> bool" where
  "machine_inv n nc M S \<longleftrightarrow>
     nc \<le> n \<and> detect_races (shared M) \<and> num_cores (shared M) = nc \<and> vector_clock_size (shared M) = n \<and>
     history_wf n nc (history_of M S) \<and> cores_match n nc (history_of M S) (shared M) S \<and>
     sems_match n nc (history_of M S) (shared M) S \<and> copies_match n nc (history_of M S) (copies M) S \<and>
     dmas_match n nc (history_of M S) (dma_clocks M) S \<and> checks_match (history_of M S) M"

text \<open>A memory in which nothing has happened yet; semaphores may have been allocated.\<close>

definition fresh_memory :: "nat \<Rightarrow> 'a shared_memory \<Rightarrow> bool" where
  "fresh_memory n m \<longleftrightarrow> detect_races m \<and> vector_clock_size m = n \<and> num_cores m \<le> n \<and>
     clocks m = replicate (num_cores m) (make_vector_clock n) \<and> races m = initial_races \<and>
     (\<forall>ref s. get_sem m ref = Inr s \<longrightarrow> s = new_semaphore m)"

definition start_machine :: "'a shared_memory \<Rightarrow> 'a machine" where
  "start_machine m = \<lparr>shared = m, copies = [], dma_clocks = [], event_log = [], checked = []\<rparr>"

lemma start_inv:
  assumes "fresh_memory n m"
  shows "machine_inv n (num_cores m) (start_machine m) no_past"
proof -
  have "sems_match n (num_cores m) ([], []) m no_past"
    unfolding sems_match_def
  proof (intro allI impI)
    fix ref s assume "get_sem m ref = Inr s"
    then have "s = new_semaphore m" using assms by (simp add: fresh_memory_def)
    then show "length (count_by_core s) = num_cores m \<and> length (sem_clocks s) = num_cores m \<and>
        (\<forall>c < num_cores m. case sem_clocks s ! c of None \<Rightarrow> sem_past no_past (ref, c) = {}
          | Some V \<Rightarrow> good n (num_cores m) ([], []) V (sem_past no_past (ref, c)))"
      by (simp add: new_semaphore_def no_past_def)
  qed
  then show ?thesis using assms good_zero [of "num_cores m" n "([], [])"]
    by (auto simp: machine_inv_def start_machine_def no_past_def history_wf_def cores_match_def copies_match_def
        dmas_match_def checks_match_def unused_def fresh_memory_def)
qed

text \<open>What a new event does to the parts of the invariant.\<close>

lemma sems_match_extend:
  assumes "history_wf n nc H" "sems_match n nc H m S"
  shows "sems_match n nc (extend H c V P) m S"
  unfolding sems_match_def
proof (intro allI impI)
  fix ref s assume "get_sem m ref = Inr s"
  with assms(2) have s: "length (count_by_core s) = nc" "length (sem_clocks s) = nc"
    "\<forall>c < nc. case sem_clocks s ! c of None \<Rightarrow> sem_past S (ref, c) = {} | Some V \<Rightarrow> good n nc H V (sem_past S (ref, c))"
    by (simp_all add: sems_match_def)
  then show "length (count_by_core s) = nc \<and> length (sem_clocks s) = nc \<and>
      (\<forall>d < nc. case sem_clocks s ! d of None \<Rightarrow> sem_past S (ref, d) = {}
        | Some V' \<Rightarrow> good n nc (extend H c V P) V' (sem_past S (ref, d)))"
  proof (intro conjI allI impI)
    fix d assume "d < nc"
    with s(3) show "case sem_clocks s ! d of None \<Rightarrow> sem_past S (ref, d) = {}
        | Some V' \<Rightarrow> good n nc (extend H c V P) V' (sem_past S (ref, d))"
      using good_extend [OF assms(1)] by (cases "sem_clocks s ! d") fastforce+
  qed
qed

lemma copies_match_extend:
  assumes "history_wf n nc H" "copies_match n nc H cps S"
  shows "copies_match n nc (extend H c V P) cps S"
  unfolding copies_match_def
proof (intro conjI allI impI)
  fix t assume t: "t < length cps"
  then have g: "good n nc H (snd (cps ! t)) (copy_past S ! t)"
    "case fst (cps ! t) of None \<Rightarrow> True | Some e \<Rightarrow> e < events H \<and> snd (cps ! t) = ev_clock H e"
    using assms(2) by (simp_all add: copies_match_def)
  show "good n nc (extend H c V P) (snd (cps ! t)) (copy_past S ! t)" by (rule good_extend [OF assms(1) g(1)])
  show "case fst (cps ! t) of None \<Rightarrow> True
      | Some e \<Rightarrow> e < events (extend H c V P) \<and> snd (cps ! t) = ev_clock (extend H c V P) e"
    using g(2) extend_old(2) [OF assms(1)] extend_new(4) [OF assms(1)] by (auto split: option.splits)
qed (use assms(2) in \<open>simp add: copies_match_def\<close>)

lemma dmas_match_extend:
  assumes "history_wf n nc H" "dmas_match n nc H ds S"
  shows "dmas_match n nc (extend H c V P) ds S"
  using assms(2) good_extend [OF assms(1)] by (simp add: dmas_match_def)

lemma checks_match_extend:
  assumes "history_wf n nc H" "checks_match H M"
  shows "\<forall>((k, key, a), e) \<in> set (checked M). e < events (extend H c V P) \<and> acc_clock a = ev_clock (extend H c V P) e"
proof -
  have "case x of ((k, key, a), e) \<Rightarrow> e < events (extend H c V P) \<and> acc_clock a = ev_clock (extend H c V P) e"
    if "x \<in> set (checked M)" for x
    using assms(2) that extend_old(2) [OF assms(1)] extend_new(4) [OF assms(1)]
    by (auto simp: checks_match_def)
  then show ?thesis by blast
qed

lemma unused_append: "unused (cps @ [(eo, c)]) = unused cps @ (case eo of None \<Rightarrow> [] | Some e \<Rightarrow> [e])"
  by (simp add: unused_def List.map_filter_def split: option.splits)

lemma set_unused: "e \<in> set (unused cps) \<longleftrightarrow> (\<exists>t < length cps. fst (cps ! t) = Some e)"
  unfolding unused_def List.map_filter_def by (force simp: in_set_conv_nth)

lemma unused_use: "t < length cps \<Longrightarrow> fst (cps ! t) = Some e \<Longrightarrow> mset (unused cps) = add_mset e (mset (unused (cps[t := (None, c)])))"
proof (induction cps arbitrary: t)
  case (Cons x cps)
  then show ?case by (cases t) (auto simp: unused_def split: option.splits)
qed simp

lemma copies_match_snoc:
  assumes "copies_match n nc H cps S" "good n nc H V P" "copy_past S' = copy_past S @ [P]"
    and "case eo of None \<Rightarrow> True | Some e \<Rightarrow> e < events H \<and> V = ev_clock H e"
  shows "copies_match n nc H (cps @ [(eo, V)]) S'"
  unfolding copies_match_def
proof (intro conjI allI impI)
  fix t assume "t < length (cps @ [(eo, V)])"
  then consider "t < length cps" | "t = length cps" by fastforce
  then have "good n nc H (snd ((cps @ [(eo, V)]) ! t)) (copy_past S' ! t) \<and>
    (case fst ((cps @ [(eo, V)]) ! t) of None \<Rightarrow> True | Some e \<Rightarrow> e < events H \<and> snd ((cps @ [(eo, V)]) ! t) = ev_clock H e)"
  proof cases
    case 1
    then have e: "(cps @ [(eo, V)]) ! t = cps ! t" "copy_past S' ! t = copy_past S ! t"
      using assms(1,3) by (simp_all add: nth_append copies_match_def)
    show ?thesis unfolding e using 1 assms(1) by (simp add: copies_match_def)
  next
    case 2
    then have e: "(cps @ [(eo, V)]) ! t = (eo, V)" "copy_past S' ! t = P"
      using assms(1,3) by (simp_all add: nth_append copies_match_def)
    show ?thesis unfolding e fst_conv snd_conv using assms(2,4) by simp
  qed
  then show "good n nc H (snd ((cps @ [(eo, V)]) ! t)) (copy_past S' ! t)"
    "case fst ((cps @ [(eo, V)]) ! t) of None \<Rightarrow> True | Some e \<Rightarrow> e < events H \<and> snd ((cps @ [(eo, V)]) ! t) = ev_clock H e"
    by blast+
qed (use assms(1,3) in \<open>simp add: copies_match_def\<close>)

lemma copies_match_good:
  assumes "copies_match n nc H cps S" "nth_opt cps t = Some (eo, V)"
  shows "good n nc H V (copy_past S ! t)" "eo = Some e \<Longrightarrow> e < events H \<and> V = ev_clock H e"
  using assms by (auto simp: copies_match_def nth_opt_def split: if_splits)

subsection \<open>Every step keeps the invariant\<close>

lemma machine_inv_parts:
  assumes "machine_inv n nc M S"
  shows "nc \<le> n" "detect_races (shared M)" "num_cores (shared M) = nc" "vector_clock_size (shared M) = n"
    "history_wf n nc (history_of M S)" "cores_match n nc (history_of M S) (shared M) S"
    "sems_match n nc (history_of M S) (shared M) S" "copies_match n nc (history_of M S) (copies M) S"
    "dmas_match n nc (history_of M S) (dma_clocks M) S" "checks_match (history_of M S) M"
  using assms by (simp_all add: machine_inv_def)

lemma to_option_Some: "to_option x = Some y \<longleftrightarrow> x = Inr y"
  by (cases x) auto

text \<open>The common part of the two steps that make an event.\<close>

lemma event_copies:
  assumes "machine_inv n nc M S" "good n nc (history_of M S) V P" "c < n" "events (history_of M S) < 2 ^ 31 - 1"
    and "\<And>e. c < nc \<Longrightarrow> e < events (history_of M S) \<Longrightarrow> ev_owner (history_of M S) e = c \<Longrightarrow> e \<in> P"
    and "V' = V[c := int32 (V ! c + 1)]" "P' = insert (events (history_of M S)) P"
    and "event_log M' = event_log M @ [(c, V')]" "event_past S' = event_past S @ [P']"
    and "copies M' = copies M @ [(Some (length (event_log M)), V')]" "copy_past S' = copy_past S @ [P']"
    and "checked M' = checked M" "races (shared M') = races (shared M)"
  shows "history_of M' S' = extend (history_of M S) c V' P'" "history_wf n nc (history_of M' S')"
    "good n nc (history_of M' S') V' P'" "copies_match n nc (history_of M' S') (copies M') S'"
    "checks_match (history_of M' S') M'" "events (history_of M S) = length (event_past S)"
proof -
  note inv = machine_inv_parts [OF assms(1)]
  let ?H = "history_of M S"
  show H: "history_of M' S' = extend ?H c V' P'" by (simp add: extend_def assms(8,9))
  show "history_wf n nc (history_of M' S')"
    unfolding H assms(6,7) by (rule history_wf_tick [OF inv(5) assms(2-4)]) (rule assms(5))
  show g: "good n nc (history_of M' S') V' P'"
    unfolding H assms(6,7) by (rule good_tick(1) [OF inv(5) assms(2-4)])
  note new = extend_new [OF inv(5), of c V' P']
  have "copies_match n nc (history_of M' S') (copies M) S"
    unfolding H by (rule copies_match_extend [OF inv(5,8)])
  then show "copies_match n nc (history_of M' S') (copies M') S'"
    unfolding assms(10) by (rule copies_match_snoc [OF _ g assms(11)]) (use H new in simp)
  have fresh: "e < events ?H" if "e \<in> set (unused (copies M)) \<or> e \<in> snd ` set (checked M)" for e
    using that inv(8,10) unfolding set_unused copies_match_def checks_match_def
    by (auto split: option.splits)
  have "distinct (unused (copies M') @ map snd (checked M'))"
    using inv(10) fresh unfolding assms(10,12) unused_append checks_match_def by fastforce
  then show "checks_match (history_of M' S') M'"
    using inv(10) checks_match_extend [OF inv(5,10), of c V' P'] unfolding H checks_match_def assms(12,13) by simp
  show "events ?H = length (event_past S)" using inv(5) by (simp add: history_wf_def)
qed

lemma get_sem_clocks [simp]: "get_sem (m\<lparr>clocks := cs\<rparr>) ref = get_sem m ref" "get_sem (m\<lparr>races := rs\<rparr>) ref = get_sem m ref"
  by (cases ref; simp)+

lemma get_set_sem:
  "get_sem (set_sem m ref s) ref' = (if ref' = ref then Inr s else get_sem m ref')"
  by (cases ref; cases ref') simp_all

lemma set_sem_fields [simp]:
  "detect_races (set_sem m ref s) = detect_races m" "num_cores (set_sem m ref s) = num_cores m"
  "vector_clock_size (set_sem m ref s) = vector_clock_size m" "clocks (set_sem m ref s) = clocks m"
  "races (set_sem m ref s) = races m"
  by (cases ref; simp add: num_cores_def)+

lemma num_cores_fields [simp]: "num_cores (m\<lparr>clocks := cs\<rparr>) = num_cores m" "num_cores (m\<lparr>races := rs\<rparr>) = num_cores m"
  by (simp_all add: num_cores_def)

lemma sems_match_cong:
  assumes "sems_match n nc H m S" "\<And>ref. get_sem m' ref = get_sem m ref" "sem_past S' = sem_past S"
  shows "sems_match n nc H m' S'"
  using assms(1) unfolding sems_match_def assms(2,3) .

lemma dmas_match_cong: "dmas_match n nc H ds S \<Longrightarrow> dma_past S' = dma_past S \<Longrightarrow> dmas_match n nc H ds S'"
  by (simp add: dmas_match_def)

lemma copies_match_cong: "copies_match n nc H cps S \<Longrightarrow> copy_past S' = copy_past S \<Longrightarrow> copies_match n nc H cps S'"
  by (simp add: copies_match_def)

lemma cores_match_cong:
  "cores_match n nc H m S \<Longrightarrow> clocks m' = clocks m \<Longrightarrow> core_past S' = core_past S \<Longrightarrow> cores_match n nc H m' S'"
  by (simp add: cores_match_def)

lemma checks_match_cong:
  "checks_match H M \<Longrightarrow> unused (copies M') = unused (copies M) \<Longrightarrow> checked M' = checked M \<Longrightarrow>
     races (shared M') = races (shared M) \<Longrightarrow> checks_match H M'"
  by (simp add: checks_match_def)

lemma tick_step:
  assumes "machine_inv n nc M S" "machine_step (Tick core) M = Some M'" "length (event_log M) < 2 ^ 31 - 1"
  shows "machine_inv n nc M' (past_step (Tick core) S)"
proof -
  note inv = machine_inv_parts [OF assms(1)]
  let ?H = "history_of M S" and ?S = "past_step (Tick core) S"
  from assms(2) inv(2) obtain c where c: "core < length (clocks (shared M))"
    "inc_vector_clock (clocks (shared M) ! core) core = Inr c"
    "M' = M\<lparr>shared := (shared M)\<lparr>clocks := (clocks (shared M))[core := c]\<rparr>,
      copies := copies M @ [(Some (length (event_log M)), c)], event_log := event_log M @ [(core, c)]\<rparr>"
    by (auto simp: tick_def to_option_Some res_simps split: option.splits if_splits)
  have core: "core < nc" and len: "length (clocks (shared M)) = nc" using c(1) inv(6) by (simp_all add: cores_match_def)
  then have cn: "core < n" using inv(1) by simp
  have g: "good n nc ?H (clocks (shared M) ! core) (core_past S core)" using inv(6) core by (simp add: cores_match_def)
  have cv: "c = (clocks (shared M) ! core)[core := int32 (clocks (shared M) ! core ! core + 1)]"
    using c(2) by (simp add: inc_vector_clock_def split: if_splits)
  let ?P = "insert (length (event_log M)) (core_past S core)"
  have own: "e \<in> core_past S core" if "e < events ?H" "ev_owner ?H e = core" for e
    using inv(6) core that by (auto simp: cores_match_def)
  have ev: "length (event_past S) = length (event_log M)" using inv(5) by (simp add: history_wf_def)
  note e = event_copies [OF assms(1) g cn _ own cv, of ?P M' ?S]
  have H: "history_of M' ?S = extend ?H core c ?P" "history_wf n nc (history_of M' ?S)"
    "good n nc (history_of M' ?S) c ?P" "copies_match n nc (history_of M' ?S) (copies M') ?S"
    "checks_match (history_of M' ?S) M'"
    using e assms(3) c(3) ev by (simp_all add: Let_def)
  have "cores_match n nc (history_of M' ?S) (shared M') ?S"
    unfolding cores_match_def
  proof (intro conjI allI impI)
    fix d assume d: "d < nc"
    show "good n nc (history_of M' ?S) (clocks (shared M') ! d) (core_past ?S d)"
    proof (cases "d = core")
      case True
      then show ?thesis using H(3) c(3) len d ev by (simp add: Let_def)
    next
      case False
      have "good n nc ?H (clocks (shared M) ! d) (core_past S d)" using inv(6) d by (simp add: cores_match_def)
      then show ?thesis using good_extend [OF inv(5)] False c(3) unfolding H(1) by (simp add: Let_def)
    qed
  next
    fix e assume e: "e < events (history_of M' ?S)" "ev_owner (history_of M' ?S) e < nc"
    show "e \<in> core_past ?S (ev_owner (history_of M' ?S) e)"
    proof (cases "e = length (event_log M)")
      case True
      then show ?thesis using c(3) ev by (simp add: Let_def)
    next
      case False
      then have "e < events ?H" using e(1) c(3) by simp
      then show ?thesis using inv(6) e(2) c(3) by (auto simp: cores_match_def Let_def nth_append)
    qed
  qed (use len c(3) in simp)
  moreover have "sems_match n nc (history_of M' ?S) (shared M') ?S"
    unfolding H(1) by (rule sems_match_cong [OF sems_match_extend [OF inv(5,7)]]) (simp_all add: c(3) Let_def)
  moreover have ds: "dma_clocks M' = dma_clocks M" by (simp add: c(3))
  have "dmas_match n nc (history_of M' ?S) (dma_clocks M') ?S"
    unfolding H(1) ds by (rule dmas_match_cong [OF dmas_match_extend [OF inv(5,9)]]) (simp add: Let_def)
  ultimately show ?thesis unfolding machine_inv_def using inv(1-4) H c(3) by simp
qed

lemma sems_match_set:
  assumes "sems_match n nc H m S" "get_sem m ref = Inr s" "length (count_by_core s') = nc" "core < nc"
    and "sem_clocks s' = (sem_clocks s)[core := co]"
    and "case co of None \<Rightarrow> sem_past S' (ref, core) = {} | Some V \<Rightarrow> good n nc H V (sem_past S' (ref, core))"
    and "\<And>p. p \<noteq> (ref, core) \<Longrightarrow> sem_past S' p = sem_past S p"
  shows "sems_match n nc H (set_sem m ref s') S'"
  unfolding sems_match_def
proof (intro allI impI)
  fix ref2 s2 assume s2: "get_sem (set_sem m ref s') ref2 = Inr s2"
  show "length (count_by_core s2) = nc \<and> length (sem_clocks s2) = nc \<and>
      (\<forall>c < nc. case sem_clocks s2 ! c of None \<Rightarrow> sem_past S' (ref2, c) = {}
        | Some V \<Rightarrow> good n nc H V (sem_past S' (ref2, c)))"
  proof (cases "ref2 = ref")
    case True
    with s2 have s2': "s2 = s'" by (simp add: get_set_sem)
    have old: "length (sem_clocks s) = nc"
      "\<And>c. c < nc \<Longrightarrow> case sem_clocks s ! c of None \<Rightarrow> sem_past S (ref, c) = {} | Some V \<Rightarrow> good n nc H V (sem_past S (ref, c))"
      using assms(1,2) by (simp_all add: sems_match_def)
    have "case sem_clocks s' ! c of None \<Rightarrow> sem_past S' (ref, c) = {} | Some V \<Rightarrow> good n nc H V (sem_past S' (ref, c))"
      if "c < nc" for c
    proof (cases "c = core")
      case True
      have e: "sem_clocks s' ! c = co" using assms(5) old(1) that True by simp
      show ?thesis unfolding e unfolding True by (rule assms(6))
    next
      case False
      have e: "sem_clocks s' ! c = sem_clocks s ! c" using assms(5) False by simp
      have e': "sem_past S' (ref, c) = sem_past S (ref, c)" by (rule assms(7)) (simp add: False)
      show ?thesis unfolding e e' by (rule old(2) [OF that])
    qed
    then show ?thesis unfolding s2' True using assms(3,5) old(1) by simp
  next
    case False
    then have e: "get_sem m ref2 = Inr s2" using s2 by (simp add: get_set_sem)
    have e': "sem_past S' (ref2, c) = sem_past S (ref2, c)" for c by (rule assms(7)) (simp add: False)
    show ?thesis unfolding e' using assms(1) e by (simp add: sems_match_def)
  qed
qed

lemma sem_signal_result:
  assumes "sem_signal m ref inc core (Some c) = Inr m'" "detect_races m"
  obtains s where "get_sem m ref = Inr s" "core < length (count_by_core s)"
    "m' = set_sem m ref (s\<lparr>count_by_core := (count_by_core s)[core := int32 (count_by_core s ! core + inc)],
      sem_clocks := (sem_clocks s)[core := Some (case sem_clocks s ! core of None \<Rightarrow> c | Some g \<Rightarrow> update_vector_clock g c)]\<rparr>)"
  using assms by (auto simp: sem_signal_def Let_def res_simps split: option.splits if_splits)

lemma sem_try_acquire_result:
  assumes "sem_try_acquire m ref v core = Inr (Some (Some c, m'))"
  obtains s where "get_sem m ref = Inr s" "core < length (count_by_core s)" "sem_clocks s ! core = Some c"
    "m' = set_sem m ref (s\<lparr>count_by_core := (count_by_core s)[core := int32 (count_by_core s ! core - v)]\<rparr>)"
  using assms by (auto simp: sem_try_acquire_def Let_def res_simps split: option.splits if_splits)

lemma signal_step:
  assumes "machine_inv n nc M S" "machine_step (Signal t ref core inc) M = Some M'"
  shows "machine_inv n nc M' (past_step (Signal t ref core inc) S)"
proof -
  note inv = machine_inv_parts [OF assms(1)]
  let ?H = "history_of M S" and ?S = "past_step (Signal t ref core inc) S"
  from assms(2) obtain eo c m where c: "nth_opt (copies M) t = Some (eo, c)"
    "sem_signal (shared M) ref inc core (Some c) = Inr m" "M' = M\<lparr>shared := m\<rparr>"
    by (auto simp: bind_eq_Some_conv to_option_Some)
  from sem_signal_result [OF c(2) inv(2)] obtain s where s: "get_sem (shared M) ref = Inr s" "core < length (count_by_core s)"
    "m = set_sem (shared M) ref (s\<lparr>count_by_core := (count_by_core s)[core := int32 (count_by_core s ! core + inc)],
      sem_clocks := (sem_clocks s)[core := Some (case sem_clocks s ! core of None \<Rightarrow> c | Some g \<Rightarrow> update_vector_clock g c)]\<rparr>)" .
  have old: "length (count_by_core s) = nc"
    "\<And>c. c < nc \<Longrightarrow> case sem_clocks s ! c of None \<Rightarrow> sem_past S (ref, c) = {} | Some V \<Rightarrow> good n nc ?H V (sem_past S (ref, c))"
    using inv(7) s(1) by (simp_all add: sems_match_def)
  have core: "core < nc" using old(1) s(2) by simp
  have g: "good n nc ?H c (copy_past S ! t)" by (rule copies_match_good(1) [OF inv(8) c(1)])
  let ?V = "case sem_clocks s ! core of None \<Rightarrow> c | Some g \<Rightarrow> update_vector_clock g c"
  have V: "good n nc ?H ?V (sem_past S (ref, core) \<union> copy_past S ! t)"
  proof (cases "sem_clocks s ! core")
    case None
    then show ?thesis using old(2) [OF core] g by simp
  next
    case (Some V)
    then have "good n nc ?H V (sem_past S (ref, core))" using old(2) [OF core] by simp
    then show ?thesis using good_join [OF _ g inv(1)] Some by simp
  qed
  have "sems_match n nc ?H m ?S" unfolding s(3)
    by (rule sems_match_set [OF inv(7) s(1) _ core, where co = "Some ?V"]) (use V old(1) in simp_all)
  then show ?thesis
    using inv cores_match_cong [OF inv(6), of m ?S] copies_match_cong [OF inv(8), of ?S] dmas_match_cong [OF inv(9), of ?S]
      checks_match_cong [OF inv(10), of M'] s(3) unfolding machine_inv_def c(3) by simp
qed

lemma acquire_step:
  assumes "machine_inv n nc M S" "machine_step (Acquire ref core v) M = Some M'"
  shows "machine_inv n nc M' (past_step (Acquire ref core v) S)"
proof -
  note inv = machine_inv_parts [OF assms(1)]
  let ?H = "history_of M S" and ?S = "past_step (Acquire ref core v) S"
  from assms(2) obtain c m where c: "sem_try_acquire (shared M) ref v core = Inr (Some (Some c, m))"
    "M' = M\<lparr>shared := m, copies := copies M @ [(None, c)]\<rparr>"
    by (auto simp: to_option_Some split: option.splits)
  from sem_try_acquire_result [OF c(1)] obtain s where s: "get_sem (shared M) ref = Inr s" "core < length (count_by_core s)"
    "sem_clocks s ! core = Some c"
    "m = set_sem (shared M) ref (s\<lparr>count_by_core := (count_by_core s)[core := int32 (count_by_core s ! core - v)]\<rparr>)" .
  have old: "length (count_by_core s) = nc"
    "\<And>c. c < nc \<Longrightarrow> case sem_clocks s ! c of None \<Rightarrow> sem_past S (ref, c) = {} | Some V \<Rightarrow> good n nc ?H V (sem_past S (ref, c))"
    using inv(7) s(1) by (simp_all add: sems_match_def)
  have core: "core < nc" using old(1) s(2) by simp
  have g: "good n nc ?H c (sem_past S (ref, core))" using old(2) [OF core] s(3) by simp
  have "sems_match n nc ?H m ?S" unfolding s(4)
    by (rule sems_match_set [OF inv(7) s(1) _ core, where co = "Some c"])
      (use g old(1) list_update_id [of "sem_clocks s" core] s(3) in simp_all)
  moreover have "copies_match n nc ?H (copies M @ [(None, c)]) ?S"
    by (rule copies_match_snoc [OF inv(8) g]) simp_all
  ultimately show ?thesis
    using inv cores_match_cong [OF inv(6), of m ?S] dmas_match_cong [OF inv(9), of ?S]
      checks_match_cong [OF inv(10), of M'] s(4) unfolding machine_inv_def c(2) by (simp add: unused_append)
qed

lemma finish_wait_step:
  assumes "machine_inv n nc M S" "machine_step (FinishWait core t) M = Some M'"
  shows "machine_inv n nc M' (past_step (FinishWait core t) S)"
proof -
  note inv = machine_inv_parts [OF assms(1)]
  let ?H = "history_of M S" and ?S = "past_step (FinishWait core t) S"
  let ?cs = "clocks (shared M)"
  from assms(2) obtain eo c where c: "nth_opt (copies M) t = Some (eo, c)" "core < length ?cs"
    "M' = M\<lparr>shared := (shared M)\<lparr>clocks := ?cs[core := update_vector_clock (?cs ! core) c]\<rparr>\<rparr>"
    by (auto simp: bind_eq_Some_conv to_option_Some sem_wait_finish_def split: if_splits)
  have old: "length ?cs = nc" "\<And>d. d < nc \<Longrightarrow> good n nc ?H (?cs ! d) (core_past S d)"
    "\<And>e. e < events ?H \<Longrightarrow> ev_owner ?H e < nc \<Longrightarrow> e \<in> core_past S (ev_owner ?H e)"
    using inv(6) by (simp_all add: cores_match_def)
  have g: "good n nc ?H c (copy_past S ! t)" by (rule copies_match_good(1) [OF inv(8) c(1)])
  have "good n nc ?H (?cs[core := update_vector_clock (?cs ! core) c] ! d) (core_past ?S d)" if "d < nc" for d
    using good_join [OF old(2) [OF that] g inv(1)] old(2) [OF that] old(1) that by (cases "d = core") simp_all
  then have "cores_match n nc ?H (shared M') ?S"
    unfolding cores_match_def using old(1) by (auto simp: c(3) intro: old(3) [simplified])
  then show ?thesis
    using inv copies_match_cong [OF inv(8), of ?S] dmas_match_cong [OF inv(9), of ?S]
      checks_match_cong [OF inv(10), of M'] sems_match_cong [OF inv(7), of "shared M'" ?S] unfolding machine_inv_def c(3) by simp
qed

lemma start_dma_step:
  assumes "machine_inv n nc M S" "machine_step (StartDma t vid) M = Some M'"
  shows "machine_inv n nc M' (past_step (StartDma t vid) S)"
proof -
  note inv = machine_inv_parts [OF assms(1)]
  let ?H = "history_of M S" and ?S = "past_step (StartDma t vid) S"
  from assms(2) obtain eo c where c: "nth_opt (copies M) t = Some (eo, c)"
    "num_cores (shared M) \<le> vid" "vid < vector_clock_size (shared M)" "M' = M\<lparr>dma_clocks := dma_clocks M @ [(vid, c)]\<rparr>"
    by (auto simp: bind_eq_Some_conv split: if_splits)
  have g: "good n nc ?H c (copy_past S ! t)" by (rule copies_match_good(1) [OF inv(8) c(1)])
  have "dmas_match n nc ?H (dma_clocks M @ [(vid, c)]) ?S"
    using inv(3,4,9) c(2,3) g by (auto simp: dmas_match_def nth_append less_Suc_eq)
  then show ?thesis
    using inv copies_match_cong [OF inv(8), of ?S] cores_match_cong [OF inv(6), of "shared M" ?S]
      checks_match_cong [OF inv(10), of M'] sems_match_cong [OF inv(7), of "shared M" ?S] unfolding machine_inv_def c(4) by simp
qed

lemma tick_dma_step:
  assumes "machine_inv n nc M S" "machine_step (TickDma d) M = Some M'" "length (event_log M) < 2 ^ 31 - 1"
  shows "machine_inv n nc M' (past_step (TickDma d) S)"
proof -
  note inv = machine_inv_parts [OF assms(1)]
  let ?H = "history_of M S" and ?S = "past_step (TickDma d) S"
  from assms(2) obtain vid V c where c: "nth_opt (dma_clocks M) d = Some (vid, V)" "inc_vector_clock V vid = Inr c"
    "M' = M\<lparr>dma_clocks := (dma_clocks M)[d := (vid, c)], copies := copies M @ [(Some (length (event_log M)), c)],
      event_log := event_log M @ [(vid, c)]\<rparr>"
    by (auto simp: bind_eq_Some_conv to_option_Some)
  from c(1) have d: "d < length (dma_clocks M)" "dma_clocks M ! d = (vid, V)" by (auto simp: nth_opt_def split: if_splits)
  then have vid: "nc \<le> vid" "vid < n" "length (dma_past S) = length (dma_clocks M)"
    and g: "good n nc ?H V (dma_past S ! d)" using inv(9) by (force simp: dmas_match_def)+
  have cv: "c = V[vid := int32 (V ! vid + 1)]" using c(2) by (simp add: inc_vector_clock_def split: if_splits)
  let ?P = "insert (length (event_log M)) (dma_past S ! d)"
  have ev: "length (event_past S) = length (event_log M)" using inv(5) by (simp add: history_wf_def)
  have own: "e \<in> dma_past S ! d" if "vid < nc" for e using that vid(1) by simp
  note e = event_copies [OF assms(1) g vid(2) _ own cv, of ?P M' ?S]
  have H: "history_of M' ?S = extend ?H vid c ?P" "history_wf n nc (history_of M' ?S)"
    "good n nc (history_of M' ?S) c ?P" "copies_match n nc (history_of M' ?S) (copies M') ?S"
    "checks_match (history_of M' ?S) M'"
    using e assms(3) c(3) ev by (simp_all add: Let_def)
  have "cores_match n nc (history_of M' ?S) (shared M') ?S"
    unfolding cores_match_def
  proof (intro conjI allI impI)
    fix b assume "b < nc"
    then have "good n nc ?H (clocks (shared M) ! b) (core_past S b)" using inv(6) by (simp add: cores_match_def)
    then show "good n nc (history_of M' ?S) (clocks (shared M') ! b) (core_past ?S b)"
      using good_extend [OF inv(5)] unfolding H(1) by (simp add: Let_def c(3))
  next
    fix e assume e: "e < events (history_of M' ?S)" "ev_owner (history_of M' ?S) e < nc"
    then have "e \<noteq> length (event_log M)" using vid(1) by (auto simp: c(3))
    then have "e < events ?H" using e(1) by (simp add: c(3))
    then show "e \<in> core_past ?S (ev_owner (history_of M' ?S) e)"
      using inv(6) e(2) by (auto simp: cores_match_def Let_def nth_append c(3))
  qed (use inv(6) in \<open>simp add: cores_match_def c(3)\<close>)
  moreover have "sems_match n nc (history_of M' ?S) (shared M') ?S"
    unfolding H(1) by (rule sems_match_cong [OF sems_match_extend [OF inv(5,7)]]) (simp_all add: c(3) Let_def)
  moreover have "dmas_match n nc (history_of M' ?S) (dma_clocks M') ?S"
  proof -
    have "dmas_match n nc (history_of M' ?S) (dma_clocks M) S"
      unfolding H(1) by (rule dmas_match_extend [OF inv(5,9)])
    moreover have ds: "dma_clocks M' = (dma_clocks M)[d := (vid, c)]" "dma_past ?S = (dma_past S)[d := ?P]"
      using ev by (simp_all add: c(3) Let_def)
    ultimately show ?thesis using H(3) vid d unfolding dmas_match_def ds by (auto simp: nth_list_update)
  qed
  ultimately show ?thesis unfolding machine_inv_def using inv(1-4) H by (simp add: c(3))
qed

lemma check_step:
  assumes "machine_inv n nc M S" "machine_step (Check kind key dev cor rnge t) M = Some M'"
  shows "machine_inv n nc M' (past_step (Check kind key dev cor rnge t) S)"
proof -
  note inv = machine_inv_parts [OF assms(1)]
  let ?H = "history_of M S"
  from assms(2) obtain e c rs where c0: "nth_opt (copies M) t = Some (Some e, c)"
    "perform_check (kind, key, \<lparr>acc_device = dev, acc_core = cor, acc_clock = c, acc_range = rnge\<rparr>) (races (shared M)) = Inr rs"
    "M' = M\<lparr>shared := (shared M)\<lparr>races := rs\<rparr>, copies := (copies M)[t := (None, c)],
       checked := checked M @ [((kind, key, \<lparr>acc_device = dev, acc_core = cor, acc_clock = c, acc_range = rnge\<rparr>), e)]\<rparr>"
    by (auto simp: bind_eq_Some_conv to_option_Some Let_def split: option.splits)
  define chk where "chk = (kind, key, \<lparr>acc_device = dev, acc_core = cor, acc_clock = c, acc_range = rnge\<rparr>)"
  note c = c0 [folded chk_def]
  have t: "t < length (copies M)" "copies M ! t = (Some e, c)"
    using c(1) by (auto simp: nth_opt_def split: if_splits)
  have e: "e < events ?H" "c = ev_clock ?H e" using copies_match_good(2) [OF inv(8) c(1)] by auto
  have "copies_match n nc ?H ((copies M)[t := (None, c)]) S"
    unfolding copies_match_def
  proof (intro conjI allI impI)
    fix u assume u: "u < length ((copies M)[t := (None, c)])"
    then have old: "good n nc ?H (snd (copies M ! u)) (copy_past S ! u)"
      "case fst (copies M ! u) of None \<Rightarrow> True | Some e \<Rightarrow> e < events ?H \<and> snd (copies M ! u) = ev_clock ?H e"
      using inv(8) by (simp_all add: copies_match_def)
    have new: "(copies M)[t := (None, c)] ! u = (if u = t then (None, c) else copies M ! u)"
      using u by (simp add: nth_list_update)
    show "good n nc ?H (snd ((copies M)[t := (None, c)] ! u)) (copy_past S ! u)"
      unfolding new using old(1) t(2) by auto
    show "case fst ((copies M)[t := (None, c)] ! u) of None \<Rightarrow> True
        | Some e \<Rightarrow> e < events ?H \<and> snd ((copies M)[t := (None, c)] ! u) = ev_clock ?H e"
      unfolding new using old(2) by simp
  qed (use inv(8) in \<open>simp add: copies_match_def\<close>)
  moreover have "checks_match ?H M'"
  proof -
    have "mset (unused (copies M)) = add_mset e (mset (unused ((copies M)[t := (None, c)])))"
      by (rule unused_use) (use t in simp_all)
    then have ms: "mset (unused (copies M) @ map snd (checked M)) =
        mset (unused ((copies M)[t := (None, c)]) @ map snd (checked M @ [(chk, e)]))" by simp
    have old: "distinct (unused (copies M) @ map snd (checked M))"
      "\<forall>((k, key, a), e) \<in> set (checked M). e < events ?H \<and> acc_clock a = ev_clock ?H e"
      "rfold perform_check (map fst (checked M)) initial_races = Inr (races (shared M))"
      by (rule checks_match_parts [OF inv(10)])+
    have "distinct (unused ((copies M)[t := (None, c)]) @ map snd (checked M @ [(chk, e)]))"
      by (rule iffD1 [OF mset_eq_imp_distinct_iff [OF ms] old(1)])
    moreover have "rfold perform_check (map fst (checked M @ [(chk, e)])) initial_races = Inr rs"
      using old(3) c(2) by (simp add: rfold_append)
    moreover have "\<forall>((k, key, a), e) \<in> set (checked M @ [(chk, e)]). e < events ?H \<and> acc_clock a = ev_clock ?H e"
      using old(2) e by (simp add: chk_def)
    moreover have "copies M' = (copies M)[t := (None, c)]" "checked M' = checked M @ [(chk, e)]" "races (shared M') = rs"
      by (simp_all add: c(3))
    ultimately show ?thesis unfolding checks_match_def by presburger
  qed
  ultimately show ?thesis
    using inv cores_match_cong [OF inv(6), of "shared M'" S] dmas_match_cong [OF inv(9), of S]
      sems_match_cong [OF inv(7), of "shared M'" S] unfolding machine_inv_def c(3) by simp
qed

text \<open>The two loops of a barrier.\<close>

lemma barrier_gather:
  assumes "nc \<le> n" "low < nc" "\<forall>d \<in> set xs. d \<noteq> low \<and> d < nc" "length cs = nc" "good n nc H (cs ! low) P"
    and "\<And>d. d < nc \<Longrightarrow> d \<noteq> low \<Longrightarrow> good n nc H (cs ! d) (Q d)"
  shows "length (fold (\<lambda>c cs. cs[low := update_vector_clock (cs ! low) (cs ! c)]) xs cs) = nc \<and>
    (\<forall>d. d \<noteq> low \<longrightarrow> fold (\<lambda>c cs. cs[low := update_vector_clock (cs ! low) (cs ! c)]) xs cs ! d = cs ! d) \<and>
    good n nc H (fold (\<lambda>c cs. cs[low := update_vector_clock (cs ! low) (cs ! c)]) xs cs ! low) (P \<union> (\<Union>d \<in> set xs. Q d))"
  using assms(3-6)
proof (induction xs arbitrary: cs P)
  case (Cons x xs)
  let ?cs = "cs[low := update_vector_clock (cs ! low) (cs ! x)]"
  have x: "x \<noteq> low" "x < nc" using Cons.prems(1) by simp_all
  have "good n nc H (?cs ! low) (P \<union> Q x)"
    using good_join [OF Cons.prems(3) Cons.prems(4) [OF x(2,1)] assms(1)] Cons.prems(2) assms(2) by simp
  moreover have "good n nc H (?cs ! d) (Q d)" if "d < nc" "d \<noteq> low" for d using Cons.prems(4) that by simp
  ultimately show ?case using Cons.IH [of ?cs "P \<union> Q x"] Cons.prems(1,2) by (simp add: Un_assoc)
qed auto

lemma barrier_spread:
  assumes "nc \<le> n" "low < nc" "distinct xs" "\<forall>d \<in> set xs. d \<noteq> low \<and> d < nc" "length cs = nc" "good n nc H (cs ! low) P"
    and "\<And>d. d < nc \<Longrightarrow> d \<noteq> low \<Longrightarrow> good n nc H (cs ! d) (Q d)"
  shows "length (fold (\<lambda>c cs. cs[c := update_vector_clock (cs ! c) (cs ! low)]) xs cs) = nc \<and>
    (\<forall>d. d \<notin> set xs \<longrightarrow> fold (\<lambda>c cs. cs[c := update_vector_clock (cs ! c) (cs ! low)]) xs cs ! d = cs ! d) \<and>
    (\<forall>d \<in> set xs. good n nc H (fold (\<lambda>c cs. cs[c := update_vector_clock (cs ! c) (cs ! low)]) xs cs ! d) (Q d \<union> P))"
  using assms(3-7)
proof (induction xs arbitrary: cs Q)
  case (Cons x xs)
  let ?cs = "cs[x := update_vector_clock (cs ! x) (cs ! low)]"
  have x: "x \<noteq> low" "x < nc" "x \<notin> set xs" using Cons.prems(1,2) by simp_all
  have jx: "good n nc H (?cs ! x) (Q x \<union> P)"
    using good_join [OF Cons.prems(5) [OF x(2,1)] Cons.prems(4) assms(1)] Cons.prems(3) x(2) by simp
  moreover have "good n nc H (?cs ! d) ((Q(x := Q x \<union> P)) d)" if "d < nc" "d \<noteq> low" for d
    using Cons.prems(5) that jx by (cases "d = x") auto
  ultimately have IH: "length (fold (\<lambda>c cs. cs[c := update_vector_clock (cs ! c) (cs ! low)]) xs ?cs) = nc \<and>
    (\<forall>d. d \<notin> set xs \<longrightarrow> fold (\<lambda>c cs. cs[c := update_vector_clock (cs ! c) (cs ! low)]) xs ?cs ! d = ?cs ! d) \<and>
    (\<forall>d \<in> set xs. good n nc H (fold (\<lambda>c cs. cs[c := update_vector_clock (cs ! c) (cs ! low)]) xs ?cs ! d)
       ((Q(x := Q x \<union> P)) d \<union> P))"
    using Cons.IH [of ?cs "Q(x := Q x \<union> P)"] Cons.prems(1-4) x by simp
  have "good n nc H (fold (\<lambda>c cs. cs[c := update_vector_clock (cs ! c) (cs ! low)]) xs ?cs ! d) (Q d \<union> P)" if "d \<in> set xs" for d
  proof -
    have "d \<noteq> x" using that x(3) by blast
    then show ?thesis using bspec [OF conjunct2 [OF conjunct2 [OF IH]] that] by simp
  qed
  then show ?case using IH jx x(3) by auto
qed auto

lemma update_clocks_good:
  assumes "nc \<le> n" "low < high" "high \<le> nc" "length (clocks m) = nc"
    and "\<And>d. d < nc \<Longrightarrow> good n nc H (clocks m ! d) (Q d)"
  shows "length (clocks (update_clocks m low high)) = nc"
    "d < nc \<Longrightarrow> good n nc H (clocks (update_clocks m low high) ! d)
       (if low \<le> d \<and> d < high then \<Union>d \<in> {low..<high}. Q d else Q d)"
proof -
  let ?xs = "[low + 1..<min high (length (clocks m))]"
  let ?cs1 = "fold (\<lambda>c cs. cs[low := update_vector_clock (cs ! low) (cs ! c)]) ?xs (clocks m)"
  have set_xs: "set ?xs = {low + 1..<high}" using assms(3,4) by auto
  have all: "(\<Union>d \<in> {low..<high}. Q d) = Q low \<union> (\<Union>d \<in> set ?xs. Q d)" 
  proof -
    have "{low..<high} = insert low (set ?xs)" unfolding set_xs using assms(2) by auto
    then show ?thesis by simp
  qed
  have ok: "low < nc" "\<forall>d \<in> set ?xs. d \<noteq> low \<and> d < nc" unfolding set_xs using assms(2,3) by auto
  define U where "U = (\<Union>d \<in> {low..<high}. Q d)"
  define cs1 where "cs1 = ?cs1"
  define cs2 where "cs2 = fold (\<lambda>c cs. cs[c := update_vector_clock (cs ! c) (cs ! low)]) ?xs cs1"
  have "length cs1 = nc \<and> (\<forall>d. d \<noteq> low \<longrightarrow> cs1 ! d = clocks m ! d) \<and> good n nc H (cs1 ! low) U"
    unfolding U_def all cs1_def
    by (rule barrier_gather [OF assms(1) ok assms(4) assms(5) [OF ok(1)] assms(5)])
  then have g1: "length cs1 = nc" "\<And>d. d \<noteq> low \<Longrightarrow> cs1 ! d = clocks m ! d" "good n nc H (cs1 ! low) U" by blast+
  have old: "good n nc H (cs1 ! d) (Q d)" if "d < nc" "d \<noteq> low" for d
    unfolding g1(2) [OF that(2)] by (rule assms(5) [OF that(1)])
  have "length cs2 = nc \<and> (\<forall>d. d \<notin> set ?xs \<longrightarrow> cs2 ! d = cs1 ! d) \<and> (\<forall>d \<in> set ?xs. good n nc H (cs2 ! d) (Q d \<union> U))"
    unfolding cs2_def by (rule barrier_spread [OF assms(1) ok(1) distinct_upt ok(2) g1(1,3) old])
  then have g2: "length cs2 = nc" "\<And>d. d \<notin> set ?xs \<Longrightarrow> cs2 ! d = cs1 ! d" "\<And>d. d \<in> set ?xs \<Longrightarrow> good n nc H (cs2 ! d) (Q d \<union> U)"
    by blast+
  have e: "clocks (update_clocks m low high) = cs2" by (simp add: update_clocks_def Let_def cs1_def cs2_def)
  show "length (clocks (update_clocks m low high)) = nc" unfolding e by (rule g2(1))
  show "good n nc H (clocks (update_clocks m low high) ! d)
       (if low \<le> d \<and> d < high then \<Union>d \<in> {low..<high}. Q d else Q d)" if d: "d < nc"
    unfolding e U_def [symmetric]
  proof (cases "low \<le> d \<and> d < high")
    case r: True
    show "good n nc H (cs2 ! d) (if low \<le> d \<and> d < high then U else Q d)"
    proof (cases "d = low")
      case True
      have "low \<notin> set ?xs" using ok(2) by blast
      then show ?thesis using g2(2) g1(3) r True by simp
    next
      case False
      then have "d \<in> set ?xs" unfolding set_xs using r by simp
      moreover have "Q d \<union> U = U" unfolding U_def using r by auto
      ultimately show ?thesis using g2(3) [of d] r by simp
    qed
  next
    case False
    then have "d \<notin> set ?xs" "d \<noteq> low" unfolding set_xs using assms(2) by auto
    then have "good n nc H (cs2 ! d) (Q d)" using g2(2) [of d] old [OF d] by presburger
    then show "good n nc H (cs2 ! d) (if low \<le> d \<and> d < high then U else Q d)"
      unfolding if_not_P [OF False] .
  qed
qed

lemma sync_step:
  assumes "machine_inv n nc M S" "machine_step (Sync low high) M = Some M'"
  shows "machine_inv n nc M' (past_step (Sync low high) S)"
proof -
  note inv = machine_inv_parts [OF assms(1)]
  let ?H = "history_of M S" and ?S = "past_step (Sync low high) S"
  from assms(2) inv(3) have c: "low < high" "high \<le> nc" "M' = M\<lparr>shared := update_clocks (shared M) low high\<rparr>"
    by (auto split: if_splits)
  have old: "length (clocks (shared M)) = nc" "\<And>d. d < nc \<Longrightarrow> good n nc ?H (clocks (shared M) ! d) (core_past S d)"
    "\<forall>e < events ?H. ev_owner ?H e < nc \<longrightarrow> e \<in> core_past S (ev_owner ?H e)"
    using inv(6) unfolding cores_match_def by blast+
  note new = update_clocks_good [OF inv(1) c(1,2) old(1,2)]
  obtain cs where cs: "update_clocks (shared M) low high = (shared M)\<lparr>clocks := cs\<rparr>"
    by (simp add: update_clocks_def Let_def)
  have "\<forall>e < events ?H. ev_owner ?H e < nc \<longrightarrow> e \<in> core_past ?S (ev_owner ?H e)"
    using old(3) by auto
  then have "cores_match n nc ?H (shared M') ?S"
    unfolding cores_match_def c(3) using new by simp
  then show ?thesis
    using inv copies_match_cong [OF inv(8), of ?S] dmas_match_cong [OF inv(9), of ?S]
      checks_match_cong [OF inv(10), of M'] sems_match_cong [OF inv(7), of "shared M'" ?S]
    unfolding machine_inv_def c(3) by (simp add: cs)
qed

lemma event_log_step: "machine_step s M = Some M' \<Longrightarrow> length (event_log M) \<le> length (event_log M')"
  by (cases s) (auto simp: bind_eq_Some_conv Let_def split: option.splits if_splits prod.splits)

lemma event_log_run: "machine_run ss M = Some M' \<Longrightarrow> length (event_log M) \<le> length (event_log M')"
  by (induction ss arbitrary: M) (fastforce simp: bind_eq_Some_conv dest: event_log_step)+

lemma machine_step_inv:
  assumes "machine_inv n nc M S" "machine_step s M = Some M'" "length (event_log M') < 2 ^ 31"
  shows "machine_inv n nc M' (past_step s S)"
proof (cases s)
  case (Tick core)
  then have "length (event_log M) < 2 ^ 31 - 1" using assms(2,3) by (auto split: option.splits prod.splits)
  from tick_step [OF assms(1) _ this] show ?thesis using assms(2) unfolding Tick .
next
  case (Signal t ref core inc)
  show ?thesis using signal_step [OF assms(1)] assms(2) unfolding Signal .
next
  case (Acquire ref core v)
  show ?thesis using acquire_step [OF assms(1)] assms(2) unfolding Acquire .
next
  case (FinishWait core t)
  show ?thesis using finish_wait_step [OF assms(1)] assms(2) unfolding FinishWait .
next
  case (Sync low high)
  show ?thesis using sync_step [OF assms(1)] assms(2) unfolding Sync .
next
  case (StartDma t vid)
  show ?thesis using start_dma_step [OF assms(1)] assms(2) unfolding StartDma .
next
  case (TickDma d)
  then have "length (event_log M) < 2 ^ 31 - 1" using assms(2,3) by (auto simp: bind_eq_Some_conv)
  from tick_dma_step [OF assms(1) _ this] show ?thesis using assms(2) unfolding TickDma .
next
  case (Check kind key dev cor rnge t)
  show ?thesis using check_step [OF assms(1)] assms(2) unfolding Check .
qed

lemma machine_run_inv:
  assumes "machine_inv n nc M S" "machine_run ss M = Some M'" "length (event_log M') < 2 ^ 31"
  shows "machine_inv n nc M' (fold past_step ss S)"
  using assms
proof (induction ss arbitrary: M S)
  case (Cons s ss)
  then obtain M1 where M1: "machine_step s M = Some M1" "machine_run ss M1 = Some M'" by (auto simp: bind_eq_Some_conv)
  have "length (event_log M1) < 2 ^ 31" using event_log_run [OF M1(2)] Cons.prems(3) by simp
  then have "machine_inv n nc M1 (past_step s S)" using machine_step_inv [OF Cons.prems(1) M1(1)] by simp
  then show ?case using Cons.IH M1(2) Cons.prems(3) by simp
qed simp

lemma run_inv:
  assumes "fresh_memory n m" "machine_run ss (start_machine m) = Some M" "length (event_log M) < 2 ^ 31"
  shows "machine_inv n (num_cores m) M (causal_past ss)"
  using machine_run_inv [OF start_inv [OF assms(1)] assms(2,3)] unfolding causal_past_def .

subsection \<open>Clock order and happens-before\<close>

text \<open>The order of the clocks is happens-before, for the events of cores exactly.\<close>

lemma happens_before_clock_lt:
  assumes "fresh_memory n m" "machine_run ss (start_machine m) = Some M" "length (event_log M) < 2 ^ 31"
    and "b < length (event_log M)" "happens_before ss a b"
  shows "clock_lt (snd (event_log M ! a)) (snd (event_log M ! b))"
  using past_clock_lt [OF machine_inv_parts(5) [OF run_inv [OF assms(1-3)]], of b a] assms(4,5)
  by (simp add: happens_before_def)

lemma clock_lt_irrefl: "\<not> clock_lt x x"
  by (auto simp: clock_lt_def set_zip)

lemma clock_lt_happens_before:
  assumes "fresh_memory n m" "machine_run ss (start_machine m) = Some M" "length (event_log M) < 2 ^ 31"
    and "a < length (event_log M)" "b < length (event_log M)" "fst (event_log M ! a) < num_cores m"
    and "clock_lt (snd (event_log M ! a)) (snd (event_log M ! b))"
  shows "happens_before ss a b"
  using clock_lt_past [OF machine_inv_parts(5,1) [OF run_inv [OF assms(1-3)]], of a b] assms(4-7) clock_lt_irrefl
  unfolding happens_before_def by auto

definition concurrent :: "action list \<Rightarrow> nat \<Rightarrow> nat \<Rightarrow> bool" where
  "concurrent ss a b \<longleftrightarrow> a \<noteq> b \<and> \<not> happens_before ss a b \<and> \<not> happens_before ss b a"

lemma checked_event:
  assumes "machine_inv n nc M S" "i < length (checked M)"
  shows "snd (checked M ! i) < length (event_log M)"
    "acc_clock (snd (snd (fst (checked M ! i)))) = snd (event_log M ! snd (checked M ! i))"
proof -
  have "\<forall>((k, key, a), e) \<in> set (checked M). e < length (event_log M) \<and> acc_clock a = snd (event_log M ! e)"
    using checks_match_parts(2) [OF machine_inv_parts(10) [OF assms(1)]] by simp
  from bspec [OF this nth_mem [OF assms(2)]]
  show "snd (checked M ! i) < length (event_log M)"
    "acc_clock (snd (snd (fst (checked M ! i)))) = snd (event_log M ! snd (checked M ! i))"
    by (auto split: prod.splits)
qed

lemma checked_distinct:
  assumes "machine_inv n nc M S" "i < length (checked M)" "j < length (checked M)" "i \<noteq> j"
  shows "snd (checked M ! i) \<noteq> snd (checked M ! j)"
proof -
  have "distinct (map snd (checked M))"
    using checks_match_parts(1) [OF machine_inv_parts(10) [OF assms(1)]] by simp
  then show ?thesis using assms(2-4) nth_eq_iff_index_eq [of "map snd (checked M)" i j] by simp
qed

lemma races_found_conflict:
  assumes "machine_inv n nc M S"
  shows "races_found (races (shared M)) \<longleftrightarrow>
    (\<exists>i j. i < j \<and> j < length (checked M) \<and> conflict (fst (checked M ! i)) (fst (checked M ! j)))"
proof -
  have "rfold perform_check (map fst (checked M)) initial_races = Inr (races (shared M))"
    by (rule checks_match_parts(3) [OF machine_inv_parts(10) [OF assms]])
  from checks_record [OF this] have "races_found (races (shared M)) \<longleftrightarrow> (\<exists>i j. i < j \<and> j < length (map fst (checked M)) \<and>
      conflict (map fst (checked M) ! i) (map fst (checked M) ! j))" by blast
  also have "\<dots> \<longleftrightarrow> (\<exists>i j. i < j \<and> j < length (checked M) \<and> conflict (fst (checked M ! i)) (fst (checked M ! j)))"
    by (intro ex_cong1 conj_cong refl) simp_all
  finally show ?thesis .
qed

text \<open>Two checked accesses that may not be reordered: same buffer, overlapping, one a write.\<close>

definition same_data :: "check \<Rightarrow> check \<Rightarrow> bool" where
  "same_data c d \<longleftrightarrow> (case (c, d) of ((k1, key1, a1), (k2, key2, a2)) \<Rightarrow>
     key1 = key2 \<and> (k1 = WriteAccess \<or> k2 = WriteAccess) \<and> ranges_overlap (acc_range a1) (acc_range a2) = Inr True)"

lemma conflict_same_data:
  "conflict c d \<longleftrightarrow> same_data c d \<and> \<not> clock_ordered (acc_clock (snd (snd c))) (acc_clock (snd (snd d)))"
  by (auto simp: conflict_def same_data_def split: prod.splits)

text \<open>A reported race is a race: the accesses are not ordered by happens-before.\<close>

lemma reported_race_is_race:
  assumes "fresh_memory n m" "machine_run ss (start_machine m) = Some M" "length (event_log M) < 2 ^ 31"
    and "races_found (races (shared M))"
  shows "\<exists>i j. i < j \<and> j < length (checked M) \<and> same_data (fst (checked M ! i)) (fst (checked M ! j)) \<and>
    concurrent ss (snd (checked M ! i)) (snd (checked M ! j))"
proof -
  note inv = run_inv [OF assms(1-3)]
  from assms(4) obtain i j where ij: "i < j" "j < length (checked M)" "conflict (fst (checked M ! i)) (fst (checked M ! j))"
    unfolding races_found_conflict [OF inv] by blast
  have i: "i < length (checked M)" using ij by simp
  note ei = checked_event [OF inv i] and ej = checked_event [OF inv ij(2)]
  have "\<not> clock_ordered (snd (event_log M ! snd (checked M ! i))) (snd (event_log M ! snd (checked M ! j)))"
    using ij(3) unfolding conflict_same_data ei(2) ej(2) by blast
  then have "\<not> happens_before ss (snd (checked M ! i)) (snd (checked M ! j))"
    "\<not> happens_before ss (snd (checked M ! j)) (snd (checked M ! i))"
    using happens_before_clock_lt [OF assms(1-3) ej(1)] happens_before_clock_lt [OF assms(1-3) ei(1)]
    unfolding clock_ordered_def by blast+
  then show ?thesis
    using ij checked_distinct [OF inv i ij(2)] unfolding concurrent_def conflict_same_data by auto
qed

text \<open>A race between accesses of cores is reported.\<close>

lemma core_race_is_reported:
  assumes "fresh_memory n m" "machine_run ss (start_machine m) = Some M" "length (event_log M) < 2 ^ 31"
    and "i < j" "j < length (checked M)" "same_data (fst (checked M ! i)) (fst (checked M ! j))"
    and "fst (event_log M ! snd (checked M ! i)) < num_cores m" "fst (event_log M ! snd (checked M ! j)) < num_cores m"
    and "concurrent ss (snd (checked M ! i)) (snd (checked M ! j))"
  shows "races_found (races (shared M))"
proof -
  note inv = run_inv [OF assms(1-3)]
  have i: "i < length (checked M)" using assms(4,5) by simp
  note ei = checked_event [OF inv i] and ej = checked_event [OF inv assms(5)]
  have "\<not> clock_ordered (snd (event_log M ! snd (checked M ! i))) (snd (event_log M ! snd (checked M ! j)))"
    using assms(9) clock_lt_happens_before [OF assms(1-3) ei(1) ej(1) assms(7)]
      clock_lt_happens_before [OF assms(1-3) ej(1) ei(1) assms(8)]
    unfolding concurrent_def clock_ordered_def by blast
  then have "conflict (fst (checked M ! i)) (fst (checked M ! j))"
    unfolding conflict_same_data ei(2) ej(2) using assms(6) by blast
  then show ?thesis unfolding races_found_conflict [OF inv] using assms(4,5) by blast
qed

end
