(* ===== verification/Callbacks.thy ===== *)
theory Callbacks
  imports HappensBefore
begin

text \<open>
  Programs of callbacks. The callbacks of \<open>SharedMem\<close> are shown to be runs of the machine of
  \<open>HappensBefore\<close>: each goes through sections of the machine that leave the same clocks,
  semaphores and races behind (a forward simulation).
\<close>

subsection \<open>Callbacks of the threads\<close>

datatype 'a callback =
    Get int int string int "indexer list list"
  | Store int int string int "indexer list list" 'a
  | Swap int int string int "indexer list list" 'a "'a option"
  | SignalSem int int int int "int option" "int option"
  | WaitSem int int int int
  | DmaStart nat int int string int "indexer list list" string int "indexer list list" int "int option" "int option"
  | DmaWait int int int int
  | DeviceBarrier nat
  | GlobalBarrier
  | Allocate int "int option" string 'a
  | Deallocate int int string int

text \<open>The result is \<open>None\<close> for a callback that blocks.\<close>

fun run_callback :: "'a numpy \<Rightarrow> 'a callback \<Rightarrow> 'a shared_memory \<Rightarrow> 'a shared_memory option res" where
  "run_callback np (Get dev cor sp i tr) m = rbind (mem_get np m dev cor sp i tr None) (\<lambda>(x, m). Inr (Some m))"
| "run_callback np (Store dev cor sp i tr v) m = rbind (mem_store np m dev cor sp i tr v None) (\<lambda>m. Inr (Some m))"
| "run_callback np (Swap dev cor sp i tr v k) m = rbind (mem_swap np m dev cor sp i tr v k) (\<lambda>(x, m). Inr (Some m))"
| "run_callback np (SignalSem dev cor i inc tdev tcor) m =
     rbind (semaphore_signal m dev cor i inc tdev tcor) (\<lambda>m. Inr (Some m))"
| "run_callback np (WaitSem dev cor i v) m = semaphore_wait m dev cor i v"
| "run_callback np (DmaStart vid dev cor ssp sid str dsp did dtr dsem ssem ddev) m =
     rbind (dma_start np vid m dev cor ssp sid str dsp did dtr dsem ssem ddev) (\<lambda>m. Inr (Some m))"
| "run_callback np (DmaWait dev cor i sz) m = dma_wait np m dev cor i sz"
| "run_callback np (DeviceBarrier d) m = Inr (Some (update_clocks_for_device_barrier m d))"
| "run_callback np GlobalBarrier m = Inr (Some (update_clocks_for_global_barrier m))"
| "run_callback np (Allocate dev cor sp v) m = rbind (allocate_buffers m dev cor sp v) (\<lambda>(i, m). Inr (Some m))"
| "run_callback np (Deallocate dev cor sp i) m = rbind (deallocate np m dev cor sp i) (\<lambda>m. Inr (Some m))"

fun run_callbacks :: "'a numpy \<Rightarrow> 'a callback list \<Rightarrow> 'a shared_memory \<Rightarrow> 'a shared_memory option res" where
  "run_callbacks np [] m = Inr (Some m)"
| "run_callbacks np (cb # cbs) m =
     rbind (run_callback np cb m) (\<lambda>r. case r of None \<Rightarrow> Inr None | Some m \<Rightarrow> run_callbacks np cbs m)"

text \<open>Virtual devices are those of \<^verbatim>\<open>get_random_virtual_device_id\<close>, barriers are for devices that exist.\<close>

fun callback_ok :: "nat \<Rightarrow> nat \<Rightarrow> nat \<Rightarrow> 'a callback \<Rightarrow> bool" where
  "callback_ok devs nc n (DmaStart vid _ _ _ _ _ _ _ _ _ _ _) \<longleftrightarrow> nc \<le> vid \<and> vid < n"
| "callback_ok devs nc n (DeviceBarrier d) \<longleftrightarrow> d < devs"
| "callback_ok devs nc n _ \<longleftrightarrow> True"

subsection \<open>The simulation\<close>

text \<open>
  The machine \<open>M\<close> agrees with the memory \<open>m\<close>: the same clocks, semaphores and races. \<open>ds\<close> are
  the DMAs, with the clocks they have now, and \<open>f\<close> maps their numbers to those of the machine.
\<close>

definition agrees :: "(int \<Rightarrow> nat) \<Rightarrow> (int \<Rightarrow> 'a dma option) \<Rightarrow> 'a machine \<Rightarrow> 'a shared_memory \<Rightarrow> bool" where
  "agrees f ds M m \<longleftrightarrow>
     num_devices (shared M) = num_devices m \<and> num_cores_per_device (shared M) = num_cores_per_device m \<and>
     detect_races (shared M) \<and> detect_races m \<and> vector_clock_size (shared M) = vector_clock_size m \<and>
     clocks (shared M) = clocks m \<and> sems (shared M) = sems m \<and> fixed_id_sem (shared M) = fixed_id_sem m \<and>
     races (shared M) = races m \<and>
     (\<forall>i D. ds i = Some D \<longrightarrow> i < next_dma_id m \<and> nth_opt (dma_clocks M) (f i) = Some (virtual_device_id D, dma_clock D)) \<and>
     inj_on f (dom ds)"

definition reaches :: "'a machine \<Rightarrow> 'a machine \<Rightarrow> bool" where
  "reaches M M' \<longleftrightarrow> (\<exists>ss. machine_run ss M = Some M')"

lemma machine_run_append: "machine_run (ss @ ss') M = Option.bind (machine_run ss M) (machine_run ss')"
proof (induction ss arbitrary: M)
  case (Cons s ss)
  then show ?case by (cases "machine_step s M") simp_all
qed simp

lemma reaches_refl [simp]: "reaches M M"
  unfolding reaches_def by (rule exI [of _ "[]"]) simp

lemma reaches_trans: "reaches M M' \<Longrightarrow> reaches M' M'' \<Longrightarrow> reaches M M''"
  unfolding reaches_def by (metis Option.bind.bind_lunit machine_run_append)

lemma reaches_step: "machine_step s M = Some M' \<Longrightarrow> reaches M M'"
  unfolding reaches_def by (rule exI [of _ "[s]"]) simp

text \<open>The sections, one at a time.\<close>

lemma get_sem_agrees: "agrees f ds M m \<Longrightarrow> get_sem (shared M) ref = get_sem m ref"
  by (cases ref) (simp_all add: agrees_def)

lemma num_cores_agrees: "agrees f ds M m \<Longrightarrow> num_cores (shared M) = num_cores m"
  by (simp add: agrees_def num_cores_def)

lemma agrees_tick:
  assumes "agrees f ds M m" "tick m core = Inr (c, m')"
  obtains M' clock where "machine_step (Tick core) M = Some M'" "agrees f ds M' m'" "c = Some clock"
    "copies M' = copies M @ [(Some (length (event_log M)), clock)]" "dma_clocks M' = dma_clocks M"
proof -
  from assms obtain clock where c: "c = Some clock" "core < length (clocks m)" "inc_vector_clock (clocks m ! core) core = Inr clock"
    "m' = m\<lparr>clocks := (clocks m)[core := clock]\<rparr>"
    by (auto simp: tick_def agrees_def res_simps split: if_splits)
  have "tick (shared M) core = Inr (Some clock, (shared M)\<lparr>clocks := (clocks m)[core := clock]\<rparr>)"
    using assms(1) c(2,3) by (simp add: tick_def agrees_def)
  then show thesis using c that assms(1) by (simp add: agrees_def)
qed

lemma set_sem_other [simp]:
  "num_devices (set_sem m ref s) = num_devices m" "num_cores_per_device (set_sem m ref s) = num_cores_per_device m"
  "dmas (set_sem m ref s) = dmas m" "next_dma_id (set_sem m ref s) = next_dma_id m" "tasks_by_sem (set_sem m ref s) = tasks_by_sem m"
  by (cases ref; simp)+

lemma agrees_set_sem:
  assumes "agrees f ds M m"
  shows "agrees f ds (M\<lparr>shared := set_sem (shared M) ref s\<rparr>) (set_sem m ref s)"
  using assms by (cases ref) (simp_all add: agrees_def)

lemma agrees_signal:
  assumes "agrees f ds M m" "sem_signal m ref inc core (Some c) = Inr m'" "nth_opt (copies M) t = Some (eo, c)"
  obtains M' where "machine_step (Signal t ref core inc) M = Some M'" "agrees f ds M' m'" "copies M' = copies M"
    "dma_clocks M' = dma_clocks M"
proof -
  have d: "detect_races m" using assms(1) by (simp add: agrees_def)
  from sem_signal_result [OF assms(2) d] obtain s where s: "get_sem m ref = Inr s" "core < length (count_by_core s)"
    "m' = set_sem m ref (s\<lparr>count_by_core := (count_by_core s)[core := int32 (count_by_core s ! core + inc)],
      sem_clocks := (sem_clocks s)[core := Some (case sem_clocks s ! core of None \<Rightarrow> c | Some g \<Rightarrow> update_vector_clock g c)]\<rparr>)" .
  have "sem_signal (shared M) ref inc core (Some c) = Inr (set_sem (shared M) ref
      (s\<lparr>count_by_core := (count_by_core s)[core := int32 (count_by_core s ! core + inc)],
      sem_clocks := (sem_clocks s)[core := Some (case sem_clocks s ! core of None \<Rightarrow> c | Some g \<Rightarrow> update_vector_clock g c)]\<rparr>))"
    using s(1,2) assms(1) get_sem_agrees [OF assms(1), of ref] by (auto simp: sem_signal_def agrees_def split: option.splits)
  then show thesis using that agrees_set_sem [OF assms(1), of ref] s(3) assms(3) by simp
qed

lemma agrees_acquire:
  assumes "agrees f ds M m" "sem_try_acquire m ref v core = Inr (Some (c, m'))"
  obtains M' clock where "machine_step (Acquire ref core v) M = Some M'" "agrees f ds M' m'" "c = Some clock"
    "copies M' = copies M @ [(None, clock)]" "dma_clocks M' = dma_clocks M"
proof -
  from assms obtain clock where c: "c = Some clock"
    by (auto simp: sem_try_acquire_def agrees_def Let_def res_simps split: if_split_asm option.split_asm)
  from sem_try_acquire_result [OF assms(2) [unfolded c]] obtain s where s: "get_sem m ref = Inr s" "core < length (count_by_core s)"
    "sem_clocks s ! core = Some clock"
    "m' = set_sem m ref (s\<lparr>count_by_core := (count_by_core s)[core := int32 (count_by_core s ! core - v)]\<rparr>)" .
  have "\<not> count_by_core s ! core < v" using assms(2) s(1,2) by (auto simp: sem_try_acquire_def)
  then have "sem_try_acquire (shared M) ref v core = Inr (Some (Some clock, set_sem (shared M) ref
      (s\<lparr>count_by_core := (count_by_core s)[core := int32 (count_by_core s ! core - v)]\<rparr>)))"
    using s(1-3) assms(1) get_sem_agrees [OF assms(1), of ref] by (simp add: sem_try_acquire_def agrees_def Let_def)
  moreover have "agrees f ds (M\<lparr>shared := set_sem (shared M) ref s', copies := cs\<rparr>) (set_sem m ref s')" for s' cs
    using agrees_set_sem [OF assms(1), of ref s'] by (simp add: agrees_def)
  ultimately show thesis using that c s(4) by simp
qed

lemma agrees_finish:
  assumes "agrees f ds M m" "sem_wait_finish m core (Some c) = Inr m'" "nth_opt (copies M) t = Some (eo, c)"
  obtains M' where "machine_step (FinishWait core t) M = Some M'" "agrees f ds M' m'" "copies M' = copies M"
    "dma_clocks M' = dma_clocks M"
proof -
  from assms(2) have c: "core < length (clocks m)" "m' = m\<lparr>clocks := (clocks m)[core := update_vector_clock (clocks m ! core) c]\<rparr>"
    by (auto simp: sem_wait_finish_def split: if_splits)
  then show thesis using that assms(1,3) by (simp add: sem_wait_finish_def agrees_def)
qed

lemma agrees_check:
  assumes "agrees f ds M m" "nth_opt (copies M) t = Some (Some e, c)"
    and "perform_check (kind, key, \<lparr>acc_device = dev, acc_core = cor, acc_clock = c, acc_range = rnge\<rparr>) (races m) = Inr rs"
  obtains M' where "machine_step (Check kind key dev cor rnge t) M = Some M'" "agrees f ds M' (m\<lparr>races := rs\<rparr>)"
    "length (copies M') = length (copies M)" "dma_clocks M' = dma_clocks M" "\<forall>u. u \<noteq> t \<longrightarrow> nth_opt (copies M') u = nth_opt (copies M) u"
proof -
  have "races (shared M) = races m" using assms(1) by (simp add: agrees_def)
  then show thesis using that assms by (simp add: agrees_def Let_def nth_opt_def)
qed

text \<open>Changes of the other parts of the memory are not seen.\<close>

lemma agrees_frame:
  assumes "agrees f ds M m" "num_devices m' = num_devices m" "num_cores_per_device m' = num_cores_per_device m"
    "detect_races m' = detect_races m" "vector_clock_size m' = vector_clock_size m" "clocks m' = clocks m"
    "sems m' = sems m" "fixed_id_sem m' = fixed_id_sem m" "races m' = races m" "next_dma_id m' = next_dma_id m"
  shows "agrees f ds M m'"
  using assms by (simp add: agrees_def)

lemma agrees_barrier:
  assumes "agrees f ds M m" "high \<le> num_cores m"
  obtains M' where "reaches M M'" "agrees f ds M' (update_clocks m low high)"
proof (cases "low < high")
  case True
  define M' where "M' = M\<lparr>shared := update_clocks (shared M) low high\<rparr>"
  have "machine_step (Sync low high) M = Some M'"
    using True assms num_cores_agrees [OF assms(1)] by (simp add: M'_def)
  moreover have "agrees f ds M' (update_clocks m low high)"
    using assms(1) by (simp add: agrees_def M'_def update_clocks_def Let_def)
  ultimately show thesis using that reaches_step by blast
next
  case False
  then have "update_clocks m low high = m" by (simp add: update_clocks_def)
  then show thesis using that [OF reaches_refl] assms(1) by simp
qed

text \<open>The clock of a DMA.\<close>

lemma agrees_dma_tick:
  assumes "agrees f ds M m" "ds i = Some D" "dma_clock D' = dma_clock D" "virtual_device_id D' = virtual_device_id D"
    and "dma_tick m i D' = Inr D''"
  obtains M' where "machine_step (TickDma (f i)) M = Some M'" "agrees f (ds(i := Some D'')) M' m"
    "nth_opt (copies M') (length (copies M)) = Some (Some (length (event_log M)), dma_clock D'')"
    "virtual_device_id D'' = virtual_device_id D"
proof -
  have at: "nth_opt (dma_clocks M) (f i) = Some (virtual_device_id D, dma_clock D)" "i < next_dma_id m" "detect_races m"
    using assms(1,2) by (simp_all add: agrees_def)
  from assms(3-5) at(3) obtain c where c: "inc_vector_clock (dma_clock D) (virtual_device_id D) = Inr c" "D'' = D'\<lparr>dma_clock := c\<rparr>"
    by (auto simp: dma_tick_def res_simps)
  let ?M = "M\<lparr>dma_clocks := (dma_clocks M)[f i := (virtual_device_id D, c)],
             copies := copies M @ [(Some (length (event_log M)), c)], event_log := event_log M @ [(virtual_device_id D, c)]\<rparr>"
  have step: "machine_step (TickDma (f i)) M = Some ?M" using at(1) c(1) by simp
  have fi: "f i < length (dma_clocks M)" using at(1) by (auto simp: nth_opt_def split: if_splits)
  have inj: "inj_on f (dom ds)" using assms(1) by (simp add: agrees_def)
  have "j < next_dma_id m \<and> nth_opt (dma_clocks ?M) (f j) = Some (virtual_device_id E, dma_clock E)"
    if "(ds(i := Some D'')) j = Some E" for j E
  proof (cases "j = i")
    case True
    then show ?thesis using that at(2) fi c(2) assms(4) by (auto simp: nth_opt_def)
  next
    case False
    then have "ds j = Some E" using that by simp
    moreover from this have "f j \<noteq> f i" using inj_onD [OF inj, of j i] assms(2) False by auto
    moreover from \<open>ds j = Some E\<close> have "j < next_dma_id m" "nth_opt (dma_clocks M) (f j) = Some (virtual_device_id E, dma_clock E)"
      using assms(1) by (simp_all add: agrees_def)
    ultimately show ?thesis by (auto simp: nth_opt_def split: if_splits)
  qed
  moreover have "inj_on f (dom (ds(i := Some D'')))"
    using inj assms(2) by (simp add: domI insert_absorb)
  ultimately have "agrees f (ds(i := Some D'')) ?M m" using assms(1) by (simp add: agrees_def)
  then show thesis using that [OF step] c(2) assms(4) by (simp add: nth_opt_def)
qed

text \<open>Memory accesses. \<open>src\<close> is \<open>None\<close>, or the clock of an operation of a DMA.\<close>

definition src_ok :: "'a machine \<Rightarrow> (int \<times> int \<times> vector_clock option) option \<Rightarrow> bool" where
  "src_ok M src \<longleftrightarrow> (case src of None \<Rightarrow> True
     | Some (d, c, clock) \<Rightarrow> \<exists>cl t e. clock = Some cl \<and> nth_opt (copies M) t = Some (Some e, cl))"

lemma agrees_access:
  assumes "agrees f ds M m" "tick m core = Inr (own, m1)" "src_ok M src" "m2 = m1\<lparr>mem := mm\<rparr>"
    and "(case src of None \<Rightarrow> (dev, cor, own) | Some (d, c, cl) \<Rightarrow> (d, c, case cl of None \<Rightarrow> own | Some x \<Rightarrow> Some x))
      = (dev', cor', Some clock)"
    and "perform_check (kind, key, \<lparr>acc_device = dev', acc_core = cor', acc_clock = clock, acc_range = rnge\<rparr>) (races m1) = Inr rs"
  obtains M' where "reaches M M'" "agrees f ds M' (m2\<lparr>races := rs\<rparr>)"
proof -
  from agrees_tick [OF assms(1,2)] obtain M1 cl where M1: "machine_step (Tick core) M = Some M1" "agrees f ds M1 m1" "own = Some cl"
    "copies M1 = copies M @ [(Some (length (event_log M)), cl)]" .
  have "\<exists>t e. nth_opt (copies M1) t = Some (Some e, clock)"
  proof (cases src)
    case None
    then have "cl = clock" using assms(5) M1(3) by simp
    then show ?thesis using M1(4) by (intro exI [of _ "length (copies M)"] exI [of _ "length (event_log M)"]) (simp add: nth_opt_def)
  next
    case (Some q)
    then obtain d c x t e where q: "src = Some (d, c, Some x)" "nth_opt (copies M) t = Some (Some e, x)"
      using assms(3) by (cases q) (auto simp: src_ok_def)
    then have "x = clock" using assms(5) by simp
    then show ?thesis using q(2) M1(4) by (intro exI [of _ t] exI [of _ e]) (auto simp: nth_opt_def nth_append split: if_splits)
  qed
  then obtain t e where te: "nth_opt (copies M1) t = Some (Some e, clock)" by blast
  from agrees_check [OF M1(2) te assms(6)] obtain M2 where M2: "machine_step (Check kind key dev' cor' rnge t) M1 = Some M2"
    "agrees f ds M2 (m1\<lparr>races := rs\<rparr>)" .
  have "agrees f ds M2 (m2\<lparr>races := rs\<rparr>)" by (rule agrees_frame [OF M2(2)]) (simp_all add: assms(4))
  then show thesis using that reaches_trans [OF reaches_step [OF M1(1)] reaches_step [OF M2(1)]] by blast
qed

text \<open>The parts of the memory that DMAs use are left alone by the other operations.\<close>

abbreviation same_dmas :: "'a shared_memory \<Rightarrow> 'a shared_memory \<Rightarrow> bool" where
  "same_dmas m m' \<equiv> dmas m' = dmas m \<and> next_dma_id m' = next_dma_id m \<and> tasks_by_sem m' = tasks_by_sem m"

lemma tick_same_dmas: "tick m core = Inr (c, m') \<Longrightarrow> same_dmas m m'"
  by (auto simp: tick_def res_simps split: if_splits)

lemma sem_signal_same_dmas: "sem_signal m ref inc core c = Inr m' \<Longrightarrow> same_dmas m m'"
  by (auto simp: sem_signal_def Let_def res_simps split: if_splits option.splits)

lemma get_buffer_content_result:
  assumes "get_buffer_content np m key rnge core = Inr (r, a, c, m')"
  shows "tick m core = Inr (c, m')"
  using assms by (auto simp: get_buffer_content_def res_simps)

lemma store_buffer_content_result:
  assumes "store_buffer_content np m key rnge v core = Inr (r, c, m')"
  obtains m1 mm where "tick m core = Inr (c, m1)" "m' = m1\<lparr>mem := mm\<rparr>"
proof -
  from assms have "\<exists>m1. tick m core = Inr (c, m1) \<and> m' = m1\<lparr>mem := mem m'\<rparr>"
    by (auto simp: store_buffer_content_def set_content_def res_simps split: option.splits if_splits)
  then show thesis using that by blast
qed

lemma rbindE [elim!]: "rbind m f = Inr y \<Longrightarrow> (\<And>x. m = Inr x \<Longrightarrow> f x = Inr y \<Longrightarrow> R) \<Longrightarrow> R"
  by (cases m) simp_all

lemma swap_buffer_content_result:
  assumes "swap_buffer_content np m key rnge v k core = Inr (r, c, m')"
  obtains m1 mm where "tick m core = Inr (c, m1)" "m' = m1\<lparr>mem := mm\<rparr>"
proof -
  from assms have "\<exists>m1. tick m core = Inr (c, m1) \<and> m' = m1\<lparr>mem := mem m'\<rparr>"
    unfolding swap_buffer_content_def
    by (elim rbindE, clarsimp, elim rbindE)
      (auto simp: set_content_def Let_def split: option.split_asm if_split_asm)
  then show thesis using that by blast
qed

lemma access_tail:
  assumes "(if \<not> d then z else case S of (dev, cor, clock) \<Rightarrow>
      (case clock of None \<Rightarrow> Inl e | Some c \<Rightarrow> rbind (chk dev cor c) (\<lambda>rs. Inr (g rs)))) = Inr y" "d"
  shows "\<exists>dev cor c rs. S = (dev, cor, Some c) \<and> chk dev cor c = Inr rs \<and> y = g rs"
  using assms by (cases S) (auto split: option.splits simp: res_simps)

lemma access_case:
  assumes "(case S of (dev, cor, clock) \<Rightarrow>
      (case clock of None \<Rightarrow> Inl e | Some c \<Rightarrow> rbind (chk dev cor c) (\<lambda>rs. Inr (g rs)))) = Inr y"
  shows "\<exists>dev cor c rs. S = (dev, cor, Some c) \<and> chk dev cor c = Inr rs \<and> y = g rs"
  using assms by (cases S) (auto split: option.splits simp: res_simps)

text \<open>The result of an access: the tick, and the check when races are detected.\<close>

definition access_done :: "access_kind \<Rightarrow> 'a shared_memory \<Rightarrow> int \<Rightarrow> int \<Rightarrow> buffer_key \<Rightarrow>
    (int \<times> int \<times> vector_clock option) option \<Rightarrow> 'a shared_memory \<Rightarrow> bool" where
  "access_done kind m dev cor key src m' \<longleftrightarrow> (\<exists>own m1 mm rnge. tick m (get_global_core_id m dev cor) = Inr (own, m1) \<and>
     (detect_races m1 \<longrightarrow> (\<exists>dev' cor' clock rs.
       (case src of None \<Rightarrow> (dev, cor, own) | Some (d, c, cl) \<Rightarrow> (d, c, case cl of None \<Rightarrow> own | Some x \<Rightarrow> Some x)) = (dev', cor', Some clock) \<and>
       perform_check (kind, key, \<lparr>acc_device = dev', acc_core = cor', acc_clock = clock, acc_range = rnge\<rparr>) (races m1) = Inr rs \<and>
       m' = m1\<lparr>mem := mm, races := rs\<rparr>)))"

lemma access_doneI:
  assumes "tick m (get_global_core_id m dev cor) = Inr (own, m1)" "m2 = m1\<lparr>mem := mm\<rparr>"
    and "detect_races m2 \<Longrightarrow> \<exists>dev' cor' clock rs.
      (case src of None \<Rightarrow> (dev, cor, own) | Some (d, c, cl) \<Rightarrow> (d, c, case cl of None \<Rightarrow> own | Some x \<Rightarrow> Some x)) = (dev', cor', Some clock) \<and>
      perform_check (kind, key, \<lparr>acc_device = dev', acc_core = cor', acc_clock = clock, acc_range = rnge\<rparr>) (races m2) = Inr rs \<and>
      m' = m2\<lparr>races := rs\<rparr>"
  shows "access_done kind m dev cor key src m'"
  unfolding access_done_def
  by (rule exI [of _ own], rule exI [of _ m1], rule exI [of _ mm], rule exI [of _ rnge]) (use assms in auto)

lemma mem_get_result:
  assumes "mem_get np m dev cor sp i tr src = Inr (x, m')"
  shows "access_done ReadAccess m dev cor (sp, i, dev, local_core_id_or_zero_if_hbm cor sp) src m'"
proof -
  have same: "m1 = m1\<lparr>mem := mem m1\<rparr>" for m1 :: "'a shared_memory" by simp
  show ?thesis using assms unfolding mem_get_def Let_def
    apply (elim rbindE)
    apply (simp only: split_paired_all prod.case)
    apply (elim rbindE)
    apply (rule access_doneI [OF get_buffer_content_result same], assumption)
    apply (drule access_tail, assumption)
    apply (auto simp: perform_check_def)
    done
qed

lemma mem_store_result:
  assumes "mem_store np m dev cor sp i tr v src = Inr m'"
  shows "access_done WriteAccess m dev cor (sp, i, dev, local_core_id_or_zero_if_hbm cor sp) src m'"
  using assms unfolding mem_store_def Let_def
  apply (elim rbindE)
  apply (simp only: split_paired_all prod.case)
  apply (erule store_buffer_content_result)
  apply (rule access_doneI, assumption, assumption)
  apply (simp only: if_split_asm Inl_Inr_False simp_thms not_not if_False if_True split: if_split_asm)
  apply (drule access_case)
  apply (auto simp: perform_check_def)
  done

lemma mem_swap_result:
  assumes "mem_swap np m dev cor sp i tr v k = Inr (x, m')"
  shows "access_done WriteAccess m dev cor (sp, i, dev, local_core_id_or_zero_if_hbm cor sp) None m'"
  using assms unfolding mem_swap_def Let_def
  apply (elim rbindE)
  apply (simp only: split_paired_all prod.case)
  apply (erule swap_buffer_content_result)
  apply (rule access_doneI, assumption, assumption)
  apply (auto simp: perform_check_def res_simps split: option.split_asm if_split_asm)
  done
lemma agrees_access_done:
  assumes "agrees f ds M m" "access_done kind m dev cor key src m'" "src_ok M src"
  obtains M' where "reaches M M'" "agrees f ds M' m'" "same_dmas m m'"
proof -
  from assms(2) obtain own m1 mm rnge where t: "tick m (get_global_core_id m dev cor) = Inr (own, m1)"
    "detect_races m1 \<Longrightarrow> \<exists>dev' cor' clock rs.
       (case src of None \<Rightarrow> (dev, cor, own) | Some (d, c, cl) \<Rightarrow> (d, c, case cl of None \<Rightarrow> own | Some x \<Rightarrow> Some x)) = (dev', cor', Some clock) \<and>
       perform_check (kind, key, \<lparr>acc_device = dev', acc_core = cor', acc_clock = clock, acc_range = rnge\<rparr>) (races m1) = Inr rs \<and>
       m' = m1\<lparr>mem := mm, races := rs\<rparr>"
    unfolding access_done_def by blast
  from agrees_tick [OF assms(1) t(1)] have "detect_races m1" by (auto simp: agrees_def)
  from t(2) [OF this] obtain dev' cor' clock rs where c:
    "(case src of None \<Rightarrow> (dev, cor, own) | Some (d, c, cl) \<Rightarrow> (d, c, case cl of None \<Rightarrow> own | Some x \<Rightarrow> Some x)) = (dev', cor', Some clock)"
    "perform_check (kind, key, \<lparr>acc_device = dev', acc_core = cor', acc_clock = clock, acc_range = rnge\<rparr>) (races m1) = Inr rs"
    "m' = m1\<lparr>mem := mm, races := rs\<rparr>" by blast
  from agrees_access [OF assms(1) t(1) assms(3) refl c(1,2)] obtain M' where
    "reaches M M'" "agrees f ds M' (m1\<lparr>mem := mm, races := rs\<rparr>)" by auto
  then show thesis using that c(3) tick_same_dmas [OF t(1)] by simp
qed

lemma agrees_same_clock:
  assumes "agrees f ds M m" "ds i = Some D" "dma_clock D' = dma_clock D" "virtual_device_id D' = virtual_device_id D"
  shows "agrees f (ds(i := Some D')) M m"
proof -
  have "dom (ds(i := Some D')) = dom ds" using assms(2) by auto
  then show ?thesis using assms unfolding agrees_def by simp
qed

lemma agrees_set_dma: "agrees f ds M m \<Longrightarrow> agrees f ds M (set_dma m i D)"
  by (rule agrees_frame) (simp_all add: set_dma_def)

text \<open>An operation of a DMA between two others on its clock.\<close>

lemma agrees_dma_access:
  assumes "agrees f ds M m" "ds i = Some D" "dma_tick m i D = Inr D1"
    and "access_done kind m dev cor key (Some (i, 0, Some (dma_clock D1))) m1"
    and "dma_clock D1' = dma_clock D1" "virtual_device_id D1' = virtual_device_id D1" "dma_tick m1 i D1' = Inr D2"
  obtains M' t e where "reaches M M'" "agrees f (ds(i := Some D2)) M' m1" "same_dmas m m1"
    "nth_opt (copies M') t = Some (Some e, dma_clock D2)"
proof -
  from agrees_dma_tick [OF assms(1,2) refl refl assms(3)] obtain M1 where M1:
    "machine_step (TickDma (f i)) M = Some M1" "agrees f (ds(i := Some D1)) M1 m"
    "nth_opt (copies M1) (length (copies M)) = Some (Some (length (event_log M)), dma_clock D1)" .
  have "src_ok M1 (Some (i, 0, Some (dma_clock D1)))" using M1(3) by (auto simp: src_ok_def)
  from agrees_access_done [OF M1(2) assms(4) this] obtain M2 where M2: "reaches M1 M2" "agrees f (ds(i := Some D1)) M2 m1" "same_dmas m m1" .
  have "(ds(i := Some D1)) i = Some D1" by simp
  from agrees_dma_tick [OF M2(2) this assms(5-7)] obtain M3 where M3:
    "machine_step (TickDma (f i)) M2 = Some M3" "agrees f (ds(i := Some D1, i := Some D2)) M3 m1"
    "nth_opt (copies M3) (length (copies M2)) = Some (Some (length (event_log M2)), dma_clock D2)" .
  have "reaches M M3" using reaches_trans [OF reaches_step [OF M1(1)] reaches_trans [OF M2(1) reaches_step [OF M3(1)]]] .
  then show thesis using that M3(2,3) M2(3) by simp
qed

lemma agrees_dma_read:
  assumes "agrees f (dmas m) M m" "dma_execute_read np m i = Inr m'"
  obtains M' where "reaches M M'" "agrees f (dmas m') M' m'" "tasks_by_sem m' = tasks_by_sem m"
proof -
  from assms(2) obtain D where D: "get_dma m i = Inr D" by (auto simp: dma_execute_read_def)
  then have d: "dmas m i = Some D" by (auto simp: get_dma_def split: option.splits)
  show thesis
  proof (cases "dma_phase D = STARTED")
    case False
    then have "m' = m" using assms(2) D by (simp add: dma_execute_read_def)
    then show thesis using that [OF reaches_refl] assms(1) by simp
  next
    case True
    have "\<not> dma_phase D \<noteq> STARTED" using True by simp
    from assms(2) [unfolded dma_execute_read_def D rbind_Inr if_not_P [OF this]] obtain D1 x m1 D2 m2 where r: "dma_tick m i D = Inr D1"
      "mem_get np m (src_device_id D1) (src_local_core_id D1) (src_space D1) (src_buffer_id D1) (src_transforms D1)
         (Some (i, 0, Some (dma_clock D1))) = Inr (x, m1)"
      "dma_tick m1 i (D1\<lparr>dma_data := Some x\<rparr>) = Inr D2"
      "(case src_sem D2 of None \<Rightarrow> Inr m1
          | Some ref \<Rightarrow> sem_signal m1 ref (np_nbytes np x) (get_global_core_id m1 (src_device_id D2) (src_local_core_id D2))
              (Some (dma_clock D2))) = Inr m2"
      "m' = set_dma m2 i (D2\<lparr>dma_phase := READ\<rparr>)"
      by - (elim rbindE, simp only: split_paired_all prod.case, elim rbindE, rule that, assumption+, simp)
    have side: "dma_clock (D1\<lparr>dma_data := Some x\<rparr>) = dma_clock D1" "virtual_device_id (D1\<lparr>dma_data := Some x\<rparr>) = virtual_device_id D1"
      by simp_all
    from agrees_dma_access [OF assms(1) d r(1) mem_get_result [OF r(2)] side r(3)] obtain M1 t e where M1:
      "reaches M M1" "agrees f ((dmas m)(i := Some D2)) M1 m1" "same_dmas m m1" "nth_opt (copies M1) t = Some (Some e, dma_clock D2)" .
    obtain M2 where M2: "reaches M1 M2" "agrees f ((dmas m)(i := Some D2)) M2 m2" "same_dmas m1 m2"
    proof (cases "src_sem D2")
      case None
      then show thesis using that [OF reaches_refl] M1(2) r(4) by simp
    next
      case (Some ref)
      then have sig: "sem_signal m1 ref (np_nbytes np x) (get_global_core_id m1 (src_device_id D2) (src_local_core_id D2))
          (Some (dma_clock D2)) = Inr m2" using r(4) by simp
      from agrees_signal [OF M1(2) sig M1(4)] obtain M2 where M2:
        "machine_step (Signal t ref (get_global_core_id m1 (src_device_id D2) (src_local_core_id D2)) (np_nbytes np x)) M1 = Some M2"
        "agrees f ((dmas m)(i := Some D2)) M2 m2" .
      show thesis by (rule that [OF reaches_step [OF M2(1)] M2(2) sem_signal_same_dmas [OF sig]])
    qed
    have "agrees f ((dmas m)(i := Some D2, i := Some (D2\<lparr>dma_phase := READ\<rparr>))) M2 m2"
      by (rule agrees_same_clock [OF M2(2)]) simp_all
    then have "agrees f ((dmas m)(i := Some (D2\<lparr>dma_phase := READ\<rparr>))) M2 m'" unfolding r(5) by (auto intro: agrees_set_dma)
    moreover have "dmas m' = (dmas m)(i := Some (D2\<lparr>dma_phase := READ\<rparr>))" "tasks_by_sem m' = tasks_by_sem m"
      using M1(3) M2(3) by (simp_all add: r(5) set_dma_def)
    ultimately show thesis using that reaches_trans [OF M1(1) M2(1)] by simp
  qed
qed

lemma agrees_dma_write:
  assumes "agrees f (dmas m) M m" "dma_execute_write np m i = Inr m'"
  obtains M' where "reaches M M'" "agrees f (dmas m') M' m'" "tasks_by_sem m' = tasks_by_sem m"
proof -
  from assms(2) obtain D where D: "get_dma m i = Inr D" by (auto simp: dma_execute_write_def)
  then have d: "dmas m i = Some D" by (auto simp: get_dma_def split: option.splits)
  show thesis
  proof (cases "dma_phase D = COMPLETED")
    case True
    then have "m' = m" using assms(2) D by (simp add: dma_execute_write_def rassert_def)
    then show thesis using that [OF reaches_refl] assms(1) by simp
  next
    case False
    from assms(2) [unfolded dma_execute_write_def D rbind_Inr if_not_P [OF this]] obtain u x D1 m1 D2 m2 where r:
      "rassert (dma_phase D \<noteq> STARTED) = Inr u" "the_data D = Inr x" "dma_tick m i D = Inr D1"
      "mem_store np m (dst_device_id D1) (dst_local_core_id D1) (dst_space D1) (dst_buffer_id D1) (dst_transforms D1) x
         (Some (i, 0, Some (dma_clock D1))) = Inr m1"
      "dma_tick m1 i D1 = Inr D2"
      "sem_signal m1 (dst_sem D2) (np_nbytes np x) (get_global_core_id m1 (dst_device_id D2) (dst_local_core_id D2))
         (Some (dma_clock D2)) = Inr m2"
      "m' = set_dma m2 i (D2\<lparr>dma_data := None, dma_phase := COMPLETED\<rparr>)"
      by - (elim rbindE, rule that, assumption+, simp)
    from agrees_dma_access [OF assms(1) d r(3) mem_store_result [OF r(4)] refl refl r(5)] obtain M1 t e where M1:
      "reaches M M1" "agrees f ((dmas m)(i := Some D2)) M1 m1" "same_dmas m m1" "nth_opt (copies M1) t = Some (Some e, dma_clock D2)" .
    from agrees_signal [OF M1(2) r(6) M1(4)] obtain M2 where M2:
      "machine_step (Signal t (dst_sem D2) (get_global_core_id m1 (dst_device_id D2) (dst_local_core_id D2)) (np_nbytes np x)) M1 = Some M2"
      "agrees f ((dmas m)(i := Some D2)) M2 m2" .
    let ?D = "D2\<lparr>dma_data := None, dma_phase := COMPLETED\<rparr>"
    have "agrees f ((dmas m)(i := Some D2, i := Some ?D)) M2 m2"
      by (rule agrees_same_clock [OF M2(2)]) simp_all
    then have "agrees f ((dmas m)(i := Some ?D)) M2 m'" unfolding r(7) by (auto intro: agrees_set_dma)
    moreover have "dmas m' = (dmas m)(i := Some ?D)" "tasks_by_sem m' = tasks_by_sem m"
      using M1(3) sem_signal_same_dmas [OF r(6)] by (simp_all add: r(7) set_dma_def)
    ultimately show thesis using that reaches_trans [OF M1(1) reaches_step [OF M2(1)]] by simp
  qed
qed

lemma agrees_run_task:
  assumes "agrees f (dmas m) M m" "run_task np m tsk = Inr m'"
  obtains M' where "reaches M M'" "agrees f (dmas m') M' m'" "tasks_by_sem m' = tasks_by_sem m"
proof (cases tsk)
  case (ExecuteRead i)
  then have "dma_execute_read np m i = Inr m'" using assms(2) by simp
  from agrees_dma_read [OF assms(1) this] show thesis using that .
next
  case (ExecuteReadAndWrite i)
  then obtain m1 where m1: "dma_execute_read np m i = Inr m1" "dma_execute_write np m1 i = Inr m'"
    using assms(2) by (auto simp: dma_execute_read_and_write_def)
  from agrees_dma_read [OF assms(1) m1(1)] obtain M1 where M1: "reaches M M1" "agrees f (dmas m1) M1 m1" "tasks_by_sem m1 = tasks_by_sem m" .
  from agrees_dma_write [OF M1(2) m1(2)] obtain M2 where M2: "reaches M1 M2" "agrees f (dmas m') M2 m'" "tasks_by_sem m' = tasks_by_sem m1" .
  show thesis using that [OF reaches_trans [OF M1(1) M2(1)] M2(2)] M2(3) M1(3) by simp
qed

text \<open>Waiting.\<close>

lemma sem_try_acquire_same_dmas: "sem_try_acquire m ref v core = Inr (Some (c, m')) \<Longrightarrow> same_dmas m m'"
  by (auto simp: sem_try_acquire_def Let_def res_simps split: if_split_asm option.split_asm)

lemma sem_wait_finish_same_dmas: "sem_wait_finish m core c = Inr m' \<Longrightarrow> same_dmas m m'"
  by (auto simp: sem_wait_finish_def split: if_split_asm option.split_asm)

lemma agrees_sem_wait:
  assumes "agrees f ds M m" "sem_wait m ref v core = Inr (Some m')"
  obtains M' where "reaches M M'" "agrees f ds M' m'" "same_dmas m m'"
proof -
  from assms(2) obtain c m1 where w: "sem_try_acquire m ref v core = Inr (Some (c, m1))" "sem_wait_finish m1 core c = Inr m'"
    by (auto simp: sem_wait_def split: option.split_asm)
  from agrees_acquire [OF assms(1) w(1)] obtain M1 clock where M1: "machine_step (Acquire ref core v) M = Some M1" "agrees f ds M1 m1"
    "c = Some clock" "copies M1 = copies M @ [(None, clock)]" .
  have at: "nth_opt (copies M1) (length (copies M)) = Some (None, clock)" using M1(4) by (simp add: nth_opt_def)
  from agrees_finish [OF M1(2) w(2) [unfolded M1(3)] at] obtain M2 where
    M2: "machine_step (FinishWait core (length (copies M))) M1 = Some M2" "agrees f ds M2 m'" .
  show thesis
    using that [OF reaches_trans [OF reaches_step [OF M1(1)] reaches_step [OF M2(1)]] M2(2)]
      sem_try_acquire_same_dmas [OF w(1)] sem_wait_finish_same_dmas [OF w(2)] by simp
qed

lemma agrees_wait_tasks:
  assumes "agrees f (dmas m) M m" "sem_wait_tasks np fuel m ref v core = Inr (Some m')"
  shows "\<exists>M'. reaches M M' \<and> agrees f (dmas m') M' m'"
  using assms
proof (induction fuel arbitrary: m M)
  case 0
  then have "sem_wait m ref v core = Inr (Some m')"
    by (auto simp: sem_wait_tasks.simps [of _ 0] Let_def split: option.split_asm if_split_asm)
  from agrees_sem_wait [OF 0(1) this] obtain M' where "reaches M M'" "agrees f (dmas m) M' m'" "same_dmas m m'" .
  then show ?case by auto
next
  case (Suc fuel)
  from Suc.prems(2) obtain r where r: "sem_wait m ref v core = Inr r" by (auto simp: sem_wait_tasks.simps)
  show ?case
  proof (cases r)
    case (Some m1)
    then have w: "sem_wait m ref v core = Inr (Some m')" using Suc.prems(2) r by (simp add: sem_wait_tasks.simps)
    from agrees_sem_wait [OF Suc.prems(1) w] obtain M' where "reaches M M'" "agrees f (dmas m) M' m'" "same_dmas m m'" .
    then show ?thesis by auto
  next
    case None
    let ?q = "tasks_by_sem m (ref, core)"
    let ?m = "m\<lparr>tasks_by_sem := (tasks_by_sem m)((ref, core) := butlast ?q)\<rparr>"
    from Suc.prems(2) r None obtain m1 where t: "run_task np ?m (last ?q) = Inr m1" "sem_wait_tasks np fuel m1 ref v core = Inr (Some m')"
      by (auto simp: sem_wait_tasks.simps [of _ "Suc fuel"] Let_def split: if_split_asm)
    have "agrees f (dmas ?m) M ?m" using agrees_frame [OF Suc.prems(1), of ?m] by simp
    from agrees_run_task [OF this t(1)] obtain M1 where M1: "reaches M M1" "agrees f (dmas m1) M1 m1" .
    from Suc.IH [OF M1(2) t(2)] show ?thesis using reaches_trans [OF M1(1)] by blast
  qed
qed

text \<open>A new DMA gets the next number, and the clock of the core that starts it.\<close>

lemma agrees_new_dma:
  assumes "agrees f ds M m" "nth_opt (copies M) t = Some (eo, c)" "num_cores m \<le> vid" "vid < vector_clock_size m"
    and "virtual_device_id D = vid" "dma_clock D = c"
  obtains M' f' where "machine_step (StartDma t vid) M = Some M'"
    "agrees f' (ds(next_dma_id m := Some D)) M' (m\<lparr>next_dma_id := next_dma_id m + 1\<rparr>)"
proof -
  let ?i = "next_dma_id m" and ?d = "length (dma_clocks M)"
  let ?M = "M\<lparr>dma_clocks := dma_clocks M @ [(vid, c)]\<rparr>"
  have step: "machine_step (StartDma t vid) M = Some ?M"
    using assms(1-4) num_cores_agrees [OF assms(1)] by (simp add: agrees_def)
  have old: "j < ?i" "nth_opt (dma_clocks M) (f j) = Some (virtual_device_id E, dma_clock E)" if "ds j = Some E" for j E
    using assms(1) that by (simp_all add: agrees_def)
  then have small: "f j < ?d" if "ds j = Some E" for j E using that by (fastforce simp: nth_opt_def split: if_splits)
  have "j < ?i + 1 \<and> nth_opt (dma_clocks ?M) ((f(?i := ?d)) j) = Some (virtual_device_id E, dma_clock E)"
    if "(ds(?i := Some D)) j = Some E" for j E
  proof (cases "j = ?i")
    case True
    then show ?thesis using that assms(5,6) by (auto simp: nth_opt_def)
  next
    case False
    then have "ds j = Some E" using that by simp
    with old [of j E] small [of j E] False show ?thesis by (auto simp: nth_opt_def nth_append split: if_splits)
  qed
  moreover have "inj_on (f(?i := ?d)) (dom (ds(?i := Some D)))"
  proof (rule inj_onI)
    fix j k assume jk: "j \<in> dom (ds(?i := Some D))" "k \<in> dom (ds(?i := Some D))" "(f(?i := ?d)) j = (f(?i := ?d)) k"
    have in_ds: "j = ?i \<or> (\<exists>E. ds j = Some E)" "k = ?i \<or> (\<exists>E. ds k = Some E)" using jk(1,2) by (auto split: if_splits)
    have inj: "inj_on f (dom ds)" using assms(1) by (simp add: agrees_def)
    show "j = k"
    proof (cases "j = ?i \<or> k = ?i")
      case True
      then show ?thesis using in_ds jk(3) by (auto split: if_splits dest!: small)
    next
      case False
      then show ?thesis using in_ds jk(3) inj_onD [OF inj, of j k] by auto
    qed
  qed
  ultimately have "agrees (f(?i := ?d)) (ds(?i := Some D)) ?M (m\<lparr>next_dma_id := ?i + 1\<rparr>)"
    using assms(1) by (simp add: agrees_def)
  then show thesis using that [OF step] by blast
qed

lemma get_semaphores_result:
  assumes "get_semaphores_and_increment_clock m ids core = Inr (refs, c, m')"
  shows "tick m core = Inr (c, m')"
  using assms by (auto simp: get_semaphores_and_increment_clock_def res_simps)

lemma append_semaphore_task_agrees:
  assumes "agrees f (dmas m) M m"
  shows "agrees f (dmas (append_semaphore_task m ref core tsk)) M (append_semaphore_task m ref core tsk)"
  using agrees_frame [OF assms, of "append_semaphore_task m ref core tsk"] by (simp add: append_semaphore_task_def)

lemma num_cores_tick: "tick m core = Inr (c, m') \<Longrightarrow> num_cores m' = num_cores m \<and> vector_clock_size m' = vector_clock_size m"
  by (auto simp: tick_def num_cores_def res_simps split: if_splits)

lemma agrees_dma_start:
  fixes np :: "'a numpy"
  assumes "agrees f (dmas m) M m" "num_cores m \<le> vid" "vid < vector_clock_size m"
    and "dma_start np vid m dev cor ssp sid str dsp did dtr dsem ssem ddev = Inr m'"
  shows "\<exists>f' M'. reaches M M' \<and> agrees f' (dmas m') M' m'"
proof -
  let ?dev = "case ddev of None \<Rightarrow> dev | Some d \<Rightarrow> d"
  let ?src = "get_global_core_id m dev cor" and ?dst = "get_global_core_id m ?dev cor"
  obtain refs c m1 where s: "get_semaphores_and_increment_clock m [ssem, Some dsem] ?src = Inr (refs, c, m1)"
    using assms(4) by (auto simp: dma_start_def Let_def)
  note t = get_semaphores_result [OF s]
  from agrees_tick [OF assms(1) t] obtain M1 clock where M1: "machine_step (Tick ?src) M = Some M1" "agrees f (dmas m) M1 m1"
    "c = Some clock" "copies M1 = copies M @ [(Some (length (event_log M)), clock)]" .
  have at: "nth_opt (copies M1) (length (copies M)) = Some (Some (length (event_log M)), clock)" using M1(4) by (simp add: nth_opt_def)
  obtain src_ref dst_ref where refs: "refs = [src_ref, Some dst_ref]"
    using assms(4) s by (auto simp: dma_start_def Let_def split: list.split_asm option.split_asm)
  define D :: "'a dma" where "D = \<lparr>src_device_id = dev, src_local_core_id = cor, src_space = ssp, src_buffer_id = sid,
                   src_transforms = str, dst_device_id = ?dev, dst_local_core_id = cor,
                   dst_space = dsp, dst_buffer_id = did, dst_transforms = dtr, src_sem = src_ref,
                   dst_sem = dst_ref, virtual_device_id = vid, dma_clock = clock,
                   dma_phase = STARTED, dma_data = None\<rparr>"
  let ?i = "next_dma_id m1"
  define m2 where "m2 = set_dma (m1\<lparr>next_dma_id := ?i + 1\<rparr>) ?i D"
  have D: "virtual_device_id D = vid" "dma_clock D = clock" by (simp_all add: D_def)
  have vid: "num_cores m1 \<le> vid" "vid < vector_clock_size m1" using num_cores_tick [OF t] assms(2,3) by simp_all
  from agrees_new_dma [OF M1(2) at vid D] obtain M2 f' where M2: "machine_step (StartDma (length (copies M)) vid) M1 = Some M2"
    "agrees f' ((dmas m)(?i := Some D)) M2 (m1\<lparr>next_dma_id := ?i + 1\<rparr>)" .
  have dm: "dmas m2 = (dmas m)(?i := Some D)" using tick_same_dmas [OF t] by (simp add: m2_def set_dma_def)
  have a2: "agrees f' (dmas m2) M2 m2" unfolding dm unfolding m2_def by (rule agrees_set_dma [OF M2(2)])
  have r2: "reaches M M2" by (rule reaches_trans [OF reaches_step [OF M1(1)] reaches_step [OF M2(1)]])
  have run: "(if dma_execution_mode m2 = ''on_wait''
      then (case src_ref of
               None \<Rightarrow> Inr (append_semaphore_task m2 dst_ref ?dst (ExecuteReadAndWrite ?i))
             | Some r \<Rightarrow> Inr (append_semaphore_task (append_semaphore_task m2 r ?src (ExecuteRead ?i)) dst_ref ?dst (ExecuteReadAndWrite ?i)))
      else rbind (rassert (dma_execution_mode m2 = ''eager'')) (\<lambda>_. dma_execute_read_and_write np m2 ?i)) = Inr m'"
    using assms(4) unfolding dma_start_def Let_def s refs M1(3) rbind_Inr prod.case list.case option.case m2_def D_def .
  show ?thesis
  proof (cases "dma_execution_mode m2 = ''on_wait''")
    case True
    then have "agrees f' (dmas m') M2 m'"
      using run append_semaphore_task_agrees [OF a2] append_semaphore_task_agrees [OF append_semaphore_task_agrees [OF a2]]
      by (auto split: option.split_asm)
    then show ?thesis using r2 by blast
  next
    case False
    then have "run_task np m2 (ExecuteReadAndWrite ?i) = Inr m'" using run by auto
    from agrees_run_task [OF a2 this] obtain M3 where "reaches M2 M3" "agrees f' (dmas m') M3 m'" .
    then show ?thesis using reaches_trans [OF r2] by blast
  qed
qed

text \<open>Buffers come and go unseen.\<close>

lemma allocate_buffer_agrees: "agrees f ds M m \<Longrightarrow> agrees f ds M (allocate_buffer m key n v)"
  by (auto simp: allocate_buffer_def agrees_def)

lemma take_buffer_id_agrees: "agrees f ds M m \<Longrightarrow> agrees f ds M (snd (take_buffer_id m dev cor))"
  by (rule agrees_frame) (simp_all add: take_buffer_id_def Let_def)

lemma allocate_buffers_agrees:
  assumes "agrees f (dmas m) M m" "allocate_buffers m dev cor sp v = Inr (i, m')"
  shows "agrees f (dmas m') M m'"
proof -
  let ?g = "\<lambda>lci (ids, m). case take_buffer_id m dev lci of (buffer_id, m) \<Rightarrow>
      (ids @ [(lci, buffer_id)],
       if in_hbm sp then allocate_buffer m (sp, buffer_id, dev, 0) (int (num_cores_per_device m)) v
       else allocate_buffer m (sp, buffer_id, dev, lci) 1 v)"
  let ?cores = "case cor of None \<Rightarrow> map int [0..<num_cores_per_device m] | Some c \<Rightarrow> [c]"
  have step: "agrees f ds M (snd (?g lci (ids, m))) \<and> dmas (snd (?g lci (ids, m))) = dmas m" if "agrees f ds M m" for lci ids m ds
    using allocate_buffer_agrees [OF take_buffer_id_agrees [OF that]]
    by (simp add: Let_def split_beta allocate_buffer_def take_buffer_id_def)
  have "agrees f ds M (snd (fold ?g cs (ids, m))) \<and> dmas (snd (fold ?g cs (ids, m))) = dmas m" if "agrees f ds M m" for cs ids m ds
    using that
  proof (induction cs arbitrary: ids m)
    case (Cons c cs)
    obtain ids1 m1 where g: "?g c (ids, m) = (ids1, m1)" by (cases "?g c (ids, m)") blast
    have "agrees f ds M m1" "dmas m1 = dmas m" using step [OF Cons.prems, of c ids] unfolding g by simp_all
    then show ?case using Cons.IH [of m1 ids1] by (simp only: fold.simps comp_apply g)
  qed simp
  note inv = this [OF assms(1)]
  obtain ids m1 where F: "fold ?g ?cores ([], m) = (ids, m1)" by (cases "fold ?g ?cores ([], m)") blast
  have "m1 = m'" using assms(2) [unfolded allocate_buffers_def Let_def F prod.case] by (auto split: option.split_asm if_split_asm)
  then show ?thesis using inv [of ?cores "[]"] unfolding F by simp
qed

lemma deallocate_agrees:
  assumes "agrees f (dmas m) M m" "deallocate np m dev cor sp i = Inr m'"
  shows "agrees f (dmas m') M m'"
proof -
  have "dmas m' = dmas m \<and> agrees f (dmas m) M m'"
    using assms by (auto simp: deallocate_def deallocate_buffer_def Let_def agrees_def split: if_split_asm)
  then show ?thesis by simp
qed

text \<open>Every callback is simulated.\<close>

lemma access_done_simulated:
  assumes "agrees f (dmas m) M m" "access_done kind m dev cor key None m'"
  shows "\<exists>f' M'. reaches M M' \<and> agrees f' (dmas m') M' m'"
proof -
  have "src_ok M None" by (simp add: src_ok_def)
  from agrees_access_done [OF assms this] obtain M' where "reaches M M'" "agrees f (dmas m) M' m'" "same_dmas m m'" .
  then show ?thesis by (metis (no_types))
qed

lemma callback_simulated:
  assumes "agrees f (dmas m) M m" "callback_ok (num_devices m) (num_cores m) (vector_clock_size m) cb"
    and "run_callback np cb m = Inr (Some m')"
  shows "\<exists>f' M'. reaches M M' \<and> agrees f' (dmas m') M' m'"
proof (cases cb)
  case (Get dev cor sp i tr)
  then obtain x where "mem_get np m dev cor sp i tr None = Inr (x, m')" using assms(3) by auto
  from access_done_simulated [OF assms(1) mem_get_result [OF this]] show ?thesis .
next
  case (Store dev cor sp i tr v)
  then have "mem_store np m dev cor sp i tr v None = Inr m'" using assms(3) by auto
  from access_done_simulated [OF assms(1) mem_store_result [OF this]] show ?thesis .
next
  case (Swap dev cor sp i tr v k)
  then obtain x where "mem_swap np m dev cor sp i tr v k = Inr (x, m')" using assms(3) by auto
  from access_done_simulated [OF assms(1) mem_swap_result [OF this]] show ?thesis .
next
  case (SignalSem dev cor i inc tdev tcor)
  let ?src = "get_global_core_id m dev cor"
  from SignalSem assms(3) have sig: "semaphore_signal m dev cor i inc tdev tcor = Inr m'" by auto
  then obtain refs c m1 where s: "get_semaphores_and_increment_clock m [Some i] ?src = Inr (refs, c, m1)"
    by (auto simp: semaphore_signal_def Let_def)
  from sig s obtain ref target where r: "sem_signal m1 ref inc target c = Inr m'"
    by (auto simp: semaphore_signal_def Let_def split: list.split_asm option.split_asm)
  note t = get_semaphores_result [OF s]
  from agrees_tick [OF assms(1) t] obtain M1 clock where M1: "machine_step (Tick ?src) M = Some M1" "agrees f (dmas m) M1 m1"
    "c = Some clock" "copies M1 = copies M @ [(Some (length (event_log M)), clock)]" .
  have at: "nth_opt (copies M1) (length (copies M)) = Some (Some (length (event_log M)), clock)" using M1(4) by (simp add: nth_opt_def)
  from agrees_signal [OF M1(2) r [unfolded M1(3)] at] obtain M2 where
    M2: "machine_step (Signal (length (copies M)) ref target inc) M1 = Some M2" "agrees f (dmas m) M2 m'" .
  have "dmas m' = dmas m" using tick_same_dmas [OF t] sem_signal_same_dmas [OF r] by simp
  then show ?thesis using M2(2) reaches_trans [OF reaches_step [OF M1(1)] reaches_step [OF M2(1)]] by metis
next
  case (WaitSem dev cor i v)
  let ?core = "get_global_core_id m dev cor"
  from WaitSem assms(3) have w: "semaphore_wait m dev cor i v = Inr (Some m')" by auto
  then obtain refs c m1 where s: "get_semaphores_and_increment_clock m [Some i] ?core = Inr (refs, c, m1)"
    by (auto simp: semaphore_wait_def Let_def)
  from w s obtain ref where r: "sem_wait m1 ref v ?core = Inr (Some m')"
    by (auto simp: semaphore_wait_def Let_def split: list.split_asm option.split_asm)
  note t = get_semaphores_result [OF s]
  from agrees_tick [OF assms(1) t] obtain M1 where M1: "machine_step (Tick ?core) M = Some M1" "agrees f (dmas m) M1 m1" .
  from agrees_sem_wait [OF M1(2) r] obtain M2 where M2: "reaches M1 M2" "agrees f (dmas m) M2 m'" "same_dmas m1 m'" .
  have "dmas m' = dmas m" using tick_same_dmas [OF t] M2(3) by simp
  then show ?thesis using M2(2) reaches_trans [OF reaches_step [OF M1(1)] M2(1)] by metis
next
  case (DmaStart vid dev cor ssp sid str dsp did dtr dsem ssem ddev)
  then have "dma_start np vid m dev cor ssp sid str dsp did dtr dsem ssem ddev = Inr m'" using assms(3) by auto
  from agrees_dma_start [OF assms(1) _ _ this] show ?thesis using assms(2) DmaStart by simp
next
  case (DmaWait dev cor i sz)
  let ?core = "get_global_core_id m dev cor"
  from DmaWait assms(3) have w: "dma_wait np m dev cor i sz = Inr (Some m')" by auto
  then obtain refs c m1 where s: "get_semaphores_and_increment_clock m [Some i] ?core = Inr (refs, c, m1)"
    by (auto simp: dma_wait_def Let_def)
  from w s obtain ref fuel where r: "sem_wait_tasks np fuel m1 ref sz ?core = Inr (Some m')"
    by (auto simp: dma_wait_def Let_def split: list.split_asm option.split_asm)
  note t = get_semaphores_result [OF s]
  from agrees_tick [OF assms(1) t] obtain M1 where M1: "machine_step (Tick ?core) M = Some M1" "agrees f (dmas m) M1 m1" .
  have "agrees f (dmas m1) M1 m1" using M1(2) tick_same_dmas [OF t] by simp
  from agrees_wait_tasks [OF this r] show ?thesis using reaches_trans [OF reaches_step [OF M1(1)]] by blast
next
  case (DeviceBarrier d)
  then have m': "m' = update_clocks m (d * num_cores_per_device m) ((d + 1) * num_cores_per_device m)" "d < num_devices m"
    using assms(2,3) by (simp_all add: update_clocks_for_device_barrier_def)
  have "(d + 1) * num_cores_per_device m \<le> num_cores m" unfolding num_cores_def using m'(2) by (intro mult_le_mono1) simp
  from agrees_barrier [OF assms(1) this] obtain M' where
    "reaches M M'" "agrees f (dmas m) M' m'" unfolding m'(1) by blast
  moreover have "dmas m' = dmas m" unfolding m'(1) by (simp add: update_clocks_def Let_def)
  ultimately show ?thesis by metis
next
  case GlobalBarrier
  then have m': "m' = update_clocks m 0 (num_cores m)"
    using assms(3) by (simp add: update_clocks_for_global_barrier_def)
  from agrees_barrier [OF assms(1) order_refl] obtain M' where
    "reaches M M'" "agrees f (dmas m) M' m'" unfolding m' by blast
  moreover have "dmas m' = dmas m" unfolding m' by (simp add: update_clocks_def Let_def)
  ultimately show ?thesis by metis
next
  case (Allocate dev cor sp v)
  then obtain i where "allocate_buffers m dev cor sp v = Inr (i, m')" using assms(3) by auto
  from allocate_buffers_agrees [OF assms(1) this] show ?thesis using reaches_refl by blast
next
  case (Deallocate dev cor sp i)
  then have "deallocate np m dev cor sp i = Inr m'" using assms(3) by auto
  from deallocate_agrees [OF assms(1) this] show ?thesis using reaches_refl by blast
qed

text \<open>The sizes never change.\<close>

definition sizes :: "'a shared_memory \<Rightarrow> nat \<times> nat \<times> nat" where
  "sizes m = (num_devices m, num_cores_per_device m, vector_clock_size m)"

lemma sizes_set_sem [simp]: "sizes (set_sem m ref s) = sizes m"
  by (cases ref) (simp_all add: sizes_def)

lemma sizes_tick: "tick m core = Inr (c, m') \<Longrightarrow> sizes m' = sizes m"
  by (auto simp: tick_def sizes_def res_simps split: if_splits)

lemma sizes_signal: "sem_signal m ref inc core c = Inr m' \<Longrightarrow> sizes m' = sizes m"
  by (auto simp: sem_signal_def Let_def res_simps split: if_splits option.splits)

lemma sizes_acquire: "sem_try_acquire m ref v core = Inr (Some (c, m')) \<Longrightarrow> sizes m' = sizes m"
  by (auto simp: sem_try_acquire_def Let_def res_simps split: if_split_asm option.split_asm)

lemma sizes_finish: "sem_wait_finish m core c = Inr m' \<Longrightarrow> sizes m' = sizes m"
  by (auto simp: sem_wait_finish_def sizes_def split: if_split_asm option.split_asm)

lemma sizes_fields [simp]: "sizes (m\<lparr>clocks := cs\<rparr>) = sizes m" "sizes (m\<lparr>races := rs\<rparr>) = sizes m"
  by (simp_all add: sizes_def)

lemma sizes_step: "machine_step s M = Some M' \<Longrightarrow> sizes (shared M') = sizes (shared M)"
  by (cases s; auto simp: bind_eq_Some_conv to_option_Some update_clocks_def Let_def
      dest: sizes_tick sizes_signal sizes_acquire sizes_finish split: option.splits prod.splits if_splits)

lemma sizes_run: "machine_run ss M = Some M' \<Longrightarrow> sizes (shared M') = sizes (shared M)"
  by (induction ss arbitrary: M) (auto simp: bind_eq_Some_conv dest: sizes_step)

lemma sizes_agrees: "agrees f ds M m \<Longrightarrow> sizes (shared M) = sizes m"
  by (simp add: agrees_def sizes_def)

lemma callbacks_simulated:
  assumes "agrees f (dmas m) M m" "\<forall>cb \<in> set cbs. callback_ok (num_devices m) (num_cores m) (vector_clock_size m) cb"
    and "run_callbacks np cbs m = Inr (Some m')"
  shows "\<exists>f' M'. reaches M M' \<and> agrees f' (dmas m') M' m'"
  using assms
proof (induction cbs arbitrary: f m M)
  case Nil
  then have "m' = m" by simp
  then show ?case using Nil(1) reaches_refl by metis
next
  case (Cons cb cbs)
  from Cons.prems(3) obtain m1 where r: "run_callback np cb m = Inr (Some m1)" "run_callbacks np cbs m1 = Inr (Some m')"
    by (auto split: option.split_asm)
  from callback_simulated [OF Cons.prems(1) _ r(1)] Cons.prems(2) obtain f1 M1 where
    M1: "reaches M M1" "agrees f1 (dmas m1) M1 m1" by auto
  have "sizes m1 = sizes m" using M1(1) sizes_run sizes_agrees [OF M1(2)] sizes_agrees [OF Cons.prems(1)]
    unfolding reaches_def by metis
  then have "\<forall>cb \<in> set cbs. callback_ok (num_devices m1) (num_cores m1) (vector_clock_size m1) cb"
    using Cons.prems(2) by (simp add: sizes_def num_cores_def)
  from Cons.IH [OF M1(2) this r(2)] obtain f2 M2 where "reaches M1 M2" "agrees f2 (dmas m') M2 m'" by blast
  then show ?case using reaches_trans [OF M1(1)] by blast
qed

lemma start_agrees: "fresh_memory n m \<Longrightarrow> dmas m = (\<lambda>_. None) \<Longrightarrow> agrees (\<lambda>_. 0) (dmas m) (start_machine m) m"
  by (simp add: agrees_def fresh_memory_def start_machine_def)

text \<open>A race that a program of callbacks reports is one of the machine run it stands for.\<close>

lemma callbacks_report_races:
  assumes "fresh_memory n m" "dmas m = (\<lambda>_. None)"
    and "\<forall>cb \<in> set cbs. callback_ok (num_devices m) (num_cores m) (vector_clock_size m) cb"
    and "run_callbacks np cbs m = Inr (Some m')"
  shows "\<exists>ss M. machine_run ss (start_machine m) = Some M \<and> clocks (shared M) = clocks m' \<and> races (shared M) = races m' \<and>
    (length (event_log M) < 2 ^ 31 \<longrightarrow> races_found (races m') \<longrightarrow>
      (\<exists>i j. i < j \<and> j < length (checked M) \<and> same_data (fst (checked M ! i)) (fst (checked M ! j)) \<and>
        concurrent ss (snd (checked M ! i)) (snd (checked M ! j))))"
proof -
  from callbacks_simulated [OF start_agrees [OF assms(1,2)] assms(3,4)] obtain ss M f' where
    M: "machine_run ss (start_machine m) = Some M" "agrees f' (dmas m') M m'" unfolding reaches_def by blast
  then have "clocks (shared M) = clocks m'" "races (shared M) = races m'" by (simp_all add: agrees_def)
  then show ?thesis using M(1) reported_race_is_race [OF assms(1) M(1)] by metis
qed

end
