(* ===== verification/SemLiveness.thy ===== *)
theory SemLiveness
  imports Callbacks
begin

text \<open>
  Waiting ends: a wait returns once its count has been signalled, and the loop of a wait with
  tasks runs each task at most once.
\<close>

subsection \<open>Signalled counts are enough\<close>

text \<open>An invariant of the clocks, kept by every operation of a core.\<close>

definition clocks_wf :: "'a shared_memory \<Rightarrow> bool" where
  "clocks_wf m \<longleftrightarrow> length (clocks m) = num_cores m \<and> (\<forall>c \<in> set (clocks m). length c = vector_clock_size m) \<and>
     num_cores m \<le> vector_clock_size m"

lemma clocks_wf_initial:
  "n_devices * n_cores \<le> n \<Longrightarrow> clocks_wf (initialize_shared_memory n_devices n_cores oob mode uninit detect n)"
  by (simp add: clocks_wf_def initialize_shared_memory_def num_cores_def make_vector_clock_def)

lemma clocks_wf_update:
  assumes "clocks_wf m" "length c = vector_clock_size m"
  shows "clocks_wf (m\<lparr>clocks := (clocks m)[i := c]\<rparr>)"
  using assms set_update_subset_insert [of "clocks m" i c] by (auto simp: clocks_wf_def)

lemma tick_ok:
  assumes "clocks_wf m" "core < num_cores m"
  obtains c m' where "tick m core = Inr (c, m')" "clocks_wf m'" "m' = m\<lparr>clocks := clocks m'\<rparr>"
    "detect_races m \<Longrightarrow> c = Some (clocks m' ! core)" "\<not> detect_races m \<Longrightarrow> c = None"
proof (cases "detect_races m")
  case False
  then have t: "tick m core = Inr (None, m)" by (simp add: tick_def)
  show ?thesis by (rule that [OF t assms(1)]) (simp_all add: False)
next
  case True
  have len: "core < length (clocks m)" "length (clocks m ! core) = vector_clock_size m" "core < vector_clock_size m"
    using assms by (auto simp: clocks_wf_def)
  let ?c = "(clocks m ! core)[core := int32 (clocks m ! core ! core + 1)]"
  let ?m = "m\<lparr>clocks := (clocks m)[core := ?c]\<rparr>"
  have t: "tick m core = Inr (Some ?c, ?m)" using True len by (simp add: tick_def inc_vector_clock_def)
  have "clocks_wf ?m" by (rule clocks_wf_update [OF assms(1)]) (simp add: len)
  then show ?thesis by (rule that [OF t]) (simp_all add: True len(1))
qed

definition sem_ok :: "'a shared_memory \<Rightarrow> sem_ref \<Rightarrow> semaphore \<Rightarrow> bool" where
  "sem_ok m ref s \<longleftrightarrow> get_sem m ref = Inr s \<and> length (count_by_core s) = num_cores m \<and> length (sem_clocks s) = num_cores m \<and>
     (\<forall>c \<in> set (sem_clocks s). \<forall>V. c = Some V \<longrightarrow> length V = vector_clock_size m)"

lemma signal_ok:
  assumes "clocks_wf m" "sem_ok m ref s" "target < num_cores m" "detect_races m \<longrightarrow> (\<exists>V. c = Some V \<and> length V = vector_clock_size m)"
  obtains m' s' where "sem_signal m ref inc target c = Inr m'" "m' = set_sem m ref s'" "sem_ok m' ref s'"
    "count_by_core s' ! target = int32 (count_by_core s ! target + inc)"
    "detect_races m \<Longrightarrow> \<exists>V. sem_clocks s' ! target = Some V \<and> length V = vector_clock_size m \<and> (\<forall>k < vector_clock_size m. the c ! k \<le> V ! k)"
proof -
  have s: "get_sem m ref = Inr s" "length (count_by_core s) = num_cores m" "length (sem_clocks s) = num_cores m"
    "\<And>V. Some V \<in> set (sem_clocks s) \<Longrightarrow> length V = vector_clock_size m" using assms(2) by (auto simp: sem_ok_def)
  let ?counts = "(count_by_core s)[target := int32 (count_by_core s ! target + inc)]"
  have upd: "x \<in> set (sem_clocks s) \<or> x = y" if "x \<in> set ((sem_clocks s)[target := y])" for x y :: "vector_clock option"
    using that set_update_subset_insert [of "sem_clocks s" target y] by auto
  show thesis
  proof (cases "detect_races m")
    case False
    let ?s = "s\<lparr>count_by_core := ?counts\<rparr>"
    have "sem_signal m ref inc target c = Inr (set_sem m ref ?s)" using False s assms(3) by (simp add: sem_signal_def Let_def)
    moreover have "sem_ok (set_sem m ref ?s) ref ?s" using s by (auto simp: sem_ok_def get_set_sem)
    ultimately show thesis using that [of _ ?s] False s(2) assms(3) by simp
  next
    case True
    then obtain V where V: "c = Some V" "length V = vector_clock_size m" using assms(4) by blast
    let ?W = "case sem_clocks s ! target of None \<Rightarrow> V | Some g \<Rightarrow> update_vector_clock g V"
    have W: "length ?W = vector_clock_size m \<and> (\<forall>k < vector_clock_size m. V ! k \<le> ?W ! k)"
    proof (cases "sem_clocks s ! target")
      case (Some g)
      then have "length g = vector_clock_size m" using s(3,4) assms(3) by (metis nth_mem)
      then show ?thesis using Some V(2) by (simp add: update_vector_clock_def)
    qed (simp add: V)
    let ?s = "s\<lparr>count_by_core := ?counts, sem_clocks := (sem_clocks s)[target := Some ?W]\<rparr>"
    have "sem_signal m ref inc target c = Inr (set_sem m ref ?s)"
      using True s V(1) assms(3) by (auto simp: sem_signal_def Let_def split: option.split)
    moreover have "sem_ok (set_sem m ref ?s) ref ?s" using s W by (auto simp: sem_ok_def get_set_sem dest!: upd)
    ultimately show thesis using that [of _ ?s] True s(2,3) assms(3) W V(1) by simp
  qed
qed

lemma find_semaphore_fields [simp]: "find_semaphore (m\<lparr>clocks := cs\<rparr>) i = find_semaphore m i"
  by (simp add: find_semaphore_def split: option.split)

lemma find_set_sem:
  assumes "find_semaphore m (Some i) = Inr (Some ref)"
  shows "find_semaphore (set_sem m ref s) (Some i) = Inr (Some ref)"
  using assms by (cases ref) (auto simp: find_semaphore_def split: if_splits)

lemma acquire_ok:
  assumes "sem_ok m ref s" "core < num_cores m" "v \<le> count_by_core s ! core" "detect_races m \<longrightarrow> sem_clocks s ! core \<noteq> None"
  obtains m' where "sem_try_acquire m ref v core = Inr (Some (if detect_races m then sem_clocks s ! core else None, m'))"
    "m' = set_sem m ref (s\<lparr>count_by_core := (count_by_core s)[core := int32 (count_by_core s ! core - v)]\<rparr>)"
  using assms by (auto simp: sem_try_acquire_def sem_ok_def Let_def)

lemma signal_then_wait:
  assumes "clocks_wf m" "sem_ok m ref s" "find_semaphore m (Some i) = Inr (Some ref)"
    and "get_global_core_id m dev cor < num_cores m" "get_global_core_id m tdev tcor < num_cores m"
    and "n0 = count_by_core s ! get_global_core_id m tdev tcor" "0 \<le> n0 + inc" "n0 + inc < 2 ^ 31" "0 \<le> v" "v \<le> n0 + inc"
  shows "\<exists>m1 m2 s2. semaphore_signal m dev cor i inc (Some tdev) (Some tcor) = Inr m1 \<and>
    semaphore_wait m1 tdev tcor i v = Inr (Some m2) \<and> get_sem m2 ref = Inr s2 \<and>
    count_by_core s2 ! get_global_core_id m tdev tcor = n0 + inc - v \<and>
    (detect_races m \<longrightarrow> (\<forall>k < vector_clock_size m.
       clocks m1 ! get_global_core_id m dev cor ! k \<le> clocks m2 ! get_global_core_id m tdev tcor ! k))"
proof -
  let ?src = "get_global_core_id m dev cor" and ?tgt = "get_global_core_id m tdev tcor"
  from tick_ok [OF assms(1,4)] obtain c ma where a: "tick m ?src = Inr (c, ma)" "clocks_wf ma" "ma = m\<lparr>clocks := clocks ma\<rparr>"
    "detect_races m \<Longrightarrow> c = Some (clocks ma ! ?src)" by blast
  have fa: "num_cores ma = num_cores m" "vector_clock_size ma = vector_clock_size m" "detect_races ma = detect_races m"
    "get_global_core_id ma = get_global_core_id m" "find_semaphore ma = find_semaphore m" "\<And>r. get_sem ma r = get_sem m r"
    by (subst a(3); simp add: num_cores_def get_global_core_id_def fun_eq_iff)+
  have oka: "sem_ok ma ref s" using assms(2) by (simp add: sem_ok_def fa)
  have ca: "detect_races ma \<longrightarrow> (\<exists>V. c = Some V \<and> length V = vector_clock_size ma)"
    using a(2,4) assms(4) fa by (auto simp: clocks_wf_def)
  have tgt: "?tgt < num_cores ma" using assms(5) fa(1) by simp
  from signal_ok [OF a(2) oka tgt ca] obtain m1 s1 where b: "sem_signal ma ref inc ?tgt c = Inr m1" "m1 = set_sem ma ref s1"
    "sem_ok m1 ref s1" "count_by_core s1 ! ?tgt = int32 (n0 + inc)"
    "detect_races m \<Longrightarrow> \<exists>V. sem_clocks s1 ! ?tgt = Some V \<and> length V = vector_clock_size m \<and> (\<forall>k < vector_clock_size m. the c ! k \<le> V ! k)"
    unfolding fa assms(6) by metis
  have n1: "count_by_core s1 ! ?tgt = n0 + inc" using b(4) int32_small assms(7,8) by simp
  have fb: "num_cores m1 = num_cores m" "vector_clock_size m1 = vector_clock_size m" "detect_races m1 = detect_races m"
    "get_global_core_id m1 = get_global_core_id m" "clocks m1 = clocks ma" "find_semaphore m1 (Some i) = Inr (Some ref)"
    using fa find_set_sem [of ma i ref s1] assms(3) by (simp_all add: b(2) get_global_core_id_def fun_eq_iff)
  have sig: "semaphore_signal m dev cor i inc (Some tdev) (Some tcor) = Inr m1"
    using a(1) b(1) assms(3) fa by (simp add: semaphore_signal_def get_semaphores_and_increment_clock_def)
  have wf1: "clocks_wf m1" using a(2) fa fb by (simp add: clocks_wf_def)
  have t1: "?tgt < num_cores m1" using assms(5) fb(1) by simp
  from tick_ok [OF wf1 t1] obtain c2 mb where d: "tick m1 ?tgt = Inr (c2, mb)" "clocks_wf mb" "mb = m1\<lparr>clocks := clocks mb\<rparr>" by blast
  have fd: "num_cores mb = num_cores m" "vector_clock_size mb = vector_clock_size m" "detect_races mb = detect_races m"
    "find_semaphore mb (Some i) = Inr (Some ref)" "get_sem mb ref = get_sem m1 ref"
    using fb by (subst d(3); simp)+
  have okd: "sem_ok mb ref s1" using b(3) by (simp add: sem_ok_def fd fb)
  have td: "?tgt < num_cores mb" "v \<le> count_by_core s1 ! ?tgt" "detect_races mb \<longrightarrow> sem_clocks s1 ! ?tgt \<noteq> None"
    using assms(5,10) fd n1 b(5) by auto
  let ?s2 = "s1\<lparr>count_by_core := (count_by_core s1)[?tgt := int32 (count_by_core s1 ! ?tgt - v)]\<rparr>"
  have acq: "sem_try_acquire mb ref v ?tgt = Inr (Some (if detect_races m then sem_clocks s1 ! ?tgt else None, set_sem mb ref ?s2))"
    using acquire_ok [OF okd td] unfolding fd(3) by metis
  have len: "?tgt < length (clocks (set_sem mb ref ?s2))" "length (clocks mb ! ?tgt) = vector_clock_size m"
    using d(2) td(1) fd(2) by (auto simp: clocks_wf_def)
  obtain m2 where fin: "sem_wait_finish (set_sem mb ref ?s2) ?tgt (if detect_races m then sem_clocks s1 ! ?tgt else None) = Inr m2"
      "get_sem m2 ref = Inr ?s2"
      "detect_races m \<Longrightarrow> clocks m2 ! ?tgt = update_vector_clock (clocks mb ! ?tgt) (the (sem_clocks s1 ! ?tgt))"
    using len(1) b(5) that by (cases "detect_races m") (auto simp: sem_wait_finish_def get_set_sem)
  have wait: "semaphore_wait m1 tdev tcor i v = Inr (Some m2)"
    using d(1) fd(4) acq fin(1) fb(4)
    by (simp add: semaphore_wait_def get_semaphores_and_increment_clock_def sem_wait_def)
  have "length (count_by_core s1) = num_cores m" using b(3) fb(1) by (simp add: sem_ok_def)
  then have "count_by_core ?s2 ! ?tgt = n0 + inc - v"
    using assms(5) n1 int32_small [of "n0 + inc - v"] assms(7-10) by simp
  moreover have "clocks m1 ! ?src ! k \<le> clocks m2 ! ?tgt ! k" if r: "detect_races m" and k: "k < vector_clock_size m" for k
  proof -
    from b(5) [OF r] obtain V where V: "sem_clocks s1 ! ?tgt = Some V" "length V = vector_clock_size m"
      "\<forall>k < vector_clock_size m. the c ! k \<le> V ! k" by blast
    have "clocks m1 ! ?src ! k \<le> V ! k" using V(3) a(4) [OF r] k fb(5) by simp
    then show ?thesis unfolding fin(3) [OF r] V(1) using V(2) len(2) k by (simp add: update_vector_clock_def)
  qed
  ultimately show ?thesis using sig wait fin(2) by blast
qed

subsection \<open>The loop over the tasks\<close>

lemma tick_tasks: "tick m core = Inr (c, m') \<Longrightarrow> tasks_by_sem m' = tasks_by_sem m"
  using tick_same_dmas by blast

lemma mem_get_tasks:
  assumes "mem_get np m dev cor sp i tr src = Inr (x, m')"
  shows "tasks_by_sem m' = tasks_by_sem m"
  using assms unfolding mem_get_def Let_def
  apply (elim rbindE)
  apply (simp only: split_paired_all prod.case)
  apply (elim rbindE)
  apply (drule get_buffer_content_result, drule tick_tasks)
  apply (auto split: if_split_asm option.split_asm)
  done

lemma mem_store_tasks:
  assumes "mem_store np m dev cor sp i tr v src = Inr m'"
  shows "tasks_by_sem m' = tasks_by_sem m"
  using assms unfolding mem_store_def Let_def
  apply (elim rbindE)
  apply (simp only: split_paired_all prod.case)
  apply (erule store_buffer_content_result)
  apply (drule tick_tasks)
  apply (auto split: if_split_asm option.split_asm)
  done

lemma dma_read_tasks:
  assumes "dma_execute_read np m i = Inr m'"
  shows "tasks_by_sem m' = tasks_by_sem m"
proof -
  from assms obtain D where D: "get_dma m i = Inr D" by (auto simp: dma_execute_read_def)
  show ?thesis
  proof (cases "dma_phase D = STARTED")
    case False
    then show ?thesis using assms D by (simp add: dma_execute_read_def)
  next
    case True
    then have "\<not> dma_phase D \<noteq> STARTED" by simp
    from assms [unfolded dma_execute_read_def D rbind_Inr if_not_P [OF this]] show ?thesis
      apply (elim rbindE)
      apply (simp only: split_paired_all prod.case)
      apply (elim rbindE)
      apply (drule mem_get_tasks)
      apply (auto simp: set_dma_def dest: sem_signal_same_dmas split: option.split_asm)
      done
  qed
qed

lemma dma_write_tasks:
  assumes "dma_execute_write np m i = Inr m'"
  shows "tasks_by_sem m' = tasks_by_sem m"
proof -
  from assms obtain D where D: "get_dma m i = Inr D" by (auto simp: dma_execute_write_def)
  show ?thesis
  proof (cases "dma_phase D = COMPLETED")
    case True
    then show ?thesis using assms D by (simp add: dma_execute_write_def rassert_def)
  next
    case False
    from assms [unfolded dma_execute_write_def D rbind_Inr if_not_P [OF False]] show ?thesis
      apply (elim rbindE)
      apply (drule mem_store_tasks, drule sem_signal_same_dmas)
      apply (auto simp: set_dma_def)
      done
  qed
qed

lemma run_task_tasks: "run_task np m t = Inr m' \<Longrightarrow> tasks_by_sem m' = tasks_by_sem m"
  by (cases t) (auto simp: dma_execute_read_and_write_def dest!: dma_read_tasks dma_write_tasks)

text \<open>Specification: run the newest \<open>k\<close> tasks.\<close>

fun run_newest :: "'a numpy \<Rightarrow> nat \<Rightarrow> sem_ref \<Rightarrow> nat \<Rightarrow> 'a shared_memory \<Rightarrow> 'a shared_memory res" where
  "run_newest np 0 ref core m = Inr m"
| "run_newest np (Suc k) ref core m =
     (let q = tasks_by_sem m (ref, core) in
      rbind (run_task np (m\<lparr>tasks_by_sem := (tasks_by_sem m)((ref, core) := butlast q)\<rparr>) (last q)) (run_newest np k ref core))"

text \<open>
  The loop runs the fewest tasks after which the wait succeeds; it blocks only when none is left.
  Any fuel that is at least the number of tasks is enough.
\<close>

lemma wait_runs_newest:
  assumes "length (tasks_by_sem m (ref, core)) \<le> fuel" "sem_wait_tasks np fuel m ref v core = Inr r"
  shows "\<exists>k m1. k \<le> length (tasks_by_sem m (ref, core)) \<and> run_newest np k ref core m = Inr m1 \<and> sem_wait m1 ref v core = Inr r \<and>
    (\<forall>j < k. \<exists>mj. run_newest np j ref core m = Inr mj \<and> sem_wait mj ref v core = Inr None) \<and>
    (r = None \<longrightarrow> k = length (tasks_by_sem m (ref, core)))"
  using assms
proof (induction fuel arbitrary: m)
  case 0
  then have "sem_wait m ref v core = Inr r" by (auto simp: sem_wait_tasks.simps [of _ 0] split: option.split_asm)
  then show ?case using 0(1) by (intro exI [of _ 0] exI [of _ m]) simp
next
  case (Suc fuel)
  let ?q = "tasks_by_sem m (ref, core)"
  from Suc.prems(2) obtain w where w: "sem_wait m ref v core = Inr w" by (auto simp: sem_wait_tasks.simps)
  show ?case
  proof (cases "w = None \<and> ?q \<noteq> []")
    case False
    then have "r = w \<and> (r = None \<longrightarrow> ?q = [])"
      using Suc.prems(2) w by (auto simp: sem_wait_tasks.simps [of _ "Suc fuel"] split: option.split_asm)
    then show ?thesis using w by (intro exI [of _ 0] exI [of _ m]) simp
  next
    case True
    let ?m = "m\<lparr>tasks_by_sem := (tasks_by_sem m)((ref, core) := butlast ?q)\<rparr>"
    from Suc.prems(2) w True obtain m1 where t: "run_task np ?m (last ?q) = Inr m1" "sem_wait_tasks np fuel m1 ref v core = Inr r"
      by (auto simp: sem_wait_tasks.simps [of _ "Suc fuel"] Let_def)
    have len: "length (tasks_by_sem m1 (ref, core)) = length ?q - 1" using run_task_tasks [OF t(1)] by simp
    with Suc.prems(1) have "length (tasks_by_sem m1 (ref, core)) \<le> fuel" by simp
    from Suc.IH [OF this t(2)] obtain k m2 where k: "k \<le> length (tasks_by_sem m1 (ref, core))"
      "run_newest np k ref core m1 = Inr m2" "sem_wait m2 ref v core = Inr r"
      "\<And>j. j < k \<Longrightarrow> \<exists>mj. run_newest np j ref core m1 = Inr mj \<and> sem_wait mj ref v core = Inr None"
      "r = None \<Longrightarrow> k = length (tasks_by_sem m1 (ref, core))" by blast
    have pos: "length ?q = Suc (length ?q - 1)" using True by (cases ?q) simp_all
    have run: "run_newest np (Suc j) ref core m = run_newest np j ref core m1" for j using t(1) by simp
    have "\<exists>mj. run_newest np j ref core m = Inr mj \<and> sem_wait mj ref v core = Inr None" if "j < Suc k" for j
    proof (cases j)
      case 0
      then show ?thesis using w True by simp
    next
      case (Suc j')
      then show ?thesis using k(4) [of j'] that run by simp
    qed
    then show ?thesis using k(1-3,5) len pos run by (intro exI [of _ "Suc k"] exI [of _ m2]) auto
  qed
qed

lemma wait_enough_fuel:
  "length (tasks_by_sem m (ref, core)) \<le> fuel \<Longrightarrow>
    sem_wait_tasks np fuel m ref v core = sem_wait_tasks np (length (tasks_by_sem m (ref, core))) m ref v core"
proof (induction fuel arbitrary: m)
  case (Suc fuel)
  let ?q = "tasks_by_sem m (ref, core)"
  let ?m = "m\<lparr>tasks_by_sem := (tasks_by_sem m)((ref, core) := butlast ?q)\<rparr>"
  show ?case
  proof (cases ?q rule: rev_cases)
    case Nil
    then show ?thesis by (simp add: sem_wait_tasks.simps [of _ "Suc fuel"] sem_wait_tasks.simps [of _ 0])
  next
    case (snoc ts t)
    have "sem_wait_tasks np fuel m1 ref v core = sem_wait_tasks np (length ts) m1 ref v core" if "run_task np ?m (last ?q) = Inr m1" for m1
    proof -
      have "tasks_by_sem m1 (ref, core) = ts" using run_task_tasks [OF that] snoc by simp
      then show ?thesis using Suc.IH [of m1] Suc.prems snoc by simp
    qed
    then have "rbind (run_task np ?m (last ?q)) (\<lambda>m1. sem_wait_tasks np fuel m1 ref v core) =
        rbind (run_task np ?m (last ?q)) (\<lambda>m1. sem_wait_tasks np (length ts) m1 ref v core)"
      by (cases "run_task np ?m (last ?q)") simp_all
    moreover have "length ?q = Suc (length ts)" using snoc by simp
    ultimately show ?thesis unfolding sem_wait_tasks.simps [of _ "Suc fuel"] sem_wait_tasks.simps [of _ "length ?q"]
      by (simp add: Let_def)
  qed
qed simp

end
