(* ===== verification/InterpProps.thy ===== *)
theory InterpProps
  imports SemLiveness
begin

text \<open>
  The properties of the TPU interpreter (\<^verbatim>\<open>jax/_src/pallas/mosaic/interpret\<close>): its race detector,
  its semaphores and DMAs, its index arithmetic.
\<close>

subsection \<open>Memories\<close>

lemma fresh_initial:
  assumes "n_devices * n_cores \<le> n"
  shows "fresh_memory n (initialize_shared_memory n_devices n_cores oob mode uninit True n :: 'a shared_memory)"
proof -
  let ?m = "initialize_shared_memory n_devices n_cores oob mode uninit True n :: 'a shared_memory"
  have none: "get_sem ?m ref = Inl KeyError" for ref
    by (cases ref) (simp_all add: initialize_shared_memory_def)
  show ?thesis unfolding fresh_memory_def none
    using assms by (simp add: initialize_shared_memory_def num_cores_def map_replicate_const)
qed

lemma fresh_fixed_semaphore:
  assumes "fresh_memory n m"
  shows "fresh_memory n (guarantee_semaphore_with_fixed_id m i)"
proof (cases "fixed_id_sem m i")
  case None
  let ?m = "m\<lparr>fixed_id_sem := (fixed_id_sem m)(i := Some (new_semaphore m))\<rparr>"
  have new: "new_semaphore ?m = new_semaphore m" "num_cores ?m = num_cores m" by (simp_all add: new_semaphore_def num_cores_def)
  have "s = new_semaphore m" if "get_sem ?m ref = Inr s" for ref s
  proof (cases ref)
    case (InternalSem j)
    then have "get_sem m ref = Inr s" using that by simp
    then show ?thesis using assms by (simp add: fresh_memory_def)
  next
    case (FixedSem j)
    then have "j = i \<and> s = new_semaphore m \<or> get_sem m ref = Inr s" using that by (auto split: if_splits)
    then show ?thesis using assms by (auto simp: fresh_memory_def)
  qed
  then show ?thesis using None assms new by (simp add: guarantee_semaphore_with_fixed_id_def fresh_memory_def)
qed (use assms in \<open>simp add: guarantee_semaphore_with_fixed_id_def\<close>)

text \<open>One device with two cores and room for two virtual devices, a semaphore, and arrays of one number.\<close>

definition two_cores :: "int shared_memory" where
  "two_cores = guarantee_semaphore_with_fixed_id (initialize_shared_memory 1 2 ''raise'' ''on_wait'' ''nan'' True 4) 5"

definition scalars :: "int numpy" where
  "scalars = \<lparr>np_getitem = (\<lambda>a r. Some a), np_setitem = (\<lambda>a r v. v), np_shape = (\<lambda>a. []), np_nbytes = (\<lambda>a. 4),
     np_same_dtype = (\<lambda>a b. True), np_where = (\<lambda>k a b. a), np_masked_outside = (\<lambda>k s. False), np_full_like = (\<lambda>a s u. 0)\<rparr>"

lemma fresh_two_cores: "fresh_memory 4 two_cores"
  unfolding two_cores_def by (intro fresh_fixed_semaphore fresh_initial) simp

lemma two_cores_sizes:
  "num_cores two_cores = 2" "dmas two_cores = (\<lambda>_. None)" "num_devices two_cores = 1" "vector_clock_size two_cores = 4"
  "num_cores_per_device two_cores = 2" "detect_races two_cores"
  by (simp_all add: two_cores_def guarantee_semaphore_with_fixed_id_def initialize_shared_memory_def num_cores_def)

text \<open>Two unordered accesses, and the same accesses ordered by a semaphore.\<close>

definition racing :: "action list" where
  "racing = [Tick 0, Tick 1, Check WriteAccess (''vmem'', 100, 0, 0) 0 0 [] 0, Check ReadAccess (''vmem'', 100, 0, 0) 0 1 [] 1]"

definition handed_over :: "action list" where
  "handed_over = [Tick 0, Check WriteAccess (''vmem'', 100, 0, 0) 0 0 [] 0, Tick 0, Signal 1 (FixedSem 5) 1 1,
     Tick 1, Acquire (FixedSem 5) 1 1, FinishWait 1 3, Tick 1, Check ReadAccess (''vmem'', 100, 0, 0) 0 1 [] 4]"

subsection \<open>The race detector\<close>

text \<open>
  C16: No false positives. Whatever sections of core operations, semaphores, barriers and DMAs were
  interleaved, if the interpreter reports a race then two checked accesses to a common part
  of one buffer, one of them a write, were ordered neither way by happens-before. This holds
  although DMAs share virtual devices, as long as there are fewer than 2^31 events.
\<close>

theorem reported_races_are_races:
  assumes "fresh_memory n m" "machine_run ss (start_machine m) = Some M" "length (event_log M) < 2 ^ 31"
    and "races_found (races (shared M))"
  shows "\<exists>i j. i < j \<and> j < length (checked M) \<and> same_data (fst (checked M ! i)) (fst (checked M ! j)) \<and>
    concurrent ss (snd (checked M ! i)) (snd (checked M ! j))"
  by (rule reported_race_is_race [OF assms])

lemma racing_runs:
  obtains M where "machine_run racing (start_machine two_cores) = Some M" "length (event_log M) = 2" "races_found (races (shared M))"
proof -
  have "map_option (\<lambda>M. (length (event_log M), races_found (races (shared M)))) (machine_run racing (start_machine two_cores)) = Some (2, True)"
    by code_simp
  then show thesis using that by auto
qed

theorem reported_races_are_races_witness:
  "\<exists>M i j. machine_run racing (start_machine two_cores) = Some M \<and> i < j \<and> concurrent racing (snd (checked M ! i)) (snd (checked M ! j))"
proof -
  obtain M where M: "machine_run racing (start_machine two_cores) = Some M" "length (event_log M) = 2" "races_found (races (shared M))"
    by (rule racing_runs)
  show ?thesis using reported_races_are_races [OF fresh_two_cores M(1) _ M(3)] M(1,2) by auto
qed

text \<open>
  C17: For accesses by cores the detector is exact: a race is reported if and only if two of the
  checked accesses race.
\<close>

theorem core_races_reported_exactly:
  assumes "fresh_memory n m" "machine_run ss (start_machine m) = Some M" "length (event_log M) < 2 ^ 31"
    and "\<forall>x \<in> set (checked M). fst (event_log M ! snd x) < num_cores m"
  shows "races_found (races (shared M)) \<longleftrightarrow>
    (\<exists>i j. i < j \<and> j < length (checked M) \<and> same_data (fst (checked M ! i)) (fst (checked M ! j)) \<and>
       concurrent ss (snd (checked M ! i)) (snd (checked M ! j)))"
proof
  show "races_found (races (shared M))"
    if r: "\<exists>i j. i < j \<and> j < length (checked M) \<and> same_data (fst (checked M ! i)) (fst (checked M ! j)) \<and>
       concurrent ss (snd (checked M ! i)) (snd (checked M ! j))"
  proof -
    from r obtain i j where ij: "i < j" "j < length (checked M)" "same_data (fst (checked M ! i)) (fst (checked M ! j))"
      "concurrent ss (snd (checked M ! i)) (snd (checked M ! j))" by blast
    have "fst (event_log M ! snd (checked M ! i)) < num_cores m" "fst (event_log M ! snd (checked M ! j)) < num_cores m"
      using assms(4) nth_mem ij(1,2) by simp_all
    from core_race_is_reported [OF assms(1-3) ij(1-3) this ij(4)] show ?thesis .
  qed
qed (rule reported_race_is_race [OF assms(1-3)])

theorem core_races_reported_exactly_witness:
  "\<exists>M. machine_run handed_over (start_machine two_cores) = Some M \<and>
    \<not> (\<exists>i j. i < j \<and> j < length (checked M) \<and> same_data (fst (checked M ! i)) (fst (checked M ! j)) \<and>
       concurrent handed_over (snd (checked M ! i)) (snd (checked M ! j)))"
proof -
  have "map_option (\<lambda>M. (length (event_log M), races_found (races (shared M)), \<forall>x \<in> set (checked M). fst (event_log M ! snd x) < 2))
      (machine_run handed_over (start_machine two_cores)) = Some (4, False, True)"
    by code_simp
  then obtain M where M: "machine_run handed_over (start_machine two_cores) = Some M" "length (event_log M) = 4"
    "\<not> races_found (races (shared M))" "\<forall>x \<in> set (checked M). fst (event_log M ! snd x) < num_cores two_cores"
    by (auto simp: two_cores_sizes)
  show ?thesis using core_races_reported_exactly [OF fresh_two_cores M(1) _ M(4)] M(1-3) by auto
qed

text \<open>
  C18: Programs of callbacks refine the machine: any sequence of reads, writes, swaps, signals,
  waits, DMAs, barriers and allocations corresponds to a run of sections with the same clocks
  and races, so a race it reports is one between two accesses of that run.
\<close>

theorem callbacks_refine_machine:
  assumes "fresh_memory n m" "dmas m = (\<lambda>_. None)"
    and "\<forall>cb \<in> set cbs. callback_ok (num_devices m) (num_cores m) (vector_clock_size m) cb"
    and "run_callbacks np cbs m = Inr (Some m')"
  shows "\<exists>ss M. machine_run ss (start_machine m) = Some M \<and> clocks (shared M) = clocks m' \<and> races (shared M) = races m' \<and>
    (length (event_log M) < 2 ^ 31 \<longrightarrow> races_found (races m') \<longrightarrow>
      (\<exists>i j. i < j \<and> j < length (checked M) \<and> same_data (fst (checked M ! i)) (fst (checked M ! j)) \<and>
        concurrent ss (snd (checked M ! i)) (snd (checked M ! j))))"
  by (rule callbacks_report_races [OF assms])

definition copying :: "int callback list" where
  "copying = [Allocate 0 None ''hbm'' 7, Allocate 0 None ''hbm'' 8, Store 0 0 ''hbm'' 100 [] 9,
     DmaStart 2 0 0 ''hbm'' 100 [] ''hbm'' 101 [] 5 None None, DmaWait 0 0 5 4, Get 0 1 ''hbm'' 101 []]"

theorem callbacks_refine_machine_witness:
  "\<exists>m' ss M. run_callbacks scalars copying two_cores = Inr (Some m') \<and> races_found (races m') \<and>
    machine_run ss (start_machine two_cores) = Some M \<and> races (shared M) = races m'"
proof -
  have "(case run_callbacks scalars copying two_cores of Inr (Some m') \<Rightarrow> races_found (races m') | _ \<Rightarrow> False)" by code_simp
  then obtain m' where m': "run_callbacks scalars copying two_cores = Inr (Some m')" "races_found (races m')"
    by (auto split: sum.splits option.splits)
  have "\<forall>cb \<in> set copying. callback_ok (num_devices two_cores) (num_cores two_cores) (vector_clock_size two_cores) cb"
    by (simp add: copying_def two_cores_sizes)
  from callbacks_refine_machine [OF fresh_two_cores two_cores_sizes(2) this m'(1)] m' show ?thesis by blast
qed

text \<open>
  The verdict does not depend on the schedule of the checks: two runs that check the same
  accesses in different orders agree on whether there is a race.
\<close>

theorem verdict_independent_of_order:
  assumes "rfold perform_check cs initial_races = Inr rs" "rfold perform_check cs' initial_races = Inr rs'"
    and "mset cs = mset cs'"
  shows "races_found rs = races_found rs'"
  by (rule races_found_order [OF assms])

definition two_checks :: "check list" where
  "two_checks =
     [(WriteAccess, (''vmem'', 100, 0, 0), \<lparr>acc_device = 0, acc_core = 0, acc_clock = [1, 0], acc_range = [Slice (Some 0) (Some 4) (Some 1)]\<rparr>),
      (ReadAccess, (''vmem'', 100, 0, 0), \<lparr>acc_device = 0, acc_core = 1, acc_clock = [0, 1], acc_range = [Idx 3]\<rparr>)]"

theorem verdict_independent_of_order_witness:
  "\<exists>rs rs'. rfold perform_check two_checks initial_races = Inr rs \<and> races_found rs \<and>
    rfold perform_check (rev two_checks) initial_races = Inr rs' \<and> races_found rs = races_found rs'"
proof -
  have "(case rfold perform_check two_checks initial_races of Inr rs \<Rightarrow> races_found rs | _ \<Rightarrow> False)"
    "(case rfold perform_check (rev two_checks) initial_races of Inr rs \<Rightarrow> True | _ \<Rightarrow> False)" by code_simp+
  then obtain rs rs' where rs: "rfold perform_check two_checks initial_races = Inr rs" "races_found rs"
    "rfold perform_check (rev two_checks) initial_races = Inr rs'" by (auto split: sum.splits)
  show ?thesis using verdict_independent_of_order [OF rs(1,3)] rs by simp
qed

text \<open>
  On ranges of unit step, two ranges are found to overlap if and only if some position of
  the buffer is selected by both.
\<close>

theorem ranges_overlap_correct:
  assumes "unit_range r1" "unit_range r2"
  shows "ranges_overlap r1 r2 = Inr (\<exists>p. (\<exists>idx. locate r1 idx = Some p) \<and> (\<exists>idx. locate r2 idx = Some p))"
  by (rule ranges_overlap_locate [OF assms])

theorem ranges_overlap_correct_witness:
  "\<not> (\<exists>p. (\<exists>idx. locate [Slice (Some 0) (Some 4) (Some 1), Idx 1] idx = Some p) \<and> (\<exists>idx. locate [Slice (Some 2) (Some 6) (Some 1), Idx 2] idx = Some p))"
proof -
  have "ranges_overlap [Slice (Some 0) (Some 4) (Some 1), Idx 1] [Slice (Some 2) (Some 6) (Some 1), Idx 2] = Inr False" by code_simp
  then show ?thesis
    using ranges_overlap_correct [of "[Slice (Some 0) (Some 4) (Some 1), Idx 1]" "[Slice (Some 2) (Some 6) (Some 1), Idx 2]"] by simp
qed

subsection \<open>Index arithmetic\<close>

text \<open>Indexing a part of a part: \<open>locate_nested\<close> follows an index through every level.\<close>

fun locate_nested :: "indexer list list \<Rightarrow> int list \<Rightarrow> int list option" where
  "locate_nested [] idx = Some idx"
| "locate_nested (t # ts) idx = Option.bind (locate_nested ts idx) (locate (map transform_slice_or_index t))"

fun views :: "int list \<Rightarrow> indexer list list \<Rightarrow> int list option" where
  "views ns [] = Some ns"
| "views ns (t # ts) = Option.bind (view ns t) (\<lambda>ns. views ns ts)"

lemma rfold_compose_locate:
  assumes "rfold (\<lambda>t r. compose_slice_or_index r (map transform_slice_or_index t)) ts r0 = Inr r"
    and "spans r0 ns" "views ns ts = Some ns'"
  shows "locate r idx = Option.bind (locate_nested ts idx) (locate r0)"
  using assms
proof (induction ts arbitrary: r0 ns)
  case (Cons t ts)
  let ?t = "map transform_slice_or_index t"
  from Cons.prems(1) obtain r1 where r1: "compose_slice_or_index r0 ?t = Inr r1"
    "rfold (\<lambda>t r. compose_slice_or_index r (map transform_slice_or_index t)) ts r1 = Inr r" by auto
  from Cons.prems(3) obtain ns1 where ns1: "view ns t = Some ns1" "views ns1 ts = Some ns'"
    by (auto simp: bind_eq_Some_conv)
  from compose_locate [OF r1(1) Cons.prems(2) ns1(1)]
  have l: "spans r1 ns1" "locate r1 = (\<lambda>i. Option.bind (locate ?t i) (locate r0))" by (auto simp: fun_eq_iff)
  show ?case using Cons.IH [OF r1(2) l(1) ns1(2)] by (simp add: l(2))
qed simp

text \<open>
  C19: The range computed for nested indexing selects exactly what indexing level by level selects,
  provided that every level stays inside the part that the level above it selects: at every index both give the same
  position of the buffer, or the index is outside both.
\<close>

theorem to_range_correct:
  assumes "to_range transforms = Inr r" "views shape transforms \<noteq> None"
  shows "locate r idx = locate_nested transforms idx"
proof -
  obtain shape' where "views shape transforms = Some shape'" using assms(2) by blast
  moreover have "locate [] = Some" by (simp add: fun_eq_iff)
  ultimately show ?thesis using rfold_compose_locate [OF assms(1) [unfolded to_range_def], of shape] by simp
qed

theorem to_range_correct_witness:
  "locate [Slice (Some 1) (Some 9) (Some 4), Idx 9] [1] = Some [5, 9] \<and>
   locate [Slice (Some 1) (Some 9) (Some 4), Idx 9] [2] = None"
proof -
  let ?ts = "[[AtSlice 1 4 2, AtSlice 8 8 1], [AtSlice 0 2 2, AtIdx 1]]"
  have f: "to_range ?ts = Inr [Slice (Some 1) (Some 9) (Some 4), Idx 9]"
    "views [8, 16] ?ts = Some [2]" "locate_nested ?ts [1] = Some [5, 9]" "locate_nested ?ts [2] = None" by code_simp+
  have "views [8, 16] ?ts \<noteq> None" using f(2) by simp
  from to_range_correct [OF f(1) this] f(3,4) show ?thesis by simp
qed

text \<open>
  C20: Stepping through the grid from its first point visits the points in the order of their
  numbers.
\<close>

theorem grid_traversal:
  assumes "\<forall>d \<in> set grid. d > 0"
  shows "(get_next_indices grid ^^ k) (map (\<lambda>_. 0) grid) = get_indices grid (int k)"
proof (induction k)
  case 0
  have "indices_of ds 0 = map (\<lambda>_. 0) ds" for ds by (induction ds) simp_all
  then show ?case by (simp add: get_indices_def rev_map)
next
  case (Suc k)
  then show ?case using next_indices_step [OF assms, of "int k"] by (simp add: add.commute)
qed

theorem grid_traversal_witness: "(get_next_indices [2, 3] ^^ 4) [0, 0] = [1, 1]"
proof -
  have "get_indices [2, 3] (int 4) = [1, 1]" by code_simp
  then show ?thesis using grid_traversal [of "[2, 3]" 4] by simp
qed

text \<open>
  C21: Splitting an index along all axes of a mesh, with shifts and masks where sizes are powers
  of two, and numbering the coordinates gives the index back.
\<close>

theorem mesh_index_roundtrip:
  assumes "\<forall>(a, n) \<in> set axis_sizes. n > 0" "distinct (map fst axis_sizes)" "axis_sizes \<noteq> []"
    and "0 \<le> idx" "idx < prod_list (map snd axis_sizes)"
  shows "device_id_dict_to_mesh [(AxisTuple (map fst axis_sizes), idx)] axis_sizes axis_indices
      = Inr (get_indices (map snd axis_sizes) idx, []) \<and>
    device_coords_to_logical_id (CoordDict [(AxisTuple (map fst axis_sizes), idx)]) axis_sizes axis_indices = Inr idx"
  using mesh_roundtrip [OF assms] by blast

theorem mesh_index_roundtrip_witness:
  "device_coords_to_logical_id (CoordDict [(AxisTuple [''x'', ''y''], 10)]) [(''x'', 3), (''y'', 4)] [] = Inr 10"
  using mesh_index_roundtrip [of "[(''x'', 3), (''y'', 4)]" 10 "[]"] by simp

subsection \<open>Waiting\<close>

text \<open>
  C22: A wait returns once its semaphore has been signalled: after a signal that brings the count
  of a core to at least the value waited for, the wait of that core returns, takes the value
  from the count, and leaves the core with a clock above that of the signalling core.
\<close>

theorem signalled_wait_returns:
  assumes "clocks_wf m" "sem_ok m ref s" "find_semaphore m (Some i) = Inr (Some ref)"
    and "get_global_core_id m dev cor < num_cores m" "get_global_core_id m tdev tcor < num_cores m"
    and "n0 = count_by_core s ! get_global_core_id m tdev tcor" "0 \<le> n0 + inc" "n0 + inc < 2 ^ 31" "0 \<le> v" "v \<le> n0 + inc"
  shows "\<exists>m1 m2 s2. semaphore_signal m dev cor i inc (Some tdev) (Some tcor) = Inr m1 \<and>
    semaphore_wait m1 tdev tcor i v = Inr (Some m2) \<and> get_sem m2 ref = Inr s2 \<and>
    count_by_core s2 ! get_global_core_id m tdev tcor = n0 + inc - v \<and>
    (detect_races m \<longrightarrow> (\<forall>k < vector_clock_size m.
       clocks m1 ! get_global_core_id m dev cor ! k \<le> clocks m2 ! get_global_core_id m tdev tcor ! k))"
  by (rule signal_then_wait [OF assms])

lemma two_cores_wf: "clocks_wf two_cores"
  by (simp add: clocks_wf_def two_cores_def guarantee_semaphore_with_fixed_id_def initialize_shared_memory_def num_cores_def
      make_vector_clock_def)

lemma two_cores_sem:
  "sem_ok two_cores (FixedSem 5) (new_semaphore two_cores)" "find_semaphore two_cores (Some 5) = Inr (Some (FixedSem 5))"
  by (simp_all add: sem_ok_def new_semaphore_def find_semaphore_def two_cores_def guarantee_semaphore_with_fixed_id_def
      initialize_shared_memory_def num_cores_def)

theorem signalled_wait_returns_witness:
  "\<exists>m1 m2. semaphore_signal two_cores 0 0 5 3 (Some 0) (Some 1) = Inr m1 \<and> semaphore_wait m1 0 1 5 2 = Inr (Some m2)"
proof -
  have core: "get_global_core_id two_cores 0 0 = 0" "get_global_core_id two_cores 0 1 = 1"
    by (simp_all add: get_global_core_id_def two_cores_sizes)
  have "count_by_core (new_semaphore two_cores) ! 1 = 0" by (simp add: new_semaphore_def two_cores_sizes)
  then show ?thesis
    using signalled_wait_returns [OF two_cores_wf two_cores_sem, of 0 0 0 1 0 3 2] by (auto simp: core two_cores_sizes)
qed

text \<open>
  C23: The loop of a wait with pending DMAs ends: it runs the newest tasks, as few as make the
  wait succeed, and blocks only when none is left. Fuel for every task is enough.
\<close>

theorem wait_with_tasks_ends:
  assumes "length (tasks_by_sem m (ref, core)) \<le> fuel" "sem_wait_tasks np fuel m ref v core = Inr r"
  shows "sem_wait_tasks np (length (tasks_by_sem m (ref, core))) m ref v core = Inr r \<and>
    (\<exists>k m1. k \<le> length (tasks_by_sem m (ref, core)) \<and> run_newest np k ref core m = Inr m1 \<and> sem_wait m1 ref v core = Inr r \<and>
      (\<forall>j < k. \<exists>mj. run_newest np j ref core m = Inr mj \<and> sem_wait mj ref v core = Inr None) \<and>
      (r = None \<longrightarrow> k = length (tasks_by_sem m (ref, core))))"
  using wait_runs_newest [OF assms] assms(2) wait_enough_fuel [OF assms(1), of np v] by simp

definition pending :: "int shared_memory" where
  "pending = (case run_callbacks scalars (take 4 copying) two_cores of Inr (Some m) \<Rightarrow> m | _ \<Rightarrow> two_cores)"

theorem wait_with_tasks_ends_witness:
  "\<exists>r k m1. sem_wait_tasks scalars 1 pending (FixedSem 5) 4 0 = Inr (Some r) \<and> k \<le> 1 \<and>
    run_newest scalars k (FixedSem 5) 0 pending = Inr m1 \<and> sem_wait m1 (FixedSem 5) 4 0 = Inr (Some r)"
proof -
  have "length (tasks_by_sem pending (FixedSem 5, 0)) = 1" by code_simp
  moreover have "(case sem_wait_tasks scalars 1 pending (FixedSem 5) 4 0 of Inr (Some r) \<Rightarrow> True | _ \<Rightarrow> False)" by code_simp
  then obtain r where "sem_wait_tasks scalars 1 pending (FixedSem 5) 4 0 = Inr (Some r)" by (auto split: sum.splits option.splits)
  ultimately show ?thesis using wait_with_tasks_ends [of pending "FixedSem 5" 0 1 scalars 4 "Some r"] by fastforce
qed

text \<open>
  With race detection on, waiting for zero on a semaphore nobody has signalled raises
  \<^verbatim>\<open>AssertionError\<close>; without it the same wait returns at once.
\<close>

theorem unsignalled_wait_for_zero_raises:
  assumes "clocks_wf m" "find_semaphore m (Some i) = Inr (Some ref)" "get_sem m ref = Inr (new_semaphore m)"
    and "get_global_core_id m dev cor < num_cores m" "detect_races m"
  shows "semaphore_wait m dev cor i 0 = Inl AssertionError \<and>
    (\<exists>m'. semaphore_wait (m\<lparr>detect_races := False\<rparr>) dev cor i 0 = Inr (Some m'))"
proof
  let ?core = "get_global_core_id m dev cor"
  from tick_ok [OF assms(1,4)] obtain c m1 where t: "tick m ?core = Inr (c, m1)" "m1 = m\<lparr>clocks := clocks m1\<rparr>" by blast
  have f: "find_semaphore m1 (Some i) = Inr (Some ref)" "get_sem m1 ref = Inr (new_semaphore m)" "detect_races m1"
    by (subst t(2); simp add: assms)+
  have s: "count_by_core (new_semaphore m) ! ?core = 0" "sem_clocks (new_semaphore m) ! ?core = None"
    "length (count_by_core (new_semaphore m)) = num_cores m" using assms(4) by (simp_all add: new_semaphore_def)
  show "semaphore_wait m dev cor i 0 = Inl AssertionError"
    using t(1) f s assms(4)
    by (simp add: semaphore_wait_def get_semaphores_and_increment_clock_def sem_wait_def sem_try_acquire_def)
  let ?m = "m\<lparr>detect_races := False\<rparr>"
  have g: "get_sem ?m ref = Inr (new_semaphore m)" "find_semaphore ?m (Some i) = Inr (Some ref)"
  proof -
    have "get_sem ?m ref = get_sem m ref" by (cases ref) simp_all
    then show "get_sem ?m ref = Inr (new_semaphore m)" using assms(3) by simp
    have "find_semaphore ?m (Some i) = find_semaphore m (Some i)" by (simp add: find_semaphore_def)
    then show "find_semaphore ?m (Some i) = Inr (Some ref)" using assms(2) by simp
  qed
  show "\<exists>m'. semaphore_wait ?m dev cor i 0 = Inr (Some m')"
    using g s assms(4) by (simp add: semaphore_wait_def get_semaphores_and_increment_clock_def tick_def sem_wait_def
        sem_try_acquire_def sem_wait_finish_def get_global_core_id_def)
qed

theorem unsignalled_wait_for_zero_raises_witness:
  "semaphore_wait two_cores 0 0 5 0 = Inl AssertionError"
  using unsignalled_wait_for_zero_raises [OF two_cores_wf two_cores_sem(2), of 0 0] two_cores_sem(1)
  by (simp add: sem_ok_def get_global_core_id_def two_cores_sizes)

end
