(* ===== verification/Prng.thy ===== *)
theory Prng
  imports Prelude "HOL-Library.Word"
begin

text \<open>
  \<^verbatim>\<open>jax/_src/prng.py\<close>: the counter-based generator Threefry 2x32, on which JAX's random keys are
  built, and the operations of the two key implementations that use it. Arrays of \<^verbatim>\<open>uint32\<close> are
  lists of words in row-major order, next to their shape where it matters. Operations of \<^verbatim>\<open>lax\<close> on
  words are those of machine words: sums wrap around and shifts by the width or more give zero.
\<close>

unbundle bit_operations_syntax

type_synonym u32 = "32 word"

subsection \<open>The block function\<close>

text \<open>\<^verbatim>\<open>rotate_left\<close>, the instance of \<^verbatim>\<open>_make_rotate_left\<close> for \<^verbatim>\<open>uint32\<close>\<close>

definition rotate_left :: "u32 \<Rightarrow> u32 \<Rightarrow> u32" where
  "rotate_left x d = push_bit (unat d) x OR drop_bit (unat (32 - d)) x"

fun apply_round :: "u32 \<times> u32 \<Rightarrow> u32 \<Rightarrow> u32 \<times> u32" where
  "apply_round (v0, v1) rot =
     (let v0 = v0 + v1; v1 = rotate_left v1 rot; v1 = v0 XOR v1 in (v0, v1))"

definition rotate_list :: "'a list \<Rightarrow> 'a list" where
  "rotate_list xs = drop 1 xs @ take 1 xs"

fun rolled_loop_step ::
  "nat \<Rightarrow> (u32 \<times> u32) \<times> u32 list \<times> u32 list list \<Rightarrow> (u32 \<times> u32) \<times> u32 list \<times> u32 list list" where
  "rolled_loop_step i (x, ks, rotations) =
     (let x = foldl apply_round x (rotations ! 0);
          new_x = (fst x + ks ! 0, snd x + ks ! 1 + of_nat (i + 1)) in
      (new_x, rotate_list ks, rotate_list rotations))"

definition rotations0 :: "u32 list" where "rotations0 = [13, 15, 26, 6]"
definition rotations1 :: "u32 list" where "rotations1 = [17, 29, 16, 24]"

text \<open>
  \<^verbatim>\<open>_threefry2x32_lowering\<close> on one pair of counts. It is the lowering for CPUs with rolled loops and
  for other platforms without; on GPUs a library kernel is called instead.
\<close>

definition threefry2x32 :: "bool \<Rightarrow> u32 \<times> u32 \<Rightarrow> u32 \<times> u32 \<Rightarrow> u32 \<times> u32" where
  "threefry2x32 use_rolled_loops key x =
     (let (key1, key2) = key; (x1, x2) = x;
          ks = [key1, key2, key1 XOR key2 XOR 0x1BD11BDA];
          x = (x1 + ks ! 0, x2 + ks ! 1) in
      if use_rolled_loops
      then fst (fold rolled_loop_step [0..<5] (x, rotate_list ks, [rotations0, rotations1]))
      else
        let x = foldl apply_round x rotations0; x = (fst x + ks ! 1, snd x + ks ! 2 + 1);
            x = foldl apply_round x rotations1; x = (fst x + ks ! 2, snd x + ks ! 0 + 2);
            x = foldl apply_round x rotations0; x = (fst x + ks ! 0, snd x + ks ! 1 + 3);
            x = foldl apply_round x rotations1; x = (fst x + ks ! 1, snd x + ks ! 2 + 4);
            x = foldl apply_round x rotations0; x = (fst x + ks ! 2, snd x + ks ! 0 + 5) in
        x)"

lemma threefry_rolled: "threefry2x32 True key x = threefry2x32 False key x"
proof -
  obtain k0 k1 where k: "key = (k0, k1)" by (cases key)
  obtain x0 x1 where x: "x = (x0, x1)" by (cases x)
  define k2 where "k2 = k0 XOR k1 XOR 0x1BD11BDA"
  define inject where "inject = (\<lambda>(x :: u32 \<times> u32) a b (i :: nat). (fst x + a, snd x + b + of_nat i :: u32))"
  define y where "y = (x0 + k0, x1 + k1)"
  define y1 where "y1 = inject (foldl apply_round y rotations0) k1 k2 1"
  define y2 where "y2 = inject (foldl apply_round y1 rotations1) k2 k0 2"
  define y3 where "y3 = inject (foldl apply_round y2 rotations0) k0 k1 3"
  define y4 where "y4 = inject (foldl apply_round y3 rotations1) k1 k2 4"
  define y5 where "y5 = inject (foldl apply_round y4 rotations0) k2 k0 5"
  have five: "[0..<5] = [0, 1, 2, 3, 4 :: nat]" by (simp add: upt_rec)
  have step: "rolled_loop_step i (z, [a, b, c], [r, s]) = (inject (foldl apply_round z r) a b (i + 1), [b, c, a], [s, r])" for i z a b c r s
    by (simp add: inject_def Let_def rotate_list_def)
  have ks: "rotate_list [k0, k1, k2] = [k1, k2, k0]" by (simp add: rotate_list_def)
  have "fold rolled_loop_step [0, 1, 2, 3, 4] (y, [k1, k2, k0], [rotations0, rotations1]) = (y5, [k0, k1, k2], [rotations1, rotations0])"
    unfolding fold.simps comp_apply id_apply step by (simp add: y1_def y2_def y3_def y4_def y5_def eval_nat_numeral)
  then have "threefry2x32 True key x = y5"
    unfolding k x threefry2x32_def Let_def prod.case five by (simp add: ks y_def flip: k2_def)
  moreover have "threefry2x32 False key x = y5"
    unfolding k x threefry2x32_def Let_def prod.case y5_def y4_def y3_def y2_def y1_def y_def
    by (simp add: inject_def flip: k2_def)
  ultimately show ?thesis by simp
qed

text \<open>
  The inverse of the block function (not in the source): rounds and key injections undone in
  reverse.
\<close>

definition rotate_right :: "u32 \<Rightarrow> u32 \<Rightarrow> u32" where
  "rotate_right x d = drop_bit (unat d) x OR push_bit (unat (32 - d)) x"

fun undo_round :: "u32 \<times> u32 \<Rightarrow> u32 \<Rightarrow> u32 \<times> u32" where
  "undo_round (v0, v1) rot = (let v1 = rotate_right (v0 XOR v1) rot in (v0 - v1, v1))"

definition threefry2x32_inverse :: "u32 \<times> u32 \<Rightarrow> u32 \<times> u32 \<Rightarrow> u32 \<times> u32" where
  "threefry2x32_inverse key y =
     (let (key1, key2) = key; ks = [key1, key2, key1 XOR key2 XOR 0x1BD11BDA];
          x = (fst y - ks ! 2, snd y - ks ! 0 - 5); x = foldl undo_round x (rev rotations0);
          x = (fst x - ks ! 1, snd x - ks ! 2 - 4); x = foldl undo_round x (rev rotations1);
          x = (fst x - ks ! 0, snd x - ks ! 1 - 3); x = foldl undo_round x (rev rotations0);
          x = (fst x - ks ! 2, snd x - ks ! 0 - 2); x = foldl undo_round x (rev rotations1);
          x = (fst x - ks ! 1, snd x - ks ! 2 - 1); x = foldl undo_round x (rev rotations0) in
      (fst x - ks ! 0, snd x - ks ! 1))"

lemma unat_32_minus: "0 < unat d \<Longrightarrow> unat d < 32 \<Longrightarrow> unat (32 - d :: u32) = 32 - unat d"
  by (subst unat_sub) (simp_all add: word_le_nat_alt)

lemma rotate_right_left:
  assumes "0 < unat d" "unat d < 32"
  shows "rotate_right (rotate_left x d) d = x"
proof (rule bit_word_eqI)
  fix n assume "n < LENGTH(32)"
  then have n: "n < 32" by simp
  define k where "k = unat d"
  have k: "0 < k" "k < 32" "unat (32 - d) = 32 - k" using assms unat_32_minus [OF assms] by (simp_all add: k_def)
  show "bit (rotate_right (rotate_left x d) d) n = bit x n"
  proof (cases "n + k < 32")
    case True
    then show ?thesis using n k by (auto simp: rotate_left_def rotate_right_def bit_simps k_def [symmetric])
  next
    case False
    then have "32 - k \<le> n" "n + k - 32 < k" "n - (32 - k) + (32 - k) = n" using n k by simp_all
    then show ?thesis using False n k by (auto simp: rotate_left_def rotate_right_def bit_simps k_def [symmetric])
  qed
qed

lemma rotate_left_right:
  assumes "0 < unat d" "unat d < 32"
  shows "rotate_left (rotate_right x d) d = x"
proof (rule bit_word_eqI)
  fix n assume "n < LENGTH(32)"
  then have n: "n < 32" by simp
  define k where "k = unat d"
  have k: "0 < k" "k < 32" "unat (32 - d) = 32 - k" using assms unat_32_minus [OF assms] by (simp_all add: k_def)
  show "bit (rotate_left (rotate_right x d) d) n = bit x n"
  proof (cases "k \<le> n")
    case True
    then have "k + (n - k) = n" "n - k < 32 - k" using n k by simp_all
    then show ?thesis using True n k by (auto simp: rotate_left_def rotate_right_def bit_simps k_def [symmetric])
  next
    case False
    then have "32 - k + n < 32" "32 - k \<le> 32 - k + n" "32 - k + n - (32 - k) = n" using n k by simp_all
    then show ?thesis using False n k by (auto simp: rotate_left_def rotate_right_def bit_simps k_def [symmetric])
  qed
qed

lemma undo_apply_round: "0 < unat d \<Longrightarrow> unat d < 32 \<Longrightarrow> undo_round (apply_round v d) d = v"
  by (cases v) (simp add: Let_def rotate_right_left flip: xor.assoc)

lemma apply_undo_round: "0 < unat d \<Longrightarrow> unat d < 32 \<Longrightarrow> apply_round (undo_round v d) d = v"
  by (cases v) (simp add: Let_def rotate_left_right flip: xor.assoc)

lemma undo_apply_rounds:
  "\<forall>d \<in> set ds. 0 < unat d \<and> unat d < 32 \<Longrightarrow> foldl undo_round (foldl apply_round v ds) (rev ds) = v"
  by (induction ds arbitrary: v) (simp_all add: undo_apply_round)

lemma apply_undo_rounds:
  "\<forall>d \<in> set ds. 0 < unat d \<and> unat d < 32 \<Longrightarrow> foldl apply_round (foldl undo_round v (rev ds)) ds = v"
  by (induction ds arbitrary: v rule: rev_induct) (simp_all add: apply_undo_round)

lemma rotations_ok:
  "\<forall>d \<in> set rotations0. 0 < unat d \<and> unat d < 32" "\<forall>d \<in> set rotations1. 0 < unat d \<and> unat d < 32"
  by (simp_all add: rotations0_def rotations1_def)

lemma threefry_inverse: "threefry2x32_inverse key (threefry2x32 rolled key x) = x"
proof -
  have "threefry2x32_inverse key (threefry2x32 False key x) = x"
    unfolding threefry2x32_inverse_def threefry2x32_def
    by (cases key; cases x) (simp add: Let_def undo_apply_rounds rotations_ok)
  then show ?thesis by (cases rolled) (simp_all add: threefry_rolled)
qed

lemma threefry_of_inverse: "threefry2x32 rolled key (threefry2x32_inverse key y) = y"
proof -
  have "threefry2x32 False key (threefry2x32_inverse key y) = y"
    unfolding threefry2x32_inverse_def threefry2x32_def
    by (cases key; cases y) (simp add: Let_def split_beta apply_undo_rounds rotations_ok)
  then show ?thesis by (cases rolled) (simp_all add: threefry_rolled)
qed

lemma threefry_inj: "threefry2x32 rolled key x = threefry2x32 rolled key y \<longleftrightarrow> x = y"
  by (metis threefry_inverse)

subsection \<open>Counts\<close>

text \<open>\<^verbatim>\<open>np.cumprod\<close>, and the strides of \<^verbatim>\<open>bcast_iotas_to_reshaped_iota\<close>\<close>

definition cumprod :: "nat list \<Rightarrow> nat list" where
  "cumprod xs = map (\<lambda>i. prod_list (take (Suc i) xs)) [0..<length xs]"

definition strides :: "nat list \<Rightarrow> nat list" where
  "strides shape = rev (cumprod (rev (drop 1 shape))) @ [1]"

fun reduce :: "('a \<Rightarrow> 'a \<Rightarrow> 'a) \<Rightarrow> 'a list \<Rightarrow> 'a res" where
  "reduce f [] = Inl (TypeError ''reduce() of empty iterable'')"
| "reduce f (x # xs) = Inr (foldl f x xs)"

definition bcast_iotas_to_reshaped_iota :: "nat list \<Rightarrow> 64 word list \<Rightarrow> 64 word res" where
  "bcast_iotas_to_reshaped_iota shape iotas =
     reduce (+) (map (\<lambda>(i, s). of_nat s * i) (zip iotas (strides shape)))"

text \<open>The positions of an array in row-major order.\<close>

fun positions :: "nat list \<Rightarrow> nat list list" where
  "positions [] = [[]]"
| "positions (d # ds) = concat (map (\<lambda>i. map ((#) i) (positions ds)) [0..<d])"

text \<open>\<^verbatim>\<open>iota_2x32_shape\<close> and its lowering: the high and the low words of the counts.\<close>

definition iota_2x32_shape :: "nat list \<Rightarrow> (u32 list \<times> u32 list) res" where
  "iota_2x32_shape shape =
     (if shape = [] then Inr ([0], [0])
      else
        rbind (rmap (\<lambda>idx. bcast_iotas_to_reshaped_iota shape (map of_nat idx)) (positions shape)) (\<lambda>counts.
        Inr (map (\<lambda>c. ucast (drop_bit 32 c)) counts, map ucast counts)))"

lemma length_positions: "length (positions shape) = prod_list shape"
  by (induction shape) (simp_all add: length_concat comp_def sum_list_triv)

lemma positions_length: "idx \<in> set (positions shape) \<Longrightarrow> length idx = length shape"
  by (induction shape arbitrary: idx) auto

lemma strides_Cons: "strides (d # ds) = (if ds = [] then [1] else prod_list ds # strides ds)"
proof (cases ds)
  case (Cons e es)
  have "cumprod (rev es @ [e]) = cumprod (rev es) @ [prod_list (rev es @ [e])]"
    by (simp add: cumprod_def nth_append)
  then show ?thesis using Cons by (simp add: strides_def mult.commute)
qed (simp add: strides_def cumprod_def)

text \<open>The sum of strides is the number of the position.\<close>

fun number :: "nat list \<Rightarrow> nat list \<Rightarrow> nat" where
  "number (i # idx) (d # ds) = i * prod_list ds + number idx ds"
| "number idx shape = 0"

lemma foldl_plus: "foldl (+) (x :: 'a :: comm_monoid_add) ys = x + sum_list ys"
  by (induction ys arbitrary: x) (simp_all add: add.assoc)

lemma bcast_number:
  assumes "length idx = length shape" "shape \<noteq> []"
  shows "bcast_iotas_to_reshaped_iota shape (map of_nat idx) = Inr (of_nat (number idx shape))"
proof -
  have sum: "sum_list (map (\<lambda>(i, s). of_nat s * i :: 64 word) (zip (map of_nat idx) (strides shape))) = of_nat (number idx shape)"
    if "length idx = length shape" "shape \<noteq> []" for idx shape
    using that
  proof (induction idx shape rule: list_induct2)
    case (Cons i idx d ds)
    then show ?case by (cases "ds = []") (simp_all add: strides_Cons mult.commute)
  qed simp
  have "strides shape \<noteq> []" "idx \<noteq> []" using assms by (auto simp: strides_def)
  then obtain p ps where "map (\<lambda>(i, s). of_nat s * i :: 64 word) (zip (map of_nat idx) (strides shape)) = p # ps"
    by (cases idx; cases "strides shape") simp_all
  then show ?thesis using sum [OF assms] by (simp add: bcast_iotas_to_reshaped_iota_def foldl_plus)
qed

lemma number_positions: "k < prod_list shape \<Longrightarrow> number (positions shape ! k) shape = k"
proof (induction shape arbitrary: k)
  case (Cons d ds)
  let ?n = "prod_list ds"
  have n: "0 < ?n" using Cons.prems by (cases ?n) auto
  have k: "k div ?n < d" using Cons.prems n by (simp add: less_mult_imp_div_less)
  have "concat (map (\<lambda>i. map ((#) i) (positions ds)) [0..<e]) ! k = (k div ?n) # positions ds ! (k mod ?n)" if "k < e * ?n" for e k
    using that
  proof (induction e arbitrary: k)
    case (Suc e)
    show ?case
    proof (cases "k < e * ?n")
      case True
      then show ?thesis using Suc.IH [OF True]
        by (simp add: nth_append length_concat comp_def length_positions sum_list_triv)
    next
      case False
      then have "k = e * ?n + (k - e * ?n)" "k - e * ?n < ?n" using Suc.prems by simp_all
      then have "k div ?n = e" "k mod ?n = k - e * ?n"
        by (metis add.commute div_mult_self1 div_less add_0 less_not_refl n) (metis mod_less mod_mult_self3 \<open>k - e * ?n < ?n\<close> \<open>k = e * ?n + (k - e * ?n)\<close>)
      then show ?thesis using False \<open>k - e * ?n < ?n\<close>
        by (simp add: nth_append length_concat comp_def length_positions sum_list_triv)
    qed
  qed simp
  from this [of k d] have "positions (d # ds) ! k = (k div ?n) # positions ds ! (k mod ?n)"
    using Cons.prems by simp
  then show ?case using Cons.IH [of "k mod ?n"] n by simp
qed simp

text \<open>The two words of the count at each position put its number together.\<close>

lemma iota_2x32_correct:
  assumes "prod_list shape \<le> 2 ^ 64"
  shows "\<exists>hi lo. iota_2x32_shape shape = Inr (hi, lo) \<and> length hi = prod_list shape \<and> length lo = prod_list shape \<and>
    (\<forall>k < prod_list shape. unat (hi ! k) * 2 ^ 32 + unat (lo ! k) = k)"
proof (cases "shape = []")
  case True
  then show ?thesis by (simp add: iota_2x32_shape_def)
next
  case False
  let ?counts = "map (\<lambda>idx. of_nat (number idx shape)) (positions shape) :: 64 word list"
  have "rmap (\<lambda>idx. bcast_iotas_to_reshaped_iota shape (map of_nat idx)) (positions shape) = Inr ?counts"
    unfolding rmap_Inr_iff using bcast_number [OF positions_length False] nth_mem by auto
  then have i: "iota_2x32_shape shape = Inr (map (\<lambda>c. ucast (drop_bit 32 c)) ?counts, map ucast ?counts)"
    using False by (simp add: iota_2x32_shape_def)
  have "unat (ucast (drop_bit 32 (of_nat k :: 64 word)) :: u32) * 2 ^ 32 + unat (ucast (of_nat k :: 64 word) :: u32) = k"
    if "k < prod_list shape" for k
  proof -
    have k: "k < 2 ^ 64" using that assms by simp
    then have "unat (of_nat k :: 64 word) = k" by (simp add: unat_of_nat)
    moreover have "unat (ucast (drop_bit 32 w) :: u32) * 2 ^ 32 + unat (ucast w :: u32) = unat w" for w :: "64 word"
    proof -
      have "unat w < 2 ^ 64" by (rule order_less_le_trans [OF unsigned_less]) simp
      then have "unat w div 2 ^ 32 < 2 ^ 32" by (simp add: less_mult_imp_div_less)
      then have "unat (ucast (drop_bit 32 w) :: u32) = unat w div 2 ^ 32" "unat (ucast w :: u32) = unat w mod 2 ^ 32"
        by (simp_all add: unsigned_ucast_eq unsigned_drop_bit_eq take_bit_eq_mod drop_bit_eq_div unat_div_distrib)
      then show ?thesis by simp
    qed
    ultimately show ?thesis by metis
  qed
  then show ?thesis unfolding i using number_positions [of _ shape] by (simp add: length_positions)
qed

end
