(* ===== verification/PrngKeys.thy ===== *)
theory PrngKeys
  imports Prng Dtypes
begin

text \<open>
  \<^verbatim>\<open>jax/_src/prng.py\<close>: the two implementations of random keys, \<^verbatim>\<open>threefry2x32\<close> and \<^verbatim>\<open>rbg\<close>, as the
  operations on one key they are made of. An array is its shape with its elements in row-major
  order; an element of an unsigned type of at most 64 bits is the 64-bit word of its value.
  XLA's generator \<^verbatim>\<open>lax.rng_bit_generator\<close> is the parameter \<open>generator\<close>: its function from a key, the
  shape and the width wanted to the bits.
\<close>

unbundle bit_operations_syntax

type_synonym 'a tensor = "nat list \<times> 'a list"
type_synonym bit_generator = "u32 tensor \<Rightarrow> nat list \<Rightarrow> nat \<Rightarrow> 64 word list"

text \<open>
  \<open>on_cpu\<close>: the platform whose lowering has rolled loops. Bits of width 64 are the ones of x64 mode;
  without it NumPy's \<^verbatim>\<open>uint64\<close> is not available.
\<close>

record prng_config =
  on_cpu :: bool
  threefry_partitionable :: bool
  random_seed_offset :: int
  x64_enabled :: bool

text \<open>An argument that should be key data, for the checks of its attributes.\<close>

datatype key_obj = KeyData (kd_shape: "nat list") (kd_dtype: dtype) (kd_words: "u32 list") | NoArray

text \<open>An array of integers.\<close>

record int_array =
  ia_shape :: "nat list"
  ia_dtype :: dtype
  ia_values :: "int list"

text \<open>The integer types of NumPy, their width, and the values they hold.\<close>

fun np_integer_width :: "dtype \<Rightarrow> nat option" where
  "np_integer_width UInt8 = Some 8" | "np_integer_width Int8 = Some 8"
| "np_integer_width UInt16 = Some 16" | "np_integer_width Int16 = Some 16"
| "np_integer_width UInt32 = Some 32" | "np_integer_width Int32 = Some 32"
| "np_integer_width UInt64 = Some 64" | "np_integer_width Int64 = Some 64"
| "np_integer_width _ = None"

text \<open>\<open>block n xs i\<close>: the \<open>i\<close>-th run of \<open>n\<close> elements, a slice of the leading axis.\<close>

definition block :: "nat \<Rightarrow> 'a list \<Rightarrow> nat \<Rightarrow> 'a list" where
  "block n xs i = take n (drop (i * n) xs)"

text \<open>Unpacking an array into two names.\<close>

fun unpack2 :: "'a list \<Rightarrow> ('a \<times> 'a) res" where
  "unpack2 [a, b] = Inr (a, b)"
| "unpack2 _ = Inl (ValueError ''unpack'')"

subsection \<open>Threefry\<close>

definition is_threefry_prng_key :: "key_obj \<Rightarrow> bool" where
  "is_threefry_prng_key key = (case key of KeyData shape dt _ \<Rightarrow> shape = [2] \<and> dt = UInt32 | NoArray \<Rightarrow> False)"

definition threefry_seed :: "int_array \<Rightarrow> u32 tensor res" where
  "threefry_seed seed =
     (if ia_shape seed \<noteq> [] then Inl (TypeError ''PRNG key seed must be a scalar'')
      else case np_integer_width (ia_dtype seed) of
        None \<Rightarrow> Inl (TypeError ''PRNG key seed must be an integer'')
      | Some w \<Rightarrow>
        let v = hd (ia_values seed);
            k1 = word_of_int (take_bit w v div 2 ^ 32);
            k2 = word_of_int (v AND 0xFFFFFFFF) in
        Inr ([2], [k1, k2]))"

definition threefry_2x32 :: "prng_config \<Rightarrow> u32 \<times> u32 \<Rightarrow> u32 list \<Rightarrow> u32 list" where
  "threefry_2x32 cfg keypair flat_count =
     (let odd_size = length flat_count mod 2;
          padded = (if odd_size \<noteq> 0 then flat_count @ [0] else flat_count);
          half = length padded div 2;
          x = map (threefry2x32 (on_cpu cfg) keypair) (zip (take half padded) (drop half padded));
          out = map fst x @ map snd x in
      if odd_size \<noteq> 0 then butlast out else out)"

text \<open>
  The branch for a number of counts that is not known statically: always padded, and the padding
  dropped by a slice. It computes the same (\<open>threefry_2x32_symbolic_eq\<close>); the callers below use the other branch.
\<close>

definition threefry_2x32_symbolic :: "prng_config \<Rightarrow> u32 \<times> u32 \<Rightarrow> u32 list \<Rightarrow> u32 list" where
  "threefry_2x32_symbolic cfg keypair flat_count =
     (let padded = flat_count @ [0]; half = length padded div 2;
          x = map (threefry2x32 (on_cpu cfg) keypair) (zip (take half padded) (take half (drop half padded)));
          out = map fst x @ map snd x in
      take (length flat_count) out)"

definition threefry_split_original :: "prng_config \<Rightarrow> u32 tensor \<Rightarrow> nat list \<Rightarrow> u32 tensor res" where
  "threefry_split_original cfg key shape =
     (let num = prod_list shape; counts = map of_nat [0..<num * 2] in
      rbind (unpack2 (snd key)) (\<lambda>keypair. Inr (shape @ [2], threefry_2x32 cfg keypair counts)))"

definition threefry_split_foldlike :: "prng_config \<Rightarrow> u32 tensor \<Rightarrow> nat list \<Rightarrow> u32 tensor res" where
  "threefry_split_foldlike cfg key shape =
     rbind (unpack2 (snd key)) (\<lambda>k.
     rbind (iota_2x32_shape shape) (\<lambda>(counts1, counts2).
     let bits = map (threefry2x32 (on_cpu cfg) k) (zip counts1 counts2) in
     Inr (shape @ [2], concat (map (\<lambda>(bits1, bits2). [bits1, bits2]) bits))))"

definition threefry_split :: "prng_config \<Rightarrow> u32 tensor \<Rightarrow> nat list \<Rightarrow> u32 tensor res" where
  "threefry_split cfg key shape =
     (if threefry_partitionable cfg then threefry_split_foldlike cfg key shape
      else threefry_split_original cfg key shape)"

text \<open>\<^verbatim>\<open>jnp.asarray(data, dtype='uint32')\<close>\<close>

definition asarray_uint32 :: "int_array \<Rightarrow> int_array" where
  "asarray_uint32 a = a\<lparr>ia_dtype := UInt32, ia_values := map (take_bit 32) (ia_values a)\<rparr>"

text \<open>\<^verbatim>\<open>_threefry_fold_in\<close>\<close>

definition threefry_fold_in_jit :: "prng_config \<Rightarrow> u32 tensor \<Rightarrow> int_array \<Rightarrow> u32 tensor res" where
  "threefry_fold_in_jit cfg key data =
     rbind (threefry_seed data) (\<lambda>(shape, count).
     rbind (unpack2 (snd key)) (\<lambda>keypair. Inr (shape, threefry_2x32 cfg keypair count)))"

definition threefry_fold_in :: "prng_config \<Rightarrow> u32 tensor \<Rightarrow> int_array \<Rightarrow> u32 tensor res" where
  "threefry_fold_in cfg key data =
     rbind (rassert (ia_shape data = [])) (\<lambda>_. threefry_fold_in_jit cfg key (asarray_uint32 data))"

definition threefry_random_bits_partitionable ::
  "prng_config \<Rightarrow> u32 tensor \<Rightarrow> nat \<Rightarrow> nat list \<Rightarrow> 64 word tensor res" where
  "threefry_random_bits_partitionable cfg key bit_width shape =
     (if prod_list shape > 2 ^ 64 then Inl NotImplementedError
      else
        rbind (unpack2 (snd key)) (\<lambda>k.
        rbind (iota_2x32_shape shape) (\<lambda>(counts1, counts2).
        let bits = map (threefry2x32 (on_cpu cfg) k) (zip counts1 counts2) in
        Inr (shape,
          if bit_width = 64 then map (\<lambda>(bits1, bits2). push_bit 32 (ucast bits1) OR ucast bits2) bits
          else if bit_width = 32 then map (\<lambda>(bits1, bits2). ucast (bits1 XOR bits2)) bits
          else map (\<lambda>(bits1, bits2). take_bit bit_width (ucast (bits1 XOR bits2))) bits))))"

text \<open>\<^verbatim>\<open>bits.view(dtype)\<close> by the source's way: shifts of all words along a new axis, transposed.\<close>

definition narrow_view :: "nat \<Rightarrow> u32 list \<Rightarrow> u32 list" where
  "narrow_view bit_width bits =
     (let broadcasted = map (\<lambda>i. map (\<lambda>b. (2 ^ bit_width - 1) AND drop_bit (bit_width * i) b) bits) [0..<32 div bit_width] in
      concat (map (\<lambda>n. map (\<lambda>row. row ! n) broadcasted) [0..<length bits]))"

definition threefry_random_bits_original ::
  "prng_config \<Rightarrow> u32 tensor \<Rightarrow> nat \<Rightarrow> nat list \<Rightarrow> 64 word tensor res" where
  "threefry_random_bits_original cfg key bit_width shape =
     (let size = prod_list shape;
          r = (bit_width * size) mod 32;
          max_count = (bit_width * size) div 32 + (if r > 0 then 1 else 0);
          nblocks = max_count div (2 ^ 32 - 1); rem = max_count mod (2 ^ 32 - 1) in
      rbind
        (if nblocks = 0
         then rbind (unpack2 (snd key)) (\<lambda>keypair. Inr (threefry_2x32 cfg keypair (map of_nat [0..<rem])))
         else
           rbind (threefry_split cfg key [nblocks + 1]) (\<lambda>(_, keys).
           rbind (rmap (\<lambda>i. rbind (unpack2 (block 2 keys i)) (\<lambda>subkey.
             Inr (threefry_2x32 cfg subkey (map of_nat [0..<2 ^ 32 - 1])))) [0..<nblocks]) (\<lambda>blocks.
           rbind (unpack2 (block 2 keys nblocks)) (\<lambda>last_key.
           Inr (concat blocks @ threefry_2x32 cfg last_key (map of_nat [0..<rem]))))))
        (\<lambda>bits.
        Inr (shape,
          if bit_width = 64
          then map (\<lambda>(hi, lo). push_bit 32 (ucast hi) OR ucast lo)
                 (zip (take (length bits div 2) bits) (drop (length bits div 2) bits))
          else if bit_width = 8 \<or> bit_width = 16
          then take size (map (\<lambda>b. take_bit bit_width (ucast b)) (narrow_view bit_width bits))
          else map ucast bits)))"

definition threefry_random_bits :: "prng_config \<Rightarrow> u32 tensor \<Rightarrow> nat \<Rightarrow> nat list \<Rightarrow> 64 word tensor res" where
  "threefry_random_bits cfg key bit_width shape =
     (if \<not> is_threefry_prng_key (KeyData (fst key) UInt32 (snd key)) then Inl (TypeError ''invalid prng key'')
      else if bit_width \<notin> {8, 16, 32, 64} then Inl (TypeError ''bit width'')
      else if threefry_partitionable cfg then threefry_random_bits_partitionable cfg key bit_width shape
      else threefry_random_bits_original cfg key bit_width shape)"

subsection \<open>The generator of XLA\<close>

definition rbg_seed :: "int_array \<Rightarrow> u32 tensor res" where
  "rbg_seed seed =
     rbind (rassert (ia_shape seed = [])) (\<lambda>_.
     rbind (threefry_seed seed) (\<lambda>(_, halfkey). Inr ([4], halfkey @ halfkey)))"

text \<open>
  \<^verbatim>\<open>vmap(f, (0, None), len(shape))(halfkeys, shape).reshape(*shape, 4)\<close>: the keys split from the two
  halves, next to each other.
\<close>

definition rbg_split :: "prng_config \<Rightarrow> u32 tensor \<Rightarrow> nat list \<Rightarrow> u32 tensor res" where
  "rbg_split cfg key shape =
     (let split = (if threefry_partitionable cfg then threefry_split_foldlike cfg else threefry_split_original cfg) in
      rbind (split ([2], block 2 (snd key) 0) shape) (\<lambda>(_, keys0).
      rbind (split ([2], block 2 (snd key) 1) shape) (\<lambda>(_, keys1).
      Inr (shape @ [4], concat (map (\<lambda>i. block 2 keys0 i @ block 2 keys1 i) [0..<prod_list shape])))))"

definition rbg_fold_in :: "prng_config \<Rightarrow> u32 tensor \<Rightarrow> int_array \<Rightarrow> u32 tensor res" where
  "rbg_fold_in cfg key data =
     rbind (rassert (ia_shape data = [])) (\<lambda>_.
     rbind (threefry_fold_in_jit cfg ([2], block 2 (snd key) 0) data) (\<lambda>(_, half0).
     rbind (threefry_fold_in_jit cfg ([2], block 2 (snd key) 1) data) (\<lambda>(_, half1).
     Inr ([4], half0 @ half1))))"

text \<open>The guard as it is written: \<^verbatim>\<open>not key.shape == (4,) and key.dtype == np.dtype('uint32')\<close>\<close>

definition rbg_random_bits :: "bit_generator \<Rightarrow> key_obj \<Rightarrow> nat \<Rightarrow> nat list \<Rightarrow> 64 word tensor res" where
  "rbg_random_bits generator key bit_width shape =
     (case key of
        NoArray \<Rightarrow> Inl (PrimError ''AttributeError'')
      | KeyData key_shape dt words \<Rightarrow>
          if \<not> key_shape = [4] \<and> dt = UInt32 then Inl (TypeError ''invalid prng key'')
          else if bit_width \<notin> {8, 16, 32, 64} then Inl (TypeError ''bit width'')
          else Inr (shape, generator (key_shape, words) shape bit_width))"

text \<open>Every tenth row of the bits; the rows are converted back to their 32-bit elements.\<close>

definition unsafe_rbg_split :: "bit_generator \<Rightarrow> u32 tensor \<Rightarrow> nat list \<Rightarrow> u32 tensor res" where
  "unsafe_rbg_split generator key shape =
     (let num = prod_list shape; keys = map ucast (generator key [10 * num, 4] 32) in
      Inr (shape @ [4], concat (map (\<lambda>i. block 4 keys (10 * i)) [0..<num])))"

definition unsafe_rbg_fold_in :: "bit_generator \<Rightarrow> u32 tensor \<Rightarrow> int_array \<Rightarrow> u32 tensor res" where
  "unsafe_rbg_fold_in generator key data =
     rbind (rassert (ia_shape data = [])) (\<lambda>_.
     rbind (rbg_seed data) (\<lambda>k.
     let random_bits = map ucast (generator k [10, 4] 32) in
     Inr (fst key, map (\<lambda>(a, b). a XOR b) (zip (snd key) (block 4 random_bits 9)))))"

subsection \<open>The implementations\<close>

record prng_impl =
  key_shape :: "nat list"
  impl_seed :: "int_array \<Rightarrow> u32 tensor res"
  impl_split :: "u32 tensor \<Rightarrow> nat list \<Rightarrow> u32 tensor res"
  impl_random_bits :: "u32 tensor \<Rightarrow> nat \<Rightarrow> nat list \<Rightarrow> 64 word tensor res"
  impl_fold_in :: "u32 tensor \<Rightarrow> int_array \<Rightarrow> u32 tensor res"
  impl_name :: string
  impl_tag :: string

definition threefry_prng_impl :: "prng_config \<Rightarrow> prng_impl" where
  "threefry_prng_impl cfg =
     \<lparr>key_shape = [2], impl_seed = threefry_seed, impl_split = threefry_split cfg,
      impl_random_bits = threefry_random_bits cfg, impl_fold_in = threefry_fold_in cfg,
      impl_name = ''threefry2x32'', impl_tag = ''fry''\<rparr>"

definition rbg_prng_impl :: "prng_config \<Rightarrow> bit_generator \<Rightarrow> prng_impl" where
  "rbg_prng_impl cfg generator =
     \<lparr>key_shape = [4], impl_seed = rbg_seed, impl_split = rbg_split cfg,
      impl_random_bits = (\<lambda>key. rbg_random_bits generator (KeyData (fst key) UInt32 (snd key))),
      impl_fold_in = rbg_fold_in cfg, impl_name = ''rbg'', impl_tag = ''rbg''\<rparr>"

definition unsafe_rbg_prng_impl :: "prng_config \<Rightarrow> bit_generator \<Rightarrow> prng_impl" where
  "unsafe_rbg_prng_impl cfg generator =
     \<lparr>key_shape = [4], impl_seed = rbg_seed, impl_split = unsafe_rbg_split generator,
      impl_random_bits = (\<lambda>key. rbg_random_bits generator (KeyData (fst key) UInt32 (snd key))),
      impl_fold_in = unsafe_rbg_fold_in generator, impl_name = ''unsafe_rbg'', impl_tag = ''urbg''\<rparr>"

text \<open>The registry of implementations, and the three the module registers.\<close>

definition register_prng :: "prng_impl \<Rightarrow> (string \<times> prng_impl) list \<Rightarrow> (string \<times> prng_impl) list res" where
  "register_prng impl prngs =
     (if impl_name impl \<in> fst ` set prngs then Inl (ValueError ''already registered'')
      else Inr (dict_set prngs (impl_name impl) impl))"

definition registered_prngs :: "prng_config \<Rightarrow> bit_generator \<Rightarrow> (string \<times> prng_impl) list res" where
  "registered_prngs cfg generator =
     rfold register_prng [threefry_prng_impl cfg, rbg_prng_impl cfg generator, unsafe_rbg_prng_impl cfg generator] []"

subsection \<open>Facts about one key\<close>

lemma length_block: "(i + 1) * n \<le> length xs \<Longrightarrow> length (block n xs i) = n"
  by (simp add: block_def)

lemma nth_block: "j < n \<Longrightarrow> (i + 1) * n \<le> length xs \<Longrightarrow> block n xs i ! j = xs ! (i * n + j)"
  by (simp add: block_def)

lemma block_concat:
  "\<forall>ys \<in> set yss. length ys = n \<Longrightarrow> i < length yss \<Longrightarrow> block n (concat yss) i = yss ! i"
proof (induction yss arbitrary: i)
  case (Cons ys yss)
  then show ?case
    by (cases i) (simp_all add: block_def)
qed simp

lemma length_concat_block: "\<forall>ys \<in> set yss. length ys = n \<Longrightarrow> length (concat yss) = n * length yss"
  by (induction yss) simp_all

lemma unpack2_ok: "length xs = 2 \<Longrightarrow> unpack2 xs = Inr (xs ! 0, xs ! 1)"
  by (cases xs; cases "tl xs") (auto simp: length_Suc_conv numeral_2_eq_2)

lemma unpack2_eq_Inr: "unpack2 xs = Inr (a, b) \<longleftrightarrow> xs = [a, b]"
  by (induction xs rule: unpack2.induct) auto

lemma length_threefry_2x32: "length (threefry_2x32 cfg key cs) = length cs"
proof (cases "even (length cs)")
  case False
  then obtain m where "length cs = 2 * m + 1" by (elim oddE)
  then show ?thesis by (simp add: threefry_2x32_def Let_def)
next
  case True
  then obtain m where "length cs = 2 * m" by (elim evenE)
  then show ?thesis by (simp add: threefry_2x32_def Let_def)
qed

lemma threefry_2x32_symbolic_eq: "threefry_2x32_symbolic cfg key cs = threefry_2x32 cfg key cs"
proof (cases "even (length cs)")
  case True
  then obtain m where m: "length cs = 2 * m" by (elim evenE)
  then have "take m (drop m (cs @ [0])) = drop m cs" "take m (cs @ [0]) = take m cs" by simp_all
  with m show ?thesis by (simp add: threefry_2x32_symbolic_def threefry_2x32_def Let_def)
next
  case False
  then obtain m where m: "length cs = 2 * m + 1" by (elim oddE)
  then have "take (Suc m) (drop (Suc m) (cs @ [0])) = drop (Suc m) (cs @ [0])" by simp
  with m show ?thesis by (simp add: threefry_2x32_symbolic_def threefry_2x32_def Let_def butlast_conv_take)
qed

text \<open>Two counts give their image under the block function.\<close>

lemma threefry_2x32_pair:
  "threefry_2x32 cfg key [a, b] = (let (c, d) = threefry2x32 (on_cpu cfg) key (a, b) in [c, d])"
  by (simp add: threefry_2x32_def Let_def split_beta)

text \<open>The counts of an array of keys, paired up.\<close>

lemma iota_zip:
  assumes "iota_2x32_shape shape = Inr (hi, lo)" "prod_list shape \<le> 2 ^ 64"
  shows "length (zip hi lo) = prod_list shape" "distinct (zip hi lo)"
proof -
  from iota_2x32_correct [OF assms(2)] assms(1) have l: "length hi = prod_list shape" "length lo = prod_list shape"
    and n: "\<forall>k < prod_list shape. unat (hi ! k) * 2 ^ 32 + unat (lo ! k) = k" by auto
  show "length (zip hi lo) = prod_list shape" using l by simp
  show "distinct (zip hi lo)" unfolding distinct_conv_nth
  proof (intro allI impI notI)
    fix i j assume "i < length (zip hi lo)" "j < length (zip hi lo)" "i \<noteq> j" "zip hi lo ! i = zip hi lo ! j"
    then show False using l n by (simp, metis)
  qed
qed

lemma iota_2x32_total: "\<exists>hi lo. iota_2x32_shape shape = Inr (hi, lo) \<and> length hi = prod_list shape \<and> length lo = prod_list shape"
proof (cases "shape = []")
  case False
  have "rmap (\<lambda>idx. bcast_iotas_to_reshaped_iota shape (map of_nat idx)) (positions shape)
      = Inr (map (\<lambda>idx. of_nat (number idx shape)) (positions shape))"
    using bcast_number [OF positions_length False] by (intro rmap_total)
  then show ?thesis using False by (simp add: iota_2x32_shape_def length_positions)
qed (simp add: iota_2x32_shape_def)

text \<open>The keys split off are the images of the counts, two words each.\<close>

lemma split_foldlike:
  assumes "unpack2 words = Inr k" "iota_2x32_shape shape = Inr (hi, lo)"
  shows "threefry_split_foldlike cfg (s, words) shape =
    Inr (shape @ [2], concat (map (\<lambda>c. [fst (threefry2x32 (on_cpu cfg) k c), snd (threefry2x32 (on_cpu cfg) k c)]) (zip hi lo)))"
  using assms by (simp add: threefry_split_foldlike_def split_beta comp_def Let_def)

lemma block_pairs:
  "i < length cs \<Longrightarrow> block 2 (concat (map (\<lambda>c. [fst (f c), snd (f c)]) cs)) i = [fst (f (cs ! i)), snd (f (cs ! i))]"
  by (subst block_concat) simp_all

text \<open>No two of the keys are equal, however the array of keys is shaped.\<close>

lemma split_keys_distinct:
  assumes "threefry_partitionable cfg" "prod_list shape \<le> 2 ^ 64" "threefry_split cfg (s, words) shape = Inr (s', ks)"
    and ij: "i < prod_list shape" "j < prod_list shape" "block 2 ks i = block 2 ks j"
  shows "i = j"
proof -
  from assms(1,3) obtain k hi lo where k: "unpack2 words = Inr k" and c: "iota_2x32_shape shape = Inr (hi, lo)"
    by (auto simp: threefry_split_def threefry_split_foldlike_def res_simps)
  note split = split_foldlike [OF k c]
  have len: "length (zip hi lo) = prod_list shape" and d: "distinct (zip hi lo)" using iota_zip [OF c assms(2)] .
  have "threefry2x32 (on_cpu cfg) k (zip hi lo ! i) = threefry2x32 (on_cpu cfg) k (zip hi lo ! j)"
    using assms(1,3) ij unfolding threefry_split_def split
    by (auto simp: block_pairs [where f = "threefry2x32 (on_cpu cfg) k"] len prod_eq_iff simp del: length_zip nth_zip)
  then have "zip hi lo ! i = zip hi lo ! j" by (simp add: threefry_inj)
  then show ?thesis using nth_eq_iff_index_eq [OF d, of i j] ij(1,2) len by metis
qed

text \<open>Splitting always gives the keys asked for.\<close>

lemma threefry_split_total:
  assumes "length words = 2"
  shows "\<exists>ks. threefry_split cfg (s, words) shape = Inr (shape @ [2], ks) \<and> length ks = prod_list shape * 2"
proof (cases "threefry_partitionable cfg")
  case True
  obtain hi lo where c: "iota_2x32_shape shape = Inr (hi, lo)" "length hi = prod_list shape" "length lo = prod_list shape"
    using iota_2x32_total by blast
  show ?thesis using True c(2,3)
    by (simp add: threefry_split_def split_foldlike [OF unpack2_ok [OF assms] c(1)] length_concat_block [where n = 2])
next
  case False
  then show ?thesis
    by (simp add: threefry_split_def threefry_split_original_def unpack2_ok [OF assms] length_threefry_2x32)
qed

lemma foldlike_total:
  assumes "length words = 2"
  shows "\<exists>ks. threefry_split_foldlike cfg (s, words) shape = Inr (shape @ [2], ks) \<and> length ks = prod_list shape * 2"
  using threefry_split_total [OF assms, of "cfg\<lparr>threefry_partitionable := True\<rparr>" s shape]
  by (simp add: threefry_split_def threefry_split_foldlike_def split_beta cong: rbind_cong)

lemma original_total:
  assumes "length words = 2"
  shows "\<exists>ks. threefry_split_original cfg (s, words) shape = Inr (shape @ [2], ks) \<and> length ks = prod_list shape * 2"
  by (simp add: threefry_split_original_def unpack2_ok [OF assms] length_threefry_2x32)

subsection \<open>Facts about random bits\<close>

lemma narrow_view:
  assumes "bit_width \<in> {8, 16}"
  shows "length (narrow_view bit_width bits) = length bits * (32 div bit_width)"
    and "k < length bits * (32 div bit_width) \<Longrightarrow>
      narrow_view bit_width bits ! k =
        take_bit bit_width (drop_bit (bit_width * (k mod (32 div bit_width))) (bits ! (k div (32 div bit_width))))"
proof -
  let ?r = "32 div bit_width"
  have r: "0 < ?r" using assms by auto
  define row where "row = (\<lambda>b. map (\<lambda>i. take_bit bit_width (drop_bit (bit_width * i) (b :: u32))) [0..<?r])"
  have "narrow_view bit_width bits = concat (map (\<lambda>n. row (bits ! n)) [0..<length bits])"
    unfolding narrow_view_def row_def Let_def
    by (intro arg_cong [where f = concat] map_cong refl)
      (simp add: comp_def take_bit_eq_mask mask_eq_exp_minus_1 and.commute)
  then have nv: "narrow_view bit_width bits = concat (map row bits)" by (simp add: map_nth flip: map_map [unfolded comp_def])
  have l: "\<forall>ys \<in> set (map row bits). length ys = ?r" by (auto simp: row_def)
  show len: "length (narrow_view bit_width bits) = length bits * ?r"
    using length_concat_block [OF l] by (simp add: nv mult.commute)
  show "narrow_view bit_width bits ! k = take_bit bit_width (drop_bit (bit_width * (k mod ?r)) (bits ! (k div ?r)))"
    if "k < length bits * ?r"
  proof -
    have k: "k div ?r < length bits" "k mod ?r < ?r" using that r by (simp_all add: less_mult_imp_div_less)
    then have "(k div ?r + 1) * ?r \<le> length bits * ?r" by (intro mult_le_mono1) simp
    then have "block ?r (narrow_view bit_width bits) (k div ?r) ! (k mod ?r) = narrow_view bit_width bits ! k"
      using k by (subst nth_block) (simp_all only: len div_mult_mod_eq)
    moreover have "block ?r (narrow_view bit_width bits) (k div ?r) = row (bits ! (k div ?r))"
      unfolding nv using k block_concat [OF l] by simp
    ultimately show ?thesis using k by (simp add: row_def)
  qed
qed

lemma join_words: "unat (push_bit 32 (ucast hi) OR ucast lo :: 64 word) = unat (hi :: u32) * 2 ^ 32 + unat (lo :: u32)"
proof -
  have disjoint: "push_bit 32 (ucast hi) AND (ucast lo :: 64 word) = 0"
  proof (rule bit_word_eqI)
    fix n assume "n < LENGTH(64)"
    then show "bit (push_bit 32 (ucast hi) AND (ucast lo :: 64 word)) n \<longleftrightarrow> bit (0 :: 64 word) n"
      using bit_imp_le_length [of lo n] by (auto simp: bit_simps)
  qed
  have h: "unat hi < 2 ^ 32" "unat lo < 2 ^ 32" using unsigned_less [of hi] unsigned_less [of lo] by simp_all
  then have s: "unat hi * 2 ^ 32 + unat lo < 2 ^ 64" by simp
  have u: "unat (ucast hi :: 64 word) = unat hi" "unat (ucast lo :: 64 word) = unat lo"
    using h by (simp_all add: unsigned_ucast_eq take_bit_eq_mod)
  have "unat (push_bit 32 (ucast hi) :: 64 word) = unat hi * 2 ^ 32"
    using s u by (simp add: unsigned_push_bit_eq push_bit_eq_mult take_bit_eq_mod unat_word_ariths)
  then show ?thesis using s u
    by (simp add: disjunctive_add_eq_or [symmetric] disjoint unat_word_ariths)
qed

lemma join_words_inj:
  "push_bit 32 (ucast a) OR ucast b = (push_bit 32 (ucast c) OR ucast d :: 64 word) \<longleftrightarrow> (a :: u32) = c \<and> (b :: u32) = d"
proof
  assume "push_bit 32 (ucast a) OR ucast b = (push_bit 32 (ucast c) OR ucast d :: 64 word)"
  then have "unat a * 2 ^ 32 + unat b = unat c * 2 ^ 32 + unat d" using join_words by metis
  moreover have "unat b < 2 ^ 32" "unat d < 2 ^ 32" using unsigned_less [of b] unsigned_less [of d] by simp_all
  ultimately have "(unat a * 2 ^ 32 + unat b) div 2 ^ 32 = (unat c * 2 ^ 32 + unat d) div 2 ^ 32"
    "(unat a * 2 ^ 32 + unat b) mod 2 ^ 32 = (unat c * 2 ^ 32 + unat d) mod 2 ^ 32"
    and "unat b < 2 ^ 32" "unat d < 2 ^ 32" by simp_all
  then have "unat a = unat c \<and> unat b = unat d" by simp
  then show "a = c \<and> b = d" by (simp add: word_unat_eq_iff)
qed simp

text \<open>The 64-bit words drawn for one key are pairwise different.\<close>

lemma bits64_distinct:
  assumes "threefry_partitionable cfg" "threefry_random_bits cfg key 64 shape = Inr (s, bits)"
  shows "distinct bits"
proof -
  have size: "prod_list shape \<le> 2 ^ 64"
    using assms by (auto simp: threefry_random_bits_def threefry_random_bits_partitionable_def split: if_splits)
  from assms size obtain k hi lo where c: "iota_2x32_shape shape = Inr (hi, lo)"
    and bits: "bits = map (\<lambda>(bits1, bits2). push_bit 32 (ucast bits1) OR ucast bits2) (map (threefry2x32 (on_cpu cfg) k) (zip hi lo))"
    by (auto simp: threefry_random_bits_def threefry_random_bits_partitionable_def res_simps split: if_splits)
  have "inj (\<lambda>(a :: u32, b :: u32). push_bit 32 (ucast a) OR ucast b :: 64 word)"
    by (auto simp: inj_def join_words_inj)
  moreover have "inj (threefry2x32 (on_cpu cfg) k)" by (simp add: inj_def threefry_inj)
  ultimately show ?thesis unfolding bits using iota_zip(2) [OF c size]
    by (simp add: distinct_map inj_on_subset [OF inj_compose])
qed

text \<open>Bits of the width and the number asked for, whichever way they are drawn.\<close>

lemma take_bit_less: "unat (take_bit w (x :: 64 word)) < 2 ^ w"
  by (simp add: unsigned_take_bit_eq take_bit_nat_less_exp)

lemma unat_ucast_64: "unat (ucast (x :: u32) :: 64 word) = unat x"
proof -
  have "unat x < 2 ^ 32" using unsigned_less [of x] by simp
  then show ?thesis by (simp add: unsigned_ucast_eq take_bit_eq_mod)
qed

lemma ucast_less: "unat (ucast (x :: u32) :: 64 word) < 2 ^ 32"
  unfolding unat_ucast_64 using unsigned_less [of x] by simp

lemma word64_less: "unat (x :: 64 word) < 2 ^ 64"
  using unsigned_less [of x] by simp

lemma partitionable_bits_ok:
  assumes "length words = 2" "bit_width \<in> {8, 16, 32, 64}" "prod_list shape \<le> 2 ^ 64"
  shows "\<exists>bits. threefry_random_bits_partitionable cfg (s, words) bit_width shape = Inr (shape, bits) \<and>
    length bits = prod_list shape \<and> (\<forall>b \<in> set bits. unat b < 2 ^ bit_width)"
proof -
  obtain hi lo where "iota_2x32_shape shape = Inr (hi, lo)" "length hi = prod_list shape" "length lo = prod_list shape"
    using iota_2x32_total by blast
  then show ?thesis using assms(2,3) ucast_less word64_less take_bit_less [of 8] take_bit_less [of 16]
    by (auto simp: threefry_random_bits_partitionable_def unpack2_ok [OF assms(1)] split_beta)
qed

text \<open>The words of the other way: as many as hold the bits.\<close>

definition word_count :: "nat \<Rightarrow> nat \<Rightarrow> nat" where
  "word_count bit_width num = (bit_width * num) div 32 + (if (bit_width * num) mod 32 > 0 then 1 else 0)"

lemma word_count_simps:
  "word_count 64 n = 2 * n" "word_count 32 n = n"
  "bit_width \<in> {8, 16} \<Longrightarrow> n \<le> word_count bit_width n * (32 div bit_width)"
  unfolding word_count_def by (simp, simp, auto)

lemma original_words_ok:
  assumes "length words = 2"
  shows "\<exists>bits. (if m div (2 ^ 32 - 1) = 0
      then rbind (unpack2 words) (\<lambda>keypair. Inr (threefry_2x32 cfg keypair (map of_nat [0..<m mod (2 ^ 32 - 1)])))
      else
        rbind (threefry_split cfg (s, words) [m div (2 ^ 32 - 1) + 1]) (\<lambda>(_, keys).
        rbind (rmap (\<lambda>i. rbind (unpack2 (block 2 keys i)) (\<lambda>subkey.
          Inr (threefry_2x32 cfg subkey (map of_nat [0..<2 ^ 32 - 1])))) [0..<m div (2 ^ 32 - 1)]) (\<lambda>blocks.
        rbind (unpack2 (block 2 keys (m div (2 ^ 32 - 1)))) (\<lambda>last_key.
        Inr (concat blocks @ threefry_2x32 cfg last_key (map of_nat [0..<m mod (2 ^ 32 - 1)])))))) = Inr bits \<and>
    length bits = m \<and>
    (m < 2 ^ 32 - 1 \<longrightarrow> bits = threefry_2x32 cfg (words ! 0, words ! 1) (map of_nat [0..<m]))"
  (is "\<exists>bits. (if ?n = 0 then _ else _) = Inr bits \<and> _")
proof (cases "?n = 0")
  case True
  then have "m < 2 ^ 32 - 1" by (simp add: div_eq_0_iff)
  then show ?thesis using True by (simp add: unpack2_ok [OF assms] length_threefry_2x32)
next
  case False
  then have m: "\<not> m < 2 ^ 32 - 1" by (simp add: div_eq_0_iff)
  obtain keys where keys: "threefry_split cfg (s, words) [?n + 1] = Inr ([?n + 1] @ [2], keys)" "length keys = (?n + 1) * 2"
    using threefry_split_total [OF assms, of cfg s "[?n + 1]"] by auto
  have key: "unpack2 (block 2 keys i) = Inr (block 2 keys i ! 0, block 2 keys i ! 1)" if "i \<le> ?n" for i
    using that keys(2) by (intro unpack2_ok length_block) (simp del: One_nat_def)
  define f where "f = (\<lambda>i. threefry_2x32 cfg (block 2 keys i ! 0, block 2 keys i ! 1) (map of_nat [0..<2 ^ 32 - 1]))"
  have "rmap (\<lambda>i. rbind (unpack2 (block 2 keys i)) (\<lambda>subkey. Inr (threefry_2x32 cfg subkey (map of_nat [0..<2 ^ 32 - 1])))) [0..<?n]
      = Inr (map f [0..<?n])"
    using key by (intro rmap_total) (simp add: f_def)
  moreover have "length (concat (map f [0..<?n])) = (2 ^ 32 - 1) * ?n"
    by (subst length_concat_block [where n = "2 ^ 32 - 1"]) (simp_all only: length_map length_upt set_map ball_simps f_def length_threefry_2x32 diff_zero, simp)
  ultimately show ?thesis using False m keys(1) key [of ?n]
    by (simp only: if_False rbind_Inr prod.case order_refl simp_thms) (simp only: length_append length_threefry_2x32 length_map length_upt diff_zero sum.inject ex_simps simp_thms mult_div_mod_eq ex1_eq)
qed

text \<open>Element \<open>k\<close> of \<open>num\<close> elements of the width that the words \<open>ws\<close> hold: a view of the words, or their two halves paired.\<close>

definition view_element :: "nat \<Rightarrow> u32 list \<Rightarrow> nat \<Rightarrow> nat \<Rightarrow> nat" where
  "view_element bit_width ws num k =
     (if bit_width = 64 then unat (ws ! k) * 2 ^ 32 + unat (ws ! (num + k))
      else if bit_width = 32 then unat (ws ! k)
      else unat (ws ! (k div (32 div bit_width))) div 2 ^ (bit_width * (k mod (32 div bit_width))) mod 2 ^ bit_width)"

lemma ucast_narrow:
  "unat (take_bit w (ucast (take_bit w (x :: u32))) :: 64 word) = unat x mod 2 ^ w"
  unfolding unsigned_take_bit_eq unat_ucast_64 by (simp add: take_bit_eq_mod)

lemma unat_drop_bit: "unat (drop_bit n (x :: u32)) = unat x div 2 ^ n"
proof -
  have "take_bit 32 (unat x) = unat x" using unsigned_less [of x] by (simp add: take_bit_nat_eq_self_iff)
  then have "unat (drop_bit n x) = drop_bit n (unat x)" by (simp add: unsigned_drop_bit_eq)
  then show ?thesis by (simp add: drop_bit_eq_div)
qed

lemma original_bits:
  fixes shape :: "nat list"
  assumes w: "length words = 2" "bit_width \<in> {8, 16, 32, 64}"
  defines "num \<equiv> word_count bit_width (prod_list shape)"
  shows "\<exists>bits. threefry_random_bits_original cfg (s, words) bit_width shape = Inr (shape, bits) \<and>
    length bits = prod_list shape \<and> (\<forall>b \<in> set bits. unat b < 2 ^ bit_width) \<and>
    (num < 2 ^ 32 - 1 \<longrightarrow> (\<forall>k < prod_list shape. unat (bits ! k) =
      view_element bit_width (threefry_2x32 cfg (words ! 0, words ! 1) (map of_nat [0..<num])) (prod_list shape) k))"
proof -
  obtain ws where ws: "length ws = num" "num < 2 ^ 32 - 1 \<Longrightarrow> ws = threefry_2x32 cfg (words ! 0, words ! 1) (map of_nat [0..<num])"
    and run: "threefry_random_bits_original cfg (s, words) bit_width shape = Inr (shape,
          if bit_width = 64
          then map (\<lambda>(hi, lo). push_bit 32 (ucast hi) OR ucast lo)
                 (zip (take (length ws div 2) ws) (drop (length ws div 2) ws))
          else if bit_width = 8 \<or> bit_width = 16
          then take (prod_list shape) (map (\<lambda>b. take_bit bit_width (ucast b)) (narrow_view bit_width ws))
          else map ucast ws)"
    using original_words_ok [OF w(1), of num cfg s]
    unfolding threefry_random_bits_original_def Let_def num_def word_count_def snd_conv by (elim exE conjE) simp
  let ?n = "prod_list shape"
  consider "bit_width = 64" | "bit_width = 32" | "bit_width \<in> {8, 16}" using w(2) by auto
  then show ?thesis
  proof cases
    case 1
    then have "length ws = 2 * ?n" using ws(1) by (simp add: num_def word_count_simps)
    then show ?thesis using 1 run ws(2) word64_less
      by (auto simp: view_element_def join_words)
  next
    case 2
    then have "length ws = ?n" using ws(1) by (simp add: num_def word_count_simps)
    then show ?thesis using 2 run ws(2) ucast_less by (auto simp: view_element_def unat_ucast_64)
  next
    case 3
    let ?r = "32 div bit_width"
    have n: "?n \<le> length ws * ?r" using ws(1) word_count_simps(3) [OF 3] by (simp add: num_def)
    have w32: "bit_width \<noteq> 64" "bit_width \<noteq> 32" "bit_width = 8 \<or> bit_width = 16" "bit_width \<le> 32" using 3 by auto
    define bits where "bits = take ?n (map (\<lambda>b. take_bit bit_width (ucast b) :: 64 word) (narrow_view bit_width ws))"
    have "length bits = ?n" using n narrow_view(1) [OF 3, where bits = ws] by (simp add: bits_def)
    moreover have "unat (bits ! k) = view_element bit_width ws ?n k" if "k < ?n" for k
    proof -
      have k: "k < length ws * ?r" using that n by simp
      then show ?thesis using that narrow_view [OF 3, where bits = ws] w32
        by (simp add: bits_def view_element_def ucast_narrow unat_drop_bit)
    qed
    moreover have "\<forall>b \<in> set bits. unat b < 2 ^ bit_width" using take_bit_less by (auto simp: bits_def dest!: in_set_takeD)
    ultimately show ?thesis using run w32 ws(2) by (auto simp flip: bits_def)
  qed
qed

lemma threefry_bits_total:
  assumes "length words = 2" "bit_width \<in> {8, 16, 32, 64}" "prod_list shape \<le> 2 ^ 64"
  shows "\<exists>bits. threefry_random_bits cfg ([2], words) bit_width shape = Inr (shape, bits) \<and>
    length bits = prod_list shape \<and> (\<forall>b \<in> set bits. unat b < 2 ^ bit_width)"
proof -
  have "threefry_random_bits cfg ([2], words) bit_width shape =
      (if threefry_partitionable cfg then threefry_random_bits_partitionable cfg ([2], words) bit_width shape
       else threefry_random_bits_original cfg ([2], words) bit_width shape)"
    using assms(2) by (simp add: threefry_random_bits_def is_threefry_prng_key_def)
  then show ?thesis using partitionable_bits_ok [OF assms, of cfg "[2]"] original_bits [OF assms(1,2), of cfg "[2]" shape] by metis
qed

end
