(* ===== verification/PrngArrays.thy ===== *)
theory PrngArrays
  imports PrngKeys
begin

text \<open>
  \<^verbatim>\<open>jax/_src/prng.py\<close>: arrays of keys and the operations on them, which map the operations of an
  implementation over the leading axes with \<^verbatim>\<open>vmap\<close>. The locale \<open>prng_keys\<close> is the interface an
  implementation has to have (its operations give keys of its shape); inside it the operations on
  arrays are shown to act key by key. The registered implementations are its interpretations.
\<close>

subsection \<open>Mapping over leading axes\<close>

text \<open>
  A function that \<^verbatim>\<open>vmap\<close> can map: what its abstract evaluation gives for the shape of its result, and
  how it runs. The source traces a mapped function once, also for an axis of size zero; here it is
  not run then.
\<close>

record ('a, 'b) traced =
  out_shape :: "nat list \<Rightarrow> nat list"
  run :: "'a tensor \<Rightarrow> 'b tensor res"

definition vmap :: "('a, 'b) traced \<Rightarrow> ('a, 'b) traced" where
  "vmap f =
     \<lparr>out_shape = (\<lambda>shape. take 1 shape @ out_shape f (drop 1 shape)),
      run = (\<lambda>(shape, xs).
        case shape of [] \<Rightarrow> Inl (ValueError ''vmap of a scalar'')
        | d # ds \<Rightarrow>
            rbind (rmap (\<lambda>i. run f (ds, block (prod_list ds) xs i)) [0..<d]) (\<lambda>ys.
            Inr (d # out_shape f ds, concat (map snd ys))))\<rparr>"

definition iterated_vmap_unary :: "nat \<Rightarrow> ('a, 'b) traced \<Rightarrow> ('a, 'b) traced" where
  "iterated_vmap_unary n f = fold (\<lambda>_. vmap) [0..<n] f"

record ('a, 'b, 'c) traced2 =
  out_shape2 :: "nat list \<Rightarrow> nat list \<Rightarrow> nat list"
  run2 :: "'a tensor \<Rightarrow> 'b tensor \<Rightarrow> 'c tensor res"

text \<open>\<^verbatim>\<open>vmap\<close> of a function of two arguments, both mapped.\<close>

definition vmap2 :: "('a, 'b, 'c) traced2 \<Rightarrow> ('a, 'b, 'c) traced2" where
  "vmap2 f =
     \<lparr>out_shape2 = (\<lambda>shape1 shape2. take 1 shape1 @ out_shape2 f (drop 1 shape1) (drop 1 shape2)),
      run2 = (\<lambda>(shape1, xs) (shape2, ys).
        case (shape1, shape2) of
          (d # ds, e # es) \<Rightarrow>
            if d \<noteq> e then Inl (ValueError ''vmap got inconsistent sizes'')
            else rbind (rmap (\<lambda>i. run2 f (ds, block (prod_list ds) xs i) (es, block (prod_list es) ys i)) [0..<d]) (\<lambda>zs.
                 Inr (d # out_shape2 f ds es, concat (map snd zs)))
        | _ \<Rightarrow> Inl (ValueError ''vmap of a scalar''))\<rparr>"

text \<open>\<^verbatim>\<open>jnp.squeeze(x, axis=0)\<close>\<close>

fun squeeze0 :: "'a tensor \<Rightarrow> 'a tensor res" where
  "squeeze0 (shape, xs) =
     (case shape of
        [] \<Rightarrow> Inl (ValueError ''axis out of bounds'')
      | d # ds \<Rightarrow> if d = 1 then Inr (ds, xs) else Inl (ValueError ''cannot squeeze''))"

definition squeeze_vmap :: "('a, 'b, 'c) traced2 \<Rightarrow> bool \<Rightarrow> ('a, 'b, 'c) traced2" where
  "squeeze_vmap f left =
     \<lparr>out_shape2 = (\<lambda>shape1 shape2. take 1 (if left then shape2 else shape1) @ out_shape2 f (drop 1 shape1) (drop 1 shape2)),
      run2 = (\<lambda>x y.
        if left
        then rbind (squeeze0 x) (\<lambda>x.
          run (vmap \<lparr>out_shape = (\<lambda>s. out_shape2 f (fst x) s), run = (\<lambda>y. run2 f x y)\<rparr>) y)
        else rbind (squeeze0 y) (\<lambda>y.
          run (vmap \<lparr>out_shape = (\<lambda>s. out_shape2 f s (fst y)), run = (\<lambda>x. run2 f x y)\<rparr>) x))\<rparr>"

definition iterated_vmap_binary_bcast ::
  "nat list \<Rightarrow> nat list \<Rightarrow> ('a, 'b, 'c) traced2 \<Rightarrow> ('a, 'b, 'c) traced2 res" where
  "iterated_vmap_binary_bcast shape1 shape2 f =
     (let ndim1 = length shape1; ndim2 = length shape2 in
      if ndim1 = 0 \<and> ndim2 = 0 then Inr f
      else if ndim1 = 0
      then Inr \<lparr>out_shape2 = (\<lambda>s t. take ndim2 t @ out_shape2 f s (drop ndim2 t)),
                run2 = (\<lambda>x. run (iterated_vmap_unary ndim2 \<lparr>out_shape = out_shape2 f (fst x), run = (\<lambda>y. run2 f x y)\<rparr>))\<rparr>
      else if ndim2 = 0
      then Inr \<lparr>out_shape2 = (\<lambda>s t. take ndim1 s @ out_shape2 f (drop ndim1 s) t),
                run2 = (\<lambda>x y. run (iterated_vmap_unary ndim1 \<lparr>out_shape = (\<lambda>s. out_shape2 f s (fst y)), run = (\<lambda>x. run2 f x y)\<rparr>) x)\<rparr>
      else
        rbind (rassert (ndim1 = ndim2)) (\<lambda>_.
        rfold (\<lambda>(sz1, sz2) f.
          if sz1 = sz2 then Inr (vmap2 f)
          else rbind (rassert (sz1 = 1 \<or> sz2 = 1)) (\<lambda>_. Inr (squeeze_vmap f (sz1 = 1))))
          (rev (zip shape1 shape2)) f))"

text \<open>What mapping over all leading axes does: the function on every element, in row-major order.\<close>

lemma block_block: "j < p \<Longrightarrow> block m (block (p * m) xs i) j = block m xs (i * p + j)"
proof -
  assume "j < p"
  then have "Suc j * m \<le> p * m" by (intro mult_le_mono1) simp
  then have "m + j * m \<le> p * m" by simp
  then show ?thesis by (simp add: block_def drop_take add_mult_distrib min_def algebra_simps)
qed

lemma concat_blocks:
  "concat (map (\<lambda>i. concat (map (\<lambda>j. g (i * p + j)) [0..<p])) [0..<d]) = concat (map g [0..<d * p])"
proof (induction d)
  case (Suc d)
  have "[0..<Suc d * p] = [0..<d * p] @ map (\<lambda>j. d * p + j) [0..<p]"
    using upt_add_eq_append [of 0 "d * p" p] map_add_upt [of "d * p" p] by (simp add: add.commute)
  then show ?case using Suc by (simp add: comp_def)
qed simp

lemma fold_vmap: "fold (\<lambda>_. vmap) [0..<Suc n] f = vmap (fold (\<lambda>_. vmap) [0..<n] f)"
  by simp

text \<open>\<open>maps f base h\<close>: on elements of shape \<open>base\<close> the function returns the words \<open>h\<close> gives.\<close>

definition maps :: "('a, 'b) traced \<Rightarrow> nat list \<Rightarrow> ('a list \<Rightarrow> 'b list) \<Rightarrow> bool" where
  "maps f base h \<longleftrightarrow> (\<forall>xs. length xs = prod_list base \<longrightarrow> run f (base, xs) = Inr (out_shape f base, h xs))"

lemma iterated_vmap_maps:
  assumes "maps f base h"
  shows "maps (iterated_vmap_unary (length dims) f) (dims @ base)
      (\<lambda>xs. concat (map (\<lambda>i. h (block (prod_list base) xs i)) [0..<prod_list dims]))"
    and "out_shape (iterated_vmap_unary (length dims) f) (dims @ base) = dims @ out_shape f base"
proof (induction dims)
  case Nil
  { case 1 show ?case using assms by (simp add: maps_def iterated_vmap_unary_def block_def) }
  { case 2 show ?case by (simp add: iterated_vmap_unary_def) }
next
  case (Cons d ds)
  let ?m = "prod_list base" and ?p = "prod_list ds"
  let ?g = "iterated_vmap_unary (length ds) f"
  have it: "iterated_vmap_unary (length (d # ds)) f = vmap ?g"
    by (simp only: iterated_vmap_unary_def length_Cons fold_vmap)
  { case 2 show ?case unfolding it using Cons.IH(2) by (simp add: vmap_def) }
  { case 1
    show ?case unfolding it maps_def
    proof (intro allI impI)
      fix xs :: "'a list" assume len: "length xs = prod_list ((d # ds) @ base)"
      have b: "length (block (?p * ?m) xs i) = prod_list (ds @ base)" if "i < d" for i
      proof -
        have "Suc i * (?p * ?m) \<le> d * (?p * ?m)" using that by (intro mult_le_mono1) simp
        then show ?thesis using len by (subst length_block) (simp_all add: ac_simps)
      qed
      have "rmap (\<lambda>i. run ?g (ds @ base, block (prod_list (ds @ base)) xs i)) [0..<d]
          = Inr (map (\<lambda>i. (ds @ out_shape f base,
              concat (map (\<lambda>j. h (block ?m (block (?p * ?m) xs i) j)) [0..<?p]))) [0..<d])"
        using Cons.IH b unfolding maps_def by (intro rmap_total) simp
      moreover have "concat (map (\<lambda>j. h (block ?m (block (?p * ?m) xs i) j)) [0..<?p])
          = concat (map (\<lambda>j. h (block ?m xs (i * ?p + j))) [0..<?p])" for i
        by (intro arg_cong [where f = concat] map_cong refl) (simp add: block_block)
      ultimately show "run (vmap ?g) ((d # ds) @ base, xs)
          = Inr (out_shape (vmap ?g) ((d # ds) @ base),
             concat (map (\<lambda>i. h (block ?m xs i)) [0..<prod_list (d # ds)]))"
        using Cons.IH(2) concat_blocks [of "\<lambda>k. h (block ?m xs k)" ?p d]
        by (simp add: vmap_def comp_def)
    qed }
qed

text \<open>
  Broadcasting: the shape of the result, and the position in an operand that a position of the
  result is taken from.
\<close>

fun bcast_shape :: "nat list \<Rightarrow> nat list \<Rightarrow> nat list" where
  "bcast_shape (d # ds) (e # es) = (if d = 1 then e else d) # bcast_shape ds es"
| "bcast_shape [] es = es"
| "bcast_shape ds [] = ds"

definition bcast_compatible :: "nat list \<Rightarrow> nat list \<Rightarrow> bool" where
  "bcast_compatible ds es \<longleftrightarrow> list_all2 (\<lambda>d e. d = e \<or> d = 1 \<or> e = 1) ds es"

fun clip :: "nat list \<Rightarrow> nat list \<Rightarrow> nat list" where
  "clip (d # ds) (i # idx) = (if d = 1 then 0 else i) # clip ds idx"
| "clip ds idx = []"

lemma positions_bound: "idx \<in> set (positions shape) \<Longrightarrow> number idx shape < prod_list shape"
proof (induction shape arbitrary: idx)
  case (Cons d ds)
  then obtain i idx' where i: "idx = i # idx'" "i < d" "number idx' ds < prod_list ds" by auto
  then have "Suc i * prod_list ds \<le> d * prod_list ds" by (intro mult_le_mono1) simp
  with i show ?case by simp
qed simp

lemma clip_positions:
  "bcast_compatible ds es \<Longrightarrow> idx \<in> set (positions (bcast_shape ds es)) \<Longrightarrow>
    clip ds idx \<in> set (positions ds) \<and> clip es idx \<in> set (positions es)"
proof (induction ds es arbitrary: idx rule: bcast_shape.induct)
  case (1 d ds e es)
  then obtain i idx' where i: "idx = i # idx'" "i < (if d = 1 then e else d)" "idx' \<in> set (positions (bcast_shape ds es))" by auto
  moreover have "d = e \<or> d = 1 \<or> e = 1" "bcast_compatible ds es" using 1(2) by (simp_all add: bcast_compatible_def)
  ultimately show ?case using 1(1) [of idx'] by (auto split: if_splits)
qed (auto simp: bcast_compatible_def)

definition maps2 :: "('a, 'b, 'c) traced2 \<Rightarrow> nat list \<Rightarrow> nat list \<Rightarrow> ('a list \<Rightarrow> 'b list \<Rightarrow> 'c list) \<Rightarrow> bool" where
  "maps2 f base1 base2 h \<longleftrightarrow> (\<forall>xs ys. length xs = prod_list base1 \<longrightarrow> length ys = prod_list base2 \<longrightarrow>
     run2 f (base1, xs) (base2, ys) = Inr (out_shape2 f base1 base2, h xs ys))"

text \<open>One axis of the two operands: equal sizes, or one of them 1.\<close>

definition wrap_axis :: "nat \<Rightarrow> nat \<Rightarrow> ('a, 'b, 'c) traced2 \<Rightarrow> ('a, 'b, 'c) traced2" where
  "wrap_axis d e f = (if d = e then vmap2 f else squeeze_vmap f (d = 1))"

lemma length_leading: "length xs = prod_list (d # ds) \<Longrightarrow> i < d \<Longrightarrow> length (block (prod_list ds) xs i) = prod_list ds"
proof -
  assume len: "length xs = prod_list (d # ds)" and "i < d"
  then have "Suc i * prod_list ds \<le> d * prod_list ds" by (intro mult_le_mono1) simp
  then show ?thesis using len by (subst length_block) simp_all
qed

lemma wrap_axis_maps:
  assumes f: "maps2 f s1 s2 h" and de: "d = e \<or> d = 1 \<or> e = 1"
  shows "maps2 (wrap_axis d e f) (d # s1) (e # s2) (\<lambda>xs ys. concat (map (\<lambda>i.
      h (block (prod_list s1) xs (if d = 1 then 0 else i)) (block (prod_list s2) ys (if e = 1 then 0 else i)))
      [0..<if d = 1 then e else d]))"
    and "out_shape2 (wrap_axis d e f) (d # s1) (e # s2) = (if d = 1 then e else d) # out_shape2 f s1 s2"
proof -
  show o: "out_shape2 (wrap_axis d e f) (d # s1) (e # s2) = (if d = 1 then e else d) # out_shape2 f s1 s2"
    using de by (auto simp: wrap_axis_def vmap2_def squeeze_vmap_def)
  show "maps2 (wrap_axis d e f) (d # s1) (e # s2) (\<lambda>xs ys. concat (map (\<lambda>i.
      h (block (prod_list s1) xs (if d = 1 then 0 else i)) (block (prod_list s2) ys (if e = 1 then 0 else i)))
      [0..<if d = 1 then e else d]))"
    unfolding maps2_def
  proof (intro allI impI)
    fix xs :: "'a list" and ys :: "'b list"
    assume len: "length xs = prod_list (d # s1)" "length ys = prod_list (e # s2)"
    let ?k = "if d = 1 then e else d"
    let ?x = "\<lambda>i. block (prod_list s1) xs (if d = 1 then 0 else i)"
    let ?y = "\<lambda>i. block (prod_list s2) ys (if e = 1 then 0 else i)"
    have "length (?x i) = prod_list s1" "length (?y i) = prod_list s2" if "i < ?k" for i
      using that de by (auto intro!: length_leading [OF len(1)] length_leading [OF len(2)] split: if_splits)
    then have all: "rmap (\<lambda>i. run2 f (s1, ?x i) (s2, ?y i)) [0..<?k]
        = Inr (map (\<lambda>i. (out_shape2 f s1 s2, h (?x i) (?y i))) [0..<?k])"
      using f unfolding maps2_def by (intro rmap_total) simp
    have one: "d = 1 \<Longrightarrow> block (prod_list s1) xs 0 = xs" "e = 1 \<Longrightarrow> block (prod_list s2) ys 0 = ys"
      using len by (simp_all add: block_def)
    show "run2 (wrap_axis d e f) (d # s1, xs) (e # s2, ys)
        = Inr (out_shape2 (wrap_axis d e f) (d # s1) (e # s2), concat (map (\<lambda>i. h (?x i) (?y i)) [0..<?k]))"
      unfolding o using all one de
      by (cases "d = e"; cases "d = 1"; cases "e = 1")
        (simp_all add: wrap_axis_def vmap2_def squeeze_vmap_def vmap_def comp_def)
  qed
qed

text \<open>All axes of the two operands, of equal rank.\<close>

fun wrap_axes :: "nat list \<Rightarrow> nat list \<Rightarrow> ('a, 'b, 'c) traced2 \<Rightarrow> ('a, 'b, 'c) traced2" where
  "wrap_axes (d # ds) (e # es) f = wrap_axis d e (wrap_axes ds es f)"
| "wrap_axes _ _ f = f"

lemma bcast_loop:
  assumes "bcast_compatible ds es"
  shows "rfold (\<lambda>(sz1, sz2) f.
      if sz1 = sz2 then Inr (vmap2 f)
      else rbind (rassert (sz1 = 1 \<or> sz2 = 1)) (\<lambda>_. Inr (squeeze_vmap f (sz1 = 1))))
      (rev (zip ds es)) f = Inr (wrap_axes ds es f)"
  using assms
proof (induction ds es rule: bcast_shape.induct)
  case (1 d ds e es)
  then have "d = e \<or> d = 1 \<or> e = 1" "bcast_compatible ds es" by (simp_all add: bcast_compatible_def)
  then show ?case using 1(1) by (auto simp: rfold_append wrap_axis_def)
qed (simp_all add: bcast_compatible_def)

text \<open>What broadcasting computes at each position of the result.\<close>

definition bcast_map :: "nat list \<Rightarrow> nat list \<Rightarrow> nat \<Rightarrow> nat \<Rightarrow> ('a list \<Rightarrow> 'b list \<Rightarrow> 'c list) \<Rightarrow> 'a list \<Rightarrow> 'b list \<Rightarrow> 'c list" where
  "bcast_map ds es m n h xs ys =
     concat (map (\<lambda>idx. h (block m xs (number (clip ds idx) ds)) (block n ys (number (clip es idx) es)))
       (positions (bcast_shape ds es)))"

lemma concat_concat: "concat (concat xss) = concat (map concat xss)"
  by (induction xss) simp_all

lemma bcast_map_Cons:
  assumes "bcast_compatible (d # ds) (e # es)"
  shows "bcast_map (d # ds) (e # es) m n h xs ys = concat (map (\<lambda>i. bcast_map ds es m n h
      (block (prod_list ds * m) xs (if d = 1 then 0 else i)) (block (prod_list es * n) ys (if e = 1 then 0 else i)))
      [0..<if d = 1 then e else d])"
proof -
  have c: "bcast_compatible ds es" using assms by (simp add: bcast_compatible_def)
  have "block m (block (prod_list ds * m) xs i) (number (clip ds idx) ds) = block m xs (i * prod_list ds + number (clip ds idx) ds)"
    "block n (block (prod_list es * n) ys i) (number (clip es idx) es) = block n ys (i * prod_list es + number (clip es idx) es)"
    if "idx \<in> set (positions (bcast_shape ds es))" for idx i
    using clip_positions [OF c that] positions_bound block_block by blast+
  then have "bcast_map ds es m n h
      (block (prod_list ds * m) xs (if d = 1 then 0 else i)) (block (prod_list es * n) ys (if e = 1 then 0 else i))
    = concat (map (\<lambda>idx. h (block m xs (number (clip (d # ds) (i # idx)) (d # ds))) (block n ys (number (clip (e # es) (i # idx)) (e # es))))
       (positions (bcast_shape ds es)))" for i
    unfolding bcast_map_def by (intro arg_cong [where f = concat] map_cong refl) simp
  then show ?thesis
    by (simp add: bcast_map_def map_concat concat_concat comp_def del: clip.simps number.simps)
qed

lemma wrap_axes_maps:
  assumes "maps2 f base1 base2 h" "bcast_compatible ds es"
  shows "maps2 (wrap_axes ds es f) (ds @ base1) (es @ base2) (bcast_map ds es (prod_list base1) (prod_list base2) h) \<and>
    out_shape2 (wrap_axes ds es f) (ds @ base1) (es @ base2) = bcast_shape ds es @ out_shape2 f base1 base2"
  using assms(2)
proof (induction ds es rule: bcast_shape.induct)
  case (1 d ds e es)
  then have c: "d = e \<or> d = 1 \<or> e = 1" "bcast_compatible ds es" by (simp_all add: bcast_compatible_def)
  then show ?case using 1(1) wrap_axis_maps [OF conjunct1 [OF 1(1) [OF c(2)]] c(1)]
    by (simp add: bcast_map_Cons [OF 1(2)] fun_eq_iff)
qed (use assms(1) in \<open>auto simp: bcast_compatible_def bcast_map_def block_def maps2_def\<close>)

text \<open>Broadcasting as the source does it, in all of its cases; a scalar operand is used everywhere.\<close>

lemma clip_self: "idx \<in> set (positions ds) \<Longrightarrow> clip ds idx = idx"
  by (induction ds arbitrary: idx) auto

lemma numbers_positions: "map (\<lambda>idx. number idx ds) (positions ds) = [0..<prod_list ds]"
  by (rule nth_equalityI) (simp_all add: length_positions number_positions)

lemma map_numbers: "map (\<lambda>idx. g (number (clip ds idx) ds)) (positions ds) = map g [0..<prod_list ds]"
proof -
  have "map (\<lambda>idx. g (number (clip ds idx) ds)) (positions ds) = map g (map (\<lambda>idx. number idx ds) (positions ds))"
    by (simp add: clip_self)
  then show ?thesis by (simp add: numbers_positions)
qed

lemma bcast_shape_Nil [simp]: "bcast_shape ds [] = ds"
  by (cases ds) simp_all

lemma iterated_vmap_binary_bcast_maps:
  assumes f: "maps2 f base1 base2 h" and c: "ds = [] \<or> es = [] \<or> bcast_compatible ds es"
  shows "\<exists>g. iterated_vmap_binary_bcast ds es f = Inr g \<and>
    maps2 g (ds @ base1) (es @ base2) (bcast_map ds es (prod_list base1) (prod_list base2) h) \<and>
    out_shape2 g (ds @ base1) (es @ base2) = bcast_shape ds es @ out_shape2 f base1 base2"
proof -
  consider "ds = []" "es = []" | "ds = []" "es \<noteq> []" | "ds \<noteq> []" "es = []" | "ds \<noteq> []" "es \<noteq> []" "bcast_compatible ds es"
    using c by blast
  then show ?thesis
  proof cases
    case 1
    then show ?thesis using f by (simp add: iterated_vmap_binary_bcast_def bcast_map_def block_def maps2_def)
  next
    case 2
    let ?u = "\<lambda>xs. \<lparr>out_shape = out_shape2 f base1, run = run2 f (base1, xs)\<rparr>"
    have "maps (?u xs) base2 (h xs)" if "length xs = prod_list base1" for xs
      using f that by (simp add: maps_def maps2_def)
    note u = iterated_vmap_maps [OF this, of _ es]
    have "bcast_map ds es (prod_list base1) (prod_list base2) h xs ys
        = concat (map (\<lambda>i. h xs (block (prod_list base2) ys i)) [0..<prod_list es])" if "length xs = prod_list base1" for xs ys
      using map_numbers [of "\<lambda>i. h xs (block (prod_list base2) ys i)" es] 2 that by (simp add: bcast_map_def block_def)
    then show ?thesis using 2 u [unfolded maps_def]
      by (simp add: iterated_vmap_binary_bcast_def maps2_def Let_def)
  next
    case 3
    let ?u = "\<lambda>ys. \<lparr>out_shape = (\<lambda>s. out_shape2 f s base2), run = (\<lambda>x. run2 f x (base2, ys))\<rparr>"
    have "maps (?u ys) base1 (\<lambda>xs. h xs ys)" if "length ys = prod_list base2" for ys
      using f that by (simp add: maps_def maps2_def)
    note u = iterated_vmap_maps [OF this, of _ ds]
    have "bcast_map ds es (prod_list base1) (prod_list base2) h xs ys
        = concat (map (\<lambda>i. h (block (prod_list base1) xs i) ys) [0..<prod_list ds])" if "length ys = prod_list base2" for xs ys
      using map_numbers [of "\<lambda>i. h (block (prod_list base1) xs i) ys" ds] 3 that by (simp add: bcast_map_def block_def)
    then show ?thesis using 3 u [unfolded maps_def]
      by (simp add: iterated_vmap_binary_bcast_def maps2_def Let_def)
  next
    case 4
    then have "length ds = length es" by (simp add: bcast_compatible_def list_all2_lengthD)
    then have "iterated_vmap_binary_bcast ds es f = Inr (wrap_axes ds es f)"
      using 4 bcast_loop [OF 4(3), of f] by (simp add: iterated_vmap_binary_bcast_def Let_def)
    then show ?thesis using wrap_axes_maps [OF f 4(3)] by blast
  qed
qed

subsection \<open>Arrays of keys\<close>

record prng_key_array =
  array_impl :: prng_impl
  base_array :: "u32 tensor"

definition check_prng_key_data :: "prng_impl \<Rightarrow> key_obj \<Rightarrow> unit res" where
  "check_prng_key_data impl key_data =
     (let ndim = length (key_shape impl) in
      case key_data of
        NoArray \<Rightarrow> Inl (TypeError ''no array attributes'')
      | KeyData shape dt _ \<Rightarrow>
          if length shape < 1 then Inl (TypeError ''ndim'')
          else if slice_from shape (- int ndim) \<noteq> key_shape impl then Inl (TypeError ''shape'')
          else if dt \<notin> {UInt32, Float0} then Inl (TypeError ''dtype'')
          else Inr ())"

text \<open>The constructor \<^verbatim>\<open>PRNGKeyArray(impl, key_data)\<close> on an array of \<^verbatim>\<open>uint32\<close>\<close>

definition new_key_array :: "prng_impl \<Rightarrow> u32 tensor \<Rightarrow> prng_key_array res" where
  "new_key_array impl key_data =
     rbind (check_prng_key_data impl (KeyData (fst key_data) UInt32 (snd key_data))) (\<lambda>_.
     Inr \<lparr>array_impl = impl, base_array = key_data\<rparr>)"

definition base_arr_shape_to_keys_shape :: "prng_impl \<Rightarrow> nat list \<Rightarrow> nat list" where
  "base_arr_shape_to_keys_shape impl base_arr_shape = slice_to base_arr_shape (- int (length (key_shape impl)))"

text \<open>\<^verbatim>\<open>PRNGKeyArray.shape\<close>, \<^verbatim>\<open>size\<close>, \<^verbatim>\<open>ndim\<close>, \<^verbatim>\<open>_is_scalar\<close>, \<^verbatim>\<open>__len__\<close> and \<^verbatim>\<open>__iter__\<close>\<close>

definition keys_shape :: "prng_key_array \<Rightarrow> nat list" where
  "keys_shape keys = base_arr_shape_to_keys_shape (array_impl keys) (fst (base_array keys))"

definition keys_size :: "prng_key_array \<Rightarrow> nat" where
  "keys_size keys = prod_list (keys_shape keys)"

definition keys_ndim :: "prng_key_array \<Rightarrow> nat" where
  "keys_ndim keys = length (keys_shape keys)"

definition keys_is_scalar :: "prng_key_array \<Rightarrow> bool" where
  "keys_is_scalar keys \<longleftrightarrow> length (fst (base_array keys)) = length (key_shape (array_impl keys))"

definition keys_len :: "prng_key_array \<Rightarrow> nat res" where
  "keys_len keys =
     (if keys_is_scalar keys then Inl (TypeError ''len() of unsized object'')
      else case fst (base_array keys) of [] \<Rightarrow> Inl (TypeError ''len() of unsized object'') | d # _ \<Rightarrow> Inr d)"

definition keys_iter :: "prng_key_array \<Rightarrow> prng_key_array list res" where
  "keys_iter keys =
     (if keys_is_scalar keys then Inl (TypeError ''iteration over a 0-d key array'')
      else case base_array keys of
        ([], _) \<Rightarrow> Inl (TypeError ''iteration over a 0-d array'')
      | (d # ds, words) \<Rightarrow> rmap (\<lambda>i. new_key_array (array_impl keys) (ds, block (prod_list ds) words i)) [0..<d])"

subsection \<open>The operations on arrays of keys\<close>

datatype seeds = SeedInt int | SeedArr int_array

text \<open>A value in an integer type: its bits, read with the sign the type has.\<close>

fun np_signed :: "dtype \<Rightarrow> bool" where
  "np_signed dt = (dt \<in> {Int8, Int16, Int32, Int64})"

definition wrap_value :: "dtype \<Rightarrow> int \<Rightarrow> int" where
  "wrap_value dt v =
     (case np_integer_width dt of None \<Rightarrow> v
      | Some w \<Rightarrow> if np_signed dt then signed_take_bit (w - 1) v else take_bit w v)"

text \<open>
  \<^verbatim>\<open>seeds_arr += offset\<close>: the Python integer has to fit the default integer type and is then of the
  type of the array (an array of booleans becomes one of integers), whose addition wraps around.
  What the offset does to an array of another type is of no consequence: its seeds are refused.
\<close>

definition add_offset :: "prng_config \<Rightarrow> int \<Rightarrow> int_array \<Rightarrow> int_array res" where
  "add_offset cfg offset a =
     (let default_int = (if x64_enabled cfg then Int64 else Int32);
          dt = (if ia_dtype a = DBool then default_int else ia_dtype a) in
      if wrap_value default_int offset \<noteq> offset then Inl OverflowError
      else Inr (a\<lparr>ia_dtype := dt, ia_values := map (\<lambda>v. wrap_value dt (v + offset)) (ia_values a)\<rparr>))"

definition random_seed_impl :: "int_array \<Rightarrow> prng_impl \<Rightarrow> prng_key_array res" where
  "random_seed_impl seeds impl =
     (let seed = iterated_vmap_unary (length (ia_shape seeds))
            \<lparr>out_shape = (\<lambda>_. key_shape impl),
             run = (\<lambda>(shape, vs). impl_seed impl \<lparr>ia_shape = shape, ia_dtype = ia_dtype seeds, ia_values = vs\<rparr>)\<rparr> in
      rbind (run seed (ia_shape seeds, ia_values seeds)) (new_key_array impl))"

definition random_seed :: "prng_config \<Rightarrow> seeds \<Rightarrow> prng_impl \<Rightarrow> prng_key_array res" where
  "random_seed cfg seeds impl =
     rbind
       (case seeds of
          SeedInt v \<Rightarrow>
            if wrap_value Int64 v \<noteq> v then Inl OverflowError
            else
              let dt = (if x64_enabled cfg then Int64 else Int32) in
              Inr \<lparr>ia_shape = [], ia_dtype = dt, ia_values = [wrap_value dt v]\<rparr>
        | SeedArr a \<Rightarrow> Inr a) (\<lambda>seeds_arr.
     rbind (if random_seed_offset cfg \<noteq> 0 then add_offset cfg (random_seed_offset cfg) seeds_arr else Inr seeds_arr) (\<lambda>seeds_arr.
     random_seed_impl seeds_arr impl))"

definition random_split :: "prng_key_array \<Rightarrow> nat list \<Rightarrow> prng_key_array res" where
  "random_split keys shape =
     (let impl = array_impl keys;
          split = iterated_vmap_unary (keys_ndim keys)
            \<lparr>out_shape = (\<lambda>s. shape @ s), run = (\<lambda>k. impl_split impl k shape)\<rparr> in
      rbind (run split (base_array keys)) (new_key_array impl))"

definition random_fold_in :: "prng_key_array \<Rightarrow> int_array \<Rightarrow> prng_key_array res" where
  "random_fold_in keys msgs =
     (let impl = array_impl keys in
      rbind (iterated_vmap_binary_bcast (keys_shape keys) (ia_shape msgs)
        \<lparr>out_shape2 = (\<lambda>s _. s),
         run2 = (\<lambda>k (shape, vs). impl_fold_in impl k \<lparr>ia_shape = shape, ia_dtype = ia_dtype msgs, ia_values = vs\<rparr>)\<rparr>) (\<lambda>fold_in.
      rbind (run2 fold_in (base_array keys) (ia_shape msgs, ia_values msgs)) (new_key_array impl)))"

definition random_bits :: "prng_key_array \<Rightarrow> nat \<Rightarrow> nat list \<Rightarrow> 64 word tensor res" where
  "random_bits keys bit_width shape =
     (let impl = array_impl keys;
          bits = iterated_vmap_unary (keys_ndim keys)
            \<lparr>out_shape = (\<lambda>_. shape), run = (\<lambda>k. impl_random_bits impl k bit_width shape)\<rparr> in
      run bits (base_array keys))"

text \<open>What abstract evaluation says of the shapes.\<close>

definition random_split_abstract_eval :: "nat list \<Rightarrow> nat list \<Rightarrow> nat list" where
  "random_split_abstract_eval keys_aval_shape shape = keys_aval_shape @ shape"

definition random_bits_abstract_eval :: "nat list \<Rightarrow> nat list \<Rightarrow> nat list" where
  "random_bits_abstract_eval keys_aval_shape shape = keys_aval_shape @ shape"

definition random_wrap :: "key_obj \<Rightarrow> prng_impl \<Rightarrow> prng_key_array res" where
  "random_wrap base_arr impl =
     rbind (check_prng_key_data impl base_arr) (\<lambda>_. new_key_array impl (kd_shape base_arr, kd_words base_arr))"

datatype key_operand = KeyOperand prng_key_array | ArrayOperand key_obj

definition random_unwrap :: "key_operand \<Rightarrow> u32 tensor res" where
  "random_unwrap keys =
     (case keys of
        KeyOperand k \<Rightarrow> Inr (base_array k)
      | ArrayOperand _ \<Rightarrow> Inl (TypeError ''random_unwrap takes key array operand''))"

subsection \<open>The interface of an implementation\<close>

definition key_size :: "prng_impl \<Rightarrow> nat" where
  "key_size impl = prod_list (key_shape impl)"

definition int_scalar :: "dtype \<Rightarrow> int \<Rightarrow> int_array" where
  "int_scalar dt v = \<lparr>ia_shape = [], ia_dtype = dt, ia_values = [v]\<rparr>"

text \<open>An array of keys whose data have the shape they should have.\<close>

definition keys_ok :: "prng_key_array \<Rightarrow> bool" where
  "keys_ok keys \<longleftrightarrow> fst (base_array keys) = keys_shape keys @ key_shape (array_impl keys) \<and>
     length (snd (base_array keys)) = keys_size keys * key_size (array_impl keys) \<and> key_shape (array_impl keys) \<noteq> []"

text \<open>The data of key \<open>i\<close>, in row-major order.\<close>

definition key_at :: "prng_key_array \<Rightarrow> nat \<Rightarrow> u32 tensor" where
  "key_at keys i = (key_shape (array_impl keys), block (key_size (array_impl keys)) (snd (base_array keys)) i)"

lemma slice_from_append: "slice_from (xs @ ys) (- int (length ys)) = (if ys = [] then xs else ys)"
  by (simp add: slice_from_def py_bound_def)

lemma slice_to_append: "ys \<noteq> [] \<Longrightarrow> slice_to (xs @ ys) (- int (length ys)) = xs"
  by (simp add: slice_to_def py_bound_def)

text \<open>An array built from data of the right shape.\<close>

lemma new_key_array_ok:
  assumes "key_shape impl \<noteq> []"
  shows "new_key_array impl (dims @ key_shape impl, ws) = Inr \<lparr>array_impl = impl, base_array = (dims @ key_shape impl, ws)\<rparr>"
  using assms by (simp add: new_key_array_def check_prng_key_data_def slice_from_append Suc_le_eq)

lemma keys_shape_new [simp]:
  "key_shape impl \<noteq> [] \<Longrightarrow> keys_shape \<lparr>array_impl = impl, base_array = (dims @ key_shape impl, ws)\<rparr> = dims"
  by (simp add: keys_shape_def base_arr_shape_to_keys_shape_def slice_to_append)

lemma keys_ok_new:
  "key_shape impl \<noteq> [] \<Longrightarrow> length ws = prod_list dims * key_size impl \<Longrightarrow>
    keys_ok \<lparr>array_impl = impl, base_array = (dims @ key_shape impl, ws)\<rparr>"
  by (simp add: keys_ok_def keys_size_def)

lemma keys_ok_data:
  assumes "keys_ok keys"
  shows "base_array keys = (keys_shape keys @ key_shape (array_impl keys), snd (base_array keys))"
    "length (snd (base_array keys)) = prod_list (keys_shape keys) * key_size (array_impl keys)"
    "key_shape (array_impl keys) \<noteq> []"
  using assms by (simp_all add: keys_ok_def keys_size_def prod_eq_iff)

lemma length_concat_map: "(\<And>i. i \<in> set is \<Longrightarrow> length (g i) = n) \<Longrightarrow> length (concat (map g is)) = length is * n"
  by (induction "is") simp_all

lemma length_block_prod: "i < p \<Longrightarrow> length xs = p * n \<Longrightarrow> length (block n xs i) = n"
proof -
  assume "i < p" "length xs = p * n"
  then have "Suc i * n \<le> length xs" by (metis Suc_leI mult_le_mono1)
  then show ?thesis by (intro length_block) simp
qed

lemma block_concat_map:
  "(\<And>i. i < p \<Longrightarrow> length (g i) = n) \<Longrightarrow> i < p \<Longrightarrow> block n (concat (map g [0..<p])) i = g i"
  by (subst block_concat) auto

text \<open>The elements of what \<^verbatim>\<open>iterated_vmap_unary\<close> returns.\<close>

lemma iterated_vmap_elements:
  assumes f: "maps f base h" "\<And>xs. length xs = prod_list base \<Longrightarrow> length (h xs) = n"
    and len: "length xs = prod_list dims * prod_list base"
  shows "\<exists>ys. run (iterated_vmap_unary (length dims) f) (dims @ base, xs) = Inr (dims @ out_shape f base, ys) \<and>
    length ys = prod_list dims * n \<and> (\<forall>i < prod_list dims. block n ys i = h (block (prod_list base) xs i))"
proof -
  let ?g = "\<lambda>i. h (block (prod_list base) xs i)"
  have g: "length (?g i) = n" if "i < prod_list dims" for i
    using f(2) [OF length_block_prod [OF that len]] .
  have "run (iterated_vmap_unary (length dims) f) (dims @ base, xs)
      = Inr (dims @ out_shape f base, concat (map ?g [0..<prod_list dims]))"
    using iterated_vmap_maps [OF f(1), of dims] len by (simp add: maps_def)
  moreover have "length (concat (map ?g [0..<prod_list dims])) = prod_list dims * n"
    by (subst length_concat_map [where n = n]) (use g in auto)
  moreover have "\<forall>i < prod_list dims. block n (concat (map ?g [0..<prod_list dims])) i = ?g i"
    using block_concat_map [of "prod_list dims" ?g n, OF g] by blast
  ultimately show ?thesis by blast
qed

lemma position_number: "idx \<in> set (positions shape) \<Longrightarrow> positions shape ! number idx shape = idx"
  by (metis in_set_conv_nth length_positions number_positions)

text \<open>The elements of what broadcasting returns.\<close>

lemma clip_bound:
  assumes "ds = [] \<or> es = [] \<or> bcast_compatible ds es" "idx \<in> set (positions (bcast_shape ds es))"
  shows "number (clip ds idx) ds < prod_list ds" "number (clip es idx) es < prod_list es"
  using assms positions_bound clip_positions by (auto simp: clip_self)

lemma bcast_map_elements:
  assumes c: "ds = [] \<or> es = [] \<or> bcast_compatible ds es"
    and len: "length xs = prod_list ds * m" "length ys = prod_list es * n"
    and h: "\<And>u v. length u = m \<Longrightarrow> length (h u v) = p"
  shows "length (bcast_map ds es m n h xs ys) = prod_list (bcast_shape ds es) * p"
    and "idx \<in> set (positions (bcast_shape ds es)) \<Longrightarrow>
      block p (bcast_map ds es m n h xs ys) (number idx (bcast_shape ds es)) =
        h (block m xs (number (clip ds idx) ds)) (block n ys (number (clip es idx) es))"
proof -
  let ?g = "\<lambda>idx. h (block m xs (number (clip ds idx) ds)) (block n ys (number (clip es idx) es))"
  have g: "length (?g idx) = p" if "idx \<in> set (positions (bcast_shape ds es))" for idx
    using h length_block_prod [OF clip_bound(1) [OF c that] len(1)] by simp
  show "length (bcast_map ds es m n h xs ys) = prod_list (bcast_shape ds es) * p"
    unfolding bcast_map_def by (subst length_concat_map [where n = p]) (use g in \<open>auto simp: length_positions\<close>)
  show "block p (bcast_map ds es m n h xs ys) (number idx (bcast_shape ds es)) = ?g idx"
    if "idx \<in> set (positions (bcast_shape ds es))"
    unfolding bcast_map_def using position_number [OF that] positions_bound [OF that] g
    by (subst block_concat) (auto simp: length_positions)
qed

locale prng_keys =
  fixes impl :: prng_impl
  assumes key_shape_law: "key_shape impl \<noteq> []"
    and seed_law: "np_integer_width dt \<noteq> None \<Longrightarrow>
      \<exists>ws. impl_seed impl (int_scalar dt v) = Inr (key_shape impl, ws) \<and> length ws = key_size impl"
    and split_law: "length ws = key_size impl \<Longrightarrow>
      \<exists>ks. impl_split impl (key_shape impl, ws) shape = Inr (shape @ key_shape impl, ks) \<and>
        length ks = prod_list shape * key_size impl"
    and fold_in_law: "length ws = key_size impl \<Longrightarrow> np_integer_width dt \<noteq> None \<Longrightarrow>
      \<exists>ks. impl_fold_in impl (key_shape impl, ws) (int_scalar dt v) = Inr (key_shape impl, ks) \<and> length ks = key_size impl"
begin

text \<open>Splitting an array of keys splits every key.\<close>

lemma random_split_ok:
  assumes keys: "keys_ok keys" "array_impl keys = impl"
  shows "\<exists>keys'. random_split keys shape = Inr keys' \<and> keys_ok keys' \<and> array_impl keys' = impl \<and>
    keys_shape keys' = random_split_abstract_eval (keys_shape keys) shape \<and>
    (\<forall>i < keys_size keys. impl_split impl (key_at keys i) shape =
      Inr (shape @ key_shape impl, block (prod_list shape * key_size impl) (snd (base_array keys')) i))"
proof -
  let ?n = "prod_list shape * key_size impl"
  define h where "h = (\<lambda>ws. snd (projr (impl_split impl (key_shape impl, ws) shape)))"
  have h: "impl_split impl (key_shape impl, ws) shape = Inr (shape @ key_shape impl, h ws)" "length (h ws) = ?n"
    if "length ws = key_size impl" for ws
    using split_law [OF that, of shape] by (auto simp: h_def)
  let ?f = "\<lparr>out_shape = (\<lambda>s. shape @ s), run = (\<lambda>k. impl_split impl k shape)\<rparr>"
  obtain ws where base: "base_array keys = (keys_shape keys @ key_shape impl, ws)" and len: "length ws = prod_list (keys_shape keys) * key_size impl"
    using keys_ok_data [OF keys(1)] keys(2) by metis
  have "maps ?f (key_shape impl) h" using h(1) by (simp add: maps_def key_size_def)
  then obtain ks where r: "run (iterated_vmap_unary (keys_ndim keys) ?f) (base_array keys) = Inr ((keys_shape keys @ shape) @ key_shape impl, ks)"
    and l: "length ks = keys_size keys * ?n" and b: "\<forall>i < keys_size keys. block ?n ks i = h (block (key_size impl) ws i)"
    using iterated_vmap_elements [of ?f "key_shape impl" h ?n ws "keys_shape keys"] h(2) len
    unfolding base by (auto simp: key_size_def keys_size_def keys_ndim_def)
  let ?k = "\<lparr>array_impl = impl, base_array = ((keys_shape keys @ shape) @ key_shape impl, ks)\<rparr>"
  have "random_split keys shape = Inr ?k"
    unfolding random_split_def Let_def keys(2) r by (simp only: rbind_Inr new_key_array_ok [OF key_shape_law])
  moreover have "keys_ok ?k"
    using l by (intro keys_ok_new key_shape_law) (simp add: keys_size_def)
  moreover have "keys_shape ?k = keys_shape keys @ shape" by (rule keys_shape_new [OF key_shape_law])
  moreover have "impl_split impl (key_at keys i) shape = Inr (shape @ key_shape impl, block ?n ks i)" if "i < keys_size keys" for i
    using h(1) [OF length_block_prod [OF _ len]] b that keys(2) by (simp add: key_at_def keys_size_def base)
  ultimately show ?thesis by (intro exI [of _ ?k]) (simp add: random_split_abstract_eval_def del: append_assoc)
qed

text \<open>An array of seeds gives the keys of its elements.\<close>

lemma random_seed_impl_ok:
  assumes dt: "np_integer_width (ia_dtype seeds) \<noteq> None" and vals: "length (ia_values seeds) = prod_list (ia_shape seeds)"
  shows "\<exists>keys. random_seed_impl seeds impl = Inr keys \<and> keys_ok keys \<and> array_impl keys = impl \<and> keys_shape keys = ia_shape seeds \<and>
    (\<forall>i < prod_list (ia_shape seeds).
      impl_seed impl (int_scalar (ia_dtype seeds) (ia_values seeds ! i)) = Inr (key_at keys i))"
proof -
  let ?dt = "ia_dtype seeds" and ?vs = "ia_values seeds" and ?n = "prod_list (ia_shape seeds)"
  define h where "h = (\<lambda>vs. snd (projr (impl_seed impl (int_scalar ?dt (hd vs)))))"
  have h: "impl_seed impl (int_scalar ?dt (hd vs)) = Inr (key_shape impl, h vs)" "length (h vs) = key_size impl" for vs
    using seed_law [OF dt, of "hd vs"] by (auto simp: h_def)
  let ?f = "\<lparr>out_shape = (\<lambda>_. key_shape impl),
    run = (\<lambda>(shape, vs). impl_seed impl \<lparr>ia_shape = shape, ia_dtype = ?dt, ia_values = vs\<rparr>)\<rparr>"
  have "maps ?f [] h" unfolding maps_def
  proof (intro allI impI)
    fix vs :: "int list" assume "length vs = prod_list []"
    then have "vs = [hd vs]" by (cases vs) simp_all
    then show "run ?f ([], vs) = Inr (out_shape ?f [], h vs)"
      using h(1) [of vs] unfolding int_scalar_def by (metis (no_types, lifting) prod.case traced.select_convs)
  qed
  then obtain ks where r: "run (iterated_vmap_unary (length (ia_shape seeds)) ?f) (ia_shape seeds, ?vs) = Inr (ia_shape seeds @ key_shape impl, ks)"
    and l: "length ks = ?n * key_size impl" and b: "\<forall>i < ?n. block (key_size impl) ks i = h (block 1 ?vs i)"
    using iterated_vmap_elements [of ?f "[]" h "key_size impl" ?vs "ia_shape seeds"] h(2) vals by auto
  let ?k = "\<lparr>array_impl = impl, base_array = (ia_shape seeds @ key_shape impl, ks)\<rparr>"
  have "random_seed_impl seeds impl = Inr ?k"
    unfolding random_seed_impl_def Let_def r by (simp only: rbind_Inr new_key_array_ok [OF key_shape_law])
  moreover have "keys_ok ?k" by (rule keys_ok_new [OF key_shape_law l])
  moreover have "keys_shape ?k = ia_shape seeds" by (rule keys_shape_new [OF key_shape_law])
  moreover have "impl_seed impl (int_scalar ?dt (?vs ! i)) = Inr (key_at ?k i)" if "i < ?n" for i
  proof -
    have "hd (block 1 ?vs i) = ?vs ! i" using that vals by (simp add: block_def hd_drop_conv_nth)
    then show ?thesis using h(1) [of "block 1 ?vs i"] b that by (simp add: key_at_def)
  qed
  ultimately show ?thesis by (intro exI [of _ ?k]) simp
qed

text \<open>Folding in an array of integers broadcasts it against the keys.\<close>

lemma random_fold_in_ok:
  assumes keys: "keys_ok keys" "array_impl keys = impl"
    and dt: "np_integer_width (ia_dtype msgs) \<noteq> None" and vals: "length (ia_values msgs) = prod_list (ia_shape msgs)"
    and c: "keys_shape keys = [] \<or> ia_shape msgs = [] \<or> bcast_compatible (keys_shape keys) (ia_shape msgs)"
  defines "shape \<equiv> bcast_shape (keys_shape keys) (ia_shape msgs)"
  shows "\<exists>keys'. random_fold_in keys msgs = Inr keys' \<and> keys_ok keys' \<and> array_impl keys' = impl \<and> keys_shape keys' = shape \<and>
    (\<forall>idx \<in> set (positions shape).
      impl_fold_in impl (key_at keys (number (clip (keys_shape keys) idx) (keys_shape keys)))
        (int_scalar (ia_dtype msgs) (ia_values msgs ! number (clip (ia_shape msgs) idx) (ia_shape msgs)))
      = Inr (key_at keys' (number idx shape)))"
proof -
  let ?dt = "ia_dtype msgs" and ?vs = "ia_values msgs" and ?ds = "keys_shape keys" and ?es = "ia_shape msgs"
  define h where "h = (\<lambda>ws vs. snd (projr (impl_fold_in impl (key_shape impl, ws) (int_scalar ?dt (hd vs)))))"
  have h: "impl_fold_in impl (key_shape impl, ws) (int_scalar ?dt (hd vs)) = Inr (key_shape impl, h ws vs)" "length (h ws vs) = key_size impl"
    if "length ws = key_size impl" for ws vs
    using fold_in_law [OF that dt, of "hd vs"] by (auto simp: h_def)
  let ?f = "\<lparr>out_shape2 = (\<lambda>s _. s),
    run2 = (\<lambda>k (shape, vs). impl_fold_in impl k \<lparr>ia_shape = shape, ia_dtype = ?dt, ia_values = vs\<rparr>)\<rparr>"
  have "maps2 ?f (key_shape impl) [] h" unfolding maps2_def
  proof (intro allI impI)
    fix ws :: "u32 list" and vs :: "int list" assume ws: "length ws = prod_list (key_shape impl)" and "length vs = prod_list []"
    then have "vs = [hd vs]" by (cases vs) simp_all
    then show "run2 ?f (key_shape impl, ws) ([], vs) = Inr (out_shape2 ?f (key_shape impl) [], h ws vs)"
      using h(1) [of ws vs] ws unfolding int_scalar_def key_size_def by (metis (no_types, lifting) prod.case traced2.select_convs)
  qed
  from iterated_vmap_binary_bcast_maps [OF this c]
  obtain g where g: "iterated_vmap_binary_bcast ?ds ?es ?f = Inr g"
    and m: "maps2 g (?ds @ key_shape impl) (?es @ []) (bcast_map ?ds ?es (key_size impl) 1 h)"
    and o: "out_shape2 g (?ds @ key_shape impl) (?es @ []) = shape @ key_shape impl"
    by (auto simp: key_size_def shape_def)
  obtain ws where base: "base_array keys = (?ds @ key_shape impl, ws)" and len: "length ws = prod_list ?ds * key_size impl"
    using keys_ok_data [OF keys(1)] keys(2) by metis
  define ks where "ks = bcast_map ?ds ?es (key_size impl) 1 h ws ?vs"
  have r: "run2 g (base_array keys) (?es, ?vs) = Inr (shape @ key_shape impl, ks)"
    using m o len vals unfolding base ks_def maps2_def by (simp add: key_size_def)
  have hl: "length (h u v) = key_size impl" if "length u = key_size impl" for u v using h(2) [OF that] .
  note elements = bcast_map_elements [OF c len, of ?vs 1 h "key_size impl", folded shape_def ks_def, OF _ hl]
  have l: "length ks = prod_list shape * key_size impl" using elements(1) vals by simp
  let ?k = "\<lparr>array_impl = impl, base_array = (shape @ key_shape impl, ks)\<rparr>"
  have "random_fold_in keys msgs = Inr ?k"
    unfolding random_fold_in_def Let_def keys(2) g rbind_Inr r by (simp only: rbind_Inr new_key_array_ok [OF key_shape_law])
  moreover have "keys_ok ?k" by (rule keys_ok_new [OF key_shape_law l])
  moreover have "keys_shape ?k = shape" by (rule keys_shape_new [OF key_shape_law])
  moreover have "impl_fold_in impl (key_at keys (number (clip ?ds idx) ?ds)) (int_scalar ?dt (?vs ! number (clip ?es idx) ?es))
      = Inr (key_at ?k (number idx shape))"
    if idx: "idx \<in> set (positions shape)" for idx
  proof -
    let ?k = "number (clip ?ds idx) ?ds" and ?j = "number (clip ?es idx) ?es"
    note kj = clip_bound [OF c idx [unfolded shape_def]]
    have "hd (block 1 ?vs ?j) = ?vs ! ?j" using kj(2) vals by (simp add: block_def hd_drop_conv_nth)
    then show ?thesis
      using h(1) [OF length_block_prod [OF kj(1) len], of "block 1 ?vs ?j"] elements(2) [OF _ _ idx] vals keys(2)
      by (simp add: key_at_def base)
  qed
  ultimately show ?thesis by (intro exI [of _ ?k]) simp
qed

end

text \<open>An implementation that also draws bits of every width, up to the largest array it allows.\<close>

locale prng_bits = prng_keys +
  assumes bits_law: "length ws = key_size impl \<Longrightarrow> bit_width \<in> {8, 16, 32, 64} \<Longrightarrow> prod_list shape \<le> 2 ^ 64 \<Longrightarrow>
      \<exists>bits. impl_random_bits impl (key_shape impl, ws) bit_width shape = Inr (shape, bits) \<and>
        length bits = prod_list shape \<and> (\<forall>b \<in> set bits. unat b < 2 ^ bit_width)"
begin

lemma random_bits_ok:
  assumes keys: "keys_ok keys" "array_impl keys = impl"
    and w: "bit_width \<in> {8, 16, 32, 64}" and shape: "prod_list shape \<le> 2 ^ 64"
  shows "\<exists>bits. random_bits keys bit_width shape = Inr (random_bits_abstract_eval (keys_shape keys) shape, bits) \<and>
    length bits = keys_size keys * prod_list shape \<and>
    (\<forall>i < keys_size keys. impl_random_bits impl (key_at keys i) bit_width shape = Inr (shape, block (prod_list shape) bits i))"
proof -
  define h where "h = (\<lambda>ws. snd (projr (impl_random_bits impl (key_shape impl, ws) bit_width shape)))"
  have h: "impl_random_bits impl (key_shape impl, ws) bit_width shape = Inr (shape, h ws)" "length (h ws) = prod_list shape"
    if "length ws = key_size impl" for ws
    using bits_law [OF that w shape] by (auto simp: h_def)
  let ?f = "\<lparr>out_shape = (\<lambda>_. shape), run = (\<lambda>k. impl_random_bits impl k bit_width shape)\<rparr>"
  obtain ws where base: "base_array keys = (keys_shape keys @ key_shape impl, ws)" and len: "length ws = prod_list (keys_shape keys) * key_size impl"
    using keys_ok_data [OF keys(1)] keys(2) by metis
  have "maps ?f (key_shape impl) h" using h(1) by (simp add: maps_def key_size_def)
  then obtain bits where r: "run (iterated_vmap_unary (keys_ndim keys) ?f) (base_array keys) = Inr (keys_shape keys @ shape, bits)"
    and l: "length bits = keys_size keys * prod_list shape"
    and b: "\<forall>i < keys_size keys. block (prod_list shape) bits i = h (block (key_size impl) ws i)"
    using iterated_vmap_elements [of ?f "key_shape impl" h "prod_list shape" ws "keys_shape keys"] h(2) len
    unfolding base by (auto simp: key_size_def keys_size_def keys_ndim_def)
  have "random_bits keys bit_width shape = Inr (keys_shape keys @ shape, bits)"
    unfolding random_bits_def Let_def keys(2) r ..
  moreover have "impl_random_bits impl (key_at keys i) bit_width shape = Inr (shape, block (prod_list shape) bits i)" if "i < keys_size keys" for i
    using h(1) [OF length_block_prod [OF _ len]] b that keys(2) by (simp add: key_at_def keys_size_def base)
  ultimately show ?thesis using l by (intro exI [of _ bits]) (simp add: random_bits_abstract_eval_def)
qed

end

subsection \<open>The registered implementations\<close>

lemma threefry_seed_scalar:
  "np_integer_width dt = Some w \<Longrightarrow>
    threefry_seed (int_scalar dt v) = Inr ([2], [word_of_int (take_bit w v div 2 ^ 32), word_of_int (take_bit 32 v)])"
  by (simp add: threefry_seed_def int_scalar_def take_bit_eq_mask mask_eq_exp_minus_1)

lemma threefry_fold_in_jit_scalar:
  assumes "length ws = 2" "np_integer_width dt = Some w"
  shows "threefry_fold_in_jit cfg (s, ws) (int_scalar dt v) = Inr ([2], threefry_2x32 cfg (ws ! 0, ws ! 1)
    [word_of_int (take_bit w v div 2 ^ 32), word_of_int (take_bit 32 v)])"
  by (simp add: threefry_fold_in_jit_def threefry_seed_scalar [OF assms(2)] unpack2_ok [OF assms(1)])

lemma threefry_fold_in_scalar:
  assumes "length ws = 2"
  shows "threefry_fold_in cfg (s, ws) (int_scalar dt v) = Inr ([2], threefry_2x32 cfg (ws ! 0, ws ! 1) [0, word_of_int v])"
proof -
  have "asarray_uint32 (int_scalar dt v) = int_scalar UInt32 (take_bit 32 v)" by (simp add: asarray_uint32_def int_scalar_def)
  moreover have "take_bit 32 v div 2 ^ 32 = 0" by (simp add: take_bit_eq_mod)
  moreover have "word_of_int (take_bit 32 v) = (word_of_int v :: u32)" by (rule bit_word_eqI) (simp add: bit_word_of_int_iff bit_take_bit_iff)
  ultimately show ?thesis
    by (simp add: threefry_fold_in_def threefry_fold_in_jit_scalar [OF assms] int_scalar_def [of dt v] take_bit_take_bit)
qed

interpretation fry: prng_bits "threefry_prng_impl cfg" for cfg
proof unfold_locales
  show "\<exists>ws. impl_seed (threefry_prng_impl cfg) (int_scalar dt v) = Inr (key_shape (threefry_prng_impl cfg), ws) \<and>
      length ws = key_size (threefry_prng_impl cfg)" if "np_integer_width dt \<noteq> None" for dt v
    using that threefry_seed_scalar by (auto simp: threefry_prng_impl_def key_size_def)
  show "\<exists>ks. impl_split (threefry_prng_impl cfg) (key_shape (threefry_prng_impl cfg), ws) shape =
      Inr (shape @ key_shape (threefry_prng_impl cfg), ks) \<and> length ks = prod_list shape * key_size (threefry_prng_impl cfg)"
    if "length ws = key_size (threefry_prng_impl cfg)" for ws shape
    using that threefry_split_total by (simp add: threefry_prng_impl_def key_size_def)
  show "\<exists>ks. impl_fold_in (threefry_prng_impl cfg) (key_shape (threefry_prng_impl cfg), ws) (int_scalar dt v) =
      Inr (key_shape (threefry_prng_impl cfg), ks) \<and> length ks = key_size (threefry_prng_impl cfg)"
    if "length ws = key_size (threefry_prng_impl cfg)" for ws dt v
    using that threefry_fold_in_scalar by (simp add: threefry_prng_impl_def key_size_def length_threefry_2x32)
  show "\<exists>bits. impl_random_bits (threefry_prng_impl cfg) (key_shape (threefry_prng_impl cfg), ws) bit_width shape = Inr (shape, bits) \<and>
      length bits = prod_list shape \<and> (\<forall>b \<in> set bits. unat b < 2 ^ bit_width)"
    if "length ws = key_size (threefry_prng_impl cfg)" "bit_width \<in> {8, 16, 32, 64}" "prod_list shape \<le> 2 ^ 64" for ws bit_width shape
    using threefry_bits_total [OF _ that(2,3), of ws cfg] that(1) by (simp add: threefry_prng_impl_def key_size_def)
qed (simp add: threefry_prng_impl_def)

lemma rbg_split_total:
  assumes "length ws = 4"
  shows "\<exists>ks. rbg_split cfg (s, ws) shape = Inr (shape @ [4], ks) \<and> length ks = prod_list shape * 4"
proof -
  define split where "split = (if threefry_partitionable cfg then threefry_split_foldlike cfg else threefry_split_original cfg)"
  have halves: "length (block 2 ws 0) = 2" "length (block 2 ws 1) = 2" using assms by (simp_all add: block_def)
  have "\<exists>ks. split ([2], half) shape = Inr (shape @ [2], ks) \<and> length ks = prod_list shape * 2" if "length half = 2" for half
    unfolding split_def using foldlike_total [OF that] original_total [OF that] by simp
  then obtain ks0 ks1 where k: "split ([2], block 2 ws 0) shape = Inr (shape @ [2], ks0)" "split ([2], block 2 ws 1) shape = Inr (shape @ [2], ks1)"
    and l: "length ks0 = prod_list shape * 2" "length ks1 = prod_list shape * 2"
    using halves by meson
  have "length (concat (map (\<lambda>i. block 2 ks0 i @ block 2 ks1 i) [0..<prod_list shape])) = length [0..<prod_list shape] * 4"
    by (rule length_concat_map) (use length_block_prod [OF _ l(1)] length_block_prod [OF _ l(2)] in simp)
  then show ?thesis by (simp add: rbg_split_def Let_def k del: One_nat_def flip: split_def)
qed

interpretation rbg: prng_keys "rbg_prng_impl cfg generator" for cfg generator
proof unfold_locales
  show "\<exists>ws. impl_seed (rbg_prng_impl cfg generator) (int_scalar dt v) = Inr (key_shape (rbg_prng_impl cfg generator), ws) \<and>
      length ws = key_size (rbg_prng_impl cfg generator)" if "np_integer_width dt \<noteq> None" for dt v
    using that threefry_seed_scalar by (auto simp: rbg_prng_impl_def key_size_def rbg_seed_def int_scalar_def)
  show "\<exists>ks. impl_split (rbg_prng_impl cfg generator) (key_shape (rbg_prng_impl cfg generator), ws) shape =
      Inr (shape @ key_shape (rbg_prng_impl cfg generator), ks) \<and> length ks = prod_list shape * key_size (rbg_prng_impl cfg generator)"
    if "length ws = key_size (rbg_prng_impl cfg generator)" for ws shape
    using that rbg_split_total by (simp add: rbg_prng_impl_def key_size_def)
  show "\<exists>ks. impl_fold_in (rbg_prng_impl cfg generator) (key_shape (rbg_prng_impl cfg generator), ws) (int_scalar dt v) =
      Inr (key_shape (rbg_prng_impl cfg generator), ks) \<and> length ks = key_size (rbg_prng_impl cfg generator)"
    if "length ws = key_size (rbg_prng_impl cfg generator)" "np_integer_width dt \<noteq> None" for ws dt v
  proof -
    have "length (block 2 ws 0) = 2" "length (block 2 ws 1) = 2" using that(1) by (simp_all add: rbg_prng_impl_def key_size_def block_def)
    then show ?thesis using that(2) threefry_fold_in_jit_scalar
      by (auto simp: rbg_prng_impl_def key_size_def rbg_fold_in_def length_threefry_2x32 int_scalar_def)
  qed
qed (simp add: rbg_prng_impl_def)

end
