(* ===== verification/PrngProps.thy ===== *)
theory PrngProps
  imports PrngArrays
begin

text \<open>
  The properties of random keys (\<^verbatim>\<open>jax/_src/prng.py\<close>): the block function, the splitting of keys, the
  bits drawn from them, their seeds, and arrays of keys.
\<close>

text \<open>A configuration and two arrays of keys for the witnesses.\<close>

definition default_config :: prng_config where
  "default_config = \<lparr>on_cpu = True, threefry_partitionable = True, random_seed_offset = 0, x64_enabled = True\<rparr>"

definition two_keys :: prng_key_array where
  "two_keys = \<lparr>array_impl = threefry_prng_impl default_config, base_array = ([2] @ [2], [1, 2, 3, 4])\<rparr>"

lemma two_keys_ok: "keys_ok two_keys" "array_impl two_keys = threefry_prng_impl default_config" "keys_shape two_keys = [2]"
proof -
  have k: "two_keys = \<lparr>array_impl = threefry_prng_impl default_config,
      base_array = ([2] @ key_shape (threefry_prng_impl default_config), [1, 2, 3, 4])\<rparr>"
    by (simp add: two_keys_def threefry_prng_impl_def)
  show "keys_ok two_keys" unfolding k by (rule keys_ok_new) (simp_all add: threefry_prng_impl_def key_size_def)
  show "keys_shape two_keys = [2]" unfolding k by (rule keys_shape_new) (simp add: threefry_prng_impl_def)
qed (simp add: two_keys_def)

subsection \<open>The block function\<close>

text \<open>
  C25: The lowering of the block function with rolled loops (CPUs) and the unrolled one
  (other platforms) compute the same, and for every key the function is a permutation of the
  pairs of words.
\<close>

theorem threefry_permutation:
  "threefry2x32 True key x = threefry2x32 False key x \<and> bij (threefry2x32 rolled key)"
  by (simp add: threefry_rolled bij_def inj_def threefry_inj) (metis surjI threefry_of_inverse)

text \<open>
  For every shape of at most 2^64 elements, the high and the low words of the counts
  put together the number of each element in row-major order, although the counts are computed as a sum
  of strides.
\<close>

theorem counts_are_numbers:
  assumes "prod_list shape \<le> 2 ^ 64"
  shows "\<exists>hi lo. iota_2x32_shape shape = Inr (hi, lo) \<and> length hi = prod_list shape \<and> length lo = prod_list shape \<and>
    (\<forall>k < prod_list shape. unat (hi ! k) * 2 ^ 32 + unat (lo ! k) = k)"
  by (rule iota_2x32_correct [OF assms])

lemma counts_are_numbers_witness:
  "\<exists>hi lo. iota_2x32_shape [3, 4] = Inr (hi, lo) \<and> length hi = 12 \<and> length lo = 12 \<and>
    (\<forall>k < 12. unat (hi ! k) * 2 ^ 32 + unat (lo ! k) = k)"
  using counts_are_numbers [of "[3, 4]"] by simp

subsection \<open>Keys and bits\<close>

text \<open>
  C24: Nothing repeats. In partitionable mode, splitting a key into an array of at most 2^64
  keys of any shape succeeds and no two of the keys are equal, and no two of the 64-bit words drawn
  from a key are equal.
\<close>

theorem split_and_bits_never_repeat:
  assumes "threefry_partitionable cfg" "prod_list shape \<le> 2 ^ 64" "length words = 2"
  shows "\<exists>ks bits. threefry_split cfg ([2], words) shape = Inr (shape @ [2], ks) \<and> length ks = prod_list shape * 2 \<and>
    (\<forall>i < prod_list shape. \<forall>j < prod_list shape. block 2 ks i = block 2 ks j \<longleftrightarrow> i = j) \<and>
    threefry_random_bits cfg ([2], words) 64 shape = Inr (shape, bits) \<and> length bits = prod_list shape \<and> distinct bits"
proof -
  obtain ks where ks: "threefry_split cfg ([2], words) shape = Inr (shape @ [2], ks)" "length ks = prod_list shape * 2"
    using threefry_split_total [OF assms(3)] by blast
  obtain bits where bits: "threefry_random_bits cfg ([2], words) 64 shape = Inr (shape, bits)" "length bits = prod_list shape"
    using threefry_bits_total [OF assms(3) _ assms(2), of 64] by auto
  show ?thesis using ks bits split_keys_distinct [OF assms(1,2) ks(1)] bits64_distinct [OF assms(1) bits(1)] by blast
qed

lemma split_and_bits_never_repeat_witness:
  "\<exists>ks bits. threefry_split default_config ([2], [0, 42]) [2, 3] = Inr ([2, 3, 2], ks) \<and> length ks = 12 \<and>
    (\<forall>i < 6. \<forall>j < 6. block 2 ks i = block 2 ks j \<longleftrightarrow> i = j) \<and>
    threefry_random_bits default_config ([2], [0, 42]) 64 [2, 3] = Inr ([2, 3], bits) \<and> length bits = 6 \<and> distinct bits"
  using split_and_bits_never_repeat [of default_config "[2, 3]" "[0, 42]"] by (simp add: default_config_def)

text \<open>
  C27: Bits of any width outside partitionable mode. The result has as many elements as the
  shape asks for, all below two to the width; and when they need fewer than 2^32 - 1 words, element \<open>k\<close>
  is the \<open>k\<close>-th element of the array of words seen as one of that width (for 64 bits, of its two
  halves paired), although the source computes it by shifts along a new axis and a transposition.
\<close>

theorem random_bits_view:
  fixes words :: "u32 list"
  assumes "\<not> threefry_partitionable cfg" "length words = 2" "bit_width \<in> {8, 16, 32, 64}"
  shows "\<exists>bits. threefry_random_bits cfg ([2], words) bit_width shape = Inr (shape, bits) \<and>
    length bits = prod_list shape \<and> (\<forall>b \<in> set bits. unat b < 2 ^ bit_width) \<and>
    (let num = word_count bit_width (prod_list shape) in
     num < 2 ^ 32 - 1 \<longrightarrow> (\<forall>k < prod_list shape. unat (bits ! k) =
       view_element bit_width (threefry_2x32 cfg (words ! 0, words ! 1) (map of_nat [0..<num])) (prod_list shape) k))"
proof -
  have "threefry_random_bits cfg ([2], words) bit_width shape = threefry_random_bits_original cfg ([2], words) bit_width shape"
    using assms by (simp add: threefry_random_bits_def is_threefry_prng_key_def)
  then show ?thesis using original_bits [OF assms(2,3), of cfg "[2]" shape] by (simp only: Let_def)
qed

lemma random_bits_view_witness:
  "\<exists>bits. threefry_random_bits (default_config\<lparr>threefry_partitionable := False\<rparr>) ([2], [0, 42]) 8 [3] = Inr ([3], bits) \<and>
    length bits = 3 \<and> unat (bits ! 2) =
      view_element 8 (threefry_2x32 (default_config\<lparr>threefry_partitionable := False\<rparr>) (0, 42) [0]) 3 2"
  using random_bits_view [of "default_config\<lparr>threefry_partitionable := False\<rparr>" "[0, 42]" 8 "[3]"]
  by (auto simp: default_config_def word_count_def)

text \<open>
  Folding integers into a threefry key always succeeds, and two integers give the same
  new key exactly when they agree modulo 2^32.
\<close>

theorem fold_in_distinguishes:
  "threefry_fold_in cfg ([2], [a, b]) (int_scalar dt v) = threefry_fold_in cfg ([2], [a, b]) (int_scalar dt' v') \<longleftrightarrow>
     v mod 2 ^ 32 = v' mod 2 ^ 32"
proof -
  have "word_of_int v = (word_of_int v' :: u32) \<longleftrightarrow> v mod 2 ^ 32 = v' mod 2 ^ 32"
    by (simp add: word_of_int_eq_iff take_bit_eq_mod)
  moreover have "threefry_fold_in cfg ([2], [a, b]) (int_scalar dt v) = threefry_fold_in cfg ([2], [a, b]) (int_scalar dt' v') \<longleftrightarrow>
      threefry2x32 (on_cpu cfg) (a, b) (0, word_of_int v) = threefry2x32 (on_cpu cfg) (a, b) (0, word_of_int v')"
    by (simp add: threefry_fold_in_scalar threefry_2x32_pair Let_def split_beta prod_eq_iff)
  ultimately show ?thesis by (simp add: threefry_inj)
qed

lemma seed_arith:
  "take_bit 64 (v :: int) div 2 ^ 32 mod 2 ^ 32 = v div 2 ^ 32 mod 2 ^ 32"
  "take_bit 32 (v :: int) div 2 ^ 32 mod 2 ^ 32 = 0" "signed_take_bit 31 v mod 2 ^ 32 = v mod 2 ^ 32"
proof -
  show "take_bit 64 v div 2 ^ 32 mod 2 ^ 32 = v div 2 ^ 32 mod 2 ^ 32"
    using drop_bit_take_bit [of 32 64 v] by (simp only: flip: drop_bit_eq_div take_bit_eq_mod) simp
  show "signed_take_bit 31 v mod 2 ^ 32 = v mod 2 ^ 32"
    using take_bit_signed_take_bit [of 32 31 v] by (simp add: take_bit_eq_mod)
qed (simp add: take_bit_eq_mod)

text \<open>
  A Python integer as a seed. Outside the signed 64-bit range it raises \<open>OverflowError\<close>;
  otherwise the key of the threefry implementation is the two words of the seed, so that seeds in
  range give different keys, in x64 mode; without it the high word is lost.
\<close>

theorem seed_words:
  fixes cfg :: prng_config and v :: int
  defines "result \<equiv> random_seed (cfg\<lparr>random_seed_offset := 0\<rparr>) (SeedInt v) (threefry_prng_impl cfg)"
  shows "if v < - (2 ^ 63) \<or> 2 ^ 63 \<le> v then result = Inl OverflowError
    else \<exists>keys a b. result = Inr keys \<and> keys_ok keys \<and> keys_shape keys = [] \<and> key_at keys 0 = ([2], [a, b]) \<and>
      uint b = v mod 2 ^ 32 \<and> uint a = (if x64_enabled cfg then v div 2 ^ 32 mod 2 ^ 32 else 0)"
proof (cases "v < - (2 ^ 63) \<or> 2 ^ 63 \<le> v")
  case True
  then show ?thesis by (auto simp: result_def random_seed_def wrap_value_def signed_take_bit_int_eq_self_iff)
next
  case False
  then have "wrap_value Int64 v = v" by (simp add: wrap_value_def signed_take_bit_int_eq_self_iff)
  then have r: "result = random_seed_impl
      (if x64_enabled cfg then int_scalar Int64 v else int_scalar Int32 (signed_take_bit 31 v)) (threefry_prng_impl cfg)"
    by (simp add: result_def random_seed_def Let_def int_scalar_def wrap_value_def [of Int32])
  have "\<exists>keys a b. random_seed_impl (int_scalar dt w) (threefry_prng_impl cfg) = Inr keys \<and> keys_ok keys \<and>
      keys_shape keys = [] \<and> key_at keys 0 = ([2], [a, b]) \<and> uint b = w mod 2 ^ 32 \<and> uint a = take_bit n w div 2 ^ 32 mod 2 ^ 32"
    if dt: "np_integer_width dt = Some n" for dt n w
  proof -
    have sel: "ia_dtype (int_scalar dt w) = dt" "ia_values (int_scalar dt w) = [w]" "ia_shape (int_scalar dt w) = []"
      by (simp_all add: int_scalar_def)
    have seed: "impl_seed (threefry_prng_impl cfg) = threefry_seed" by (simp add: threefry_prng_impl_def)
    obtain keys where "random_seed_impl (int_scalar dt w) (threefry_prng_impl cfg) = Inr keys" "keys_ok keys" "keys_shape keys = []"
      "threefry_seed (int_scalar dt w) = Inr (key_at keys 0)"
      using fry.random_seed_impl_ok [of "int_scalar dt w" cfg] dt unfolding sel seed by auto
    moreover from this(4) have "key_at keys 0 = ([2], [word_of_int (take_bit n w div 2 ^ 32), word_of_int (take_bit 32 w)])"
      using threefry_seed_scalar [OF dt, of w] by simp
    ultimately show ?thesis by (simp add: uint_word_of_int take_bit_eq_mod)
  qed
  from this [of Int64 64 v] this [of Int32 32 "signed_take_bit 31 v"] show ?thesis
    unfolding r using False seed_arith by (cases "x64_enabled cfg") auto
qed

lemma seed_words_witness:
  "\<exists>keys a b. random_seed (default_config\<lparr>random_seed_offset := 0\<rparr>) (SeedInt (-5)) (threefry_prng_impl default_config) = Inr keys \<and>
    key_at keys 0 = ([2], [a, b]) \<and> uint b = 2 ^ 32 - 5 \<and> uint a = 2 ^ 32 - 1"
  using seed_words [of "-5" default_config] by (auto simp: default_config_def)

subsection \<open>Arrays of keys\<close>

text \<open>
  Splitting an array of keys, of either implementation, always succeeds; the result is
  an array of keys whose data have the right shape, of the shape that abstract evaluation says, and
  its parts are the splits of the single keys.
\<close>

theorem split_of_key_array:
  assumes "keys_ok keys" "array_impl keys \<in> {threefry_prng_impl cfg, rbg_prng_impl cfg generator}"
  shows "\<exists>keys'. random_split keys shape = Inr keys' \<and> keys_ok keys' \<and> array_impl keys' = array_impl keys \<and>
    keys_shape keys' = random_split_abstract_eval (keys_shape keys) shape \<and>
    (\<forall>i < keys_size keys. impl_split (array_impl keys) (key_at keys i) shape =
      Inr (shape @ key_shape (array_impl keys), block (prod_list shape * key_size (array_impl keys)) (snd (base_array keys')) i))"
  using assms fry.random_split_ok [OF assms(1), of cfg shape] rbg.random_split_ok [OF assms(1), of cfg generator shape] by auto

lemma split_of_key_array_witness:
  "\<exists>keys'. random_split two_keys [3] = Inr keys' \<and> keys_ok keys' \<and> keys_shape keys' = [2, 3]"
  using split_of_key_array [of two_keys default_config "\<lambda>_ _ _. []" "[3]"] two_keys_ok
  by (auto simp: random_split_abstract_eval_def)

text \<open>
  C26: Folding an array of integers into an array of keys broadcasts one against the other
  (equal sizes or size 1 on every axis, or one of them a scalar): the key at each position of the result
  is the fold of the key and the integer that NumPy's broadcasting puts there, for either implementation.
\<close>

theorem fold_in_broadcasts:
  assumes "keys_ok keys" "array_impl keys \<in> {threefry_prng_impl cfg, rbg_prng_impl cfg generator}"
    and "np_integer_width (ia_dtype msgs) \<noteq> None" "length (ia_values msgs) = prod_list (ia_shape msgs)"
    and "keys_shape keys = [] \<or> ia_shape msgs = [] \<or> bcast_compatible (keys_shape keys) (ia_shape msgs)"
  defines "shape \<equiv> bcast_shape (keys_shape keys) (ia_shape msgs)"
  shows "\<exists>keys'. random_fold_in keys msgs = Inr keys' \<and> keys_ok keys' \<and> array_impl keys' = array_impl keys \<and> keys_shape keys' = shape \<and>
    (\<forall>idx \<in> set (positions shape).
      impl_fold_in (array_impl keys) (key_at keys (number (clip (keys_shape keys) idx) (keys_shape keys)))
        (int_scalar (ia_dtype msgs) (ia_values msgs ! number (clip (ia_shape msgs) idx) (ia_shape msgs)))
      = Inr (key_at keys' (number idx shape)))"
  unfolding shape_def
  using assms(2) fry.random_fold_in_ok [OF assms(1) _ assms(3-5), of cfg] rbg.random_fold_in_ok [OF assms(1) _ assms(3-5), of cfg generator]
  by auto

lemma fold_in_broadcasts_witness:
  "\<exists>keys'. random_fold_in two_keys \<lparr>ia_shape = [1], ia_dtype = Int32, ia_values = [7]\<rparr> = Inr keys' \<and> keys_ok keys' \<and>
    keys_shape keys' = [2] \<and>
    threefry_fold_in default_config (key_at two_keys 1) (int_scalar Int32 7) = Inr (key_at keys' 1)"
proof -
  have "\<forall>idx \<in> set (positions [2]). P idx \<Longrightarrow> P [1]" for P by simp
  then show ?thesis
    using fold_in_broadcasts [of two_keys default_config "\<lambda>_ _ _. []" "\<lparr>ia_shape = [1], ia_dtype = Int32, ia_values = [7]\<rparr>"] two_keys_ok
    by (fastforce simp: bcast_compatible_def threefry_prng_impl_def)
qed

end
