(* ===== verification/KeyReuse.thy ===== *)
theory KeyReuse
  imports Jaxpr PrngArrays
begin

text \<open>
  \<^verbatim>\<open>jax/experimental/key_reuse/_core.py\<close>: the checker that no random key of a jaxpr is used twice.
  Every equation has a signature that says which inputs it consumes (sinks), which outputs are
  fresh keys (sources) and which outputs are an input again (forwards); the checker computes the
  signature of a jaxpr from those of its equations. A \<^verbatim>\<open>frozenset\<close> of such entries is a list without
  duplicates, whose order is not specified.
\<close>

subsection \<open>Masks\<close>

text \<open>Which elements of an array of keys: all or none, or as an array says.\<close>

datatype mask = MBool bool | MArr "nat list" "bool list"

definition pad_shape :: "nat \<Rightarrow> nat list \<Rightarrow> nat list" where
  "pad_shape n shape = replicate (n - length shape) 1 @ shape"

text \<open>\<^verbatim>\<open>np.logical_or\<close>, \<^verbatim>\<open>np.logical_and\<close> and \<^verbatim>\<open>==\<close>, with NumPy's broadcasting.\<close>

fun np_logical :: "(bool \<Rightarrow> bool \<Rightarrow> bool) \<Rightarrow> mask \<Rightarrow> mask \<Rightarrow> mask res" where
  "np_logical op (MBool a) (MBool b) = Inr (MBool (op a b))"
| "np_logical op (MBool a) (MArr shape bs) = Inr (MArr shape (map (op a) bs))"
| "np_logical op (MArr shape as) (MBool b) = Inr (MArr shape (map (\<lambda>a. op a b) as))"
| "np_logical op (MArr shape1 as) (MArr shape2 bs) =
     (let n = max (length shape1) (length shape2); s = pad_shape n shape1; t = pad_shape n shape2 in
      if \<not> bcast_compatible s t then Inl (ValueError ''operands could not be broadcast together'')
      else Inr (MArr (bcast_shape s t)
        (map (\<lambda>idx. op (as ! number (clip s idx) s) (bs ! number (clip t idx) t)) (positions (bcast_shape s t)))))"

fun np_any :: "mask \<Rightarrow> bool" where
  "np_any (MBool b) = b"
| "np_any (MArr _ bs) = list_ex id bs"

fun np_all :: "mask \<Rightarrow> bool" where
  "np_all (MBool b) = b"
| "np_all (MArr _ bs) = list_all id bs"

text \<open>The truth value of an array, which an array has only if it has one element.\<close>

fun np_truth :: "mask \<Rightarrow> bool res" where
  "np_truth (MBool b) = Inr b"
| "np_truth (MArr _ bs) = (case bs of [b] \<Rightarrow> Inr b | _ \<Rightarrow> Inl (ValueError ''truth value of an array is ambiguous''))"

text \<open>What the constructor of a source or sink does to its mask.\<close>

fun mk_mask :: "mask \<Rightarrow> mask" where
  "mk_mask (MBool b) = MBool b"
| "mk_mask (MArr shape bs) =
     (if list_all id bs then MBool True else if \<not> list_ex id bs then MBool False else MArr shape bs)"

subsection \<open>Signatures\<close>

datatype sig_entry = Sink nat mask | Source nat mask | Forward nat nat

type_synonym signature = "sig_entry list"

definition mk_signature :: "sig_entry list \<Rightarrow> signature" where
  "mk_signature args = remdups args"

definition sig_sinks :: "signature \<Rightarrow> (nat \<times> mask) list" where
  "sig_sinks sig = concat (map (\<lambda>e. case e of Sink i m \<Rightarrow> [(i, m)] | _ \<Rightarrow> []) sig)"

definition sig_sources :: "signature \<Rightarrow> (nat \<times> mask) list" where
  "sig_sources sig = concat (map (\<lambda>e. case e of Source i m \<Rightarrow> [(i, m)] | _ \<Rightarrow> []) sig)"

definition sig_forwards :: "signature \<Rightarrow> (nat \<times> nat) list" where
  "sig_forwards sig = concat (map (\<lambda>e. case e of Forward i j \<Rightarrow> [(i, j)] | _ \<Rightarrow> []) sig)"

abbreviation sink_all :: "nat \<Rightarrow> sig_entry" where "sink_all i \<equiv> Sink i (MBool True)"
abbreviation source_all :: "nat \<Rightarrow> sig_entry" where "source_all i \<equiv> Source i (MBool True)"

subsection \<open>Jaxprs with keys\<close>

text \<open>
  Abstract values: arrays of keys with their shape (\<open>None\<close> for a symbolic dimension), other arrays,
  and values without a dtype. Parameters of equations: integers, tuples of integers, flags, masks.
\<close>

datatype key_aval = KeyAval "nat option list" | ArrayAval | NoDtype

datatype key_param = KInt nat | KInts "nat list" | KNone | KBool bool | KMask mask

type_synonym kjaxpr = "(key_param, key_aval) jaxpr"
type_synonym keqn = "(key_param, key_aval) eqn"
type_synonym katom = "(key_param, key_aval) atom"
type_synonym kvar = "(key_param, key_aval) var"

fun is_key_aval :: "key_aval \<Rightarrow> bool" where
  "is_key_aval (KeyAval _) = True"
| "is_key_aval _ = False"

abbreviation is_key :: "katom \<Rightarrow> bool" where
  "is_key v \<equiv> is_key_aval (atom_aval v)"

definition unknown_signature :: "keqn \<Rightarrow> signature" where
  "unknown_signature eqn =
     mk_signature (map (\<lambda>(i, v). sink_all i) (filter (\<lambda>(i, v). is_key v) (enumerate 0 (eqn_invars eqn))))"

subsection \<open>The signatures of primitives\<close>

definition key_reuse_signatures :: "(string \<times> signature) list" where
  "key_reuse_signatures =
    [(''consume'', [sink_all 0, Forward 0 0]),
     (''assert_consumed_value'', [Forward 0 0]),
     (''random_clone'', [source_all 0]),
     (''random_bits'', [sink_all 0]),
     (''random_fold_in'', [source_all 0]),
     (''random_seed'', [source_all 0]),
     (''random_split'', [sink_all 0, source_all 0]),
     (''random_gamma'', [sink_all 0]),
     (''broadcast_in_dim'', [Forward 0 0]),
     (''copy'', [Forward 0 0]),
     (''convert_element_type'', [Forward 0 0]),
     (''reshape'', [Forward 0 0]),
     (''squeeze'', [Forward 0 0]),
     (''layout_constraint'', [Forward 0 0]),
     (''sharding_constraint'', [Forward 0 0]),
     (''reshard'', [Forward 0 0]),
     (''random_wrap'', [source_all 0]),
     (''random_unwrap'', []),
     (''debug_callback'', []),
     (''dynamic_slice'', [Forward 0 0]),
     (''dynamic_update_slice'', [sink_all 1, Forward 0 0]),
     (''gather'', [Forward 0 0]),
     (''scatter'', [sink_all 2, Forward 0 0]),
     (''eq'', []),
     (''ne'', [])]"

text \<open>\<open>the_param ps k\<close> is \<^verbatim>\<open>eqn.params[k]\<close>.\<close>

definition the_param :: "(string \<times> (key_param, key_aval) param) list \<Rightarrow> string \<Rightarrow> (key_param, key_aval) param res" where
  "the_param ps k = (case map_of ps k of None \<Rightarrow> Inl KeyError | Some p \<Rightarrow> Inr p)"

fun param_nat :: "(key_param, key_aval) param \<Rightarrow> nat res" where
  "param_nat (PVal (KInt n)) = Inr n"
| "param_nat _ = Inl (TypeError ''param'')"

fun param_nats :: "(key_param, key_aval) param \<Rightarrow> nat list res" where
  "param_nats (PVal (KInts ns)) = Inr ns"
| "param_nats _ = Inl (TypeError ''param'')"

fun param_the_jaxpr :: "(key_param, key_aval) param \<Rightarrow> kjaxpr res" where
  "param_the_jaxpr (PJaxpr j) = Inr j"
| "param_the_jaxpr (PClosed j _) = Inr j"
| "param_the_jaxpr _ = Inl (TypeError ''param'')"

fun param_branches :: "(key_param, key_aval) param \<Rightarrow> kjaxpr list res" where
  "param_branches (PTuple ps) = rmap param_the_jaxpr ps"
| "param_branches _ = Inl (TypeError ''param'')"

text \<open>The elements that \<^verbatim>\<open>sink[idx] = True\<close> sets, with the slices of the parameters.\<close>

fun in_slices :: "(nat \<times> nat \<times> nat) list \<Rightarrow> nat list \<Rightarrow> bool" where
  "in_slices ((start, limit, stride) # slices) (i # idx) =
     (start \<le> i \<and> i < limit \<and> (i - start) mod stride = 0 \<and> in_slices slices idx)"
| "in_slices _ _ = True"

definition slice_signature :: "keqn \<Rightarrow> signature res" where
  "slice_signature eqn =
     rbind (seq_get (eqn_invars eqn) 0) (\<lambda>v.
     case atom_aval v of
       NoDtype \<Rightarrow> Inl AssertionError
     | ArrayAval \<Rightarrow> Inr [Forward 0 0]
     | KeyAval dims \<Rightarrow>
         if None \<in> set dims then Inr [Forward 0 0]
         else
           rbind (rbind (the_param (params eqn) ''start_indices'') param_nats) (\<lambda>starts.
           rbind (rbind (the_param (params eqn) ''limit_indices'') param_nats) (\<lambda>limits.
           rbind (the_param (params eqn) ''strides'') (\<lambda>p.
           rbind (if p = PVal KNone \<or> p = PVal (KInts []) then Inr (replicate (length starts) 1) else param_nats p) (\<lambda>strides.
           rbind (safe_zip limits strides) (\<lambda>ls.
           rbind (safe_zip starts ls) (\<lambda>slices.
           let shape = map the dims in
           if length shape < length slices then Inl IndexError
           else if 0 \<in> set strides then Inl (ValueError ''slice step cannot be zero'')
           else Inr [Sink 0 (mk_mask (MArr shape (map (in_slices slices) (positions shape)))), source_all 0])))))))"

definition concatenate_signature :: "keqn \<Rightarrow> signature" where
  "concatenate_signature eqn =
     (let num_vals = length (eqn_invars eqn) in
      if num_vals = 1 then [Forward 0 0] else map sink_all [0..<num_vals] @ [source_all 0])"

type_synonym sig_rec = "kjaxpr \<Rightarrow> signature res"

definition group_masks :: "(nat \<times> mask) list \<Rightarrow> (nat \<times> mask list) list" where
  "group_masks ims =
     fold (\<lambda>(i, m) d. dict_set d i ((case map_of d i of None \<Rightarrow> [] | Some ms \<Rightarrow> ms) @ [m])) ims []"

fun reduce_masks :: "(bool \<Rightarrow> bool \<Rightarrow> bool) \<Rightarrow> mask list \<Rightarrow> mask res" where
  "reduce_masks op [] = Inl (TypeError ''reduce() of empty iterable'')"
| "reduce_masks op (m # ms) = rfold (\<lambda>m' acc. np_logical op acc m') ms m"

definition cond_signature :: "sig_rec \<Rightarrow> keqn \<Rightarrow> signature res" where
  "cond_signature rec eqn =
     rbind (rbind (the_param (params eqn) ''branches'') param_branches) (\<lambda>branches.
     rbind (rmap rec branches) (\<lambda>signatures.
     let sinks = group_masks (concat (map sig_sinks signatures));
         sources = group_masks (concat (map sig_sources signatures)) in
     rbind (rmap (\<lambda>(i, ms). rbind (reduce_masks (\<or>) ms) (\<lambda>m. Inr (Sink (i + 1) (mk_mask m)))) sinks) (\<lambda>combined_sinks.
     rbind (rmap (\<lambda>(i, ms). rbind (reduce_masks (\<and>) ms) (\<lambda>m. Inr (Source i (mk_mask m)))) sources) (\<lambda>combined_sources.
     case signatures of
       [] \<Rightarrow> Inl (TypeError ''set.intersection of nothing'')
     | sig # sigs \<Rightarrow>
         Inr (mk_signature (combined_sinks @ combined_sources @
           map (\<lambda>(i, j). Forward (i + 1) j)
             (filter (\<lambda>f. \<forall>s \<in> set sigs. f \<in> set (sig_forwards s)) (sig_forwards sig))))))))"

definition scan_signature :: "sig_rec \<Rightarrow> keqn \<Rightarrow> signature res" where
  "scan_signature rec eqn =
     rbind (rbind (the_param (params eqn) ''jaxpr'') param_the_jaxpr) (\<lambda>jaxpr.
     rbind (rbind (the_param (params eqn) ''num_consts'') param_nat) (\<lambda>num_consts.
     rbind (rbind (the_param (params eqn) ''num_carry'') param_nat) (\<lambda>num_carry.
     rbind (rec jaxpr) (\<lambda>signature.
     if list_ex (\<lambda>(i, m). i < num_consts \<and> np_any m) (sig_sinks signature) then Inl KeyReuseError
     else
       let carry_sinks = map (\<lambda>(i, m). i - num_consts)
             (filter (\<lambda>(i, m). num_consts \<le> i \<and> i - num_consts < num_carry \<and> np_any m) (sig_sinks signature));
           carry_sources = map fst (filter (\<lambda>(i, m). i < num_carry \<and> np_any m) (sig_sources signature)) in
       if \<not> set carry_sinks \<subseteq> set carry_sources then Inl KeyReuseError
       else Inr signature))))"

definition while_signature :: "sig_rec \<Rightarrow> keqn \<Rightarrow> signature res" where
  "while_signature rec eqn =
     rbind (rbind (the_param (params eqn) ''cond_jaxpr'') param_the_jaxpr) (\<lambda>cond_jaxpr.
     rbind (rbind (the_param (params eqn) ''cond_nconsts'') param_nat) (\<lambda>cond_nconsts.
     rbind (rbind (the_param (params eqn) ''body_jaxpr'') param_the_jaxpr) (\<lambda>body_jaxpr.
     rbind (rbind (the_param (params eqn) ''body_nconsts'') param_nat) (\<lambda>body_nconsts.
     rbind (rec cond_jaxpr) (\<lambda>cond_signature.
     rbind (rec body_jaxpr) (\<lambda>body_signature.
     if list_ex (\<lambda>(i, m). i < cond_nconsts \<and> np_any m) (sig_sinks cond_signature) then Inl KeyReuseError
     else if list_ex (\<lambda>(i, m). i < body_nconsts \<and> np_any m) (sig_sinks body_signature) then Inl KeyReuseError
     else
       let body_carry_sinks = set (map (\<lambda>(i, m). i - body_nconsts) (filter (\<lambda>(i, m). body_nconsts \<le> i) (sig_sinks body_signature)));
           cond_carry_sinks = set (map (\<lambda>(i, m). i - cond_nconsts) (filter (\<lambda>(i, m). cond_nconsts \<le> i) (sig_sinks cond_signature)));
           carry_sources = set (map fst (sig_sources body_signature)) in
       if \<not> cond_carry_sinks \<subseteq> carry_sources then Inl KeyReuseError
       else if \<not> body_carry_sinks \<subseteq> carry_sources then Inl KeyReuseError
       else if body_carry_sinks \<inter> cond_carry_sinks \<noteq> {} then Inl KeyReuseError
       else Inr body_signature))))))"

definition remat_signature :: "sig_rec \<Rightarrow> keqn \<Rightarrow> signature res" where
  "remat_signature rec eqn =
     rbind (the_param (params eqn) ''differentiated'') (\<lambda>p.
     if p = PVal (KBool True) then Inr []
     else rbind (rbind (the_param (params eqn) ''jaxpr'') param_the_jaxpr) rec)"

definition device_put_signature :: "keqn \<Rightarrow> signature" where
  "device_put_signature eqn = map (\<lambda>i. Forward i i) [0..<length (eqn_invars eqn)]"

definition jit_signature :: "sig_rec \<Rightarrow> keqn \<Rightarrow> signature res" where
  "jit_signature rec eqn = rbind (rbind (the_param (params eqn) ''jaxpr'') param_the_jaxpr) rec"

definition shard_map_signature :: "sig_rec \<Rightarrow> keqn \<Rightarrow> signature res" where
  "shard_map_signature rec eqn = rbind (rbind (the_param (params eqn) ''jaxpr'') param_the_jaxpr) rec"

definition key_reuse_signature_from_eqn :: "sig_rec \<Rightarrow> keqn \<Rightarrow> signature res" where
  "key_reuse_signature_from_eqn rec eqn =
     (let name = pname (primitive eqn) in
      case map_of key_reuse_signatures name of
        Some sig \<Rightarrow> Inr sig
      | None \<Rightarrow>
          if name = ''slice'' then slice_signature eqn
          else if name = ''concatenate'' then Inr (concatenate_signature eqn)
          else if name = ''jit'' then jit_signature rec eqn
          else if name = ''shard_map'' then shard_map_signature rec eqn
          else if name = ''cond'' then cond_signature rec eqn
          else if name = ''scan'' then scan_signature rec eqn
          else if name = ''while'' then while_signature rec eqn
          else if name = ''remat2'' then remat_signature rec eqn
          else if name = ''device_put'' then Inr (device_put_signature eqn)
          else Inr (unknown_signature eqn))"

subsection \<open>The checker\<close>

text \<open>\<^verbatim>\<open>consumed\<close> and \<^verbatim>\<open>forwards\<close>, the dictionaries of \<^verbatim>\<open>jaxpr_type_signature\<close>; literals are never their keys.\<close>

record reuse_state =
  consumed :: "kvar \<rightharpoonup> mask"
  forwards :: "(kvar \<times> katom) list"

fun resolve_loop :: "nat \<Rightarrow> (kvar \<times> katom) list \<Rightarrow> katom \<Rightarrow> katom res" where
  "resolve_loop 0 fwds v = Inl (ValueError ''forwarding cycle detected'')"
| "resolve_loop (Suc n) fwds v =
     (case v of
        ALit _ _ \<Rightarrow> Inr v
      | AVar w \<Rightarrow> (case map_of fwds w of None \<Rightarrow> Inr v | Some u \<Rightarrow> resolve_loop n fwds u))"

definition resolve_forwards :: "(kvar \<times> katom) list \<Rightarrow> katom \<Rightarrow> katom res" where
  "resolve_forwards fwds v = (if fwds = [] then Inr v else resolve_loop (length fwds + 1) fwds v)"

definition consumed_get :: "reuse_state \<Rightarrow> kvar \<Rightarrow> mask" where
  "consumed_get s v = (case consumed s v of None \<Rightarrow> MBool False | Some m \<Rightarrow> m)"

text \<open>\<^verbatim>\<open>sink\<close> answers whether the key was consumed already.\<close>

definition sink_key :: "katom \<Rightarrow> mask \<Rightarrow> reuse_state \<Rightarrow> (bool \<times> reuse_state) res" where
  "sink_key v m s =
     (if \<not> is_key v then Inr (False, s)
      else
        rbind (resolve_forwards (forwards s) v) (\<lambda>r.
        case r of
          ALit _ _ \<Rightarrow> Inl AssertionError
        | AVar w \<Rightarrow>
            rbind (np_logical (\<and>) (consumed_get s w) m) (\<lambda>both.
            if np_any both then Inr (True, s)
            else
              rbind (np_logical (\<or>) (consumed_get s w) m) (\<lambda>either.
              Inr (False, s\<lparr>consumed := (consumed s)(w \<mapsto> either)\<rparr>)))))"

definition source_key :: "katom \<Rightarrow> mask \<Rightarrow> reuse_state \<Rightarrow> reuse_state res" where
  "source_key v m s =
     (if \<not> is_key v then Inr s
      else
        rbind (resolve_forwards (forwards s) v) (\<lambda>r.
        case r of
          ALit _ _ \<Rightarrow> Inl AssertionError
        | AVar w \<Rightarrow> Inr (s\<lparr>consumed := (consumed s)(w \<mapsto> m)\<rparr>)))"

definition is_consumed :: "katom \<Rightarrow> reuse_state \<Rightarrow> mask res" where
  "is_consumed v s =
     rbind (resolve_forwards (forwards s) v) (\<lambda>r.
     case r of ALit _ _ \<Rightarrow> Inr (MBool False) | AVar w \<Rightarrow> Inr (consumed_get s w))"

definition check_consumed_value :: "keqn \<Rightarrow> mask \<Rightarrow> unit res" where
  "check_consumed_value eqn m =
     rbind (the_param (params eqn) ''value'') (\<lambda>p.
     rbind (case p of PVal (KMask e) \<Rightarrow> Inr e | PVal (KBool b) \<Rightarrow> Inr (MBool b) | _ \<Rightarrow> Inl (TypeError ''param'')) (\<lambda>expected.
     rbind (np_logical (=) m expected) (\<lambda>same.
     rassert (np_all same))))"

text \<open>One equation, with its signature.\<close>

definition check_eqn_reuse :: "keqn \<Rightarrow> signature \<Rightarrow> reuse_state \<Rightarrow> reuse_state res" where
  "check_eqn_reuse eqn signature s =
     rbind
       (if pname (primitive eqn) = ''assert_consumed_value''
        then rbind (rbind (seq_get (eqn_invars eqn) 0) (\<lambda>v. is_consumed v s)) (check_consumed_value eqn)
        else Inr ()) (\<lambda>_.
     rbind (rfold (\<lambda>(in_idx, out_idx) s.
         rbind (seq_get (eqn_outvars eqn) out_idx) (\<lambda>outvar.
         rbind (seq_get (eqn_invars eqn) in_idx) (\<lambda>invar.
         Inr (s\<lparr>forwards := dict_set (forwards s) outvar invar\<rparr>)))) (sig_forwards signature) s) (\<lambda>s.
     rbind (rfold (\<lambda>(idx, m) s.
         if \<not> idx < length (eqn_invars eqn) then Inl KeyReuseError
         else rbind (sink_key (eqn_invars eqn ! idx) m s) (\<lambda>(reused, s).
              if reused then Inl KeyReuseError else Inr s)) (sig_sinks signature) s) (\<lambda>s.
     rbind (rfold (\<lambda>v s.
         if v \<in> fst ` set (forwards s) then Inr s else source_key (AVar v) (MBool True) s) (eqn_outvars eqn) s) (\<lambda>s.
     rfold (\<lambda>(idx, m) s.
         if \<not> idx < length (eqn_outvars eqn) then Inl KeyReuseError
         else source_key (AVar (eqn_outvars eqn ! idx)) (MBool False) s) (sig_sources signature) s))))"

fun check_eqns_reuse :: "(keqn \<Rightarrow> signature res) \<Rightarrow> keqn list \<Rightarrow> reuse_state \<Rightarrow> reuse_state res" where
  "check_eqns_reuse sig_of [] s = Inr s"
| "check_eqns_reuse sig_of (eqn # es) s =
     rbind (sig_of eqn) (\<lambda>signature.
     rbind (check_eqn_reuse eqn signature s) (check_eqns_reuse sig_of es))"

text \<open>The position of a variable in a list, \<^verbatim>\<open>all_inputs.index(v)\<close>.\<close>

fun index_of :: "'a \<Rightarrow> 'a list \<Rightarrow> nat option" where
  "index_of x [] = None"
| "index_of x (y # ys) = (if x = y then Some 0 else map_option Suc (index_of x ys))"

text \<open>The signature read off the final state. A literal cannot be looked up in a dictionary.\<close>

definition input_sinks :: "kvar list \<Rightarrow> reuse_state \<Rightarrow> sig_entry list" where
  "input_sinks all_inputs s =
     map (\<lambda>(i, v). Sink i (mk_mask (consumed_get s v)))
       (filter (\<lambda>(i, v). is_key (AVar v) \<and> np_any (consumed_get s v)) (enumerate 0 all_inputs))"

definition output_entry :: "kvar list \<Rightarrow> reuse_state \<Rightarrow> nat \<times> katom \<Rightarrow> sig_entry list res" where
  "output_entry all_inputs s = (\<lambda>(i, v).
     if \<not> is_key v then Inr []
     else
       rbind (resolve_forwards (forwards s) v) (\<lambda>r.
       case (case r of AVar w \<Rightarrow> index_of w all_inputs | ALit _ _ \<Rightarrow> None) of
         Some k \<Rightarrow> Inr [Forward k i]
       | None \<Rightarrow>
           (case v of
              ALit _ _ \<Rightarrow> Inl (TypeError ''unhashable type'')
            | AVar u \<Rightarrow> rbind (np_truth (consumed_get s u)) (\<lambda>used. Inr (if used then [] else [source_all i])))))"

definition jaxpr_type_signature_body :: "(keqn \<Rightarrow> signature res) \<Rightarrow> kjaxpr \<Rightarrow> signature res" where
  "jaxpr_type_signature_body sig_of jaxpr =
     rbind (check_eqns_reuse sig_of (eqns jaxpr) \<lparr>consumed = Map.empty, forwards = []\<rparr>) (\<lambda>s.
     let all_inputs = invars jaxpr @ constvars jaxpr in
     rbind (rmap (output_entry all_inputs s) (enumerate 0 (outvars jaxpr))) (\<lambda>outs.
     Inr (mk_signature (input_sinks all_inputs s @ concat outs))))"

text \<open>
  The recursion goes into the jaxprs that equations carry as parameters. Results are cached in
  the source; here they are computed again.
\<close>

lemma the_param_jaxpr:
  "rbind (the_param ps k) param_the_jaxpr = Inr j \<Longrightarrow> j \<in> set (jaxprs_in_params ps)"
proof -
  assume "rbind (the_param ps k) param_the_jaxpr = Inr j"
  then obtain p where p: "(k, p) \<in> set ps" "param_the_jaxpr p = Inr j"
    by (auto simp: the_param_def res_simps split: option.splits dest: map_of_SomeD)
  then have "j \<in> set (concat (map param_jaxpr (param_vals p)))" by (cases p) auto
  with p show ?thesis unfolding jaxprs_in_params_def by force
qed

lemma the_param_branches:
  assumes "rbind (the_param ps k) param_branches = Inr js" "j \<in> set js"
  shows "j \<in> set (jaxprs_in_params ps)"
proof -
  from assms(1) obtain qs where p: "(k, PTuple qs) \<in> set ps" "rmap param_the_jaxpr qs = Inr js"
    by (auto simp: the_param_def res_simps elim!: param_branches.elims split: option.splits dest: map_of_SomeD)
  then obtain q where "q \<in> set qs" "param_the_jaxpr q = Inr j"
    using assms(2) by (auto simp: rmap_Inr_iff in_set_conv_nth)
  moreover from this(2) have "j \<in> set (param_jaxpr q)" by (cases q) simp_all
  ultimately have "j \<in> set (concat (map param_jaxpr (param_vals (PTuple qs))))" by auto
  with p show ?thesis unfolding jaxprs_in_params_def by force
qed

lemma rbind_same: "(\<And>x. m = Inr x \<Longrightarrow> f x = g x) \<Longrightarrow> rbind m f = rbind m g"
  by (cases m) simp_all

lemma key_reuse_signature_cong:
  assumes "\<And>j. j \<in> set (jaxprs_in_params (params eqn)) \<Longrightarrow> f j = g j"
  shows "key_reuse_signature_from_eqn f eqn = key_reuse_signature_from_eqn g eqn"
proof -
  have j: "rbind (rbind (the_param (params eqn) k) param_the_jaxpr) f = rbind (rbind (the_param (params eqn) k) param_the_jaxpr) g" for k
    using assms the_param_jaxpr by (intro rbind_same) blast
  have b: "rbind (rbind (the_param (params eqn) k) param_branches) (\<lambda>js. rbind (rmap f js) h)
      = rbind (rbind (the_param (params eqn) k) param_branches) (\<lambda>js. rbind (rmap g js) h)" for k h
    using assms the_param_branches by (intro rbind_same arg_cong [where f = "\<lambda>m. rbind m h"] rmap_cong refl) blast
  have call: "jit_signature f eqn = jit_signature g eqn" "shard_map_signature f eqn = shard_map_signature g eqn"
    unfolding jit_signature_def shard_map_signature_def by (rule j)+
  have remat: "remat_signature f eqn = remat_signature g eqn"
    unfolding remat_signature_def using j by (intro rbind_same) simp
  have cond: "cond_signature f eqn = cond_signature g eqn" unfolding cond_signature_def by (rule b)
  have scan: "scan_signature f eqn = scan_signature g eqn"
    unfolding scan_signature_def using assms the_param_jaxpr
    by (intro rbind_same arg_cong2 [where f = rbind] refl) blast
  have loop: "while_signature f eqn = while_signature g eqn"
    unfolding while_signature_def using assms the_param_jaxpr
    by (intro rbind_same arg_cong2 [where f = rbind] refl) (blast, intro ext arg_cong2 [where f = rbind] refl, blast)
  show ?thesis unfolding key_reuse_signature_from_eqn_def Let_def call remat cond scan loop ..
qed

lemma check_eqns_reuse_cong:
  "(\<And>eqn. eqn \<in> set es \<Longrightarrow> f eqn = g eqn) \<Longrightarrow> check_eqns_reuse f es s = check_eqns_reuse g es s"
proof (induction es arbitrary: s)
  case (Cons eqn es)
  then have "check_eqns_reuse f es = check_eqns_reuse g es" by (intro ext) simp
  with Cons.prems show ?case by simp
qed simp

lemma jaxpr_type_signature_body_cong [fundef_cong]:
  assumes "jaxpr = jaxpr'" "\<And>eqn. eqn \<in> set (eqns jaxpr') \<Longrightarrow> f eqn = g eqn"
  shows "jaxpr_type_signature_body f jaxpr = jaxpr_type_signature_body g jaxpr'"
  using check_eqns_reuse_cong [of "eqns jaxpr'" f g] assms by (simp add: jaxpr_type_signature_body_def)

lemma key_reuse_signature_cong' [fundef_cong]:
  assumes "eqn = eqn'" "\<And>j. j \<in> set (jaxprs_in_params (params eqn')) \<Longrightarrow> f j = g j"
  shows "key_reuse_signature_from_eqn f eqn = key_reuse_signature_from_eqn g eqn'"
  using key_reuse_signature_cong [of eqn' f g] assms by simp

function jaxpr_type_signature :: "kjaxpr \<Rightarrow> signature res" where
  "jaxpr_type_signature jaxpr = jaxpr_type_signature_body (key_reuse_signature_from_eqn jaxpr_type_signature) jaxpr"
  by pat_completeness auto

termination
  by (relation "measure size") (auto intro: subjaxprs_size subjaxprsI)

declare jaxpr_type_signature.simps [simp del]

definition check_key_reuse_jaxpr :: "kjaxpr \<Rightarrow> unit res" where
  "check_key_reuse_jaxpr jaxpr = rbind (jaxpr_type_signature jaxpr) (\<lambda>_. Inr ())"

subsection \<open>Keys at run time\<close>

text \<open>
  Outside of a trace every key array is an object that remembers what was consumed of it. An argument
  is the address of its key array, or \<open>None\<close> for any other value; the store holds \<^verbatim>\<open>_consumed\<close>.
\<close>

type_synonym key_store = "nat \<Rightarrow> mask"

fun np_not :: "mask \<Rightarrow> mask" where
  "np_not (MBool b) = MBool (\<not> b)"
| "np_not (MArr shape bs) = MArr shape (map Not bs)"

definition check_sink :: "nat option list \<Rightarrow> key_store \<Rightarrow> nat \<times> mask \<Rightarrow> unit res" where
  "check_sink args st = (\<lambda>(idx, m).
     rbind (seq_get args idx) (\<lambda>key.
     case key of
       None \<Rightarrow> Inr ()
     | Some k \<Rightarrow>
         rbind (np_logical (\<and>) (st k) m) (\<lambda>both.
         if np_any both then Inl KeyReuseError else Inr ())))"

definition check_signature :: "signature \<Rightarrow> nat option list \<Rightarrow> key_store \<Rightarrow> unit res" where
  "check_signature sig args st = rfold (\<lambda>snk _. check_sink args st snk) (sig_sinks sig) ()"

text \<open>The loops of \<^verbatim>\<open>update_consumption\<close>: over the sinks, the results, the sources and the forwards.\<close>

definition update_sink :: "nat option list \<Rightarrow> nat \<times> mask \<Rightarrow> key_store \<Rightarrow> key_store res" where
  "update_sink args_in = (\<lambda>(idx, m) st.
     rbind (seq_get args_in idx) (\<lambda>arg.
     case arg of None \<Rightarrow> Inr st | Some k \<Rightarrow> rbind (np_logical (\<or>) (st k) m) (\<lambda>c. Inr (st(k := c)))))"

definition update_result :: "nat option \<Rightarrow> key_store \<Rightarrow> key_store" where
  "update_result arg st = (case arg of None \<Rightarrow> st | Some k \<Rightarrow> st(k := MBool True))"

definition update_source :: "nat option list \<Rightarrow> nat \<times> mask \<Rightarrow> key_store \<Rightarrow> key_store res" where
  "update_source args_out = (\<lambda>(idx, m) st.
     rbind (seq_get args_out idx) (\<lambda>arg.
     case arg of None \<Rightarrow> Inr st | Some k \<Rightarrow> Inr (st(k := np_not m))))"

definition update_forward :: "nat option list \<Rightarrow> nat option list \<Rightarrow> nat \<times> nat \<Rightarrow> key_store \<Rightarrow> key_store res" where
  "update_forward args_in args_out = (\<lambda>(in_idx, out_idx) st.
     rbind (seq_get args_in in_idx) (\<lambda>arg_in.
     rbind (seq_get args_out out_idx) (\<lambda>arg_out.
     case (arg_in, arg_out) of (Some k, Some k') \<Rightarrow> Inr (st(k' := st k)) | _ \<Rightarrow> Inr st)))"

definition update_consumption :: "signature \<Rightarrow> nat option list \<Rightarrow> nat option list \<Rightarrow> key_store \<Rightarrow> key_store res" where
  "update_consumption sig args_in args_out st =
     rbind (rfold (update_sink args_in) (sig_sinks sig) st) (\<lambda>st.
     rbind (rfold (update_source args_out) (sig_sources sig) (fold update_result args_out st)) (\<lambda>st.
     rfold (update_forward args_in args_out) (sig_forwards sig) st))"

text \<open>
  A call with the checks: \<open>raw\<close> is what the implementation of the primitive returns. A primitive with
  a fixed signature in the table, or \<^verbatim>\<open>jit\<close> with that of its jaxpr; others are not checked, and for those
  whose signature is computed the source traces the call again, which is a parameter (\<open>retrace\<close>).
\<close>

definition key_reuse_signature_from_primitive ::
  "(string \<Rightarrow> keqn \<Rightarrow> kjaxpr) \<Rightarrow> keqn \<Rightarrow> signature option res" where
  "key_reuse_signature_from_primitive retrace eqn =
     (let name = pname (primitive eqn) in
      if name = ''jit'' then rbind (jit_signature jaxpr_type_signature eqn) (\<lambda>sig. Inr (Some sig))
      else case map_of key_reuse_signatures name of
        Some sig \<Rightarrow> Inr (Some sig)
      | None \<Rightarrow>
          if name \<in> {''slice'', ''concatenate'', ''shard_map'', ''cond'', ''scan'', ''while'', ''remat2'', ''device_put''}
          then rbind (jaxpr_type_signature (retrace name eqn)) (\<lambda>sig. Inr (Some sig))
          else Inr None)"

definition call_impl_with_key_reuse_checks ::
  "signature option \<Rightarrow> (key_store \<Rightarrow> (nat option list \<times> key_store) res) \<Rightarrow> nat option list \<Rightarrow> key_store
   \<Rightarrow> (nat option list \<times> key_store) res" where
  "call_impl_with_key_reuse_checks sig raw_impl args st =
     (case sig of
        None \<Rightarrow> raw_impl st
      | Some sig \<Rightarrow>
          rbind (check_signature sig args st) (\<lambda>_.
          rbind (raw_impl st) (\<lambda>(outs, st).
          rbind (update_consumption sig args outs st) (\<lambda>st. Inr (outs, st)))))"

end
