(* ===== verification/KeyReuseCorrect.thy ===== *)
theory KeyReuseCorrect
  imports KeyReuse
begin

text \<open>
  What the key reuse checker decides of the equations of a jaxpr. Every key has an origin, the variable
  that was first bound to it; a run of equations is a list of events, each the consumption of some
  elements of the key of an origin. The checker accepts if and only if no two events consume an
  element of one key.
\<close>

subsection \<open>Masks that fit\<close>

fun overlap :: "mask \<Rightarrow> mask \<Rightarrow> bool" where
  "overlap (MBool a) (MBool b) = (a \<and> b)"
| "overlap (MBool a) (MArr _ bs) = (a \<and> list_ex id bs)"
| "overlap (MArr _ as) (MBool b) = (list_ex id as \<and> b)"
| "overlap (MArr _ as) (MArr _ bs) = list_ex (\<lambda>(a, b). a \<and> b) (zip as bs)"

text \<open>An array mask for an array of keys that is not empty; the constructors of signatures make no other.\<close>

fun fits :: "key_aval \<Rightarrow> mask \<Rightarrow> bool" where
  "fits aval (MBool _) = True"
| "fits aval (MArr shape bs) =
     (bs \<noteq> [] \<and> length bs = prod_list shape \<and> aval = KeyAval (map Some shape))"

abbreviation mask_fits :: "kvar \<Rightarrow> mask \<Rightarrow> bool" where
  "mask_fits v \<equiv> fits (vaval v)"

lemma list_ex_zip: "list_ex (\<lambda>(a, b). a \<and> b) (zip as bs) \<longleftrightarrow> (\<exists>i < length as. i < length bs \<and> as ! i \<and> bs ! i)"
  by (auto simp: list_ex_iff set_zip)

lemma overlap_arrays: "overlap (MArr s as) (MArr t bs) \<longleftrightarrow> (\<exists>i < length as. i < length bs \<and> as ! i \<and> bs ! i)"
  by (simp only: overlap.simps list_ex_zip)

lemma bcast_same: "bcast_compatible s s" "bcast_shape s s = s"
  by (simp_all add: bcast_compatible_def list_all2_refl) (induction s; simp)

lemma np_logical_same:
  assumes "length as = prod_list shape" "length bs = prod_list shape"
  shows "np_logical op (MArr shape as) (MArr shape bs) = Inr (MArr shape (map2 op as bs))"
proof -
  have "map (\<lambda>idx. op (as ! number (clip shape idx) shape) (bs ! number (clip shape idx) shape)) (positions shape)
      = map (\<lambda>k. op (as ! k) (bs ! k)) [0..<prod_list shape]"
    by (rule map_numbers)
  also have "\<dots> = map2 op as bs" using assms by (intro nth_equalityI) simp_all
  finally show ?thesis by (simp add: pad_shape_def Let_def bcast_same)
qed

lemma np_and_fits:
  "fits v a \<Longrightarrow> fits v b \<Longrightarrow> \<exists>c. np_logical (\<and>) a b = Inr c \<and> (np_any c \<longleftrightarrow> overlap a b)"
  by (cases a; cases b) (auto simp: np_logical_same list_ex_iff inj_map_eq_map simp del: np_logical.simps(4))

lemma overlap_or_bool:
  assumes "fits v (MArr s bs)" "fits v m"
  shows "overlap (MArr s (map ((\<or>) x) bs)) m \<longleftrightarrow> overlap (MBool x) m \<or> overlap (MArr s bs) m"
proof -
  have l: "length bs = prod_list s" "bs \<noteq> []" "v = KeyAval (map Some s)" using assms by auto
  then have "0 < prod_list s" by (metis length_greater_0_conv)
  with l show ?thesis using assms(2)
    by (cases m; cases x) (auto simp: overlap_arrays list_ex_length inj_map_eq_map simp del: overlap.simps(4))
qed

lemma np_or_fits:
  assumes "fits v a" "fits v b"
  shows "\<exists>c. np_logical (\<or>) a b = Inr c \<and> fits v c \<and> (\<forall>m. fits v m \<longrightarrow> (overlap c m \<longleftrightarrow> overlap a m \<or> overlap b m))"
proof (cases a; cases b)
  fix s as t bs assume ab: "a = MArr s as" "b = MArr t bs"
  then have t: "t = s" "length as = prod_list s" "length bs = prod_list s" using assms by (auto simp: inj_map_eq_map)
  have "overlap (MArr s (map2 (\<or>) as bs)) m \<longleftrightarrow> overlap a m \<or> overlap b m" if "fits v m" for m
    using that t ab assms by (cases m) (auto simp: overlap_arrays list_ex_length inj_map_eq_map simp del: overlap.simps(4))
  then show ?thesis unfolding ab t(1) using t ab assms by (auto simp: np_logical_same simp del: np_logical.simps(4))
next
  fix x s bs assume ab: "a = MBool x" "b = MArr s bs"
  then show ?thesis using assms overlap_or_bool [of v s bs _ x] by simp
next
  fix s as x assume ab: "a = MArr s as" "b = MBool x"
  have flip: "(\<lambda>a. a \<or> x) = (\<or>) x" by (auto simp: fun_eq_iff)
  have fits: "fits v (MArr s as)" using assms(1) unfolding ab .
  have "overlap (MArr s (map ((\<or>) x) as)) m \<longleftrightarrow> overlap a m \<or> overlap b m" if "fits v m" for m
    unfolding ab overlap_or_bool [OF fits that] by (rule disj_commute)
  moreover have "fits v (MArr s (map ((\<or>) x) as))" using fits by simp
  ultimately show ?thesis unfolding ab np_logical.simps flip by blast
next
  fix x y assume ab: "a = MBool x" "b = MBool y"
  have "overlap (MBool (x \<or> y)) m \<longleftrightarrow> overlap a m \<or> overlap b m" for m
    unfolding ab by (cases m) auto
  then show ?thesis unfolding ab by simp
qed

subsection \<open>Origins\<close>

text \<open>The origin of an atom, given the origins of the variables, and the origins that forwards make.\<close>

fun origin_of :: "(kvar \<Rightarrow> katom) \<Rightarrow> katom \<Rightarrow> katom" where
  "origin_of r (AVar v) = r v"
| "origin_of r (ALit x t) = ALit x t"

definition origins :: "(kvar \<times> katom) list \<Rightarrow> (kvar \<Rightarrow> katom) \<Rightarrow> (kvar \<Rightarrow> katom)" where
  "origins fwds r = fold (\<lambda>(v, a) r. r(v := origin_of r a)) fwds r"

text \<open>Forwards made in an order in which no variable is forwarded again after it was used.\<close>

fun forwards_ok :: "(kvar \<times> katom) list \<Rightarrow> bool" where
  "forwards_ok [] = True"
| "forwards_ok ((v, a) # fwds) = (v \<notin> fst ` set fwds \<and> a \<noteq> AVar v \<and> (\<forall>w \<in> fst ` set fwds. a \<noteq> AVar w) \<and> forwards_ok fwds)"

lemma forwards_ok_snoc:
  "forwards_ok (fwds @ [(v, a)]) \<longleftrightarrow> forwards_ok fwds \<and> v \<notin> fst ` set fwds \<and> a \<noteq> AVar v \<and> (\<forall>b \<in> snd ` set fwds. b \<noteq> AVar v)"
  by (induction fwds rule: forwards_ok.induct) auto

lemma resolve_loop_other:
  assumes "\<forall>b \<in> snd ` set fwds. b \<noteq> AVar v" "x \<noteq> AVar v"
  shows "resolve_loop n (fwds @ [(v, a)]) x = resolve_loop n fwds x"
  using assms(2)
proof (induction n arbitrary: x)
  case (Suc n)
  show ?case
  proof (cases x)
    case (AVar w)
    have "map_of (fwds @ [(v, a)]) w = map_of fwds w" using Suc.prems AVar by (simp add: map_add_def split: option.split)
    moreover have "u \<noteq> AVar v" if "map_of fwds w = Some u" for u
      using map_of_SomeD [OF that] assms(1) by force
    ultimately show ?thesis using AVar Suc.IH by (auto split: option.split)
  qed simp
qed simp

text \<open>Following the dictionary arrives at the origin, within the number of steps the source allows.\<close>

lemma resolve_loop_origin:
  "forwards_ok fwds \<Longrightarrow> length fwds < n \<Longrightarrow> resolve_loop n fwds x = Inr (origin_of (origins fwds AVar) x)"
proof (induction fwds arbitrary: n x rule: rev_induct)
  case Nil
  then show ?case by (cases n; cases x) (simp_all add: origins_def)
next
  case (snoc va fwds)
  obtain v a where va: "va = (v, a)" by (cases va)
  with snoc.prems have ok: "forwards_ok fwds" "v \<notin> fst ` set fwds" "a \<noteq> AVar v" "\<forall>b \<in> snd ` set fwds. b \<noteq> AVar v"
    by (simp_all add: forwards_ok_snoc)
  have o: "origins (fwds @ [(v, a)]) AVar = (origins fwds AVar)(v := origin_of (origins fwds AVar) a)" by (simp add: origins_def)
  show ?case
  proof (cases "x = AVar v")
    case True
    obtain k where k: "n = Suc k" "length fwds < k" using snoc.prems(2) by (cases n) auto
    have "map_of fwds v = None" using ok(2) by (simp add: map_of_eq_None_iff)
    then have "map_of (fwds @ [(v, a)]) v = Some a" by (simp add: map_add_def)
    then show ?thesis using True k snoc.IH [OF ok(1) k(2)] resolve_loop_other [OF ok(4,3), of k a] by (simp add: va o del: fun_upd_apply) simp
  next
    case False
    then show ?thesis using snoc.IH [OF ok(1), of n x] snoc.prems(2) resolve_loop_other [OF ok(4) False, of n a]
      by (cases x) (auto simp: va o)
  qed
qed

lemma resolve_forwards_origin:
  "forwards_ok fwds \<Longrightarrow> resolve_forwards fwds x = Inr (origin_of (origins fwds AVar) x)"
  using resolve_loop_origin [of fwds "length fwds + 1" x] by (cases x) (auto simp: resolve_forwards_def origins_def)

subsection \<open>Events\<close>

type_synonym event = "katom \<times> mask"

text \<open>
  What an equation with its signature does to the origins, and the events it makes: its sinks, and
  for an output that is neither a source nor forwarded the consumption of a key nobody may use.
\<close>

definition eqn_forwards :: "keqn \<Rightarrow> signature \<Rightarrow> (kvar \<times> katom) list" where
  "eqn_forwards eqn sig = map (\<lambda>(i, j). (eqn_outvars eqn ! j, eqn_invars eqn ! i)) (sig_forwards sig)"

definition sink_events :: "(kvar \<Rightarrow> katom) \<Rightarrow> keqn \<Rightarrow> signature \<Rightarrow> event list" where
  "sink_events r eqn sig =
     map (\<lambda>(i, m). (origin_of r (eqn_invars eqn ! i), m)) (filter (\<lambda>(i, m). is_key (eqn_invars eqn ! i)) (sig_sinks sig))"

definition new_keys :: "keqn \<Rightarrow> signature \<Rightarrow> kvar list" where
  "new_keys eqn sig = filter (\<lambda>v. is_key (AVar v) \<and> v \<notin> fst ` set (eqn_forwards eqn sig)) (eqn_outvars eqn)"

definition source_keys :: "keqn \<Rightarrow> signature \<Rightarrow> kvar list" where
  "source_keys eqn sig = filter (\<lambda>v. is_key (AVar v)) (map (\<lambda>(i, m). eqn_outvars eqn ! i) (sig_sources sig))"

definition eqn_events :: "(kvar \<Rightarrow> katom) \<Rightarrow> keqn \<Rightarrow> signature \<Rightarrow> event list" where
  "eqn_events r eqn sig =
     sink_events r eqn sig @
     map (\<lambda>v. (AVar v, MBool True)) (filter (\<lambda>v. v \<notin> set (source_keys eqn sig)) (new_keys eqn sig))"

fun events :: "(kvar \<Rightarrow> katom) \<Rightarrow> (keqn \<times> signature) list \<Rightarrow> event list" where
  "events r [] = []"
| "events r ((eqn, sig) # es) = eqn_events r eqn sig @ events (origins (eqn_forwards eqn sig) r) es"

text \<open>No two events take an element of one key.\<close>

definition reuse_free :: "event list \<Rightarrow> bool" where
  "reuse_free evs = sorted_wrt (\<lambda>(a, m) (b, m'). a = b \<longrightarrow> \<not> overlap m m') evs"

text \<open>
  Equations in single-assignment form whose signatures fit: indices in range, keys forwarded to keys
  only, no output both forwarded and a source, sinks that fit the array of keys they take from.
  \<open>B\<close> are the variables bound before. The assertions about consumption that tests make are left out.
\<close>

definition eqn_ok :: "(kvar \<Rightarrow> katom) \<Rightarrow> kvar set \<Rightarrow> keqn \<Rightarrow> signature \<Rightarrow> bool" where
  "eqn_ok r B eqn sig \<longleftrightarrow>
     pname (primitive eqn) \<noteq> ''assert_consumed_value'' \<and>
     set (atom_vars (eqn_invars eqn)) \<subseteq> B \<and> (\<forall>a \<in> set (eqn_invars eqn). is_key a \<longrightarrow> (\<exists>v. a = AVar v)) \<and>
     distinct (eqn_outvars eqn) \<and> set (eqn_outvars eqn) \<inter> B = {} \<and>
     (\<forall>(i, j) \<in> set (sig_forwards sig). i < length (eqn_invars eqn) \<and> j < length (eqn_outvars eqn) \<and>
       (is_key (AVar (eqn_outvars eqn ! j)) \<longrightarrow> is_key (eqn_invars eqn ! i))) \<and>
     distinct (map snd (sig_forwards sig)) \<and>
     (\<forall>(i, m) \<in> set (sig_sinks sig). i < length (eqn_invars eqn) \<and>
       (\<forall>w. is_key (eqn_invars eqn ! i) \<longrightarrow> origin_of r (eqn_invars eqn ! i) = AVar w \<longrightarrow> mask_fits w m)) \<and>
     (\<forall>(i, m) \<in> set (sig_sources sig). i < length (eqn_outvars eqn) \<and> i \<notin> snd ` set (sig_forwards sig))"

fun eqns_ok :: "(kvar \<Rightarrow> katom) \<Rightarrow> kvar set \<Rightarrow> (keqn \<times> signature) list \<Rightarrow> bool" where
  "eqns_ok r B [] = True"
| "eqns_ok r B ((eqn, sig) # es) =
     (eqn_ok r B eqn sig \<and> eqns_ok (origins (eqn_forwards eqn sig) r) (B \<union> set (eqn_outvars eqn)) es)"

subsection \<open>The invariant\<close>

text \<open>The dictionary of consumed keys says which masks overlap an event.\<close>

definition consumed_inv :: "event list \<Rightarrow> reuse_state \<Rightarrow> bool" where
  "consumed_inv evs s \<longleftrightarrow>
     (\<forall>w. mask_fits w (consumed_get s w)) \<and>
     (\<forall>w m. mask_fits w m \<longrightarrow> (overlap (consumed_get s w) m \<longleftrightarrow> (\<exists>m'. (AVar w, m') \<in> set evs \<and> overlap m' m)))"

definition forwards_inv :: "kvar set \<Rightarrow> (kvar \<times> katom) list \<Rightarrow> bool" where
  "forwards_inv B fwds \<longleftrightarrow>
     forwards_ok fwds \<and> fst ` set fwds \<subseteq> B \<and> (\<forall>v. AVar v \<in> snd ` set fwds \<longrightarrow> v \<in> B) \<and>
     (\<forall>v \<in> B. is_key (AVar v) \<longrightarrow> (\<exists>w \<in> B. origins fwds AVar v = AVar w))"

definition reuse_inv :: "kvar set \<Rightarrow> event list \<Rightarrow> reuse_state \<Rightarrow> bool" where
  "reuse_inv B evs s \<longleftrightarrow>
     forwards_inv B (forwards s) \<and> consumed_inv evs s \<and> (\<forall>w. w \<notin> B \<longrightarrow> consumed s w = None) \<and>
     (\<forall>(a, m) \<in> set evs. \<exists>w \<in> B. a = AVar w) \<and> reuse_free evs"

lemma reuse_free_snoc:
  "reuse_free (evs @ [(a, m)]) \<longleftrightarrow> reuse_free evs \<and> \<not> (\<exists>m'. (a, m') \<in> set evs \<and> overlap m' m)"
  by (auto simp: reuse_free_def sorted_wrt_append)

lemma reuse_free_prefix: "reuse_free (evs @ evs') \<Longrightarrow> reuse_free evs"
  by (simp add: reuse_free_def sorted_wrt_append)

text \<open>One sink.\<close>

lemma sink_step:
  assumes inv: "consumed_inv evs s" and f: "forwards_ok (forwards s)" "is_key v"
    and w: "origin_of (origins (forwards s) AVar) v = AVar w" "mask_fits w m"
  shows "if \<exists>m'. (AVar w, m') \<in> set evs \<and> overlap m' m then sink_key v m s = Inr (True, s)
    else \<exists>c. sink_key v m s = Inr (False, s\<lparr>consumed := (consumed s)(w \<mapsto> c)\<rparr>) \<and>
      consumed_inv (evs @ [(AVar w, m)]) (s\<lparr>consumed := (consumed s)(w \<mapsto> c)\<rparr>)"
proof -
  have fits: "mask_fits w (consumed_get s w)" and iff: "overlap (consumed_get s w) m \<longleftrightarrow> (\<exists>m'. (AVar w, m') \<in> set evs \<and> overlap m' m)"
    using inv w(2) by (auto simp: consumed_inv_def)
  obtain both where both: "np_logical (\<and>) (consumed_get s w) m = Inr both" "np_any both \<longleftrightarrow> overlap (consumed_get s w) m"
    using np_and_fits [OF fits w(2)] by blast
  obtain c where c: "np_logical (\<or>) (consumed_get s w) m = Inr c" "mask_fits w c"
    "\<forall>m'. mask_fits w m' \<longrightarrow> (overlap c m' \<longleftrightarrow> overlap (consumed_get s w) m' \<or> overlap m m')"
    using np_or_fits [OF fits w(2)] by blast
  let ?s = "s\<lparr>consumed := (consumed s)(w \<mapsto> c)\<rparr>"
  have "consumed_get ?s u = (if u = w then c else consumed_get s u)" for u by (simp add: consumed_get_def)
  then have "consumed_inv (evs @ [(AVar w, m)]) ?s" using inv c(2,3) unfolding consumed_inv_def by auto
  moreover have "sink_key v m s = (if np_any both then Inr (True, s) else Inr (False, ?s))"
    unfolding sink_key_def resolve_forwards_origin [OF f(1)] w(1) using f(2) both(1) c(1) by simp
  ultimately show ?thesis using both(2) iff by auto
qed

text \<open>All sinks of an equation.\<close>

definition sink_loop :: "katom list \<Rightarrow> (nat \<times> mask) list \<Rightarrow> reuse_state \<Rightarrow> reuse_state res" where
  "sink_loop ins = rfold (\<lambda>(idx, m) s.
     if \<not> idx < length ins then Inl KeyReuseError
     else rbind (sink_key (ins ! idx) m s) (\<lambda>(reused, s). if reused then Inl KeyReuseError else Inr s))"

definition sink_events_of :: "(kvar \<Rightarrow> katom) \<Rightarrow> katom list \<Rightarrow> (nat \<times> mask) list \<Rightarrow> event list" where
  "sink_events_of r ins sk = map (\<lambda>(i, m). (origin_of r (ins ! i), m)) (filter (\<lambda>(i, m). is_key (ins ! i)) sk)"

lemma sinks_step:
  assumes "consumed_inv evs s" "forwards_ok (forwards s)" "reuse_free evs"
    and "\<forall>(i, m) \<in> set sk. i < length ins \<and> (is_key (ins ! i) \<longrightarrow>
      (\<exists>w. origin_of (origins (forwards s) AVar) (ins ! i) = AVar w \<and> mask_fits w m))"
  defines "new \<equiv> sink_events_of (origins (forwards s) AVar) ins sk"
  shows "if reuse_free (evs @ new)
    then \<exists>c. sink_loop ins sk s = Inr (s\<lparr>consumed := c\<rparr>) \<and> consumed_inv (evs @ new) (s\<lparr>consumed := c\<rparr>) \<and>
      (\<forall>w. AVar w \<notin> fst ` set new \<longrightarrow> c w = consumed s w)
    else sink_loop ins sk s = Inl KeyReuseError"
  using assms(1-4) unfolding new_def
proof (induction sk arbitrary: evs s)
  case Nil
  then show ?case by (auto simp: sink_events_of_def sink_loop_def intro: exI [of _ "consumed s"])
next
  case (Cons im sk)
  obtain i m where im: "im = (i, m)" by (cases im)
  let ?r = "origins (forwards s) AVar"
  have i: "i < length ins" using Cons.prems(4) im by auto
  show ?case
  proof (cases "is_key (ins ! i)")
    case False
    then have "sink_key (ins ! i) m s = Inr (False, s)" by (simp add: sink_key_def)
    then have "sink_loop ins (im # sk) s = sink_loop ins sk s" using i im by (simp add: sink_loop_def)
    moreover have "sink_events_of ?r ins (im # sk) = sink_events_of ?r ins sk" using False im by (simp add: sink_events_of_def)
    ultimately show ?thesis using Cons.IH [OF Cons.prems(1-3)] Cons.prems(4) by simp
  next
    case True
    then obtain w where w: "origin_of ?r (ins ! i) = AVar w" "mask_fits w m" using Cons.prems(4) im by auto
    let ?rest = "sink_events_of ?r ins sk"
    have new: "sink_events_of ?r ins (im # sk) = (AVar w, m) # ?rest" using True w im by (simp add: sink_events_of_def)
    note step = sink_step [OF Cons.prems(1,2) True w]
    show ?thesis
    proof (cases "\<exists>m'. (AVar w, m') \<in> set evs \<and> overlap m' m")
      case True
      then have "\<not> reuse_free (evs @ [(AVar w, m)])" by (simp add: reuse_free_snoc)
      then have "\<not> reuse_free (evs @ (AVar w, m) # ?rest)" using reuse_free_prefix [of "evs @ [(AVar w, m)]" ?rest] by auto
      moreover have "sink_loop ins (im # sk) s = Inl KeyReuseError" using step True i im by (simp add: sink_loop_def)
      ultimately show ?thesis unfolding new by simp
    next
      case False
      then obtain c where c: "sink_key (ins ! i) m s = Inr (False, s\<lparr>consumed := (consumed s)(w \<mapsto> c)\<rparr>)"
        "consumed_inv (evs @ [(AVar w, m)]) (s\<lparr>consumed := (consumed s)(w \<mapsto> c)\<rparr>)"
        using step unfolding if_not_P [OF False] by blast
      let ?s = "s\<lparr>consumed := (consumed s)(w \<mapsto> c)\<rparr>"
      have run: "sink_loop ins (im # sk) s = sink_loop ins sk ?s" using c(1) i im by (simp add: sink_loop_def)
      have "reuse_free (evs @ [(AVar w, m)])" using False Cons.prems(3) by (simp add: reuse_free_snoc)
      moreover have fs: "forwards ?s = forwards s" by simp
      moreover have "\<forall>(i, m) \<in> set sk. i < length ins \<and> (is_key (ins ! i) \<longrightarrow>
          (\<exists>w. origin_of (origins (forwards ?s) AVar) (ins ! i) = AVar w \<and> mask_fits w m))"
        using Cons.prems(4) unfolding fs by auto
      moreover have "forwards_ok (forwards ?s)" using Cons.prems(2) by simp
      ultimately have ih: "if reuse_free (evs @ (AVar w, m) # ?rest)
        then \<exists>d. sink_loop ins sk ?s = Inr (?s\<lparr>consumed := d\<rparr>) \<and> consumed_inv (evs @ (AVar w, m) # ?rest) (?s\<lparr>consumed := d\<rparr>) \<and>
          (\<forall>u. AVar u \<notin> fst ` set ?rest \<longrightarrow> d u = consumed ?s u)
        else sink_loop ins sk ?s = Inl KeyReuseError"
        using Cons.IH [OF c(2)] unfolding fs append_assoc append.simps by blast
      show ?thesis
      proof (cases "reuse_free (evs @ (AVar w, m) # ?rest)")
        case True
        from ih [unfolded if_P [OF this]] obtain d where d: "sink_loop ins sk ?s = Inr (?s\<lparr>consumed := d\<rparr>)"
          "consumed_inv (evs @ (AVar w, m) # ?rest) (?s\<lparr>consumed := d\<rparr>)"
          "\<forall>u. AVar u \<notin> fst ` set ?rest \<longrightarrow> d u = consumed ?s u" by blast
        then show ?thesis unfolding new run using True by (auto intro!: exI [of _ d])
      next
        case False
        then show ?thesis unfolding new run using ih by simp
      qed
    qed
  qed
qed

text \<open>The forwards of an equation extend the dictionary.\<close>

lemma dict_set_new: "k \<notin> fst ` set d \<Longrightarrow> dict_set d k v = d @ [(k, v)]"
  by (induction d k v rule: dict_set.induct) auto

lemma forwards_loop:
  assumes "\<forall>(i, j) \<in> set fw. i < length ins \<and> j < length outs" "distinct (map snd fw)" "distinct outs"
    and "\<forall>(i, j) \<in> set fw. outs ! j \<notin> fst ` set (forwards s)"
  shows "rfold (\<lambda>(in_idx, out_idx) s.
      rbind (seq_get outs out_idx) (\<lambda>outvar. rbind (seq_get ins in_idx) (\<lambda>invar.
      Inr (s\<lparr>forwards := dict_set (forwards s) outvar invar\<rparr>)))) fw s
    = Inr (s\<lparr>forwards := forwards s @ map (\<lambda>(i, j). (outs ! j, ins ! i)) fw\<rparr>)"
  using assms
proof (induction fw arbitrary: s)
  case (Cons ij fw)
  obtain i j where ij: "ij = (i, j)" by (cases ij)
  let ?s = "s\<lparr>forwards := forwards s @ [(outs ! j, ins ! i)]\<rparr>"
  have "outs ! j' \<noteq> outs ! j" if "(i', j') \<in> set fw" for i' j'
    using that Cons.prems(1-3) ij by (force simp: nth_eq_iff_index_eq image_iff)
  then have "\<forall>(i, j) \<in> set fw. outs ! j \<notin> fst ` set (forwards ?s)" using Cons.prems(4) by auto
  from Cons.IH [OF _ _ _ this] show ?case using Cons.prems ij by (simp add: seq_get_def dict_set_new)
qed simp

lemma origins_other: "v \<notin> fst ` set fwds \<Longrightarrow> origins fwds r v = r v"
  unfolding origins_def by (induction fwds arbitrary: r) auto

lemma origins_append: "origins (fwds @ fwds') r = origins fwds' (origins fwds r)"
  by (simp add: origins_def)

lemma origins_new:
  assumes "distinct (map fst fwds)" "\<forall>w \<in> fst ` set fwds. AVar w \<notin> snd ` set fwds" "(v, a) \<in> set fwds"
  shows "origins fwds r v = origin_of r a"
  using assms
proof (induction fwds arbitrary: r)
  case (Cons ua fwds)
  obtain u b where ub: "ua = (u, b)" by (cases ua)
  show ?case
  proof (cases "(v, a) = (u, b)")
    case True
    then have "v \<notin> fst ` set fwds" using Cons.prems(1) ub by simp
    then show ?thesis using True ub origins_other [of v fwds] by (simp add: origins_def)
  next
    case False
    then have "(v, a) \<in> set fwds" using Cons.prems(3) ub by auto
    moreover have "a \<noteq> AVar u" using Cons.prems(2,3) ub by force
    then have "origin_of (r(u := origin_of r b)) a = origin_of r a" by (cases a) auto
    moreover have "\<forall>w \<in> fst ` set fwds. AVar w \<notin> snd ` set fwds" using Cons.prems(2) by auto
    ultimately show ?thesis using Cons.IH [of "r(u := origin_of r b)"] Cons.prems(1) ub by (simp add: origins_def del: fun_upd_apply)
  qed
qed simp

lemma forwards_ok_append:
  assumes "forwards_ok fwds" "distinct (map fst new)" "fst ` set new \<inter> B = {}" "fst ` set fwds \<subseteq> B"
    and "\<forall>v. AVar v \<in> snd ` set (fwds @ new) \<longrightarrow> v \<in> B"
  shows "forwards_ok (fwds @ new)"
  using assms(2,3,5)
proof (induction new rule: rev_induct)
  case Nil
  then show ?case using assms(1) by simp
next
  case (snoc va new)
  obtain v a where va: "va = (v, a)" by (cases va)
  have "forwards_ok (fwds @ new)" using snoc by auto
  moreover have "v \<notin> fst ` set (fwds @ new)" using snoc.prems(1,2) va assms(4) by auto
  moreover have "v \<notin> B" using snoc.prems(2) va by auto
  then have "\<forall>b \<in> snd ` set (fwds @ new @ [va]). b \<noteq> AVar v" using snoc.prems(3) by metis
  ultimately show ?case using va forwards_ok_snoc [of "fwds @ new" v a] by auto
qed

subsection \<open>One equation\<close>

definition mark :: "mask \<Rightarrow> kvar list \<Rightarrow> (kvar \<rightharpoonup> mask) \<Rightarrow> (kvar \<rightharpoonup> mask)" where
  "mark m vs c = (\<lambda>w. if w \<in> set vs then Some m else c w)"

lemma source_key_new:
  assumes "forwards_ok (forwards s)" "v \<notin> fst ` set (forwards s)"
  shows "source_key (AVar v) m s = Inr (if is_key (AVar v) then s\<lparr>consumed := (consumed s)(v \<mapsto> m)\<rparr> else s)"
  by (simp add: source_key_def resolve_forwards_origin [OF assms(1)] origins_other [OF assms(2)])

lemma outputs_loop:
  assumes "forwards_ok (forwards s)"
  shows "rfold (\<lambda>v s. if v \<in> fst ` set (forwards s) then Inr s else source_key (AVar v) (MBool True) s) outs s
    = Inr (s\<lparr>consumed := mark (MBool True) (filter (\<lambda>v. is_key (AVar v) \<and> v \<notin> fst ` set (forwards s)) outs) (consumed s)\<rparr>)"
  using assms
proof (induction outs arbitrary: s)
  case Nil
  then show ?case by (simp add: mark_def)
next
  case (Cons v outs)
  let ?s = "if is_key (AVar v) \<and> v \<notin> fst ` set (forwards s) then s\<lparr>consumed := (consumed s)(v \<mapsto> MBool True)\<rparr> else s"
  have f: "forwards ?s = forwards s" by simp
  have "(if v \<in> fst ` set (forwards s) then Inr s else source_key (AVar v) (MBool True) s) = Inr ?s"
    using source_key_new [OF Cons.prems] by simp
  then show ?case using Cons.IH [of ?s] Cons.prems unfolding f by (auto simp: mark_def fun_eq_iff)
qed

lemma sources_loop:
  assumes "forwards_ok (forwards s)" "\<forall>(i, m) \<in> set src. i < length outs \<and> outs ! i \<notin> fst ` set (forwards s)"
  shows "rfold (\<lambda>(idx, m) s. if \<not> idx < length outs then Inl KeyReuseError else source_key (AVar (outs ! idx)) (MBool False) s) src s
    = Inr (s\<lparr>consumed := mark (MBool False) (filter (\<lambda>v. is_key (AVar v)) (map (\<lambda>(i, m). outs ! i) src)) (consumed s)\<rparr>)"
  using assms
proof (induction src arbitrary: s)
  case Nil
  then show ?case by (simp add: mark_def)
next
  case (Cons im src)
  obtain i m where im: "im = (i, m)" by (cases im)
  let ?v = "outs ! i"
  let ?s = "if is_key (AVar ?v) then s\<lparr>consumed := (consumed s)(?v \<mapsto> MBool False)\<rparr> else s"
  have f: "forwards ?s = forwards s" by simp
  have i: "i < length outs" "?v \<notin> fst ` set (forwards s)" using Cons.prems(2) im by auto
  have "source_key (AVar ?v) (MBool False) s = Inr ?s" using source_key_new [OF Cons.prems(1) i(2)] by simp
  then show ?case using Cons.IH [of ?s] Cons.prems im i(1) unfolding f by (auto simp: mark_def fun_eq_iff)
qed

lemma overlap_False [simp]: "\<not> overlap (MBool False) m"
  by (cases m) simp_all

lemma marked_inv:
  assumes inv: "consumed_inv evs (s\<lparr>consumed := d\<rparr>)" and fresh: "\<And>v. v \<in> set srcs \<union> set news \<Longrightarrow> AVar v \<notin> fst ` set evs"
  shows "consumed_inv (evs @ map (\<lambda>v. (AVar v, MBool True)) (filter (\<lambda>v. v \<notin> set srcs) news))
    (s\<lparr>consumed := mark (MBool False) srcs (mark (MBool True) news d)\<rparr>)"
proof -
  let ?e = "s\<lparr>consumed := mark (MBool False) srcs (mark (MBool True) news d)\<rparr>"
  have get: "consumed_get ?e w = (if w \<in> set srcs then MBool False else if w \<in> set news then MBool True
      else consumed_get (s\<lparr>consumed := d\<rparr>) w)" for w
    by (simp add: consumed_get_def mark_def)
  have no: "(AVar w, m') \<notin> set evs" if "w \<in> set srcs \<or> w \<in> set news" for w m' using that fresh [of w] by force
  show ?thesis using inv no unfolding consumed_inv_def get by (auto simp: image_iff)
qed

lemma reuse_free_fresh:
  assumes "reuse_free evs" "distinct vs" "\<forall>v \<in> set vs. AVar v \<notin> fst ` set evs"
  shows "reuse_free (evs @ map (\<lambda>v. (AVar v, MBool True)) vs)"
  using assms(2,3)
proof (induction vs rule: rev_induct)
  case Nil
  then show ?case using assms(1) by simp
next
  case (snoc v vs)
  then have "reuse_free (evs @ map (\<lambda>v. (AVar v, MBool True)) vs)" by simp
  moreover have "\<not> (\<exists>m'. (AVar v, m') \<in> set (evs @ map (\<lambda>v. (AVar v, MBool True)) vs) \<and> overlap m' (MBool True))"
    using snoc.prems by force
  ultimately show ?case using reuse_free_snoc [of "evs @ map (\<lambda>v. (AVar v, MBool True)) vs" "AVar v" "MBool True"] by simp
qed

text \<open>What holds of the forwards of an equation in single-assignment form.\<close>

lemma eqn_forwards_facts:
  assumes f: "forwards_inv B fwds" and ok: "eqn_ok (origins fwds AVar) B eqn sig"
  defines "new \<equiv> eqn_forwards eqn sig"
  shows "distinct (map fst new)" "fst ` set new \<subseteq> set (eqn_outvars eqn)" "snd ` set new \<subseteq> set (eqn_invars eqn)"
    "forwards_ok (fwds @ new)"
    "a \<in> set (eqn_invars eqn) \<Longrightarrow> origin_of (origins (fwds @ new) AVar) a = origin_of (origins fwds AVar) a"
    "forwards_inv (B \<union> set (eqn_outvars eqn)) (fwds @ new)"
proof -
  let ?outs = "eqn_outvars eqn" and ?ins = "eqn_invars eqn"
  have io: "i < length ?ins \<and> j < length ?outs" if "(i, j) \<in> set (sig_forwards sig)" for i j
    using ok that by (auto simp: eqn_ok_def)
  have d: "distinct ?outs" "distinct (map snd (sig_forwards sig))" "set ?outs \<inter> B = {}" using ok by (simp_all add: eqn_ok_def)
  have "map fst new = map ((!) ?outs) (map snd (sig_forwards sig))" by (simp add: new_def eqn_forwards_def comp_def split_beta)
  then show distinct: "distinct (map fst new)"
    using d(1,2) io by (force simp: distinct_map inj_on_def nth_eq_iff_index_eq)
  show outs: "fst ` set new \<subseteq> set ?outs" and ins: "snd ` set new \<subseteq> set ?ins"
    using io by (auto simp: new_def eqn_forwards_def)
  have insB: "v \<in> B" if "AVar v \<in> set ?ins" for v using that ok by (auto simp: eqn_ok_def set_atom_vars)
  have atoms: "v \<in> B" if "AVar v \<in> snd ` set (fwds @ new)" for v
    using that insB ins f unfolding forwards_inv_def by (auto 0 3)
  have disj: "fst ` set new \<inter> B = {}" using outs d(3) by auto
  show okn: "forwards_ok (fwds @ new)"
    using forwards_ok_append [OF _ distinct disj] f atoms by (simp add: forwards_inv_def)
  have same: "origins (fwds @ new) AVar v = origins fwds AVar v" if "v \<in> B" for v
    using that disj origins_other [of v new] unfolding origins_append by blast
  show "origin_of (origins (fwds @ new) AVar) a = origin_of (origins fwds AVar) a" if a: "a \<in> set ?ins"
  proof (cases a rule: atom.exhaust)
    case (AVar v)
    then show ?thesis using same [OF insB] a by simp
  qed simp
  have key: "\<exists>w \<in> B \<union> set ?outs. origins (fwds @ new) AVar v = AVar w" if v: "v \<in> B \<union> set ?outs" "is_key (AVar v)" for v
  proof (cases "v \<in> B")
    case True
    then show ?thesis using f v(2) same unfolding forwards_inv_def by fastforce
  next
    case False
    then have none: "v \<notin> fst ` set fwds" using f by (auto simp: forwards_inv_def)
    show ?thesis
    proof (cases "v \<in> fst ` set new")
      case True
      then obtain i j where ij: "(i, j) \<in> set (sig_forwards sig)" "v = ?outs ! j" "(v, ?ins ! i) \<in> set new"
        by (force simp: new_def eqn_forwards_def)
      have "is_key (?ins ! i)" "?ins ! i \<in> set ?ins" using ok ij(1,2) v(2) io [OF ij(1)] by (auto simp: eqn_ok_def)
      moreover from this obtain u where u: "?ins ! i = AVar u" using ok by (auto simp: eqn_ok_def)
      ultimately have "u \<in> B" "is_key (AVar u)" using insB by auto
      moreover have "\<forall>w \<in> fst ` set new. AVar w \<notin> snd ` set new" using disj atoms by auto
      then have "origins (fwds @ new) AVar v = origins fwds AVar u"
        using origins_new [OF distinct _ ij(3), of "origins fwds AVar"] u by (simp add: origins_append)
      ultimately show ?thesis using f by (auto simp: forwards_inv_def)
    next
      case new: False
      have "origins (fwds @ new) AVar v = AVar v"
        using origins_other [of v "fwds @ new" AVar] none new by auto
      then show ?thesis using v(1) by blast
    qed
  qed
  then show "forwards_inv (B \<union> set ?outs) (fwds @ new)"
    using okn f outs atoms unfolding forwards_inv_def by auto
qed

text \<open>An equation is accepted when its events overlap no other.\<close>

lemma eqn_step:
  assumes inv: "reuse_inv B evs s" and ok: "eqn_ok (origins (forwards s) AVar) B eqn sig"
  defines "new \<equiv> eqn_events (origins (forwards s) AVar) eqn sig"
  shows "if reuse_free (evs @ new)
    then \<exists>s'. check_eqn_reuse eqn sig s = Inr s' \<and> reuse_inv (B \<union> set (eqn_outvars eqn)) (evs @ new) s' \<and>
      forwards s' = forwards s @ eqn_forwards eqn sig
    else check_eqn_reuse eqn sig s = Inl KeyReuseError"
proof -
  let ?r = "origins (forwards s) AVar" and ?outs = "eqn_outvars eqn" and ?ins = "eqn_invars eqn" and ?fw = "eqn_forwards eqn sig"
  let ?B = "B \<union> set ?outs"
  have f: "forwards_inv B (forwards s)" and c: "consumed_inv evs s" and none: "\<And>w. w \<notin> B \<Longrightarrow> consumed s w = None"
    and evB: "\<And>a m. (a, m) \<in> set evs \<Longrightarrow> \<exists>w \<in> B. a = AVar w" and free: "reuse_free evs"
    using inv by (auto simp: reuse_inv_def)
  note F = eqn_forwards_facts [OF f ok]
  have outs: "distinct ?outs" "set ?outs \<inter> B = {}" using ok by (simp_all add: eqn_ok_def)
  have keysB: "fst ` set (forwards s) \<subseteq> B" using f by (simp add: forwards_inv_def)
  define s1 where "s1 = s\<lparr>forwards := forwards s @ ?fw\<rparr>"
  have r1: "origins (forwards s1) AVar = origins (forwards s @ ?fw) AVar" by (simp add: s1_def)
  have sepB: "v \<notin> fst ` set (forwards s)" if "v \<in> set ?outs" for v using that outs(2) keysB by blast
  have fwd: "i < length ?ins \<and> j < length ?outs" if "(i, j) \<in> set (sig_forwards sig)" for i j using ok that by (auto simp: eqn_ok_def)
  have step1: "rfold (\<lambda>(in_idx, out_idx) s.
      rbind (seq_get ?outs out_idx) (\<lambda>outvar. rbind (seq_get ?ins in_idx) (\<lambda>invar.
      Inr (s\<lparr>forwards := dict_set (forwards s) outvar invar\<rparr>)))) (sig_forwards sig) s = Inr s1"
    unfolding s1_def eqn_forwards_def
  proof (rule forwards_loop)
    show "distinct (map snd (sig_forwards sig))" using ok by (simp add: eqn_ok_def)
    show "\<forall>(i, j) \<in> set (sig_forwards sig). ?outs ! j \<notin> fst ` set (forwards s)" using fwd sepB nth_mem by blast
  qed (use fwd outs(1) in auto)
  have sinkB: "\<exists>w \<in> B. origin_of ?r (?ins ! i) = AVar w" if i: "i < length ?ins" "is_key (?ins ! i)" for i
  proof -
    obtain u where "?ins ! i = AVar u" using ok i nth_mem [OF i(1)] by (auto simp: eqn_ok_def)
    moreover from this have "u \<in> B" using ok nth_mem [OF i(1)] by (auto simp: eqn_ok_def set_atom_vars)
    ultimately show ?thesis using f i(2) by (auto simp: forwards_inv_def)
  qed
  have same: "origin_of (origins (forwards s1) AVar) (?ins ! i) = origin_of ?r (?ins ! i)" if "i < length ?ins" for i
    unfolding r1 using F(5) nth_mem [OF that] .
  define se where "se = sink_events ?r eqn sig"
  have idx: "i < length ?ins" if "(i, m) \<in> set (sig_sinks sig)" for i m using ok that by (auto simp: eqn_ok_def)
  have se: "sink_events_of (origins (forwards s1) AVar) ?ins (sig_sinks sig) = se"
    unfolding se_def sink_events_def sink_events_of_def using same idx by (intro map_cong refl) auto
  have seB: "\<exists>w \<in> B. a = AVar w" if "(a, m) \<in> set se" for a m
    using that sinkB idx unfolding se_def sink_events_def by auto
  have "\<forall>(i, m) \<in> set (sig_sinks sig). i < length ?ins \<and> (is_key (?ins ! i) \<longrightarrow>
      (\<exists>w. origin_of (origins (forwards s1) AVar) (?ins ! i) = AVar w \<and> mask_fits w m))"
    using idx same sinkB ok by (fastforce simp: eqn_ok_def)
  moreover have "consumed_inv evs s1" using c by (simp add: consumed_inv_def consumed_get_def s1_def)
  ultimately have sinks: "if reuse_free (evs @ se)
    then \<exists>c. sink_loop ?ins (sig_sinks sig) s1 = Inr (s1\<lparr>consumed := c\<rparr>) \<and> consumed_inv (evs @ se) (s1\<lparr>consumed := c\<rparr>) \<and>
      (\<forall>w. AVar w \<notin> fst ` set se \<longrightarrow> c w = consumed s1 w)
    else sink_loop ?ins (sig_sinks sig) s1 = Inl KeyReuseError"
    using sinks_step [of evs s1 "sig_sinks sig" ?ins] F(4) free unfolding se by (simp add: s1_def)
  define dead where "dead = filter (\<lambda>v. v \<notin> set (source_keys eqn sig)) (new_keys eqn sig)"
  have new: "new = se @ map (\<lambda>v. (AVar v, MBool True)) dead" by (simp add: new_def eqn_events_def se_def dead_def)
  have deadO: "set dead \<subseteq> set ?outs" "distinct dead" using outs(1) by (auto simp: dead_def new_keys_def)
  have fresh: "AVar v \<notin> fst ` set (evs @ se)" if "v \<in> set ?outs" for v
    using that outs(2) evB seB by fastforce
  have all_free: "reuse_free (evs @ new) \<longleftrightarrow> reuse_free (evs @ se)"
  proof
    assume "reuse_free (evs @ new)"
    then show "reuse_free (evs @ se)" unfolding new append_assoc [symmetric] by (rule reuse_free_prefix)
  next
    assume "reuse_free (evs @ se)"
    then show "reuse_free (evs @ new)" unfolding new append_assoc [symmetric] using deadO fresh by (intro reuse_free_fresh) blast+
  qed
  have run: "check_eqn_reuse eqn sig s = rbind (sink_loop ?ins (sig_sinks sig) s1) (\<lambda>s.
      rbind (rfold (\<lambda>v s. if v \<in> fst ` set (forwards s) then Inr s else source_key (AVar v) (MBool True) s) ?outs s) (\<lambda>s.
      rfold (\<lambda>(idx, m) s. if \<not> idx < length ?outs then Inl KeyReuseError else source_key (AVar (?outs ! idx)) (MBool False) s)
        (sig_sources sig) s))"
    using ok unfolding check_eqn_reuse_def step1 sink_loop_def by (simp add: eqn_ok_def)
  show ?thesis
  proof (cases "reuse_free (evs @ new)")
    case False
    then show ?thesis using sinks run all_free by simp
  next
    case True
    from sinks True all_free obtain d where d: "sink_loop ?ins (sig_sinks sig) s1 = Inr (s1\<lparr>consumed := d\<rparr>)"
      "consumed_inv (evs @ se) (s1\<lparr>consumed := d\<rparr>)" "\<And>w. AVar w \<notin> fst ` set se \<Longrightarrow> d w = consumed s w"
      by (auto simp: s1_def)
    define e where "e = mark (MBool False) (source_keys eqn sig) (mark (MBool True) (new_keys eqn sig) d)"
    let ?keys = "fst ` set (forwards s @ ?fw)"
    have new_keys: "filter (\<lambda>v. is_key (AVar v) \<and> v \<notin> ?keys) ?outs = new_keys eqn sig"
      unfolding new_keys_def using sepB by (intro filter_cong refl) auto
    have src: "i < length ?outs \<and> ?outs ! i \<notin> ?keys" if im: "(i, m) \<in> set (sig_sources sig)" for i m
    proof -
      have i: "i < length ?outs" "i \<notin> snd ` set (sig_forwards sig)" using ok im by (auto simp: eqn_ok_def)
      then have "?outs ! i \<notin> fst ` set ?fw"
        using outs(1) fwd by (force simp: eqn_forwards_def nth_eq_iff_index_eq)
      then show ?thesis using i(1) sepB [OF nth_mem [OF i(1)]] by auto
    qed
    have s1: "forwards s1 = forwards s @ ?fw" by (simp add: s1_def)
    have fields: "forwards (s1\<lparr>consumed := c\<rparr>) = forwards s @ ?fw" "consumed (s1\<lparr>consumed := c\<rparr>) = c"
      "s1\<lparr>consumed := c, consumed := c'\<rparr> = s1\<lparr>consumed := c'\<rparr>" for c c'
      by (simp_all add: s1)
    let ?mid = "mark (MBool True) (new_keys eqn sig) d"
    have outputs: "rfold (\<lambda>v s. if v \<in> fst ` set (forwards s) then Inr s else source_key (AVar v) (MBool True) s) ?outs (s1\<lparr>consumed := d\<rparr>)
        = Inr (s1\<lparr>consumed := ?mid\<rparr>)"
      using outputs_loop [of "s1\<lparr>consumed := d\<rparr>" ?outs] F(4) unfolding fields new_keys by blast
    have sources: "rfold (\<lambda>(idx, m) s. if \<not> idx < length ?outs then Inl KeyReuseError else source_key (AVar (?outs ! idx)) (MBool False) s)
        (sig_sources sig) (s1\<lparr>consumed := ?mid\<rparr>) = Inr (s1\<lparr>consumed := e\<rparr>)"
      using sources_loop [of "s1\<lparr>consumed := ?mid\<rparr>" "sig_sources sig" ?outs] F(4) src
      unfolding fields e_def source_keys_def by blast
    have result: "check_eqn_reuse eqn sig s = Inr (s1\<lparr>consumed := e\<rparr>)"
      unfolding run d(1) rbind_Inr outputs sources ..
    have sub: "set (source_keys eqn sig) \<subseteq> set ?outs" "set (new_keys eqn sig) \<subseteq> set ?outs"
      using src by (auto simp: source_keys_def new_keys_def)
    have inv': "consumed_inv (evs @ new) (s1\<lparr>consumed := e\<rparr>)"
      using marked_inv [OF d(2), of "source_keys eqn sig" "new_keys eqn sig"] fresh sub unfolding new e_def dead_def append_assoc by blast
    have "e w = None" if w: "w \<notin> ?B" for w
    proof -
      have "AVar w \<notin> fst ` set se" using w seB by force
      then have "d w = None" using d(3) none w by simp
      then show ?thesis using w sub by (auto simp: e_def mark_def)
    qed
    moreover have "\<forall>(a, m) \<in> set (evs @ new). \<exists>w \<in> ?B. a = AVar w"
      using evB seB deadO(1) unfolding new by fastforce
    ultimately have "reuse_inv ?B (evs @ new) (s1\<lparr>consumed := e\<rparr>)"
      using F(6) inv' True by (simp add: reuse_inv_def s1)
    then show ?thesis using True result by (simp add: s1_def)
  qed
qed

subsection \<open>All equations\<close>

fun bound_after :: "kvar set \<Rightarrow> keqn list \<Rightarrow> kvar set" where
  "bound_after B [] = B"
| "bound_after B (eqn # es) = bound_after (B \<union> set (eqn_outvars eqn)) es"

definition all_forwards :: "(keqn \<times> signature) list \<Rightarrow> (kvar \<times> katom) list" where
  "all_forwards es = concat (map (\<lambda>(eqn, sig). eqn_forwards eqn sig) es)"

lemma eqns_step:
  assumes "reuse_inv B evs s" "eqns_ok (origins (forwards s) AVar) B es" "\<forall>(eqn, sig) \<in> set es. sig_of eqn = Inr sig"
  defines "new \<equiv> events (origins (forwards s) AVar) es"
  shows "if reuse_free (evs @ new)
    then \<exists>s'. check_eqns_reuse sig_of (map fst es) s = Inr s' \<and> reuse_inv (bound_after B (map fst es)) (evs @ new) s' \<and>
      forwards s' = forwards s @ all_forwards es
    else check_eqns_reuse sig_of (map fst es) s = Inl KeyReuseError"
  using assms(1-3) unfolding new_def
proof (induction es arbitrary: B evs s)
  case Nil
  then have "reuse_free evs" by (simp add: reuse_inv_def)
  with Nil show ?case by (simp add: all_forwards_def)
next
  case (Cons es1 es)
  obtain eqn sig where es1: "es1 = (eqn, sig)" by (cases es1)
  let ?r = "origins (forwards s) AVar"
  let ?new = "eqn_events ?r eqn sig" and ?rest = "events (origins (eqn_forwards eqn sig) ?r) es"
  have sig: "sig_of eqn = Inr sig" and ok: "eqn_ok ?r B eqn sig"
    and oks: "eqns_ok (origins (forwards s @ eqn_forwards eqn sig) AVar) (B \<union> set (eqn_outvars eqn)) es"
    using Cons.prems(2,3) by (simp_all add: es1 origins_append)
  have run: "check_eqns_reuse sig_of (map fst (es1 # es)) s = rbind (check_eqn_reuse eqn sig s) (check_eqns_reuse sig_of (map fst es))"
    using sig by (simp add: es1)
  have new: "evs @ events ?r (es1 # es) = (evs @ ?new) @ ?rest" by (simp add: es1)
  note step = eqn_step [OF Cons.prems(1) ok]
  show ?case
  proof (cases "reuse_free (evs @ ?new)")
    case False
    then have "\<not> reuse_free ((evs @ ?new) @ ?rest)" using reuse_free_prefix by blast
    then show ?thesis using step False unfolding run new by simp
  next
    case True
    from step [unfolded if_P [OF this]] obtain s' where s': "check_eqn_reuse eqn sig s = Inr s'"
      "reuse_inv (B \<union> set (eqn_outvars eqn)) (evs @ ?new) s'" "forwards s' = forwards s @ eqn_forwards eqn sig" by blast
    have rest: "events (origins (forwards s') AVar) es = ?rest" by (simp add: s'(3) origins_append)
    have fw: "forwards s' @ all_forwards es = forwards s @ all_forwards (es1 # es)" by (simp add: s'(3) all_forwards_def es1)
    have b: "bound_after (B \<union> set (eqn_outvars eqn)) (map fst es) = bound_after B (map fst (es1 # es))" by (simp add: es1)
    have run': "check_eqns_reuse sig_of (map fst (es1 # es)) s = check_eqns_reuse sig_of (map fst es) s'" unfolding run s'(1) by simp
    show ?thesis
      using Cons.IH [OF s'(2), unfolded s'(3), OF oks, folded s'(3)] Cons.prems(3) unfolding rest fw b run' new by simp
  qed
qed

lemma events_origins:
  "reuse_inv B [] \<lparr>consumed = Map.empty, forwards = []\<rparr>"
  by (simp add: reuse_inv_def forwards_inv_def consumed_inv_def consumed_get_def origins_def reuse_free_def)

text \<open>The equations of a jaxpr, with their signatures.\<close>

definition signed_eqns :: "kjaxpr \<Rightarrow> (keqn \<times> signature) list \<Rightarrow> bool" where
  "signed_eqns jaxpr es \<longleftrightarrow>
     map fst es = eqns jaxpr \<and>
     (\<forall>(eqn, sig) \<in> set es. key_reuse_signature_from_eqn jaxpr_type_signature eqn = Inr sig) \<and>
     eqns_ok AVar (set (invars jaxpr @ constvars jaxpr)) es"

lemma jaxpr_step:
  assumes "signed_eqns jaxpr es"
  defines "B \<equiv> bound_after (set (invars jaxpr @ constvars jaxpr)) (eqns jaxpr)"
  shows "if reuse_free (events AVar es)
    then \<exists>s. check_eqns_reuse (key_reuse_signature_from_eqn jaxpr_type_signature) (eqns jaxpr) \<lparr>consumed = Map.empty, forwards = []\<rparr> = Inr s \<and>
      reuse_inv B (events AVar es) s \<and> forwards s = all_forwards es
    else check_eqns_reuse (key_reuse_signature_from_eqn jaxpr_type_signature) (eqns jaxpr) \<lparr>consumed = Map.empty, forwards = []\<rparr> = Inl KeyReuseError"
proof -
  have o: "origins [] AVar = AVar" by (simp add: origins_def)
  have m: "map fst es = eqns jaxpr" using assms(1) by (simp add: signed_eqns_def)
  show ?thesis
    using eqns_step [OF events_origins [of "set (invars jaxpr @ constvars jaxpr)"], of es "key_reuse_signature_from_eqn jaxpr_type_signature"] assms(1)
    unfolding signed_eqns_def B_def m reuse_state.simps o append.simps by blast
qed

end
