(* ===== verification/KeyReuseCalls.thy ===== *)
theory KeyReuseCalls
  imports KeyReuseCorrect
begin

text \<open>
  The checks around a call at run time: what a call with a signature is refused for, and what it
  leaves consumed.
\<close>

lemma in_sig_sinks: "(i, m) \<in> set (sig_sinks sig) \<longleftrightarrow> Sink i m \<in> set sig"
  by (auto simp: sig_sinks_def split: sig_entry.splits intro!: bexI [of _ "Sink i m"])

text \<open>Sinks in range whose masks fit the arrays of keys, which have the abstract values \<open>av\<close>.\<close>

definition sinks_fit :: "(nat \<Rightarrow> key_aval) \<Rightarrow> signature \<Rightarrow> nat option list \<Rightarrow> bool" where
  "sinks_fit av sig args \<longleftrightarrow>
     (\<forall>(i, m) \<in> set (sig_sinks sig). i < length args \<and> (\<forall>k. args ! i = Some k \<longrightarrow> fits (av k) m))"

definition consumes_key :: "signature \<Rightarrow> nat option list \<Rightarrow> nat \<Rightarrow> mask \<Rightarrow> bool" where
  "consumes_key sig args k m \<longleftrightarrow> (\<exists>i m'. Sink i m' \<in> set sig \<and> args ! i = Some k \<and> overlap m' m)"

lemma check_sink_fits:
  assumes "i < length args" "\<forall>k. args ! i = Some k \<longrightarrow> fits (av k) m \<and> fits (av k) (st k)"
  shows "check_sink args st (i, m) =
    (if \<exists>k. args ! i = Some k \<and> overlap (st k) m then Inl KeyReuseError else Inr ())"
proof (cases "args ! i")
  case None
  then show ?thesis using assms(1) by (simp add: check_sink_def seq_get_def)
next
  case (Some k)
  obtain both where "np_logical (\<and>) (st k) m = Inr both" "np_any both \<longleftrightarrow> overlap (st k) m"
    using np_and_fits [of "av k"] assms(2) Some by blast
  then show ?thesis using assms(1) Some by (simp add: check_sink_def seq_get_def)
qed

lemma check_signature_iff:
  assumes "sinks_fit av sig args" "\<forall>k. Some k \<in> set args \<longrightarrow> fits (av k) (st k)"
  shows "check_signature sig args st =
    (if \<exists>i m k. Sink i m \<in> set sig \<and> args ! i = Some k \<and> overlap (st k) m then Inl KeyReuseError else Inr ())"
proof -
  have "rfold (\<lambda>snk _. check_sink args st snk) sk u =
      (if \<exists>(i, m) \<in> set sk. \<exists>k. args ! i = Some k \<and> overlap (st k) m then Inl KeyReuseError else Inr ())"
    if "set sk \<subseteq> set (sig_sinks sig)" for sk u
    using that
  proof (induction sk arbitrary: u)
    case (Cons im sk)
    obtain i m where im: "im = (i, m)" by (cases im)
    have "check_sink args st (i, m) = (if \<exists>k. args ! i = Some k \<and> overlap (st k) m then Inl KeyReuseError else Inr ())"
    proof (rule check_sink_fits [where av = av])
      have i: "i < length args" "\<forall>k. args ! i = Some k \<longrightarrow> fits (av k) m"
        using assms(1) Cons.prems im by (auto simp: sinks_fit_def)
      then show "i < length args" by simp
      have "args ! i \<in> set args" using i(1) by simp
      then show "\<forall>k. args ! i = Some k \<longrightarrow> fits (av k) m \<and> fits (av k) (st k)" using i(2) assms(2) by metis
    qed
    then show ?case using Cons by (simp add: im)
  qed simp
  moreover have "(\<exists>(i, m) \<in> set (sig_sinks sig). \<exists>k. args ! i = Some k \<and> overlap (st k) m) \<longleftrightarrow>
      (\<exists>i m k. Sink i m \<in> set sig \<and> args ! i = Some k \<and> overlap (st k) m)"
    unfolding in_sig_sinks [symmetric] by blast
  ultimately show ?thesis by (simp add: check_signature_def)
qed

text \<open>What the sinks of a call add to the store.\<close>

lemma update_sink_fits:
  assumes "i < length args" "\<forall>k. args ! i = Some k \<longrightarrow> fits (av k) m" "\<forall>k. fits (av k) (st k)"
  shows "\<exists>st'. update_sink args (i, m) st = Inr st' \<and> (\<forall>k. fits (av k) (st' k)) \<and>
    (\<forall>k m'. fits (av k) m' \<longrightarrow> (overlap (st' k) m' \<longleftrightarrow> overlap (st k) m' \<or> args ! i = Some k \<and> overlap m m'))"
proof (cases "args ! i")
  case None
  then show ?thesis using assms(1,3) by (simp add: update_sink_def seq_get_def)
next
  case (Some k)
  obtain c where c: "np_logical (\<or>) (st k) m = Inr c" "fits (av k) c"
    "\<forall>m'. fits (av k) m' \<longrightarrow> (overlap c m' \<longleftrightarrow> overlap (st k) m' \<or> overlap m m')"
    using np_or_fits [of "av k"] assms(2,3) Some by blast
  then show ?thesis using assms(1,3) Some by (simp add: update_sink_def seq_get_def)
qed

lemma update_sinks:
  assumes "\<forall>(i, m) \<in> set sk. i < length args \<and> (\<forall>k. args ! i = Some k \<longrightarrow> fits (av k) m)" "\<forall>k. fits (av k) (st k)"
  shows "\<exists>st'. rfold (update_sink args) sk st = Inr st' \<and> (\<forall>k. fits (av k) (st' k)) \<and>
    (\<forall>k m. fits (av k) m \<longrightarrow>
      (overlap (st' k) m \<longleftrightarrow> overlap (st k) m \<or> (\<exists>i m'. (i, m') \<in> set sk \<and> args ! i = Some k \<and> overlap m' m)))"
  using assms
proof (induction sk arbitrary: st)
  case (Cons im sk)
  obtain i m where im: "im = (i, m)" by (cases im)
  obtain st1 where st1: "update_sink args (i, m) st = Inr st1" "\<forall>k. fits (av k) (st1 k)"
    "\<And>k m'. fits (av k) m' \<Longrightarrow> overlap (st1 k) m' \<longleftrightarrow> overlap (st k) m' \<or> args ! i = Some k \<and> overlap m m'"
    using update_sink_fits [of i args av m st] Cons.prems im by auto
  obtain st' where st': "rfold (update_sink args) sk st1 = Inr st'" "\<forall>k. fits (av k) (st' k)"
    "\<And>k m. fits (av k) m \<Longrightarrow> overlap (st' k) m \<longleftrightarrow> overlap (st1 k) m \<or> (\<exists>i m'. (i, m') \<in> set sk \<and> args ! i = Some k \<and> overlap m' m)"
    using Cons.IH [OF _ st1(2)] Cons.prems(1) by auto
  have "overlap (st' k) m2 \<longleftrightarrow> overlap (st k) m2 \<or> (\<exists>i m'. (i, m') \<in> set (im # sk) \<and> args ! i = Some k \<and> overlap m' m2)"
    if "fits (av k) m2" for k m2
    using st'(3) [OF that] st1(3) [OF that] unfolding im by auto
  then show ?case using st'(1,2) st1(1) by (simp add: im)
qed auto

lemma update_rest:
  assumes "update_consumption sig args outs st = Inr st'" "Some k \<notin> set outs"
    and mid: "rfold (update_sink args) (sig_sinks sig) st = Inr st1"
  shows "st' k = st1 k"
proof -
  have k2: "fold update_result outs st1 k = st1 k"
    using assms(2) by (induction outs arbitrary: st1) (auto simp: update_result_def split: option.splits)
  obtain st3 where st3: "rfold (update_source outs) (sig_sources sig) (fold update_result outs st1) = Inr st3"
    and st': "rfold (update_forward args outs) (sig_forwards sig) st3 = Inr st'"
    using assms(1) by (auto simp: update_consumption_def mid res_simps)
  have no: "outs ! j \<noteq> Some k" if "j < length outs" for j using nth_mem [OF that] assms(2) by auto
  have "st3 k = st1 k"
    by (rule rfold_invariant [OF st3, where P = "\<lambda>st. st k = st1 k"])
      (use k2 no in \<open>auto simp: update_source_def seq_get_def res_simps split: option.splits if_splits\<close>)
  moreover have keep: "update_forward args outs ij st = Inr st'' \<Longrightarrow> st'' k = st k" for ij st st''
    using no by (cases ij) (auto simp: update_forward_def seq_get_def res_simps split: if_split_asm option.split_asm)
  ultimately show ?thesis by (intro rfold_invariant [OF st', where P = "\<lambda>st. st k = st1 k"]) (simp, metis keep)
qed

lemma update_consumption_effect:
  assumes "update_consumption sig args outs st = Inr st'" "Some k \<notin> set outs"
    and "sinks_fit av sig args" "\<forall>k. fits (av k) (st k)"
  shows "fits (av k) (st' k)"
    "fits (av k) m \<Longrightarrow> overlap (st' k) m \<longleftrightarrow> overlap (st k) m \<or> consumes_key sig args k m"
  using update_sinks [of "sig_sinks sig" args av st] assms(3,4) update_rest [OF assms(1,2)]
  by (auto simp: sinks_fit_def in_sig_sinks consumes_key_def)

end
