(* ===== verification/KeyReuseExamples.thy ===== *)
theory KeyReuseExamples
  imports KeyReuseCalls
begin

text \<open>Jaxprs with keys, on which the properties are evaluated, and programs the checker is wrong about.\<close>

definition kprim :: "string \<Rightarrow> prim" where
  "kprim name = \<lparr>pname = name, multiple_results = False, call_primitive = False, ref_primitive = False, ref_allocating = False\<rparr>"

text \<open>Variables for one key, and for an array of other values.\<close>

definition kv :: "nat \<Rightarrow> kvar" where "kv n = Var n (KeyAval []) None"
definition av :: "nat \<Rightarrow> kvar" where "av n = Var n ArrayAval None"

definition app_with :: "string \<Rightarrow> kvar list \<Rightarrow> kvar list \<Rightarrow> (string \<times> (key_param, key_aval) param) list \<Rightarrow> keqn" where
  "app_with name ins outs ps = JaxprEqn (map AVar ins) outs (kprim name) ps {}"

abbreviation app :: "string \<Rightarrow> kvar list \<Rightarrow> kvar list \<Rightarrow> keqn" where
  "app name ins outs \<equiv> app_with name ins outs []"

abbreviation key_fun :: "kvar list \<Rightarrow> keqn list \<Rightarrow> kvar list \<Rightarrow> kjaxpr" where
  "key_fun ins es outs \<equiv> Jaxpr [] ins (map AVar outs) es {}"

text \<open>A call whose body splits its key, draws from the new key and returns it reshaped.\<close>

definition split_draw :: "keqn list" where
  "split_draw = [app ''random_split'' [kv 0] [kv 1], app ''random_bits'' [kv 1] [av 2], app ''reshape'' [kv 1] [kv 3]]"

definition nested :: kjaxpr where
  "nested = key_fun [kv 10]
     [app_with ''jit'' [kv 10] [kv 11] [(''jaxpr'', PClosed (key_fun [kv 0] split_draw [kv 3]) [])],
      app ''random_bits'' [kv 11] [av 12]] [av 12]"

definition inlined :: kjaxpr where
  "inlined = key_fun [kv 0] (split_draw @ [app ''random_bits'' [kv 3] [av 12]]) [av 12]"

text \<open>The equations of \<open>inlined\<close> with their signatures, and a jaxpr that uses its keys once.\<close>

definition inlined_signed :: "(keqn \<times> signature) list" where
  "inlined_signed = zip (eqns inlined) [[sink_all 0, source_all 0], [sink_all 0], [Forward 0 0], [sink_all 0]]"

definition draw_once :: kjaxpr where
  "draw_once = key_fun [kv 0, kv 5]
     [app ''random_split'' [kv 0] [kv 1], app ''reshape'' [kv 1] [kv 3], app ''random_bits'' [kv 3] [av 2],
      app ''reshape'' [kv 5] [kv 6]] [kv 6]"

definition draw_once_signed :: "(keqn \<times> signature) list" where
  "draw_once_signed = zip (eqns draw_once) [[sink_all 0, source_all 0], [Forward 0 0], [sink_all 0], [Forward 0 0]]"

text \<open>A conditional: one branch returns a fresh key, the other draws from its key and returns it.\<close>

definition draw_branch :: "keqn list" where
  "draw_branch = [app ''random_bits'' [kv 0] [av 1]]"

definition branching :: kjaxpr where
  "branching = key_fun [av 10, kv 11]
     [app_with ''cond'' [av 10, kv 11] [kv 12]
        [(''branches'', PTuple
           [PClosed (key_fun [kv 0] [app ''random_split'' [kv 0] [kv 1]] [kv 1]) [],
            PClosed (key_fun [kv 0] draw_branch [kv 0]) []])],
      app ''random_bits'' [kv 12] [av 13]] [av 13]"

definition branch_inlined :: kjaxpr where
  "branch_inlined = key_fun [kv 0] (draw_branch @ [app ''random_bits'' [kv 0] [av 13]]) [av 13]"

text \<open>A loop that splits its key; its condition has \<open>n\<close> constants. The key is used again after it.\<close>

definition split_body :: kjaxpr where
  "split_body = key_fun [kv 0] [app ''random_split'' [kv 0] [kv 1]] [kv 1]"

definition while_eqn :: "nat \<Rightarrow> keqn" where
  "while_eqn n = app_with ''while'' (map av [20..<20 + n] @ [kv 10]) [kv 11]
     [(''cond_jaxpr'', PClosed (key_fun (map av [0..<n] @ [kv 30]) [] [av 0]) []), (''cond_nconsts'', PVal (KInt n)),
      (''body_jaxpr'', PClosed split_body []), (''body_nconsts'', PVal (KInt 0))]"

definition looping :: "nat \<Rightarrow> kjaxpr" where
  "looping n = key_fun (map av [20..<20 + n] @ [kv 10]) [while_eqn n, app ''random_bits'' [kv 10] [av 12]] [av 12]"

text \<open>A scan over \<open>split_draw\<close>, and its first two iterations written out.\<close>

definition scanning :: kjaxpr where
  "scanning = key_fun [kv 10]
     [app_with ''scan'' [kv 10] [kv 11]
        [(''jaxpr'', PClosed (key_fun [kv 0] split_draw [kv 3]) []), (''num_consts'', PVal (KInt 0)), (''num_carry'', PVal (KInt 1))]]
     [kv 11]"

definition scan_unrolled :: kjaxpr where
  "scan_unrolled = key_fun [kv 0]
     (split_draw @ [app ''random_split'' [kv 3] [kv 4], app ''random_bits'' [kv 4] [av 5], app ''reshape'' [kv 4] [kv 6]]) [kv 6]"

named_theorems example_simps

lemmas example_jaxprs [example_simps] = kprim_def kv_def av_def app_with_def split_draw_def nested_def inlined_def
  inlined_signed_def draw_once_def draw_once_signed_def draw_branch_def branching_def branch_inlined_def
  split_body_def while_eqn_def looping_def scanning_def scan_unrolled_def

lemmas example_checker [example_simps] = check_key_reuse_jaxpr_def jaxpr_type_signature.simps jaxpr_type_signature_body_def
  check_eqn_reuse_def key_reuse_signature_from_eqn_def key_reuse_signatures_def Let_def sig_sinks_def sig_forwards_def
  sig_sources_def seq_get_def sink_key_def source_key_def resolve_forwards_def consumed_get_def jit_signature_def
  the_param_def input_sinks_def output_entry_def enumerate_eq_zip mk_signature_def

lemma inlined_signed_ok: "signed_eqns inlined inlined_signed"
  by (simp add: signed_eqns_def eqn_ok_def eqn_forwards_def example_simps)

lemma draw_once_signed_ok: "signed_eqns draw_once draw_once_signed"
  by (simp add: signed_eqns_def eqn_ok_def eqn_forwards_def example_simps)

lemma draw_once_signature: "jaxpr_type_signature draw_once = Inr [sink_all 0, Forward 1 0]"
  by (simp add: example_simps)

subsection \<open>Reuse that is accepted\<close>

text \<open>
  A key that a call made, used and returned under another name counts as fresh after the call: the
  signature looks up the output itself instead of the key it is. Written out, the same program is
  rejected.
\<close>

theorem call_hides_reuse:
  "check_key_reuse_jaxpr nested = Inr () \<and> check_key_reuse_jaxpr inlined = Inl KeyReuseError"
  by (simp add: example_simps)

text \<open>An output that only one branch makes fresh counts as fresh, though the other branch returns a used key.\<close>

theorem branch_hides_reuse:
  "check_key_reuse_jaxpr branching = Inr () \<and> check_key_reuse_jaxpr branch_inlined = Inl KeyReuseError"
  by (simp add: example_simps cond_signature_def group_masks_def)

text \<open>With a constant of its condition, a loop no longer consumes the key it is given.\<close>

theorem loop_hides_reuse:
  "check_key_reuse_jaxpr (looping 1) = Inr () \<and> check_key_reuse_jaxpr (looping 0) = Inl KeyReuseError"
  by (simp add: example_simps while_signature_def)

text \<open>
  For the same reason a scan is accepted whose body returns a key it has used: the next iteration uses
  it again, and with two iterations written out the program is rejected.
\<close>

theorem scan_hides_reuse:
  "check_key_reuse_jaxpr scanning = Inr () \<and> check_key_reuse_jaxpr scan_unrolled = Inl KeyReuseError"
  by (simp add: example_simps scan_signature_def)

end
