(* ===== verification/KeyReuseProps.thy ===== *)
theory KeyReuseProps
  imports KeyReuseExamples
begin

text \<open>
  The properties of the key reuse checker: it decides exactly whether the equations of a jaxpr use a
  key twice, its signatures are true, and run-time consumption is
  remembered; with programs that it accepts although they use a key twice.
\<close>

subsection \<open>Signatures of jaxprs\<close>

lemma rmap_Inl: "rmap f xs = Inl e \<Longrightarrow> \<exists>x \<in> set xs. f x = Inl e"
  by (induction xs) (auto simp: res_simps)

lemma rmap_source: "rmap f xs = Inr ys \<Longrightarrow> y \<in> set ys \<Longrightarrow> \<exists>x. f x = Inr y"
  by (auto simp: rmap_Inr_iff in_set_conv_nth)

lemma output_entry_not_reuse:
  assumes "forwards_ok (forwards s)"
  shows "output_entry all_inputs s x \<noteq> Inl KeyReuseError"
proof -
  obtain i v where x: "x = (i, v)" by (cases x)
  have "np_truth m \<noteq> Inl KeyReuseError" for m by (cases m) (auto split: list.splits)
  then show ?thesis
    unfolding x output_entry_def prod.case resolve_forwards_origin [OF assms]
    by (auto simp: res_simps split: atom.splits option.splits)
qed

lemma index_of_eq:
  "distinct xs \<Longrightarrow> index_of x xs = Some k \<longleftrightarrow> k < length xs \<and> xs ! k = x"
proof (induction xs arbitrary: k)
  case (Cons y xs)
  show ?case
  proof (cases k)
    case 0
    then show ?thesis by auto
  next
    case (Suc n)
    then show ?thesis using Cons by (cases "x = y") (auto dest: nth_mem)
  qed
qed simp

text \<open>The entries that an output makes.\<close>

lemma output_entry_Inr:
  assumes f: "forwards_ok (forwards s)" and d: "distinct all_inputs" and e: "output_entry all_inputs s (i, v) = Inr es"
  defines "r \<equiv> origin_of (origins (forwards s) AVar) v"
  shows "Forward k j \<in> set es \<longleftrightarrow> is_key v \<and> j = i \<and> k < length all_inputs \<and> r = AVar (all_inputs ! k)"
    "Sink k m \<notin> set es"
proof -
  define x where "x = (case r of AVar w \<Rightarrow> index_of w all_inputs | ALit _ _ \<Rightarrow> None)"
  have x: "x = Some n \<longleftrightarrow> n < length all_inputs \<and> r = AVar (all_inputs ! n)" for n
    unfolding x_def using index_of_eq [OF d] by (auto split: atom.split)
  have run: "output_entry all_inputs s (i, v) = (if \<not> is_key v then Inr []
      else case x of Some k \<Rightarrow> Inr [Forward k i]
        | None \<Rightarrow> (case v of
              ALit _ _ \<Rightarrow> Inl (TypeError ''unhashable type'')
            | AVar u \<Rightarrow> rbind (np_truth (consumed_get s u)) (\<lambda>used. Inr (if used then [] else [source_all i]))))"
    unfolding output_entry_def prod.case resolve_forwards_origin [OF f] rbind_Inr x_def r_def ..
  have cases: "\<not> is_key v \<and> es = [] \<or> is_key v \<and> (case x of Some k \<Rightarrow> es = [Forward k i] | None \<Rightarrow> es = [] \<or> es = [source_all i])"
    using e unfolding run by (cases x; cases v) (auto simp: res_simps split: if_splits)
  show "Forward k j \<in> set es \<longleftrightarrow> is_key v \<and> j = i \<and> k < length all_inputs \<and> r = AVar (all_inputs ! k)"
    using cases unfolding x [symmetric] by (cases x) auto
  show "Sink k m \<notin> set es" using cases by (cases x) auto
qed

lemma overlap_mk_mask:
  assumes "fits a c" "fits a m"
  shows "overlap (mk_mask c) m \<longleftrightarrow> overlap c m"
proof (cases c)
  case (MArr shape bs)
  consider "list_all id bs" | "\<not> list_ex id bs" | "mk_mask c = c"
    using MArr by (cases "list_all id bs"; cases "list_ex id bs") auto
  then show ?thesis
  proof cases
    case 1
    then have m: "mk_mask c = MBool True" using MArr by simp
    show ?thesis
    proof (cases m)
      case (MBool b)
      have "list_ex id bs" using 1 assms(1) MArr by (cases bs) auto
      then show ?thesis unfolding \<open>mk_mask c = MBool True\<close> MArr MBool by simp
    next
      case (MArr t cs)
      then have "length cs = length bs" using assms \<open>c = MArr shape bs\<close> by (auto simp: inj_map_eq_map)
      then show ?thesis using 1 unfolding m MArr \<open>c = MArr shape bs\<close> overlap_arrays
        by (auto simp: list_ex_length list_all_length)
    qed
  next
    case 2
    then have "\<not> overlap c m" using MArr by (cases m) (auto simp: list_ex_length list_ex_zip)
    moreover have "\<not> list_all id bs" using 2 assms(1) MArr by (cases bs) auto
    then have "mk_mask c = MBool False" using 2 MArr by simp
    ultimately show ?thesis by simp
  qed simp
qed simp

lemma signature_of_state:
  assumes "signed_eqns jaxpr es" "jaxpr_type_signature jaxpr = Inr sig"
  obtains s outs where "reuse_inv (bound_after (set (invars jaxpr @ constvars jaxpr)) (eqns jaxpr)) (events AVar es) s"
    "forwards s = all_forwards es"
    "rmap (output_entry (invars jaxpr @ constvars jaxpr) s) (enumerate 0 (outvars jaxpr)) = Inr outs"
    "set sig = set (input_sinks (invars jaxpr @ constvars jaxpr) s) \<union> \<Union> (set ` set outs)"
proof -
  obtain s outs where s: "check_eqns_reuse (key_reuse_signature_from_eqn jaxpr_type_signature) (eqns jaxpr) \<lparr>consumed = Map.empty, forwards = []\<rparr> = Inr s"
    "rmap (output_entry (invars jaxpr @ constvars jaxpr) s) (enumerate 0 (outvars jaxpr)) = Inr outs"
    "sig = mk_signature (input_sinks (invars jaxpr @ constvars jaxpr) s @ concat outs)"
    using assms(2) by (auto simp: jaxpr_type_signature.simps jaxpr_type_signature_body_def res_simps Let_def)
  have "reuse_inv (bound_after (set (invars jaxpr @ constvars jaxpr)) (eqns jaxpr)) (events AVar es) s \<and> forwards s = all_forwards es"
    using jaxpr_step [OF assms(1)] s(1) by (auto split: if_splits)
  moreover have "set sig = set (input_sinks (invars jaxpr @ constvars jaxpr) s) \<union> \<Union> (set ` set outs)"
    by (simp add: s(3) mk_signature_def)
  ultimately show ?thesis using that s(2) by blast
qed

text \<open>
  C37: On a jaxpr in single-assignment form whose equations have fitting signatures, the checker
  raises \<^verbatim>\<open>KeyReuseError\<close> if and only if two of the events of its equations consume an element of the
  same key, where keys are followed through forwards to the variable they were first bound to.
\<close>

theorem key_reuse_detected_exactly:
  assumes "signed_eqns jaxpr es"
  shows "check_key_reuse_jaxpr jaxpr = Inl KeyReuseError \<longleftrightarrow> \<not> reuse_free (events AVar es)"
proof (cases "reuse_free (events AVar es)")
  case False
  then show ?thesis
    using jaxpr_step [OF assms] by (simp add: check_key_reuse_jaxpr_def jaxpr_type_signature.simps jaxpr_type_signature_body_def)
next
  case True
  from jaxpr_step [OF assms, unfolded if_P [OF this]] obtain s where
    s: "check_eqns_reuse (key_reuse_signature_from_eqn jaxpr_type_signature) (eqns jaxpr) \<lparr>consumed = Map.empty, forwards = []\<rparr> = Inr s"
    and "forwards_ok (forwards s)" by (auto simp: reuse_inv_def forwards_inv_def)
  then have "rmap (output_entry (invars jaxpr @ constvars jaxpr) s) (enumerate 0 (outvars jaxpr)) \<noteq> Inl KeyReuseError"
    using rmap_Inl output_entry_not_reuse by blast
  then show ?thesis
    using True by (auto simp: check_key_reuse_jaxpr_def jaxpr_type_signature.simps jaxpr_type_signature_body_def s res_simps Let_def)
qed

theorem key_reuse_detected_exactly_witness:
  "check_key_reuse_jaxpr inlined = Inl KeyReuseError \<and> \<not> reuse_free (events AVar inlined_signed)"
  using key_reuse_detected_exactly [OF inlined_signed_ok] call_hides_reuse by blast

text \<open>
  C38: The sinks of the signature that the checker computes for a jaxpr are what its equations
  consume of its inputs: the mask of an input's sink overlaps elements if and only if an event does.
\<close>

theorem signature_reports_consumption:
  assumes "signed_eqns jaxpr es" "jaxpr_type_signature jaxpr = Inr sig"
    and "i < length (invars jaxpr @ constvars jaxpr)" "is_key (AVar v)" "v = (invars jaxpr @ constvars jaxpr) ! i" "mask_fits v e"
    and "distinct (invars jaxpr @ constvars jaxpr)"
  shows "(\<exists>m. Sink i m \<in> set sig \<and> overlap m e) \<longleftrightarrow> (\<exists>m. (AVar v, m) \<in> set (events AVar es) \<and> overlap m e)"
proof -
  let ?ins = "invars jaxpr @ constvars jaxpr"
  obtain s outs where s: "reuse_inv (bound_after (set ?ins) (eqns jaxpr)) (events AVar es) s"
    "rmap (output_entry ?ins s) (enumerate 0 (outvars jaxpr)) = Inr outs"
    "set sig = set (input_sinks ?ins s) \<union> \<Union> (set ` set outs)"
    using signature_of_state [OF assms(1,2)] by metis
  have f: "forwards_ok (forwards s)" and c: "consumed_inv (events AVar es) s"
    using s(1) by (auto simp: reuse_inv_def forwards_inv_def)
  have no: "Sink i m \<notin> set es'" if "es' \<in> set outs" for m es'
  proof -
    obtain x where "output_entry ?ins s x = Inr es'" using rmap_source [OF s(2) \<open>es' \<in> set outs\<close>] by blast
    then show ?thesis using output_entry_Inr(2) [OF f assms(7)] by (cases x) simp
  qed
  have fits: "mask_fits v (consumed_get s v)" and get: "overlap (consumed_get s v) e \<longleftrightarrow> (\<exists>m. (AVar v, m) \<in> set (events AVar es) \<and> overlap m e)"
    using c assms(6) by (auto simp: consumed_inv_def)
  have any: "np_any (consumed_get s v)" if "overlap (consumed_get s v) e"
    using that by (cases "consumed_get s v"; cases e) (auto simp: list_ex_zip list_ex_length)
  have "Sink i m \<in> set sig \<longleftrightarrow> np_any (consumed_get s v) \<and> m = mk_mask (consumed_get s v)" for m
    using no assms(3,4) unfolding s(3) input_sinks_def assms(5)
    by (auto simp: in_set_enumerate_eq image_iff)
  then show ?thesis using overlap_mk_mask [OF fits assms(6)] get any by auto
qed

theorem signature_reports_consumption_witness:
  "\<exists>m. (AVar (kv 0), m) \<in> set (events AVar draw_once_signed) \<and> overlap m (MBool True)"
  using signature_reports_consumption [OF draw_once_signed_ok draw_once_signature, of 0 "kv 0" "MBool True"]
  by (auto simp: example_jaxprs)

text \<open>
  C39: The forwards of the signature are the outputs that are an input again: \<^verbatim>\<open>Forward(k, j)\<close> is in it
  if and only if output \<open>j\<close> is a key whose origin is input \<open>k\<close>.
\<close>

theorem signature_reports_forwards:
  assumes "signed_eqns jaxpr es" "jaxpr_type_signature jaxpr = Inr sig" "distinct (invars jaxpr @ constvars jaxpr)"
  shows "Forward k j \<in> set sig \<longleftrightarrow> j < length (outvars jaxpr) \<and> is_key (outvars jaxpr ! j) \<and>
    k < length (invars jaxpr @ constvars jaxpr) \<and>
    origin_of (origins (all_forwards es) AVar) (outvars jaxpr ! j) = AVar ((invars jaxpr @ constvars jaxpr) ! k)"
proof -
  let ?ins = "invars jaxpr @ constvars jaxpr"
  obtain s outs where s: "reuse_inv (bound_after (set ?ins) (eqns jaxpr)) (events AVar es) s" "forwards s = all_forwards es"
    "rmap (output_entry ?ins s) (enumerate 0 (outvars jaxpr)) = Inr outs"
    "set sig = set (input_sinks ?ins s) \<union> \<Union> (set ` set outs)"
    using signature_of_state [OF assms(1,2)] by metis
  have f: "forwards_ok (forwards s)" using s(1) by (auto simp: reuse_inv_def forwards_inv_def)
  have outs: "length outs = length (outvars jaxpr)" "\<And>i. i < length outs \<Longrightarrow> output_entry ?ins s (i, outvars jaxpr ! i) = Inr (outs ! i)"
    using s(3) by (auto simp: rmap_Inr_iff nth_enumerate_eq)
  note entry = output_entry_Inr(1) [OF f assms(3) outs(2), of _ k j, unfolded s(2)]
  have "Forward k j \<notin> set (input_sinks ?ins s)" by (auto simp: input_sinks_def)
  then have "Forward k j \<in> set sig \<longleftrightarrow> (\<exists>i < length outs. Forward k j \<in> set (outs ! i))"
    unfolding s(4) by (auto simp: in_set_conv_nth Bex_def)
  then show ?thesis using entry outs(1) by auto
qed

theorem signature_reports_forwards_witness:
  "origin_of (origins (all_forwards draw_once_signed) AVar) (AVar (kv 6)) = AVar (kv 5)"
  using signature_reports_forwards [OF draw_once_signed_ok draw_once_signature, of 1 0]
  by (simp add: draw_once_def kv_def)

subsection \<open>Calls at run time\<close>

text \<open>
  C40: What a checked call consumes is remembered: the check of a later call, on key arrays that are not
  results of the first, fails if and only if one of its sinks overlaps what was consumed before the
  first call or what the first call consumed.
\<close>

theorem consumption_is_remembered:
  assumes "call_impl_with_key_reuse_checks (Some sig) raw args st = Inr (outs, st')"
    and "raw st = Inr (outs, st1)" "\<forall>k. Some k \<notin> set outs \<longrightarrow> st1 k = st k" "\<forall>k. fits (aval k) (st1 k)"
    and "sinks_fit aval sig args" "sinks_fit aval sig2 args2" "\<forall>k. Some k \<in> set args2 \<longrightarrow> Some k \<notin> set outs"
  shows "check_signature sig2 args2 st' =
    (if \<exists>i m k. Sink i m \<in> set sig2 \<and> args2 ! i = Some k \<and> (overlap (st k) m \<or> consumes_key sig args k m)
     then Inl KeyReuseError else Inr ())"
proof -
  have upd: "update_consumption sig args outs st1 = Inr st'"
    using assms(1,2) by (auto simp: call_impl_with_key_reuse_checks_def res_simps)
  have effect: "fits (aval k) (st' k)" "fits (aval k) m \<Longrightarrow> overlap (st' k) m \<longleftrightarrow> overlap (st k) m \<or> consumes_key sig args k m"
    if "Some k \<in> set args2" for k m
    using update_consumption_effect [OF upd _ assms(5,4), of k] assms(3,7) that by auto
  have "(\<exists>i m k. Sink i m \<in> set sig2 \<and> args2 ! i = Some k \<and> overlap (st' k) m) \<longleftrightarrow>
      (\<exists>i m k. Sink i m \<in> set sig2 \<and> args2 ! i = Some k \<and> (overlap (st k) m \<or> consumes_key sig args k m))"
  proof (intro iff_exI conj_cong refl)
    fix i m k assume s: "Sink i m \<in> set sig2" "args2 ! i = Some k"
    then have "i < length args2" "fits (aval k) m" using assms(6) by (auto simp: sinks_fit_def in_sig_sinks [symmetric])
    with s effect(2) [of k m] nth_mem [of i args2]
    show "overlap (st' k) m \<longleftrightarrow> overlap (st k) m \<or> consumes_key sig args k m" by simp
  qed
  then show ?thesis using check_signature_iff [OF assms(6), of st'] effect(1) by simp
qed

theorem consumption_is_remembered_witness:
  "check_signature [sink_all 0] [Some 7] ((\<lambda>_. MBool False)(7 := MBool True)) = Inl KeyReuseError"
proof -
  let ?raw = "\<lambda>st. Inr ([None], st) :: (nat option list \<times> key_store) res"
  have "call_impl_with_key_reuse_checks (Some [sink_all 0]) ?raw [Some 7] (\<lambda>_. MBool False) = Inr ([None], (\<lambda>_. MBool False)(7 := MBool True))"
    by (simp add: call_impl_with_key_reuse_checks_def check_signature_def check_sink_def update_consumption_def update_sink_def
      update_result_def sig_sinks_def sig_sources_def sig_forwards_def seq_get_def)
  from consumption_is_remembered [OF this, of "\<lambda>_. MBool False" "\<lambda>_. NoDtype" "[sink_all 0]" "[Some 7]"]
  show ?thesis by (auto simp: sinks_fit_def sig_sinks_def consumes_key_def)
qed

end
