(* ===== verification/GpuBarrier.thy ===== *)
theory GpuBarrier
  imports RaceState PyUtil
begin

text \<open>
  Barriers of the GPU interpreter (\<^verbatim>\<open>pallas/mosaic_gpu/interpret/shared_memory.py\<close>, and the callbacks on
  them of \<^verbatim>\<open>gpu_callbacks.py\<close>). A barrier completes a phase at every \<open>num_arrivals\<close>-th arrival; a thread
  waits for one phase after the other. A section under a lock is one definition; waiting on the
  condition variable is the value \<open>None\<close>. Buffers are those of the base class, opaque here.
\<close>

subsection \<open>Barriers\<close>

record barrier =
  bar_ref_count :: int
  num_participating_threads :: nat
  num_arrivals :: int
  arrivals_count :: int
  phase :: int
  next_awaited_phase_by_thread :: "int list"
  phase_change_observed :: bool
  bar_clock :: "vector_clock option"

definition new_barrier :: "nat \<Rightarrow> int \<Rightarrow> int \<Rightarrow> barrier" where
  "new_barrier participating refs arrivals =
     \<lparr>bar_ref_count = refs, num_participating_threads = participating, num_arrivals = arrivals, arrivals_count = 0,
      phase = 0, next_awaited_phase_by_thread = replicate participating 1, phase_change_observed = True,
      bar_clock = None\<rparr>"

definition has_zero_ref_count :: "barrier \<Rightarrow> bool" where
  "has_zero_ref_count b \<longleftrightarrow> bar_ref_count b = 0"

definition barrier_deallocate :: "barrier \<Rightarrow> barrier res" where
  "barrier_deallocate b =
     (let b = b\<lparr>bar_ref_count := bar_ref_count b - 1\<rparr> in
      if bar_ref_count b > 0 then Inr b
      else if list_ex (\<lambda>p. 0 < p - 1 \<and> p - 1 < phase b) (next_awaited_phase_by_thread b)
      then Inl (ValueError ''Thread did not observe all phases'')
      else Inr b)"

definition barrier_arrive :: "bool \<Rightarrow> barrier \<Rightarrow> vector_clock option \<Rightarrow> barrier res" where
  "barrier_arrive detect b clock =
     (let b = b\<lparr>arrivals_count := arrivals_count b + 1\<rparr> in
      rbind
        (if arrivals_count b = num_arrivals b
         then
           if \<not> phase_change_observed b then Inl (ValueError ''Barrier arrival was completed again'')
           else Inr (b\<lparr>phase := phase b + 1, arrivals_count := 0, phase_change_observed := False\<rparr>)
         else Inr b) (\<lambda>b.
      if \<not> detect then Inr b
      else case clock of
        None \<Rightarrow> Inl AssertionError
      | Some c \<Rightarrow>
          Inr (b\<lparr>bar_clock := Some (case bar_clock b of None \<Rightarrow> c | Some d \<Rightarrow> update_vector_clock d c)\<rparr>)))"

text \<open>The wait: \<open>None\<close> as long as it goes on waiting, then the clock that is read before the lock is given up.\<close>

definition barrier_wait :: "bool \<Rightarrow> barrier \<Rightarrow> nat \<Rightarrow> (vector_clock option \<times> barrier) option res" where
  "barrier_wait detect b local_thread_id =
     (if num_participating_threads b = 0 then Inl ZeroDivisionError
      else
        let tid = local_thread_id mod num_participating_threads b; awaited = next_awaited_phase_by_thread b ! tid in
        if awaited \<noteq> phase b then
          if awaited < phase b then Inl (ValueError ''Thread has not participated in all completions of the barrier'')
          else Inr None
        else Inr (Some (if detect then bar_clock b else None,
          b\<lparr>phase_change_observed := True,
            next_awaited_phase_by_thread := (next_awaited_phase_by_thread b)[tid := awaited + 1]\<rparr>)))"

subsection \<open>Shared memory\<close>

record gpu_key =
  gk_memory_space :: int
  gk_device :: int
  gk_thread :: int
  gk_initial_ref_count :: int
  gk_buffer :: int

datatype gpu_allocation = ABarrier barrier | ABuffer

record gpu_memory =
  gpu_num_devices :: nat
  num_pallas_threads_per_block :: nat
  num_blocks_per_cluster :: nat
  num_tma_threads_per_device :: nat
  gpu_detect_races :: bool
  gpu_clocks :: "vector_clock list"
  gpu_mem :: "(gpu_key \<times> gpu_allocation) list"
  gpu_next_buffer_id :: "int \<times> int \<Rightarrow> int"
  next_tma_thread_id_per_device :: "nat list"

text \<open>\<^verbatim>\<open>GPUSharedMemory.__init__\<close>; the base class takes the number of threads as that of cores.\<close>

definition new_gpu_memory :: "nat \<Rightarrow> nat \<Rightarrow> nat \<Rightarrow> nat \<Rightarrow> string \<Rightarrow> bool \<Rightarrow> gpu_memory res" where
  "new_gpu_memory devices threads_per_block blocks tma_threads mode detect =
     (let concurrent = threads_per_block * blocks; clock_size = devices * (concurrent + tma_threads) in
      if mode \<noteq> ''eager'' then Inl NotImplementedError
      else Inr \<lparr>gpu_num_devices = devices, num_pallas_threads_per_block = threads_per_block,
        num_blocks_per_cluster = blocks, num_tma_threads_per_device = tma_threads, gpu_detect_races = detect,
        gpu_clocks = map (\<lambda>_. make_vector_clock clock_size) [0..<concurrent], gpu_mem = [],
        gpu_next_buffer_id = (\<lambda>_. 100), next_tma_thread_id_per_device = replicate devices 0\<rparr>)"

definition num_concurrent_pallas_threads :: "gpu_memory \<Rightarrow> nat" where
  "num_concurrent_pallas_threads m = num_pallas_threads_per_block m * num_blocks_per_cluster m"

definition num_total_threads_per_device :: "gpu_memory \<Rightarrow> nat" where
  "num_total_threads_per_device m = num_concurrent_pallas_threads m + num_tma_threads_per_device m"

definition get_global_thread_id :: "gpu_memory \<Rightarrow> nat \<Rightarrow> nat \<Rightarrow> nat" where
  "get_global_thread_id m device_id local_thread_id = device_id * num_total_threads_per_device m + local_thread_id"

definition get_next_tma_thread_id :: "gpu_memory \<Rightarrow> nat \<Rightarrow> (nat \<times> gpu_memory) res" where
  "get_next_tma_thread_id m device_id =
     (if \<not> device_id < length (next_tma_thread_id_per_device m) then Inl KeyError
      else if num_tma_threads_per_device m = 0 then Inl ZeroDivisionError
      else
        let i = next_tma_thread_id_per_device m ! device_id in
        Inr (num_concurrent_pallas_threads m + i,
          m\<lparr>next_tma_thread_id_per_device :=
              (next_tma_thread_id_per_device m)[device_id := (i + 1) mod num_tma_threads_per_device m]\<rparr>))"

definition gpu_update_clock :: "gpu_memory \<Rightarrow> nat \<Rightarrow> vector_clock \<Rightarrow> gpu_memory res" where
  "gpu_update_clock m i clock =
     rbind (seq_get (gpu_clocks m) i) (\<lambda>c.
     Inr (m\<lparr>gpu_clocks := (gpu_clocks m)[i := update_vector_clock c clock]\<rparr>))"

definition gpu_get_clock :: "gpu_memory \<Rightarrow> nat \<Rightarrow> vector_clock res" where
  "gpu_get_clock m i = seq_get (gpu_clocks m) i"

definition allocate_barrier :: "gpu_memory \<Rightarrow> gpu_key \<Rightarrow> int \<Rightarrow> int \<Rightarrow> gpu_memory" where
  "allocate_barrier m key refs arrivals =
     (if key \<in> fst ` set (gpu_mem m) then m
      else m\<lparr>gpu_mem := gpu_mem m @ [(key, ABarrier (new_barrier (num_pallas_threads_per_block m) refs arrivals))]\<rparr>)"

definition lookup_barrier :: "gpu_memory \<Rightarrow> gpu_key \<Rightarrow> barrier res" where
  "lookup_barrier m key =
     (case map_of (gpu_mem m) key of
        None \<Rightarrow> Inl KeyError
      | Some ABuffer \<Rightarrow> Inl (ValueError ''not a Barrier'')
      | Some (ABarrier b) \<Rightarrow> Inr b)"

definition set_barrier :: "gpu_memory \<Rightarrow> gpu_key \<Rightarrow> barrier \<Rightarrow> gpu_memory" where
  "set_barrier m key b = m\<lparr>gpu_mem := dict_set (gpu_mem m) key (ABarrier b)\<rparr>"

definition get_barrier_and_increment_clock ::
  "gpu_memory \<Rightarrow> gpu_key \<Rightarrow> nat \<Rightarrow> nat \<Rightarrow> (vector_clock option \<times> gpu_memory) res" where
  "get_barrier_and_increment_clock m key device_id thread_id =
     rbind
       (if \<not> gpu_detect_races m then Inr (None, m)
        else
          let i = get_global_thread_id m device_id thread_id in
          rbind (seq_get (gpu_clocks m) i) (\<lambda>c.
          rbind (inc_vector_clock c i) (\<lambda>c.
          Inr (Some c, m\<lparr>gpu_clocks := (gpu_clocks m)[i := c]\<rparr>)))) (\<lambda>(clock, m).
     rbind (lookup_barrier m key) (\<lambda>_. Inr (clock, m)))"

definition deallocate_barrier :: "gpu_memory \<Rightarrow> gpu_key \<Rightarrow> gpu_memory res" where
  "deallocate_barrier m key =
     rbind (lookup_barrier m key) (\<lambda>b.
     rbind (barrier_deallocate b) (\<lambda>b.
     Inr (if has_zero_ref_count b then m\<lparr>gpu_mem := filter (\<lambda>(k, a). k \<noteq> key) (gpu_mem m)\<rparr>
          else set_barrier m key b)))"

definition assert_no_barriers_allocated :: "gpu_memory \<Rightarrow> unit res" where
  "assert_no_barriers_allocated m =
     rassert (list_all (\<lambda>(k, a). case a of ABarrier _ \<Rightarrow> False | ABuffer \<Rightarrow> True) (gpu_mem m))"

subsection \<open>Callbacks\<close>

definition gpu_take_buffer_id :: "gpu_memory \<Rightarrow> int \<Rightarrow> int \<Rightarrow> int \<times> gpu_memory" where
  "gpu_take_buffer_id m device_id thread_id =
     (let i = gpu_next_buffer_id m (device_id, thread_id) in
      (i, m\<lparr>gpu_next_buffer_id := (gpu_next_buffer_id m)((device_id, thread_id) := i + 1)\<rparr>))"

text \<open>\<^verbatim>\<open>_allocate_barriers\<close>; \<open>smem\<close> is the number of the memory space SMEM.\<close>

primrec allocate_barriers :: "int \<Rightarrow> gpu_memory \<Rightarrow> int \<Rightarrow> int \<Rightarrow> int \<Rightarrow> nat \<Rightarrow> int \<Rightarrow> gpu_key list \<times> gpu_memory" where
  "allocate_barriers smem m device_id thread_id arrivals 0 refs = ([], m)"
| "allocate_barriers smem m device_id thread_id arrivals (Suc n) refs =
     (let (buffer_id, m) = gpu_take_buffer_id m device_id thread_id;
          key = \<lparr>gk_memory_space = smem, gk_device = device_id, gk_thread = 0, gk_initial_ref_count = refs, gk_buffer = buffer_id\<rparr>;
          m = allocate_barrier m key refs arrivals;
          (keys, m) = allocate_barriers smem m device_id thread_id arrivals n refs in
      (key # keys, m))"

definition deallocate_barriers :: "gpu_memory \<Rightarrow> gpu_key list \<Rightarrow> gpu_memory res" where
  "deallocate_barriers m keys = rfold (\<lambda>key m. deallocate_barrier m key) keys m"

text \<open>
  \<^verbatim>\<open>_barrier_arrive\<close> and \<^verbatim>\<open>_barrier_wait\<close> in sections: the lookup of the barrier, which ticks the clock of the
  thread, the operation on the barrier, and for a wait the update of the clock of the thread.
\<close>

definition arrive_section :: "gpu_memory \<Rightarrow> gpu_key \<Rightarrow> vector_clock option \<Rightarrow> gpu_memory res" where
  "arrive_section m key clock =
     rbind (lookup_barrier m key) (\<lambda>b.
     rbind (barrier_arrive (gpu_detect_races m) b clock) (\<lambda>b. Inr (set_barrier m key b)))"

definition wait_section :: "gpu_memory \<Rightarrow> gpu_key \<Rightarrow> nat \<Rightarrow> (vector_clock option \<times> gpu_memory) option res" where
  "wait_section m key thread_id =
     rbind (lookup_barrier m key) (\<lambda>b.
     rbind (barrier_wait (gpu_detect_races m) b thread_id) (\<lambda>r.
     Inr (case r of None \<Rightarrow> None | Some (clock, b) \<Rightarrow> Some (clock, set_barrier m key b))))"

definition wait_finish :: "gpu_memory \<Rightarrow> nat \<Rightarrow> nat \<Rightarrow> vector_clock option \<Rightarrow> gpu_memory res" where
  "wait_finish m device_id thread_id clock =
     (if \<not> gpu_detect_races m then Inr m
      else case clock of
        None \<Rightarrow> Inl AssertionError
      | Some c \<Rightarrow> gpu_update_clock m (get_global_thread_id m device_id thread_id) c)"

definition barrier_arrive_callback :: "gpu_memory \<Rightarrow> nat \<Rightarrow> nat \<Rightarrow> gpu_key \<Rightarrow> gpu_memory res" where
  "barrier_arrive_callback m device_id thread_id key =
     rbind (get_barrier_and_increment_clock m key device_id thread_id) (\<lambda>(clock, m). arrive_section m key clock)"

definition barrier_wait_callback :: "gpu_memory \<Rightarrow> nat \<Rightarrow> nat \<Rightarrow> gpu_key \<Rightarrow> gpu_memory option res" where
  "barrier_wait_callback m device_id thread_id key =
     rbind (get_barrier_and_increment_clock m key device_id thread_id) (\<lambda>(_, m).
     rbind (wait_section m key thread_id) (\<lambda>r.
     case r of
       None \<Rightarrow> Inr None
     | Some (clock, m) \<Rightarrow> rbind (wait_finish m device_id thread_id clock) (\<lambda>m. Inr (Some m))))"

end
