(* ===== verification/GpuBarrierProps.thy ===== *)
theory GpuBarrierProps
  imports GpuBarrier
begin

text \<open>
  What barriers do, as a function of the arrivals and waits so far; that threads which arrive and wait
  in turn never fail and never block each other for ever; and that a wait orders clocks.
\<close>

subsection \<open>Runs of one barrier\<close>

datatype barrier_op = Arrived "vector_clock option" | Waited nat

inductive barrier_run :: "bool \<Rightarrow> barrier \<Rightarrow> barrier_op list \<Rightarrow> barrier \<Rightarrow> bool" for d b0 where
  run_start: "barrier_run d b0 [] b0"
| run_arrive: "barrier_run d b0 ops b \<Longrightarrow> barrier_arrive d b c = Inr b' \<Longrightarrow> barrier_run d b0 (ops @ [Arrived c]) b'"
| run_wait: "barrier_run d b0 ops b \<Longrightarrow> barrier_wait d b t = Inr (Some (c, b')) \<Longrightarrow> barrier_run d b0 (ops @ [Waited t]) b'"

definition arrivals :: "barrier_op list \<Rightarrow> int" where
  "arrivals ops = int (length (filter (\<lambda>x. case x of Arrived _ \<Rightarrow> True | Waited _ \<Rightarrow> False) ops))"

definition waits :: "nat \<Rightarrow> barrier_op list \<Rightarrow> nat \<Rightarrow> int" where
  "waits n ops i = int (length (filter (\<lambda>x. case x of Arrived _ \<Rightarrow> False | Waited t \<Rightarrow> t mod n = i) ops))"

definition completions :: "int \<Rightarrow> barrier_op list \<Rightarrow> int" where
  "completions k ops = arrivals ops div k"

lemma counts_snoc [simp]:
  "arrivals [] = 0" "waits n [] i = 0"
  "arrivals (ops @ [Arrived c]) = arrivals ops + 1" "arrivals (ops @ [Waited t]) = arrivals ops"
  "waits n (ops @ [Arrived c]) i = waits n ops i"
  "waits n (ops @ [Waited t]) i = waits n ops i + (if t mod n = i then 1 else 0)"
  by (simp_all add: arrivals_def waits_def)

definition barrier_inv :: "nat \<Rightarrow> int \<Rightarrow> int \<Rightarrow> barrier_op list \<Rightarrow> barrier \<Rightarrow> bool" where
  "barrier_inv n refs k ops b \<longleftrightarrow>
     bar_ref_count b = refs \<and> num_participating_threads b = n \<and> num_arrivals b = k \<and>
     0 \<le> arrivals_count b \<and> arrivals_count b < k \<and> arrivals ops = phase b * k + arrivals_count b \<and> 0 \<le> phase b \<and>
     length (next_awaited_phase_by_thread b) = n \<and>
     (\<forall>i < n. next_awaited_phase_by_thread b ! i = waits n ops i + 1 \<and> waits n ops i \<le> phase b) \<and>
     (phase_change_observed b \<longleftrightarrow> phase b = 0 \<or> (\<exists>i < n. waits n ops i = phase b))"

lemma arrive_fields:
  assumes "barrier_arrive d b c = Inr b'"
  shows "bar_ref_count b' = bar_ref_count b" "num_participating_threads b' = num_participating_threads b"
    "num_arrivals b' = num_arrivals b" "next_awaited_phase_by_thread b' = next_awaited_phase_by_thread b"
    "if arrivals_count b + 1 = num_arrivals b
     then phase_change_observed b \<and> phase b' = phase b + 1 \<and> arrivals_count b' = 0 \<and> \<not> phase_change_observed b'
     else phase b' = phase b \<and> arrivals_count b' = arrivals_count b + 1 \<and> phase_change_observed b' = phase_change_observed b"
    "d \<Longrightarrow> \<exists>v. c = Some v \<and> bar_clock b' = Some (case bar_clock b of None \<Rightarrow> v | Some d \<Rightarrow> update_vector_clock d v)"
  using assms by (auto simp: barrier_arrive_def Let_def split: if_splits option.splits)

lemma wait_fields:
  assumes "barrier_wait d b t = Inr (Some (c, b'))"
  defines "i \<equiv> t mod num_participating_threads b"
  shows "num_participating_threads b \<noteq> 0" "next_awaited_phase_by_thread b ! i = phase b"
    "b' = b\<lparr>phase_change_observed := True, next_awaited_phase_by_thread := (next_awaited_phase_by_thread b)[i := phase b + 1]\<rparr>"
    "c = (if d then bar_clock b else None)"
  using assms by (auto simp: barrier_wait_def Let_def split: if_splits)

lemma barrier_run_inv:
  assumes "barrier_run d (new_barrier n refs k) ops b" "0 < k"
  shows "barrier_inv n refs k ops b"
  using assms
proof (induction rule: barrier_run.induct)
  case run_start
  then show ?case by (simp add: barrier_inv_def new_barrier_def)
next
  case (run_arrive ops b c b')
  then have inv: "barrier_inv n refs k ops b" by simp
  note f = arrive_fields [OF run_arrive.hyps(2)]
  have n: "num_arrivals b = k" "arrivals ops = phase b * k + arrivals_count b" "0 \<le> phase b"
    using inv by (auto simp: barrier_inv_def)
  show ?case
  proof (cases "arrivals_count b + 1 = k")
    case True
    with f(5) n have g: "phase b' = phase b + 1" "arrivals_count b' = 0" "\<not> phase_change_observed b'" by simp_all
    have "\<forall>i < n. waits n ops i \<le> phase b" using inv by (simp add: barrier_inv_def)
    then have "\<not> (\<exists>i < n. waits n ops i = phase b + 1)" by force
    moreover have "arrivals (ops @ [Arrived c]) = phase b' * k + arrivals_count b'"
      using n(2) True g by (simp add: algebra_simps)
    moreover have "\<forall>i < n. waits n ops i \<le> phase b + 1" using inv by (force simp: barrier_inv_def)
    ultimately show ?thesis
      using inv f(1-4) g n run_arrive.prems by (simp add: barrier_inv_def)
  next
    case False
    with f(5) n have "phase b' = phase b" "arrivals_count b' = arrivals_count b + 1" "phase_change_observed b' = phase_change_observed b"
      by simp_all
    then show ?thesis using inv f(1-4) False by (auto simp: barrier_inv_def)
  qed
next
  case (run_wait ops b t c b')
  then have inv: "barrier_inv n refs k ops b" by simp
  note f = wait_fields [OF run_wait.hyps(2)]
  have n: "num_participating_threads b = n" "length (next_awaited_phase_by_thread b) = n" using inv by (simp_all add: barrier_inv_def)
  let ?i = "t mod n"
  have i: "?i < n" using f(1) n by simp
  then have w: "waits n ops ?i + 1 = phase b" using inv f(2) n by (simp add: barrier_inv_def)
  show ?case using inv i w n unfolding barrier_inv_def f(3) by (auto simp: nth_list_update)
qed

text \<open>
  C29: A barrier does what the number of arrivals and waits so far says. With \<open>k\<close> arrivals to a phase
  and \<open>completions\<close> phases completed, a thread that has waited \<open>w\<close> times blocks if \<open>w\<close> is that number,
  passes if it is one less, and gets an error if it is further behind; an arrival gets an error if and
  only if it completes a phase while nobody has waited for the one before; and freeing the last reference
  gets an error if and only if some thread has waited for some but not all phases.
\<close>

theorem barrier_follows_its_trace:
  assumes "barrier_run d (new_barrier n refs k) ops b" "0 < k" "0 < n"
  shows "barrier_wait d b t =
      (let w = waits n ops (t mod n) in
       if w = completions k ops then Inr None
       else if w + 1 = completions k ops then Inr (Some (if d then bar_clock b else None,
         b\<lparr>phase_change_observed := True, next_awaited_phase_by_thread := (next_awaited_phase_by_thread b)[t mod n := completions k ops + 1]\<rparr>))
       else Inl (ValueError ''Thread has not participated in all completions of the barrier'')) \<and>
    (barrier_arrive d b c = Inl (ValueError ''Barrier arrival was completed again'') \<longleftrightarrow>
      (arrivals ops + 1) mod k = 0 \<and> 0 < completions k ops \<and> (\<forall>i < n. waits n ops i < completions k ops)) \<and>
    (barrier_deallocate b = Inl (ValueError ''Thread did not observe all phases'') \<longleftrightarrow>
      refs \<le> 1 \<and> (\<exists>i < n. 0 < waits n ops i \<and> waits n ops i < completions k ops))"
proof (intro conjI)
  have inv: "barrier_inv n refs k ops b" by (rule barrier_run_inv [OF assms(1,2)])
  then have f: "num_participating_threads b = n" "num_arrivals b = k" "0 \<le> arrivals_count b" "arrivals_count b < k"
    "arrivals ops = phase b * k + arrivals_count b" "0 \<le> phase b" "length (next_awaited_phase_by_thread b) = n" "bar_ref_count b = refs"
    and next1: "\<And>i. i < n \<Longrightarrow> next_awaited_phase_by_thread b ! i = waits n ops i + 1"
    and le: "\<And>i. i < n \<Longrightarrow> waits n ops i \<le> phase b"
    and obs: "phase_change_observed b \<longleftrightarrow> phase b = 0 \<or> (\<exists>i < n. waits n ops i = phase b)"
    by (auto simp: barrier_inv_def)
  have p: "completions k ops = phase b" using f(3-5) assms(2) by (simp add: completions_def)
  have i: "t mod n < n" using assms(3) by simp
  show "barrier_wait d b t =
      (let w = waits n ops (t mod n) in
       if w = completions k ops then Inr None
       else if w + 1 = completions k ops then Inr (Some (if d then bar_clock b else None,
         b\<lparr>phase_change_observed := True, next_awaited_phase_by_thread := (next_awaited_phase_by_thread b)[t mod n := completions k ops + 1]\<rparr>))
       else Inl (ValueError ''Thread has not participated in all completions of the barrier''))"
    using le [OF i] assms(3) by (auto simp: barrier_wait_def Let_def f(1) next1 [OF i] p)
  have "(arrivals ops + 1) mod k = (phase b * k + (arrivals_count b + 1)) mod k" using f(5) by (simp add: algebra_simps)
  also have "\<dots> = (arrivals_count b + 1) mod k" by simp
  finally have last: "(arrivals ops + 1) mod k = 0 \<longleftrightarrow> arrivals_count b + 1 = k"
    using f(3,4) by (cases "arrivals_count b + 1 = k") simp_all
  have "barrier_arrive d b c = Inl (ValueError ''Barrier arrival was completed again'') \<longleftrightarrow> arrivals_count b + 1 = k \<and> \<not> phase_change_observed b"
    by (auto simp: barrier_arrive_def Let_def f(2) split: option.splits)
  moreover have "\<not> phase_change_observed b \<longleftrightarrow> 0 < phase b \<and> (\<forall>i < n. waits n ops i < phase b)"
    using obs f(6) le by force
  ultimately show "barrier_arrive d b c = Inl (ValueError ''Barrier arrival was completed again'') \<longleftrightarrow>
      (arrivals ops + 1) mod k = 0 \<and> 0 < completions k ops \<and> (\<forall>i < n. waits n ops i < completions k ops)"
    unfolding last p by blast
  show "barrier_deallocate b = Inl (ValueError ''Thread did not observe all phases'') \<longleftrightarrow>
      refs \<le> 1 \<and> (\<exists>i < n. 0 < waits n ops i \<and> waits n ops i < completions k ops)"
    using next1 by (auto simp: barrier_deallocate_def Let_def f p list_ex_length)
qed

theorem barrier_follows_its_trace_witness:
  "barrier_wait False ((new_barrier 2 1 2)\<lparr>arrivals_count := 1\<rparr>) 0 = Inr None"
proof -
  have "barrier_run False (new_barrier 2 1 2) ([] @ [Arrived None]) ((new_barrier 2 1 2)\<lparr>arrivals_count := 1\<rparr>)"
    by (rule barrier_run.intros(2) [OF barrier_run.intros(1)]) (simp add: barrier_arrive_def new_barrier_def)
  from barrier_follows_its_trace [OF this, of 0 None]
  show ?thesis by (simp add: completions_def arrivals_def waits_def)
qed

subsection \<open>Threads in lockstep\<close>

text \<open>
  Each of \<open>n\<close> threads arrives and then waits, again and again; \<open>n\<close> arrivals complete a phase. The state is
  the barrier and which threads have arrived without having passed the wait.
\<close>

inductive lockstep :: "bool \<Rightarrow> int \<Rightarrow> nat \<Rightarrow> barrier \<Rightarrow> (nat \<Rightarrow> bool) \<Rightarrow> bool" for d refs n where
  lockstep_start: "lockstep d refs n (new_barrier n refs (int n)) (\<lambda>_. False)"
| lockstep_arrive: "lockstep d refs n b w \<Longrightarrow> t < n \<Longrightarrow> \<not> w t \<Longrightarrow> barrier_arrive d b c = Inr b' \<Longrightarrow> lockstep d refs n b' (w(t := True))"
| lockstep_wait: "lockstep d refs n b w \<Longrightarrow> t < n \<Longrightarrow> w t \<Longrightarrow> barrier_wait d b t = Inr (Some (c, b')) \<Longrightarrow> lockstep d refs n b' (w(t := False))"

definition thread_arrivals :: "barrier \<Rightarrow> (nat \<Rightarrow> bool) \<Rightarrow> nat \<Rightarrow> int" where
  "thread_arrivals b w t = next_awaited_phase_by_thread b ! t - 1 + (if w t then 1 else 0)"

definition lockstep_inv :: "nat \<Rightarrow> barrier \<Rightarrow> (nat \<Rightarrow> bool) \<Rightarrow> bool" where
  "lockstep_inv n b w \<longleftrightarrow>
     num_participating_threads b = n \<and> num_arrivals b = int n \<and> length (next_awaited_phase_by_thread b) = n \<and>
     0 \<le> arrivals_count b \<and> arrivals_count b < int n \<and> 0 \<le> phase b \<and>
     (\<Sum>t<n. thread_arrivals b w t) = phase b * int n + arrivals_count b \<and>
     (\<forall>t < n. next_awaited_phase_by_thread b ! t \<le> phase b + 1 \<and> phase b \<le> thread_arrivals b w t) \<and>
     (phase_change_observed b \<longleftrightarrow> phase b = 0 \<or> (\<exists>t < n. next_awaited_phase_by_thread b ! t = phase b + 1))"

lemma sum_at_bound:
  fixes f :: "nat \<Rightarrow> int"
  assumes "(\<Sum>t<n. f t) = p * int n" "\<And>t. t < n \<Longrightarrow> f t \<le> p" "t < n"
  shows "f t = p"
proof -
  have "(\<Sum>t<n. p - f t) = 0" using assms(1) by (simp add: sum_subtractf mult.commute)
  then have "p - f t = 0" using assms(2,3) by (subst (asm) sum_nonneg_eq_0_iff) auto
  then show ?thesis by simp
qed

text \<open>An arrival that completes a phase makes the number of arrivals of all threads equal.\<close>

lemma lockstep_complete:
  assumes "lockstep_inv n b w" "t < n" "\<not> w t" "arrivals_count b + 1 = int n"
  shows "\<forall>u < n. thread_arrivals b (w(t := True)) u = phase b + 1" "next_awaited_phase_by_thread b ! t = phase b + 1"
proof -
  have inv: "(\<Sum>t<n. thread_arrivals b w t) = phase b * int n + arrivals_count b"
    "\<And>u. u < n \<Longrightarrow> next_awaited_phase_by_thread b ! u \<le> phase b + 1"
    using assms(1) by (auto simp: lockstep_inv_def)
  have "(\<Sum>u<n. thread_arrivals b (w(t := True)) u) = (\<Sum>u<n. thread_arrivals b w u + (if u = t then 1 else 0))"
    using assms(3) by (intro sum.cong) (auto simp: thread_arrivals_def)
  also have "\<dots> = (phase b + 1) * int n" using inv(1) assms(2,4) by (simp add: sum.distrib algebra_simps)
  finally have total: "(\<Sum>u<n. thread_arrivals b (w(t := True)) u) = (phase b + 1) * int n" .
  have "thread_arrivals b v u \<le> phase b + 1" if "u < n" for u v using inv(2) [OF that] by (simp add: thread_arrivals_def)
  from sum_at_bound [OF total this] have "thread_arrivals b (w(t := True)) u = phase b + 1" if "u < n" for u using that by blast
  then show "\<forall>u < n. thread_arrivals b (w(t := True)) u = phase b + 1" by blast
  then show "next_awaited_phase_by_thread b ! t = phase b + 1" using assms(2) by (auto simp: thread_arrivals_def)
qed

lemma sum_arrive:
  assumes "t < n" "\<not> w t" "next_awaited_phase_by_thread b' = next_awaited_phase_by_thread b"
  shows "(\<Sum>u<n. thread_arrivals b' (w(t := True)) u) = (\<Sum>u<n. thread_arrivals b w u) + 1"
proof -
  have "(\<Sum>u<n. thread_arrivals b' (w(t := True)) u) = (\<Sum>u<n. thread_arrivals b w u + (if u = t then 1 else 0))"
    using assms by (intro sum.cong) (auto simp: thread_arrivals_def)
  then show ?thesis using assms(1) by (simp add: sum.distrib)
qed

lemma lockstep_invariant: "lockstep d refs n b w \<Longrightarrow> 0 < n \<Longrightarrow> lockstep_inv n b w"
proof (induction rule: lockstep.induct)
  case lockstep_start
  then show ?case by (auto simp: lockstep_inv_def new_barrier_def thread_arrivals_def)
next
  case (lockstep_arrive b w t c b')
  then have inv: "lockstep_inv n b w" by simp
  note f = arrive_fields [OF lockstep_arrive.hyps(4)]
  have sum: "(\<Sum>u<n. thread_arrivals b' (w(t := True)) u) = phase b * int n + arrivals_count b + 1"
    using sum_arrive [of t n w b' b] lockstep_arrive.hyps(2,3) f(4) inv by (simp add: lockstep_inv_def)
  have arr: "thread_arrivals b' v u = thread_arrivals b v u" for v u using f(4) by (simp add: thread_arrivals_def)
  show ?case
  proof (cases "arrivals_count b + 1 = int n")
    case True
    note all = lockstep_complete [OF inv lockstep_arrive.hyps(2,3) True]
    have g: "phase b' = phase b + 1" "arrivals_count b' = 0" "\<not> phase_change_observed b'" using f(5) True inv by (simp_all add: lockstep_inv_def)
    have le: "next_awaited_phase_by_thread b ! u \<le> phase b + 1" if "u < n" for u using inv that by (simp add: lockstep_inv_def)
    then have "\<not> (\<exists>u < n. next_awaited_phase_by_thread b ! u = phase b + 2)" by force
    moreover have "(\<Sum>u<n. thread_arrivals b' (w(t := True)) u) = phase b' * int n" using sum True g by (simp add: algebra_simps)
    moreover have "\<forall>u < n. next_awaited_phase_by_thread b ! u \<le> phase b + 2" using le by force
    ultimately show ?thesis using inv f(2-4) g lockstep_arrive.prems all(1) unfolding lockstep_inv_def arr by auto
  next
    case False
    have g: "phase b' = phase b" "arrivals_count b' = arrivals_count b + 1" "phase_change_observed b' = phase_change_observed b"
      using f(5) False inv by (simp_all add: lockstep_inv_def)
    have "thread_arrivals b w u \<le> thread_arrivals b (w(t := True)) u" for u by (simp add: thread_arrivals_def)
    moreover have "phase b \<le> thread_arrivals b w u" if "u < n" for u using inv that by (simp add: lockstep_inv_def)
    ultimately have "phase b \<le> thread_arrivals b (w(t := True)) u" if "u < n" for u using that order_trans by blast
    then show ?thesis using inv f(2-4) False sum unfolding lockstep_inv_def arr g by simp
  qed
next
  case (lockstep_wait b w t c b')
  then have inv: "lockstep_inv n b w" by simp
  have tn: "t mod n = t" using lockstep_wait.hyps(2) by simp
  have n: "num_participating_threads b = n" "length (next_awaited_phase_by_thread b) = n" using inv by (simp_all add: lockstep_inv_def)
  note f = wait_fields [OF lockstep_wait.hyps(4), unfolded n(1) tn]
  have arr: "thread_arrivals b' (w(t := False)) u = thread_arrivals b w u" if "u < n" for u
    using that f(2) n(2) lockstep_wait.hyps(2,3) by (auto simp: f(3) thread_arrivals_def)
  have sum: "(\<Sum>u<n. thread_arrivals b' (w(t := False)) u) = (\<Sum>u<n. thread_arrivals b w u)" using arr by (intro sum.cong) auto
  have "next_awaited_phase_by_thread b' ! u \<le> phase b + 1" if "u < n" for u
  proof -
    have "next_awaited_phase_by_thread b ! u \<le> phase b + 1" using inv that by (simp add: lockstep_inv_def)
    then show ?thesis using that n(2) by (cases "u = t") (simp_all add: f(3))
  qed
  moreover have "next_awaited_phase_by_thread b' ! t = phase b + 1" using n(2) lockstep_wait.hyps(2) by (simp add: f(3))
  ultimately show ?case using inv arr lockstep_wait.hyps(2) unfolding lockstep_inv_def sum by (auto simp: f(3))
qed

text \<open>
  C28: When each of \<open>n\<close> threads arrives and then waits in turn at a barrier for \<open>n\<close> arrivals, then in every
  interleaving no arrival and no wait fails, and the threads are never all blocked: some thread may
  arrive, or some waiting thread gets through.
\<close>

theorem lockstep_never_fails:
  assumes "lockstep d refs n b w" "0 < n"
  shows "(\<forall>t < n. \<forall>c. \<not> w t \<longrightarrow> (\<exists>b'. barrier_arrive d b (Some c) = Inr b')) \<and>
    (\<forall>t < n. w t \<longrightarrow> (\<exists>r. barrier_wait d b t = Inr r)) \<and>
    ((\<exists>t < n. \<not> w t) \<or> (\<exists>t < n. \<exists>c b'. w t \<and> barrier_wait d b t = Inr (Some (c, b'))))"
proof (intro conjI allI impI)
  have inv: "lockstep_inv n b w" by (rule lockstep_invariant [OF assms])
  have n: "num_participating_threads b = n" "num_arrivals b = int n" "arrivals_count b < int n"
    and obs: "phase_change_observed b \<longleftrightarrow> phase b = 0 \<or> (\<exists>t < n. next_awaited_phase_by_thread b ! t = phase b + 1)"
    and le: "\<And>t. t < n \<Longrightarrow> next_awaited_phase_by_thread b ! t \<le> phase b + 1 \<and> phase b \<le> thread_arrivals b w t"
    and sum: "(\<Sum>t<n. thread_arrivals b w t) = phase b * int n + arrivals_count b"
    using inv by (auto simp: lockstep_inv_def)
  fix t assume t: "t < n"
  show "\<exists>b'. barrier_arrive d b (Some c) = Inr b'" if w: "\<not> w t" for c
  proof (cases "arrivals_count b + 1 = int n")
    case True
    then have "phase_change_observed b" using lockstep_complete(2) [OF inv t w True] obs t by blast
    then show ?thesis by (simp add: barrier_arrive_def n Let_def)
  qed (simp add: barrier_arrive_def n Let_def)
  show "\<exists>r. barrier_wait d b t = Inr r" if "w t"
    using le [OF t] that t by (auto simp: barrier_wait_def n Let_def thread_arrivals_def)
next
  have inv: "lockstep_inv n b w" by (rule lockstep_invariant [OF assms])
  have n: "num_participating_threads b = n" "arrivals_count b < int n"
    and le: "\<And>t. t < n \<Longrightarrow> next_awaited_phase_by_thread b ! t \<le> phase b + 1 \<and> phase b \<le> thread_arrivals b w t"
    and sum: "(\<Sum>t<n. thread_arrivals b w t) = phase b * int n + arrivals_count b"
    using inv by (auto simp: lockstep_inv_def)
  have "\<exists>t < n. next_awaited_phase_by_thread b ! t = phase b" if w: "\<forall>t < n. w t"
  proof (rule ccontr)
    assume "\<not> (\<exists>t < n. next_awaited_phase_by_thread b ! t = phase b)"
    then have "phase b + 1 \<le> thread_arrivals b w t" if "t < n" for t
      using le [OF that] w that by (force simp: thread_arrivals_def)
    then have "(\<Sum>t<n. phase b + 1) \<le> (\<Sum>t<n. thread_arrivals b w t)" by (intro sum_mono) simp
    then show False using sum n(2) by (simp add: algebra_simps)
  qed
  moreover have "\<exists>c b'. barrier_wait d b t = Inr (Some (c, b'))" if "t < n" "next_awaited_phase_by_thread b ! t = phase b" for t
    using that assms(2) by (simp add: barrier_wait_def n Let_def)
  ultimately show "(\<exists>t < n. \<not> w t) \<or> (\<exists>t < n. \<exists>c b'. w t \<and> barrier_wait d b t = Inr (Some (c, b')))" by blast
qed

theorem lockstep_never_fails_witness:
  "\<exists>b'. barrier_arrive False (new_barrier 2 1 2) (Some []) = Inr b'"
  using lockstep_never_fails [OF lockstep_start [of False 1 2]] by auto

subsection \<open>Clocks\<close>

definition clock_le :: "vector_clock \<Rightarrow> vector_clock \<Rightarrow> bool" where
  "clock_le x y \<longleftrightarrow> length x = length y \<and> (\<forall>j < length x. x ! j \<le> y ! j)"

lemma clock_le_update:
  assumes "length x = length y"
  shows "clock_le x (update_vector_clock x y)" "clock_le y (update_vector_clock x y)"
    "length (update_vector_clock x y) = length x"
  using assms by (auto simp: clock_le_def update_vector_clock_def)

lemma clock_le_trans: "clock_le x y \<Longrightarrow> clock_le y z \<Longrightarrow> clock_le x z"
  unfolding clock_le_def by (metis order_trans)

lemma clock_le_inc:
  assumes "clock_le c x" "inc_vector_clock x i = Inr y" "- (2 ^ 31) \<le> x ! i" "x ! i < 2 ^ 31 - 1"
  shows "clock_lt c y"
proof -
  have i: "i < length x" "y = x[i := x ! i + 1]" using assms(2-4) by (auto simp: inc_vector_clock_def int32_small split: if_splits)
  have "c ! j \<le> y ! j" if "j < length x" for j using assms(1) that i by (cases "j = i") (auto simp: clock_le_def intro: order_trans)
  moreover have "c ! i < y ! i" using assms(1) i by (auto simp: clock_le_def)
  moreover have "length c = length y" using assms(1) i by (simp add: clock_le_def)
  moreover have "(c ! i, y ! i) \<in> set (zip c y)" using i \<open>length c = length y\<close> by (auto simp: set_zip)
  ultimately show ?thesis using i(2) unfolding clock_lt_def by (auto simp: set_zip)
qed

text \<open>The clock of a barrier is above that of every arrival.\<close>

lemma run_clock:
  assumes "barrier_run True (new_barrier n refs k) ops b" "\<forall>c. Arrived (Some c) \<in> set ops \<longrightarrow> length c = N"
  shows "(bar_clock b = None \<longrightarrow> (\<forall>c. Arrived c \<notin> set ops)) \<and>
    (\<forall>j. bar_clock b = Some j \<longrightarrow> length j = N \<and> (\<forall>c. Arrived (Some c) \<in> set ops \<longrightarrow> clock_le c j))"
  using assms
proof (induction rule: barrier_run.induct)
  case run_start
  then show ?case by (simp add: new_barrier_def)
next
  case (run_arrive ops b c b')
  obtain v where v: "c = Some v" "bar_clock b' = Some (case bar_clock b of None \<Rightarrow> v | Some d \<Rightarrow> update_vector_clock d v)"
    using arrive_fields(6) [OF run_arrive.hyps(2)] by auto
  have ih: "(bar_clock b = None \<longrightarrow> (\<forall>c. Arrived c \<notin> set ops)) \<and>
      (\<forall>j. bar_clock b = Some j \<longrightarrow> length j = N \<and> (\<forall>c. Arrived (Some c) \<in> set ops \<longrightarrow> clock_le c j))"
    using run_arrive by simp
  have N: "length v = N" using run_arrive.prems v(1) by simp
  show ?case
  proof (cases "bar_clock b")
    case None
    then show ?thesis using ih v N by (auto simp: clock_le_def)
  next
    case (Some d)
    then have "length d = N" using ih by simp
    with Some ih v N clock_le_update [of d v] show ?thesis by (auto intro: clock_le_trans)
  qed
next
  case (run_wait ops b t c b')
  then show ?case using wait_fields(3) [OF run_wait.hyps(2)] by simp
qed

text \<open>
  C30: With race detection, when a thread gets through a wait its clock takes over the clocks of all arrivals
  at the barrier, whatever happens between the wait and the update of its clock: what the thread does
  next is ordered after everything that came before an arrival.
\<close>

theorem barrier_synchronizes:
  assumes "barrier_run True (new_barrier n refs k) ops b" "\<forall>c. Arrived (Some c) \<in> set ops \<longrightarrow> length c = N"
    and "gpu_detect_races m" "lookup_barrier m key = Inr b" "wait_section m key t = Inr (Some (clock, m1))"
    and "gpu_detect_races m2" "wait_finish m2 dev t clock = Inr m3"
    and "i = get_global_thread_id m2 dev t" "length (gpu_clocks m2 ! i) = N"
    and "get_barrier_and_increment_clock m3 key2 dev t = Inr (Some c2, m4)"
    and "- (2 ^ 31) \<le> gpu_clocks m3 ! i ! i" "gpu_clocks m3 ! i ! i < 2 ^ 31 - 1"
    and "Arrived (Some c) \<in> set ops"
  shows "clock_lt c c2"
proof -
  have clock: "clock = bar_clock b"
    using assms(3-5) by (auto simp: wait_section_def res_simps dest!: wait_fields(4) split: option.splits)
  then obtain j where j: "clock = Some j" "length j = N" "clock_le c j"
    using run_clock [OF assms(1,2)] assms(13) by (cases "bar_clock b") auto
  then have i: "i < length (gpu_clocks m2)" and
    m3: "m3 = m2\<lparr>gpu_clocks := (gpu_clocks m2)[i := update_vector_clock (gpu_clocks m2 ! i) j]\<rparr>"
    using assms(6-8) by (auto simp: wait_finish_def gpu_update_clock_def seq_get_def split: if_splits)
  have new: "gpu_clocks m3 ! i = update_vector_clock (gpu_clocks m2 ! i) j" using i by (simp add: m3)
  have same: "get_global_thread_id m3 dev t = i" "gpu_detect_races m3"
    using assms(6,8) by (simp_all add: m3 get_global_thread_id_def num_total_threads_per_device_def num_concurrent_pallas_threads_def)
  have "clock_le c (gpu_clocks m3 ! i)"
    using clock_le_update(2) [of "gpu_clocks m2 ! i" j] j(2,3) assms(9) clock_le_trans unfolding new by metis
  moreover have "inc_vector_clock (gpu_clocks m3 ! i) i = Inr c2"
    using assms(10) by (auto simp: get_barrier_and_increment_clock_def same res_simps seq_get_def split: if_splits)
  ultimately show ?thesis using assms(11,12) by (rule clock_le_inc)
qed

theorem barrier_synchronizes_witness:
  "clock_lt [1, 0] [1, 1]"
proof -
  let ?b = "(new_barrier 2 1 1)\<lparr>phase := 1, phase_change_observed := False, bar_clock := Some [1, 0]\<rparr>"
  define key where "key = \<lparr>gk_memory_space = 0, gk_device = 0, gk_thread = 0, gk_initial_ref_count = 1, gk_buffer = 100\<rparr>"
  let ?m = "\<lparr>gpu_num_devices = 1, num_pallas_threads_per_block = 2, num_blocks_per_cluster = 1, num_tma_threads_per_device = 0,
    gpu_detect_races = True, gpu_clocks = [[1, 0], [0, 0]], gpu_mem = [(key, ABarrier ?b)], gpu_next_buffer_id = (\<lambda>_. 100),
    next_tma_thread_id_per_device = [0]\<rparr>"
  have run: "barrier_run True (new_barrier 2 1 1) ([] @ [Arrived (Some [1, 0])]) ?b"
    by (rule barrier_run.intros(2) [OF barrier_run.intros(1)]) (simp add: barrier_arrive_def new_barrier_def)
  obtain m1 where w: "wait_section ?m key 1 = Inr (Some (Some [1, 0], m1))"
    by (simp add: wait_section_def lookup_barrier_def barrier_wait_def new_barrier_def)
  obtain m3 where f: "wait_finish ?m 0 1 (Some [1, 0]) = Inr m3" "gpu_clocks m3 = [[1, 0], [1, 0]]" "gpu_mem m3 = [(key, ABarrier ?b)]"
    "get_barrier_and_increment_clock m3 key 0 1 = Inr (Some [1, 1], m3\<lparr>gpu_clocks := [[1, 0], [1, 1]]\<rparr>)"
    by (simp add: wait_finish_def gpu_update_clock_def seq_get_def get_global_thread_id_def update_vector_clock_def
      get_barrier_and_increment_clock_def inc_vector_clock_def lookup_barrier_def int32_def)
  show ?thesis
    by (rule barrier_synchronizes [OF run _ _ _ w _ f(1) _ _ f(4), of 2 1 "[1, 0]"])
      (simp_all add: f(2) lookup_barrier_def get_global_thread_id_def)
qed

subsection \<open>Several devices and threads of the TMA\<close>

text \<open>
  C31: With race detection the memory as it is created has clocks for the threads of one device only: on
  every other device the lookup of a barrier, and so every arrival and wait, raises \<^verbatim>\<open>IndexError\<close>.
\<close>

theorem second_device_raises:
  assumes "new_gpu_memory devices threads blocks tma ''eager'' True = Inr m" "0 < dev"
  shows "get_barrier_and_increment_clock (m\<lparr>gpu_mem := allocations\<rparr>) key dev t = Inl IndexError"
proof -
  have m: "length (gpu_clocks m) = threads * blocks" "gpu_detect_races m" "num_total_threads_per_device m = threads * blocks + tma"
    using assms(1) by (auto simp: new_gpu_memory_def Let_def num_total_threads_per_device_def num_concurrent_pallas_threads_def)
  have "threads * blocks \<le> dev * (threads * blocks + tma) + t" using assms(2) by (cases dev) simp_all
  then show ?thesis
    using m by (simp add: get_barrier_and_increment_clock_def seq_get_def get_global_thread_id_def
      num_total_threads_per_device_def num_concurrent_pallas_threads_def)
qed

theorem second_device_raises_witness:
  "\<exists>m. new_gpu_memory 2 1 1 1 ''eager'' True = Inr m \<and>
     get_barrier_and_increment_clock (m\<lparr>gpu_mem := []\<rparr>)
       \<lparr>gk_memory_space = 0, gk_device = 1, gk_thread = 0, gk_initial_ref_count = 1, gk_buffer = 100\<rparr> 1 0 = Inl IndexError"
proof -
  obtain m where m: "new_gpu_memory 2 1 1 1 ''eager'' True = Inr m" by (simp add: new_gpu_memory_def Let_def)
  show ?thesis using m second_device_raises [OF m zero_less_one] by blast
qed

end
