(* ===== verification/LruCache.thy ===== *)
theory LruCache
  imports Prelude "HOL-Library.Product_Lexorder" "HOL-Library.List_Lexorder" "HOL-Library.Char_ord"
begin

text \<open>
  \<^verbatim>\<open>lru_cache.py\<close>: the compilation cache on disk, bounded by evicting the least recently used entries. A
  directory is the list of its cache files with their contents and the map from keys to the time
  stamps in the \<^verbatim>\<open>-atime\<close> files. The lock on the directory is held by every operation; time is a parameter.
\<close>

subsection \<open>Heaps\<close>

text \<open>Entries \<^verbatim>\<open>(file_atime, key, file_size)\<close> with the order of tuples; a heap is the sorted list of its elements.\<close>

type_synonym cache_entry = "nat \<times> string \<times> nat"

definition heappush :: "cache_entry \<Rightarrow> cache_entry list \<Rightarrow> cache_entry list" where
  "heappush e h = insort e h"

subsection \<open>The cache\<close>

record lru_cache =
  cache_max_size :: int
  cache_files :: "(string \<times> string) list"
  atime_files :: "string \<rightharpoonup> nat"

definition eviction_enabled :: "lru_cache \<Rightarrow> bool" where
  "eviction_enabled c \<longleftrightarrow> cache_max_size c \<noteq> - 1"

text \<open>\<^verbatim>\<open>atime_path.write_bytes(time.time_ns().to_bytes(8, "little"))\<close>\<close>

definition write_atime :: "lru_cache \<Rightarrow> string \<Rightarrow> nat \<Rightarrow> lru_cache res" where
  "write_atime c key now =
     (if now < 2 ^ 64 then Inr (c\<lparr>atime_files := (atime_files c)(key \<mapsto> now)\<rparr>) else Inl OverflowError)"

definition cache_get :: "lru_cache \<Rightarrow> string \<Rightarrow> nat \<Rightarrow> (string option \<times> lru_cache) res" where
  "cache_get c key now =
     (if key = [] then Inl (ValueError ''key cannot be empty'')
      else case map_of (cache_files c) key of
        None \<Rightarrow> Inr (None, c)
      | Some val \<Rightarrow>
          if eviction_enabled c then rbind (write_atime c key now) (\<lambda>c. Inr (Some val, c))
          else Inr (Some val, c))"

definition cache_unlink :: "lru_cache \<Rightarrow> string \<Rightarrow> lru_cache res" where
  "cache_unlink c key =
     (if key \<notin> fst ` set (cache_files c) \<or> atime_files c key = None then Inl FileNotFoundError
      else Inr (c\<lparr>cache_files := filter (\<lambda>(k, v). k \<noteq> key) (cache_files c), atime_files := (atime_files c)(key := None)\<rparr>))"

fun evict_loop :: "int \<Rightarrow> cache_entry list \<Rightarrow> int \<Rightarrow> lru_cache \<Rightarrow> lru_cache res" where
  "evict_loop target_size [] dir_size c = (if dir_size > target_size then Inl IndexError else Inr c)"
| "evict_loop target_size ((file_atime, key, file_size) # h) dir_size c =
     (if dir_size > target_size
      then rbind (cache_unlink c key) (evict_loop target_size h (dir_size - int file_size))
      else Inr c)"

definition cache_scan :: "lru_cache \<Rightarrow> (cache_entry list \<times> int) res" where
  "cache_scan c =
     rfold (\<lambda>(key, val) (h, dir_size).
       case atime_files c key of
         None \<Rightarrow> Inl FileNotFoundError
       | Some file_atime \<Rightarrow> Inr (heappush (file_atime, key, length val) h, dir_size + int (length val)))
     (cache_files c) ([], 0)"

definition evict_if_needed :: "lru_cache \<Rightarrow> nat \<Rightarrow> lru_cache res" where
  "evict_if_needed c additional_size =
     (if \<not> eviction_enabled c then Inr c
      else rbind (cache_scan c) (\<lambda>(h, dir_size). evict_loop (cache_max_size c - int additional_size) h dir_size c))"

definition cache_put :: "lru_cache \<Rightarrow> string \<Rightarrow> string \<Rightarrow> nat \<Rightarrow> lru_cache res" where
  "cache_put c key val now =
     (if key = [] then Inl (ValueError ''key cannot be empty'')
      else if eviction_enabled c \<and> int (length val) > cache_max_size c then Inr c
      else if key \<in> fst ` set (cache_files c) then Inr c
      else
        rbind (evict_if_needed c (length val)) (\<lambda>c.
        let c = c\<lparr>cache_files := cache_files c @ [(key, val)]\<rparr> in
        if eviction_enabled c then write_atime c key now else Inr c))"

end
