(* ===== verification/LruCacheProps.thy ===== *)
theory LruCacheProps
  imports LruCache "HOL-Library.Multiset"
begin

text \<open>The cache stays within its bound, evicts in order of use and no more than needed, and returns what was put.\<close>

subsection \<open>Scanning the directory\<close>

definition cache_keys :: "lru_cache \<Rightarrow> string set" where
  "cache_keys c = fst ` set (cache_files c)"

definition cache_total :: "lru_cache \<Rightarrow> nat" where
  "cache_total c = sum_list (map (\<lambda>(k, v). length v) (cache_files c))"

text \<open>Every cache file has its \<^verbatim>\<open>-atime\<close> file.\<close>

definition lru_ok :: "lru_cache \<Rightarrow> bool" where
  "lru_ok c \<longleftrightarrow> distinct (map fst (cache_files c)) \<and> (\<forall>k \<in> cache_keys c. atime_files c k \<noteq> None)"

definition entry_of :: "lru_cache \<Rightarrow> string \<times> string \<Rightarrow> cache_entry" where
  "entry_of c = (\<lambda>(k, v). (the (atime_files c k), k, length v))"

abbreviation entry_key :: "cache_entry \<Rightarrow> string" where "entry_key e \<equiv> fst (snd e)"
abbreviation entry_size :: "cache_entry \<Rightarrow> nat" where "entry_size e \<equiv> snd (snd e)"

lemma cache_scan_ok:
  assumes "lru_ok c"
  obtains h where "cache_scan c = Inr (h, int (cache_total c))" "mset h = mset (map (entry_of c) (cache_files c))"
    "sorted h"
proof -
  let ?f = "\<lambda>(key, val) (h, dir_size). case atime_files c key of
      None \<Rightarrow> Inl FileNotFoundError
    | Some file_atime \<Rightarrow> Inr (heappush (file_atime, key, length val) h, dir_size + int (length val))"
  have "\<exists>h'. rfold ?f files (h, n) = Inr (h', n + int (sum_list (map (\<lambda>(k, v). length v) files))) \<and>
      mset h' = mset (map (entry_of c) files) + mset h \<and> sorted h'"
    if "set files \<subseteq> set (cache_files c)" "sorted h" for files h n
    using that
  proof (induction files arbitrary: h n)
    case (Cons kv files)
    obtain k v where kv: "kv = (k, v)" by (cases kv)
    then have "k \<in> cache_keys c" using Cons.prems(1) by (force simp: cache_keys_def)
    then obtain t where t: "atime_files c k = Some t" using assms by (auto simp: lru_ok_def)
    have "sorted (heappush (t, k, length v) h)" using Cons.prems(2) by (simp add: heappush_def sorted_insort)
    from Cons.IH [OF _ this, of "n + int (length v)"] Cons.prems(1) show ?case
      by (auto simp: kv t entry_of_def heappush_def)
  qed simp
  from this [of "cache_files c" "[]" 0] show ?thesis
    by (auto simp: cache_scan_def cache_total_def intro: that)
qed

subsection \<open>Eviction\<close>

definition drop_keys :: "string set \<Rightarrow> lru_cache \<Rightarrow> lru_cache" where
  "drop_keys ks c = c\<lparr>cache_files := filter (\<lambda>(k, v). k \<notin> ks) (cache_files c),
     atime_files := (\<lambda>k. if k \<in> ks then None else atime_files c k)\<rparr>"

lemma drop_keys_insert: "drop_keys ks (drop_keys {k} c) = drop_keys (insert k ks) c"
proof -
  have "filter (\<lambda>x. (case x of (k', v) \<Rightarrow> k' \<notin> {k}) \<and> (case x of (k', v) \<Rightarrow> k' \<notin> ks)) files = filter (\<lambda>(k', v). k' \<notin> insert k ks) files"
    for files :: "(string \<times> string) list" by (intro filter_cong refl) auto
  then show ?thesis by (simp add: drop_keys_def fun_eq_iff)
qed

lemma drop_keys_empty: "drop_keys {} c = c"
  by (simp add: drop_keys_def)

lemma cache_unlink_ok:
  "k \<in> cache_keys c \<Longrightarrow> atime_files c k \<noteq> None \<Longrightarrow> cache_unlink c k = Inr (drop_keys {k} c)"
  by (auto simp: cache_unlink_def cache_keys_def drop_keys_def fun_eq_iff intro!: arg_cong [where f = "\<lambda>a. c\<lparr>cache_files := _, atime_files := a\<rparr>"])

lemma evict_loop_ok:
  assumes "distinct (map entry_key h)" "\<forall>e \<in> set h. entry_key e \<in> cache_keys c \<and> atime_files c (entry_key e) \<noteq> None" "0 \<le> target"
  shows "\<exists>j \<le> length h. evict_loop target h (int (sum_list (map entry_size h))) c = Inr (drop_keys (entry_key ` set (take j h)) c) \<and>
    int (sum_list (map entry_size (drop j h))) \<le> target \<and>
    (0 < j \<longrightarrow> target < int (sum_list (map entry_size (drop (j - 1) h))))"
  using assms(1,2)
proof (induction h arbitrary: c)
  case Nil
  then show ?case using assms(3) by (simp add: drop_keys_empty)
next
  case (Cons e h)
  obtain t k s where e: "e = (t, k, s)" by (cases e)
  let ?size = "int (sum_list (map entry_size (e # h)))"
  show ?case
  proof (cases "?size > target")
    case False
    then show ?thesis by (intro exI [of _ 0]) (simp add: e drop_keys_empty)
  next
    case True
    have un: "cache_unlink c k = Inr (drop_keys {k} c)" using Cons.prems(2) e by (intro cache_unlink_ok) auto
    have "\<forall>e' \<in> set h. entry_key e' \<in> cache_keys (drop_keys {k} c) \<and> atime_files (drop_keys {k} c) (entry_key e') \<noteq> None"
    proof
      fix e' assume e': "e' \<in> set h"
      then have "entry_key e' \<noteq> k" using Cons.prems(1) e by auto
      moreover have "entry_key e' \<in> cache_keys c \<and> atime_files c (entry_key e') \<noteq> None" using Cons.prems(2) e' by simp
      ultimately show "entry_key e' \<in> cache_keys (drop_keys {k} c) \<and> atime_files (drop_keys {k} c) (entry_key e') \<noteq> None"
        by (force simp: cache_keys_def drop_keys_def)
    qed
    from Cons.IH [OF _ this] Cons.prems(1) obtain j where j: "j \<le> length h"
      "evict_loop target h (int (sum_list (map entry_size h))) (drop_keys {k} c) = Inr (drop_keys (entry_key ` set (take j h)) (drop_keys {k} c))"
      "int (sum_list (map entry_size (drop j h))) \<le> target"
      "0 < j \<longrightarrow> target < int (sum_list (map entry_size (drop (j - 1) h)))"
      by auto
    have "evict_loop target (e # h) ?size c = Inr (drop_keys (entry_key ` set (take (Suc j) (e # h))) c)"
      using True un j(2) by (simp add: e drop_keys_insert)
    moreover have "target < int (sum_list (map entry_size (drop (Suc j - 1) (e # h))))"
      using True j(4) by (cases j) simp_all
    ultimately show ?thesis using j(1,3) by (intro exI [of _ "Suc j"]) simp
  qed
qed

text \<open>What is left over after the keys of a prefix of the heap are dropped is the rest of the heap.\<close>

lemma total_drop_keys:
  assumes "distinct (map fst (cache_files c))" "mset h = mset (map (entry_of c) (cache_files c))"
  shows "cache_total (drop_keys (entry_key ` set (take j h)) c) = sum_list (map entry_size (drop j h))"
proof -
  let ?K = "entry_key ` set (take j h)"
  have "mset (map entry_key h) = mset (map (\<lambda>e. entry_key (entry_of c e)) (cache_files c))"
    using arg_cong [OF assms(2), of "image_mset entry_key"] by (simp add: multiset.map_comp comp_def)
  also have "map (\<lambda>e. entry_key (entry_of c e)) (cache_files c) = map fst (cache_files c)" by (simp add: entry_of_def split_beta)
  finally have d: "distinct (map entry_key h)" using assms(1) by (metis mset_eq_imp_distinct_iff)
  have "entry_key e \<notin> ?K" if "e \<in> set (drop j h)" for e
  proof -
    have "distinct (map entry_key (take j h) @ map entry_key (drop j h))" using d by (simp flip: map_append)
    then have "set (map entry_key (take j h)) \<inter> set (map entry_key (drop j h)) = {}" by (simp only: distinct_append)
    moreover have "entry_key e \<in> set (map entry_key (drop j h))" using that by simp
    ultimately have "entry_key e \<notin> set (map entry_key (take j h))" by blast
    then show ?thesis by simp
  qed
  then have "filter (\<lambda>e. entry_key e \<notin> ?K) (drop j h) = drop j h" by (simp add: filter_id_conv)
  moreover have "filter (\<lambda>e. entry_key e \<notin> ?K) (take j h) = []" by (auto simp: filter_empty_conv)
  ultimately have rest: "filter (\<lambda>e. entry_key e \<notin> ?K) h = drop j h"
    using filter_append [of "\<lambda>e. entry_key e \<notin> ?K" "take j h" "drop j h"] by simp
  have "cache_total (drop_keys ?K c) = sum_list (map entry_size (filter (\<lambda>e. entry_key e \<notin> ?K) (map (entry_of c) (cache_files c))))"
    by (simp add: cache_total_def drop_keys_def filter_map comp_def entry_of_def case_prod_unfold)
  also have "\<dots> = sum_list (map entry_size (filter (\<lambda>e. entry_key e \<notin> ?K) h))"
  proof -
    have "mset (map entry_size (filter P (map (entry_of c) (cache_files c)))) = mset (map entry_size (filter P h))" for P
      using assms(2) by simp
    then show ?thesis by (metis sum_mset_sum_list)
  qed
  finally show ?thesis unfolding rest .
qed

text \<open>
  C32: Putting a new value that is not larger than the bound into a cache of which every entry has a time stamp
  succeeds, and a following get returns it; the directory then is within the bound; every other entry is
  there unless it was evicted; no entry was evicted while one used earlier was kept; and nothing was
  evicted without need: with the last of the evicted entries the bound would have been exceeded.
\<close>

theorem put_keeps_cache_bounded:
  assumes ok: "lru_ok c" and fits: "int (length val) \<le> cache_max_size c"
    and key: "key \<noteq> []" "key \<notin> cache_keys c" and now: "now < 2 ^ 64" "later < 2 ^ 64"
  shows "\<exists>c' c'' evicted. cache_put c key val now = Inr c' \<and> cache_get c' key later = Inr (Some val, c'') \<and>
    lru_ok c' \<and> int (cache_total c') \<le> cache_max_size c' \<and> evicted \<subseteq> cache_keys c \<and>
    (\<forall>k. k \<noteq> key \<longrightarrow> map_of (cache_files c') k = (if k \<in> evicted then None else map_of (cache_files c) k)) \<and>
    (\<forall>k \<in> evicted. \<forall>k' \<in> cache_keys c - evicted. the (atime_files c k) \<le> the (atime_files c k')) \<and>
    (evicted = {} \<or> (\<exists>k \<in> evicted. cache_max_size c < int (cache_total c') + int (length (the (map_of (cache_files c) k)))))"
proof -
  obtain h where h: "cache_scan c = Inr (h, int (cache_total c))" "mset h = mset (map (entry_of c) (cache_files c))" "sorted h"
    by (rule cache_scan_ok [OF ok])
  have dist: "distinct (map fst (cache_files c))" using ok by (simp add: lru_ok_def)
  have mem: "e \<in> set h \<longleftrightarrow> (\<exists>k v. (k, v) \<in> set (cache_files c) \<and> e = (the (atime_files c k), k, length v))" for e
    using arg_cong [OF h(2), of set_mset] by (force simp: entry_of_def)
  have keys: "\<forall>e \<in> set h. entry_key e \<in> cache_keys c \<and> atime_files c (entry_key e) \<noteq> None"
    using ok by (force simp: mem cache_keys_def lru_ok_def)
  have total0: "int (sum_list (map entry_size h)) = int (cache_total c)"
    using total_drop_keys [OF dist h(2), of 0] by (simp add: drop_keys_empty)
  have "mset (map entry_key h) = mset (map fst (cache_files c))"
    using h(2) by (simp add: multiset.map_comp comp_def entry_of_def split_beta)
  then have dh: "distinct (map entry_key h)" using dist by (metis mset_eq_imp_distinct_iff)
  let ?target = "cache_max_size c - int (length val)"
  obtain j where j: "j \<le> length h" "evict_loop ?target h (int (cache_total c)) c = Inr (drop_keys (entry_key ` set (take j h)) c)"
    "int (sum_list (map entry_size (drop j h))) \<le> ?target"
    "0 < j \<longrightarrow> ?target < int (sum_list (map entry_size (drop (j - 1) h)))"
    using evict_loop_ok [OF dh keys, of ?target] fits unfolding total0 by auto
  define evicted where "evicted = entry_key ` set (take j h)"
  define d where "d = drop_keys evicted c"
  define c' where "c' = d\<lparr>cache_files := cache_files d @ [(key, val)], atime_files := (atime_files d)(key \<mapsto> now)\<rparr>"
  have en: "eviction_enabled c" "eviction_enabled d" "eviction_enabled c'"
    using fits by (simp_all add: eviction_enabled_def d_def c'_def drop_keys_def)
  have put: "cache_put c key val now = Inr c'"
    using key fits now en h(1) j(2)
    by (simp add: cache_put_def cache_keys_def evict_if_needed_def Let_def write_atime_def c'_def d_def evicted_def drop_keys_def eviction_enabled_def)
  have ev: "evicted \<subseteq> cache_keys c" using keys by (auto simp: evicted_def dest: in_set_takeD)
  have dk: "key \<notin> fst ` set (cache_files d)" using key(2) by (auto simp: d_def drop_keys_def cache_keys_def)
  have files: "map_of (cache_files c') k = (if k = key then Some val else if k \<in> evicted then None else map_of (cache_files c) k)" for k
  proof -
    have "map_of (filter (\<lambda>(k, v). k \<notin> evicted) files) k = (if k \<in> evicted then None else map_of files k)" for files :: "(string \<times> string) list"
      by (induction files) auto
    moreover have "map_of (cache_files d) key = None" using dk by (simp add: map_of_eq_None_iff)
    ultimately show ?thesis by (auto simp: c'_def d_def drop_keys_def map_add_def split: option.split)
  qed
  obtain c'' where get: "cache_get c' key later = Inr (Some val, c'')"
    using key(1) now(2) en(3) by (simp add: cache_get_def files write_atime_def)
  have "distinct (map fst (cache_files d))" using dist by (simp add: d_def drop_keys_def distinct_map_filter)
  then have ok': "lru_ok c'"
    using ok dk by (auto simp: lru_ok_def c'_def cache_keys_def d_def drop_keys_def)
  have total: "cache_total c' = sum_list (map entry_size (drop j h)) + length val"
    using total_drop_keys [OF dist h(2), of j] by (simp add: c'_def d_def evicted_def cache_total_def)
  have lru: "the (atime_files c k) \<le> the (atime_files c k')" if k: "k \<in> evicted" "k' \<in> cache_keys c - evicted" for k k'
  proof -
    obtain e where e: "e \<in> set (take j h)" "entry_key e = k" using k(1) by (auto simp: evicted_def)
    obtain v' where v': "(k', v') \<in> set (cache_files c)" using k(2) by (auto simp: cache_keys_def)
    then have e': "(the (atime_files c k'), k', length v') \<in> set h" using mem by blast
    moreover have "(the (atime_files c k'), k', length v') \<notin> set (take j h)" using k(2) by (force simp: evicted_def)
    ultimately have "(the (atime_files c k'), k', length v') \<in> set (drop j h)"
      by (metis Un_iff append_take_drop_id set_append)
    moreover have "sorted (take j h @ drop j h)" using h(3) by simp
    ultimately have "e \<le> (the (atime_files c k'), k', length v')" using e(1) unfolding sorted_append by blast
    moreover have "e \<in> set h" using e(1) by (rule in_set_takeD)
    ultimately show ?thesis using e(2) by (auto simp: mem less_eq_prod_def split: prod.splits)
  qed
  have minimal: "evicted = {} \<or> (\<exists>k \<in> evicted. cache_max_size c < int (cache_total c') + int (length (the (map_of (cache_files c) k))))"
  proof (cases j)
    case 0
    then show ?thesis by (simp add: evicted_def)
  next
    case (Suc i)
    let ?e = "h ! i"
    have i: "i < length h" using j(1) Suc by simp
    have drop: "drop i h = ?e # drop j h" unfolding Suc by (rule Cons_nth_drop_Suc [OF i, symmetric])
    have ein: "entry_key ?e \<in> evicted" using i Suc by (auto simp: evicted_def take_Suc_conv_app_nth)
    obtain k v where kv: "(k, v) \<in> set (cache_files c)" "?e = (the (atime_files c k), k, length v)"
      using i mem nth_mem by blast
    then have "map_of (cache_files c) (entry_key ?e) = Some v" using dist by simp
    moreover have "?target < int (entry_size ?e) + int (sum_list (map entry_size (drop j h)))" using j(4) Suc drop by simp
    ultimately show ?thesis using ein kv(2) total by (intro disjI2 bexI [of _ "entry_key ?e"]) auto
  qed
  have bound: "int (cache_total c') \<le> cache_max_size c'" using total j(3) by (simp add: c'_def d_def drop_keys_def)
  show ?thesis using put get ok' bound ev files lru minimal by - (rule exI [of _ c'], rule exI [of _ c''], rule exI [of _ evicted], auto)
qed

text \<open>A cache of three entries of two bytes, bounded by seven.\<close>

definition small_cache :: lru_cache where
  "small_cache = \<lparr>cache_max_size = 7, cache_files = [(''a'', ''xx''), (''b'', ''xx''), (''c'', ''xx'')],
     atime_files = [''a'' \<mapsto> 3, ''b'' \<mapsto> 1, ''c'' \<mapsto> 2]\<rparr>"

theorem put_keeps_cache_bounded_witness:
  "\<exists>c' c''. cache_put small_cache ''d'' ''xx'' 9 = Inr c' \<and> cache_get c' ''d'' 10 = Inr (Some ''xx'', c'') \<and> int (cache_total c') \<le> 7"
proof -
  have "lru_ok small_cache" "int (length ''xx'') \<le> cache_max_size small_cache" "''d'' \<notin> cache_keys small_cache"
    by (simp_all add: lru_ok_def small_cache_def cache_keys_def)
  from put_keeps_cache_bounded [OF this(1,2) _ this(3), of 9 10] obtain c' c'' where
    c: "cache_put small_cache ''d'' ''xx'' 9 = Inr c'" "cache_get c' ''d'' 10 = Inr (Some ''xx'', c'')" "int (cache_total c') \<le> cache_max_size c'"
    by auto
  have "cache_max_size c' = 7"
    using c(1) by (auto simp: cache_put_def small_cache_def evict_if_needed_def eviction_enabled_def cache_scan_def heappush_def
      cache_unlink_def write_atime_def Let_def)
  with c show ?thesis by auto
qed

text \<open>
  A cache that was written without a bound has no time stamps. With a bound it then cannot take a new
  value: the time stamp of an entry is not found.
\<close>

theorem unbounded_cache_cannot_be_bounded:
  assumes "eviction_enabled c" "int (length val) \<le> cache_max_size c" "key \<noteq> []" "key \<notin> cache_keys c"
    and "cache_files c \<noteq> []" "\<forall>k \<in> cache_keys c. atime_files c k = None"
  shows "cache_put c key val now = Inl FileNotFoundError"
proof -
  obtain k v files where f: "cache_files c = (k, v) # files" using assms(5) by (cases "cache_files c") auto
  then have "atime_files c k = None" using assms(6) by (simp add: cache_keys_def)
  then have "cache_scan c = Inl FileNotFoundError" by (simp add: cache_scan_def f)
  then show ?thesis using assms(1-4) by (simp add: cache_put_def evict_if_needed_def cache_keys_def)
qed

end
