(* ===== verification/Spec2Isabelle.thy ===== *)
theory Spec2Isabelle
  imports JaxprProps TypeMatch DtypeProps DimProps DimDecisionProps DimFloat DimParseProps DimSolveProps InterpProps PrngProps KeyReuseProps GpuBarrierProps LruCacheProps
begin

text \<open>
  A verification library for JAX: the Python code under \<^verbatim>\<open>src/jax\<close> that carries the logic of
  its own, as opposed to the libraries it binds.

  \<^bold>\<open>The program and its parts.\<close> JAX traces Python functions to jaxprs, typed first-order programs
  (\<^verbatim>\<open>core.py\<close>), and transforms jaxprs (\<^verbatim>\<open>interpreters/partial_eval.py\<close>) before handing them to a
  compiler. Operations on arrays promote dtypes along a lattice (\<^verbatim>\<open>dtypes.py\<close>). With shape
  polymorphism the dimensions in types are symbolic expressions (\<^verbatim>\<open>export/shape_poly.py\<close>) whose
  comparisons are decided by a bounds procedure (\<^verbatim>\<open>export/shape_poly_decision.py\<close>). Pallas kernels
  for TPUs can be run on the host by an interpreter that simulates devices, cores, semaphores and
  DMAs with threads and detects data races (\<^verbatim>\<open>pallas/mosaic/interpret\<close>); kernels for GPUs
  have a second one, with barriers between threads. Random numbers come from keys, arrays of words that
  are split and never shared (\<^verbatim>\<open>prng.py\<close>); a checker of jaxprs and of calls finds keys
  that are used twice (\<^verbatim>\<open>jax/experimental/key_reuse/_core.py\<close>). Compiled programs are kept in a cache on
  disk (\<^verbatim>\<open>lru_cache.py\<close>). The library models these nine parts; they share the list helpers of
  \<^verbatim>\<open>util.py\<close> and the effects of \<^verbatim>\<open>effects.py\<close>.

  \<^bold>\<open>Conventions.\<close> A Python expression that may raise is a value of \<open>py_exc + 'a\<close> (\<open>Prelude\<close>): every
  raise, failed assertion and failed lookup of the source is a branch \<open>Inl\<close>. Python integers are
  \<open>int\<close>; \<^verbatim>\<open>np.int32\<close> wraps around where the code has it (\<open>int32\<close> in \<open>RaceState\<close>). Dicts are maps, or
  association lists where their order is visible; mutable objects are records that an operation
  returns updated. Code outside the repository, or whose meaning is not the point, is a parameter:
  the evaluation of a primitive (\<open>bind\<close>), its typing rule, NumPy arrays (the record \<open>numpy\<close>).
  A loop that need not end has fuel, and \<open>None\<close> when the fuel runs out; that enough fuel exists is
  proved where it does.

  \<^bold>\<open>Jaxprs.\<close> \<open>PyUtil\<close> has \<^verbatim>\<open>util.py\<close>, \<open>Effects\<close> has \<^verbatim>\<open>effects.py\<close>. \<open>Jaxpr\<close> has the syntax, \<^verbatim>\<open>last_used\<close>,
  \<^verbatim>\<open>eval_jaxpr\<close> and the call primitives; nested jaxprs are equation parameters, and \<open>call_bind\<close>,
  which runs the interpreter on them, ends because they are smaller. \<open>JaxprEval\<close> shows that the
  interpreter, which frees variables after their last use, agrees with one that frees nothing.
  \<open>JaxprCheck\<close> has \<^verbatim>\<open>check_jaxpr\<close> with its effects and quasi-dynamic data and shows type soundness:
  a checked jaxpr fails only by an exception of a primitive, and returns values that conform to its types. No
  law of \<^verbatim>\<open>typematch\<close> is assumed (it is not transitive in the source): conforming allows a chain of matches.
  \<open>TypeMatch\<close> has \<^verbatim>\<open>typematch\<close> for array and reference types, which is equality up to weak types where no wildcard occurs.
  \<open>JaxprTransform\<close> and \<open>JaxprForward\<close> have the bookkeeping operations (reordering and pruning of
  inputs, constants as inputs, inferred effects, forwarding). \<open>JaxprDce\<close> and \<open>JaxprDceCorrect\<close> have
  dead code elimination with its rules for calls; the locale \<open>dce_contract\<close> says what the pass
  needs of a rule, and every rule of the source is an interpretation, the one for calls by
  induction on the nesting. \<open>JaxprPartialEval\<close> and \<open>JaxprPartialEvalCorrect\<close> have the split of a
  jaxpr into a known and a staged part by a policy, proved to recompute the original outputs.

  \<^bold>\<open>Dtypes.\<close> \<open>Dtypes\<close> has the promotion graph, its closure and joins; \<open>promotion_order\<close> states what
  the algorithm needs of a table of upper bounds (a partial order), and the tables that the code
  builds from its graph, standard and strict, are an interpretation.
  \<open>DtypeProps\<close> has the operations on top and the properties: joins are least upper bounds and
  independent of grouping, and where the user-facing functions are not.

  \<^bold>\<open>Symbolic dimensions.\<close> \<open>Comparator\<close> has the three-way comparisons (locale \<open>comparator_on\<close>) and the
  merge of sorted term lists. \<open>DimExpr\<close> and \<open>DimOps\<close> have factors, terms, expressions and their
  operations, \<open>DimEval\<close> their value under a valuation (locale \<open>scope_valuation\<close>): arithmetic commutes
  with evaluation and stays canonical. \<open>DimDivmod\<close> shows that \<^verbatim>\<open>_divmod\<close> computes floor division and
  remainder when it returns, that it returns for divisors of a single term, and a division on
  which it runs forever. \<open>DimDecision\<close> and \<open>DimCompare\<close> have the decision procedure with its
  constraint state and cache; the quotients it computes in floating point are modelled for numbers below
  \<open>2^53\<close>, where \<open>DimFloat\<close> shows them exact, and stop the model elsewhere; \<open>DimIntervals\<close>, \<open>DimSound\<close>, \<open>DimBounds\<close>, \<open>DimImplicit\<close> and \<open>DimScope\<close>
  show in the locale \<open>dim_semantics\<close>, interpreted on the environments of a scope, that constraints
  added to the state stay true and returned bounds are bounds. \<open>DimDecisionProps\<close> draws the
  consequences for comparisons, \<^verbatim>\<open>max\<close> and \<^verbatim>\<open>min\<close>. Even powers are excluded from the soundness
  theorems, because the code is wrong on them. \<open>DimParse\<close> has the printer, tokenizer and parser of symbolic shapes, and
  \<open>DimParseProps\<close> the round trip. \<open>DimSolve\<close> has the evaluation of expressions with symbolic values, the solver that expresses the dimension
  variables of a function by the sizes of its arguments and collects constraints
  (\<^verbatim>\<open>_solve_dim_equations\<close>), and the shape check of a call of an exported function
  (\<^verbatim>\<open>export/_export.py\<close>). \<open>DimSolveCorrect\<close> shows in the locale \<open>solving\<close> that every step keeps the
  solutions of the equations, neither losing nor adding one; \<open>DimSolveProps\<close> interprets it on the values in an environment and
  concludes that a call succeeds exactly when the actual sizes are those of the exported shapes for
  some values of the variables. The rounds of the solver are bounded by the number of equations, since every round but the last solves one.

  \<^bold>\<open>The TPU interpreter.\<close> \<open>InterpUtils\<close> has ranges, grid points and device numbering, \<open>RaceState\<close> vector
  clocks and the check of an access against earlier ones, \<open>SharedMem\<close> buffers, semaphores, DMAs and
  the callbacks \<^verbatim>\<open>get\<close>, \<^verbatim>\<open>store\<close>, \<^verbatim>\<open>swap\<close>, \<^verbatim>\<open>semaphore_signal\<close>, \<^verbatim>\<open>semaphore_wait\<close>, \<^verbatim>\<open>dma_start\<close> and
  \<^verbatim>\<open>dma_wait\<close>. A section of the code under a lock is one definition. \<open>HappensBefore\<close> runs these
  sections in any order and compares the clocks with the sets of events that causality gives: the
  clocks never order what causality does not order among cores, and order everything causality
  orders, with DMAs too. This is the claim of the comment of \<^verbatim>\<open>get_random_virtual_device_id\<close>. It needs
  fewer than \<open>2^31\<close> events, since clocks are 32-bit. \<open>Callbacks\<close> shows by a forward simulation that
  the callbacks run such sections. \<open>SemLiveness\<close> shows that waits return. The fuel of a wait with
  tasks is the number of tasks, because tasks add none; running out of tasks is blocking.

  \<^bold>\<open>The GPU interpreter.\<close> \<open>GpuBarrier\<close> has barriers (\<^verbatim>\<open>pallas/mosaic_gpu/interpret/shared_memory.py\<close>), which count
  arrivals to phases, the shared memory that holds them with the clocks of its threads, and the callbacks
  \<^verbatim>\<open>_barrier_arrive\<close> and \<^verbatim>\<open>_barrier_wait\<close> as sections under locks. \<open>GpuBarrierProps\<close> gives their outcome as a
  function of the operations so far and shows that threads which arrive and wait in turn never fail and
  never all block, that a wait orders clocks, and that the clocks do not reach beyond the first device.

  \<^bold>\<open>Random keys.\<close> \<open>Prng\<close> has the block function Threefry 2x32 on machine words, with its inverse, and the
  counts it is applied to. \<open>PrngKeys\<close> has the implementations \<^verbatim>\<open>threefry2x32\<close>, \<^verbatim>\<open>rbg\<close> and \<^verbatim>\<open>unsafe_rbg\<close> on
  one key: seeds, splitting, folding in, bits of 8 to 64 bits in both modes of
  \<^verbatim>\<open>jax_threefry_partitionable\<close>. \<open>PrngArrays\<close> has arrays of keys and the mapping of those operations over
  leading axes, with broadcasting; the locale \<open>prng_keys\<close> says what an implementation has to promise
  (its operations give keys of its shape), \<open>prng_bits\<close> extends it by bits, and the threefry and rbg
  implementations are interpretations. Arrays are their shape with their elements in row-major order, and
  XLA's own generator is a parameter, of which nothing is assumed.

  \<^bold>\<open>Key reuse.\<close> \<open>KeyReuse\<close> has the signatures of equations (inputs consumed, fresh outputs, outputs that are
  an input again, with masks for arrays of keys), the rules of the control-flow primitives, the pass
  over the equations of a jaxpr, and the checks around calls at run time. A frozenset is a list whose
  order is not used. \<open>KeyReuseCorrect\<close> follows every key to the variable it was first bound to and
  shows by an invariant of the dictionaries that the pass refuses exactly the jaxprs in which two
  uses overlap; \<open>KeyReuseCalls\<close> has the run-time store.
  \<open>KeyReuseExamples\<close> has programs on which the computed signatures of calls, conditionals, scans and while
  loops are wrong, so that reuse is accepted; of the rules for control flow the library therefore states no soundness. \<open>KeyReuseProps\<close> has the properties.

  \<^bold>\<open>The compilation cache.\<close> \<open>LruCache\<close> has the cache of compiled programs on disk (\<^verbatim>\<open>lru_cache.py\<close>) as a map of files
  with time stamps, and \<open>LruCacheProps\<close> shows that eviction keeps the bound, in order of use and no
  further than needed.

  \<^bold>\<open>Properties.\<close> The numbered properties are in \<open>JaxprProps\<close>, \<open>TypeMatch\<close>, \<open>DtypeProps\<close>, \<open>DimProps\<close>, \<open>DimDecisionProps\<close>,
  \<open>DimParseProps\<close>, \<open>DimSolveProps\<close>, \<open>InterpProps\<close>, \<open>PrngProps\<close>, \<open>KeyReuseProps\<close>, \<open>GpuBarrierProps\<close> and \<open>LruCacheProps\<close>, each with a
  witness on a concrete input where it has hypotheses.

  \<^bold>\<open>Not modelled.\<close> In the modelled files: debug information, source locations, printing and logging,
  caches and weak references (their results are recomputed), re-checks under \<^verbatim>\<open>enable_checks\<close>, the
  iteration order of Python sets of effects, custom partial evaluation rules and offloading of
  residuals to other memories, the tracing machinery, the wrap-around of dimension values at run time, float
  quotients of numbers from \<open>2^53\<close> on, shape assertions compiled into lowered modules, export and
  serialization themselves, NumPy's own dtype parsing; in the interpreter the threads as
  such (their lock sections are), calls of the garbage collector, and the interpretation of
  kernel jaxprs and grids; of random keys their sharding, lowering and devices, the kernel for GPUs,
  counts of symbolic size, and the samplers of \<^verbatim>\<open>random.py\<close>, which compute with floating-point numbers;
  of the key reuse checker the tracing of functions, messages and tracebacks; of the GPU interpreter reads,
  writes and transfers (they use the base class that the TPU interpreter uses). Other parts of the repository: tracing (\<^verbatim>\<open>api.py\<close>, \<^verbatim>\<open>linear_util.py\<close>, the
  interpreters for differentiation and batching, which consist of rules per primitive), lowering to
  MLIR and Pallas and Mosaic code generation (they build code of external dialects), the array
  libraries (\<^verbatim>\<open>lax\<close>, \<^verbatim>\<open>numpy\<close>, \<^verbatim>\<open>scipy\<close>, \<^verbatim>\<open>nn\<close>: compositions of primitives whose meaning is the
  compiler's), sharding and distributed runtime, which call the XLA client, and tests, benchmarks,
  documentation and builds.
\<close>

end
